(* ===== verification/Prelude.thy ===== *)
theory Prelude
  imports "HOL-Library.Word" "HOL-Library.Monad_Syntax"
begin

section \<open>Machine words, byte memory and the layout constants\<close>

text \<open>
  Shared by every theory: the integer types of \<open>include/types.h\<close> as words, a byte
  memory with the little-endian 32-bit accesses that the ARM code makes, the memory
  routines of \<open>init/init.c\<close> (\<open>user/string.c\<close> has the same text), the layout of
  \<open>include/memlayout.h\<close> and the address macros of \<open>include/mmu.h\<close>.

  A C function whose result may be an error code returns an \<open>int\<close> (negative on
  error, as in the code). A call that does not come back (\<open>panic\<close>, which loops, or
  the dereference of a null pointer) is the value \<open>None\<close> of an option; everything
  else is \<open>Some\<close>.
\<close>

unbundle bit_operations_syntax

type_synonym u8 = "8 word"
type_synonym u16 = "16 word"
type_synonym u32 = "32 word"
type_synonym mem = "u32 \<Rightarrow> u8"

named_theorems mem_simps "loads over stores, memset and memcpy"
named_theorems addr_simps "unsigned values of addresses"

subsection \<open>Error codes (\<open>include/error.h\<close>)\<close>

datatype errcode = E_UNSPECIFIED | E_BAD_ENV | E_INVAL | E_NO_MEM | E_NO_FREE_ENV
  | E_IPC_NOT_RECV | E_NO_DISK | E_MAX_OPEN | E_NOT_FOUND | E_BAD_PATH | E_FILE_EXISTS
  | E_NOT_EXEC

fun errno :: "errcode \<Rightarrow> int" where
  "errno E_UNSPECIFIED = 1"
| "errno E_BAD_ENV = 2"
| "errno E_INVAL = 3"
| "errno E_NO_MEM = 4"
| "errno E_NO_FREE_ENV = 5"
| "errno E_IPC_NOT_RECV = 6"
| "errno E_NO_DISK = 7"
| "errno E_MAX_OPEN = 8"
| "errno E_NOT_FOUND = 9"
| "errno E_BAD_PATH = 10"
| "errno E_FILE_EXISTS = 11"
| "errno E_NOT_EXEC = 12"

lemma errno_pos: "0 < errno e"
  by (cases e) simp_all

lemma errno_inj: "errno a = errno b \<longleftrightarrow> a = b"
  by (cases a; cases b) simp_all

subsection \<open>Layout (\<open>include/memlayout.h\<close>, \<open>include/types.h\<close>)\<close>

abbreviation (input) BY2PG :: u32 where "BY2PG \<equiv> 4096"
abbreviation (input) PDMAP :: u32 where "PDMAP \<equiv> 1048576"
abbreviation (input) DRAMBASE :: u32 where "DRAMBASE \<equiv> 0x40000000"
abbreviation (input) DRAMSIZE :: u32 where "DRAMSIZE \<equiv> 0x40000000"
abbreviation (input) IOVABASE :: u32 where "IOVABASE \<equiv> 0xC0000000"
abbreviation (input) IOPABASE :: u32 where "IOPABASE \<equiv> 0x01C00000"
abbreviation (input) IOPATOP :: u32 where "IOPATOP \<equiv> 0x01D00000"
abbreviation (input) ULIM :: u32 where "ULIM \<equiv> 0x80000000"
abbreviation (input) KERNTOP :: u32 where "KERNTOP \<equiv> ULIM + 8 * PDMAP"
abbreviation (input) UTOP :: u32 where "UTOP \<equiv> ULIM - 3 * PDMAP"
abbreviation (input) USTACKTOP :: u32 where "USTACKTOP \<equiv> UTOP - 2 * BY2PG"

definition ROUND :: "u32 \<Rightarrow> u32 \<Rightarrow> u32" where
  "ROUND a n = (a + n - 1) AND NOT (n - 1)"

definition ROUNDDOWN :: "u32 \<Rightarrow> u32 \<Rightarrow> u32" where
  "ROUNDDOWN a n = a AND NOT (n - 1)"

subsection \<open>Address macros and table bits (\<open>include/mmu.h\<close>)\<close>

definition PDX :: "u32 \<Rightarrow> u32" where
  "PDX va = drop_bit 20 va AND 0xFFF"

definition PTX :: "u32 \<Rightarrow> u32" where
  "PTX va = drop_bit 12 va AND 0xFF"

definition PPN :: "u32 \<Rightarrow> u32" where
  "PPN va = drop_bit 12 va"

abbreviation (input) PDE_SECTION :: u32 where "PDE_SECTION \<equiv> 0x10402"
abbreviation (input) PDE_SECTION_DEV :: u32 where "PDE_SECTION_DEV \<equiv> 0x10406"
abbreviation (input) PDE_SECTION_BASE_MASK :: u32 where "PDE_SECTION_BASE_MASK \<equiv> 0xFFF00000"
abbreviation (input) PDE_SUPER_SECTION :: u32 where "PDE_SUPER_SECTION \<equiv> 0x50402"
abbreviation (input) PDE_SUPER_SECTION_C :: u32 where "PDE_SUPER_SECTION_C \<equiv> 0x5040A"
abbreviation (input) PDE_SUPER_SECTION_BASE_MASK :: u32 where
  "PDE_SUPER_SECTION_BASE_MASK \<equiv> 0xFF000000"
abbreviation (input) PDE_PAGE_TABLE :: u32 where "PDE_PAGE_TABLE \<equiv> 0x21"
abbreviation (input) PTE_V :: u32 where "PTE_V \<equiv> 0x42A"
abbreviation (input) PTE_R :: u32 where "PTE_R \<equiv> 0x030"
abbreviation (input) PTE_LIBRARY :: u32 where "PTE_LIBRARY \<equiv> 0x001"

definition PTE_ADDR :: "u32 \<Rightarrow> u32" where
  "PTE_ADDR pte = pte AND 0xFFFFFC00"

definition PG_ADDR_BASE :: "u32 \<Rightarrow> u32" where
  "PG_ADDR_BASE content = content AND 0xFFFFF000"

definition PG_ADDR_OFFSET :: "u32 \<Rightarrow> u32" where
  "PG_ADDR_OFFSET va = va AND NOT 0xFFFFF000"

text \<open>\<open>PADDR\<close> and \<open>KADDR\<close> panic outside the kernel's window; \<open>npage\<close> is the page count.\<close>

definition PADDR :: "u32 \<Rightarrow> u32 option" where
  "PADDR kva = (if kva < ULIM then None
     else Some (if kva < IOVABASE then kva - ULIM + DRAMBASE else kva - IOVABASE + IOPABASE))"

definition KADDR :: "u32 \<Rightarrow> u32 \<Rightarrow> u32 option" where
  "KADDR npage pa = (if npage \<le> PPN (pa - DRAMBASE) then None else Some (pa - DRAMBASE + ULIM))"

subsection \<open>Loops that may not come back\<close>

fun foldM :: "('a \<Rightarrow> 's \<Rightarrow> 's option) \<Rightarrow> 'a list \<Rightarrow> 's \<Rightarrow> 's option" where
  "foldM f [] s = Some s"
| "foldM f (x # xs) s = do { s1 \<leftarrow> f x s; foldM f xs s1 }"

lemma foldM_append: "foldM f (xs @ ys) s = do { s1 \<leftarrow> foldM f xs s; foldM f ys s1 }"
  by (induction xs arbitrary: s) (auto split: Option.bind_split)

lemma foldM_snoc: "foldM f (xs @ [x]) s = foldM f xs s \<bind> f x"
proof -
  have "foldM f [] = Some" by (rule ext) simp
  then show ?thesis by (simp add: foldM_append)
qed

subsection \<open>Byte memory\<close>

definition load32 :: "mem \<Rightarrow> u32 \<Rightarrow> u32" where
  "load32 m a = ucast (m a) OR push_bit 8 (ucast (m (a + 1)))
     OR push_bit 16 (ucast (m (a + 2))) OR push_bit 24 (ucast (m (a + 3)))"

definition store32 :: "mem \<Rightarrow> u32 \<Rightarrow> u32 \<Rightarrow> mem" where
  "store32 m a v = m(a := ucast v, a + 1 := ucast (drop_bit 8 v),
     a + 2 := ucast (drop_bit 16 v), a + 3 := ucast (drop_bit 24 v))"

text \<open>\<open>memset\<close> and \<open>memcpy\<close>: the byte loops, counting up from the first byte.\<close>

fun memset :: "mem \<Rightarrow> u32 \<Rightarrow> u8 \<Rightarrow> nat \<Rightarrow> mem" where
  "memset m p v 0 = m"
| "memset m p v (Suc n) = memset (m(p := v)) (p + 1) v n"

fun memcpy :: "mem \<Rightarrow> u32 \<Rightarrow> u32 \<Rightarrow> nat \<Rightarrow> mem" where
  "memcpy m p q 0 = m"
| "memcpy m p q (Suc n) = memcpy (m(p := m q)) (p + 1) (q + 1) n"

text \<open>\<open>bcopy\<close> calls \<open>memcpy\<close> with the arguments swapped; \<open>bzero\<close> has no body in the
  sources, the compiler lowers it to \<open>memset\<close> with the value 0.\<close>

definition bcopy :: "mem \<Rightarrow> u32 \<Rightarrow> u32 \<Rightarrow> nat \<Rightarrow> mem" where
  "bcopy m src dst n = memcpy m dst src n"

definition bzero :: "mem \<Rightarrow> u32 \<Rightarrow> nat \<Rightarrow> mem" where
  "bzero m p n = memset m p 0 n"

text \<open>Address \<open>x\<close> lies in the \<open>n\<close> bytes from \<open>a\<close> on (addresses wrap around).\<close>

definition in_region :: "u32 \<Rightarrow> nat \<Rightarrow> u32 \<Rightarrow> bool" where
  "in_region a n x \<longleftrightarrow> unat (x - a) < n"

definition aligned :: "nat \<Rightarrow> u32 \<Rightarrow> bool" where
  "aligned n a \<longleftrightarrow> n dvd unat a"

subsection \<open>Facts on words and memory\<close>

lemma in_region_0 [simp]: "\<not> in_region a 0 x"
  by (simp add: in_region_def)

lemma in_region_base [simp]: "in_region a n a \<longleftrightarrow> 0 < n"
  by (simp add: in_region_def)

lemma unat_diff_Suc: "x \<noteq> a \<Longrightarrow> unat (x - (a + 1)) = unat (x - a) - 1" for x a :: u32
proof -
  assume "x \<noteq> a"
  then have "unat (x - a - 1) = unat (x - a) - 1" by (intro unat_minus_one) simp
  then show ?thesis by (simp add: diff_diff_add)
qed

lemma in_region_Suc:
  "in_region a (Suc n) x \<longleftrightarrow> x = a \<or> in_region (a + 1) n x" if "n < 2 ^ 32"
  unfolding in_region_def
proof (cases "x = a")
  case False
  then have "unat (x - a) \<noteq> 0" by (simp add: unat_eq_zero)
  then show "(unat (x - a) < Suc n) = (x = a \<or> unat (x - (a + 1)) < n)"
    using False by (simp add: unat_diff_Suc) linarith
qed simp

lemma memset_closed:
  "n \<le> 2 ^ 32 \<Longrightarrow> memset m p v n = (\<lambda>x. if in_region p n x then v else m x)"
proof (induction n arbitrary: m p)
  case (Suc n)
  then show ?case by (auto simp: in_region_Suc fun_eq_iff)
qed simp

lemma memcpy_closed:
  assumes "n \<le> 2 ^ 32"
    and "\<And>x. in_region q n x \<Longrightarrow> \<not> in_region p n x"
  shows "memcpy m p q n = (\<lambda>x. if in_region p n x then m (q + (x - p)) else m x)"
  using assms
proof (induction n arbitrary: m p q)
  case (Suc n)
  have sep: "\<not> in_region (p + 1) n x" if "in_region (q + 1) n x" for x
    using Suc.prems that by (simp add: in_region_Suc)
  have IH: "memcpy (m(p := m q)) (p + 1) (q + 1) n =
      (\<lambda>x. if in_region (p + 1) n x then (m(p := m q)) (q + 1 + (x - (p + 1))) else (m(p := m q)) x)"
    using Suc.prems(1) sep by (intro Suc.IH) simp_all
  have self: "\<not> in_region (p + 1) n p"
  proof -
    have "unat (p - (p + 1)) = 2 ^ 32 - 1" by (simp add: unsigned_minus_1_eq_mask mask_eq_exp_minus_1)
    then show ?thesis using Suc.prems(1) by (simp add: in_region_def)
  qed
  show ?case
  proof
    fix x
    show "memcpy m p q (Suc n) x = (if in_region p (Suc n) x then m (q + (x - p)) else m x)"
    proof (cases "x = p")
      case True
      then show ?thesis using self by (simp add: IH)
    next
      case False
      have iff: "in_region p (Suc n) x = in_region (p + 1) n x"
        using False Suc.prems(1) by (simp add: in_region_Suc)
      have idx: "q + 1 + (x - (p + 1)) = q + (x - p)" by simp
      show ?thesis
      proof (cases "in_region (p + 1) n x")
        case True
        have "q + (x - p) \<noteq> p"
        proof
          assume eq: "q + (x - p) = p"
          then have "p - q = x - p" by (metis add_diff_cancel_left')
          moreover have "unat (x - p) < Suc n" using True iff by (simp add: in_region_def)
          ultimately have "in_region q (Suc n) p" by (simp only: in_region_def)
          then show False using Suc.prems(2) [of p] by simp
        qed
        then show ?thesis using True iff by (simp add: IH idx)
      next
        case False
        then show ?thesis using iff \<open>x \<noteq> p\<close> by (simp add: IH)
      qed
    qed
  qed
qed simp

subsection \<open>32-bit accesses\<close>

lemma unat_u32: "unat (a :: u32) < 4294967296"
  using unsigned_less [of a] by simp

lemma unat_of_nat_u32: "n < 4294967296 \<Longrightarrow> unat (of_nat n :: u32) = n"
  by (simp add: unsigned_of_nat take_bit_nat_eq_self)

lemma aligned_0 [simp]: "aligned n 0"
  by (simp add: aligned_def)

lemma aligned_byte:
  assumes "aligned 4 a" and "j < 4"
  shows "unat (a + of_nat j) = unat a + j"
proof -
  have "unat a < 4294967296" by (rule unat_u32)
  moreover have "4 dvd unat a" using assms(1) by (simp add: aligned_def)
  ultimately have "unat a + j < 4294967296" using assms(2) by presburger
  moreover have "unat (of_nat j :: u32) = j"
    using assms(2) by (simp add: unsigned_of_nat take_bit_nat_eq_self)
  ultimately show ?thesis
    using unat_add_lem [of a "of_nat j"] by simp
qed

lemma aligned_bytes_differ:
  assumes "aligned 4 a" "aligned 4 b" "a \<noteq> b" "j < 4" "k < 4"
  shows "a + of_nat j \<noteq> b + of_nat k"
proof
  assume "a + of_nat j = b + of_nat k"
  then have "unat a + j = unat b + k"
    using assms by (metis aligned_byte)
  moreover have "4 dvd unat a" "4 dvd unat b" using assms by (simp_all add: aligned_def)
  ultimately have "unat a = unat b" using assms(4,5) by presburger
  then show False using assms(3) by (metis unsigned_word_eqI)
qed

lemma load32_store32_same [mem_simps]: "load32 (store32 m a v) a = v"
  unfolding load32_def store32_def
  apply (rule bit_word_eqI)
  apply (auto simp: bit_simps)
  subgoal for n by (cases "24 \<le> n") auto
  done

lemma load32_store32_other [mem_simps]:
  assumes "aligned 4 a" "aligned 4 b" "a \<noteq> b"
  shows "load32 (store32 m a v) b = load32 m b"
  using aligned_bytes_differ [OF assms, of 0 0] aligned_bytes_differ [OF assms, of 0 1]
    aligned_bytes_differ [OF assms, of 0 2] aligned_bytes_differ [OF assms, of 0 3]
    aligned_bytes_differ [OF assms, of 1 0] aligned_bytes_differ [OF assms, of 1 1]
    aligned_bytes_differ [OF assms, of 1 2] aligned_bytes_differ [OF assms, of 1 3]
    aligned_bytes_differ [OF assms, of 2 0] aligned_bytes_differ [OF assms, of 2 1]
    aligned_bytes_differ [OF assms, of 2 2] aligned_bytes_differ [OF assms, of 2 3]
    aligned_bytes_differ [OF assms, of 3 0] aligned_bytes_differ [OF assms, of 3 1]
    aligned_bytes_differ [OF assms, of 3 2] aligned_bytes_differ [OF assms, of 3 3]
  by (simp add: load32_def store32_def fun_upd_apply)

lemma store32_other_byte:
  "\<not> in_region a 4 x \<Longrightarrow> store32 m a v x = m x"
  unfolding store32_def in_region_def by auto

lemma load32_cong:
  "(\<And>x. in_region a 4 x \<Longrightarrow> m x = m' x) \<Longrightarrow> load32 m a = load32 m' a"
  by (simp add: load32_def in_region_def)

subsection \<open>Page offsets and regions\<close>

lemma push12: "push_bit 12 x = x * (4096 :: u32)"
  by (simp add: push_bit_eq_mult)

lemma unat_lessI: "p < (numeral k :: u32) \<Longrightarrow> unat p < unat (numeral k :: u32)"
  by (simp only: word_less_nat_alt)

lemma unat_drop_div: "unat (drop_bit n (w :: u32)) = unat w div 2 ^ n"
  by (simp only: unat_drop_bit_eq) (simp add: drop_bit_eq_div)

lemma unat_push12: "p < 0x100000 \<Longrightarrow> unat (push_bit 12 (p :: u32)) = unat p * 4096"
proof -
  assume "p < 0x100000"
  then have "unat p < 1048576" by (simp add: word_less_nat_alt)
  then show ?thesis by (simp add: push12 unat_word_ariths)
qed

lemma drop12_eq_0: "f < 0x1000 \<Longrightarrow> drop_bit 12 (f :: u32) = 0"
proof -
  assume f: "f < 0x1000"
  have "unat (drop_bit 12 f) = 0" using unat_lessI [OF f] by (simp only: unat_drop_div) simp
  then show ?thesis by (simp only: unat_eq_zero)
qed

lemma low12_bit: "f < 0x1000 \<Longrightarrow> bit (f :: u32) n \<Longrightarrow> n < 12"
proof -
  assume f: "f < 0x1000" and b: "bit f n"
  show "n < 12"
  proof (rule ccontr)
    assume "\<not> n < 12"
    then obtain k where "n = 12 + k" by (metis le_Suc_ex not_less)
    then have "bit (drop_bit 12 f) k" using b by (simp add: bit_drop_bit_eq)
    then show False using drop12_eq_0 [OF f] by simp
  qed
qed

lemma push12_and_low: "f < 0x1000 \<Longrightarrow> push_bit 12 x AND f = (0 :: u32)"
  by (rule bit_word_eqI) (auto simp: bit_simps dest: low12_bit)

lemma push12_or_low: "f < 0x1000 \<Longrightarrow> push_bit 12 x OR f = push_bit 12 x + (f :: u32)"
  by (simp add: disjunctive_add_eq_or push12_and_low)

lemma drop12_push12: "x < 0x100000 \<Longrightarrow> drop_bit 12 (push_bit 12 x) = (x :: u32)"
proof -
  assume x: "x < 0x100000"
  have "unat (drop_bit 12 (push_bit 12 x)) = unat x"
    by (simp only: unat_drop_div unat_push12 [OF x]) simp
  then show ?thesis by (rule unsigned_word_eqI)
qed

lemma mod4_unat: "(p :: u32) mod 4 = 0 \<longleftrightarrow> unat p mod 4 = 0"
  by (simp add: word_unat_eq_iff unat_mod)

lemma in_region_unat:
  assumes "unat a + n \<le> 2 ^ 32"
  shows "in_region a n x \<longleftrightarrow> unat a \<le> unat x \<and> unat x < unat a + n"
proof (cases "a \<le> x")
  case True
  then show ?thesis by (auto simp: in_region_def unat_sub word_le_nat_alt)
next
  case False
  then have "unat (x - a) = 2 ^ 32 + unat x - unat a" "unat x < unat a"
    by (simp_all add: unat_sub_if' word_le_nat_alt)
  then show ?thesis using assms by (simp add: in_region_def)
qed

lemma bzero_closed: "n \<le> 2 ^ 32 \<Longrightarrow> bzero m p n = (\<lambda>x. if in_region p n x then 0 else m x)"
  by (simp add: bzero_def memset_closed)

lemma push12_and_not_low: "f < 0x1000 \<Longrightarrow> push_bit 12 x AND NOT f = push_bit 12 (x :: u32)"
  by (rule bit_word_eqI) (auto simp: bit_simps dest: low12_bit)

end
