(* ===== verification/Queue.thy ===== *)
theory Queue
  imports Prelude
begin

section \<open>The linked lists of \<open>include/queue.h\<close>\<close>

text \<open>
  One \<open>lst\<close> gathers a list head (\<open>lh_first\<close>) with the link fields that the
  elements carry for it (\<open>le_next\<close>, \<open>le_prev\<close>): the kernel has three of them, the
  free pages (\<open>pp_link\<close>), the free environments (\<open>env_link\<close>) and the scheduled ones
  (\<open>env_sched_link\<close>). \<open>le_prev\<close> is the address of the pointer that points at the
  element: the head's or the \<open>le_next\<close> of another element; \<open>None\<close> is the null
  pointer, which the links of zeroed memory hold.

  The macros are modelled assignment by assignment, so links that a removal leaves
  behind in the removed element stay there, as in the code.
\<close>

datatype 'p slot = HeadOf | NextOf 'p

record 'p lst =
  lh_first :: "'p option"
  le_next :: "'p \<Rightarrow> 'p option"
  le_prev :: "'p \<Rightarrow> 'p slot option"

definition LIST_EMPTY :: "'p lst \<Rightarrow> bool" where
  "LIST_EMPTY l \<longleftrightarrow> lh_first l = None"

definition LIST_FIRST :: "'p lst \<Rightarrow> 'p option" where
  "LIST_FIRST l = lh_first l"

definition LIST_NEXT :: "'p lst \<Rightarrow> 'p \<Rightarrow> 'p option" where
  "LIST_NEXT l elm = le_next l elm"

definition LIST_INIT :: "'p lst \<Rightarrow> 'p lst" where
  "LIST_INIT l = l\<lparr>lh_first := None\<rparr>"

definition LIST_INSERT_HEAD :: "'p \<Rightarrow> 'p lst \<Rightarrow> 'p lst" where
  "LIST_INSERT_HEAD elm l =
     (let l1 = l\<lparr>le_next := (le_next l)(elm := lh_first l)\<rparr>;
          l2 = (case lh_first l1 of
                  None \<Rightarrow> l1
                | Some f \<Rightarrow> l1\<lparr>le_prev := (le_prev l1)(f := Some (NextOf elm))\<rparr>);
          l3 = l2\<lparr>lh_first := Some elm\<rparr>
      in l3\<lparr>le_prev := (le_prev l3)(elm := Some HeadOf)\<rparr>)"

definition LIST_INSERT_AFTER :: "'p \<Rightarrow> 'p \<Rightarrow> 'p lst \<Rightarrow> 'p lst" where
  "LIST_INSERT_AFTER listelm elm l =
     (let l1 = l\<lparr>le_next := (le_next l)(elm := le_next l listelm)\<rparr>;
          l2 = (case le_next l1 listelm of
                  None \<Rightarrow> l1
                | Some n \<Rightarrow> l1\<lparr>le_prev := (le_prev l1)(n := Some (NextOf elm))\<rparr>);
          l3 = l2\<lparr>le_next := (le_next l2)(listelm := Some elm)\<rparr>
      in l3\<lparr>le_prev := (le_prev l3)(elm := Some (NextOf listelm))\<rparr>)"

text \<open>Writing through \<open>le_prev\<close>; through the null pointer it does not come back.\<close>

fun write_slot :: "'p slot option \<Rightarrow> 'p option \<Rightarrow> 'p lst \<Rightarrow> 'p lst option" where
  "write_slot None v l = None"
| "write_slot (Some HeadOf) v l = Some (l\<lparr>lh_first := v\<rparr>)"
| "write_slot (Some (NextOf p)) v l = Some (l\<lparr>le_next := (le_next l)(p := v)\<rparr>)"

definition LIST_INSERT_BEFORE :: "'p \<Rightarrow> 'p \<Rightarrow> 'p lst \<Rightarrow> 'p lst option" where
  "LIST_INSERT_BEFORE listelm elm l =
     (let l1 = l\<lparr>le_prev := (le_prev l)(elm := le_prev l listelm)\<rparr>;
          l2 = l1\<lparr>le_next := (le_next l1)(elm := Some listelm)\<rparr>
      in do {
        l3 \<leftarrow> write_slot (le_prev l2 listelm) (Some elm) l2;
        Some (l3\<lparr>le_prev := (le_prev l3)(listelm := Some (NextOf elm))\<rparr>)
      })"

definition LIST_REMOVE :: "'p \<Rightarrow> 'p lst \<Rightarrow> 'p lst option" where
  "LIST_REMOVE elm l =
     (let l1 = (case le_next l elm of
                  None \<Rightarrow> l
                | Some n \<Rightarrow> l\<lparr>le_prev := (le_prev l)(n := le_prev l elm)\<rparr>)
      in write_slot (le_prev l1 elm) (le_next l1 elm) l1)"

subsection \<open>The list a head represents\<close>

text \<open>
  \<open>chain l s f xs\<close>: from the pointer \<open>f\<close>, stored in slot \<open>s\<close>, the links run through
  \<open>xs\<close> and end with null, and every back link is right.
\<close>

fun chain :: "'p lst \<Rightarrow> 'p slot \<Rightarrow> 'p option \<Rightarrow> 'p list \<Rightarrow> bool" where
  "chain l s f [] \<longleftrightarrow> f = None"
| "chain l s f (x # xs) \<longleftrightarrow> f = Some x \<and> le_prev l x = Some s \<and> chain l (NextOf x) (le_next l x) xs"

definition lst_rep :: "'p lst \<Rightarrow> 'p list \<Rightarrow> bool" where
  "lst_rep l xs \<longleftrightarrow> distinct xs \<and> chain l HeadOf (lh_first l) xs"

lemma chain_frame:
  "(\<And>x. x \<in> set xs \<Longrightarrow> le_next l' x = le_next l x \<and> le_prev l' x = le_prev l x) \<Longrightarrow>
    chain l' s f xs = chain l s f xs"
  by (induction xs arbitrary: s f) auto

lemma chain_slot:
  "chain l s f xs \<Longrightarrow> xs \<noteq> [] \<Longrightarrow> le_prev l (hd xs) = Some s \<and> f = Some (hd xs)"
  by (cases xs) auto

text \<open>Changing the slot that points at the chain changes the back link of its first element only.\<close>

lemma chain_reslot:
  assumes "chain l s f xs" "distinct xs"
    and "\<And>x. x \<in> set xs \<Longrightarrow> le_next l' x = le_next l x"
    and "\<And>x. x \<in> set (tl xs) \<Longrightarrow> le_prev l' x = le_prev l x"
    and "xs \<noteq> [] \<Longrightarrow> le_prev l' (hd xs) = Some t"
  shows "chain l' t f xs"
proof (cases xs)
  case (Cons x ys)
  have "chain l' (NextOf x) (le_next l x) ys = chain l (NextOf x) (le_next l x) ys"
    using assms(3,4) Cons by (intro chain_frame) auto
  then show ?thesis using assms Cons by simp
qed (use assms(1) in simp)

lemma lst_rep_Nil: "lst_rep l [] \<longleftrightarrow> lh_first l = None"
  by (simp add: lst_rep_def)

lemma lst_rep_distinct: "lst_rep l xs \<Longrightarrow> distinct xs"
  by (simp add: lst_rep_def)

lemma lst_rep_first: "lst_rep l xs \<Longrightarrow> lh_first l = (case xs of [] \<Rightarrow> None | x # _ \<Rightarrow> Some x)"
  by (cases xs) (auto simp: lst_rep_def)

lemma lst_rep_unique: "lst_rep l xs \<Longrightarrow> lst_rep l ys \<Longrightarrow> xs = ys"
proof -
  have "chain l s f xs \<Longrightarrow> chain l s f ys \<Longrightarrow> xs = ys" for s f xs and ys :: "'a list"
  proof (induction xs arbitrary: s f ys)
    case Nil
    then show ?case by (cases ys) auto
  next
    case (Cons x xs)
    then show ?case by (cases ys) auto
  qed
  then show "lst_rep l xs \<Longrightarrow> lst_rep l ys \<Longrightarrow> xs = ys"
    by (auto simp: lst_rep_def)
qed

lemma LIST_INIT_rep: "lst_rep (LIST_INIT l) []"
  by (simp add: lst_rep_def LIST_INIT_def)

lemma LIST_INSERT_HEAD_rep:
  assumes "lst_rep l xs" "x \<notin> set xs"
  shows "lst_rep (LIST_INSERT_HEAD x l) (x # xs)"
proof -
  have ch: "chain l HeadOf (lh_first l) xs" and d: "distinct xs"
    using assms(1) by (auto simp: lst_rep_def)
  have "chain (LIST_INSERT_HEAD x l) (NextOf x) (lh_first l) xs"
  proof (rule chain_reslot [OF ch d])
    show "le_next (LIST_INSERT_HEAD x l) y = le_next l y" if "y \<in> set xs" for y
      using that assms(2) by (auto simp: LIST_INSERT_HEAD_def Let_def split: option.splits)
    show "le_prev (LIST_INSERT_HEAD x l) y = le_prev l y" if y: "y \<in> set (tl xs)" for y
    proof (cases xs)
      case (Cons z zs)
      then have "lh_first l = Some z" "y \<noteq> z" "y \<noteq> x" using ch d y assms(2) by auto
      then show ?thesis by (simp add: LIST_INSERT_HEAD_def)
    qed (use y in simp)
    show "le_prev (LIST_INSERT_HEAD x l) (hd xs) = Some (NextOf x)" if "xs \<noteq> []"
    proof (cases xs)
      case (Cons z zs)
      then have "lh_first l = Some z" "z \<noteq> x" using ch assms(2) by auto
      then show ?thesis using Cons by (simp add: LIST_INSERT_HEAD_def)
    qed (use that in simp)
  qed
  then show ?thesis
    using assms(2) d by (auto simp: lst_rep_def LIST_INSERT_HEAD_def Let_def split: option.splits)
qed

lemma chain_prev:
  "chain l s f (as @ x # bs) \<Longrightarrow>
    le_prev l x = Some (if as = [] then s else NextOf (last as)) \<and>
    chain l (NextOf x) (le_next l x) bs"
proof (induction as arbitrary: s f)
  case (Cons a as)
  then have "chain l (NextOf a) (le_next l a) (as @ x # bs)" by simp
  from Cons.IH [OF this] show ?case by simp
qed simp

lemma chain_unlink:
  assumes "chain l s f (as @ w # x # bs)" "distinct (as @ w # x # bs)"
    and "\<And>y. y \<noteq> w \<Longrightarrow> le_next l' y = le_next l y"
    and "le_next l' w = le_next l x"
    and "\<And>y. y \<notin> set (take 1 bs) \<Longrightarrow> le_prev l' y = le_prev l y"
    and "bs \<noteq> [] \<Longrightarrow> le_prev l' (hd bs) = Some (NextOf w)"
  shows "chain l' s f (as @ w # bs)"
  using assms
proof (induction as arbitrary: s f)
  case Nil
  have ch: "chain l (NextOf x) (le_next l x) bs" using Nil.prems(1) by simp
  have "chain l' (NextOf w) (le_next l x) bs"
  proof (rule chain_reslot [OF ch])
    show "distinct bs" using Nil.prems(2) by simp
    show "le_next l' y = le_next l y" if "y \<in> set bs" for y
    proof -
      have "y \<noteq> w" using that Nil.prems(2) by auto
      then show ?thesis by (rule Nil.prems(3))
    qed
    show "le_prev l' y = le_prev l y" if "y \<in> set (tl bs)" for y
    proof -
      have "y \<notin> set (take 1 bs)" using that Nil.prems(2) by (cases bs) auto
      then show ?thesis by (rule Nil.prems(5))
    qed
  qed (use Nil.prems(6) in blast)
  moreover have "w \<notin> set (take 1 bs)" using Nil.prems(2) by (cases bs) auto
  ultimately show ?case using Nil.prems(1,4,5) by simp
next
  case (Cons a as)
  have "a \<notin> set (take 1 bs)" "a \<noteq> w" using Cons.prems(2) by (cases bs; auto)+
  moreover have "chain l' (NextOf a) (le_next l a) (as @ w # bs)"
    by (rule Cons.IH) (use Cons.prems in auto)
  ultimately show ?case using Cons.prems(1,3,5) by simp
qed

lemma LIST_REMOVE_rep:
  assumes "lst_rep l (as @ x # bs)"
  shows "\<exists>l'. LIST_REMOVE x l = Some l' \<and> lst_rep l' (as @ bs)"
proof -
  have ch: "chain l HeadOf (lh_first l) (as @ x # bs)" and d: "distinct (as @ x # bs)"
    using assms by (auto simp: lst_rep_def)
  note px = chain_prev [OF ch]
  have nxt: "le_next l x = (case bs of [] \<Rightarrow> None | y # _ \<Rightarrow> Some y)"
    using px by (cases bs) auto
  have px': "bs \<noteq> [] \<Longrightarrow> hd bs \<noteq> x" using d by (cases bs) auto
  show ?thesis
  proof (cases as rule: rev_cases)
    case Nil
    let ?l1 = "(case le_next l x of None \<Rightarrow> l
        | Some n \<Rightarrow> l\<lparr>le_prev := (le_prev l)(n := le_prev l x)\<rparr>)"
    have eq: "LIST_REMOVE x l = Some (?l1\<lparr>lh_first := le_next l x\<rparr>)"
      using px Nil px' nxt by (auto simp: LIST_REMOVE_def Let_def split: option.splits list.splits)
    have "chain (?l1\<lparr>lh_first := le_next l x\<rparr>) HeadOf (le_next l x) bs"
      by (rule chain_reslot [OF conjunct2 [OF px]])
        (use d px Nil nxt in \<open>auto split: list.splits option.splits\<close>)
    then show ?thesis using eq d Nil by (auto simp: lst_rep_def)
  next
    case (snoc ws w)
    let ?l1 = "(case le_next l x of None \<Rightarrow> l
        | Some n \<Rightarrow> l\<lparr>le_prev := (le_prev l)(n := le_prev l x)\<rparr>)"
    let ?l' = "?l1\<lparr>le_next := (le_next ?l1)(w := le_next l x)\<rparr>"
    have eq: "LIST_REMOVE x l = Some ?l'"
      using px snoc px' nxt by (auto simp: LIST_REMOVE_def Let_def split: option.splits list.splits)
    have "chain ?l' HeadOf (lh_first l) (ws @ w # bs)"
      by (rule chain_unlink [of l _ _ ws w x bs])
        (use ch d px snoc nxt in \<open>auto split: list.splits option.splits\<close>)
    moreover have "lh_first ?l' = lh_first l" by (auto split: option.splits)
    ultimately show ?thesis using eq d snoc by (auto simp: lst_rep_def)
  qed
qed

lemma lst_rep_frame:
  assumes "lst_rep l xs" "lh_first l' = lh_first l"
    and "\<And>x. x \<in> set xs \<Longrightarrow> le_next l' x = le_next l x \<and> le_prev l' x = le_prev l x"
  shows "lst_rep l' xs"
  using assms chain_frame [of xs l' l HeadOf "lh_first l"] by (simp add: lst_rep_def)

text \<open>Taking the first element off changes no other link than the back link of the second.\<close>

lemma LIST_REMOVE_head:
  assumes "lst_rep l (x # xs)"
  shows "\<exists>l'. LIST_REMOVE x l = Some l' \<and> lst_rep l' xs \<and> le_next l' = le_next l"
proof -
  obtain l' where l': "LIST_REMOVE x l = Some l'" "lst_rep l' xs"
    using LIST_REMOVE_rep [of l "[]" x xs] assms by auto
  have px: "le_prev l x = Some HeadOf" "x \<notin> set xs" "chain l (NextOf x) (le_next l x) xs"
    using assms by (auto simp: lst_rep_def)
  then have "le_next l x \<noteq> Some x" by (cases xs) auto
  then have "le_next l' = le_next l"
    using l'(1) px(1) by (auto simp: LIST_REMOVE_def Let_def split: option.splits)
  then show ?thesis using l' by blast
qed

text \<open>An element pushed on the empty list and taken off again.\<close>

lemma LIST_push_remove_empty:
  "lh_first l = None \<Longrightarrow> LIST_REMOVE x (LIST_INSERT_HEAD x l) =
    Some (l\<lparr>le_next := (le_next l)(x := None), le_prev := (le_prev l)(x := Some HeadOf)\<rparr>)"
  by (simp add: LIST_REMOVE_def LIST_INSERT_HEAD_def)

lemma LIST_REMOVE_unlinked:
  "le_prev l x = None \<Longrightarrow> le_next l x \<noteq> Some x \<Longrightarrow> LIST_REMOVE x l = None"
  by (auto simp: LIST_REMOVE_def Let_def split: option.splits)

lemma chain_append_mid:
  "chain l s f (as @ w # bs) \<Longrightarrow> chain l (NextOf w) (le_next l w) bs"
  by (drule chain_prev) simp

subsection \<open>The interface the kernel's components use\<close>

text \<open>
  What a client may rely on: the operations follow the represented list, from any
  state of the links that represents one. \<open>rep q xs\<close> is the abstraction.
\<close>

locale linked_list =
  fixes rep :: "'q \<Rightarrow> 'p list \<Rightarrow> bool"
    and first :: "'q \<Rightarrow> 'p option"
    and init :: "'q \<Rightarrow> 'q"
    and push :: "'p \<Rightarrow> 'q \<Rightarrow> 'q"
    and unlink :: "'p \<Rightarrow> 'q \<Rightarrow> 'q option"
  assumes rep_distinct: "rep q xs \<Longrightarrow> distinct xs"
    and rep_first: "rep q xs \<Longrightarrow> first q = (case xs of [] \<Rightarrow> None | x # _ \<Rightarrow> Some x)"
    and rep_init: "rep (init q) []"
    and rep_push: "rep q xs \<Longrightarrow> x \<notin> set xs \<Longrightarrow> rep (push x q) (x # xs)"
    and rep_unlink: "rep q (as @ x # bs) \<Longrightarrow> \<exists>q'. unlink x q = Some q' \<and> rep q' (as @ bs)"
begin

definition pop :: "'q \<Rightarrow> ('p \<times> 'q) option" where
  "pop q = (case first q of None \<Rightarrow> None | Some x \<Rightarrow> map_option (Pair x) (unlink x q))"

lemma pop_Cons: "rep q (x # xs) \<Longrightarrow> \<exists>q'. unlink x q = Some q' \<and> rep q' xs"
  using rep_unlink [of q "[]" x xs] by simp

lemma first_Cons: "rep q (x # xs) \<Longrightarrow> first q = Some x"
  by (simp add: rep_first)

lemma first_None_iff: "rep q xs \<Longrightarrow> first q = None \<longleftrightarrow> xs = []"
  by (simp add: rep_first split: list.splits)

lemma unlink_mem:
  assumes "rep q xs" "x \<in> set xs"
  shows "\<exists>q'. unlink x q = Some q' \<and> rep q' (remove1 x xs)"
proof -
  obtain as bs where xs: "xs = as @ x # bs" and "x \<notin> set as"
    using split_list_first [OF assms(2)] by blast
  then have "remove1 x xs = as @ bs" by (simp add: remove1_append)
  then show ?thesis using rep_unlink assms(1) xs by metis
qed

lemma push_unlink:
  assumes "rep q xs" "x \<notin> set xs"
  shows "\<exists>q'. unlink x (push x q) = Some q' \<and> rep q' xs"
  by (rule pop_Cons) (rule rep_push [OF assms])

lemma pop_push: "rep q xs \<Longrightarrow> x \<notin> set xs \<Longrightarrow> \<exists>q'. pop (push x q) = Some (x, q') \<and> rep q' xs"
  using push_unlink [of q xs x] first_Cons [OF rep_push, of q xs x] by (auto simp: pop_def)

end

interpretation ll: linked_list lst_rep LIST_FIRST LIST_INIT LIST_INSERT_HEAD LIST_REMOVE
  by unfold_locales
    (simp_all add: LIST_FIRST_def lst_rep_distinct lst_rep_first LIST_INIT_rep
       LIST_INSERT_HEAD_rep LIST_REMOVE_rep)

end
