(* ===== verification/Kernel_State.thy ===== *)
theory Kernel_State
  imports Queue
begin

section \<open>The kernel's data (\<open>include/trap.h\<close>, \<open>include/env.h\<close>, \<open>include/pmap.h\<close>)\<close>

text \<open>
  The global variables of the kernel as one record. Pointers into the arrays \<open>pages\<close>
  and \<open>envs\<close> are their indices (\<open>u32\<close>), a null pointer is \<open>None\<close>; page directories and
  page tables live in the byte memory \<open>kmem\<close>, indexed by kernel virtual address, and a
  pointer to one is its address. The two arrays, the static variables and the saved
  trap frames are C objects apart from the page frames, so they are fields of their own.

  Not modelled: the debug output of \<open>printf\<close> (it changes no kernel variable), the
  caches, and the barrier instructions of the context switch.
\<close>

record trapframe =
  usr_sp :: u32
  usr_lr :: u32
  ori_cpsr :: u32
  regs :: "nat \<Rightarrow> u32"
  exc_pc :: u32

definition ENV_FREE :: u32 where "ENV_FREE = 0"
definition ENV_RUNNABLE :: u32 where "ENV_RUNNABLE = 1"
definition ENV_NOT_RUNNABLE :: u32 where "ENV_NOT_RUNNABLE = 2"

lemmas env_status_defs = ENV_FREE_def ENV_RUNNABLE_def ENV_NOT_RUNNABLE_def

record env =
  env_tf :: trapframe
  env_id :: u32
  env_parent_id :: u32
  env_status :: u32
  env_pgdir :: u32
  env_ttb :: u32
  env_pri :: u32
  env_ipc_value :: u32
  env_ipc_from :: u32
  env_ipc_recving :: u32
  env_ipc_dstva :: u32
  env_ipc_perm :: u32
  env_ipc_arg_whom :: u32
  env_ipc_arg_perm :: u32
  env_runs :: u32

record kstate =
  kmem :: mem
  npage :: u32
  freemem :: u32
  pp_ref :: "u32 \<Rightarrow> u16"
  page_free_list :: "u32 lst"
  boot_pgdir :: u32
  mCONTEXT :: u32
  envs :: "u32 \<Rightarrow> env"
  curenv :: "u32 option"
  env_free_list :: "u32 lst"
  env_sched_list :: "u32 lst"
  next_env_id :: u32
  sched_iter :: "u32 option"
  sched_ts :: int
  exc_tf :: trapframe  \<comment> \<open>the frame below \<open>EXCSTACK\<close>\<close>
  kern_tf :: trapframe  \<comment> \<open>the frame saved at \<open>KSTACKTOP\<close>\<close>
  tlb_ops :: "u32 list"  \<comment> \<open>operands of the TLB invalidations by address, latest first\<close>
  ttbr :: u32
  contextidr :: u32

abbreviation (input) NENV :: u32 where "NENV \<equiv> 1024"

definition ENVX :: "u32 \<Rightarrow> u32" where
  "ENVX envid = drop_bit 8 envid AND (NENV - 1)"

definition GET_ENV_ASID :: "u32 \<Rightarrow> u32" where
  "GET_ENV_ASID envid = envid AND 0xFF"

text \<open>Assignments to one field of one array element.\<close>

abbreviation set_ref :: "u32 \<Rightarrow> u16 \<Rightarrow> kstate \<Rightarrow> kstate" where
  "set_ref p r s \<equiv> s\<lparr>pp_ref := (pp_ref s)(p := r)\<rparr>"

abbreviation upd_env :: "u32 \<Rightarrow> (env \<Rightarrow> env) \<Rightarrow> kstate \<Rightarrow> kstate" where
  "upd_env e f s \<equiv> s\<lparr>envs := (envs s)(e := f (envs s e))\<rparr>"

text \<open>
  The state in which the boot code calls \<open>main\<close>: the static initialisers of the kernel
  (\<open>freemem = KERNTOP\<close>, null pointers, counters 0) over any contents \<open>m\<close> of the memory,
  with the boot page directory at address \<open>bp\<close>, which the linker chooses.
\<close>

definition null_lst :: "'p lst" where
  "null_lst = \<lparr>lh_first = None, le_next = (\<lambda>_. None), le_prev = (\<lambda>_. None)\<rparr>"

definition zero_tf :: trapframe where
  "zero_tf = \<lparr>usr_sp = 0, usr_lr = 0, ori_cpsr = 0, regs = (\<lambda>_. 0), exc_pc = 0\<rparr>"

definition zero_env :: env where
  "zero_env = \<lparr>env_tf = zero_tf, env_id = 0, env_parent_id = 0, env_status = 0, env_pgdir = 0,
     env_ttb = 0, env_pri = 0, env_ipc_value = 0, env_ipc_from = 0, env_ipc_recving = 0,
     env_ipc_dstva = 0, env_ipc_perm = 0, env_ipc_arg_whom = 0, env_ipc_arg_perm = 0,
     env_runs = 0\<rparr>"

definition power_on :: "mem \<Rightarrow> u32 \<Rightarrow> kstate" where
  "power_on m bp = \<lparr>kmem = m, npage = 0, freemem = KERNTOP, pp_ref = (\<lambda>_. 0),
     page_free_list = null_lst, boot_pgdir = bp, mCONTEXT = 0, envs = (\<lambda>_. zero_env),
     curenv = None, env_free_list = null_lst, env_sched_list = null_lst, next_env_id = 0,
     sched_iter = None, sched_ts = 0, exc_tf = zero_tf, kern_tf = zero_tf, tlb_ops = [],
     ttbr = 0, contextidr = 0\<rparr>"

end
