(* ===== verification/Pmap.thy ===== *)
theory Pmap
  imports Kernel_State
begin

section \<open>Physical pages and page tables (\<open>mm/pmap.c\<close>, \<open>include/pmap.h\<close>)\<close>

text \<open>
  The page allocator and the two-level ARM page tables. The functions follow
  \<open>mm/pmap.c\<close> statement by statement; results \<open>Inl e\<close> are the returns \<open>-e\<close> and
  \<open>Inr\<close> the success returns with what the code stores through its pointer argument.
\<close>

subsection \<open>Page numbers and addresses\<close>

definition page2pa :: "u32 \<Rightarrow> u32" where
  "page2pa pp = push_bit 12 pp + DRAMBASE"

definition pa2page :: "u32 \<Rightarrow> kstate \<Rightarrow> u32 option" where
  "pa2page pa s = (if npage s \<le> PPN (pa - DRAMBASE) then None else Some (PPN (pa - DRAMBASE)))"

definition page2kva :: "u32 \<Rightarrow> kstate \<Rightarrow> u32 option" where
  "page2kva pp s = KADDR (npage s) (page2pa pp)"

text \<open>The result \<open>~0\<close> means that \<open>va\<close> is not mapped.\<close>

definition va2pa :: "u32 \<Rightarrow> u32 \<Rightarrow> kstate \<Rightarrow> u32 option" where
  "va2pa pgdir va s =
     (let pde = load32 (kmem s) (pgdir + 4 * PDX va) in
      if pde AND PDE_SUPER_SECTION = PDE_SUPER_SECTION
      then Some ((pde AND PDE_SUPER_SECTION_BASE_MASK) OR (va AND NOT PDE_SUPER_SECTION_BASE_MASK))
      else if pde AND PDE_SECTION = PDE_SECTION
      then Some ((pde AND PDE_SECTION_BASE_MASK) OR (va AND NOT PDE_SECTION_BASE_MASK))
      else if pde AND PDE_PAGE_TABLE = PDE_PAGE_TABLE
      then do {
        p \<leftarrow> KADDR (npage s) (PTE_ADDR pde);
        let pte = load32 (kmem s) (p + 4 * PTX va);
        Some (if pte AND PTE_V = 0 then NOT 0 else PG_ADDR_BASE pte OR PG_ADDR_OFFSET va)
      }
      else Some (NOT 0))"

subsection \<open>Boot time\<close>

definition init_boot_pgdir :: "kstate \<Rightarrow> kstate" where
  "init_boot_pgdir s =
     (let put = (\<lambda>va v m. store32 m (boot_pgdir s + 4 * PDX va) v);
          m1 = fold (\<lambda>k. put (of_nat k * PDMAP) 0) [0..<2048] (kmem s);
          m2 = fold (\<lambda>k. put (of_nat k * PDMAP + ULIM)
                 (((of_nat k * PDMAP + DRAMBASE) AND PDE_SUPER_SECTION_BASE_MASK)
                   OR PDE_SUPER_SECTION_C)) [0..<1024] m1;
          m3 = fold (\<lambda>k. put (IOPABASE + of_nat k * PDMAP - IOPABASE + IOVABASE)
                 ((IOPABASE + of_nat k * PDMAP) OR PDE_SECTION_DEV)) [0..<1] m2
      in s\<lparr>kmem := m3\<rparr>)"

definition armv7_detect_memory :: "kstate \<Rightarrow> kstate" where
  "armv7_detect_memory s = s\<lparr>npage := drop_bit 12 DRAMSIZE\<rparr>"

definition alloc :: "u32 \<Rightarrow> u32 \<Rightarrow> bool \<Rightarrow> kstate \<Rightarrow> (u32 \<times> kstate) option" where
  "alloc n align clear s =
     (let alloced_mem = ROUND (freemem s) align;
          s1 = s\<lparr>freemem := alloced_mem + n\<rparr>;
          s2 = (if clear then s1\<lparr>kmem := bzero (kmem s1) alloced_mem (unat n)\<rparr> else s1)
      in if DRAMSIZE \<le> freemem s2 - ULIM then None else Some (alloced_mem, s2))"

text \<open>
  The two arrays that \<open>armv7_vm_init\<close> carves out are cleared: reference counts 0, all
  links null, all environments zero. \<open>sizeof(struct Page)\<close> is 12 and
  \<open>sizeof(struct Env)\<close> is 140 with the 32-bit ARM ABI.
\<close>

definition clear_links :: "'p lst \<Rightarrow> 'p lst" where
  "clear_links l = l\<lparr>le_next := (\<lambda>_. None), le_prev := (\<lambda>_. None)\<rparr>"

definition armv7_vm_init :: "kstate \<Rightarrow> kstate option" where
  "armv7_vm_init s = do {
     let s1 = s\<lparr>mCONTEXT := boot_pgdir s\<rparr>;
     (pages, s2) \<leftarrow> alloc (npage s1 * 12) BY2PG True s1;
     let s3 = s2\<lparr>pp_ref := (\<lambda>_. 0), page_free_list := clear_links (page_free_list s2)\<rparr>;
     (envsp, s4) \<leftarrow> alloc (NENV * 140) BY2PG True s3;
     Some (s4\<lparr>envs := (\<lambda>_. zero_env), env_free_list := clear_links (env_free_list s4),
              env_sched_list := clear_links (env_sched_list s4)\<rparr>)
   }"

definition page_init_free :: "u32 \<Rightarrow> kstate \<Rightarrow> kstate" where
  "page_init_free i s =
     (let s1 = set_ref i 0 s
      in if i mod 4 = 0
         then s1\<lparr>page_free_list := LIST_INSERT_HEAD i (page_free_list s1)\<rparr> else s1)"

definition page_init :: "kstate \<Rightarrow> kstate" where
  "page_init s =
     (let s1 = s\<lparr>page_free_list := LIST_INIT (page_free_list s)\<rparr>;
          s2 = s1\<lparr>freemem := ROUND (freemem s1) (BY2PG * 4)\<rparr>;
          l = drop_bit 12 (freemem s2 - ULIM);
          s3 = fold (\<lambda>k. set_ref (of_nat k) 1) [0..<unat l] s2
      in fold (\<lambda>k. page_init_free (of_nat k)) [unat l..<unat (npage s3)] s3)"

subsection \<open>The page allocator\<close>

definition page_alloc :: "kstate \<Rightarrow> ((errcode + u32) \<times> kstate) option" where
  "page_alloc s =
     (case LIST_FIRST (page_free_list s) of
        None \<Rightarrow> Some (Inl E_NO_MEM, s)
      | Some pp \<Rightarrow> do {
          fl \<leftarrow> LIST_REMOVE pp (page_free_list s);
          let s1 = s\<lparr>page_free_list := fl\<rparr>;
          kva \<leftarrow> page2kva pp s1;
          Some (Inr pp, s1\<lparr>kmem := bzero (kmem s1) kva 4096\<rparr>)
        })"

definition page_free :: "u32 \<Rightarrow> kstate \<Rightarrow> kstate option" where
  "page_free pp s =
     (if 0 < pp_ref s pp then Some s
      else if pp_ref s pp = 0
      then Some (s\<lparr>page_free_list := LIST_INSERT_HEAD pp (page_free_list s)\<rparr>)
      else None)"

definition page_decref :: "u32 option \<Rightarrow> kstate \<Rightarrow> kstate option" where
  "page_decref ppo s =
     (case ppo of
        None \<Rightarrow> Some s
      | Some pp \<Rightarrow>
          (let s1 = set_ref pp (pp_ref s pp - 1) s
           in if pp_ref s1 pp = 0 then page_free pp s1 else Some s1))"

subsection \<open>Page tables\<close>

text \<open>The addresses that are mapped by sections, which the page functions refuse.\<close>

definition section_va :: "u32 \<Rightarrow> bool" where
  "section_va va \<longleftrightarrow> ULIM \<le> va \<and> va < ULIM + DRAMSIZE
     \<or> IOVABASE \<le> va \<and> va < IOVABASE - IOPABASE + IOPATOP"

definition pgdir_walk ::
  "u32 \<Rightarrow> u32 \<Rightarrow> bool \<Rightarrow> kstate \<Rightarrow> ((errcode + u32 option) \<times> kstate) option" where
  "pgdir_walk pgdir va create s =
     (if section_va va then Some (Inl E_INVAL, s)
      else do {
        let entryp = pgdir + 4 * PDX va;
        let pde = load32 (kmem s) entryp;
        pgtable \<leftarrow> (if pde \<noteq> 0 then KADDR (npage s) (PTE_ADDR pde) else Some 0);
        if pde AND PDE_PAGE_TABLE \<noteq> PDE_PAGE_TABLE
        then if create
          then do {
            (r, s1) \<leftarrow> page_alloc s;
            (case r of
               Inl _ \<Rightarrow> Some (Inl E_NO_MEM, s1)
             | Inr ppage \<Rightarrow> do {
                 kva \<leftarrow> page2kva ppage s1;
                 let s2 = s1\<lparr>kmem := store32 (kmem s1) entryp (page2pa ppage OR PDE_PAGE_TABLE)\<rparr>;
                 let s3 = set_ref ppage (pp_ref s2 ppage + 1) s2;
                 Some (Inr (Some (kva + 4 * PTX va)), s3)
               })
          }
          else Some (Inr None, s)
        else Some (Inr (Some (pgtable + 4 * PTX va)), s)
      })"

definition tlb_invalidate :: "u32 \<Rightarrow> u32 \<Rightarrow> kstate \<Rightarrow> kstate" where
  "tlb_invalidate pgdir va s =
     (let va1 = ROUNDDOWN va BY2PG;
          va2 = (case curenv s of
                   None \<Rightarrow> va1
                 | Some e \<Rightarrow> if env_pgdir (envs s e) = pgdir
                             then va1 OR GET_ENV_ASID (env_id (envs s e)) else va1)
      in s\<lparr>tlb_ops := va2 # tlb_ops s\<rparr>)"

text \<open>The page and the address of its table entry, or nothing when \<open>va\<close> is not mapped.\<close>

definition page_lookup :: "u32 \<Rightarrow> u32 \<Rightarrow> kstate \<Rightarrow> (u32 \<times> u32) option option" where
  "page_lookup pgdir va s =
     (if section_va va then Some None
      else do {
        (r, s1) \<leftarrow> pgdir_walk pgdir va False s;
        (case r of
           Inr (Some pte) \<Rightarrow>
             if load32 (kmem s1) pte AND PTE_V = 0 then Some None
             else do { ppage \<leftarrow> pa2page (load32 (kmem s1) pte) s1; Some (Some (ppage, pte)) }
         | _ \<Rightarrow> Some None)
      })"

definition page_remove :: "u32 \<Rightarrow> u32 \<Rightarrow> kstate \<Rightarrow> kstate option" where
  "page_remove pgdir va s =
     (if section_va va then Some s
      else do {
        r \<leftarrow> page_lookup pgdir va s;
        (case r of
           None \<Rightarrow> Some s
         | Some (ppage, pte) \<Rightarrow> do {
             let s1 = set_ref ppage (pp_ref s ppage - 1) s;
             s2 \<leftarrow> (if pp_ref s1 ppage = 0 then page_free ppage s1 else Some s1);
             let s3 = s2\<lparr>kmem := store32 (kmem s2) pte 0\<rparr>;
             Some (tlb_invalidate pgdir va s3)
           })
      })"

text \<open>The part of \<open>page_insert\<close> from its second step on, with \<open>PERM\<close> computed.\<close>

definition page_insert_new ::
  "u32 \<Rightarrow> u32 \<Rightarrow> u32 \<Rightarrow> u32 \<Rightarrow> kstate \<Rightarrow> ((errcode + unit) \<times> kstate) option" where
  "page_insert_new pgdir pp va PERM s = do {
     let s1 = tlb_invalidate pgdir va s;
     (r, s2) \<leftarrow> pgdir_walk pgdir va True s1;
     (case r of
        Inl e \<Rightarrow> Some (Inl e, s2)
      | Inr None \<Rightarrow> None
      | Inr (Some pte) \<Rightarrow>
          let s3 = s2\<lparr>kmem := store32 (kmem s2) pte (page2pa pp OR PERM)\<rparr>
          in Some (Inr (), set_ref pp (pp_ref s3 pp + 1) s3))
   }"

definition page_insert ::
  "u32 \<Rightarrow> u32 \<Rightarrow> u32 \<Rightarrow> u32 \<Rightarrow> kstate \<Rightarrow> ((errcode + unit) \<times> kstate) option" where
  "page_insert pgdir pp va perm s =
     (if section_va va then Some (Inl E_INVAL, s)
      else do {
        let PERM = perm OR PTE_V;
        (r, s0) \<leftarrow> pgdir_walk pgdir va False s;
        let mapped = (case r of
            Inr (Some pte) \<Rightarrow> if load32 (kmem s0) pte AND PTE_V \<noteq> 0 then Some pte else None
          | _ \<Rightarrow> None);
        old \<leftarrow> (case mapped of
            None \<Rightarrow> Some None
          | Some pte \<Rightarrow> map_option (\<lambda>q. Some (pte, q)) (pa2page (load32 (kmem s0) pte) s0));
        (case old of
           Some (pte, q) \<Rightarrow>
             if q = pp
             then let s1 = tlb_invalidate pgdir va s0
                  in Some (Inr (), s1\<lparr>kmem := store32 (kmem s1) pte (page2pa pp OR PERM)\<rparr>)
             else do { s1 \<leftarrow> page_remove pgdir va s0; page_insert_new pgdir pp va PERM s1 }
         | None \<Rightarrow> page_insert_new pgdir pp va PERM s0)
      })"

text \<open>The data abort handler: it maps a fresh page at the faulting user address.\<close>

definition pageout :: "u32 \<Rightarrow> kstate \<Rightarrow> kstate option" where
  "pageout va s =
     (if 0x80000000 \<le> va then None
      else if PDX va \<le> 0 then None
      else do {
        (r, s1) \<leftarrow> page_alloc s;
        (case r of
           Inl _ \<Rightarrow> None
         | Inr p \<Rightarrow> do {
             let s2 = set_ref p (pp_ref s1 p + 1) s1;
             (_, s3) \<leftarrow> page_insert (mCONTEXT s2) p va (PTE_V OR PTE_R) s2;
             Some s3
           })
      })"

end
