(* ===== verification/Address.thy ===== *)
theory Address
  imports Pmap
begin

section \<open>Addresses of page frames and table entries\<close>

text \<open>
  The arithmetic that the page-table proofs share: the kernel virtual address of a page
  (\<open>frame\<close>), the entries of tables inside it, and the packing of a page's physical
  address with permission bits in an entry.
\<close>

definition frame :: "u32 \<Rightarrow> u32" where
  "frame p = push_bit 12 p + ULIM"

text \<open>The page that an entry maps, as \<open>pa2page\<close> computes it.\<close>

definition pte_page :: "u32 \<Rightarrow> u32" where
  "pte_page pte = PPN (pte - DRAMBASE)"

lemma unat_frame: "p < 0x40000 \<Longrightarrow> unat (frame p) = unat p * 4096 + 0x80000000"
proof -
  assume p: "p < 0x40000"
  then have "p < 0x100000" by (rule order.strict_trans) simp
  then have "unat (push_bit 12 p) = unat p * 4096" by (rule unat_push12)
  then show ?thesis
    unfolding frame_def using unat_lessI [OF p] by (simp add: unat_word_ariths)
qed

lemma page2pa_push: "page2pa p = push_bit 12 (p + 0x40000)"
  by (simp add: page2pa_def push12 algebra_simps)

lemma frame_push: "frame p = push_bit 12 (p + 0x80000)"
  by (simp add: frame_def push12 algebra_simps)

lemma add_0x40000: "p < 0x40000 \<Longrightarrow> p + 0x40000 < (0x100000 :: u32)"
  by unat_arith

lemma frame_eq_iff: "p < 0x40000 \<Longrightarrow> q < 0x40000 \<Longrightarrow> frame p = frame q \<longleftrightarrow> p = q"
  by (metis add_right_cancel mult_cancel2 unat_frame unsigned_word_eqI zero_neq_numeral)

lemma frame_neq_0 [simp]: "p < 0x40000 \<Longrightarrow> frame p \<noteq> 0"
  by (metis add_is_0 unat_frame unsigned_0 zero_neq_numeral)

subsection \<open>Entries: a page's physical address with permission bits\<close>

text \<open>The entries of an allocation unit (four frames): 4096 words from an aligned frame.\<close>

definition unit_page :: "u32 \<Rightarrow> bool" where
  "unit_page p \<longleftrightarrow> p < 0x40000 \<and> p mod 4 = 0"

lemma unit_page_less: "unit_page p \<Longrightarrow> p < 0x40000"
  by (simp add: unit_page_def)

lemma unat_entry:
  assumes "unit_page p" "i < 0x1000"
  shows "unat (frame p + 4 * i) = unat p * 4096 + 0x80000000 + 4 * unat i"
    and "4 dvd unat p"
proof -
  have p: "unat p < 262144" using assms(1) by (simp add: unit_page_def word_less_nat_alt)
  have i: "unat i < 4096" using assms(2) by (simp add: word_less_nat_alt)
  have "unat (p mod 4) = 0" using assms(1) by (simp add: unit_page_def)
  then have "unat p mod 4 = 0" by (simp only: unat_mod) simp
  then show d: "4 dvd unat p" by (simp add: mod_eq_0_iff_dvd)
  have "unat (4 * i) = 4 * unat i" using i by (simp add: unat_word_ariths)
  moreover obtain k where "unat p = 4 * k" using d by blast
  then have "unat p * 4096 + 4 * unat i < 0x80000000" using p i by simp
  ultimately show "unat (frame p + 4 * i) = unat p * 4096 + 0x80000000 + 4 * unat i"
    using unat_frame [of p] assms(1) by (simp add: unat_word_ariths unit_page_def)
qed

lemma entry_eq_iff:
  assumes "unit_page p" "i < 0x1000" "unit_page q" "j < 0x1000"
  shows "frame p + 4 * i = frame q + 4 * j \<longleftrightarrow> p = q \<and> i = j"
proof
  assume "frame p + 4 * i = frame q + 4 * j"
  then have eq: "unat p * 4096 + 4 * unat i = unat q * 4096 + 4 * unat j"
    using unat_entry(1) [OF assms(1,2)] unat_entry(1) [OF assms(3,4)] by simp
  obtain k l where kl: "unat p = 4 * k" "unat q = 4 * l"
    using unat_entry(2) [OF assms(1,2)] unat_entry(2) [OF assms(3,4)] by blast
  have ij: "unat i < 4096" "unat j < 4096"
    using assms by (simp_all add: word_less_nat_alt)
  have "k = l"
    using eq ij unfolding kl by (cases k l rule: linorder_cases) linarith+
  then show "p = q \<and> i = j" using eq kl by (simp add: word_unat_eq_iff)
qed simp

lemma aligned_entry: "unit_page p \<Longrightarrow> i < 0x1000 \<Longrightarrow> aligned 4 (frame p + 4 * i)"
  unfolding aligned_def by (simp add: unat_entry(1))

lemma entry_byte_in_frame:
  assumes "unit_page p" "unit_page q" "j < 0x1000" "k < 4"
  shows "in_region (frame p) 4096 (frame q + 4 * j + of_nat k) \<longleftrightarrow> p = q \<and> j < 0x400"
proof -
  obtain a b where ab: "unat p = 4 * a" "unat q = 4 * b"
    using unat_entry(2) assms(1,2,3) by blast
  have x: "unat (frame q + 4 * j + of_nat k) = 16384 * b + 0x80000000 + 4 * unat j + k"
    using aligned_byte [OF aligned_entry [OF assms(2,3)] assms(4)] unat_entry(1) [OF assms(2,3)] ab
    by simp
  have p: "unat (frame p) = 16384 * a + 0x80000000"
    using unat_frame [OF unit_page_less [OF assms(1)]] ab by simp
  have j: "unat j < 4096" using assms(3) by (simp add: word_less_nat_alt)
  have a: "a < 65536" using assms(1) ab by (simp add: unit_page_def word_less_nat_alt)
  have "in_region (frame p) 4096 (frame q + 4 * j + of_nat k) \<longleftrightarrow>
      16384 * a \<le> 16384 * b + 4 * unat j + k \<and> 16384 * b + 4 * unat j + k < 16384 * a + 4096"
  proof (subst in_region_unat)
    show "unat (frame p) + 4096 \<le> 2 ^ 32" using a by (simp add: p)
  qed (simp add: x p, linarith)
  also have "\<dots> \<longleftrightarrow> a = b \<and> unat j < 1024"
    using j assms(4) by (cases a b rule: linorder_cases) linarith+
  also have "\<dots> \<longleftrightarrow> p = q \<and> j < 0x400"
    using ab by (simp add: word_unat_eq_iff word_less_nat_alt)
  finally show ?thesis .
qed

lemma load_store_entry [mem_simps]:
  assumes "unit_page p" "unit_page q" "i < 0x1000" "j < 0x1000"
  shows "load32 (store32 m (frame p + 4 * i) v) (frame q + 4 * j) =
    (if p = q \<and> i = j then v else load32 m (frame q + 4 * j))"
  using entry_eq_iff [of p i q j] assms
  by (auto simp: load32_store32_same load32_store32_other aligned_entry)

lemma load_bzero_entry [mem_simps]:
  assumes "unit_page p" "unit_page q" "j < 0x1000"
  shows "load32 (bzero m (frame p) 4096) (frame q + 4 * j) =
    (if p = q \<and> j < 0x400 then 0 else load32 m (frame q + 4 * j))"
  using entry_byte_in_frame [OF assms, of 0] entry_byte_in_frame [OF assms, of 1]
    entry_byte_in_frame [OF assms, of 2] entry_byte_in_frame [OF assms, of 3]
  by (simp add: load32_def bzero_closed)

lemma page2pa_or:
  "f < 0x1000 \<Longrightarrow> page2pa p OR f = push_bit 12 (p + 0x40000) + f"
  by (simp add: page2pa_push push12_or_low)

lemma entry_flags:
  "f < 0x1000 \<Longrightarrow> g < 0x1000 \<Longrightarrow> (page2pa p OR f) AND g = f AND g"
  by (simp add: page2pa_push bit.conj_disj_distrib2 push12_and_low)

lemma entry_base:
  "f < 0x1000 \<Longrightarrow> g < 0x1000 \<Longrightarrow> f AND NOT g = 0 \<Longrightarrow> (page2pa p OR f) AND NOT g = page2pa p"
  by (simp add: page2pa_push bit.conj_disj_distrib2 push12_and_not_low)

lemma PTE_ADDR_table [simp]: "PTE_ADDR (page2pa p OR PDE_PAGE_TABLE) = page2pa p"
proof -
  have "(0xFFFFFC00 :: u32) = NOT 0x3FF" by simp
  moreover have "(page2pa p OR PDE_PAGE_TABLE) AND NOT 0x3FF = page2pa p"
    by (rule entry_base) simp_all
  ultimately show ?thesis by (simp only: PTE_ADDR_def)
qed

lemma PG_ADDR_BASE_entry: "f < 0x1000 \<Longrightarrow> PG_ADDR_BASE (page2pa p OR f) = page2pa p"
proof -
  assume f: "f < 0x1000"
  have mask12: "(0xFFF :: u32) = mask 12" by (simp add: mask_eq_exp_minus_1)
  have "f AND NOT 0xFFF = 0"
  proof (rule bit_word_eqI)
    fix n
    show "bit (f AND NOT 0xFFF) n = bit 0 n"
      using low12_bit [OF f, of n] by (auto simp: mask12 bit_simps)
  qed
  then have "(page2pa p OR f) AND NOT 0xFFF = page2pa p"
    by (intro entry_base f) simp_all
  moreover have "(0xFFFFF000 :: u32) = NOT 0xFFF" by simp
  ultimately show ?thesis by (simp only: PG_ADDR_BASE_def)
qed

lemma pte_page_entry: "p < 0x40000 \<Longrightarrow> f < 0x1000 \<Longrightarrow> pte_page (page2pa p OR f) = p"
proof -
  assume p: "p < 0x40000" and f: "f < 0x1000"
  have "(page2pa p OR f) - DRAMBASE = push_bit 12 p + f"
    by (simp add: page2pa_or [OF f] push12 algebra_simps)
  then show ?thesis
    using drop12_push12 [of p] drop12_eq_0 [OF f] p
    by (simp add: pte_page_def PPN_def push12_or_low [OF f, symmetric] drop_bit_or
        order.strict_trans [OF p])
qed

lemma KADDR_page2pa: "p < 0x40000 \<Longrightarrow> KADDR n (page2pa p) = (if n \<le> p then None else Some (frame p))"
proof -
  assume p: "p < 0x40000"
  then have "PPN (page2pa p - DRAMBASE) = p"
    using drop12_push12 [of p] by (simp add: page2pa_def PPN_def order.strict_trans [OF p])
  then show ?thesis by (simp add: KADDR_def page2pa_def frame_def)
qed

lemma page2kva_frame: "p < 0x40000 \<Longrightarrow> p < npage s \<Longrightarrow> page2kva p s = Some (frame p)"
  by (simp add: page2kva_def KADDR_page2pa)

lemma pa2page_entry: "pa2page pte s = (if npage s \<le> pte_page pte then None else Some (pte_page pte))"
  by (simp add: pa2page_def pte_page_def)

end
