(* ===== verification/Pages.thy ===== *)
theory Pages
  imports Address
begin

section \<open>The page allocator: invariant, behaviour, self-test\<close>

text \<open>
  \<open>alloc_inv s xs\<close>: the free list represents \<open>xs\<close>, whose pages exist, start an
  allocation unit (\<open>page_init\<close> puts every fourth page on the list, so that a page
  directory of 16 KB fits) and are not referenced. Every operation of the allocator is
  described by its effect on \<open>xs\<close>, and \<open>page_init\<close> establishes the invariant.
\<close>

definition alloc_inv :: "kstate \<Rightarrow> u32 list \<Rightarrow> bool" where
  "alloc_inv s xs \<longleftrightarrow> npage s \<le> 0x40000 \<and> lst_rep (page_free_list s) xs \<and>
     (\<forall>p \<in> set xs. p < npage s \<and> p mod 4 = 0 \<and> pp_ref s p = 0)"

lemma alloc_inv_unit: "alloc_inv s xs \<Longrightarrow> p \<in> set xs \<Longrightarrow> unit_page p \<and> p < npage s \<and> pp_ref s p = 0"
  by (auto simp: alloc_inv_def unit_page_def)

lemma alloc_inv_distinct: "alloc_inv s xs \<Longrightarrow> distinct xs"
  unfolding alloc_inv_def by (blast dest: lst_rep_distinct)

lemma alloc_inv_referenced: "alloc_inv s xs \<Longrightarrow> 0 < pp_ref s p \<Longrightarrow> p \<notin> set xs"
  by (auto simp: alloc_inv_def)

text \<open>Only the free list, the reference counts and \<open>npage\<close> matter.\<close>

lemma alloc_inv_cong:
  "npage s' = npage s \<Longrightarrow> page_free_list s' = page_free_list s \<Longrightarrow> pp_ref s' = pp_ref s \<Longrightarrow>
    alloc_inv s' xs = alloc_inv s xs"
  by (simp add: alloc_inv_def)

lemma alloc_inv_set_ref: "alloc_inv s xs \<Longrightarrow> p \<notin> set xs \<Longrightarrow> alloc_inv (set_ref p r s) xs"
  by (auto simp: alloc_inv_def)

lemma page_alloc_empty: "alloc_inv s [] \<Longrightarrow> page_alloc s = Some (Inl E_NO_MEM, s)"
  by (simp add: page_alloc_def alloc_inv_def LIST_FIRST_def lst_rep_Nil)

lemma page_alloc_Cons:
  assumes "alloc_inv s (p # xs)"
  shows "\<exists>fl. page_alloc s = Some (Inr p,
      s\<lparr>page_free_list := fl, kmem := bzero (kmem s) (frame p) 4096\<rparr>) \<and> lst_rep fl xs"
proof -
  have rep: "lst_rep (page_free_list s) (p # xs)" using assms by (simp add: alloc_inv_def)
  obtain fl where fl: "LIST_REMOVE p (page_free_list s) = Some fl" "lst_rep fl xs"
    using ll.pop_Cons [OF rep] by blast
  have "page2kva p (s\<lparr>page_free_list := fl\<rparr>) = Some (frame p)"
    using alloc_inv_unit [OF assms, of p] by (intro page2kva_frame) (auto simp: unit_page_def)
  then show ?thesis
    using fl ll.first_Cons [OF rep] by (intro exI [of _ fl]) (simp add: page_alloc_def)
qed

lemma page_alloc_inv:
  assumes "alloc_inv s (p # xs)" "lst_rep fl xs"
  shows "alloc_inv (s\<lparr>page_free_list := fl, kmem := m\<rparr>) xs"
  using assms by (simp add: alloc_inv_def)

lemma page_allocE:
  assumes "alloc_inv s (p # xs)"
  obtains s' where "page_alloc s = Some (Inr p, s')" "alloc_inv s' xs"
    "s' = s\<lparr>page_free_list := page_free_list s', kmem := bzero (kmem s) (frame p) 4096\<rparr>"
    "pp_ref s' = pp_ref s" "npage s' = npage s"
proof -
  obtain fl where fl: "page_alloc s = Some (Inr p,
      s\<lparr>page_free_list := fl, kmem := bzero (kmem s) (frame p) 4096\<rparr>)" "lst_rep fl xs"
    using page_alloc_Cons [OF assms] by blast
  show ?thesis by (rule that [OF fl(1) page_alloc_inv [OF assms fl(2)]]) simp_all
qed

lemma page_free_total:
  "page_free p s = Some (if pp_ref s p = 0
     then s\<lparr>page_free_list := LIST_INSERT_HEAD p (page_free_list s)\<rparr> else s)"
  by (simp add: page_free_def word_neq_0_conv)

lemma page_free_inv:
  assumes "alloc_inv s xs" "p \<notin> set xs" "unit_page p" "p < npage s" "pp_ref s p = 0"
  shows "alloc_inv (s\<lparr>page_free_list := LIST_INSERT_HEAD p (page_free_list s)\<rparr>) (p # xs)"
  using assms by (auto simp: alloc_inv_def unit_page_def LIST_INSERT_HEAD_rep)

subsection \<open>\<open>page_init\<close>\<close>

lemma fold_set_ref:
  "fold (\<lambda>k. set_ref (f k) r) ks s = s\<lparr>pp_ref := (\<lambda>p. if p \<in> f ` set ks then r else pp_ref s p)\<rparr>"
  by (induction ks arbitrary: s) (auto simp: fun_eq_iff)

lemma of_nat_u32: "n < 0x40000 \<Longrightarrow> unat (of_nat n :: u32) = n"
  by (simp add: unsigned_of_nat take_bit_nat_eq_self)

lemma of_nat_mod4: "n < 0x40000 \<Longrightarrow> (of_nat n :: u32) mod 4 = 0 \<longleftrightarrow> n mod 4 = 0"
  by (simp add: word_unat_eq_iff unat_mod of_nat_u32)

lemma of_nat_eq_u32: "m < 0x40000 \<Longrightarrow> n < 0x40000 \<Longrightarrow> (of_nat m :: u32) = of_nat n \<longleftrightarrow> m = n"
  by (metis of_nat_u32)

definition page_init_list :: "nat \<Rightarrow> nat \<Rightarrow> u32 list" where
  "page_init_list l n = rev (map of_nat (filter (\<lambda>k. k mod 4 = 0) [l..<n]))"

lemma set_page_init_list: "set (page_init_list l n) = of_nat ` {k \<in> {l..<n}. k mod 4 = 0}"
  by (auto simp: page_init_list_def)

lemma page_init_list_Suc:
  "l \<le> n \<Longrightarrow> page_init_list l (Suc n) = (if n mod 4 = 0 then [of_nat n] else []) @ page_init_list l n"
  by (simp add: page_init_list_def)

lemma fold_page_init_free:
  assumes "n < 0x40001" "l \<le> n" "lst_rep (page_free_list s) []"
  shows "\<exists>fl. fold (\<lambda>k. page_init_free (of_nat k)) [l..<n] s =
      s\<lparr>pp_ref := (\<lambda>p. if p \<in> of_nat ` {l..<n} then 0 else pp_ref s p), page_free_list := fl\<rparr>
    \<and> lst_rep fl (page_init_list l n)"
  using assms
proof (induction n)
  case 0
  then show ?case by (intro exI [of _ "page_free_list s"]) (simp add: page_init_list_def)
next
  case (Suc n)
  show ?case
  proof (cases "l = Suc n")
    case True
    then show ?thesis using Suc.prems(3)
      by (intro exI [of _ "page_free_list s"]) (simp add: page_init_list_def)
  next
    case False
    then have l: "l \<le> n" using Suc.prems(2) by simp
    obtain fl where fl: "fold (\<lambda>k. page_init_free (of_nat k)) [l..<n] s =
        s\<lparr>pp_ref := (\<lambda>p. if p \<in> of_nat ` {l..<n} then 0 else pp_ref s p), page_free_list := fl\<rparr>"
      "lst_rep fl (page_init_list l n)"
      using Suc.IH l Suc.prems by auto
    have fresh: "(of_nat n :: u32) \<notin> set (page_init_list l n)"
      using Suc.prems(1) by (auto simp: set_page_init_list of_nat_eq_u32)
    have mod4: "(of_nat n :: u32) mod 4 = 0 \<longleftrightarrow> n mod 4 = 0"
      using Suc.prems(1) by (intro of_nat_mod4) simp
    have step: "fold (\<lambda>k. page_init_free (of_nat k)) [l..<Suc n] s = page_init_free (of_nat n)
        (s\<lparr>pp_ref := (\<lambda>p. if p \<in> of_nat ` {l..<n} then 0 else pp_ref s p), page_free_list := fl\<rparr>)"
      using l by (simp add: fl(1) [symmetric])
    have refs: "(\<lambda>p. if p \<in> of_nat ` {l..<n} then 0 else pp_ref s p)(of_nat n := 0) =
        (\<lambda>p. if p \<in> of_nat ` {l..<Suc n} then 0 else pp_ref s p)"
      using l by (auto simp: fun_eq_iff atLeastLessThanSuc)
    show ?thesis
    proof (cases "n mod 4 = 0")
      case True
      then show ?thesis
        using mod4 LIST_INSERT_HEAD_rep [OF fl(2) fresh] l
        unfolding step unfolding page_init_free_def
        by (intro exI [of _ "LIST_INSERT_HEAD (of_nat n) fl"]) (simp add: refs page_init_list_Suc)
    next
      case False
      then show ?thesis
        using mod4 fl(2) l
        unfolding step unfolding page_init_free_def
        by (intro exI [of _ fl]) (simp add: refs page_init_list_Suc)
    qed
  qed
qed

definition first_free :: "kstate \<Rightarrow> nat" where
  "first_free s = unat (drop_bit 12 (ROUND (freemem s) (BY2PG * 4) - ULIM))"

lemma page_init_state:
  assumes "npage s \<le> 0x40000" "first_free s \<le> unat (npage s)"
  shows "\<exists>fl. page_init s = s\<lparr>page_free_list := fl, freemem := ROUND (freemem s) (BY2PG * 4),
      pp_ref := (\<lambda>p. if p \<in> of_nat ` {first_free s..<unat (npage s)} then 0
                   else if p \<in> of_nat ` {0..<first_free s} then 1 else pp_ref s p)\<rparr>
    \<and> lst_rep fl (page_init_list (first_free s) (unat (npage s)))"
proof -
  let ?s = "s\<lparr>page_free_list := LIST_INIT (page_free_list s),
    freemem := ROUND (freemem s) (BY2PG * 4),
    pp_ref := (\<lambda>p. if p \<in> of_nat ` {0..<first_free s} then 1 else pp_ref s p)\<rparr>"
  have "unat (npage s) < 0x40001"
    using assms(1) by (simp add: word_le_nat_alt)
  then obtain fl where fl: "fold (\<lambda>k. page_init_free (of_nat k)) [first_free s..<unat (npage ?s)] ?s =
      ?s\<lparr>pp_ref := (\<lambda>p. if p \<in> of_nat ` {first_free s..<unat (npage s)} then 0 else pp_ref ?s p),
         page_free_list := fl\<rparr>"
    "lst_rep fl (page_init_list (first_free s) (unat (npage s)))"
    using fold_page_init_free [of "unat (npage s)" "first_free s" ?s] assms(2)
    by (auto simp: LIST_INIT_rep)
  have "page_init s = fold (\<lambda>k. page_init_free (of_nat k)) [first_free s..<unat (npage ?s)] ?s"
    by (simp add: page_init_def Let_def fold_set_ref first_free_def cong: if_cong)
  then show ?thesis using fl by (intro exI [of _ fl]) (simp add: fun_eq_iff)
qed

lemma page_init_list_mem:
  "n \<le> 0x40000 \<Longrightarrow> p \<in> set (page_init_list l n) \<longleftrightarrow> l \<le> unat p \<and> unat p < n \<and> p mod 4 = 0"
proof
  assume n: "n \<le> 0x40000" and "p \<in> set (page_init_list l n)"
  then obtain k where k: "p = of_nat k" "l \<le> k" "k < n" "k mod 4 = 0"
    by (auto simp: set_page_init_list)
  then have "unat p = k" using n by (simp add: of_nat_u32)
  then show "l \<le> unat p \<and> unat p < n \<and> p mod 4 = 0"
    using k n of_nat_mod4 [of k] by simp
next
  assume n: "n \<le> 0x40000" and p: "l \<le> unat p \<and> unat p < n \<and> p mod 4 = 0"
  then have "unat p mod 4 = 0" by (simp add: mod4_unat)
  then have "unat p \<in> {k \<in> {l..<n}. k mod 4 = 0}" using p by simp
  then have "of_nat (unat p) \<in> set (page_init_list l n)"
    unfolding set_page_init_list by (rule imageI)
  then show "p \<in> set (page_init_list l n)" by simp
qed

text \<open>Property. After \<open>page_init\<close> the pages below the first free one are in use (count 1),
  the others have count 0, and the free list holds exactly the unit-aligned pages among
  the latter, highest first.\<close>

theorem page_init_correct:
  assumes "npage s \<le> 0x40000" "first_free s \<le> unat (npage s)"
  shows "alloc_inv (page_init s) (page_init_list (first_free s) (unat (npage s)))
    \<and> (\<forall>p. p < npage s \<longrightarrow> pp_ref (page_init s) p = (if unat p < first_free s then 1 else 0))
    \<and> (\<forall>p. p \<in> set (page_init_list (first_free s) (unat (npage s))) \<longleftrightarrow>
          first_free s \<le> unat p \<and> p < npage s \<and> p mod 4 = 0)"
proof -
  obtain fl where s': "page_init s = s\<lparr>page_free_list := fl,
      freemem := ROUND (freemem s) (BY2PG * 4),
      pp_ref := (\<lambda>p. if p \<in> of_nat ` {first_free s..<unat (npage s)} then 0
                   else if p \<in> of_nat ` {0..<first_free s} then 1 else pp_ref s p)\<rparr>"
    and rep: "lst_rep fl (page_init_list (first_free s) (unat (npage s)))"
    using page_init_state [OF assms] by blast
  have n: "unat (npage s) \<le> 0x40000" using assms(1) by (simp add: word_le_nat_alt)
  have img: "p \<in> of_nat ` {l..<m} \<longleftrightarrow> l \<le> unat p \<and> unat p < m" if "m \<le> unat (npage s)" for p :: u32 and l m
  proof
    show "p \<in> of_nat ` {l..<m}" if "l \<le> unat p \<and> unat p < m"
      using that by (intro image_eqI [of _ _ "unat p"]) simp_all
  qed (use that n in \<open>auto simp: of_nat_u32\<close>)
  show ?thesis
    using rep n assms
    by (auto simp: s' alloc_inv_def page_init_list_mem [OF n] img word_less_nat_alt)
qed

text \<open>A machine with 2068 pages just after \<open>page_init\<close>: five units are free.\<close>

definition small_machine :: kstate where
  "small_machine = page_init ((power_on (\<lambda>_. 0) 0x80100000)\<lparr>npage := 2068\<rparr>)"

lemma small_machine_inv: "alloc_inv small_machine [2064, 2060, 2056, 2052, 2048]"
  "npage small_machine = 2068" "p \<in> {0..<2048} \<Longrightarrow> pp_ref small_machine p = 1"
proof -
  obtain s where s: "(power_on (\<lambda>_. 0) 0x80100000)\<lparr>npage := 2068\<rparr> = s" by blast
  have h: "npage s = 2068" "first_free s = 2048"
    by (simp_all add: s [symmetric] power_on_def first_free_def ROUND_def)
  have l: "page_init_list 2048 2068 = [2064, 2060, 2056, 2052, 2048]"
    by (simp add: page_init_list_def upt_rec [of "_ :: nat" "numeral _"])
  obtain fl where fl: "small_machine = s\<lparr>page_free_list := fl, freemem := ROUND (freemem s) (BY2PG * 4),
      pp_ref := (\<lambda>p. if p \<in> of_nat ` {2048..<2068} then 0
                   else if p \<in> of_nat ` {0..<2048} then 1 else pp_ref s p)\<rparr>"
    "lst_rep fl [2064, 2060, 2056, 2052, 2048]"
    using page_init_state [of s] h l by (auto simp: small_machine_def s cong: if_cong)
  have img: "p \<in> of_nat ` {m..<n} \<longleftrightarrow> m \<le> unat p \<and> unat p < n" if "n < 0x40000" for p :: u32 and m n
    using that by (auto simp: of_nat_u32 intro: image_eqI [of _ _ "unat p"])
  show n: "npage small_machine = 2068" by (simp add: fl(1) h)
  show "alloc_inv small_machine [2064, 2060, 2056, 2052, 2048]"
    using fl(2) n by (simp add: alloc_inv_def) (simp add: fl(1) img)
  show "pp_ref small_machine p = 1" if "p \<in> {0..<2048}"
    using that by (auto simp: fl(1) img word_less_nat_alt)
qed

theorem page_init_correct_witness:
  fixes s defines "s \<equiv> armv7_detect_memory (power_on (\<lambda>_. 0) 0x80100000)"
  shows "alloc_inv (page_init s) (page_init_list 2048 262144) \<and> pp_ref (page_init s) 5 = 1
    \<and> 2048 \<in> set (page_init_list 2048 262144)"
proof -
  have h: "npage s = 0x40000" "first_free s = 2048"
    by (simp_all add: s_def armv7_detect_memory_def power_on_def first_free_def ROUND_def)
  then have "npage s \<le> 0x40000" "first_free s \<le> unat (npage s)" by simp_all
  from page_init_correct [OF this] show ?thesis by (simp add: h)
qed

subsection \<open>Allocating and freeing\<close>

text \<open>Property. \<open>page_alloc\<close> takes the first page of the free list and clears its 4096
  bytes, or returns \<open>-E_NO_MEM\<close> with nothing changed when the list is empty; no other
  byte and no reference count changes.\<close>

theorem page_alloc_correct:
  assumes "alloc_inv s xs"
  shows "case xs of
      [] \<Rightarrow> page_alloc s = Some (Inl E_NO_MEM, s)
    | p # ys \<Rightarrow> \<exists>s'. page_alloc s = Some (Inr p, s') \<and> alloc_inv s' ys
        \<and> page2kva p s' = Some (frame p)
        \<and> (\<forall>x. kmem s' x = (if in_region (frame p) 4096 x then 0 else kmem s x))
        \<and> pp_ref s' = pp_ref s \<and> pp_ref s' p = 0 \<and> p \<notin> set ys"
proof (cases xs)
  case Nil
  then show ?thesis using page_alloc_empty assms by simp
next
  case (Cons p ys)
  obtain fl where fl: "page_alloc s = Some (Inr p,
      s\<lparr>page_free_list := fl, kmem := bzero (kmem s) (frame p) 4096\<rparr>)" "lst_rep fl ys"
    using page_alloc_Cons assms Cons by blast
  have "unit_page p" "p < npage s" "pp_ref s p = 0" "p \<notin> set ys"
    using alloc_inv_unit [OF assms, of p] alloc_inv_distinct [OF assms] Cons by auto
  then show ?thesis
    using fl assms Cons by (auto simp: page_alloc_inv bzero_closed page2kva_frame unit_page_def)
qed

theorem page_alloc_correct_witness:
  "\<exists>s'. page_alloc small_machine = Some (Inr 2064, s') \<and> alloc_inv s' [2060, 2056, 2052, 2048]
    \<and> page2kva 2064 s' = Some 0x80810000"
  using page_alloc_correct [OF small_machine_inv(1)] by (auto simp: frame_def)

text \<open>Dropping the last reference puts the page back; the next allocation returns it.\<close>

lemma page_decref_last:
  assumes "alloc_inv s xs" "p \<notin> set xs" "unit_page p" "p < npage s" "pp_ref s p = 1"
  shows "\<exists>s'. page_decref (Some p) s = Some s' \<and> alloc_inv s' (p # xs)
    \<and> s' = s\<lparr>pp_ref := (pp_ref s)(p := 0), page_free_list := LIST_INSERT_HEAD p (page_free_list s)\<rparr>"
  using assms page_free_inv [OF alloc_inv_set_ref [OF assms(1,2), of 0], of p]
  by (simp add: page_decref_def page_free_total)

lemma page_decref_shared:
  "pp_ref s p \<noteq> 1 \<Longrightarrow> page_decref (Some p) s = Some (set_ref p (pp_ref s p - 1) s)"
  by (simp add: page_decref_def Let_def)

text \<open>Property. A page whose last reference is dropped by \<open>page_decref\<close> goes to the head of
  the free list, the very next \<open>page_alloc\<close> hands it out again, cleared, and leaves the free
  list as it was before.\<close>

theorem page_decref_alloc_roundtrip:
  assumes "alloc_inv s xs" "p \<notin> set xs" "unit_page p" "p < npage s" "pp_ref s p = 1"
  shows "\<exists>s' s''. page_decref (Some p) s = Some s' \<and> page_alloc s' = Some (Inr p, s'')
    \<and> alloc_inv s'' xs \<and> kmem s'' = bzero (kmem s) (frame p) 4096"
proof -
  obtain s' where s': "page_decref (Some p) s = Some s'" "alloc_inv s' (p # xs)" "kmem s' = kmem s"
    using page_decref_last [OF assms] by auto
  obtain fl where fl: "page_alloc s' = Some (Inr p,
      s'\<lparr>page_free_list := fl, kmem := bzero (kmem s') (frame p) 4096\<rparr>)" "lst_rep fl xs"
    using page_alloc_Cons [OF s'(2)] by blast
  show ?thesis
    using s' fl page_alloc_inv [OF s'(2) fl(2)] by auto
qed

theorem page_decref_alloc_roundtrip_witness:
  "\<exists>s' s''. page_decref (Some 4) small_machine = Some s' \<and> page_alloc s' = Some (Inr 4, s'')
    \<and> alloc_inv s'' [2064, 2060, 2056, 2052, 2048]"
proof -
  have "pp_ref small_machine 4 = 1" by (rule small_machine_inv(3)) (simp add: word_le_nat_alt word_less_nat_alt)
  then show ?thesis
    using page_decref_alloc_roundtrip [OF small_machine_inv(1), of 4] small_machine_inv(2)
    by (auto simp: unit_page_def)
qed

subsection \<open>The boot-time self-test of the allocator\<close>

definition assert_that :: "bool \<Rightarrow> unit option" where
  "assert_that b = (if b then Some () else None)"

fun got_page :: "errcode + u32 \<Rightarrow> u32 option" where
  "got_page (Inr p) = Some p"
| "got_page (Inl _) = None"

definition physical_memory_manage_check :: "kstate \<Rightarrow> kstate option" where
  "physical_memory_manage_check s = do {
     (r, s) \<leftarrow> page_alloc s; pp0 \<leftarrow> got_page r;
     (r, s) \<leftarrow> page_alloc s; pp1 \<leftarrow> got_page r;
     (r, s) \<leftarrow> page_alloc s; pp2 \<leftarrow> got_page r;
     assert_that (pp1 \<noteq> pp0);
     assert_that (pp2 \<noteq> pp1 \<and> pp2 \<noteq> pp0);
     let fl = lh_first (page_free_list s);
     let s = s\<lparr>page_free_list := LIST_INIT (page_free_list s)\<rparr>;
     (r, s) \<leftarrow> page_alloc s; assert_that (r = Inl E_NO_MEM);
     temp \<leftarrow> page2kva pp0 s;
     let s = s\<lparr>kmem := store32 (kmem s) temp 1000\<rparr>;
     s \<leftarrow> page_free pp0 s;
     (r, s) \<leftarrow> page_alloc s; pp0 \<leftarrow> got_page r;
     kva \<leftarrow> page2kva pp0 s;
     assert_that (temp = kva);
     assert_that (load32 (kmem s) temp = 0);
     let s = s\<lparr>page_free_list := (page_free_list s)\<lparr>lh_first := fl\<rparr>\<rparr>;
     s \<leftarrow> page_free pp0 s;
     s \<leftarrow> page_free pp1 s;
     page_free pp2 s
   }"

lemma LIST_FIRST_INSERT_HEAD: "LIST_FIRST (LIST_INSERT_HEAD x l) = Some x"
  by (cases "lh_first l") (simp_all add: LIST_FIRST_def LIST_INSERT_HEAD_def Let_def)

lemma load32_bzero_base: "load32 (bzero m a 4096) a = 0"
  by (simp add: load32_def bzero_closed in_region_def)

lemma physical_memory_manage_checkE:
  assumes inv: "alloc_inv s (a # b # c # xs)"
  obtains s' where "physical_memory_manage_check s = Some s'" "alloc_inv s' (c # b # a # xs)" "pp_ref s' = pp_ref s"
    "s'\<lparr>page_free_list := page_free_list s, kmem := kmem s\<rparr> = s"
    "kmem s' = bzero (store32 (bzero (bzero (bzero (kmem s) (frame a) 4096) (frame b) 4096) (frame c) 4096) (frame a) 1000)
      (frame a) 4096"
proof -
  have d: "distinct (a # b # c # xs)" by (rule alloc_inv_distinct [OF inv])
  have u: "unit_page p \<and> p < npage s \<and> pp_ref s p = 0" if "p \<in> {a, b, c}" for p
    using alloc_inv_unit [OF inv, of p] that by auto
  obtain s1 where s1: "page_alloc s = Some (Inr a, s1)" "alloc_inv s1 (b # c # xs)"
    "pp_ref s1 = pp_ref s" "npage s1 = npage s"
    and e1: "s1 = s\<lparr>page_free_list := page_free_list s1, kmem := bzero (kmem s) (frame a) 4096\<rparr>"
    by (rule page_allocE [OF inv])
  obtain s2 where s2: "page_alloc s1 = Some (Inr b, s2)" "alloc_inv s2 (c # xs)"
    "pp_ref s2 = pp_ref s" "npage s2 = npage s"
    and e2: "s2 = s1\<lparr>page_free_list := page_free_list s2, kmem := bzero (kmem s1) (frame b) 4096\<rparr>"
    by (rule page_allocE [OF s1(2)]) (simp add: s1(3,4))
  obtain s3 where s3: "page_alloc s2 = Some (Inr c, s3)" "alloc_inv s3 xs"
    "pp_ref s3 = pp_ref s" "npage s3 = npage s"
    and e3: "s3 = s2\<lparr>page_free_list := page_free_list s3, kmem := bzero (kmem s2) (frame c) 4096\<rparr>"
    by (rule page_allocE [OF s2(2)]) (simp add: s2(3,4))
  have f3: "lst_rep (page_free_list s3) xs" using s3(2) by (simp add: alloc_inv_def)
  obtain s4 where s4: "s3\<lparr>page_free_list := LIST_INIT (page_free_list s3)\<rparr> = s4" by blast
  have full: "page_alloc s4 = Some (Inl E_NO_MEM, s4)"
    by (simp add: s4 [symmetric] page_alloc_def LIST_FIRST_def LIST_INIT_def)
  have kva: "page2kva a t = Some (frame a)" if "npage t = npage s" for t
    using u that by (intro page2kva_frame) (auto simp: unit_page_def)
  have n4: "npage s4 = npage s" using s3 by (simp add: s4 [symmetric])
  obtain s5 where s5: "s4\<lparr>kmem := store32 (kmem s4) (frame a) 1000\<rparr> = s5" by blast
  have i5: "alloc_inv s5 []" and r5: "pp_ref s5 = pp_ref s" "npage s5 = npage s"
    "page_free_list s5 = LIST_INIT (page_free_list s3)"
    using s3 by (auto simp: s5 [symmetric] s4 [symmetric] alloc_inv_def LIST_INIT_rep)
  obtain s6 where s6: "s5\<lparr>page_free_list := LIST_INSERT_HEAD a (page_free_list s5)\<rparr> = s6" by blast
  have free0: "page_free a s5 = Some s6"
    using u r5 by (simp add: page_free_total s6 [symmetric])
  have i6: "alloc_inv s6 [a]"
    using page_free_inv [OF i5, of a] u r5 s6 by auto
  let ?f7 = "(LIST_INIT (page_free_list s3))\<lparr>le_next := (le_next (page_free_list s3))(a := None),
    le_prev := (le_prev (page_free_list s3))(a := Some HeadOf)\<rparr>"
  have r6: "page_free_list s6 = LIST_INSERT_HEAD a (LIST_INIT (page_free_list s3))"
    "pp_ref s6 = pp_ref s" "npage s6 = npage s"
    using r5 by (simp_all add: s6 [symmetric])
  have rem: "LIST_REMOVE a (LIST_INSERT_HEAD a (LIST_INIT (page_free_list s3))) = Some ?f7"
    by (subst LIST_push_remove_empty) (simp_all add: LIST_INIT_def)
  obtain s7 where s7: "page_alloc s6 = Some (Inr a, s7)" "page_free_list s7 = ?f7"
    "kmem s7 = bzero (kmem s6) (frame a) 4096" "pp_ref s7 = pp_ref s" "npage s7 = npage s"
    "s7\<lparr>page_free_list := f, kmem := m\<rparr> = s6\<lparr>page_free_list := f, kmem := m\<rparr>" for f m
    using kva by (simp add: page_alloc_def rem r6 LIST_FIRST_INSERT_HEAD)
  obtain s8 where s8: "s7\<lparr>page_free_list := (page_free_list s7)
      \<lparr>lh_first := lh_first (page_free_list s3)\<rparr>\<rparr> = s8" by blast
  have "lst_rep (?f7\<lparr>lh_first := lh_first (page_free_list s3)\<rparr>) xs"
    using d by (intro lst_rep_frame [OF f3]) (auto simp: LIST_INIT_def)
  then have i8: "alloc_inv s8 xs" and r8: "pp_ref s8 = pp_ref s" "npage s8 = npage s"
    using s3 by (auto simp: s8 [symmetric] s7 alloc_inv_def)
  obtain s9 where s9: "page_free a s8 = Some s9" "alloc_inv s9 (a # xs)"
    "pp_ref s9 = pp_ref s" "npage s9 = npage s"
    "s9 = s8\<lparr>page_free_list := LIST_INSERT_HEAD a (page_free_list s8)\<rparr>"
    using page_free_inv [OF i8, of a] d u r8 by (auto simp: page_free_total)
  obtain s10 where s10: "page_free b s9 = Some s10" "alloc_inv s10 (b # a # xs)"
    "pp_ref s10 = pp_ref s" "npage s10 = npage s"
    "s10 = s9\<lparr>page_free_list := LIST_INSERT_HEAD b (page_free_list s9)\<rparr>"
    using page_free_inv [OF s9(2), of b] d u s9(3,4) by (auto simp: page_free_total)
  obtain s11 where s11: "page_free c s10 = Some s11" "alloc_inv s11 (c # b # a # xs)"
    "pp_ref s11 = pp_ref s" "s11 = s10\<lparr>page_free_list := LIST_INSERT_HEAD c (page_free_list s10)\<rparr>"
    using page_free_inv [OF s10(2), of c] d u s10(3,4) by (auto simp: page_free_total)
  have "physical_memory_manage_check s = Some s11"
    using d by (auto simp: physical_memory_manage_check_def s1(1) s2(1) s3(1) s4 full kva r5 s5
        free0 s7(1) assert_that_def r8 s3(3,4) s9(1) s10(1) s11(1) s7(3,4,5) load32_bzero_base s8
        n4)
  moreover have "s11\<lparr>page_free_list := f, kmem := m\<rparr> = s\<lparr>page_free_list := f, kmem := m\<rparr>" for f m
  proof -
    have "s11\<lparr>page_free_list := f, kmem := m\<rparr> = s7\<lparr>page_free_list := f, kmem := m\<rparr>"
      by (simp add: s11(4) s10(5) s9(5) s8 [symmetric])
    also have "\<dots> = s3\<lparr>page_free_list := f, kmem := m\<rparr>"
      unfolding s7(6) by (simp add: s6 [symmetric] s5 [symmetric] s4 [symmetric])
    also have "\<dots> = s2\<lparr>page_free_list := f, kmem := m\<rparr>" by (subst e3) simp
    also have "\<dots> = s1\<lparr>page_free_list := f, kmem := m\<rparr>" by (subst e2) simp
    also have "\<dots> = s\<lparr>page_free_list := f, kmem := m\<rparr>" by (subst e1) simp
    finally show ?thesis .
  qed
  from this [where f = "page_free_list s" and m = "kmem s"] have "s11\<lparr>page_free_list := page_free_list s, kmem := kmem s\<rparr> = s" by simp
  moreover have "kmem s1 = bzero (kmem s) (frame a) 4096" "kmem s2 = bzero (kmem s1) (frame b) 4096"
    "kmem s3 = bzero (kmem s2) (frame c) 4096"
    by (subst e1, simp) (subst e2, simp, subst e3, simp)
  then have "kmem s11 = bzero (store32 (bzero (bzero (bzero (kmem s) (frame a) 4096) (frame b) 4096) (frame c) 4096) (frame a) 1000)
      (frame a) 4096"
    by (simp add: s11(4) s10(5) s9(5) s8 [symmetric] s7(3) s6 [symmetric] s5 [symmetric] s4 [symmetric])
  ultimately show thesis using that s11 by blast
qed


text \<open>Property. With at least three free pages the boot-time self-test of the allocator
  passes: no assertion of \<open>physical_memory_manage_check\<close> fails, and it leaves the same pages
  free (the three it took come back in reverse order).\<close>

theorem physical_memory_manage_check_passes:
  assumes inv: "alloc_inv s (a # b # c # xs)"
  shows "\<exists>s'. physical_memory_manage_check s = Some s' \<and> alloc_inv s' (c # b # a # xs)
    \<and> pp_ref s' = pp_ref s"
  by (rule physical_memory_manage_checkE [OF inv]) blast

theorem physical_memory_manage_check_passes_witness:
  "\<exists>s'. physical_memory_manage_check small_machine = Some s'
    \<and> alloc_inv s' [2056, 2060, 2064, 2052, 2048]"
  using physical_memory_manage_check_passes [OF small_machine_inv(1)] by auto

end
