(* ===== verification/Vm.thy ===== *)
theory Vm
  imports Pages
begin

section \<open>Address spaces: what the page-table functions promise\<close>

text \<open>
  A page directory is named by its page, \<open>pd\<close>; its address is \<open>frame pd\<close>. The abstract
  view of the tables is \<open>upte s pd va\<close>, the entry of the page of \<open>va\<close> in the directory
  \<open>pd\<close>, 0 where there is no table. The invariant \<open>vm_inv s D xs\<close> says of the set \<open>D\<close> of
  directories in use and the free list \<open>xs\<close>: directories and tables are pages with a
  reference, no table is shared, tables and directories are never mapped themselves, and
  the reference count of every other page is at least the number of its mappings. So no
  mapped page is on the free list.
\<close>

subsection \<open>Indices\<close>

lemma word_and_masks: "x AND 0xFFF = take_bit 12 (x :: u32)" "x AND 0xFF = take_bit 8 x"
  by (simp_all add: take_bit_eq_mask mask_eq_exp_minus_1)

lemma unat_PDX: "unat (PDX va) = unat va div 1048576"
proof -
  have "unat va < 4294967296" using unsigned_less [of va] by simp
  then show ?thesis
    unfolding PDX_def word_and_masks unsigned_take_bit_eq unat_drop_div by (simp add: take_bit_eq_mod)
qed

lemma unat_PTX: "unat (PTX va) = unat va div 4096 mod 256"
  unfolding PTX_def word_and_masks unsigned_take_bit_eq unat_drop_div by (simp add: take_bit_eq_mod)

lemma PTX_less [simp]: "PTX va < 0x100" "PTX va < 0x1000"
  by (simp_all add: word_less_nat_alt unat_PTX order.strict_trans [of _ 256])

lemma PDX_less [simp]: "PDX va < 0x1000"
proof -
  have "unat va < 4294967296" using unsigned_less [of va] by simp
  then show ?thesis by (simp add: word_less_nat_alt unat_PDX)
qed

lemma PDX_user: "va < ULIM \<Longrightarrow> PDX va < 0x800"
  by (simp add: word_less_nat_alt unat_PDX)

lemma section_va_user: "va < ULIM \<Longrightarrow> \<not> section_va va"
  by (auto simp: section_va_def word_less_nat_alt word_le_nat_alt)

subsection \<open>The abstract view and the invariant\<close>

definition pde :: "kstate \<Rightarrow> u32 \<Rightarrow> u32 \<Rightarrow> u32" where
  "pde s pd i = load32 (kmem s) (frame pd + 4 * i)"

fun pte_at :: "kstate \<Rightarrow> u32 \<times> u32 \<times> u32 \<Rightarrow> u32" where
  "pte_at s (pd, i, j) = (if pde s pd i = 0 then 0
     else load32 (kmem s) (frame (pte_page (pde s pd i)) + 4 * j))"

declare pte_at.simps [simp del]

definition slot_of :: "u32 \<Rightarrow> u32 \<Rightarrow> u32 \<times> u32 \<times> u32" where
  "slot_of pd va = (pd, PDX va, PTX va)"

definition upte :: "kstate \<Rightarrow> u32 \<Rightarrow> u32 \<Rightarrow> u32" where
  "upte s pd va = pte_at s (slot_of pd va)"

definition all_slots :: "u32 set \<Rightarrow> (u32 \<times> u32 \<times> u32) set" where
  "all_slots D = D \<times> {i. i < 0x800} \<times> {j. j < 0x100}"

definition valid_pte :: "u32 \<Rightarrow> bool" where
  "valid_pte e \<longleftrightarrow> e AND PTE_V \<noteq> 0"

definition tables_of :: "(u32 \<Rightarrow> u32 \<Rightarrow> u32) \<Rightarrow> u32 set \<Rightarrow> u32 set" where
  "tables_of P D = {pte_page (P pd i) | pd i. pd \<in> D \<and> i < 0x800 \<and> P pd i \<noteq> 0}"

definition mappings :: "(u32 \<times> u32 \<times> u32 \<Rightarrow> u32) \<Rightarrow> u32 set \<Rightarrow> u32 \<Rightarrow> (u32 \<times> u32 \<times> u32) set" where
  "mappings M D p = {x \<in> all_slots D. valid_pte (M x) \<and> pte_page (M x) = p}"

definition live_page :: "u32 \<Rightarrow> (u32 \<Rightarrow> u16) \<Rightarrow> u32 \<Rightarrow> bool" where
  "live_page n R p \<longleftrightarrow> unit_page p \<and> p < n \<and> 0 < R p"

definition vm_wf :: "u32 \<Rightarrow> (u32 \<Rightarrow> u16) \<Rightarrow> u32 set \<Rightarrow> (u32 \<Rightarrow> u32 \<Rightarrow> u32)
    \<Rightarrow> (u32 \<times> u32 \<times> u32 \<Rightarrow> u32) \<Rightarrow> bool" where
  "vm_wf n R D P M \<longleftrightarrow>
     (\<forall>pd\<in>D. live_page n R pd) \<and>
     (\<forall>pd\<in>D. \<forall>i<0x800. P pd i \<noteq> 0 \<longrightarrow>
        (\<exists>q. P pd i = page2pa q OR PDE_PAGE_TABLE \<and> live_page n R q \<and> q \<notin> D)) \<and>
     (\<forall>pd\<in>D. \<forall>i<0x800. \<forall>pd'\<in>D. \<forall>i'<0x800. P pd i \<noteq> 0 \<longrightarrow> P pd' i' = P pd i \<longrightarrow>
        pd' = pd \<and> i' = i) \<and>
     (\<forall>x\<in>all_slots D. valid_pte (M x) \<longrightarrow> unit_page (pte_page (M x)) \<and> pte_page (M x) < n
        \<and> pte_page (M x) \<notin> D \<union> tables_of P D) \<and>
     (\<forall>p. card (mappings M D p) \<le> unat (R p))"

definition vm_inv :: "kstate \<Rightarrow> u32 set \<Rightarrow> u32 list \<Rightarrow> bool" where
  "vm_inv s D xs \<longleftrightarrow> alloc_inv s xs \<and> vm_wf (npage s) (pp_ref s) D (pde s) (pte_at s)"

lemma finite_mappings [simp]: "finite (mappings M D p)"
  by simp

lemma slot_of_all [simp]: "pd \<in> D \<Longrightarrow> va < ULIM \<Longrightarrow> slot_of pd va \<in> all_slots D"
  by (simp add: slot_of_def all_slots_def PDX_user)

lemma vm_wfI:
  assumes "\<And>pd. pd \<in> D \<Longrightarrow> live_page n R pd"
    and "\<And>pd i. pd \<in> D \<Longrightarrow> i < 0x800 \<Longrightarrow> P pd i \<noteq> 0 \<Longrightarrow>
      \<exists>q. P pd i = page2pa q OR PDE_PAGE_TABLE \<and> live_page n R q \<and> q \<notin> D"
    and "\<And>pd i pd' i'. pd \<in> D \<Longrightarrow> i < 0x800 \<Longrightarrow> pd' \<in> D \<Longrightarrow> i' < 0x800 \<Longrightarrow> P pd i \<noteq> 0 \<Longrightarrow>
      P pd' i' = P pd i \<Longrightarrow> pd' = pd \<and> i' = i"
    and "\<And>x. x \<in> all_slots D \<Longrightarrow> valid_pte (M x) \<Longrightarrow> unit_page (pte_page (M x))
      \<and> pte_page (M x) < n \<and> pte_page (M x) \<notin> D \<and> pte_page (M x) \<notin> tables_of P D"
    and "\<And>p. card (mappings M D p) \<le> unat (R p)"
  shows "vm_wf n R D P M"
  unfolding vm_wf_def using assms by auto

text \<open>Only the values at the user entries of the directories matter.\<close>

lemma vm_wf_cong:
  assumes "\<And>pd i. pd \<in> D \<Longrightarrow> i < 0x800 \<Longrightarrow> P' pd i = P pd i"
    and "\<And>x. x \<in> all_slots D \<Longrightarrow> M' x = M x"
  shows "vm_wf n R D P' M' = vm_wf n R D P M"
proof -
  have "tables_of P' D = tables_of P D" "mappings M' D = mappings M D"
    using assms by (auto simp: tables_of_def mappings_def fun_eq_iff) metis+
  then show ?thesis using assms by (simp add: vm_wf_def)
qed

lemma tables_of_cong:
  "(\<And>d i. d \<in> D \<Longrightarrow> i < 0x800 \<Longrightarrow> P' d i = P d i) \<Longrightarrow> tables_of P' D = tables_of P D"
  unfolding tables_of_def by (intro Collect_cong) (auto; metis)

lemma vm_wf_dir: "vm_wf n R D P M \<Longrightarrow> pd \<in> D \<Longrightarrow> live_page n R pd"
  by (simp add: vm_wf_def)

lemma vm_wf_tableE:
  assumes "vm_wf n R D P M" "pd \<in> D" "i < 0x800" "P pd i \<noteq> 0"
  obtains q where "P pd i = page2pa q OR PDE_PAGE_TABLE" "live_page n R q" "q \<notin> D"
    "pte_page (P pd i) = q" "q \<in> tables_of P D"
proof -
  from assms obtain q where q: "P pd i = page2pa q OR PDE_PAGE_TABLE" "live_page n R q" "q \<notin> D"
    unfolding vm_wf_def by blast
  then have "pte_page (P pd i) = q"
    by (auto simp: live_page_def unit_page_def intro: pte_page_entry)
  moreover from this have "q \<in> tables_of P D" using assms unfolding tables_of_def by blast
  ultimately show thesis using that q by blast
qed

lemma vm_wf_tables: "vm_wf n R D P M \<Longrightarrow> q \<in> tables_of P D \<Longrightarrow> live_page n R q \<and> q \<notin> D"
  by (auto simp: tables_of_def elim: vm_wf_tableE)

lemma vm_wf_unique:
  assumes "vm_wf n R D P M" "pd \<in> D" "i < 0x800" "pd' \<in> D" "i' < 0x800" "P pd i \<noteq> 0" "P pd' i' \<noteq> 0"
  shows "pte_page (P pd' i') = pte_page (P pd i) \<longleftrightarrow> pd' = pd \<and> i' = i"
proof
  assume eq: "pte_page (P pd' i') = pte_page (P pd i)"
  from assms(1,2,3,6) obtain q where q: "P pd i = page2pa q OR PDE_PAGE_TABLE" "pte_page (P pd i) = q"
    by (rule vm_wf_tableE)
  from assms(1,4,5,7) obtain q' where "P pd' i' = page2pa q' OR PDE_PAGE_TABLE" "pte_page (P pd' i') = q'"
    by (rule vm_wf_tableE)
  then have "P pd' i' = P pd i" using q eq by simp
  then show "pd' = pd \<and> i' = i" using assms unfolding vm_wf_def by blast
qed simp

lemma vm_wf_mapped:
  assumes "vm_wf n R D P M" "x \<in> all_slots D" "valid_pte (M x)"
  shows "live_page n R (pte_page (M x))" "pte_page (M x) \<notin> D \<union> tables_of P D"
proof -
  have "x \<in> mappings M D (pte_page (M x))" using assms by (simp add: mappings_def)
  then have "0 < card (mappings M D (pte_page (M x)))" by (auto simp: card_gt_0_iff)
  moreover have "card (mappings M D (pte_page (M x))) \<le> unat (R (pte_page (M x)))"
    using assms(1) by (simp add: vm_wf_def)
  ultimately show "live_page n R (pte_page (M x))"
    using assms unfolding vm_wf_def live_page_def
    by (metis less_le_trans unat_gt_0 word_greater_zero_iff)
  show "pte_page (M x) \<notin> D \<union> tables_of P D" using assms by (simp add: vm_wf_def)
qed

text \<open>One entry changes: the reference counts have to follow.\<close>

lemma mappings_upd:
  "x \<in> all_slots D \<Longrightarrow> mappings (M(x := e)) D p =
    (if valid_pte e \<and> pte_page e = p then insert x (mappings M D p) else mappings M D p - {x})"
  by (auto simp: mappings_def)

lemma vm_wf_upd:
  assumes "vm_wf n R D P M" "x \<in> all_slots D"
    and "\<And>q. q \<in> D \<union> tables_of P D \<Longrightarrow> 0 < R' q"
    and "valid_pte e \<Longrightarrow> unit_page (pte_page e) \<and> pte_page e < n \<and> pte_page e \<notin> D \<union> tables_of P D"
    and "\<And>p. card (mappings (M(x := e)) D p) \<le> unat (R' p)"
  shows "vm_wf n R' D P (M(x := e))"
proof -
  have "live_page n R' q" if "live_page n R q" "q \<in> D \<union> tables_of P D" for q
    using that assms(3) by (simp add: live_page_def)
  moreover have "\<exists>q. P pd i = page2pa q OR PDE_PAGE_TABLE \<and> live_page n R' q \<and> q \<notin> D"
    if "pd \<in> D" "i < 0x800" "P pd i \<noteq> 0" for pd i
    using assms(1) that by (rule vm_wf_tableE) (use calculation in blast)
  ultimately show ?thesis
    using assms unfolding vm_wf_def by auto
qed

lemma card_mappings_upd:
  assumes "x \<in> all_slots D"
  shows "card (mappings (M(x := e)) D p) =
    card (mappings M D p) + (if valid_pte e \<and> pte_page e = p then 1 else 0)
      - (if valid_pte (M x) \<and> pte_page (M x) = p then 1 else 0)"
proof -
  have "x \<in> mappings M D p \<longleftrightarrow> valid_pte (M x) \<and> pte_page (M x) = p"
    using assms by (auto simp: mappings_def)
  then show ?thesis
    by (auto simp: mappings_upd [OF assms] card_insert_if card_Diff_singleton_if insert_absorb)
qed

text \<open>A new table: its page had no reference and no mapping.\<close>

lemma vm_wf_new_table:
  assumes wf: "vm_wf n R D P M" and pd: "pd \<in> D" "i < 0x800" "P pd i = 0"
    and q: "unit_page q" "q < n" "R q = 0"
    and P': "P' = P(pd := (P pd)(i := page2pa q OR PDE_PAGE_TABLE))"
  shows "vm_wf n (R(q := 1)) D P' M"
proof -
  let ?e = "page2pa q OR PDE_PAGE_TABLE"
  have qD: "q \<notin> D" using vm_wf_dir [OF wf, of q] q by (auto simp: live_page_def)
  have qt: "q \<notin> tables_of P D" using vm_wf_tables [OF wf, of q] q by (auto simp: live_page_def)
  have e: "pte_page ?e = q" using q by (simp add: pte_page_entry unit_page_def)
  have live: "live_page n (R(q := 1)) p" if "live_page n R p" for p
    using that by (simp add: live_page_def)
  have tabs: "tables_of P' D \<subseteq> insert q (tables_of P D)"
    using e unfolding P' tables_of_def by auto
  have "0 \<le> card (mappings M D q)" "card (mappings M D q) \<le> unat (R q)"
    using wf by (auto simp: vm_wf_def)
  then have cq: "card (mappings M D q) = 0" using q by simp
  then have noq: "mappings M D q = {}" by simp
  have old: "P pd' i' \<noteq> ?e" if "pd' \<in> D" "i' < 0x800" for pd' i'
  proof
    assume "P pd' i' = ?e"
    moreover have "?e \<noteq> 0" using entry_flags [of PDE_PAGE_TABLE 1 q] by auto
    ultimately show False using that e qt unfolding tables_of_def by force
  qed
  show ?thesis
  proof (rule vm_wfI)
    show "live_page n (R(q := 1)) d" if "d \<in> D" for d
      using vm_wf_dir [OF wf that] by (rule live)
    show "\<exists>p. P' pd' i' = page2pa p OR PDE_PAGE_TABLE \<and> live_page n (R(q := 1)) p \<and> p \<notin> D"
      if "pd' \<in> D" "i' < 0x800" "P' pd' i' \<noteq> 0" for pd' i'
    proof (cases "pd' = pd \<and> i' = i")
      case True
      then show ?thesis using q qD by (intro exI [of _ q]) (simp add: P' live_page_def)
    next
      case False
      then have nz: "P pd' i' \<noteq> 0" "P' pd' i' = P pd' i'" using that by (auto simp: P' split: if_splits)
      show ?thesis using wf that(1,2) nz(1) by (rule vm_wf_tableE) (use nz live in auto)
    qed
    show "pd2 = pd1 \<and> i2 = i1"
      if "pd1 \<in> D" "i1 < 0x800" "pd2 \<in> D" "i2 < 0x800" "P' pd1 i1 \<noteq> 0" "P' pd2 i2 = P' pd1 i1"
      for pd1 i1 pd2 i2
    proof (cases "(pd1 = pd \<and> i1 = i) \<or> (pd2 = pd \<and> i2 = i)")
      case True
      then show ?thesis using that old [of pd1 i1] old [of pd2 i2] by (auto simp: P' split: if_splits)
    next
      case False
      then have "P pd1 i1 \<noteq> 0" "P pd2 i2 = P pd1 i1" using that by (auto simp: P' split: if_splits)
      then show ?thesis using wf that(1-4) unfolding vm_wf_def by blast
    qed
    show "unit_page (pte_page (M x)) \<and> pte_page (M x) < n \<and> pte_page (M x) \<notin> D
      \<and> pte_page (M x) \<notin> tables_of P' D" if "x \<in> all_slots D" "valid_pte (M x)" for x
    proof -
      have "pte_page (M x) \<noteq> q" using noq that unfolding mappings_def by blast
      then show ?thesis
        using vm_wf_mapped [OF wf that] tabs by (auto simp: live_page_def)
    qed
    show "card (mappings M D p) \<le> unat ((R(q := 1)) p)" for p
      using wf cq by (simp add: vm_wf_def)
  qed
qed

subsection \<open>\<open>pgdir_walk\<close>\<close>

lemma vm_invD: "vm_inv s D xs \<Longrightarrow> alloc_inv s xs"
  "vm_inv s D xs \<Longrightarrow> vm_wf (npage s) (pp_ref s) D (pde s) (pte_at s)"
  by (simp_all add: vm_inv_def)

lemma live_page_simps: "live_page n R p \<Longrightarrow> unit_page p" "live_page n R p \<Longrightarrow> p < 0x40000"
  "live_page n R p \<Longrightarrow> p < n" "live_page n R p \<Longrightarrow> R p \<noteq> 0"
  by (auto simp: live_page_def unit_page_def)

lemma live_not_free: "vm_inv s D xs \<Longrightarrow> live_page (npage s) (pp_ref s) p \<Longrightarrow> p \<notin> set xs"
  using alloc_inv_referenced [of s xs p] by (simp add: live_page_def vm_inv_def)

text \<open>The address of the entry of \<open>va\<close>, where there is a table.\<close>

definition pte_addr :: "kstate \<Rightarrow> u32 \<Rightarrow> u32 \<Rightarrow> u32" where
  "pte_addr s pd va = frame (pte_page (pde s pd (PDX va))) + 4 * PTX va"

lemma load_pte_addr: "pde s pd (PDX va) \<noteq> 0 \<Longrightarrow> load32 (kmem s) (pte_addr s pd va) = upte s pd va"
  by (simp add: upte_def slot_of_def pte_addr_def pte_at.simps)

lemma upte_absent: "pde s pd (PDX va) = 0 \<Longrightarrow> upte s pd va = 0"
  by (simp add: upte_def slot_of_def pte_at.simps)

lemma valid_pte_0 [simp]: "\<not> valid_pte 0"
  by (simp add: valid_pte_def)

lemma pgdir_walk_present:
  assumes inv: "vm_inv s D xs" and pd: "pd \<in> D" "va < ULIM" and nz: "pde s pd (PDX va) \<noteq> 0"
  shows "pgdir_walk (frame pd) va c s = Some (Inr (Some (pte_addr s pd va)), s)"
proof -
  from vm_invD(2) [OF inv] pd(1) PDX_user [OF pd(2)] nz obtain q where
    q: "pde s pd (PDX va) = page2pa q OR PDE_PAGE_TABLE" "live_page (npage s) (pp_ref s) q"
    "pte_page (pde s pd (PDX va)) = q"
    by (rule vm_wf_tableE)
  have k: "KADDR (npage s) (page2pa q) = Some (frame q)"
    using live_page_simps [OF q(2)] by (simp add: KADDR_page2pa)
  have f: "(page2pa q OR PDE_PAGE_TABLE) AND PDE_PAGE_TABLE = PDE_PAGE_TABLE"
    by (simp add: entry_flags)
  have l: "load32 (kmem s) (frame pd + 4 * PDX va) = page2pa q OR PDE_PAGE_TABLE"
    using q(1) by (simp add: pde_def)
  show ?thesis
    using section_va_user [OF pd(2)] q nz k f by (simp add: pgdir_walk_def pte_addr_def l)
qed

lemma pgdir_walk_absent:
  "va < ULIM \<Longrightarrow> pde s pd (PDX va) = 0 \<Longrightarrow> pgdir_walk (frame pd) va False s = Some (Inr None, s)"
  by (simp add: pgdir_walk_def section_va_user pde_def)

lemma pgdir_walk_full:
  "va < ULIM \<Longrightarrow> pde s pd (PDX va) = 0 \<Longrightarrow> alloc_inv s [] \<Longrightarrow>
    pgdir_walk (frame pd) va True s = Some (Inl E_NO_MEM, s)"
  by (simp add: pgdir_walk_def section_va_user pde_def page_alloc_empty)

lemma dir_entry_simps:
  "unit_page pd \<Longrightarrow> i < 0x800 \<Longrightarrow> i < (0x1000 :: u32)" "j < 0x100 \<Longrightarrow> j < (0x1000 :: u32)"
  "j < 0x100 \<Longrightarrow> j < (0x400 :: u32)"
  by (auto intro: order.strict_trans)

lemma pgdir_walk_create:
  assumes inv: "vm_inv s D (q # xs)" and pd: "pd \<in> D" "va < ULIM" and abs: "pde s pd (PDX va) = 0"
  obtains s' where "pgdir_walk (frame pd) va True s = Some (Inr (Some (pte_addr s' pd va)), s')"
    "vm_inv s' D xs" "pp_ref s' = (pp_ref s)(q := 1)" "npage s' = npage s"
    "\<And>d i. d \<in> D \<Longrightarrow> i < 0x800 \<Longrightarrow> pde s' d i =
      (if d = pd \<and> i = PDX va then page2pa q OR PDE_PAGE_TABLE else pde s d i)"
    "\<And>x. x \<in> all_slots D \<Longrightarrow> pte_at s' x = pte_at s x"
    "tlb_ops s' = tlb_ops s" "pte_page (pde s' pd (PDX va)) = q"
proof -
  note wf = vm_invD(2) [OF inv] and al = vm_invD(1) [OF inv]
  have q: "unit_page q" "q < npage s" "pp_ref s q = 0" using alloc_inv_unit [OF al, of q] by auto
  have q4: "q < 0x40000" using q by (simp add: unit_page_def)
  have pdl: "unit_page pd" using vm_wf_dir [OF wf pd(1)] by (simp add: live_page_def)
  obtain s1 where s1: "page_alloc s = Some (Inr q, s1)" "alloc_inv s1 xs"
    "s1 = s\<lparr>page_free_list := page_free_list s1, kmem := bzero (kmem s) (frame q) 4096\<rparr>"
    "pp_ref s1 = pp_ref s" "npage s1 = npage s"
    using page_allocE [OF al] by metis
  have m1: "kmem s1 = bzero (kmem s) (frame q) 4096" "tlb_ops s1 = tlb_ops s"
    by (subst s1(3), simp)+
  obtain s' where s': "s' = set_ref q (pp_ref s1 q + 1)
      (s1\<lparr>kmem := store32 (kmem s1) (frame pd + 4 * PDX va) (page2pa q OR PDE_PAGE_TABLE)\<rparr>)" by blast
  have r': "pp_ref s' = (pp_ref s)(q := 1)" "npage s' = npage s" "tlb_ops s' = tlb_ops s"
    using s1(4,5) q(3) m1 by (simp_all add: s')
  have qD: "q \<notin> D" using vm_wf_dir [OF wf, of q] q by (auto simp: live_page_def)
  have qt: "q \<notin> tables_of (pde s) D" using vm_wf_tables [OF wf, of q] q by (auto simp: live_page_def)
  have pde': "pde s' d i = (if d = pd \<and> i = PDX va then page2pa q OR PDE_PAGE_TABLE else pde s d i)"
    if "d \<in> D" "i < 0x800" for d i
  proof -
    have d: "unit_page d" "d \<noteq> q" using vm_wf_dir [OF wf that(1)] qD that by (auto simp: live_page_def)
    show ?thesis
      using d pdl q(1) dir_entry_simps(1) [OF d(1) that(2)]
      by (auto simp: pde_def s' m1 load_store_entry load_bzero_entry)
  qed
  have pq: "pte_page (page2pa q OR PDE_PAGE_TABLE) = q" using q4 by (simp add: pte_page_entry)
  have ne: "page2pa q OR PDE_PAGE_TABLE \<noteq> 0"
    using entry_flags [of PDE_PAGE_TABLE 1 q] by auto
  have pte': "pte_at s' x = pte_at s x" if "x \<in> all_slots D" for x
  proof -
    obtain d i j where x: "x = (d, i, j)" "d \<in> D" "i < 0x800" "j < 0x100"
      using \<open>x \<in> all_slots D\<close> by (auto simp: all_slots_def)
    note j = dir_entry_simps(2,3) [OF x(4)]
    show ?thesis
    proof (cases "d = pd \<and> i = PDX va")
      case True
      then show ?thesis
        using x j abs pde' [OF x(2,3)] pq ne qD pd(1) q pdl
        by (auto simp: pte_at.simps s' m1 load_store_entry load_bzero_entry)
    next
      case False
      show ?thesis
      proof (cases "pde s d i = 0")
        case True
        then show ?thesis using False pde' [OF x(2,3)] by (auto simp: x(1) pte_at.simps)
      next
        case nz: False
        from wf x(2,3) nz obtain t where t: "pte_page (pde s d i) = t" "live_page (npage s) (pp_ref s) t"
          "t \<in> tables_of (pde s) D" "t \<notin> D"
          by (rule vm_wf_tableE)
        then have "unit_page t" "t \<noteq> q" "t \<noteq> pd" using qt pd(1) by (auto simp: live_page_def)
        then show ?thesis
          using x j nz False t pde' [OF x(2,3)] q pdl
          by (auto simp: pte_at.simps s' m1 load_store_entry load_bzero_entry)
      qed
    qed
  qed
  have "vm_wf (npage s) ((pp_ref s)(q := 1)) D
      ((pde s)(pd := (pde s pd)(PDX va := page2pa q OR PDE_PAGE_TABLE))) (pte_at s)"
    using vm_wf_new_table [OF wf pd(1) PDX_user [OF pd(2)] abs q refl] .
  then have wf': "vm_wf (npage s') (pp_ref s') D (pde s') (pte_at s')"
    unfolding r' by (subst vm_wf_cong) (auto simp: pde' pte')
  have al': "alloc_inv s' xs"
    using s1(2,4) alloc_inv_distinct [OF al] by (auto simp: s' alloc_inv_def)
  have addr: "pte_addr s' pd va = frame q + 4 * PTX va"
    using pde' [OF pd(1) PDX_user [OF pd(2)]] pq by (simp add: pte_addr_def)
  have l: "load32 (kmem s) (frame pd + 4 * PDX va) = 0" using abs by (simp add: pde_def)
  have kva: "page2kva q s1 = Some (frame q)" using q4 q(2) s1(5) by (simp add: page2kva_frame)
  have "pgdir_walk (frame pd) va True s = Some (Inr (Some (frame q + 4 * PTX va)), s')"
    using section_va_user [OF pd(2)] by (simp add: pgdir_walk_def l s1(1) kva s')
  then have w: "pgdir_walk (frame pd) va True s = Some (Inr (Some (pte_addr s' pd va)), s')"
    by (simp only: addr)
  show thesis
    using that [OF w _ r'(1,2) pde' pte' r'(3)] wf' al' pde' [OF pd(1) PDX_user [OF pd(2)]] pq
    by (auto simp: vm_inv_def)
qed

subsection \<open>Lookup and the store to one entry\<close>

lemma page_lookup_upte:
  assumes inv: "vm_inv s D xs" and pd: "pd \<in> D" "va < ULIM"
  shows "page_lookup (frame pd) va s =
    Some (if valid_pte (upte s pd va) then Some (pte_page (upte s pd va), pte_addr s pd va) else None)"
proof (cases "pde s pd (PDX va) = 0")
  case True
  then show ?thesis
    using pd by (simp add: page_lookup_def section_va_user pgdir_walk_absent upte_absent)
next
  case False
  have "pte_page (upte s pd va) < npage s" if "valid_pte (upte s pd va)"
    using vm_wf_mapped(1) [OF vm_invD(2) [OF inv] slot_of_all [OF pd]] that
    by (simp add: upte_def live_page_def)
  then show ?thesis
    using pgdir_walk_present [OF inv pd False] load_pte_addr [OF False] section_va_user [OF pd(2)]
    by (cases "upte s pd va AND PTE_V = 0") (auto simp: page_lookup_def valid_pte_def pa2page_entry)
qed

lemma store_pte:
  assumes inv: "vm_inv s D xs" and pd: "pd \<in> D" "va < ULIM" and nz: "pde s pd (PDX va) \<noteq> 0"
    and m: "kmem s' = store32 (kmem s) (pte_addr s pd va) e"
  shows "d \<in> D \<Longrightarrow> i < 0x800 \<Longrightarrow> pde s' d i = pde s d i"
    and "x \<in> all_slots D \<Longrightarrow> pte_at s' x = ((pte_at s)(slot_of pd va := e)) x"
proof -
  note wf = vm_invD(2) [OF inv]
  from wf pd(1) PDX_user [OF pd(2)] nz obtain q where
    q: "pte_page (pde s pd (PDX va)) = q" "live_page (npage s) (pp_ref s) q" "q \<notin> D"
    by (rule vm_wf_tableE)
  have qu: "unit_page q" and addr: "pte_addr s pd va = frame q + 4 * PTX va"
    using live_page_simps [OF q(2)] q(1) by (simp_all add: pte_addr_def)
  have pde': "pde s' d i = pde s d i" if "d \<in> D" "i < 0x800" for d i
  proof -
    have "unit_page d" "d \<noteq> q" using vm_wf_dir [OF wf that(1)] q(3) that by (auto simp: live_page_def)
    then show ?thesis
      using qu dir_entry_simps(1) [of d i] that(2) by (simp add: pde_def m addr load_store_entry)
  qed
  then show "d \<in> D \<Longrightarrow> i < 0x800 \<Longrightarrow> pde s' d i = pde s d i" .
  assume "x \<in> all_slots D"
  then obtain d i j where x: "x = (d, i, j)" "d \<in> D" "i < 0x800" "j < 0x100"
    by (auto simp: all_slots_def)
  note j = dir_entry_simps(2) [OF x(4)]
  show "pte_at s' x = ((pte_at s)(slot_of pd va := e)) x"
  proof (cases "pde s d i = 0")
    case True
    then show ?thesis using pde' [OF x(2,3)] nz by (auto simp: x(1) slot_of_def pte_at.simps)
  next
    case False
    from wf x(2,3) False obtain t where t: "pte_page (pde s d i) = t" "live_page (npage s) (pp_ref s) t"
      by (rule vm_wf_tableE)
    have "t = q \<longleftrightarrow> d = pd \<and> i = PDX va"
      using vm_wf_unique [OF wf pd(1) PDX_user [OF pd(2)] x(2,3) nz False] t(1) q(1) by simp
    then show ?thesis
      using live_page_simps(1) [OF t(2)] qu j False pde' [OF x(2,3)] t(1)
      by (auto simp: x(1) slot_of_def m addr load_store_entry pte_at.simps)
  qed
qed

text \<open>Two addresses share their entry in a directory exactly when they are in one page.\<close>

definition same_page :: "u32 \<Rightarrow> u32 \<Rightarrow> bool" where
  "same_page va vb \<longleftrightarrow> drop_bit 12 va = drop_bit 12 vb"

lemma slot_of_eq_iff: "slot_of pd va = slot_of pd' vb \<longleftrightarrow> pd = pd' \<and> same_page va vb"
proof -
  have "PDX va = PDX vb \<and> PTX va = PTX vb \<longleftrightarrow> unat va div 4096 = unat vb div 4096"
  proof -
    have e: "unat w div 1048576 = unat w div 4096 div 256" for w :: u32 by (simp add: div_mult2_eq [symmetric])
    show ?thesis
      unfolding word_unat_eq_iff unat_PDX unat_PTX e by (metis div_mult_mod_eq)
  qed
  also have "\<dots> \<longleftrightarrow> same_page va vb"
    unfolding same_page_def word_unat_eq_iff unat_drop_div by simp
  finally show ?thesis by (auto simp: slot_of_def)
qed

lemma upte_of_pte_at:
  assumes "\<And>x. x \<in> all_slots D \<Longrightarrow> pte_at s' x = ((pte_at s)(slot_of pd va := e)) x"
  shows "d \<in> D \<Longrightarrow> v < ULIM \<Longrightarrow> upte s' d v = (if d = pd \<and> same_page v va then e else upte s d v)"
  using assms [OF slot_of_all, of d v] by (simp add: upte_def slot_of_eq_iff)

subsection \<open>\<open>page_remove\<close>\<close>

text \<open>The operand of the TLB invalidation: tagged with the current environment's ASID when
  the directory is its own.\<close>

definition tlb_operand :: "kstate \<Rightarrow> u32 \<Rightarrow> u32 \<Rightarrow> u32" where
  "tlb_operand s pgdir va = (case curenv s of
     None \<Rightarrow> ROUNDDOWN va BY2PG
   | Some e \<Rightarrow> if env_pgdir (envs s e) = pgdir
       then ROUNDDOWN va BY2PG OR GET_ENV_ASID (env_id (envs s e)) else ROUNDDOWN va BY2PG)"

lemma tlb_invalidate_eq:
  "tlb_invalidate pgdir va s = s\<lparr>tlb_ops := tlb_operand s pgdir va # tlb_ops s\<rparr>"
  by (simp add: tlb_invalidate_def tlb_operand_def Let_def split: option.split)

lemma vm_inv_cong:
  assumes "npage s' = npage s" "page_free_list s' = page_free_list s" "pp_ref s' = pp_ref s"
    "kmem s' = kmem s"
  shows "vm_inv s' D xs = vm_inv s D xs" "pde s' = pde s" "pte_at s' = pte_at s"
    "upte s' = upte s" "pte_addr s' = pte_addr s"
proof -
  show p: "pde s' = pde s" by (simp add: pde_def fun_eq_iff assms)
  then show t: "pte_at s' = pte_at s" by (auto simp: fun_eq_iff assms pte_at.simps)
  show "upte s' = upte s" by (intro ext) (simp only: upte_def t)
  show "pte_addr s' = pte_addr s" using p by (simp add: pte_addr_def fun_eq_iff)
  show "vm_inv s' D xs = vm_inv s D xs"
    using p t assms alloc_inv_cong [of s' s xs] by (simp add: vm_inv_def)
qed

lemma vm_inv_tlb [simp]: "vm_inv (tlb_invalidate a b s) D xs = vm_inv s D xs"
  "pde (tlb_invalidate a b s) = pde s" "pte_at (tlb_invalidate a b s) = pte_at s"
  "upte (tlb_invalidate a b s) = upte s" "pte_addr (tlb_invalidate a b s) = pte_addr s"
  "kmem (tlb_invalidate a b s) = kmem s" "pp_ref (tlb_invalidate a b s) = pp_ref s"
  "npage (tlb_invalidate a b s) = npage s" "page_free_list (tlb_invalidate a b s) = page_free_list s"
  by (rule vm_inv_cong; simp add: tlb_invalidate_eq)+ (simp_all add: tlb_invalidate_eq)

lemma tlb_ops_invalidate [simp]:
  "tlb_ops (tlb_invalidate a b s) = tlb_operand s a b # tlb_ops s"
  by (simp add: tlb_invalidate_eq)

lemma page_remove_absent:
  "vm_inv s D xs \<Longrightarrow> pd \<in> D \<Longrightarrow> va < ULIM \<Longrightarrow> \<not> valid_pte (upte s pd va) \<Longrightarrow>
    page_remove (frame pd) va s = Some s"
  by (simp add: page_remove_def section_va_user page_lookup_upte)

lemma max_u16: "(- 1 :: u16) = 0xFFFF"
  by simp

lemma unat_dec: "r \<noteq> 0 \<Longrightarrow> unat (r - 1 :: u16) = unat r - 1"
  by (simp add: unat_minus_one)

lemma unat_inc: "r \<noteq> 0xFFFF \<Longrightarrow> unat (r + 1 :: u16) = unat r + 1"
proof -
  assume r: "r \<noteq> 0xFFFF"
  have "1 + r \<noteq> 0" using r by (auto simp: add_eq_0_iff max_u16)
  then show ?thesis by (simp add: unatSuc add.commute)
qed

lemma page_removeE:
  assumes inv: "vm_inv s D xs" and pd: "pd \<in> D" "va < ULIM" and v: "valid_pte (upte s pd va)"
    and p: "p = pte_page (upte s pd va)"
  obtains s' where "page_remove (frame pd) va s = Some s'"
    "vm_inv s' D (if pp_ref s p = 1 then p # xs else xs)"
    "pp_ref s' = (pp_ref s)(p := pp_ref s p - 1)" "npage s' = npage s"
    "\<And>d i. d \<in> D \<Longrightarrow> i < 0x800 \<Longrightarrow> pde s' d i = pde s d i"
    "\<And>x. x \<in> all_slots D \<Longrightarrow> pte_at s' x = ((pte_at s)(slot_of pd va := 0)) x"
    "tlb_ops s' = tlb_operand s (frame pd) va # tlb_ops s"
proof -
  note wf = vm_invD(2) [OF inv] and al = vm_invD(1) [OF inv]
  note live = vm_wf_mapped [OF wf slot_of_all [OF pd], folded upte_def, OF v, folded p]
  have nz: "pde s pd (PDX va) \<noteq> 0" using v upte_absent [of s pd va] by auto
  have free: "p \<notin> set xs" using live(1) inv by (simp add: live_not_free)
  obtain s1 where s1: "s1 = set_ref p (pp_ref s p - 1) s" by blast
  have i1: "alloc_inv s1 xs" using alloc_inv_set_ref [OF al free] by (simp add: s1)
  obtain s2 where s2: "s2 = (if pp_ref s p = 1
      then s1\<lparr>page_free_list := LIST_INSERT_HEAD p (page_free_list s1)\<rparr> else s1)" by blast
  have i2: "alloc_inv s2 (if pp_ref s p = 1 then p # xs else xs)"
  proof (cases "pp_ref s p = 1")
    case True
    then show ?thesis
      using page_free_inv [OF i1 free] live_page_simps(1,3) [OF live(1)] by (simp add: s2 s1)
  qed (use i1 s2 in simp)
  obtain s3 where s3: "s3 = s2\<lparr>kmem := store32 (kmem s2) (pte_addr s pd va) 0\<rparr>" by blast
  have r3: "pp_ref s3 = (pp_ref s)(p := pp_ref s p - 1)" "npage s3 = npage s"
    "kmem s3 = store32 (kmem s) (pte_addr s pd va) 0" "tlb_ops s3 = tlb_ops s"
    "page_free_list s3 = page_free_list s2" "tlb_operand s3 = tlb_operand s" "npage s2 = npage s"
    "pp_ref s2 = pp_ref s3"
    by (simp_all add: s3 s2 s1 tlb_operand_def fun_eq_iff split: option.split)
  note st = store_pte [OF inv pd nz r3(3)]
  have "vm_wf (npage s) ((pp_ref s)(p := pp_ref s p - 1)) D (pde s) ((pte_at s)(slot_of pd va := 0))"
  proof (rule vm_wf_upd [OF wf slot_of_all [OF pd]])
    show "0 < ((pp_ref s)(p := pp_ref s p - 1)) q" if "q \<in> D \<union> tables_of (pde s) D" for q
      using that live(2) vm_wf_dir [OF wf, of q] vm_wf_tables [OF wf, of q]
      by (auto simp: live_page_def)
    show "card (mappings ((pte_at s)(slot_of pd va := 0)) D q) \<le> unat (((pp_ref s)(p := pp_ref s p - 1)) q)" for q
    proof -
      have "card (mappings (pte_at s) D q) \<le> unat (pp_ref s q)" using wf by (simp add: vm_wf_def)
      then show ?thesis
        using v p live_page_simps(4) [OF live(1)]
        by (auto simp: card_mappings_upd [OF slot_of_all [OF pd]] upte_def unat_dec)
    qed
  qed simp
  then have "vm_wf (npage s3) (pp_ref s3) D (pde s3) (pte_at s3)"
    unfolding r3 by (subst vm_wf_cong) (auto simp: st)
  then have i3: "vm_inv s3 D (if pp_ref s p = 1 then p # xs else xs)"
    using i2 alloc_inv_cong [of s3 s2] r3 by (simp add: vm_inv_def)
  have lk: "page_lookup (frame pd) va s = Some (Some (p, pte_addr s pd va))"
    using page_lookup_upte [OF inv pd] v p by simp
  have "page_remove (frame pd) va s = Some (tlb_invalidate (frame pd) va s3)"
    using section_va_user [OF pd(2)]
    by (cases "pp_ref s p = 1") (simp_all add: page_remove_def lk page_free_total s3 s2 s1)
  then show thesis
    by (rule that) (use i3 r3 st in \<open>simp_all only: vm_inv_tlb tlb_ops_invalidate\<close>)
qed

subsection \<open>\<open>page_insert\<close>\<close>

lemma page_insert_newE:
  assumes inv: "vm_inv s D xs" and pd: "pd \<in> D" "va < ULIM" and v: "\<not> valid_pte (upte s pd va)"
    and p: "unit_page p" "p < npage s" "p \<notin> D \<union> tables_of (pde s) D \<union> set xs" "pp_ref s p \<noteq> 0xFFFF"
    and perm: "PERM < 0x1000" "PERM AND PTE_V \<noteq> 0"
  obtains (full) "pde s pd (PDX va) = 0" "xs = []"
      "page_insert_new (frame pd) p va PERM s = Some (Inl E_NO_MEM, tlb_invalidate (frame pd) va s)"
  | (ok) s' where "page_insert_new (frame pd) p va PERM s = Some (Inr (), s')"
    "vm_inv s' D (if pde s pd (PDX va) = 0 then tl xs else xs)" "npage s' = npage s"
    "pde s pd (PDX va) = 0 \<Longrightarrow> xs \<noteq> []"
    "pp_ref s' = (if pde s pd (PDX va) = 0 then (pp_ref s)(hd xs := 1) else pp_ref s)(p := pp_ref s p + 1)"
    "\<And>x. x \<in> all_slots D \<Longrightarrow> pte_at s' x = ((pte_at s)(slot_of pd va := page2pa p OR PERM)) x"
    "tlb_ops s' = tlb_operand s (frame pd) va # tlb_ops s"
    "\<And>d i. d \<in> D \<Longrightarrow> i < 0x800 \<Longrightarrow> d \<noteq> pd \<or> i \<noteq> PDX va \<Longrightarrow> pde s' d i = pde s d i"
    "pde s' pd (PDX va) \<noteq> 0" "tables_of (pde s') D \<subseteq> tables_of (pde s) D \<union> set xs"
proof -
  let ?e = "page2pa p OR PERM"
  let ?s1 = "tlb_invalidate (frame pd) va s"
  have inv1: "vm_inv ?s1 D xs" using inv by simp
  have p4: "p < 0x40000" using p(1) by (simp add: unit_page_def)
  have e: "valid_pte ?e" "pte_page ?e = p"
    using perm p4 by (simp_all add: valid_pte_def entry_flags pte_page_entry)
  have core: "\<exists>s'. page_insert_new (frame pd) p va PERM s = Some (Inr (), s') \<and> vm_inv s' D ys
      \<and> npage s' = npage s \<and> pp_ref s' = (pp_ref t)(p := pp_ref s p + 1)
      \<and> (\<forall>x \<in> all_slots D. pte_at s' x = ((pte_at s)(slot_of pd va := ?e)) x)
      \<and> tlb_ops s' = tlb_ops t
      \<and> (\<forall>d \<in> D. \<forall>i < 0x800. pde s' d i = pde t d i)"
    if w: "pgdir_walk (frame pd) va True ?s1 = Some (Inr (Some (pte_addr t pd va)), t)"
      and t: "vm_inv t D ys" "npage t = npage s" "pp_ref t p = pp_ref s p" "pde t pd (PDX va) \<noteq> 0"
        "\<And>x. x \<in> all_slots D \<Longrightarrow> pte_at t x = pte_at s x"
        "p \<notin> tables_of (pde t) D" "set ys \<subseteq> set xs" for t ys
  proof -
    obtain s' where s': "s' = set_ref p (pp_ref s p + 1) (t\<lparr>kmem := store32 (kmem t) (pte_addr t pd va) ?e\<rparr>)"
      by blast
    have k: "kmem s' = store32 (kmem t) (pte_addr t pd va) ?e" by (simp add: s')
    note st = store_pte [OF t(1) pd t(4) k]
    note wf = vm_invD(2) [OF t(1)]
    have old: "\<not> valid_pte (pte_at t (slot_of pd va))"
      using v t(5) [OF slot_of_all [OF pd]] by (simp add: upte_def)
    have "vm_wf (npage t) ((pp_ref t)(p := pp_ref s p + 1)) D (pde t) ((pte_at t)(slot_of pd va := ?e))"
    proof (rule vm_wf_upd [OF wf slot_of_all [OF pd]])
      show "0 < ((pp_ref t)(p := pp_ref s p + 1)) q" if "q \<in> D \<union> tables_of (pde t) D" for q
        using that p(3) t(6) vm_wf_dir [OF wf, of q] vm_wf_tables [OF wf, of q]
        by (auto simp: live_page_def)
      show "unit_page (pte_page ?e) \<and> pte_page ?e < npage t \<and> pte_page ?e \<notin> D \<union> tables_of (pde t) D"
        using p e t by simp
      show "card (mappings ((pte_at t)(slot_of pd va := ?e)) D q) \<le> unat (((pp_ref t)(p := pp_ref s p + 1)) q)" for q
      proof -
        have "card (mappings (pte_at t) D q) \<le> unat (pp_ref t q)" using wf by (simp add: vm_wf_def)
        then show ?thesis
          using old e t(3) by (auto simp: card_mappings_upd [OF slot_of_all [OF pd]] unat_inc [OF p(4)])
      qed
    qed
    then have "vm_wf (npage s') (pp_ref s') D (pde t) ((pte_at t)(slot_of pd va := ?e))"
      by (simp add: s')
    then have "vm_wf (npage s') (pp_ref s') D (pde s') (pte_at s')"
      by (subst vm_wf_cong [OF st]) simp_all
    moreover have "alloc_inv s' ys"
      using vm_invD(1) [OF t(1)] p(3) t(7) by (auto simp: s' alloc_inv_def)
    moreover have "page_insert_new (frame pd) p va PERM s = Some (Inr (), s')"
      by (simp add: page_insert_new_def w s' t(3) Let_def)
    ultimately show ?thesis
      using st t(2,5) by (intro exI [of _ s']) (auto simp: vm_inv_def s')
  qed
  show thesis
  proof (cases "pde s pd (PDX va) = 0")
    case False
    then obtain s' where "page_insert_new (frame pd) p va PERM s = Some (Inr (), s')" "vm_inv s' D xs"
      "npage s' = npage s" "pp_ref s' = (pp_ref s)(p := pp_ref s p + 1)"
      "\<And>x. x \<in> all_slots D \<Longrightarrow> pte_at s' x = ((pte_at s)(slot_of pd va := ?e)) x"
      "tlb_ops s' = tlb_operand s (frame pd) va # tlb_ops s"
      "\<And>d i. d \<in> D \<Longrightarrow> i < 0x800 \<Longrightarrow> pde s' d i = pde s d i"
      using core [of ?s1 xs] pgdir_walk_present [OF inv1 pd] inv1 p by auto
    moreover have "pde s' pd (PDX va) \<noteq> 0"
      using calculation(7) [OF pd(1) PDX_user [OF pd(2)]] False by simp
    moreover have "tables_of (pde s') D = tables_of (pde s) D" by (rule tables_of_cong) (rule calculation(7))
    ultimately show thesis using ok False by simp
  next
    case abs: True
    show thesis
    proof (cases xs)
      case Nil
      then have "pgdir_walk (frame pd) va True ?s1 = Some (Inl E_NO_MEM, ?s1)"
        using abs pd inv1 by (intro pgdir_walk_full) (simp_all add: vm_inv_def)
      then show thesis using full abs Nil by (simp add: page_insert_new_def)
    next
      case (Cons q ys)
      have inv2: "vm_inv ?s1 D (q # ys)" using inv1 Cons by simp
      have abs1: "pde ?s1 pd (PDX va) = 0" using abs by simp
      obtain t where t: "pgdir_walk (frame pd) va True ?s1 = Some (Inr (Some (pte_addr t pd va)), t)"
        "vm_inv t D ys" "pp_ref t = (pp_ref ?s1)(q := 1)" "npage t = npage ?s1"
        "\<And>d i. d \<in> D \<Longrightarrow> i < 0x800 \<Longrightarrow> pde t d i =
          (if d = pd \<and> i = PDX va then page2pa q OR PDE_PAGE_TABLE else pde ?s1 d i)"
        "\<And>x. x \<in> all_slots D \<Longrightarrow> pte_at t x = pte_at ?s1 x"
        "tlb_ops t = tlb_ops ?s1" "pte_page (pde t pd (PDX va)) = q"
        by (rule pgdir_walk_create [OF inv2 pd abs1]) blast
      have ne: "page2pa q OR PDE_PAGE_TABLE \<noteq> 0" using entry_flags [of PDE_PAGE_TABLE 1 q] by auto
      have pq: "p \<noteq> q" using p(3) Cons by auto
      have "unit_page q" using alloc_inv_unit [OF vm_invD(1) [OF inv2], of q] by simp
      then have "pte_page (page2pa q OR PDE_PAGE_TABLE) = q" by (simp add: pte_page_entry unit_page_def)
      then have tab: "p \<notin> tables_of (pde t) D"
        using p(3) pq t(5) unfolding tables_of_def by (auto split: if_splits)
      have c: "npage t = npage s" "pp_ref t p = pp_ref s p" "pde t pd (PDX va) \<noteq> 0"
        "\<And>x. x \<in> all_slots D \<Longrightarrow> pte_at t x = pte_at s x" "set ys \<subseteq> set xs"
        using t pq ne PDX_user [OF pd(2)] pd(1) Cons by auto
      obtain s' where "page_insert_new (frame pd) p va PERM s = Some (Inr (), s')" "vm_inv s' D ys"
        "npage s' = npage s" "pp_ref s' = (pp_ref t)(p := pp_ref s p + 1)"
        "\<And>x. x \<in> all_slots D \<Longrightarrow> pte_at s' x = ((pte_at s)(slot_of pd va := ?e)) x" "tlb_ops s' = tlb_ops t"
        "\<And>d i. d \<in> D \<Longrightarrow> i < 0x800 \<Longrightarrow> pde s' d i = pde t d i"
        using core [OF t(1,2) c(1-4) tab c(5)] by blast
      moreover have "pde s' pd (PDX va) \<noteq> 0"
        using calculation(7) [OF pd(1) PDX_user [OF pd(2)]] c(3) by simp
      moreover have "pde s' d i = pde s d i" if "d \<in> D" "i < 0x800" "d \<noteq> pd \<or> i \<noteq> PDX va" for d i
        using calculation(7) [OF that(1,2)] t(5) [OF that(1,2)] that(3) by auto
      moreover have "tables_of (pde s') D \<subseteq> tables_of (pde s) D \<union> set xs"
      proof -
        have "tables_of (pde s') D = tables_of (pde t) D" by (rule tables_of_cong) (rule calculation(7))
        also have "\<dots> \<subseteq> tables_of (pde s) D \<union> {q}"
        proof
          fix x assume "x \<in> tables_of (pde t) D"
          then obtain d i where x: "x = pte_page (pde t d i)" "d \<in> D" "i < 0x800" "pde t d i \<noteq> 0"
            unfolding tables_of_def by blast
          show "x \<in> tables_of (pde s) D \<union> {q}"
          proof (cases "d = pd \<and> i = PDX va")
            case True
            then show ?thesis using x(1) t(5) [OF x(2,3)] \<open>pte_page (page2pa q OR PDE_PAGE_TABLE) = q\<close> by simp
          next
            case False
            then have "pde t d i = pde s d i" using t(5) [OF x(2,3)] by auto
            then show ?thesis using x unfolding tables_of_def by auto
          qed
        qed
        finally show ?thesis using Cons by auto
      qed
      ultimately show thesis using ok abs Cons t by simp
    qed
  qed
qed

lemma less_4096_iff: "x < 0x1000 \<longleftrightarrow> take_bit 12 x = (x :: u32)"
  unfolding word_less_nat_alt word_unat_eq_iff unsigned_take_bit_eq take_bit_nat_eq_self_iff by simp

lemma or_less_4096: "a < 0x1000 \<Longrightarrow> b < 0x1000 \<Longrightarrow> a OR b < (0x1000 :: u32)"
  by (simp add: less_4096_iff take_bit_or)

lemma or_PTE_V: "perm < 0x1000 \<Longrightarrow> (perm OR PTE_V) < 0x1000" "(perm OR PTE_V) AND PTE_V \<noteq> (0 :: u32)"
proof -
  show "perm < 0x1000 \<Longrightarrow> (perm OR PTE_V) < 0x1000" by (rule or_less_4096) simp_all
  have "bit ((perm OR PTE_V) AND PTE_V) 1" by (simp add: bit_simps)
  then show "(perm OR PTE_V) AND PTE_V \<noteq> 0" by auto
qed

text \<open>Rewriting the entry that maps the page already: only the permissions change.\<close>

lemma page_insert_same:
  assumes inv: "vm_inv s D xs" and pd: "pd \<in> D" "va < ULIM" and v: "valid_pte (upte s pd va)"
    and p: "p = pte_page (upte s pd va)" and perm: "perm < 0x1000"
  obtains s' where "page_insert (frame pd) p va perm s = Some (Inr (), s')" "vm_inv s' D xs"
    "pp_ref s' = pp_ref s" "npage s' = npage s"
    "\<And>x. x \<in> all_slots D \<Longrightarrow> pte_at s' x = ((pte_at s)(slot_of pd va := page2pa p OR (perm OR PTE_V))) x"
    "tlb_ops s' = tlb_operand s (frame pd) va # tlb_ops s"
proof -
  let ?e = "page2pa p OR (perm OR PTE_V)"
  note wf = vm_invD(2) [OF inv]
  note live = vm_wf_mapped [OF wf slot_of_all [OF pd], folded upte_def, OF v, folded p]
  have nz: "pde s pd (PDX va) \<noteq> 0" using v upte_absent [of s pd va] by auto
  have e: "valid_pte ?e" "pte_page ?e = p"
    using or_PTE_V [of perm] perm live_page_simps [OF live(1)]
    by (simp_all add: valid_pte_def entry_flags pte_page_entry)
  obtain s' where s': "s' = (tlb_invalidate (frame pd) va s)\<lparr>kmem := store32 (kmem s) (pte_addr s pd va) ?e\<rparr>"
    by blast
  have k: "kmem s' = store32 (kmem s) (pte_addr s pd va) ?e" by (simp add: s')
  note st = store_pte [OF inv pd nz k]
  have "vm_wf (npage s) (pp_ref s) D (pde s) ((pte_at s)(slot_of pd va := ?e))"
  proof (rule vm_wf_upd [OF wf slot_of_all [OF pd]])
    show "0 < pp_ref s q" if "q \<in> D \<union> tables_of (pde s) D" for q
      using that vm_wf_dir [OF wf, of q] vm_wf_tables [OF wf, of q] by (auto simp: live_page_def)
    show "unit_page (pte_page ?e) \<and> pte_page ?e < npage s \<and> pte_page ?e \<notin> D \<union> tables_of (pde s) D"
      using live e by (simp add: live_page_def)
    show "card (mappings ((pte_at s)(slot_of pd va := ?e)) D q) \<le> unat (pp_ref s q)" for q
      using wf v e p by (auto simp: card_mappings_upd [OF slot_of_all [OF pd]] upte_def vm_wf_def)
  qed
  then have "vm_wf (npage s') (pp_ref s') D (pde s) ((pte_at s)(slot_of pd va := ?e))" by (simp add: s')
  then have "vm_wf (npage s') (pp_ref s') D (pde s') (pte_at s')"
    by (subst vm_wf_cong [OF st]) simp_all
  moreover have "alloc_inv s' xs" using vm_invD(1) [OF inv] by (simp add: s' alloc_inv_def)
  moreover have "pa2page (upte s pd va) s = Some p"
    using live_page_simps(3) [OF live(1)] p by (auto simp: pa2page_entry)
  then have "page_insert (frame pd) p va perm s = Some (Inr (), s')"
    using section_va_user [OF pd(2)] v
    by (simp add: page_insert_def pgdir_walk_present [OF inv pd nz] load_pte_addr [OF nz] valid_pte_def
        Let_def s')
  ultimately show thesis using that st(2) by (simp add: vm_inv_def s')
qed

lemma page_insert_fresh:
  assumes inv: "vm_inv s D xs" and pd: "pd \<in> D" "va < ULIM" and v: "\<not> valid_pte (upte s pd va)"
  shows "page_insert (frame pd) p va perm s = page_insert_new (frame pd) p va (perm OR PTE_V) s"
proof (cases "pde s pd (PDX va) = 0")
  case True
  then show ?thesis
    using pd by (simp add: page_insert_def section_va_user pgdir_walk_absent)
next
  case nz: False
  then show ?thesis
    using section_va_user [OF pd(2)] v
    by (simp add: page_insert_def pgdir_walk_present [OF inv pd nz] load_pte_addr [OF nz] valid_pte_def)
qed

lemma page_insertE:
  assumes inv: "vm_inv s D xs" and pd: "pd \<in> D" "va < ULIM"
    and p: "unit_page p" "p < npage s" "p \<notin> D \<union> tables_of (pde s) D \<union> set xs" "pp_ref s p \<noteq> 0xFFFF"
    and perm: "perm < 0x1000"
  obtains (full) "pde s pd (PDX va) = 0" "xs = []"
      "page_insert (frame pd) p va perm s = Some (Inl E_NO_MEM, tlb_invalidate (frame pd) va s)"
  | (ok) s' xs' where "page_insert (frame pd) p va perm s = Some (Inr (), s')" "vm_inv s' D xs'"
    "npage s' = npage s" "pde s pd (PDX va) = 0 \<Longrightarrow> xs \<noteq> []"
    "pp_ref s' p = (if valid_pte (upte s pd va) \<and> pte_page (upte s pd va) = p then pp_ref s p
       else pp_ref s p + 1)"
    "\<And>x. x \<in> all_slots D \<Longrightarrow>
      pte_at s' x = ((pte_at s)(slot_of pd va := page2pa p OR (perm OR PTE_V))) x"
    "tlb_operand s (frame pd) va \<in> set (tlb_ops s')"
    "pde s pd (PDX va) = 0 \<Longrightarrow> xs' = tl xs" "\<not> valid_pte (upte s pd va) \<Longrightarrow> set xs' \<subseteq> set xs"
proof (cases "valid_pte (upte s pd va)")
  case False
  note step = page_insert_fresh [OF inv pd False, of p perm]
  show thesis
  proof (cases rule: page_insert_newE [OF inv pd False p or_PTE_V(1) [OF perm] or_PTE_V(2)])
    case 1
    then show thesis using that(1) step by simp
  next
    case (2 s')
    then show thesis
      using that(2) [OF _ 2(2)] step False by (cases xs) (auto split: if_splits)
  qed
next
  case True
  note wf = vm_invD(2) [OF inv]
  have nz: "pde s pd (PDX va) \<noteq> 0" using True upte_absent [of s pd va] by auto
  show thesis
  proof (cases "pte_page (upte s pd va) = p")
    case same: True
    obtain s' where s': "page_insert (frame pd) p va perm s = Some (Inr (), s')" "vm_inv s' D xs"
      "pp_ref s' = pp_ref s" "npage s' = npage s"
      "\<And>x. x \<in> all_slots D \<Longrightarrow> pte_at s' x = ((pte_at s)(slot_of pd va := page2pa p OR (perm OR PTE_V))) x"
      "tlb_ops s' = tlb_operand s (frame pd) va # tlb_ops s"
      by (rule page_insert_same [OF inv pd True same [symmetric] perm]) blast
    show thesis using that(2) [OF s'(1,2,4)] s' True same nz by simp
  next
    case other: False
    obtain q where q: "pte_page (upte s pd va) = q" by blast
    obtain s1 where s1: "page_remove (frame pd) va s = Some s1"
      "vm_inv s1 D (if pp_ref s q = 1 then q # xs else xs)"
      "pp_ref s1 = (pp_ref s)(q := pp_ref s q - 1)" "npage s1 = npage s"
      "\<And>d i. d \<in> D \<Longrightarrow> i < 0x800 \<Longrightarrow> pde s1 d i = pde s d i"
      "\<And>x. x \<in> all_slots D \<Longrightarrow> pte_at s1 x = ((pte_at s)(slot_of pd va := 0)) x"
      "tlb_ops s1 = tlb_operand s (frame pd) va # tlb_ops s"
      by (rule page_removeE [OF inv pd True q [symmetric]]) blast
    have v1: "\<not> valid_pte (upte s1 pd va)" using s1(6) [OF slot_of_all [OF pd]] by (simp add: upte_def)
    have p1: "p \<notin> D \<union> tables_of (pde s1) D \<union> set (if pp_ref s q = 1 then q # xs else xs)"
      using p(3) tables_of_cong [of D "pde s1" "pde s"] s1(5) other q by auto
    have r1: "pp_ref s1 p = pp_ref s p" using s1(3) other q by auto
    have nz1: "pde s1 pd (PDX va) \<noteq> 0" using s1(5) [OF pd(1) PDX_user [OF pd(2)]] nz by simp
    have "pa2page (upte s pd va) s = Some q"
      using vm_wf_mapped(1) [OF wf slot_of_all [OF pd], folded upte_def, OF True] q
      by (auto simp: pa2page_entry live_page_def)
    then have step: "page_insert (frame pd) p va perm s = page_insert_new (frame pd) p va (perm OR PTE_V) s1"
      using section_va_user [OF pd(2)] True other q s1(1)
      by (simp add: page_insert_def pgdir_walk_present [OF inv pd nz] load_pte_addr [OF nz] valid_pte_def)
    have p2: "p < npage s1" "pp_ref s1 p \<noteq> 0xFFFF" using p s1(4) r1 by simp_all
    show thesis
    proof (cases rule: page_insert_newE [OF s1(2) pd v1 p(1) p2(1) p1 p2(2) or_PTE_V(1) [OF perm] or_PTE_V(2)])
      case 1
      then show thesis using nz1 by simp
    next
      case (2 s')
      note ok = 2
      have "pte_at s' x = ((pte_at s)(slot_of pd va := page2pa p OR (perm OR PTE_V))) x"
        if "x \<in> all_slots D" for x
        using ok(6) [OF that] s1(6) [OF that] by simp
      then show thesis
        using that(2) [OF _ ok(2)] ok step nz nz1 s1 r1 True other by simp
    qed
  qed
qed

end
