(* ===== verification/Paging.thy ===== *)
theory Paging
  imports Vm
begin

section \<open>What mapping, unmapping and lookup promise\<close>

text \<open>
  The properties of \<open>page_insert\<close>, \<open>page_remove\<close>, \<open>page_lookup\<close> and \<open>va2pa\<close> over
  the abstract view \<open>upte\<close> of \<open>Vm\<close>, and of the boot page directory that
  \<open>init_boot_pgdir\<close> builds.
\<close>

subsection \<open>A machine with one empty address space\<close>

definition one_space :: kstate where
  "one_space = (case page_alloc small_machine of
     Some (Inr p, s) \<Rightarrow> set_ref p 1 s | _ \<Rightarrow> small_machine)"

lemma load32_zero: "load32 (\<lambda>_. 0) a = 0"
  by (simp add: load32_def)

lemma small_machine_mem: "kmem small_machine = (\<lambda>_. 0)"
proof -
  have "kmem (fold (\<lambda>k. page_init_free (of_nat k)) ks s) = kmem s" for ks s
    by (induction ks arbitrary: s) (simp_all add: page_init_free_def Let_def)
  then show ?thesis
    by (simp add: small_machine_def page_init_def Let_def fold_set_ref power_on_def)
qed

lemma vm_wf_empty:
  assumes "\<And>pd. pd \<in> D \<Longrightarrow> live_page n R pd" "\<And>pd i. pd \<in> D \<Longrightarrow> i < 0x800 \<Longrightarrow> P pd i = 0"
    and "\<And>x. x \<in> all_slots D \<Longrightarrow> M x = 0"
  shows "vm_wf n R D P M"
proof -
  have "mappings M D p = {}" for p using assms(3) by (auto simp: mappings_def)
  then show ?thesis by (intro vm_wfI) (auto simp: assms)
qed

lemma one_space_inv: "vm_inv one_space {2064} [2060, 2056, 2052, 2048]"
  and one_space_mem: "pde one_space pd i = 0" "upte one_space pd va = 0"
  and one_space_npage: "npage one_space = 2068" "pp_ref one_space 2064 = 1" "pp_ref one_space 4 = 1"
proof -
  obtain s where s: "page_alloc small_machine = Some (Inr 2064, s)" "alloc_inv s [2060, 2056, 2052, 2048]"
    "s = small_machine\<lparr>page_free_list := page_free_list s, kmem := bzero (kmem small_machine) (frame 2064) 4096\<rparr>"
    "pp_ref s = pp_ref small_machine" "npage s = npage small_machine"
    by (rule page_allocE [OF small_machine_inv(1)])
  have one: "one_space = set_ref 2064 1 s" by (simp add: one_space_def s(1))
  have m: "kmem one_space = (\<lambda>_. 0)"
    by (simp add: one) (subst s(3), simp add: small_machine_mem bzero_closed)
  show p: "pde one_space pd i = 0" for pd i by (simp add: pde_def m load32_zero)
  show "upte one_space pd va = 0" by (rule upte_absent) (rule p)
  show n: "npage one_space = 2068" using s(5) small_machine_inv(2) by (simp add: one)
  show r: "pp_ref one_space 2064 = 1" by (simp add: one)
  show "pp_ref one_space 4 = 1"
    using s(4) small_machine_inv(3) [of 4] by (simp add: one word_less_nat_alt)
  have "vm_wf (npage one_space) (pp_ref one_space) {2064} (pde one_space) (pte_at one_space)"
    by (rule vm_wf_empty) (auto simp: live_page_def unit_page_def n r p pte_at.simps)
  then show "vm_inv one_space {2064} [2060, 2056, 2052, 2048]"
    using alloc_inv_set_ref [OF s(2), of 2064 1] by (simp add: vm_inv_def one)
qed

subsection \<open>Insert and remove\<close>

text \<open>Property C3. \<open>page_insert\<close> of a page that is neither free nor a table changes exactly
  one entry of the address spaces: afterwards the page of \<open>va\<close> maps \<open>p\<close> with the given
  permissions and \<open>PTE_V\<close>, every other page of every directory is mapped as before, and
  the count of \<open>p\<close> has grown by one unless \<open>p\<close> was mapped there already. The only error is
  \<open>-E_NO_MEM\<close>, when a table is missing and no page is free; then nothing is remapped. Either
  way no mapped page, table or directory is on the free list.\<close>

theorem page_insert_correct:
  assumes inv: "vm_inv s D xs" and pd: "pd \<in> D" "va < ULIM"
    and p: "unit_page p" "p < npage s" "p \<notin> D \<union> tables_of (pde s) D \<union> set xs" "pp_ref s p \<noteq> 0xFFFF"
    and perm: "perm < 0x1000"
  shows "\<exists>r s' xs'. page_insert (frame pd) p va perm s = Some (r, s') \<and> vm_inv s' D xs' \<and>
    (case r of
       Inl e \<Rightarrow> e = E_NO_MEM \<and> xs = [] \<and> upte s' = upte s \<and> pp_ref s' = pp_ref s
     | Inr _ \<Rightarrow> (\<forall>d\<in>D. \<forall>v<ULIM. upte s' d v = (if d = pd \<and> same_page v va
           then page2pa p OR (perm OR PTE_V) else upte s d v))
         \<and> pp_ref s' p = (if valid_pte (upte s pd va) \<and> pte_page (upte s pd va) = p
             then pp_ref s p else pp_ref s p + 1))
    \<and> tlb_operand s (frame pd) va \<in> set (tlb_ops s')"
proof (cases rule: page_insertE [OF inv pd p perm])
  case 1
  then show ?thesis using inv by auto
next
  case (2 s' xs')
  then show ?thesis
    using upte_of_pte_at [OF 2(6)] by (intro exI [of _ "Inr ()"] exI [of _ s'] exI [of _ xs']) auto
qed

theorem page_insert_correct_witness:
  "\<exists>r s' xs'. page_insert (frame 2064) 4 0x400000 PTE_R one_space = Some (r, s') \<and> vm_inv s' {2064} xs'
    \<and> upte s' 2064 0x400123 = 0x4000443A"
proof -
  have "\<exists>r s' xs'. page_insert (frame 2064) 4 0x400000 PTE_R one_space = Some (r, s') \<and> vm_inv s' {2064} xs' \<and>
    (case r of
       Inl e \<Rightarrow> e = E_NO_MEM \<and> [2060 :: u32, 2056, 2052, 2048] = [] \<and> upte s' = upte one_space
         \<and> pp_ref s' = pp_ref one_space
     | Inr _ \<Rightarrow> (\<forall>d\<in>{2064}. \<forall>v<ULIM. upte s' d v = (if d = 2064 \<and> same_page v 0x400000
           then page2pa 4 OR (PTE_R OR PTE_V) else upte one_space d v))
         \<and> pp_ref s' 4 = (if valid_pte (upte one_space 2064 0x400000) \<and> pte_page (upte one_space 2064 0x400000) = 4
             then pp_ref one_space 4 else pp_ref one_space 4 + 1))
    \<and> tlb_operand one_space (frame 2064) 0x400000 \<in> set (tlb_ops s')"
    by (rule page_insert_correct [OF one_space_inv])
      (auto simp: unit_page_def one_space_npage tables_of_def one_space_mem)
  then show ?thesis
    by (fastforce simp: same_page_def page2pa_def split: sum.splits)
qed

text \<open>Property C4. \<open>page_remove\<close> clears exactly the entry of the page of \<open>va\<close>, takes one
  reference from the page that was mapped there, gives it back to the allocator exactly
  when that was the last one, and invalidates the address in the TLB; where nothing is
  mapped it does nothing.\<close>

theorem page_remove_correct:
  assumes inv: "vm_inv s D xs" and pd: "pd \<in> D" "va < ULIM"
  shows "\<exists>s'. page_remove (frame pd) va s = Some s' \<and>
    (if valid_pte (upte s pd va)
     then (let p = pte_page (upte s pd va)
       in vm_inv s' D (if pp_ref s p = 1 then p # xs else xs)
        \<and> pp_ref s' = (pp_ref s)(p := pp_ref s p - 1) \<and> pp_ref s p \<noteq> 0
        \<and> (\<forall>d\<in>D. \<forall>v<ULIM. upte s' d v = (if d = pd \<and> same_page v va then 0 else upte s d v))
        \<and> hd (tlb_ops s') = tlb_operand s (frame pd) va)
     else s' = s)"
proof (cases "valid_pte (upte s pd va)")
  case True
  have ref: "pp_ref s (pte_page (upte s pd va)) \<noteq> 0"
    using vm_wf_mapped(1) [OF vm_invD(2) [OF inv] slot_of_all [OF pd], folded upte_def, OF True]
    by (rule live_page_simps)
  obtain s' where s': "page_remove (frame pd) va s = Some s'"
    "vm_inv s' D (if pp_ref s (pte_page (upte s pd va)) = 1 then pte_page (upte s pd va) # xs else xs)"
    "pp_ref s' = (pp_ref s)(pte_page (upte s pd va) := pp_ref s (pte_page (upte s pd va)) - 1)"
    "\<And>x. x \<in> all_slots D \<Longrightarrow> pte_at s' x = ((pte_at s)(slot_of pd va := 0)) x"
    "tlb_ops s' = tlb_operand s (frame pd) va # tlb_ops s"
    by (rule page_removeE [OF inv pd True refl]) blast
  then show ?thesis
    using True ref upte_of_pte_at [OF s'(4)] by (simp add: Let_def)
next
  case False
  then show ?thesis using page_remove_absent [OF inv pd] by simp
qed

text \<open>The machine with page 4 mapped at \<open>0x400000\<close>.\<close>

lemma one_mapping:
  obtains s xs where "page_insert (frame 2064) 4 0x400000 PTE_R one_space = Some (Inr (), s)"
    "vm_inv s {2064} xs" "npage s = 2068" "pp_ref s 4 = 2" "4 \<notin> tables_of (pde s) {2064}"
    "xs = [2056, 2052, 2048]"
    "\<And>v. v < ULIM \<Longrightarrow> upte s 2064 v = (if same_page v 0x400000 then 0x4000443A else 0)"
proof (cases rule: page_insertE [OF one_space_inv, where pd = 2064 and va = "0x400000" and p = 4 and perm = PTE_R])
  case (9 s xs)
  have u: "upte s 2064 v = (if same_page v 0x400000 then 0x4000443A else 0)" if "v < ULIM" for v
    using upte_of_pte_at [OF 9(6), where d = 2064 and v = v] that by (simp add: one_space_mem page2pa_def)
  have "valid_pte (upte s 2064 0x400000)" "pte_page (upte s 2064 0x400000) = 4"
    using u [of "0x400000"] by (simp_all add: same_page_def valid_pte_def pte_page_def PPN_def)
  then have "4 \<notin> tables_of (pde s) {2064}"
    using vm_wf_mapped(2) [OF vm_invD(2) [OF 9(2)] slot_of_all [where pd = 2064 and D = "{2064}" and va = "0x400000"], folded upte_def]
    by simp
  then show thesis
    using that [OF 9(1,2)] u 9 by (simp add: one_space_npage one_space_mem)
qed (auto simp: unit_page_def one_space_npage tables_of_def one_space_mem)

theorem page_remove_correct_witness:
  "\<exists>s s'. page_insert (frame 2064) 4 0x400000 PTE_R one_space = Some (Inr (), s)
    \<and> page_remove (frame 2064) 0x400000 s = Some s' \<and> pp_ref s' 4 = 1
    \<and> upte s 2064 0x400123 = 0x4000443A \<and> upte s' 2064 0x400123 = 0"
proof -
  obtain s xs where s: "page_insert (frame 2064) 4 0x400000 PTE_R one_space = Some (Inr (), s)"
    "vm_inv s {2064} xs" "npage s = 2068" "pp_ref s 4 = 2"
    "\<And>v. v < ULIM \<Longrightarrow> upte s 2064 v = (if same_page v 0x400000 then 0x4000443A else 0)"
    by (rule one_mapping) blast
  have "upte s 2064 0x400000 = 0x4000443A" using s(5) [of "0x400000"] by (simp add: same_page_def)
  then show ?thesis
    using page_remove_correct [OF s(2), where pd = 2064 and va = "0x400000"] s(1,4) s(5) [of "0x400123"]
    by (auto simp: valid_pte_def pte_page_def PPN_def Let_def same_page_def)
qed

subsection \<open>Lookup and translation\<close>

lemma va2pa_upte:
  assumes inv: "vm_inv s D xs" and pd: "pd \<in> D" "va < ULIM"
  shows "va2pa (frame pd) va s = Some (if valid_pte (upte s pd va)
    then PG_ADDR_BASE (upte s pd va) OR PG_ADDR_OFFSET va else NOT 0)"
proof (cases "pde s pd (PDX va) = 0")
  case True
  then show ?thesis by (simp add: va2pa_def pde_def [symmetric] upte_absent)
next
  case False
  from vm_invD(2) [OF inv] pd(1) PDX_user [OF pd(2)] False obtain q where
    q: "pde s pd (PDX va) = page2pa q OR PDE_PAGE_TABLE" "live_page (npage s) (pp_ref s) q"
    "pte_page (pde s pd (PDX va)) = q"
    by (rule vm_wf_tableE)
  let ?e = "page2pa q OR PDE_PAGE_TABLE"
  have "?e AND PDE_SUPER_SECTION \<noteq> PDE_SUPER_SECTION" "?e AND PDE_SECTION \<noteq> PDE_SECTION"
  proof -
    have "\<not> bit ?e 1" by (simp add: page2pa_push bit_simps)
    then have "\<not> bit (?e AND m) 1" for m by (simp add: bit_simps)
    moreover have "bit (0x50402 :: u32) 1" "bit (0x10402 :: u32) 1" by (simp_all add: bit_simps)
    ultimately show "?e AND PDE_SUPER_SECTION \<noteq> PDE_SUPER_SECTION" "?e AND PDE_SECTION \<noteq> PDE_SECTION"
      by metis+
  qed
  moreover have "KADDR (npage s) (page2pa q) = Some (frame q)"
    using live_page_simps [OF q(2)] by (simp add: KADDR_page2pa)
  moreover have "?e AND PDE_PAGE_TABLE = PDE_PAGE_TABLE" by (simp add: entry_flags)
  moreover have "load32 (kmem s) (frame q + 4 * PTX va) = upte s pd va"
    using load_pte_addr [OF False] q(3) by (simp add: pte_addr_def)
  ultimately show ?thesis
    using q(1) by (simp add: va2pa_def pde_def [symmetric] valid_pte_def Let_def)
qed

text \<open>Property C8. After a successful \<open>page_insert\<close>, \<open>page_lookup\<close> finds the page at
  every address of that page and \<open>va2pa\<close> translates it to the page's frame with the same
  offset, \<open>page_lookup\<close> and \<open>va2pa\<close> of all other user addresses are unchanged in what page
  and frame they give.\<close>

theorem page_insert_lookup:
  assumes inv: "vm_inv s D xs" and pd: "pd \<in> D" "va < ULIM"
    and p: "unit_page p" "p < npage s" "p \<notin> D \<union> tables_of (pde s) D \<union> set xs" "pp_ref s p \<noteq> 0xFFFF"
    and perm: "perm < 0x1000" and ins: "page_insert (frame pd) p va perm s = Some (Inr (), s')"
    and d: "d \<in> D" "v < ULIM"
  shows "if d = pd \<and> same_page v va
    then (\<exists>a. page_lookup (frame d) v s' = Some (Some (p, a)))
      \<and> va2pa (frame d) v s' = Some (page2pa p OR PG_ADDR_OFFSET v)
    else map_option (map_option fst) (page_lookup (frame d) v s')
        = map_option (map_option fst) (page_lookup (frame d) v s)
      \<and> va2pa (frame d) v s' = va2pa (frame d) v s"
proof (cases rule: page_insertE [OF inv pd p perm])
  case 1
  then show ?thesis using ins by simp
next
  case (2 s2 xs')
  have s2: "s2 = s'" using 2(1) ins by simp
  note inv' = 2(2) [unfolded s2]
  have u: "upte s' d v = (if d = pd \<and> same_page v va then page2pa p OR (perm OR PTE_V) else upte s d v)"
    using upte_of_pte_at [OF 2(6) d] s2 by simp
  have "valid_pte (page2pa p OR (perm OR PTE_V))" "pte_page (page2pa p OR (perm OR PTE_V)) = p"
    "PG_ADDR_BASE (page2pa p OR (perm OR PTE_V)) = page2pa p"
    using or_PTE_V [of perm] perm p(1)
    by (simp_all add: valid_pte_def entry_flags pte_page_entry PG_ADDR_BASE_entry unit_page_def)
  then show ?thesis
    unfolding page_lookup_upte [OF inv' d] page_lookup_upte [OF inv d]
      va2pa_upte [OF inv' d] va2pa_upte [OF inv d]
    using u by (cases "d = pd \<and> same_page v va") auto
qed

theorem page_insert_lookup_witness:
  "\<exists>s a. page_insert (frame 2064) 4 0x400000 PTE_R one_space = Some (Inr (), s)
    \<and> page_lookup (frame 2064) 0x400123 s = Some (Some (4, a))
    \<and> va2pa (frame 2064) 0x400123 s = Some 0x40004123"
proof -
  obtain s where s: "page_insert (frame 2064) 4 0x400000 PTE_R one_space = Some (Inr (), s)"
    by (rule one_mapping) blast
  show ?thesis
    using page_insert_lookup [OF one_space_inv _ _ _ _ _ _ _ s, where d = 2064 and v = "0x400123"]
    by (auto simp: s unit_page_def one_space_npage tables_of_def one_space_mem same_page_def
        page2pa_def PG_ADDR_OFFSET_def)
qed

subsection \<open>The boot page directory\<close>

lemma hi_mask: "(0xFF000000 :: u32) = NOT (mask 24)"
  by (simp add: mask_eq_exp_minus_1)

lemma and_hi_eq: "unat x div 16777216 = unat y div 16777216 \<Longrightarrow> x AND 0xFF000000 = y AND (0xFF000000 :: u32)"
proof -
  assume "unat x div 16777216 = unat y div 16777216"
  then have "drop_bit 24 x = drop_bit 24 y" by (simp add: word_unat_eq_iff unat_drop_div)
  moreover have "w AND NOT (mask 24) = push_bit 24 (drop_bit 24 w)" for w :: u32
    by (rule bit_word_eqI) (auto simp: bit_simps)
  ultimately show ?thesis by (simp only: hi_mask)
qed

lemma and_hi_eq20: "unat x div 1048576 = unat y div 1048576 \<Longrightarrow> x AND 0xFFF00000 = y AND (0xFFF00000 :: u32)"
proof -
  assume "unat x div 1048576 = unat y div 1048576"
  then have "drop_bit 20 x = drop_bit 20 y" by (simp add: word_unat_eq_iff unat_drop_div)
  moreover have "w AND NOT (mask 20) = push_bit 20 (drop_bit 20 w)" for w :: u32
    by (rule bit_word_eqI) (auto simp: bit_simps)
  moreover have "(0xFFF00000 :: u32) = NOT (mask 20)" by (simp add: mask_eq_exp_minus_1)
  ultimately show ?thesis by simp
qed

lemma and_lo_eq20: "unat x mod 1048576 = unat y mod 1048576 \<Longrightarrow>
  x AND NOT 0xFFF00000 = y AND NOT (0xFFF00000 :: u32)"
proof -
  assume "unat x mod 1048576 = unat y mod 1048576"
  then have "take_bit 20 x = take_bit 20 y"
    by (simp only: word_unat_eq_iff unsigned_take_bit_eq) (simp add: take_bit_eq_mod)
  moreover have "(0xFFF00000 :: u32) = NOT (mask 20)" by (simp add: mask_eq_exp_minus_1)
  ultimately show ?thesis by (simp only: bit.double_compl take_bit_eq_mask)
qed

lemma and_lo_eq: "unat x mod 16777216 = unat y mod 16777216 \<Longrightarrow>
  x AND NOT 0xFF000000 = y AND NOT (0xFF000000 :: u32)"
proof -
  assume "unat x mod 16777216 = unat y mod 16777216"
  then have "take_bit 24 x = take_bit 24 y"
    by (simp only: word_unat_eq_iff unsigned_take_bit_eq) (simp add: take_bit_eq_mod)
  then show ?thesis by (simp only: hi_mask bit.double_compl take_bit_eq_mask)
qed

lemma hi_or_lo: "(x AND 0xFF000000) OR (x AND NOT 0xFF000000) = (x :: u32)"
  by (rule bit_word_eqI) (auto simp: bit_simps)

lemma hi_or_lo20: "(x AND 0xFFF00000) OR (x AND NOT 0xFFF00000) = (x :: u32)"
  by (rule bit_word_eqI) (auto simp: bit_simps)

lemma unat_of_nat_MB: "k < 4096 \<Longrightarrow> unat (of_nat k * PDMAP :: u32) = k * 1048576"
  by (simp add: unat_word_ariths of_nat_u32)

lemma PDX_MB: "k < 4096 \<Longrightarrow> PDX (of_nat k * PDMAP) = of_nat k"
proof -
  assume k: "k < 4096"
  have "unat (PDX (of_nat k * PDMAP)) = k" unfolding unat_PDX unat_of_nat_MB [OF k] by simp
  then show ?thesis using of_nat_u32 [of k] k by (simp add: word_unat_eq_iff)
qed

lemma load_fold_put:
  assumes b: "unit_page b" and k: "k < 4096" and f: "\<And>j. j \<in> set ks \<Longrightarrow> PDX (f j) = of_nat (j + c) \<and> j + c < 4096"
  shows "load32 (fold (\<lambda>j m. store32 m (frame b + 4 * PDX (f j)) (g j)) ks m) (frame b + 4 * of_nat k) =
    (if c \<le> k \<and> k - c \<in> set ks then g (k - c) else load32 m (frame b + 4 * of_nat k))"
  using f
proof (induction ks arbitrary: m)
  case (Cons j ks)
  have e: "PDX (f j) = of_nat (j + c)" "j + c < 4096" using Cons.prems by simp_all
  have l: "(of_nat n :: u32) < 0x1000" if "n < 4096" for n
    using that by (simp add: word_less_nat_alt of_nat_u32)
  have eq: "(of_nat (j + c) :: u32) = of_nat k \<longleftrightarrow> j + c = k"
    using e k by (intro of_nat_eq_u32) auto
  have "load32 (store32 m (frame b + 4 * PDX (f j)) (g j)) (frame b + 4 * of_nat k) =
      (if j + c = k then g j else load32 m (frame b + 4 * of_nat k))"
    unfolding e(1) load_store_entry [OF b b l [OF e(2)] l [OF k]] eq by simp
  then show ?case using Cons by auto
qed simp


lemma super_section_bits:
  "((x AND PDE_SUPER_SECTION_BASE_MASK) OR PDE_SUPER_SECTION_C) AND PDE_SUPER_SECTION = (PDE_SUPER_SECTION :: u32)"
  "((x AND PDE_SUPER_SECTION_BASE_MASK) OR PDE_SUPER_SECTION_C) AND PDE_SUPER_SECTION_BASE_MASK
    = (x AND PDE_SUPER_SECTION_BASE_MASK :: u32)"
  by (simp_all add: bit.conj_disj_distrib2 and.assoc)

lemma kmem_upd: "kmem (s\<lparr>kmem := m\<rparr>) = m"
  by simp

lemma init_boot_pgdir_pde:
  assumes b: "boot_pgdir s = frame b" "unit_page b" and k: "k < 4096"
  shows "pde (init_boot_pgdir s) b (of_nat k) =
    (if k < 2048 then 0
     else if k < 3072 then ((of_nat (k - 2048) * PDMAP + DRAMBASE) AND PDE_SUPER_SECTION_BASE_MASK)
        OR PDE_SUPER_SECTION_C
     else if k = 3072 then IOPABASE OR PDE_SECTION_DEV else pde s b (of_nat k))"
proof -
  have f1: "PDX (of_nat j * PDMAP) = of_nat (j + 0) \<and> j + 0 < 4096" if "j \<in> set [0..<2048]" for j
    using that PDX_MB [of j] by simp
  have f2: "PDX (of_nat j * PDMAP + ULIM) = of_nat (j + 2048) \<and> j + 2048 < 4096"
    if "j \<in> set [0..<1024]" for j
    using that PDX_MB [of "j + 2048"] by (simp add: distrib_right)
  have f3: "PDX (IOPABASE + of_nat j * PDMAP - IOPABASE + IOVABASE) = of_nat (j + 3072) \<and> j + 3072 < 4096"
    if "j \<in> set [0..<1]" for j
    using that by (simp add: PDX_def)
  show ?thesis
    unfolding pde_def init_boot_pgdir_def Let_def b(1)
    by (simp only: kmem_upd load_fold_put [OF b(2) k f3] load_fold_put [OF b(2) k f2]
        load_fold_put [OF b(2) k f1]) auto
qed

text \<open>Property C29. In the page directory that \<open>init_boot_pgdir\<close> builds, every address of
  the kernel window and of the device window translates to the physical address that
  \<open>PADDR\<close> computes, and no user address is mapped.\<close>

theorem init_boot_pgdir_windows:
  assumes b: "boot_pgdir s = frame b" "unit_page b" and top: "va < IOVABASE + PDMAP"
  shows "va2pa (frame b) va (init_boot_pgdir s) = (if va < ULIM then Some (NOT 0) else PADDR va)"
proof -
  let ?s = "init_boot_pgdir s"
  obtain k where k: "unat va div 1048576 = k" by blast
  have "unat va < 4294967296" using unsigned_less [of va] by simp
  then have k4: "k < 4096" using k by auto
  have pk: "PDX va = of_nat k" using unat_PDX [of va] k of_nat_u32 [of k] k4 by (simp add: word_unat_eq_iff)
  note e = init_boot_pgdir_pde [OF b k4, folded pk]
  consider "k < 2048" "va < ULIM" | "2048 \<le> k" "k < 3072" "\<not> va < ULIM" "va < IOVABASE"
    | "k = 3072" "\<not> va < IOVABASE" "va < IOVABASE + PDMAP" "\<not> va < ULIM"
    using k top by (cases "k < 2048"; cases "k < 3072"; cases "k < 3073") (auto simp: word_less_nat_alt)
  then show ?thesis
  proof cases
    case 1
    then show ?thesis using e by (simp add: va2pa_def pde_def [symmetric])
  next
    case 2
    obtain j where j: "k = 2048 + j" using 2(1) le_Suc_ex by blast
    let ?x = "of_nat j * PDMAP + DRAMBASE :: u32"
    let ?e = "(?x AND PDE_SUPER_SECTION_BASE_MASK) OR PDE_SUPER_SECTION_C"
    have va: "unat (va - ULIM + DRAMBASE) = unat va - 0x40000000"
      using 2 k by (simp add: unat_word_ariths word_less_nat_alt unat_sub_if')
    have x: "unat ?x = j * 1048576 + 0x40000000"
      using 2 j unat_of_nat_MB [of j] by (simp add: unat_word_ariths)
    obtain r where r: "unat va = (2048 + j) * 1048576 + r" "r < 1048576"
      using k j by (metis div_mod_decomp mod_less_divisor zero_less_numeral)
    have d: "(j * 1048576 + 0x40000000) div 16777216 = (unat va - 0x40000000) div (16777216 :: nat)"
    proof -
      have "(unat va - 0x40000000) div 1048576 = j + 1024" "(j * 1048576 + 0x40000000) div 1048576 = j + 1024"
        using r by simp_all
      then have "(unat va - 0x40000000) div 1048576 div 16 = (j * 1048576 + 0x40000000) div 1048576 div 16"
        by simp
      then show ?thesis by (simp add: div_mult2_eq [symmetric])
    qed
    have "?x AND 0xFF000000 = (va - ULIM + DRAMBASE) AND 0xFF000000"
      by (intro and_hi_eq) (simp only: va x d)
    moreover have "va AND NOT 0xFF000000 = (va - ULIM + DRAMBASE) AND NOT 0xFF000000"
      using r mod_mult_self1 [of "unat va - 0x40000000" 64 16777216]
      by (intro and_lo_eq) (simp only: va, simp add: ac_simps)
    moreover have "?e AND PDE_SUPER_SECTION = PDE_SUPER_SECTION"
        "?e AND PDE_SUPER_SECTION_BASE_MASK = ?x AND PDE_SUPER_SECTION_BASE_MASK"
      by (rule super_section_bits)+
    ultimately show ?thesis
      using e 2 j hi_or_lo [of "va - ULIM + DRAMBASE"]
      by (simp add: va2pa_def pde_def [symmetric] PADDR_def)
  next
    case 3
    have va: "unat (va - IOVABASE + IOPABASE) = unat va - 0xC0000000 + 0x01C00000"
      using 3 k by (simp add: unat_word_ariths word_less_nat_alt unat_sub_if')
    have "(va - IOVABASE + IOPABASE) AND 0xFFF00000 = 0x01C00000 AND 0xFFF00000"
      using 3 k by (intro and_hi_eq20) (simp only: va, simp add: word_less_nat_alt)
    moreover have "va AND NOT 0xFFF00000 = (va - IOVABASE + IOPABASE) AND NOT 0xFFF00000"
      using 3 k mod_mult_self1 [of "unat va - 0xC0000000" 3072 1048576]
        mod_mult_self1 [of "unat va - 0xC0000000" 28 1048576]
      by (intro and_lo_eq20) (simp only: va, simp add: word_less_nat_alt)
    ultimately show ?thesis
      using e 3 hi_or_lo20 [of "va - IOVABASE + IOPABASE"]
      by (simp add: va2pa_def pde_def [symmetric] PADDR_def)
  qed
qed

theorem init_boot_pgdir_windows_witness:
  "va2pa 0x80100000 0x8000ABCD (init_boot_pgdir (power_on (\<lambda>_. 0) 0x80100000)) = Some 0x4000ABCD
    \<and> va2pa 0x80100000 0x00400000 (init_boot_pgdir (power_on (\<lambda>_. 0) 0x80100000)) = Some (NOT 0)"
proof -
  have f: "0x80100000 = frame 0x100" by (simp add: frame_def)
  have b: "boot_pgdir (power_on (\<lambda>_. 0) (frame 0x100)) = frame 0x100" "unit_page 0x100"
    by (simp_all add: power_on_def unit_page_def)
  show ?thesis
    using init_boot_pgdir_windows [OF b, of "0x8000ABCD"] init_boot_pgdir_windows [OF b, of "0x00400000"]
    unfolding f by (simp add: PADDR_def)
qed

end
