(* ===== verification/Env.thy ===== *)
theory Env
  imports Paging
begin

section \<open>Environments: identifiers and allocation (\<open>lib/env.c\<close>, \<open>include/env.h\<close>)\<close>

text \<open>
  Environment identifiers, the free list of environments and the set-up of a new address
  space, function by function. The processor status that \<open>get_cpsr\<close> reads is not a
  variable of the kernel and appears as the argument \<open>cpsr\<close>. A C function that switches to
  user mode does not return: \<open>Resume s\<close> is the processor running \<open>curenv s\<close> in user
  mode, \<open>Return v s\<close> an ordinary return.
\<close>

subsection \<open>Control flow\<close>

datatype 'a ctl = Return 'a kstate | Resume kstate

text \<open>Run \<open>f\<close> on an ordinary return.\<close>

fun on_return :: "'a ctl \<Rightarrow> ('a \<Rightarrow> kstate \<Rightarrow> 'b ctl option) \<Rightarrow> 'b ctl option" where
  "on_return (Return v s) f = f v s"
| "on_return (Resume s) f = Some (Resume s)"

subsection \<open>Identifiers\<close>

definition mkenvid :: "u32 \<Rightarrow> kstate \<Rightarrow> u32 \<times> kstate" where
  "mkenvid e s =
     (let n = next_env_id s + 1
      in (push_bit 8 e OR (n AND 0xFF), s\<lparr>next_env_id := n\<rparr>))"

text \<open>The code reads \<open>e->env_status\<close> before it tests \<open>curenv\<close> for null.\<close>

definition envid2env :: "u32 \<Rightarrow> bool \<Rightarrow> kstate \<Rightarrow> (errcode + u32) option" where
  "envid2env envid checkperm s = do {
     e \<leftarrow> (if envid \<noteq> 0 then Some (ENVX envid) else curenv s);
     if env_status (envs s e) = ENV_FREE \<or> (envid \<noteq> 0 \<and> env_id (envs s e) \<noteq> envid)
        \<or> (envid = 0 \<and> curenv s = None)
     then Some (Inl E_BAD_ENV)
     else if checkperm \<and> Some e \<noteq> curenv s
     then do {
       c \<leftarrow> curenv s;
       Some (if env_parent_id (envs s e) \<noteq> env_id (envs s c) then Inl E_BAD_ENV else Inr e)
     }
     else Some (Inr e)
   }"

subsection \<open>Initialisation and allocation\<close>

definition env_init_one :: "u32 \<Rightarrow> kstate \<Rightarrow> kstate" where
  "env_init_one i s =
     (let s1 = upd_env i (\<lambda>v. v\<lparr>env_id := 0, env_status := ENV_FREE\<rparr>) s
      in s1\<lparr>env_free_list := LIST_INSERT_HEAD i (env_free_list s1)\<rparr>)"

definition env_init :: "kstate \<Rightarrow> kstate" where
  "env_init s = fold (\<lambda>k. env_init_one (of_nat k)) (rev [0..<1024])
     (s\<lparr>env_free_list := LIST_INIT (env_free_list s)\<rparr>)"

definition env_setup_vm :: "u32 \<Rightarrow> kstate \<Rightarrow> kstate option" where
  "env_setup_vm e s = do {
     (r, s1) \<leftarrow> page_alloc s;
     (case r of
        Inl _ \<Rightarrow> None
      | Inr p \<Rightarrow> do {
          let s2 = set_ref p (pp_ref s1 p + 1) s1;
          pgdir \<leftarrow> page2kva p s2;
          let m1 = bzero (kmem s2) pgdir (unat (4 * PDX UTOP));
          let m2 = bcopy m1 (boot_pgdir s2 + 4 * PDX UTOP) (pgdir + 4 * PDX UTOP)
                     (unat (4 * (0x1000 - PDX UTOP)));
          ttb \<leftarrow> PADDR pgdir;
          Some (upd_env e (\<lambda>v. v\<lparr>env_pgdir := pgdir, env_ttb := ttb\<rparr>) (s2\<lparr>kmem := m2\<rparr>))
        })
   }"

definition env_alloc :: "u32 \<Rightarrow> u32 \<Rightarrow> kstate \<Rightarrow> ((errcode + u32) \<times> kstate) option" where
  "env_alloc cpsr parent_id s =
     (case LIST_FIRST (env_free_list s) of
        None \<Rightarrow> Some (Inl E_NO_FREE_ENV, s)
      | Some e \<Rightarrow> do {
          s1 \<leftarrow> env_setup_vm e s;
          let (id, s2) = mkenvid e s1;
          let s3 = upd_env e (\<lambda>v. v\<lparr>env_id := id, env_parent_id := parent_id,
                     env_status := ENV_NOT_RUNNABLE\<rparr>) s2;
          let s4 = upd_env e (\<lambda>v. v\<lparr>env_tf := (env_tf v)
                     \<lparr>ori_cpsr := ((cpsr AND NOT 0x1F) OR (0x10 AND NOT 0x80)) AND 0xFFFF,
                      usr_sp := USTACKTOP\<rparr>\<rparr>) s3;
          fl \<leftarrow> LIST_REMOVE e (env_free_list s4);
          Some (Inr e, s4\<lparr>env_free_list := fl\<rparr>)
        })"

end
