(* ===== verification/Loader.thy ===== *)
theory Loader
  imports Env
begin

section \<open>Program loading (\<open>lib/env.c\<close>, \<open>lib/kernel_elfloader.c\<close>, \<open>include/kerelf.h\<close>)\<close>

text \<open>
  The ELF loader with its callback, the callback \<open>load_icode_mapper\<close> that fills the pages
  of one segment, and the creation of the first environments. The binary is an address in
  kernel memory. \<open>junk\<close> stands for what the local variable \<open>entry_point\<close> of
  \<open>load_icode\<close> holds when \<open>load_elf\<close> fails, which the code then uses: its test
  \<open>r < 0\<close> is on an unsigned variable and never holds.
\<close>

subsection \<open>The segment mapper\<close>

text \<open>The first loop of \<open>load_icode_mapper\<close> copies the file image, the second adds zero
  pages up to the size in memory; each runs until \<open>i\<close> reaches its bound or a page cannot
  be had. The counter is the C loop's \<open>i\<close>, so a bound above \<open>0xFFFFF000\<close> never ends.\<close>

definition mapper_page :: "u32 \<Rightarrow> u32 \<Rightarrow> (u32 \<Rightarrow> mem \<Rightarrow> mem) \<Rightarrow> kstate
    \<Rightarrow> ((errcode + unit) \<times> kstate) option" where
  "mapper_page e va fill s = do {
     (r, s1) \<leftarrow> page_alloc s;
     (case r of
        Inl err \<Rightarrow> Some (Inl err, s1)
      | Inr p \<Rightarrow> do {
          let s2 = set_ref p (pp_ref s1 p + 1) s1;
          kva \<leftarrow> page2kva p s2;
          let s3 = s2\<lparr>kmem := fill kva (bzero (kmem s2) kva 4096)\<rparr>;
          page_insert (env_pgdir (envs s3 e)) p va (PTE_V OR PTE_R) s3
        })
   }"

definition mapper_fill :: "u32 \<Rightarrow> u32 \<Rightarrow> u32 \<Rightarrow> u32 \<Rightarrow> u32 \<Rightarrow> mem \<Rightarrow> mem" where
  "mapper_fill bin bin_size offset i kva m =
     (if i \<noteq> 0
      then bcopy m (bin + i - offset) kva
             (unat (if BY2PG \<le> bin_size - i then BY2PG else bin_size - i))
      else bcopy m bin (kva + offset)
             (unat (if BY2PG - offset \<le> bin_size then BY2PG - offset else bin_size)))"

partial_function (option) mapper_loop ::
  "u32 \<Rightarrow> u32 \<Rightarrow> u32 \<Rightarrow> (u32 \<Rightarrow> u32 \<Rightarrow> mem \<Rightarrow> mem) \<Rightarrow> u32 \<Rightarrow> kstate
    \<Rightarrow> ((errcode + u32) \<times> kstate) option" where
  "mapper_loop e base bound fill i s =
     (if i < bound
      then do {
        (r, s1) \<leftarrow> mapper_page e (base + i) (fill i) s;
        (case r of
           Inl err \<Rightarrow> Some (Inl err, s1)
         | Inr _ \<Rightarrow> mapper_loop e base bound fill (i + BY2PG) s1)
      }
      else Some (Inr i, s))"

definition load_icode_mapper :: "u32 \<Rightarrow> u32 \<Rightarrow> u32 \<Rightarrow> u32 \<Rightarrow> u32 \<Rightarrow> kstate
    \<Rightarrow> ((errcode + unit) \<times> kstate) option" where
  "load_icode_mapper va sgsize bin bin_size e s = do {
     let offset = va - ROUNDDOWN va BY2PG;
     (r, s1) \<leftarrow> mapper_loop e (va - offset) bin_size (mapper_fill bin bin_size offset) 0 s;
     (case r of
        Inl err \<Rightarrow> Some (Inl err, s1)
      | Inr i \<Rightarrow> do {
          (r, s2) \<leftarrow> mapper_loop e (va - offset) sgsize (\<lambda>_ _ m. m) i s1;
          Some (case r of Inl err \<Rightarrow> Inl err | Inr _ \<Rightarrow> Inr (), s2)
        })
   }"

subsection \<open>The ELF loader\<close>

definition load16 :: "mem \<Rightarrow> u32 \<Rightarrow> u16" where
  "load16 m a = ucast (m a) OR push_bit 8 (ucast (m (a + 1)))"

record Elf32_Ehdr =
  e_ident :: "u8 list"
  e_entry :: u32
  e_phoff :: u32
  e_phentsize :: u16
  e_phnum :: u16

record Elf32_Phdr =
  p_type :: u32
  p_offset :: u32
  p_vaddr :: u32
  p_filesz :: u32
  p_memsz :: u32

abbreviation (input) PT_LOAD :: u32 where "PT_LOAD \<equiv> 1"

text \<open>The fields the loader uses, at their offsets in the packed structures.\<close>

definition read_ehdr :: "mem \<Rightarrow> u32 \<Rightarrow> Elf32_Ehdr" where
  "read_ehdr m a = \<lparr>e_ident = map (\<lambda>k. m (a + of_nat k)) [0..<16], e_entry = load32 m (a + 24),
     e_phoff = load32 m (a + 28), e_phentsize = load16 m (a + 42), e_phnum = load16 m (a + 44)\<rparr>"

definition read_phdr :: "mem \<Rightarrow> u32 \<Rightarrow> Elf32_Phdr" where
  "read_phdr m a = \<lparr>p_type = load32 m a, p_offset = load32 m (a + 4), p_vaddr = load32 m (a + 8),
     p_filesz = load32 m (a + 16), p_memsz = load32 m (a + 20)\<rparr>"

definition is_elf_format :: "mem \<Rightarrow> u32 \<Rightarrow> bool" where
  "is_elf_format m binary =
     (let id = e_ident (read_ehdr m binary)
      in id ! 0 = 0x7F \<and> id ! 1 = 0x45 \<and> id ! 2 = 0x4C \<and> id ! 3 = 0x46)"

type_synonym elf_map = "u32 \<Rightarrow> u32 \<Rightarrow> u32 \<Rightarrow> u32 \<Rightarrow> kstate \<Rightarrow> ((errcode + unit) \<times> kstate) option"

fun load_segments :: "elf_map \<Rightarrow> u32 \<Rightarrow> u32 \<Rightarrow> u32 \<Rightarrow> nat \<Rightarrow> kstate
    \<Rightarrow> ((errcode + unit) \<times> kstate) option" where
  "load_segments mapf binary ptr entry_size 0 s = Some (Inr (), s)"
| "load_segments mapf binary ptr entry_size (Suc n) s =
     (let phdr = read_phdr (kmem s) ptr in
      if p_type phdr = PT_LOAD
      then do {
        (r, s1) \<leftarrow> mapf (p_vaddr phdr) (p_memsz phdr) (binary + p_offset phdr) (p_filesz phdr) s;
        (case r of
           Inl e \<Rightarrow> Some (Inl e, s1)
         | Inr _ \<Rightarrow> load_segments mapf binary (ptr + entry_size) entry_size n s1)
      }
      else load_segments mapf binary (ptr + entry_size) entry_size n s)"

text \<open>The result \<open>-1\<close> for a file that is not ELF is \<open>-E_UNSPECIFIED\<close>.\<close>

definition load_elf :: "u32 \<Rightarrow> u32 \<Rightarrow> elf_map \<Rightarrow> kstate \<Rightarrow> ((errcode + u32) \<times> kstate) option" where
  "load_elf binary sz mapf s =
     (if sint sz < 4 \<or> \<not> is_elf_format (kmem s) binary then Some (Inl E_UNSPECIFIED, s)
      else do {
        let ehdr = read_ehdr (kmem s) binary;
        (r, s1) \<leftarrow> load_segments mapf binary (binary + e_phoff ehdr) (ucast (e_phentsize ehdr))
          (unat (e_phnum ehdr)) s;
        Some (case r of Inl e \<Rightarrow> Inl e | Inr _ \<Rightarrow> Inr (e_entry (read_ehdr (kmem s1) binary)), s1)
      })"

subsection \<open>The first environments\<close>

text \<open>\<open>page_insert\<close> of a null page pointer: the same steps, until the reference count of
  the null page would be written.\<close>

definition page_insert_null :: "u32 \<Rightarrow> u32 \<Rightarrow> kstate \<Rightarrow> ((errcode + unit) \<times> kstate) option" where
  "page_insert_null pgdir va s =
     (if section_va va then Some (Inl E_INVAL, s)
      else do {
        r \<leftarrow> page_lookup pgdir va s;
        s1 \<leftarrow> (if r = None then Some s else page_remove pgdir va s);
        (r, s2) \<leftarrow> pgdir_walk pgdir va True (tlb_invalidate pgdir va s1);
        (case r of Inl e \<Rightarrow> Some (Inl e, s2) | Inr _ \<Rightarrow> None)
      })"

definition load_icode :: "u32 \<Rightarrow> u32 \<Rightarrow> u32 \<Rightarrow> u32 \<Rightarrow> kstate \<Rightarrow> kstate option" where
  "load_icode junk e binary sz s = do {
     (r, s1) \<leftarrow> page_alloc s;
     (_, s2) \<leftarrow> (case r of
        Inr p \<Rightarrow> page_insert (env_pgdir (envs s1 e)) p (USTACKTOP - BY2PG) (PTE_V OR PTE_R) s1
      | Inl _ \<Rightarrow> page_insert_null (env_pgdir (envs s1 e)) (USTACKTOP - BY2PG) s1);
     (r, s3) \<leftarrow> load_elf binary sz (\<lambda>va sgsize bin bin_size. load_icode_mapper va sgsize bin bin_size e) s2;
     let entry_point = (case r of Inr a \<Rightarrow> a | Inl _ \<Rightarrow> junk);
     let s4 = upd_env e (\<lambda>v. v\<lparr>env_status := ENV_RUNNABLE\<rparr>) s3;
     let s5 = s4\<lparr>env_sched_list := LIST_INSERT_HEAD e (env_sched_list s4)\<rparr>;
     Some (upd_env e (\<lambda>v. v\<lparr>env_tf := (env_tf v)\<lparr>exc_pc := entry_point\<rparr>\<rparr>) s5)
   }"

definition env_create_priority :: "u32 \<Rightarrow> u32 \<Rightarrow> u32 \<Rightarrow> u32 \<Rightarrow> u32 \<Rightarrow> kstate \<Rightarrow> kstate option" where
  "env_create_priority cpsr junk binary sz priority s = do {
     (r, s1) \<leftarrow> env_alloc cpsr 0 s;
     (case r of
        Inl _ \<Rightarrow> None
      | Inr e \<Rightarrow> load_icode junk e binary sz (upd_env e (\<lambda>v. v\<lparr>env_pri := priority\<rparr>) s1))
   }"

definition env_create :: "u32 \<Rightarrow> u32 \<Rightarrow> u32 \<Rightarrow> u32 \<Rightarrow> kstate \<Rightarrow> kstate option" where
  "env_create cpsr junk binary sz s = env_create_priority cpsr junk binary sz 1 s"

end
