(* ===== verification/Sched.thy ===== *)
theory Sched
  imports Loader
begin

section \<open>Running and releasing environments (\<open>lib/env.c\<close>, \<open>lib/sched.c\<close>, \<open>lib/irq.c\<close>)\<close>

text \<open>
  The context switch, the scheduler with its static variables \<open>iter\<close> and \<open>ts\<close>
  (\<open>sched_iter\<close>, \<open>sched_ts\<close>), the release of an environment, and the trap frames that
  the interrupt code saves and restores.
\<close>

subsection \<open>Trap frames and the context switch\<close>

text \<open>The frames at \<open>EXCSTACK\<close> and at \<open>KSTACKTOP\<close> are the only ones the code names.\<close>

definition save_trapframe_kstack :: "kstate \<Rightarrow> kstate" where
  "save_trapframe_kstack s = s\<lparr>kern_tf := exc_tf s\<rparr>"

definition load_trapframe_kstack :: "kstate \<Rightarrow> kstate" where
  "load_trapframe_kstack s = s\<lparr>exc_tf := kern_tf s\<rparr>"

text \<open>The translation base and the context identifier; the second is written twice, first
  with ASID 0, around the change of the first.\<close>

definition lcontext :: "u32 \<Rightarrow> u32 \<Rightarrow> kstate \<Rightarrow> kstate" where
  "lcontext ttb context_id s =
     (let context_id = context_id + push_bit 8 1;
          s1 = s\<lparr>contextidr := context_id AND NOT 0xFF\<rparr>;
          s2 = s1\<lparr>ttbr := ttb\<rparr>
      in s2\<lparr>contextidr := context_id\<rparr>)"

definition env_run :: "u32 \<Rightarrow> kstate \<Rightarrow> 'a ctl" where
  "env_run e s =
     (let s1 = (case curenv s of
                  None \<Rightarrow> s
                | Some c \<Rightarrow> upd_env c (\<lambda>v. v\<lparr>env_tf := exc_tf s\<rparr>) s);
          s2 = s1\<lparr>curenv := Some e\<rparr>;
          s3 = s2\<lparr>mCONTEXT := env_pgdir (envs s2 e)\<rparr>;
          s4 = lcontext (env_ttb (envs s3 e)) (env_id (envs s3 e)) s3
      in Resume s4)"

subsection \<open>The scheduler\<close>

definition sched_pick :: "kstate \<Rightarrow> kstate" where
  "sched_pick s =
     (if sched_ts s \<le> 0
      then let it = (case sched_iter s of
                       None \<Rightarrow> None | Some i \<Rightarrow> LIST_NEXT (env_sched_list s) i);
               it' = (case it of None \<Rightarrow> LIST_FIRST (env_sched_list s) | Some i \<Rightarrow> Some i)
           in s\<lparr>sched_iter := it',
                sched_ts := (case it' of None \<Rightarrow> 0 | Some i \<Rightarrow> sint (env_pri (envs s i)))\<rparr>
      else s)"

partial_function (option) sched_yield :: "kstate \<Rightarrow> unit ctl option" where
  "sched_yield s =
     (if LIST_EMPTY (env_sched_list s) then Some (Return () (load_trapframe_kstack s))
      else let s1 = sched_pick s;
               s2 = s1\<lparr>sched_ts := sched_ts s1 - 1\<rparr>
           in case sched_iter s2 of
                Some i \<Rightarrow> if env_status (envs s2 i) = ENV_RUNNABLE then Some (env_run i s2)
                          else sched_yield s2
              | None \<Rightarrow> sched_yield s2)"

definition sched_init :: "kstate \<Rightarrow> kstate" where
  "sched_init s = s\<lparr>env_sched_list := LIST_INIT (env_sched_list s)\<rparr>"

text \<open>The timer interrupt: \<open>from_svc\<close> tells whether the interrupted mode was the
  kernel's, \<open>timer2\<close> whether timer 2 raised it.\<close>

definition irq_handler :: "bool \<Rightarrow> bool \<Rightarrow> kstate \<Rightarrow> unit ctl option" where
  "irq_handler from_svc timer2 s =
     (let s1 = (if from_svc then save_trapframe_kstack s else s)
      in if timer2 then sched_yield s1 else Some (Return () s1))"

subsection \<open>Releasing an environment\<close>

definition env_free_pte :: "u32 \<Rightarrow> u32 \<Rightarrow> u32 \<Rightarrow> u32 \<Rightarrow> kstate \<Rightarrow> kstate option" where
  "env_free_pte e pdeno pt pteno s =
     (if load32 (kmem s) (pt + 4 * pteno) AND PTE_V \<noteq> 0
      then page_remove (env_pgdir (envs s e)) (push_bit 20 pdeno OR push_bit 12 pteno) s
      else Some s)"

definition env_free_pde :: "u32 \<Rightarrow> u32 \<Rightarrow> kstate \<Rightarrow> kstate option" where
  "env_free_pde e pdeno s =
     (let entry = load32 (kmem s) (env_pgdir (envs s e) + 4 * pdeno) in
      if entry AND PTE_V = 0 then Some s
      else do {
        let pa = PTE_ADDR entry;
        pt \<leftarrow> KADDR (npage s) pa;
        s1 \<leftarrow> foldM (\<lambda>j. env_free_pte e pdeno pt (of_nat j)) [0..<256] s;
        let s2 = s1\<lparr>kmem := store32 (kmem s1) (env_pgdir (envs s1 e) + 4 * pdeno) 0\<rparr>;
        p \<leftarrow> pa2page pa s2;
        page_decref (Some p) s2
      })"

definition env_free :: "u32 \<Rightarrow> kstate \<Rightarrow> kstate option" where
  "env_free e s = do {
     s1 \<leftarrow> foldM (\<lambda>k. env_free_pde e (of_nat k)) [0..<2045] s;
     let pa = env_ttb (envs s1 e);
     let s2 = upd_env e (\<lambda>v. v\<lparr>env_pgdir := 0, env_ttb := 0\<rparr>) s1;
     p \<leftarrow> pa2page pa s2;
     s3 \<leftarrow> page_decref (Some p) s2;
     let s4 = upd_env e (\<lambda>v. v\<lparr>env_status := ENV_FREE\<rparr>) s3;
     let s5 = s4\<lparr>env_free_list := LIST_INSERT_HEAD e (env_free_list s4)\<rparr>;
     sl \<leftarrow> LIST_REMOVE e (env_sched_list s5);
     Some (s5\<lparr>env_sched_list := sl\<rparr>)
   }"

definition env_destroy :: "u32 \<Rightarrow> kstate \<Rightarrow> unit ctl option" where
  "env_destroy e s = do {
     s1 \<leftarrow> env_free e s;
     (if curenv s1 = Some e then sched_yield (s1\<lparr>curenv := None\<rparr>) else Some (Return () s1))
   }"

end
