(* ===== verification/Svc.thy ===== *)
theory Svc
  imports Sched
begin

section \<open>System calls (\<open>lib/svc.c\<close>)\<close>

text \<open>
  Every call that \<open>svc_vec\<close> lists, apart from the two that only touch the UART. A result
  \<open>Inl e\<close> is the return value \<open>-e\<close>. \<open>curenv\<close> is dereferenced without a test, so a call
  with no current environment does not return (\<open>None\<close>).

  User addresses are reached through the MMU with the tables of \<open>mCONTEXT\<close>; an access to
  an unmapped page raises the data abort that \<open>pageout\<close> handles, and is then repeated.
  The TLB is assumed to agree with the tables.
\<close>

subsection \<open>Access to user memory\<close>

text \<open>The kernel address of the byte at \<open>va\<close>.\<close>

definition mmu :: "u32 \<Rightarrow> kstate \<Rightarrow> (u32 \<times> kstate) option" where
  "mmu va s =
     (if ULIM \<le> va then Some (va, s)
      else do {
        pa \<leftarrow> va2pa (mCONTEXT s) va s;
        if pa \<noteq> NOT 0 then Some (pa - DRAMBASE + ULIM, s)
        else do {
          s1 \<leftarrow> pageout va s;
          pa \<leftarrow> va2pa (mCONTEXT s1) va s1;
          if pa \<noteq> NOT 0 then Some (pa - DRAMBASE + ULIM, s1) else None
        }
      })"

fun memcpy_user :: "u32 \<Rightarrow> u32 \<Rightarrow> nat \<Rightarrow> kstate \<Rightarrow> kstate option" where
  "memcpy_user dst src 0 s = Some s"
| "memcpy_user dst src (Suc n) s = do {
     (q, s1) \<leftarrow> mmu src s;
     (p, s2) \<leftarrow> mmu dst s1;
     memcpy_user (dst + 1) (src + 1) n (s2\<lparr>kmem := (kmem s2)(p := kmem s2 q)\<rparr>)
   }"

fun load_user_words :: "u32 \<Rightarrow> nat \<Rightarrow> kstate \<Rightarrow> (u32 list \<times> kstate) option" where
  "load_user_words va 0 s = Some ([], s)"
| "load_user_words va (Suc n) s = do {
     (a, s) \<leftarrow> mmu va s; (b, s) \<leftarrow> mmu (va + 1) s; (c, s) \<leftarrow> mmu (va + 2) s; (d, s) \<leftarrow> mmu (va + 3) s;
     let w = ucast (kmem s a) OR push_bit 8 (ucast (kmem s b))
       OR push_bit 16 (ucast (kmem s c)) OR push_bit 24 (ucast (kmem s d));
     (ws, s) \<leftarrow> load_user_words (va + 4) n s;
     Some (w # ws, s)
   }"

subsection \<open>The disk image and queries\<close>

text \<open>\<open>img\<close> is the address of the disk image that is linked into the kernel, \<open>img_size\<close>
  its size (both come from a generated file). The calls return \<open>memcpy(...) != NULL\<close>.\<close>

definition sys_dev_read :: "u32 \<Rightarrow> u32 \<Rightarrow> u32 \<Rightarrow> u32 \<Rightarrow> u32 \<Rightarrow> kstate \<Rightarrow> (errcode + u32) ctl option" where
  "sys_dev_read img img_size dstva off len s =
     (if img_size \<le> off \<or> img_size < off + len then Some (Return (Inl E_INVAL) s)
      else do {
        s1 \<leftarrow> memcpy_user dstva (img + off) (unat len) s;
        Some (Return (Inr (if dstva \<noteq> 0 then 1 else 0)) s1)
      })"

definition sys_dev_write :: "u32 \<Rightarrow> u32 \<Rightarrow> u32 \<Rightarrow> u32 \<Rightarrow> u32 \<Rightarrow> kstate \<Rightarrow> (errcode + u32) ctl option" where
  "sys_dev_write img img_size srcva off len s =
     (if img_size \<le> off \<or> img_size < off + len then Some (Return (Inl E_INVAL) s)
      else do {
        s1 \<leftarrow> memcpy_user (img + off) srcva (unat len) s;
        Some (Return (Inr (if img + off \<noteq> 0 then 1 else 0)) s1)
      })"

definition sys_va_perm :: "u32 \<Rightarrow> kstate \<Rightarrow> (errcode + u32) ctl option" where
  "sys_va_perm va s =
     (if ULIM \<le> va then Some (Return (Inl E_INVAL) s)
      else do {
        c \<leftarrow> curenv s;
        let entry = load32 (kmem s) (env_pgdir (envs s c) + 4 * PDX va);
        if entry AND PDE_PAGE_TABLE \<noteq> PDE_PAGE_TABLE then Some (Return (Inr 0) s)
        else do {
          pgtable \<leftarrow> KADDR (npage s) (PTE_ADDR entry);
          Some (Return (Inr (PG_ADDR_OFFSET (load32 (kmem s) (pgtable + 4 * PTX va)))) s)
        }
      })"

definition sys_va_ref :: "u32 \<Rightarrow> kstate \<Rightarrow> (errcode + u32) ctl option" where
  "sys_va_ref va s =
     (if ULIM \<le> va then Some (Return (Inl E_INVAL) s)
      else do {
        c \<leftarrow> curenv s;
        pa \<leftarrow> va2pa (env_pgdir (envs s c)) va s;
        if pa = NOT 0 then Some (Return (Inr 0) s)
        else do {
          p \<leftarrow> pa2page pa s;
          Some (Return (Inr (ucast (pp_ref s p))) s)
        }
      })"

definition sys_getenvid :: "kstate \<Rightarrow> (errcode + u32) ctl option" where
  "sys_getenvid s = do { c \<leftarrow> curenv s; Some (Return (Inr (env_id (envs s c))) s) }"

definition sys_yield :: "kstate \<Rightarrow> unit ctl option" where
  "sys_yield s = sched_yield s"

definition sys_env_destroy :: "u32 \<Rightarrow> kstate \<Rightarrow> (errcode + u32) ctl option" where
  "sys_env_destroy envid s = do {
     r \<leftarrow> envid2env envid True s;
     (case r of
        Inl err \<Rightarrow> Some (Return (Inl err) s)
      | Inr e \<Rightarrow> do { c \<leftarrow> env_destroy e s; on_return c (\<lambda>_ s1. Some (Return (Inr 0) s1)) })
   }"

subsection \<open>Memory\<close>

definition sys_mem_alloc :: "u32 \<Rightarrow> u32 \<Rightarrow> u32 \<Rightarrow> kstate \<Rightarrow> (errcode + u32) ctl option" where
  "sys_mem_alloc envid va perm s =
     (if UTOP \<le> va then Some (Return (Inl E_UNSPECIFIED) s)
      else if perm AND PTE_V = 0 then Some (Return (Inl E_INVAL) s)
      else do {
        r \<leftarrow> envid2env envid False s;
        (case r of
           Inl err \<Rightarrow> Some (Return (Inl err) s)
         | Inr e \<Rightarrow> do {
             (r, s1) \<leftarrow> page_alloc s;
             (case r of
                Inl err \<Rightarrow> Some (Return (Inl err) s1)
              | Inr p \<Rightarrow> do {
                  (r, s2) \<leftarrow> page_insert (env_pgdir (envs s1 e)) p va perm s1;
                  Some (Return (case r of Inl err \<Rightarrow> Inl err | Inr _ \<Rightarrow> Inr 0) s2)
                })
           })
      })"

definition sys_mem_map :: "u32 \<Rightarrow> u32 \<Rightarrow> u32 \<Rightarrow> u32 \<Rightarrow> u32 \<Rightarrow> kstate \<Rightarrow> (errcode + u32) ctl option" where
  "sys_mem_map srcid srcva dstid dstva perm s =
     (let round_srcva = ROUNDDOWN srcva BY2PG; round_dstva = ROUNDDOWN dstva BY2PG in
      if UTOP \<le> srcva \<or> UTOP \<le> dstva then Some (Return (Inl E_UNSPECIFIED) s)
      else if perm AND PTE_V = 0 then Some (Return (Inl E_INVAL) s)
      else do {
        r \<leftarrow> envid2env srcid False s;
        (case r of
           Inl err \<Rightarrow> Some (Return (Inl err) s)
         | Inr srcenv \<Rightarrow> do {
             r \<leftarrow> envid2env dstid False s;
             (case r of
                Inl err \<Rightarrow> Some (Return (Inl err) s)
              | Inr dstenv \<Rightarrow> do {
                  r \<leftarrow> page_lookup (env_pgdir (envs s srcenv)) round_srcva s;
                  (case r of
                     None \<Rightarrow> Some (Return (Inl E_UNSPECIFIED) s)
                   | Some (ppage, _) \<Rightarrow> do {
                       (r, s1) \<leftarrow> page_insert (env_pgdir (envs s dstenv)) ppage round_dstva perm s;
                       Some (Return (case r of Inl err \<Rightarrow> Inl err | Inr _ \<Rightarrow> Inr 0) s1)
                     })
                })
           })
      })"

definition sys_mem_unmap :: "u32 \<Rightarrow> u32 \<Rightarrow> kstate \<Rightarrow> (errcode + u32) ctl option" where
  "sys_mem_unmap envid va s =
     (if UTOP \<le> va then Some (Return (Inl E_INVAL) s)
      else do {
        r \<leftarrow> envid2env envid True s;
        (case r of
           Inl err \<Rightarrow> Some (Return (Inl err) s)
         | Inr e \<Rightarrow> do {
             s1 \<leftarrow> page_remove (env_pgdir (envs s e)) va s;
             Some (Return (Inr 0) s1)
           })
      })"

subsection \<open>Creating an environment and changing its status\<close>

text \<open>A loop whose body may return an error from the function.\<close>

fun foldE :: "('a \<Rightarrow> kstate \<Rightarrow> ((errcode + unit) \<times> kstate) option) \<Rightarrow> 'a list \<Rightarrow> kstate
    \<Rightarrow> ((errcode + unit) \<times> kstate) option" where
  "foldE f [] s = Some (Inr (), s)"
| "foldE f (x # xs) s = do {
     (r, s1) \<leftarrow> f x s;
     (case r of Inl e \<Rightarrow> Some (Inl e, s1) | Inr _ \<Rightarrow> foldE f xs s1)
   }"

text \<open>The body of the inner loop of \<open>sys_env_alloc\<close>, for entry \<open>j\<close> of the table at
  \<open>table\<close>. The permissions it tests are those of the address \<open>va\<close>.\<close>

definition env_alloc_page :: "u32 \<Rightarrow> u32 \<Rightarrow> u32 \<Rightarrow> u32 \<Rightarrow> kstate \<Rightarrow> ((errcode + unit) \<times> kstate) option" where
  "env_alloc_page dst_pgdir pdx table off s =
     (let entry = load32 (kmem s) (table + 4 * PTX off) in
      if entry AND PTE_V \<noteq> PTE_V then Some (Inr (), s)
      else do {
        let va = push_bit 20 pdx OR off;
        p \<leftarrow> pa2page (PG_ADDR_BASE entry) s;
        let perm = PG_ADDR_OFFSET va;
        if perm = (PTE_V OR PTE_R)
        then do {
          (r, s1) \<leftarrow> page_alloc s;
          (case r of
             Inl e \<Rightarrow> Some (Inl e, s1)
           | Inr np \<Rightarrow> do {
               src \<leftarrow> page2kva p s1;
               dst \<leftarrow> page2kva np s1;
               let s2 = s1\<lparr>kmem := bcopy (kmem s1) src dst 4096\<rparr>;
               page_insert dst_pgdir np va (PG_ADDR_OFFSET (load32 (kmem s2) (table + 4 * PTX off))) s2
             })
        }
        else page_insert dst_pgdir p va (PG_ADDR_OFFSET entry) s
      })"

definition env_alloc_table :: "u32 \<Rightarrow> u32 \<Rightarrow> u32 \<Rightarrow> kstate \<Rightarrow> ((errcode + unit) \<times> kstate) option" where
  "env_alloc_table src_pgdir dst_pgdir pdx s =
     (let entry = load32 (kmem s) (src_pgdir + 4 * pdx) in
      if entry AND PDE_PAGE_TABLE \<noteq> PDE_PAGE_TABLE then Some (Inr (), s)
      else do {
        table \<leftarrow> KADDR (npage s) (PTE_ADDR entry);
        foldE (\<lambda>j. env_alloc_page dst_pgdir pdx table (of_nat j * BY2PG)) [0..<256] s
      })"

definition sys_env_alloc :: "u32 \<Rightarrow> kstate \<Rightarrow> (errcode + u32) ctl option" where
  "sys_env_alloc cpsr s = do {
     c \<leftarrow> curenv s;
     (r, s1) \<leftarrow> env_alloc cpsr (env_id (envs s c)) s;
     (case r of
        Inl err \<Rightarrow> Some (Return (Inl err) s1)
      | Inr e \<Rightarrow> do {
          (r, s2) \<leftarrow> foldE (\<lambda>k. env_alloc_table (env_pgdir (envs s1 c)) (env_pgdir (envs s1 e)) (of_nat k))
            [0..<2048] s1;
          (case r of
             Inl err \<Rightarrow> Some (Return (Inl err) s2)
           | Inr _ \<Rightarrow>
               let s3 = upd_env e (\<lambda>v. v\<lparr>env_tf := exc_tf s2, env_status := ENV_NOT_RUNNABLE\<rparr>) s2;
                   s4 = upd_env e (\<lambda>v. v\<lparr>env_tf := (env_tf v)\<lparr>regs := (regs (env_tf v))(0 := 0)\<rparr>\<rparr>) s3
               in Some (Return (Inr (env_id (envs s4 e))) s4))
        })
   }"

definition my_set_env_status :: "u32 \<Rightarrow> u32 \<Rightarrow> kstate \<Rightarrow> unit ctl option" where
  "my_set_env_status e status s =
     (if env_status (envs s e) = status then Some (Return () s)
      else let s1 = upd_env e (\<lambda>v. v\<lparr>env_status := status\<rparr>) s in
        if status = ENV_RUNNABLE
        then Some (Return () (s1\<lparr>env_sched_list := LIST_INSERT_HEAD e (env_sched_list s1)\<rparr>))
        else if status = ENV_NOT_RUNNABLE
        then do { sl \<leftarrow> LIST_REMOVE e (env_sched_list s1); Some (Return () (s1\<lparr>env_sched_list := sl\<rparr>)) }
        else if status = ENV_FREE
        then do { c \<leftarrow> sys_env_destroy (env_id (envs s1 e)) s1; on_return c (\<lambda>_ s2. Some (Return () s2)) }
        else Some (Return () s1))"

definition sys_set_env_status :: "u32 \<Rightarrow> u32 \<Rightarrow> kstate \<Rightarrow> (errcode + u32) ctl option" where
  "sys_set_env_status envid status s =
     (if status \<noteq> ENV_RUNNABLE \<and> status \<noteq> ENV_NOT_RUNNABLE \<and> status \<noteq> ENV_FREE
      then Some (Return (Inl E_INVAL) s)
      else do {
        r \<leftarrow> envid2env envid True s;
        (case r of
           Inl err \<Rightarrow> Some (Return (Inl err) s)
         | Inr e \<Rightarrow> do {
             c \<leftarrow> my_set_env_status e status s;
             on_return c (\<lambda>_ s1. Some (Return (Inr 0) s1))
           })
      })"

definition words_tf :: "u32 list \<Rightarrow> trapframe" where
  "words_tf ws = \<lparr>usr_sp = ws ! 0, usr_lr = ws ! 1, ori_cpsr = ws ! 2,
     regs = (\<lambda>k. if k < 13 then ws ! (3 + k) else 0), exc_pc = ws ! 16\<rparr>"

definition sys_set_trapframe :: "u32 \<Rightarrow> u32 \<Rightarrow> kstate \<Rightarrow> (errcode + u32) ctl option" where
  "sys_set_trapframe envid tf s = do {
     r \<leftarrow> envid2env envid True s;
     (case r of
        Inl err \<Rightarrow> Some (Return (Inl err) s)
      | Inr e \<Rightarrow> do {
          (ws, s1) \<leftarrow> load_user_words tf 17 s;
          Some (Return (Inr 0) (upd_env e (\<lambda>v. v\<lparr>env_tf := words_tf ws\<rparr>) s1))
        })
   }"

definition sys_panic :: "kstate \<Rightarrow> (errcode + u32) ctl option" where
  "sys_panic s = None"

subsection \<open>Messages\<close>

text \<open>\<open>sys_ipc_recv\<close> returns without a value when \<open>dstva\<close> is too high: \<open>junk\<close> is what
  the return register holds then.\<close>

definition sys_ipc_recv :: "u32 \<Rightarrow> u32 \<Rightarrow> u32 \<Rightarrow> u32 \<Rightarrow> kstate \<Rightarrow> (errcode + u32) ctl option" where
  "sys_ipc_recv junk dstva whom perm s =
     (if UTOP \<le> dstva then Some (Return (Inr junk) s)
      else do {
        c \<leftarrow> curenv s;
        let s1 = upd_env c (\<lambda>v. v\<lparr>env_ipc_recving := 1, env_ipc_dstva := dstva,
                   env_ipc_arg_whom := whom, env_ipc_arg_perm := perm\<rparr>) s;
        r \<leftarrow> my_set_env_status c ENV_NOT_RUNNABLE s1;
        on_return r (\<lambda>_ s2. do {
          r \<leftarrow> sys_yield s2;
          on_return r (\<lambda>_ s3. Some (Return (Inr junk) s3))
        })
      })"

text \<open>A word stored through an out parameter of the receiver, where that is mapped.\<close>

definition ipc_store :: "u32 \<Rightarrow> u32 \<Rightarrow> u32 \<Rightarrow> kstate \<Rightarrow> kstate option" where
  "ipc_store pgdir ptr v s =
     (if ptr = 0 then Some s
      else do {
        r \<leftarrow> page_lookup pgdir ptr s;
        (case r of
           None \<Rightarrow> Some s
         | Some (p, _) \<Rightarrow> do {
             kva \<leftarrow> page2kva p s;
             Some (s\<lparr>kmem := store32 (kmem s) (kva OR PG_ADDR_OFFSET ptr) v\<rparr>)
           })
      })"

text \<open>The page transfer; \<open>Inl r\<close> is a return of \<open>r\<close> from the call.\<close>

definition ipc_send_page :: "u32 \<Rightarrow> u32 \<Rightarrow> u32 \<Rightarrow> u32 \<Rightarrow> kstate
    \<Rightarrow> (((errcode + u32) + unit) \<times> kstate) option" where
  "ipc_send_page c e srcva perm s =
     (if srcva = 0 then Some (Inr (), s)
      else do {
        r \<leftarrow> page_lookup (env_pgdir (envs s c)) srcva s;
        (case r of
           None \<Rightarrow> Some (Inl (Inr 0), s)
         | Some (p, _) \<Rightarrow> do {
             (r, s1) \<leftarrow> page_insert (env_pgdir (envs s e)) p (env_ipc_dstva (envs s e)) perm s;
             Some (case r of Inl _ \<Rightarrow> Inl (Inl E_INVAL) | Inr _ \<Rightarrow> Inr (), s1)
           })
      })"

definition sys_ipc_can_send :: "u32 \<Rightarrow> u32 \<Rightarrow> u32 \<Rightarrow> u32 \<Rightarrow> kstate \<Rightarrow> (errcode + u32) ctl option" where
  "sys_ipc_can_send envid value srcva perm s =
     (if UTOP \<le> srcva then Some (Return (Inl E_INVAL) s)
      else do {
        r \<leftarrow> envid2env envid False s;
        (case r of
           Inl _ \<Rightarrow> Some (Return (Inl E_INVAL) s)
         | Inr e \<Rightarrow>
             if env_ipc_recving (envs s e) = 0 then Some (Return (Inl E_IPC_NOT_RECV) s)
             else do {
               c \<leftarrow> curenv s;
               (r, s1) \<leftarrow> ipc_send_page c e srcva perm s;
               (case r of
                  Inl v \<Rightarrow> Some (Return v s1)
                | Inr _ \<Rightarrow> do {
                    let s2 = upd_env e (\<lambda>v. v\<lparr>env_ipc_perm := perm OR PTE_V OR PTE_R,
                               env_ipc_recving := 0, env_ipc_value := value\<rparr>) s1;
                    let s3 = upd_env e (\<lambda>v. v\<lparr>env_ipc_from := env_id (envs s2 c)\<rparr>) s2;
                    let s4 = upd_env e (\<lambda>v. v\<lparr>env_tf := (env_tf v)
                               \<lparr>regs := (regs (env_tf v))(0 := env_ipc_value v)\<rparr>\<rparr>) s3;
                    s5 \<leftarrow> ipc_store (env_pgdir (envs s4 e)) (env_ipc_arg_whom (envs s4 e))
                            (env_ipc_from (envs s4 e)) s4;
                    s6 \<leftarrow> ipc_store (env_pgdir (envs s5 e)) (env_ipc_arg_perm (envs s5 e))
                            (env_ipc_perm (envs s5 e)) s5;
                    r \<leftarrow> my_set_env_status e ENV_RUNNABLE s6;
                    on_return r (\<lambda>_ s7. Some (Return (Inr 0) s7))
                  })
             })
      })"

end
