(* ===== verification/Envs.thy ===== *)
theory Envs
  imports Env
begin

section \<open>Environments: what identifiers and allocation promise\<close>

text \<open>
  The identifiers that \<open>mkenvid\<close> makes and \<open>envid2env\<close> reads, the list that \<open>env_init\<close> builds,
  and \<open>env_alloc\<close> on the abstract view of the page tables: a new directory whose user part is
  empty and whose kernel part is that of the boot directory.
\<close>

subsection \<open>Identifiers\<close>

lemma ENVX_alt: "ENVX (push_bit 8 e OR x) = e" if "e < 1024" "x < 256"
proof -
  have e: "unat e < 1024" and x: "unat x < 256" using that by (simp_all add: word_less_nat_alt)
  have "(0x3FF :: u32) = mask 10" by (simp add: mask_eq_exp_minus_1)
  then have m: "w AND 0x3FF = take_bit 10 w" for w :: u32 by (simp add: take_bit_eq_mask)
  have "drop_bit 8 (push_bit 8 e OR x) = drop_bit 8 (push_bit 8 e) OR drop_bit 8 x"
    by (simp add: drop_bit_or)
  also have "drop_bit 8 x = 0"
    using x by (simp only: word_unat_eq_iff unat_drop_div) simp
  also have "drop_bit 8 (push_bit 8 e) = e"
    using e by (simp only: word_unat_eq_iff unat_drop_div)
      (simp add: push_bit_eq_mult unat_word_ariths)
  finally have "ENVX (push_bit 8 e OR x) = take_bit 10 e" by (simp add: ENVX_def m)
  also have "\<dots> = e"
    using e by (simp only: word_unat_eq_iff unsigned_take_bit_eq) (simp add: take_bit_nat_eq_self)
  finally show ?thesis .
qed

lemma and_0xFF_less: "x AND 0xFF < (256 :: u32)"
  unfolding word_and_masks word_less_nat_alt unsigned_take_bit_eq by (simp add: take_bit_eq_mod)

text \<open>Property. The identifier that \<open>mkenvid\<close> makes for the environment at index \<open>e\<close>
  leads back to it (\<open>ENVX\<close>), its ASID is the low byte of the counter, and two environments
  never get the same identifier, whatever the counter is.\<close>

theorem mkenvid_roundtrip:
  assumes "e < NENV" "e' < NENV"
  shows "ENVX (fst (mkenvid e s)) = e \<and> GET_ENV_ASID (fst (mkenvid e s)) = (next_env_id s + 1) AND 0xFF
    \<and> (e \<noteq> e' \<longrightarrow> fst (mkenvid e s) \<noteq> fst (mkenvid e' s'))"
proof -
  have i: "ENVX (fst (mkenvid i t)) = i" if "i < 1024" for i t
    using that by (simp add: mkenvid_def Let_def ENVX_alt and_0xFF_less)
  have "(push_bit 8 e OR (n AND 0xFF)) AND 0xFF = n AND (0xFF :: u32)" for n
  proof -
    have "push_bit 8 e AND mask 8 = (0 :: u32)"
      by (rule bit_word_eqI) (auto simp: bit_simps)
    then have "push_bit 8 e AND 0xFF = (0 :: u32)" by (simp add: mask_eq_exp_minus_1)
    then show ?thesis by (simp add: bit.conj_disj_distrib2 and.assoc)
  qed
  then show ?thesis using i [of e s] i [of e' s'] assms by (auto simp: mkenvid_def GET_ENV_ASID_def Let_def)
qed

theorem mkenvid_roundtrip_witness:
  "ENVX (fst (mkenvid 3 one_space)) = 3"
  using mkenvid_roundtrip [of 3 4 one_space one_space] by simp



subsection \<open>The free list\<close>

lemma fold_env_init_one:
  assumes "n \<le> 1024" "lst_rep (env_free_list s) (map of_nat [n..<1024])"
  shows "lst_rep (env_free_list (fold (\<lambda>k. env_init_one (of_nat k)) (rev [0..<n]) s)) (map of_nat [0..<1024])
    \<and> (\<forall>i. envs (fold (\<lambda>k. env_init_one (of_nat k)) (rev [0..<n]) s) i =
        (if unat i < n then (envs s i)\<lparr>env_id := 0, env_status := ENV_FREE\<rparr> else envs s i))"
  using assms
proof (induction n arbitrary: s)
  case (Suc n)
  have fresh: "(of_nat n :: u32) \<notin> set (map of_nat [Suc n..<1024])"
    using Suc.prems(1) by (auto simp: of_nat_eq_u32)
  have rep: "lst_rep (env_free_list (env_init_one (of_nat n) s)) (map of_nat [n..<1024])"
    using LIST_INSERT_HEAD_rep [OF Suc.prems(2) fresh] Suc.prems(1)
    by (simp add: env_init_one_def Let_def upt_rec [of n])
  have idx: "i = of_nat n \<longleftrightarrow> unat i = n" for i :: u32
    using Suc.prems(1) by (auto simp: of_nat_u32)
  show ?case
    using Suc.IH [OF _ rep] Suc.prems(1) idx
    by (auto simp: env_init_one_def Let_def less_Suc_eq of_nat_u32)
qed simp

text \<open>Property. \<open>env_init\<close> puts all 1024 environments on the free list in the order of
  their indices, so that the first allocation takes the first, and marks each free with
  identifier 0.\<close>

theorem env_init_correct:
  "lst_rep (env_free_list (env_init s)) (map of_nat [0..<1024])
    \<and> (\<forall>i. env_status (envs (env_init s) i) = (if i < NENV then ENV_FREE else env_status (envs s i)))
    \<and> (\<forall>i. env_id (envs (env_init s) i) = (if i < NENV then 0 else env_id (envs s i)))"
  using fold_env_init_one [of 1024 "s\<lparr>env_free_list := LIST_INIT (env_free_list s)\<rparr>"]
  by (simp add: env_init_def LIST_INIT_rep word_less_nat_alt)

subsection \<open>Allocation\<close>

lemma entry_byte_in_range:
  assumes "unit_page p" "unit_page q" "j < 0x1000" "k < 4" "i < 0x1000" "unat i + n \<le> 4096"
  shows "in_region (frame p + 4 * i) (4 * n) (frame q + 4 * j + of_nat k)
    \<longleftrightarrow> p = q \<and> unat i \<le> unat j \<and> unat j < unat i + n"
proof -
  obtain a b where ab: "unat p = 4 * a" "unat q = 4 * b"
    using unat_entry(2) assms(1,2,3) by blast
  have x: "unat (frame q + 4 * j + of_nat k) = 16384 * b + 0x80000000 + 4 * unat j + k"
    using aligned_byte [OF aligned_entry [OF assms(2,3)] assms(4)] unat_entry(1) [OF assms(2,3)] ab
    by simp
  have p: "unat (frame p + 4 * i) = 16384 * a + 0x80000000 + 4 * unat i"
    using unat_entry(1) [OF assms(1,5)] ab by simp
  have j: "unat j < 4096" "unat i < 4096" using assms(3,5) by (simp_all add: word_less_nat_alt)
  have a: "a < 65536" using assms(1) ab by (simp add: unit_page_def word_less_nat_alt)
  have "in_region (frame p + 4 * i) (4 * n) (frame q + 4 * j + of_nat k) \<longleftrightarrow>
      16384 * a + 4 * unat i \<le> 16384 * b + 4 * unat j + k
        \<and> 16384 * b + 4 * unat j + k < 16384 * a + 4 * unat i + 4 * n"
  proof (subst in_region_unat)
    show "unat (frame p + 4 * i) + 4 * n \<le> 2 ^ 32" using a assms(6) by (simp add: p)
  qed (simp add: x p, linarith)
  also have "\<dots> \<longleftrightarrow> a = b \<and> unat i \<le> unat j \<and> unat j < unat i + n"
    using j assms(4,6) by (cases a b rule: linorder_cases) (simp_all, linarith+)
  also have "\<dots> \<longleftrightarrow> p = q \<and> unat i \<le> unat j \<and> unat j < unat i + n"
    using ab by (simp add: word_unat_eq_iff)
  finally show ?thesis .
qed

lemma load_bzero_entries:
  assumes "unit_page p" "unit_page q" "j < 0x1000" "n \<le> 4096"
  shows "load32 (bzero m (frame p) (4 * n)) (frame q + 4 * j) =
    (if p = q \<and> unat j < n then 0 else load32 m (frame q + 4 * j))"
  using entry_byte_in_range [OF assms(1-3), of 0 0 n] entry_byte_in_range [OF assms(1-3), of 1 0 n]
    entry_byte_in_range [OF assms(1-3), of 2 0 n] entry_byte_in_range [OF assms(1-3), of 3 0 n] assms(4)
  by (simp add: load32_def bzero_closed)

lemma load_bcopy_entries:
  assumes u: "unit_page p" "unit_page b" "unit_page q" "j < 0x1000" and ne: "b \<noteq> p"
    and n: "i < 0x1000" "unat i + n \<le> 4096"
  shows "load32 (bcopy m (frame b + 4 * i) (frame p + 4 * i) (4 * n)) (frame q + 4 * j) =
    (if p = q \<and> unat i \<le> unat j \<and> unat j < unat i + n then load32 m (frame b + 4 * j)
     else load32 m (frame q + 4 * j))"
proof -
  have sep: "\<not> in_region (frame p + 4 * i) (4 * n) x" if "in_region (frame b + 4 * i) (4 * n) x" for x
  proof -
    obtain a c where ac: "unat p = 4 * a" "unat b = 4 * c"
      using unat_entry(2) u(1,2) n(1) by blast
    have lt: "a < 65536" "c < 65536" "a \<noteq> c"
      using u(1,2) ac ne by (auto simp: unit_page_def word_less_nat_alt word_unat_eq_iff)
    have e: "unat (frame p + 4 * i) = 16384 * a + 0x80000000 + 4 * unat i"
      "unat (frame b + 4 * i) = 16384 * c + 0x80000000 + 4 * unat i"
      using unat_entry(1) [OF u(1) n(1)] unat_entry(1) [OF u(2) n(1)] ac by simp_all
    have le: "unat (frame p + 4 * i) + 4 * n \<le> 2 ^ 32" "unat (frame b + 4 * i) + 4 * n \<le> 2 ^ 32"
      using e lt n(2) by simp_all
    show ?thesis
      using that lt n(2) unfolding in_region_unat [OF le(1)] in_region_unat [OF le(2)] e
      by linarith
  qed
  have "4 * n \<le> 2 ^ 32" using n(2) by simp
  then have cp: "memcpy m (frame p + 4 * i) (frame b + 4 * i) (4 * n) =
      (\<lambda>x. if in_region (frame p + 4 * i) (4 * n) x
        then m (frame b + 4 * i + (x - (frame p + 4 * i))) else m x)"
    using sep by (rule memcpy_closed)
  have in_dst: "in_region (frame p + 4 * i) (4 * n) (frame q + 4 * j + of_nat k)
      \<longleftrightarrow> p = q \<and> unat i \<le> unat j \<and> unat j < unat i + n" if "k < 4" for k
    by (rule entry_byte_in_range [OF u(1,3,4) that n])
  have byte: "bcopy m (frame b + 4 * i) (frame p + 4 * i) (4 * n) (frame q + 4 * j + of_nat k) =
      (if p = q \<and> unat i \<le> unat j \<and> unat j < unat i + n then m (frame b + 4 * j + of_nat k)
       else m (frame q + 4 * j + of_nat k))" if "k < 4" for k
  proof -
    have "p = q \<Longrightarrow> frame b + 4 * i + (frame q + 4 * j + of_nat k - (frame p + 4 * i)) = frame b + 4 * j + of_nat k"
      by (simp add: algebra_simps)
    then show ?thesis unfolding bcopy_def cp in_dst [OF that] by (auto simp: add.assoc)
  qed
  show ?thesis
    using byte [of 0] byte [of 1] byte [of 2] byte [of 3] by (simp add: load32_def)
qed

text \<open>A new directory: its page had no reference, its user entries are zero.\<close>

lemma vm_wf_new_dir:
  assumes wf: "vm_wf n R D P M" and q: "unit_page q" "q < n" "R q = 0"
    and P: "\<And>d i. d \<in> D \<Longrightarrow> i < 0x800 \<Longrightarrow> P' d i = P d i" "\<And>i. i < 0x800 \<Longrightarrow> P' q i = 0"
    and M: "\<And>x. x \<in> all_slots D \<Longrightarrow> M' x = M x" "\<And>x. x \<in> all_slots {q} \<Longrightarrow> M' x = 0"
  shows "vm_wf n (R(q := 1)) (insert q D) P' M'"
proof -
  have slots: "all_slots (insert q D) = all_slots D \<union> all_slots {q}" by (auto simp: all_slots_def)
  have noq: "q \<notin> D" "q \<notin> tables_of P D"
    using vm_wf_dir [OF wf, of q] vm_wf_tables [OF wf, of q] q by (auto simp: live_page_def)
  have live: "live_page n (R(q := 1)) p" if "live_page n R p" for p
    using that by (simp add: live_page_def)
  have tabs: "tables_of P' (insert q D) = tables_of P D"
    unfolding tables_of_def using P by (auto; metis)
  have maps: "mappings M' (insert q D) p = mappings M D p" for p
    unfolding mappings_def slots using M by auto
  show ?thesis
  proof (rule vm_wfI)
    show "live_page n (R(q := 1)) d" if "d \<in> insert q D" for d
      using that vm_wf_dir [OF wf] live q by (auto simp: live_page_def)
    show "\<exists>p. P' d i = page2pa p OR PDE_PAGE_TABLE \<and> live_page n (R(q := 1)) p \<and> p \<notin> insert q D"
      if "d \<in> insert q D" "i < 0x800" "P' d i \<noteq> 0" for d i
    proof -
      have d: "d \<in> D" "P d i \<noteq> 0" using that P by (cases "d = q"; auto)+
      from wf d(1) that(2) d(2) show ?thesis
        by (rule vm_wf_tableE) (use live P d that noq in auto)
    qed
    show "d' = d \<and> i' = i" if "d \<in> insert q D" "i < 0x800" "d' \<in> insert q D" "i' < 0x800"
      "P' d i \<noteq> 0" "P' d' i' = P' d i" for d i d' i'
    proof -
      have d: "d \<in> D" "d' \<in> D" using that P by (cases "d = q"; auto)+
      then show ?thesis using wf that P by (auto simp: vm_wf_def)
    qed
    show "unit_page (pte_page (M' x)) \<and> pte_page (M' x) < n \<and> pte_page (M' x) \<notin> insert q D
        \<and> pte_page (M' x) \<notin> tables_of P' (insert q D)"
      if "x \<in> all_slots (insert q D)" "valid_pte (M' x)" for x
    proof -
      have x: "x \<in> all_slots D" "valid_pte (M x)" "M' x = M x"
        using that M valid_pte_0 unfolding slots by (metis Un_iff)+
      have "live_page n R (pte_page (M x))" by (rule vm_wf_mapped(1) [OF wf x(1,2)])
      then show ?thesis
        using vm_wf_mapped [OF wf x(1,2)] q x(3) tabs by (auto simp: live_page_def)
    qed
    show "card (mappings M' (insert q D) p) \<le> unat ((R(q := 1)) p)" for p
    proof -
      have "card (mappings M D p) \<le> unat (R p)" using wf by (simp add: vm_wf_def)
      then show ?thesis using q(3) by (auto simp: maps)
    qed
  qed
qed

text \<open>The memory after \<open>env_setup_vm\<close>, in terms of entries.\<close>

lemma setup_entries:
  assumes u: "unit_page p" "unit_page b" "unit_page q" "j < 0x1000" "b \<noteq> p"
  shows "load32 (bcopy (bzero (bzero m (frame p) 4096) (frame p) (4 * 2045))
      (frame b + 4 * 0x7FD) (frame p + 4 * 0x7FD) (4 * 2051)) (frame q + 4 * j) =
    (if q = p then if j < 0x7FD then 0 else load32 m (frame b + 4 * j) else load32 m (frame q + 4 * j))"
proof -
  have j: "unat j < 4096" using u(4) by (simp add: word_less_nat_alt)
  have lt: "unat j < 2045 \<longleftrightarrow> j < 0x7FD" by (simp add: word_less_nat_alt)
  have pb: "p \<noteq> b" using u(5) by simp
  have i: "(0x7FD :: u32) < 0x1000" "unat (0x7FD :: u32) + 2051 \<le> 4096" "(2045 :: nat) \<le> 4096" by simp_all
  show ?thesis
    unfolding load_bcopy_entries [OF u(1-4) u(5) i(1,2)] load_bzero_entries [OF u(1) u(2) u(4) i(3)]
      load_bzero_entries [OF u(1) u(3) u(4) i(3)] load_bzero_entry [OF u(1) u(2) u(4)]
      load_bzero_entry [OF u(1) u(3) u(4)]
    using j lt pb by auto
qed

lemma PADDR_frame: "p < 0x40000 \<Longrightarrow> PADDR (frame p) = Some (page2pa p)"
proof -
  assume p: "p < 0x40000"
  then have "unat p < 262144" by (simp add: word_less_nat_alt)
  then have "unat (frame p) < 3221225472" "2147483648 \<le> unat (frame p)" using unat_frame [OF p] by simp_all
  then have "\<not> frame p < ULIM" "frame p < IOVABASE" by (simp_all add: word_less_nat_alt)
  then show ?thesis by (simp add: PADDR_def) (simp add: frame_def page2pa_def)
qed

lemma env_allocE:
  assumes inv: "vm_inv s D (p # xs)" and fl: "lst_rep (env_free_list s) (e # es)"
    and boot: "boot_pgdir s = frame b" "unit_page b" "b \<noteq> p" "\<And>i. 0x7FD \<le> i \<Longrightarrow> i < 0x800 \<Longrightarrow> pde s b i = 0"
  obtains s' where "env_alloc cpsr parent s = Some (Inr e, s')" "vm_inv s' (insert p D) xs"
    "lst_rep (env_free_list s') es" "pp_ref s' = (pp_ref s)(p := 1)" "npage s' = npage s"
    "\<And>v. v < ULIM \<Longrightarrow> upte s' p v = 0"
    "\<And>d v. d \<in> D \<Longrightarrow> v < ULIM \<Longrightarrow> upte s' d v = upte s d v"
    "\<And>i. i < 0x7FD \<Longrightarrow> pde s' p i = 0" "\<And>i. 0x7FD \<le> i \<Longrightarrow> i < 0x1000 \<Longrightarrow> pde s' p i = pde s b i"
    "env_pgdir (envs s' e) = frame p" "env_ttb (envs s' e) = page2pa p"
    "env_id (envs s' e) = fst (mkenvid e s)" "env_parent_id (envs s' e) = parent"
    "env_status (envs s' e) = ENV_NOT_RUNNABLE" "next_env_id s' = next_env_id s + 1"
    "\<And>i. i \<noteq> e \<Longrightarrow> envs s' i = envs s i" "curenv s' = curenv s" "env_sched_list s' = env_sched_list s"
    "\<And>d i. d \<in> D \<Longrightarrow> i < 0x800 \<Longrightarrow> pde s' d i = pde s d i"
    "\<And>q j. unit_page q \<Longrightarrow> q \<noteq> p \<Longrightarrow> j < 0x1000 \<Longrightarrow> pde s' q j = pde s q j"
proof -
  note al = vm_invD(1) [OF inv] and wf = vm_invD(2) [OF inv]
  have p: "unit_page p" "p < npage s" "pp_ref s p = 0" "p < 0x40000"
    using alloc_inv_unit [OF al, of p] by (auto simp: unit_page_def)
  obtain s1 where s1: "page_alloc s = Some (Inr p, s1)" "alloc_inv s1 xs"
    "s1 = s\<lparr>page_free_list := page_free_list s1, kmem := bzero (kmem s) (frame p) 4096\<rparr>"
    "pp_ref s1 = pp_ref s" "npage s1 = npage s"
    using page_allocE [OF al] by metis
  obtain pf where s1: "page_alloc s = Some (Inr p, s\<lparr>page_free_list := pf, kmem := bzero (kmem s) (frame p) 4096\<rparr>)"
    "alloc_inv (s\<lparr>page_free_list := pf, kmem := bzero (kmem s) (frame p) 4096\<rparr>) xs"
    using s1(1-3) by metis
  let ?m = "bcopy (bzero (bzero (kmem s) (frame p) 4096) (frame p) (4 * 2045))
      (frame b + 4 * 0x7FD) (frame p + 4 * 0x7FD) (4 * 2051)"
  obtain s2 where s2: "s2 = upd_env e (\<lambda>v. v\<lparr>env_pgdir := frame p, env_ttb := page2pa p\<rparr>)
      (s\<lparr>page_free_list := pf, pp_ref := (pp_ref s)(p := 1), kmem := ?m\<rparr>)" by blast
  have kva: "page2kva p t = Some (frame p)" if "npage t = npage s" for t
    using p that by (simp add: page2kva_frame)
  have P: "PDX 0x7FD00000 = 0x7FD" by (simp add: PDX_def)
  have vm: "env_setup_vm e s = Some s2"
    using p(3,4) boot(1) by (simp add: env_setup_vm_def s1(1) kva PADDR_frame P s2)
  obtain fl' where fl': "LIST_REMOVE e (env_free_list s) = Some fl'" "lst_rep fl' es"
    using ll.pop_Cons [OF fl] by blast
  have first: "LIST_FIRST (env_free_list s) = Some e" by (rule ll.first_Cons [OF fl])
  obtain s' where s': "env_alloc cpsr parent s = Some (Inr e, s')" "kmem s' = ?m" "npage s' = npage s"
    "pp_ref s' = (pp_ref s)(p := 1)" "page_free_list s' = pf" "env_free_list s' = fl'"
    "env_pgdir (envs s' e) = frame p" "env_ttb (envs s' e) = page2pa p"
    "env_id (envs s' e) = fst (mkenvid e s)" "env_parent_id (envs s' e) = parent"
    "env_status (envs s' e) = ENV_NOT_RUNNABLE" "next_env_id s' = next_env_id s + 1"
    "\<And>i. i \<noteq> e \<Longrightarrow> envs s' i = envs s i" "curenv s' = curenv s" "env_sched_list s' = env_sched_list s"
    using fl'(1) by (simp add: env_alloc_def first vm mkenvid_def Let_def s2)
  have ent: "pde s' q j = (if q = p then if j < 0x7FD then 0 else pde s b j else pde s q j)"
    if "unit_page q" "j < 0x1000" for q j
    unfolding pde_def s'(2) by (rule setup_entries [OF p(1) boot(2) that boot(3)])
  have pD: "p \<notin> D" "p \<notin> tables_of (pde s) D"
    using vm_wf_dir [OF wf, of p] vm_wf_tables [OF wf, of p] p by (auto simp: live_page_def)
  have pdeD: "pde s' d i = pde s d i" if "d \<in> D" "i < 0x800" for d i
    using ent [of d i] vm_wf_dir [OF wf that(1)] pD(1) that dir_entry_simps(1) [of d i]
    by (auto simp: live_page_def)
  have pdep: "pde s' p i = 0" if "i < 0x800" for i
    using ent [OF p(1), of i] boot(4) [of i] that dir_entry_simps(1) [OF p(1) that] by auto
  have pteD: "pte_at s' x = pte_at s x" if x: "x \<in> all_slots D" for x
  proof -
    obtain d i j where x: "x = (d, i, j)" "d \<in> D" "i < 0x800" "j < 0x100"
      using x by (auto simp: all_slots_def)
    show ?thesis
    proof (cases "pde s d i = 0")
      case False
      from wf x(2,3) False obtain t where t: "pte_page (pde s d i) = t" "live_page (npage s) (pp_ref s) t"
        "t \<in> tables_of (pde s) D"
        by (rule vm_wf_tableE)
      have "t \<noteq> p" "unit_page t" using t pD by (auto simp: live_page_def)
      then show ?thesis
        using ent [of t j] t(1) pdeD [OF x(2,3)] dir_entry_simps(2) [OF x(4)]
        by (simp add: x(1) pte_at.simps pde_def)
    qed (simp add: x(1) pdeD [OF x(2,3)] pte_at.simps)
  qed
  have ptep: "pte_at s' x = 0" if "x \<in> all_slots {p}" for x
    using that pdep by (auto simp: all_slots_def pte_at.simps)
  have "vm_wf (npage s') (pp_ref s') (insert p D) (pde s') (pte_at s')"
    unfolding s'(3,4) by (rule vm_wf_new_dir [OF wf p(1-3) pdeD pdep pteD ptep])
  moreover have "alloc_inv s' xs"
  proof -
    have "p \<notin> set xs" using alloc_inv_distinct [OF al] by simp
    then show ?thesis using s1(2) s'(3-5) by (auto simp: alloc_inv_def)
  qed
  ultimately have inv': "vm_inv s' (insert p D) xs" by (simp add: vm_inv_def)
  show thesis
  proof (rule that [OF s'(1) inv' _ s'(4,3) _ _ _ _ s'(7-15) pdeD])
    show "pde s' q j = pde s q j" if "unit_page q" "q \<noteq> p" "j < 0x1000" for q j
      using ent [OF that(1,3)] that(2) by simp
    show "lst_rep (env_free_list s') es" using fl'(2) s'(6) by simp
    show "upte s' p v = 0" if "v < ULIM" for v
      using ptep [OF slot_of_all [OF _ that]] by (simp add: upte_def)
    show "upte s' d v = upte s d v" if "d \<in> D" "v < ULIM" for d v
      using pteD [OF slot_of_all [OF that]] by (simp add: upte_def)
    show "pde s' p i = 0" if "i < 0x7FD" for i
      using pdep [of i] that by (simp add: order.strict_trans)
    show "pde s' p i = pde s b i" if "0x7FD \<le> i" "i < 0x1000" for i
      using ent [OF p(1) that(2)] that(1) by (simp add: leD)
  qed
qed

text \<open>Property C5. \<open>env_alloc\<close> takes the first free environment, gives it a page directory
  of its own whose user part maps nothing and whose kernel part equals the boot directory,
  an identifier from \<open>mkenvid\<close>, the given parent and the status not runnable; every other
  address space and environment is unchanged and the invariant of the tables holds with the
  new directory. With no free environment the result is \<open>-E_NO_FREE_ENV\<close> and nothing
  changes; with no free page the kernel panics.\<close>

theorem env_alloc_correct:
  assumes inv: "vm_inv s D ps" and fl: "lst_rep (env_free_list s) es"
    and boot: "boot_pgdir s = frame b" "unit_page b" "b \<notin> set ps"
      "\<And>i. 0x7FD \<le> i \<Longrightarrow> i < 0x800 \<Longrightarrow> pde s b i = 0"
  shows "case es of
      [] \<Rightarrow> env_alloc cpsr parent s = Some (Inl E_NO_FREE_ENV, s)
    | e # es' \<Rightarrow> (case ps of
        [] \<Rightarrow> env_alloc cpsr parent s = None
      | p # ps' \<Rightarrow> \<exists>s'. env_alloc cpsr parent s = Some (Inr e, s') \<and> vm_inv s' (insert p D) ps'
          \<and> lst_rep (env_free_list s') es' \<and> env_pgdir (envs s' e) = frame p
          \<and> env_ttb (envs s' e) = page2pa p \<and> env_id (envs s' e) = fst (mkenvid e s)
          \<and> env_parent_id (envs s' e) = parent \<and> env_status (envs s' e) = ENV_NOT_RUNNABLE
          \<and> (\<forall>v<ULIM. upte s' p v = 0) \<and> (\<forall>d\<in>D. \<forall>v<ULIM. upte s' d v = upte s d v)
          \<and> (\<forall>i. 0x7FD \<le> i \<longrightarrow> i < 0x1000 \<longrightarrow> pde s' p i = pde s b i)
          \<and> (\<forall>i. i \<noteq> e \<longrightarrow> envs s' i = envs s i))"
proof (cases es)
  case Nil
  then show ?thesis using fl by (simp add: env_alloc_def LIST_FIRST_def lst_rep_Nil)
next
  case es: (Cons e es')
  note first = ll.first_Cons [OF fl [unfolded es]]
  show ?thesis
  proof (cases ps)
    case Nil
    then have "page_alloc s = Some (Inl E_NO_MEM, s)"
      using vm_invD(1) [OF inv] by (simp add: page_alloc_empty)
    then show ?thesis using es Nil by (simp add: env_alloc_def first env_setup_vm_def)
  next
    case (Cons p ps')
    have "b \<noteq> p" using boot(3) Cons by auto
    show ?thesis
      by (rule env_allocE [OF inv [unfolded Cons] fl [unfolded es] boot(1,2) \<open>b \<noteq> p\<close> boot(4),
            where cpsr = cpsr and parent = parent])
        (simp_all add: es Cons)
  qed
qed

lemma env_init_vm: "vm_inv (env_init s) D xs = vm_inv s D xs" "pde (env_init s) = pde s"
  "boot_pgdir (env_init s) = boot_pgdir s" "pp_ref (env_init s) = pp_ref s"
  "npage (env_init s) = npage s" "curenv (env_init s) = curenv s" "next_env_id (env_init s) = next_env_id s"
  "env_sched_list (env_init s) = env_sched_list s"
proof -
  have f: "kmem (fold (\<lambda>k. env_init_one (of_nat k)) ks t) = kmem t
      \<and> npage (fold (\<lambda>k. env_init_one (of_nat k)) ks t) = npage t
      \<and> page_free_list (fold (\<lambda>k. env_init_one (of_nat k)) ks t) = page_free_list t
      \<and> pp_ref (fold (\<lambda>k. env_init_one (of_nat k)) ks t) = pp_ref t
      \<and> boot_pgdir (fold (\<lambda>k. env_init_one (of_nat k)) ks t) = boot_pgdir t
      \<and> curenv (fold (\<lambda>k. env_init_one (of_nat k)) ks t) = curenv t
      \<and> env_sched_list (fold (\<lambda>k. env_init_one (of_nat k)) ks t) = env_sched_list t
      \<and> next_env_id (fold (\<lambda>k. env_init_one (of_nat k)) ks t) = next_env_id t" for ks t
    by (induction ks arbitrary: t) (simp_all add: env_init_one_def Let_def)
  then show "boot_pgdir (env_init s) = boot_pgdir s" "pp_ref (env_init s) = pp_ref s"
    "npage (env_init s) = npage s" "curenv (env_init s) = curenv s"
    "next_env_id (env_init s) = next_env_id s" "env_sched_list (env_init s) = env_sched_list s"
    by (simp_all add: env_init_def)
  show "vm_inv (env_init s) D xs = vm_inv s D xs" "pde (env_init s) = pde s"
    by (rule vm_inv_cong; simp add: env_init_def f)+
qed

lemma one_space_boot: "boot_pgdir one_space = frame 0x100" "curenv one_space = None" "next_env_id one_space = 0"
proof -
  have f: "boot_pgdir (fold (\<lambda>k. page_init_free (of_nat k)) ks t) = boot_pgdir t
      \<and> curenv (fold (\<lambda>k. page_init_free (of_nat k)) ks t) = curenv t
      \<and> next_env_id (fold (\<lambda>k. page_init_free (of_nat k)) ks t) = next_env_id t" for ks t
    by (induction ks arbitrary: t) (simp_all add: page_init_free_def Let_def)
  have sm: "boot_pgdir small_machine = frame 0x100 \<and> curenv small_machine = None \<and> next_env_id small_machine = 0"
    by (simp add: small_machine_def page_init_def Let_def f fold_set_ref power_on_def frame_def)
  obtain s where s: "page_alloc small_machine = Some (Inr 2064, s)"
    "s = small_machine\<lparr>page_free_list := page_free_list s, kmem := bzero (kmem small_machine) (frame 2064) 4096\<rparr>"
    by (rule page_allocE [OF small_machine_inv(1)])
  have "boot_pgdir s = frame 0x100 \<and> curenv s = None \<and> next_env_id s = 0" by (subst (1 2 3) s(2)) (simp add: sm)
  then show "boot_pgdir one_space = frame 0x100" "curenv one_space = None" "next_env_id one_space = 0"
    by (simp_all add: one_space_def s(1))
qed

theorem env_alloc_correct_witness:
  "\<exists>s'. env_alloc 0x13 7 (env_init one_space) = Some (Inr 0, s') \<and> vm_inv s' {2060, 2064} [2056, 2052, 2048]
    \<and> env_pgdir (envs s' 0) = frame 2060 \<and> env_id (envs s' 0) = 1 \<and> env_parent_id (envs s' 0) = 7"
proof -
  have "lst_rep (env_free_list (env_init one_space)) (0 # map of_nat [1..<1024])"
    using fold_env_init_one [of 1024 "one_space\<lparr>env_free_list := LIST_INIT (env_free_list one_space)\<rparr>"]
    by (simp add: env_init_def LIST_INIT_rep upt_conv_Cons [of 0])
  from env_alloc_correct [OF _ this, of "{2064}" "[2060, 2056, 2052, 2048]" "0x100" "0x13" 7]
  show ?thesis
    using one_space_inv
    by (auto simp: env_init_vm one_space_boot one_space_mem unit_page_def mkenvid_def)
qed

end
