(* ===== verification/Calls.thy ===== *)
theory Calls
  imports Svc Envs
begin

section \<open>The memory system calls: proofs\<close>

text \<open>
  The calls on address spaces do what their comments say on the abstract view of the tables:
  one page appears, is shared or disappears at one address of one environment. A state with
  \<open>spaces s D xs\<close> has the paging invariant for the directories \<open>D\<close>, among which are those of all
  environments. Every memory call keeps it, so it holds after any sequence of calls.
\<close>

subsection \<open>What the page functions leave alone\<close>

definition vm_only :: "kstate \<Rightarrow> kstate \<Rightarrow> bool" where
  "vm_only s s' \<longleftrightarrow>
     s'\<lparr>kmem := kmem s, page_free_list := page_free_list s, pp_ref := pp_ref s, tlb_ops := tlb_ops s\<rparr> = s"

lemma vm_only_refl [simp]: "vm_only s s"
  by (simp add: vm_only_def)

lemma vm_only_trans: "vm_only s t \<Longrightarrow> vm_only t u \<Longrightarrow> vm_only s u"
  unfolding vm_only_def by (cases s; cases t; cases u) simp

lemma vm_onlyD:
  assumes "vm_only s s'"
  shows "envs s' = envs s" "curenv s' = curenv s" "mCONTEXT s' = mCONTEXT s" "npage s' = npage s"
    "env_free_list s' = env_free_list s" "env_sched_list s' = env_sched_list s"
  using assms unfolding vm_only_def by (cases s; cases s'; simp)+

lemma vm_only_upd [simp]:
  "vm_only s (s\<lparr>kmem := m\<rparr>)" "vm_only s (s\<lparr>page_free_list := l\<rparr>)" "vm_only s (s\<lparr>pp_ref := r\<rparr>)"
  "vm_only s (s\<lparr>tlb_ops := t\<rparr>)"
  by (simp_all add: vm_only_def)

lemma vm_only_tlb: "vm_only s (tlb_invalidate d va s)"
  by (simp add: tlb_invalidate_def Let_def)

lemma vm_only_page_alloc: "page_alloc s = Some (r, s') \<Longrightarrow> vm_only s s'"
  by (auto simp: page_alloc_def Let_def split: option.splits Option.bind_splits)
    (simp add: vm_only_def)

lemma vm_only_pgdir_walk:
  assumes "pgdir_walk d va c s = Some (r, s')"
  shows "vm_only s s'"
proof -
  have step: "vm_only s (set_ref q n (s1\<lparr>kmem := m\<rparr>))" if "page_alloc s = Some (x, s1)" for x s1 q n m
    using vm_only_page_alloc [OF that] by (rule vm_only_trans) (simp add: vm_only_def)
  show ?thesis
    using assms step vm_only_page_alloc [of s]
    by (auto simp: pgdir_walk_def Let_def split: if_splits Option.bind_splits sum.splits)
qed

lemma vm_only_page_remove:
  assumes "page_remove d va s = Some s'"
  shows "vm_only s s'"
proof -
  have "vm_only s (tlb_invalidate d va (s2\<lparr>kmem := m\<rparr>))" if "vm_only s s2" for s2 m
    using that by (blast intro: vm_only_trans vm_only_tlb vm_only_upd)
  moreover have "vm_only s s2" if "page_free q (set_ref p r s) = Some s2" for p q r s2
    using that by (auto simp: page_free_total vm_only_def split: if_splits)
  ultimately show ?thesis
    using assms by (auto simp: page_remove_def Let_def split: if_splits Option.bind_splits option.splits)
qed

lemma vm_only_insert_new:
  assumes "page_insert_new d p va f s = Some (r, s')"
  shows "vm_only s s'"
proof -
  have "vm_only s s2" if "pgdir_walk d va True (tlb_invalidate d va s) = Some (x, s2)" for x s2
    using vm_only_pgdir_walk [OF that] vm_only_tlb vm_only_trans by blast
  moreover have "vm_only s (set_ref p n (s2\<lparr>kmem := m\<rparr>))" if "vm_only s s2" for s2 n m
    using that by (rule vm_only_trans) (simp add: vm_only_def)
  ultimately show ?thesis
    using assms
    by (auto simp: page_insert_new_def Let_def split: Option.bind_splits sum.splits option.splits)
qed

lemma vm_only_page_insert:
  assumes "page_insert d p va f s = Some (r, s')"
  shows "vm_only s s'"
proof (cases "section_va va")
  case True
  then show ?thesis using assms by (simp add: page_insert_def)
next
  case False
  obtain x s0 where w: "pgdir_walk d va False s = Some (x, s0)"
    using assms False by (cases "pgdir_walk d va False s") (auto simp: page_insert_def Let_def)
  consider "page_insert_new d p va (f OR PTE_V) s0 = Some (r, s')"
    | m where "s' = (tlb_invalidate d va s0)\<lparr>kmem := m\<rparr>"
    | s1 where "page_remove d va s0 = Some s1" "page_insert_new d p va (f OR PTE_V) s1 = Some (r, s')"
    using assms False w
    by (auto simp: page_insert_def Let_def split: if_split_asm Option.bind_split_asm option.split_asm)
  then have "vm_only s0 s'"
  proof cases
    case 1
    then show ?thesis by (rule vm_only_insert_new)
  next
    case 2
    then show ?thesis using vm_only_tlb vm_only_trans vm_only_upd(1) by metis
  next
    case 3
    then show ?thesis using vm_only_page_remove vm_only_insert_new vm_only_trans by metis
  qed
  then show ?thesis using vm_only_pgdir_walk [OF w] vm_only_trans by blast
qed

subsection \<open>A fresh page\<close>

lemma page_alloc_vmE:
  assumes inv: "vm_inv s D (q # xs)"
  obtains s1 where "page_alloc s = Some (Inr q, s1)" "vm_inv s1 D xs" "vm_only s s1" "pp_ref s1 = pp_ref s"
    "\<And>x. x \<in> all_slots D \<Longrightarrow> pte_at s1 x = pte_at s x"
    "unit_page q" "q < npage s1" "pp_ref s1 q = 0" "q \<notin> D \<union> tables_of (pde s1) D \<union> set xs"
proof -
  note wf = vm_invD(2) [OF inv] and al = vm_invD(1) [OF inv]
  have q: "unit_page q" "q < npage s" "pp_ref s q = 0" using alloc_inv_unit [OF al, of q] by auto
  obtain s1 where s1: "page_alloc s = Some (Inr q, s1)" "alloc_inv s1 xs"
    "s1 = s\<lparr>page_free_list := page_free_list s1, kmem := bzero (kmem s) (frame q) 4096\<rparr>"
    "pp_ref s1 = pp_ref s" "npage s1 = npage s"
    using page_allocE [OF al] by metis
  have m1: "kmem s1 = bzero (kmem s) (frame q) 4096" by (subst s1(3), simp)
  have qD: "q \<notin> D" using vm_wf_dir [OF wf, of q] q by (auto simp: live_page_def)
  have qt: "q \<notin> tables_of (pde s) D" using vm_wf_tables [OF wf, of q] q by (auto simp: live_page_def)
  have pde1: "pde s1 d i = pde s d i" if "d \<in> D" "i < 0x800" for d i
  proof -
    have d: "unit_page d" "d \<noteq> q" using vm_wf_dir [OF wf that(1)] qD that by (auto simp: live_page_def)
    then show ?thesis
      using q(1) dir_entry_simps(1) [OF d(1) that(2)] by (auto simp: pde_def m1 load_bzero_entry)
  qed
  have pte1: "pte_at s1 x = pte_at s x" if "x \<in> all_slots D" for x
  proof -
    obtain d i j where x: "x = (d, i, j)" "d \<in> D" "i < 0x800" "j < 0x100"
      using \<open>x \<in> all_slots D\<close> by (auto simp: all_slots_def)
    note j = dir_entry_simps(2,3) [OF x(4)]
    show ?thesis
    proof (cases "pde s d i = 0")
      case True
      then show ?thesis using pde1 [OF x(2,3)] by (simp add: x(1) pte_at.simps)
    next
      case False
      from wf x(2,3) False obtain t where t: "pte_page (pde s d i) = t" "live_page (npage s) (pp_ref s) t"
        "t \<in> tables_of (pde s) D" "t \<notin> D"
        by (rule vm_wf_tableE)
      then have "unit_page t" "t \<noteq> q" using qt by (auto simp: live_page_def)
      then show ?thesis
        using x j False t pde1 [OF x(2,3)] q by (auto simp: pte_at.simps m1 load_bzero_entry)
    qed
  qed
  have "vm_wf (npage s1) (pp_ref s1) D (pde s1) (pte_at s1)"
    using wf unfolding s1(4,5) by (subst vm_wf_cong) (auto simp: pde1 pte1)
  moreover have "tables_of (pde s1) D = tables_of (pde s) D" by (rule tables_of_cong) (rule pde1)
  ultimately show thesis
    using that [OF s1(1) _ vm_only_page_alloc [OF s1(1)] s1(4) pte1] s1 q qD qt alloc_inv_distinct [OF al]
    by (simp add: vm_inv_def)
qed

subsection \<open>Owners\<close>

text \<open>The directory of every environment that a call can name is one of \<open>D\<close>.\<close>

definition spaces :: "kstate \<Rightarrow> u32 set \<Rightarrow> u32 list \<Rightarrow> bool" where
  "spaces s D xs \<longleftrightarrow> vm_inv s D xs \<and>
     (\<forall>e. env_status (envs s e) \<noteq> ENV_FREE \<longrightarrow> (\<exists>pd\<in>D. env_pgdir (envs s e) = frame pd))"

lemma spaces_env:
  assumes "spaces s D xs" "envid2env envid c s = Some (Inr e)"
  obtains pd where "pd \<in> D" "env_pgdir (envs s e) = frame pd"
proof -
  have "env_status (envs s e) \<noteq> ENV_FREE"
    using assms(2) by (auto simp: envid2env_def split: if_splits Option.bind_splits)
  then show thesis using assms(1) that by (auto simp: spaces_def)
qed

lemma spaces_only: "spaces s D xs \<Longrightarrow> vm_only s s' \<Longrightarrow> vm_inv s' D xs' \<Longrightarrow> spaces s' D xs'"
  by (simp add: spaces_def vm_onlyD)

lemma below_UTOP_ULIM: "\<not> UTOP \<le> va \<Longrightarrow> va < ULIM" for va :: u32
  by (simp add: word_less_nat_alt word_le_nat_alt)

text \<open>The view after one entry changed, and after none did.\<close>

definition one_entry :: "kstate \<Rightarrow> kstate \<Rightarrow> u32 set \<Rightarrow> u32 \<Rightarrow> u32 \<Rightarrow> u32 \<Rightarrow> bool" where
  "one_entry s s' D pd va pte \<longleftrightarrow>
     (\<forall>d\<in>D. \<forall>v<ULIM. upte s' d v = (if d = pd \<and> same_page v va then pte else upte s d v))"

definition same_view :: "kstate \<Rightarrow> kstate \<Rightarrow> u32 set \<Rightarrow> bool" where
  "same_view s s' D \<longleftrightarrow> (\<forall>d\<in>D. \<forall>v<ULIM. upte s' d v = upte s d v)"

lemma same_view_refl [simp]: "same_view s s D"
  by (simp add: same_view_def)

lemma same_view_slots: "(\<And>x. x \<in> all_slots D \<Longrightarrow> pte_at s1 x = pte_at s x) \<Longrightarrow> same_view s s1 D"
  by (simp add: same_view_def upte_def)

lemma one_entry_slots:
  assumes "\<And>x. x \<in> all_slots D \<Longrightarrow> pte_at s' x = ((pte_at s)(slot_of pd va := pte)) x"
  shows "one_entry s s' D pd va pte"
  using assms by (auto simp: one_entry_def upte_def slot_of_eq_iff)

lemma same_view_one: "same_view s s1 D \<Longrightarrow> one_entry s1 s' D pd va pte \<Longrightarrow> one_entry s s' D pd va pte"
  by (simp add: same_view_def one_entry_def)

lemma same_view_trans: "same_view s t D \<Longrightarrow> same_view t u D \<Longrightarrow> same_view s u D"
  by (simp add: same_view_def)

text \<open>\<open>page_insert\<close> in these terms.\<close>

lemma page_insert_view:
  assumes inv: "vm_inv s D xs" and pd: "pd \<in> D" "va < ULIM"
    and p: "unit_page p" "p < npage s" "p \<notin> D \<union> tables_of (pde s) D \<union> set xs" "pp_ref s p \<noteq> 0xFFFF"
    and perm: "perm < 0x1000"
  obtains r s' xs' where "page_insert (frame pd) p va perm s = Some (r, s')" "vm_inv s' D xs'" "vm_only s s'"
    "case r of Inl err \<Rightarrow> err = E_NO_MEM \<and> xs = [] \<and> same_view s s' D
      | Inr _ \<Rightarrow> one_entry s s' D pd va (page2pa p OR (perm OR PTE_V))"
proof (cases rule: page_insertE [OF inv pd p perm])
  case 1
  have "upte (tlb_invalidate (frame pd) va s) = upte s"
    by (intro vm_inv_cong(4)) (simp_all add: tlb_invalidate_def Let_def)
  then show thesis
    using that [OF 1(3)] inv 1(2) by (simp add: vm_only_tlb same_view_def)
next
  case (2 s' xs')
  show thesis
    using that [OF 2(1,2) vm_only_page_insert [OF 2(1)]] one_entry_slots [OF 2(6)] by simp
qed

subsection \<open>The three calls\<close>

lemma sys_mem_alloc_ok:
  assumes sp: "spaces s D xs" and va: "\<not> UTOP \<le> va" and perm: "perm AND PTE_V \<noteq> 0" "perm < 0x1000"
    and e: "envid2env envid False s = Some (Inr e)" "env_pgdir (envs s e) = frame pd" "pd \<in> D"
  shows "\<exists>r s' xs'. sys_mem_alloc envid va perm s = Some (Return r s') \<and> spaces s' D xs' \<and> vm_only s s' \<and>
    (case r of
       Inl err \<Rightarrow> err = E_NO_MEM \<and> same_view s s' D \<and> length xs \<le> 1
     | Inr v \<Rightarrow> v = 0 \<and> xs \<noteq> [] \<and> one_entry s s' D pd va (page2pa (hd xs) OR (perm OR PTE_V)))"
proof (cases xs)
  case Nil
  have "page_alloc s = Some (Inl E_NO_MEM, s)"
    using sp Nil by (intro page_alloc_empty) (simp add: spaces_def vm_inv_def)
  then show ?thesis using sp va perm e Nil by (auto simp: sys_mem_alloc_def)
next
  case (Cons q ys)
  then have inv: "vm_inv s D (q # ys)" using sp by (simp add: spaces_def)
  obtain s1 where s1: "page_alloc s = Some (Inr q, s1)" "vm_inv s1 D ys" "vm_only s s1"
    "\<And>x. x \<in> all_slots D \<Longrightarrow> pte_at s1 x = pte_at s x" "unit_page q" "q < npage s1"
    "q \<notin> D \<union> tables_of (pde s1) D \<union> set ys" "pp_ref s1 q = 0"
    using page_alloc_vmE [OF inv] by metis
  have "pp_ref s1 q \<noteq> 0xFFFF" using s1(8) by simp
  from page_insert_view [OF s1(2) e(3) below_UTOP_ULIM [OF va] s1(5,6,7) this perm(2)]
  obtain r s' xs' where ins: "page_insert (frame pd) q va perm s1 = Some (r, s')" "vm_inv s' D xs'" "vm_only s1 s'"
    "case r of Inl err \<Rightarrow> err = E_NO_MEM \<and> ys = [] \<and> same_view s1 s' D
      | Inr _ \<Rightarrow> one_entry s1 s' D pd va (page2pa q OR (perm OR PTE_V))" .
  have "spaces s' D xs'" using spaces_only [OF sp vm_only_trans [OF s1(3) ins(3)] ins(2)] .
  moreover have "vm_only s s'" by (rule vm_only_trans [OF s1(3) ins(3)])
  moreover have v: "same_view s s1 D" by (rule same_view_slots [OF s1(4)])
  moreover have "sys_mem_alloc envid va perm s =
      Some (Return (case r of Inl err \<Rightarrow> Inl err | Inr _ \<Rightarrow> Inr 0) s')"
    using va perm e s1(1) ins(1) by (simp add: sys_mem_alloc_def vm_onlyD(1) [OF s1(3)])
  ultimately show ?thesis
    using ins(4) same_view_trans [OF v] same_view_one [OF v] Cons by (cases r) auto
qed

lemma sys_mem_unmap_ok:
  assumes sp: "spaces s D xs" and va: "\<not> UTOP \<le> va"
    and e: "envid2env envid True s = Some (Inr e)" "env_pgdir (envs s e) = frame pd" "pd \<in> D"
  shows "\<exists>s' xs'. sys_mem_unmap envid va s = Some (Return (Inr 0) s') \<and> spaces s' D xs' \<and> vm_only s s' \<and>
    (if valid_pte (upte s pd va) then one_entry s s' D pd va 0 else s' = s)"
proof (cases "valid_pte (upte s pd va)")
  case True
  have inv: "vm_inv s D xs" using sp by (simp add: spaces_def)
  obtain s' xs' where s': "page_remove (frame pd) va s = Some s'" "vm_inv s' D xs'"
    "\<And>x. x \<in> all_slots D \<Longrightarrow> pte_at s' x = ((pte_at s)(slot_of pd va := 0)) x"
    using page_removeE [OF inv e(3) below_UTOP_ULIM [OF va] True refl] by metis
  have "spaces s' D xs'" using spaces_only [OF sp vm_only_page_remove [OF s'(1)] s'(2)] .
  then show ?thesis
    using s'(1) one_entry_slots [OF s'(3)] vm_only_page_remove [OF s'(1)] va e True by (auto simp: sys_mem_unmap_def)
next
  case False
  have "page_remove (frame pd) va s = Some s"
    using page_remove_absent [of s D xs, OF _ e(3) below_UTOP_ULIM [OF va] False] sp by (simp add: spaces_def)
  then show ?thesis using sp va e False by (auto simp: sys_mem_unmap_def)
qed

lemma same_page_round: "same_page (ROUNDDOWN va BY2PG) va"
proof -
  have "\<not> bit (0xFFF :: u32) (12 + n)" for n using low12_bit [of "0xFFF" "12 + n"] by auto
  then have "drop_bit 12 (va AND NOT 0xFFF) = drop_bit 12 va"
    by (intro bit_word_eqI) (simp only: bit_drop_bit_eq comp_def bit_and_iff bit_not_iff possible_bit_word, auto dest: bit_imp_le_length)
  then show ?thesis by (simp add: same_page_def ROUNDDOWN_def)
qed

lemma upte_same_page: "same_page v va \<Longrightarrow> upte s pd v = upte s pd va"
  using slot_of_eq_iff [of pd v pd va] by (simp add: upte_def)

lemma same_page_trans: "same_page a b \<Longrightarrow> same_page v a \<longleftrightarrow> same_page v b"
  by (simp add: same_page_def)

lemma round_below: "va < ULIM \<Longrightarrow> ROUNDDOWN va BY2PG < ULIM"
proof -
  assume "va < ULIM"
  moreover have "unat (ROUNDDOWN va BY2PG) \<le> unat va" unfolding ROUNDDOWN_def by (simp add: word_and_le2 flip: word_le_nat_alt)
  ultimately show ?thesis by (simp add: word_less_nat_alt)
qed

lemma sys_mem_map_ok:
  assumes sp: "spaces s D xs" and va: "\<not> UTOP \<le> srcva" "\<not> UTOP \<le> dstva"
    and perm: "perm AND PTE_V \<noteq> 0" "perm < 0x1000"
    and src: "envid2env srcid False s = Some (Inr se)" "env_pgdir (envs s se) = frame spd" "spd \<in> D"
    and dst: "envid2env dstid False s = Some (Inr de)" "env_pgdir (envs s de) = frame dpd" "dpd \<in> D"
    and ref: "valid_pte (upte s spd srcva) \<Longrightarrow> pp_ref s (pte_page (upte s spd srcva)) \<noteq> 0xFFFF"
  shows "\<exists>r s' xs'. sys_mem_map srcid srcva dstid dstva perm s = Some (Return r s') \<and> spaces s' D xs' \<and> vm_only s s' \<and>
    (if valid_pte (upte s spd srcva)
     then case r of
        Inl err \<Rightarrow> err = E_NO_MEM \<and> xs = [] \<and> same_view s s' D
      | Inr v \<Rightarrow> v = 0 \<and>
          one_entry s s' D dpd dstva (page2pa (pte_page (upte s spd srcva)) OR (perm OR PTE_V))
     else r = Inl E_UNSPECIFIED \<and> s' = s)"
proof -
  have inv: "vm_inv s D xs" using sp by (simp add: spaces_def)
  let ?pte = "upte s spd srcva" and ?src = "ROUNDDOWN srcva BY2PG" and ?dst = "ROUNDDOWN dstva BY2PG"
  note below = round_below [OF below_UTOP_ULIM [OF va(1)]] round_below [OF below_UTOP_ULIM [OF va(2)]]
  have look: "page_lookup (frame spd) ?src s =
      Some (if valid_pte ?pte then Some (pte_page ?pte, pte_addr s spd ?src) else None)"
    using page_lookup_upte [OF inv src(3) below(1)] upte_same_page [OF same_page_round] by simp
  show ?thesis
  proof (cases "valid_pte ?pte")
    case False
    then show ?thesis using sp va perm src dst look by (auto simp: sys_mem_map_def Let_def)
  next
    case True
    have x: "slot_of spd srcva \<in> all_slots D" using src(3) below_UTOP_ULIM [OF va(1)] by simp
    have live: "live_page (npage s) (pp_ref s) (pte_page ?pte)" "pte_page ?pte \<notin> D \<union> tables_of (pde s) D"
      using vm_wf_mapped [OF vm_invD(2) [OF inv] x] True by (simp_all add: upte_def)
    then have p: "unit_page (pte_page ?pte)" "pte_page ?pte < npage s"
      "pte_page ?pte \<notin> D \<union> tables_of (pde s) D \<union> set xs"
      using live_not_free [OF inv] by (auto simp: live_page_def)
    obtain r s' xs' where ins: "page_insert (frame dpd) (pte_page ?pte) ?dst perm s = Some (r, s')" "vm_inv s' D xs'"
      "vm_only s s'"
      "case r of Inl err \<Rightarrow> err = E_NO_MEM \<and> xs = [] \<and> same_view s s' D
        | Inr _ \<Rightarrow> one_entry s s' D dpd ?dst (page2pa (pte_page ?pte) OR (perm OR PTE_V))"
      using page_insert_view [OF inv dst(3) below(2) p ref [OF True] perm(2)] .
    have "sys_mem_map srcid srcva dstid dstva perm s =
        Some (Return (case r of Inl err \<Rightarrow> Inl err | Inr _ \<Rightarrow> Inr 0) s')"
      using va perm src dst look True ins(1) by (simp add: sys_mem_map_def Let_def)
    moreover have "spaces s' D xs'" by (rule spaces_only [OF sp ins(3,2)])
    moreover have "one_entry s s' D dpd ?dst e = one_entry s s' D dpd dstva e" for e
      using same_page_trans [OF same_page_round] by (simp add: one_entry_def)
    ultimately show ?thesis using ins(3,4) True by (cases r) auto
  qed
qed

subsection \<open>Properties of the memory calls\<close>

text \<open>A machine with one running environment, whose directory is that of \<open>one_space\<close>.\<close>

definition one_env :: kstate where
  "one_env = one_space\<lparr>envs := (\<lambda>_. zero_env)(0 := zero_env\<lparr>env_status := ENV_RUNNABLE, env_id := 256,
     env_pgdir := frame 2064\<rparr>), curenv := Some 0\<rparr>"

lemma one_env_spaces: "spaces one_env {2064} [2060, 2056, 2052, 2048]" "upte one_env = upte one_space"
  "pp_ref one_env = pp_ref one_space"
proof -
  have "vm_inv one_env {2064} xs = vm_inv one_space {2064} xs" "upte one_env = upte one_space" for xs
    by (intro vm_inv_cong; simp add: one_env_def)+
  then show "spaces one_env {2064} [2060, 2056, 2052, 2048]" "upte one_env = upte one_space"
    using one_space_inv by (simp_all add: spaces_def) (simp add: one_env_def zero_env_def env_status_defs)
  show "pp_ref one_env = pp_ref one_space" by (simp add: one_env_def)
qed

lemma one_env_self: "envid2env 0 c one_env = Some (Inr 0)" "env_pgdir (envs one_env 0) = frame 2064"
  by (simp_all add: envid2env_def one_env_def env_status_defs)

text \<open>Property C9. \<open>sys_mem_alloc\<close> puts the page at the head of the free list, which no address
  space maps, at one address of one environment and changes no other address; short of memory
  it changes no address at all. \<open>xs\<close> is the free list.\<close>

theorem sys_mem_alloc_correct:
  assumes "spaces s D xs" "\<not> UTOP \<le> va" "perm AND PTE_V \<noteq> 0" "perm < 0x1000"
    and "envid2env envid False s = Some (Inr e)" "env_pgdir (envs s e) = frame pd" "pd \<in> D"
  shows "\<exists>r s' xs'. sys_mem_alloc envid va perm s = Some (Return r s') \<and> spaces s' D xs' \<and> vm_only s s' \<and>
    (case r of
       Inl err \<Rightarrow> err = E_NO_MEM \<and> same_view s s' D \<and> length xs \<le> 1
     | Inr v \<Rightarrow> v = 0 \<and> xs \<noteq> [] \<and> one_entry s s' D pd va (page2pa (hd xs) OR (perm OR PTE_V)) \<and>
         (\<forall>d\<in>D. \<forall>v<ULIM. valid_pte (upte s d v) \<longrightarrow> pte_page (upte s d v) \<noteq> hd xs))"
proof -
  have "pte_page (upte s d v) \<noteq> hd xs"
    if "xs \<noteq> []" "d \<in> D" "v < ULIM" "valid_pte (upte s d v)" for d v
  proof -
    have inv: "vm_inv s D xs" using assms(1) by (simp add: spaces_def)
    have "slot_of d v \<in> all_slots D" using that by simp
    then have "live_page (npage s) (pp_ref s) (pte_page (upte s d v))"
      using vm_wf_mapped(1) [OF vm_invD(2) [OF inv]] that(4) by (simp add: upte_def)
    then show ?thesis using live_not_free [OF inv] that(1) hd_in_set by metis
  qed
  then show ?thesis using sys_mem_alloc_ok [OF assms] by (fastforce split: sum.splits)
qed

theorem sys_mem_alloc_correct_witness:
  "\<exists>s'. sys_mem_alloc 0 0x400000 PTE_V one_env = Some (Return (Inr 0) s') \<and> upte s' 2064 0x400000 = 0x4080C42A"
proof -
  obtain r s' where r: "sys_mem_alloc 0 0x400000 PTE_V one_env = Some (Return r s')"
    "case r of Inl err \<Rightarrow> length [2060 :: u32, 2056, 2052, 2048] \<le> 1
     | Inr v \<Rightarrow> v = 0 \<and> one_entry one_env s' {2064} 2064 0x400000 (page2pa (hd [2060, 2056, 2052, 2048]) OR (PTE_V OR PTE_V))"
    using sys_mem_alloc_correct [OF one_env_spaces(1), of "0x400000" PTE_V 0 0 2064] one_env_self
    by (fastforce split: sum.splits)
  then show ?thesis
    by (cases r) (auto simp: one_entry_def same_page_def page2pa_def)
qed


lemma vm_only_envid2env: "vm_only s s' \<Longrightarrow> envid2env envid c s' = envid2env envid c s"
  by (simp only: envid2env_def vm_onlyD(1,2))

text \<open>A running environment that has page 4 mapped at \<open>0x400000\<close>.\<close>

lemma one_env_page:
  obtains s where "spaces s {2064} [2056, 2052, 2048]" "pp_ref s 4 = 2"
    "upte s 2064 0x400000 = 0x4000443A" "upte s 2064 0x500000 = 0"
    "\<And>c. envid2env 0 c s = Some (Inr 0)" "env_pgdir (envs s 0) = frame 2064"
proof -
  obtain t where t: "vm_inv t {2064} [2056, 2052, 2048]" "pp_ref t 4 = 2"
    "\<And>v. v < ULIM \<Longrightarrow> upte t 2064 v = (if same_page v 0x400000 then 0x4000443A else 0)"
    by (rule one_mapping) blast
  let ?s = "t\<lparr>envs := envs one_env, curenv := Some 0\<rparr>"
  have "vm_inv ?s {2064} xs = vm_inv t {2064} xs" "upte ?s = upte t" for xs
    by (intro vm_inv_cong; simp)+
  moreover have "envid2env 0 c ?s = Some (Inr 0)" for c by (simp add: envid2env_def one_env_def env_status_defs)
  ultimately show thesis
    using that [of ?s] t(1,2) t(3) [of "0x400000"] t(3) [of "0x500000"] one_env_spaces(1)
    by (simp add: spaces_def one_env_self same_page_def)
qed


subsection \<open>Any sequence of memory calls\<close>

inductive mem_call :: "kstate \<Rightarrow> kstate \<Rightarrow> bool" where
  alloc: "sys_mem_alloc envid va perm s = Some (Return r s') \<Longrightarrow> perm < 0x1000 \<Longrightarrow> mem_call s s'"
| map: "sys_mem_map srcid srcva dstid dstva perm s = Some (Return r s') \<Longrightarrow> perm < 0x1000 \<Longrightarrow>
    (\<And>p. pp_ref s p \<noteq> 0xFFFF) \<Longrightarrow> mem_call s s'"
| unmap: "sys_mem_unmap envid va s = Some (Return r s') \<Longrightarrow> mem_call s s'"

inductive mem_calls :: "kstate \<Rightarrow> kstate \<Rightarrow> bool" where
  none: "mem_calls s s"
| more: "mem_calls s t \<Longrightarrow> mem_call t u \<Longrightarrow> mem_calls s u"

lemma mem_call_spaces:
  assumes sp: "spaces s D xs" and c: "mem_call s s'"
  shows "\<exists>xs'. spaces s' D xs'"
  using c
proof cases
  case (alloc envid va perm r)
  show ?thesis
  proof (cases "\<not> UTOP \<le> va \<and> perm AND PTE_V \<noteq> 0 \<and> (\<exists>e. envid2env envid False s = Some (Inr e))")
    case True
    then obtain e where e: "envid2env envid False s = Some (Inr e)" by blast
    obtain pd where pd: "pd \<in> D" "env_pgdir (envs s e) = frame pd" by (rule spaces_env [OF sp e])
    show ?thesis using sys_mem_alloc_ok [OF sp _ _ alloc(2) e pd(2,1), of va] True alloc(1) by auto
  next
    case False
    then have "s' = s" using alloc(1) by (auto simp: sys_mem_alloc_def split: if_splits Option.bind_splits sum.splits)
    then show ?thesis using sp by blast
  qed
next
  case (map srcid srcva dstid dstva perm r)
  show ?thesis
  proof (cases "\<not> UTOP \<le> srcva \<and> \<not> UTOP \<le> dstva \<and> perm AND PTE_V \<noteq> 0 \<and>
      (\<exists>e. envid2env srcid False s = Some (Inr e)) \<and> (\<exists>e. envid2env dstid False s = Some (Inr e))")
    case True
    then obtain e d where e: "envid2env srcid False s = Some (Inr e)" "envid2env dstid False s = Some (Inr d)" by blast
    obtain pd qd where pd: "pd \<in> D" "env_pgdir (envs s e) = frame pd" "qd \<in> D" "env_pgdir (envs s d) = frame qd"
      using spaces_env [OF sp e(1)] spaces_env [OF sp e(2)] by metis
    show ?thesis
      using sys_mem_map_ok [OF sp _ _ _ map(2) e(1) pd(2,1) e(2) pd(4,3), of srcva dstva] True map(1,3) by auto
  next
    case False
    then have "s' = s"
      using map(1) by (auto simp: sys_mem_map_def Let_def split: if_splits Option.bind_splits sum.splits)
    then show ?thesis using sp by blast
  qed
next
  case (unmap envid va r)
  show ?thesis
  proof (cases "\<not> UTOP \<le> va \<and> (\<exists>e. envid2env envid True s = Some (Inr e))")
    case True
    then obtain e where e: "envid2env envid True s = Some (Inr e)" by blast
    obtain pd where pd: "pd \<in> D" "env_pgdir (envs s e) = frame pd" by (rule spaces_env [OF sp e])
    show ?thesis using sys_mem_unmap_ok [OF sp _ e pd(2,1), of va] True unmap by auto
  next
    case False
    then have "s' = s" using unmap by (auto simp: sys_mem_unmap_def split: if_splits Option.bind_splits sum.splits)
    then show ?thesis using sp by blast
  qed
qed

text \<open>Property. After any sequence of memory calls by any environments, in which permissions
  stay below 4096 and reference counts below 65535, the paging invariant still holds; in
  particular no address space maps a page that is free, or a page table or directory.\<close>

theorem memory_calls_invariant:
  assumes "mem_calls s s'" "spaces s D xs"
  shows "\<exists>xs'. spaces s' D xs' \<and>
    (\<forall>d\<in>D. \<forall>v<ULIM. valid_pte (upte s' d v) \<longrightarrow> pte_page (upte s' d v) \<notin> D \<union> tables_of (pde s') D \<union> set xs')"
proof -
  have "\<exists>xs'. spaces s' D xs'"
    using assms
  proof (induction rule: mem_calls.induct)
    case (more s t u)
    then show ?case using mem_call_spaces by blast
  qed blast
  then obtain xs' where sp: "spaces s' D xs'" by blast
  then have inv: "vm_inv s' D xs'" by (simp add: spaces_def)
  have "pte_page (upte s' d v) \<notin> D \<union> tables_of (pde s') D \<union> set xs'"
    if "d \<in> D" "v < ULIM" "valid_pte (upte s' d v)" for d v
  proof -
    have x: "slot_of d v \<in> all_slots D" using that by simp
    show ?thesis
      using vm_wf_mapped [OF vm_invD(2) [OF inv] x] that(3) live_not_free [OF inv] by (auto simp: upte_def)
  qed
  then show ?thesis using sp by blast
qed

theorem memory_calls_invariant_witness:
  "\<exists>s' xs'. mem_calls one_env s' \<and> s' \<noteq> one_env \<and> spaces s' {2064} xs'"
proof -
  obtain r s' where a: "sys_mem_alloc 0 0x400000 PTE_V one_env = Some (Return r s')"
    "case r of Inl err \<Rightarrow> False
     | Inr v \<Rightarrow> one_entry one_env s' {2064} 2064 0x400000 (page2pa 2060 OR (PTE_V OR PTE_V))"
    using sys_mem_alloc_ok [OF one_env_spaces(1), of "0x400000" PTE_V 0 0 2064] one_env_self
    by (fastforce split: sum.splits)
  then have "upte s' 2064 0x400000 = page2pa 2060 OR PTE_V"
    by (cases r) (auto simp: one_entry_def same_page_def)
  moreover have "upte one_env 2064 0x400000 = 0" by (simp add: one_env_spaces(2) one_space_mem)
  ultimately have "s' \<noteq> one_env" by (auto simp: page2pa_def)
  moreover have "mem_calls one_env s'"
    by (rule mem_calls.more [OF mem_calls.none mem_call.alloc [OF a(1)]]) simp
  ultimately show ?thesis using memory_calls_invariant [OF _ one_env_spaces(1)] by blast
qed

text \<open>The permissions are part of the entry as the caller gives them: those of a page-aligned
  address make it an entry for another page.\<close>

lemma perm_maps_other_page:
  "pte_page (page2pa 4 OR (0x8000 OR PTE_V)) = 12" "valid_pte (page2pa 4 OR (0x8000 OR PTE_V))"
  by (simp_all add: pte_page_def PPN_def page2pa_def valid_pte_def)

end
