(* ===== verification/Scheduling.thy ===== *)
theory Scheduling
  imports Sched
begin

section \<open>The scheduler: round robin with time slices\<close>

text \<open>
  \<open>sched_ok s xs\<close>: the scheduling list represents \<open>xs\<close>, every environment on it is
  runnable, and the static pointer of \<open>sched_yield\<close> is null or on the list.
\<close>

definition sched_ok :: "kstate \<Rightarrow> u32 list \<Rightarrow> bool" where
  "sched_ok s xs \<longleftrightarrow> lst_rep (env_sched_list s) xs
     \<and> (\<forall>e\<in>set xs. env_status (envs s e) = ENV_RUNNABLE)
     \<and> (case sched_iter s of None \<Rightarrow> sched_ts s \<le> 0 | Some i \<Rightarrow> i \<in> set xs)"

text \<open>The environment that the next slice goes to.\<close>

fun next_after :: "u32 list \<Rightarrow> u32 option \<Rightarrow> u32 option" where
  "next_after xs None = (case xs of [] \<Rightarrow> None | x # _ \<Rightarrow> Some x)"
| "next_after xs (Some i) = (case dropWhile (\<lambda>x. x \<noteq> i) xs of
     _ # y # _ \<Rightarrow> Some y | _ \<Rightarrow> (case xs of [] \<Rightarrow> None | x # _ \<Rightarrow> Some x))"

lemma chain_next:
  "chain l sl f (ys @ x # zs) \<Longrightarrow> le_next l x = (case zs of [] \<Rightarrow> None | z # _ \<Rightarrow> Some z)"
  by (induction ys arbitrary: sl f) (auto split: list.splits)

lemma LIST_NEXT_rep:
  "lst_rep l (ys @ x # zs) \<Longrightarrow> LIST_NEXT l x = (case zs of [] \<Rightarrow> None | z # _ \<Rightarrow> Some z)"
  by (auto simp: lst_rep_def LIST_NEXT_def dest: chain_next)

lemma dropWhile_split:
  "x \<notin> set ys \<Longrightarrow> dropWhile (\<lambda>y. y \<noteq> x) (ys @ x # zs) = x # zs"
  by (induction ys) auto

lemma next_after_split:
  "x \<notin> set ys \<Longrightarrow> next_after (ys @ x # zs) (Some x) =
    (case zs of [] \<Rightarrow> Some (hd (ys @ [x])) | z # _ \<Rightarrow> Some z)"
  by (cases ys) (auto simp: dropWhile_split split: list.splits)

lemma sched_pick_next:
  assumes ok: "sched_ok s xs" and ne: "xs \<noteq> []" and ts: "sched_ts s \<le> 0"
  shows "\<exists>y. next_after xs (sched_iter s) = Some y \<and> y \<in> set xs
    \<and> sched_pick s = s\<lparr>sched_iter := Some y, sched_ts := sint (env_pri (envs s y))\<rparr>"
proof -
  have rep: "lst_rep (env_sched_list s) xs" using ok by (simp add: sched_ok_def)
  have hd: "LIST_FIRST (env_sched_list s) = Some (hd xs)"
    using rep ne by (cases xs) (auto simp: lst_rep_def LIST_FIRST_def)
  obtain y where y: "(case (case sched_iter s of None \<Rightarrow> None | Some i \<Rightarrow> LIST_NEXT (env_sched_list s) i)
      of None \<Rightarrow> LIST_FIRST (env_sched_list s) | Some i \<Rightarrow> Some i) = Some y"
    "next_after xs (sched_iter s) = Some y" "y \<in> set xs"
  proof (cases "sched_iter s")
    case None
    then show ?thesis using that [of "hd xs"] ne hd by (cases xs) simp_all
  next
    case (Some i)
    then have "i \<in> set xs" using ok by (simp add: sched_ok_def)
    then obtain ys zs where xs: "xs = ys @ i # zs" "i \<notin> set ys" by (meson split_list_first)
    have nx: "next_after xs (Some i) = (case zs of [] \<Rightarrow> Some (hd xs) | z # _ \<Rightarrow> Some z)"
      using next_after_split [OF xs(2), of zs] xs(1) by (cases zs; cases ys; simp)
    have ln: "LIST_NEXT (env_sched_list s) i = (case zs of [] \<Rightarrow> None | z # _ \<Rightarrow> Some z)"
      by (rule LIST_NEXT_rep [OF rep [unfolded xs(1)]])
    show ?thesis
    proof (cases zs)
      case Nil
      then show ?thesis using that [of "hd xs"] Some hd ne nx ln by simp
    next
      case (Cons z zs')
      then show ?thesis using that [of z] Some nx ln xs(1) by simp
    qed
  qed
  have "sched_pick s = s\<lparr>sched_iter := Some y, sched_ts := sint (env_pri (envs s y))\<rparr>"
    using ts by (simp only: sched_pick_def Let_def y(1) option.case if_True)
  then show ?thesis using y(2,3) by blast
qed

lemma env_run_frame:
  obtains s' where "env_run i s = Resume s'" "curenv s' = Some i"
    "env_sched_list s' = env_sched_list s" "sched_iter s' = sched_iter s" "sched_ts s' = sched_ts s"
    "\<And>e. env_status (envs s' e) = env_status (envs s e)" "\<And>e. env_pri (envs s' e) = env_pri (envs s e)"
    "mCONTEXT s' = env_pgdir (envs s i)" "ttbr s' = env_ttb (envs s i)"
    "contextidr s' = env_id (envs s i) + 256" "\<And>c. curenv s = Some c \<Longrightarrow> env_tf (envs s' c) = exc_tf s"
  by (cases "curenv s") (auto simp: env_run_def lcontext_def Let_def)

text \<open>One call: the current slice goes on, or the next environment gets one.\<close>

lemma sched_yieldE:
  assumes ok: "sched_ok s xs" and ne: "xs \<noteq> []"
  obtains s' y where "sched_yield s = Some (Resume s')" "curenv s' = Some y" "y \<in> set xs"
    "sched_ok s' xs" "sched_iter s' = Some y"
    "\<And>e. env_pri (envs s' e) = env_pri (envs s e)"
    "if sched_ts s \<le> 0 then next_after xs (sched_iter s) = Some y \<and> sched_ts s' = sint (env_pri (envs s y)) - 1
     else sched_iter s = Some y \<and> sched_ts s' = sched_ts s - 1"
proof -
  have nonempty: "\<not> LIST_EMPTY (env_sched_list s)"
    using ok ne by (cases xs) (auto simp: sched_ok_def lst_rep_def LIST_EMPTY_def)
  obtain y where y: "sched_iter (sched_pick s) = Some y" "y \<in> set xs"
    "sched_pick s = s\<lparr>sched_iter := Some y, sched_ts := sched_ts (sched_pick s)\<rparr>"
    "if sched_ts s \<le> 0 then next_after xs (sched_iter s) = Some y
        \<and> sched_ts (sched_pick s) = sint (env_pri (envs s y))
     else sched_iter s = Some y \<and> sched_ts (sched_pick s) = sched_ts s"
  proof (cases "sched_ts s \<le> 0")
    case True
    obtain y where "next_after xs (sched_iter s) = Some y" "y \<in> set xs"
      "sched_pick s = s\<lparr>sched_iter := Some y, sched_ts := sint (env_pri (envs s y))\<rparr>"
      using sched_pick_next [OF ok ne True] by blast
    then show ?thesis using that [of y] True by simp
  next
    case False
    then obtain i where "sched_iter s = Some i" "i \<in> set xs"
      using ok by (auto simp: sched_ok_def split: option.splits)
    then show ?thesis using that [of i] False by (simp add: sched_pick_def)
  qed
  let ?s2 = "s\<lparr>sched_iter := Some y, sched_ts := sched_ts (sched_pick s) - 1\<rparr>"
  have run: "env_status (envs s y) = ENV_RUNNABLE" using ok y(2) by (simp add: sched_ok_def)
  obtain s' where s': "(env_run y ?s2 :: unit ctl) = Resume s'" "curenv s' = Some y"
    "env_sched_list s' = env_sched_list ?s2" "sched_iter s' = sched_iter ?s2" "sched_ts s' = sched_ts ?s2"
    "\<And>e. env_status (envs s' e) = env_status (envs ?s2 e)" "\<And>e. env_pri (envs s' e) = env_pri (envs ?s2 e)"
    by (rule env_run_frame [of y ?s2]) blast
  have s2: "(sched_pick s)\<lparr>sched_ts := sched_ts (sched_pick s) - 1\<rparr> = ?s2"
    by (subst (1) y(3)) simp
  obtain t where t: "(sched_pick s)\<lparr>sched_ts := sched_ts (sched_pick s) - 1\<rparr> = t" by blast
  have "env_status (envs t y) = ENV_RUNNABLE" "(env_run y t :: unit ctl) = Resume s'"
    using run s'(1) s2 t by auto
  then have "sched_yield s = Some (Resume s')"
    by (subst sched_yield.simps) (simp add: nonempty Let_def t y(1))
  then show thesis
    by (rule that) (use s' y ok in \<open>auto simp: sched_ok_def split: if_splits\<close>)
qed

text \<open>\<open>n\<close> calls in a row, with the environments they run. (What the environments do in
  between leaves the scheduler's variables alone as long as they make no system call that
  changes a status.)\<close>

fun yields :: "nat \<Rightarrow> kstate \<Rightarrow> (u32 list \<times> kstate) option" where
  "yields 0 s = Some ([], s)"
| "yields (Suc n) s = do {
     c \<leftarrow> sched_yield s;
     (case c of
        Return _ _ \<Rightarrow> None
      | Resume s1 \<Rightarrow> do {
          e \<leftarrow> curenv s1;
          (es, s2) \<leftarrow> yields n s1;
          Some (e # es, s2)
        })
   }"

definition slice :: "kstate \<Rightarrow> u32 \<Rightarrow> nat" where
  "slice s e = nat (max 1 (sint (env_pri (envs s e))))"

lemma yields_add:
  "yields (m + n) s = do { (es, s1) \<leftarrow> yields m s; (fs, s2) \<leftarrow> yields n s1; Some (es @ fs, s2) }"
proof (induction m arbitrary: s)
  case 0
  show ?case by (cases "yields n s") auto
next
  case (Suc m)
  show ?case
    by (auto simp: Suc.IH split: Option.bind_split ctl.splits prod.splits)
qed

lemma yields_rest:
  assumes "sched_ok s xs" "sched_iter s = Some y" "sched_ts s \<le> int n" "0 \<le> sched_ts s \<or> n = 0"
    "int n \<le> max 0 (sched_ts s)"
  shows "\<exists>s'. yields n s = Some (replicate n y, s') \<and> sched_ok s' xs \<and> sched_iter s' = Some y
    \<and> sched_ts s' \<le> 0 \<and> (\<forall>e. env_pri (envs s' e) = env_pri (envs s e))"
  using assms
proof (induction n arbitrary: s)
  case (Suc n)
  have ts: "sched_ts s = int (Suc n)" using Suc.prems(3-5) by linarith
  have ne: "xs \<noteq> []" using Suc.prems(1,2) by (auto simp: sched_ok_def)
  obtain s1 y' where s1: "sched_yield s = Some (Resume s1)" "curenv s1 = Some y'" "sched_ok s1 xs"
    "sched_iter s1 = Some y'" "\<And>e. env_pri (envs s1 e) = env_pri (envs s e)"
    "if sched_ts s \<le> 0 then next_after xs (sched_iter s) = Some y' \<and> sched_ts s1 = sint (env_pri (envs s y')) - 1
     else sched_iter s = Some y' \<and> sched_ts s1 = sched_ts s - 1"
    by (rule sched_yieldE [OF Suc.prems(1) ne]) blast
  then have y: "y' = y" "sched_ts s1 = int n" using ts Suc.prems(2) by simp_all
  then obtain s' where "yields n s1 = Some (replicate n y, s')" "sched_ok s' xs" "sched_iter s' = Some y"
    "sched_ts s' \<le> 0" "\<forall>e. env_pri (envs s' e) = env_pri (envs s1 e)"
    using Suc.IH [OF s1(3)] s1(4) by auto
  then show ?case using s1 y by auto
qed auto

text \<open>One whole slice.\<close>

lemma yields_slice:
  assumes ok: "sched_ok s xs" and ne: "xs \<noteq> []" and ts: "sched_ts s \<le> 0"
    and nx: "next_after xs (sched_iter s) = Some y"
  shows "\<exists>s'. yields (slice s y) s = Some (replicate (slice s y) y, s') \<and> sched_ok s' xs
    \<and> sched_iter s' = Some y \<and> sched_ts s' \<le> 0 \<and> (\<forall>e. env_pri (envs s' e) = env_pri (envs s e))"
proof -
  obtain s1 y' where s1: "sched_yield s = Some (Resume s1)" "curenv s1 = Some y'" "sched_ok s1 xs"
    "sched_iter s1 = Some y'" "\<And>e. env_pri (envs s1 e) = env_pri (envs s e)"
    "if sched_ts s \<le> 0 then next_after xs (sched_iter s) = Some y' \<and> sched_ts s1 = sint (env_pri (envs s y')) - 1
     else sched_iter s = Some y' \<and> sched_ts s1 = sched_ts s - 1"
    by (rule sched_yieldE [OF ok ne]) blast
  then have y: "y' = y" "sched_ts s1 = sint (env_pri (envs s y)) - 1" using ts nx by simp_all
  define n where "n = slice s y - 1"
  have n: "slice s y = Suc n" "sched_ts s1 \<le> int n" "0 \<le> sched_ts s1 \<or> n = 0" "int n \<le> max 0 (sched_ts s1)"
    using y(2) by (auto simp: n_def slice_def max_def)
  obtain s' where "yields n s1 = Some (replicate n y, s')" "sched_ok s' xs" "sched_iter s' = Some y"
    "sched_ts s' \<le> 0" "\<forall>e. env_pri (envs s' e) = env_pri (envs s1 e)"
    using yields_rest [OF s1(3) _ n(2-4), of y] s1(4) y(1) by auto
  then show ?thesis using s1 y n(1) by auto
qed

text \<open>All slices from one position on.\<close>

lemma yields_from:
  assumes "sched_ok s (ys @ zs)" "sched_ts s \<le> 0" "zs \<noteq> []" "next_after (ys @ zs) (sched_iter s) = Some (hd zs)"
  shows "\<exists>s'. yields (sum_list (map (slice s) zs)) s = Some (concat (map (\<lambda>e. replicate (slice s e) e) zs), s')
    \<and> sched_ok s' (ys @ zs) \<and> sched_iter s' = Some (last zs) \<and> sched_ts s' \<le> 0
    \<and> (\<forall>e. env_pri (envs s' e) = env_pri (envs s e))"
  using assms
proof (induction zs arbitrary: s ys)
  case (Cons z zs)
  obtain s1 where s1: "yields (slice s z) s = Some (replicate (slice s z) z, s1)" "sched_ok s1 (ys @ z # zs)"
    "sched_iter s1 = Some z" "sched_ts s1 \<le> 0" "\<forall>e. env_pri (envs s1 e) = env_pri (envs s e)"
    using yields_slice [OF Cons.prems(1) _ Cons.prems(2), of z] Cons.prems(4) by auto
  have sl: "slice s1 = slice s" using s1(5) by (simp add: slice_def fun_eq_iff)
  show ?case
  proof (cases zs)
    case Nil
    then show ?thesis using s1 by auto
  next
    case zs: (Cons z' zs')
    have "lst_rep (env_sched_list s1) (ys @ z # zs)" using s1(2) by (simp add: sched_ok_def)
    then have "distinct (ys @ z # zs)" by (rule lst_rep_distinct)
    then have nx: "next_after ((ys @ [z]) @ zs) (sched_iter s1) = Some (hd zs)"
      using next_after_split [of z ys zs] zs s1(3) by simp
    obtain s2 where s2: "yields (sum_list (map (slice s1) zs)) s1 =
        Some (concat (map (\<lambda>e. replicate (slice s1 e) e) zs), s2)"
      "sched_ok s2 ((ys @ [z]) @ zs)" "sched_iter s2 = Some (last zs)" "sched_ts s2 \<le> 0"
      "\<forall>e. env_pri (envs s2 e) = env_pri (envs s1 e)"
      using Cons.IH [of s1 "ys @ [z]"] s1(2,4) zs nx by auto
    moreover have "yields (sum_list (map (slice s) (z # zs))) s =
        Some (concat (map (\<lambda>e. replicate (slice s e) e) (z # zs)), s2)"
      using yields_add [of "slice s z" "sum_list (map (slice s) zs)" s] s1(1) s2(1) by (simp add: sl)
    ultimately show ?thesis
      using s1(5) zs by auto
  qed
qed simp

text \<open>Property C7. Round robin: when a slice is used up and the scheduler stands before the
  head of its list (at the start, or at the last environment), the next calls of
  \<open>sched_yield\<close> all return into user mode and run the environments in list order, each for
  exactly as many calls in a row as its priority says (once when that is not positive), and
  end before the head of the list again. So every environment on the list runs.\<close>

theorem sched_yield_round_robin:
  assumes ok: "sched_ok s xs" and ne: "xs \<noteq> []" and ts: "sched_ts s \<le> 0"
    and start: "sched_iter s = None \<or> sched_iter s = Some (last xs)"
  shows "\<exists>s'. yields (sum_list (map (slice s) xs)) s =
      Some (concat (map (\<lambda>e. replicate (slice s e) e) xs), s')
    \<and> sched_ok s' xs \<and> sched_iter s' = Some (last xs) \<and> sched_ts s' \<le> 0"
proof -
  have "next_after xs (sched_iter s) = Some (hd xs)"
  proof (cases "sched_iter s")
    case None
    then show ?thesis using ne by (cases xs) auto
  next
    case (Some i)
    then have l: "i = last xs" using start by simp
    obtain ys where xs: "xs = ys @ [i]" using l ne by (metis append_butlast_last_id)
    have "lst_rep (env_sched_list s) xs" using ok by (simp add: sched_ok_def)
    then have "i \<notin> set ys" using lst_rep_distinct [of _ xs] xs by auto
    then show ?thesis using next_after_split [of i ys "[]"] Some xs by simp
  qed
  then show ?thesis using yields_from [of s "[]" xs] ok ts ne by auto
qed

text \<open>Two runnable environments, 5 with priority 2 and 3 with priority 1.\<close>

definition two_runnable :: kstate where
  "two_runnable = one_space\<lparr>env_sched_list := LIST_INSERT_HEAD 5 (LIST_INSERT_HEAD 3 null_lst),
     envs := (\<lambda>i. zero_env\<lparr>env_status := ENV_RUNNABLE, env_pri := (if i = 5 then 2 else 1)\<rparr>),
     sched_iter := None, sched_ts := 0\<rparr>"

lemma null_lst_rep: "lst_rep null_lst []"
  by (simp add: lst_rep_def null_lst_def)

lemma two_runnable_ok: "sched_ok two_runnable [5, 3]"
proof -
  have "lst_rep (LIST_INSERT_HEAD 5 (LIST_INSERT_HEAD 3 null_lst)) [5, 3 :: u32]"
    by (intro LIST_INSERT_HEAD_rep null_lst_rep) simp_all
  then show ?thesis by (simp add: sched_ok_def two_runnable_def)
qed

theorem sched_yield_round_robin_witness:
  "\<exists>s'. yields 3 two_runnable = Some ([5, 5, 3], s') \<and> sched_ok s' [5, 3] \<and> sched_iter s' = Some 3"
proof -
  have h: "sched_ts two_runnable \<le> 0" "sched_iter two_runnable = None"
    "slice two_runnable 5 = 2" "slice two_runnable 3 = 1"
    by (simp_all add: two_runnable_def slice_def)
  then have e: "sum_list (map (slice two_runnable) [5, 3]) = 3"
    "concat (map (\<lambda>e. replicate (slice two_runnable e) e) [5, 3]) = [5, 5, 3]"
    by (simp_all add: numeral_2_eq_2)
  show ?thesis
    using sched_yield_round_robin [OF two_runnable_ok _ h(1)] h(2) unfolding e by auto
qed

end
