(* ===== verification/Messages.thy ===== *)
theory Messages
  imports Calls Scheduling
begin

section \<open>Messages between environments: proofs\<close>

text \<open>
  The two halves of a message, \<open>sys_ipc_recv\<close> and \<open>sys_ipc_can_send\<close>: what a send does on
  every branch, that a receive blocks its caller, and that the two together hand over the
  value and wake the receiver. The out parameters of the receiver are written through its
  page tables; the stores cannot touch a page table, since tables are never mapped.
\<close>

subsection \<open>Stores to mapped pages\<close>

text \<open>The kernel address of the user address \<open>va\<close> of a directory, where it is mapped.\<close>

definition user_addr :: "kstate \<Rightarrow> u32 \<Rightarrow> u32 \<Rightarrow> u32" where
  "user_addr s pd va = frame (pte_page (upte s pd va)) + PG_ADDR_OFFSET va"

lemma offset_entry:
  assumes "va AND 3 = 0"
  shows "\<exists>i<0x400. PG_ADDR_OFFSET va = 4 * i" "PG_ADDR_OFFSET va < 0x1000"
proof -
  have o: "unat (PG_ADDR_OFFSET va) = unat va mod 4096"
  proof -
    have m: "(0xFFFFF000 :: u32) = NOT 0xFFF" by simp
    have "PG_ADDR_OFFSET va = take_bit 12 va"
      unfolding PG_ADDR_OFFSET_def m bit.double_compl by (rule word_and_masks)
    then show ?thesis by (simp only: unsigned_take_bit_eq) (simp add: take_bit_eq_mod)
  qed
  then show "PG_ADDR_OFFSET va < 0x1000" by (simp add: word_less_nat_alt)
  have "va AND 3 = take_bit 2 va" by (simp add: take_bit_eq_mask mask_eq_exp_minus_1)
  then have "unat (take_bit 2 va) = 0" using assms by simp
  then have "unat va mod 4 = 0" by (simp only: unsigned_take_bit_eq) (simp add: take_bit_eq_mod)
  moreover have "unat va mod 4096 mod 4 = unat va mod 4" by (rule mod_mod_cancel) simp
  ultimately have "4 * (unat va mod 4096 div 4) = unat va mod 4096"
    using mult_div_mod_eq [of 4 "unat va mod 4096"] by simp
  moreover have "unat va mod 4096 div 4 < 1024" by simp
  ultimately have "PG_ADDR_OFFSET va = 4 * of_nat (unat va mod 4096 div 4)"
    "of_nat (unat va mod 4096 div 4) < (0x400 :: u32)"
    using o by (auto simp: word_unat_eq_iff unat_word_ariths unat_of_nat_u32 word_less_nat_alt)
  then show "\<exists>i<0x400. PG_ADDR_OFFSET va = 4 * i" by blast
qed

lemma frame_or_offset:
  assumes "unit_page p" "f < 0x1000"
  shows "frame p OR f = frame p + f"
proof -
  have "frame p AND f = 0" using push12_and_low [OF assms(2)] by (simp add: frame_push)
  then show ?thesis by (simp add: disjunctive_add_eq_or)
qed

text \<open>A store to a page that holds data leaves all tables alone.\<close>

lemma data_store:
  assumes inv: "vm_inv s D xs" and p: "unit_page p" "p \<notin> D \<union> tables_of (pde s) D" "i < 0x400"
    and s': "s' = s\<lparr>kmem := store32 (kmem s) (frame p + 4 * i) v\<rparr>"
  shows "vm_inv s' D xs" "same_view s s' D" "\<And>d w. d \<in> D \<Longrightarrow> w < ULIM \<Longrightarrow> upte s' d w = upte s d w"
    "tables_of (pde s') D = tables_of (pde s) D"
proof -
  note wf = vm_invD(2) [OF inv]
  have i: "i < 0x1000" using p(3) by (rule order.strict_trans) simp
  have pde': "pde s' d j = pde s d j" if "d \<in> D" "j < 0x800" for d j
  proof -
    have "unit_page d" "d \<noteq> p" using vm_wf_dir [OF wf that(1)] p(2) that by (auto simp: live_page_def)
    then show ?thesis
      using p(1) i dir_entry_simps(1) [of d j] that(2) by (simp add: pde_def s' load_store_entry)
  qed
  have pte': "pte_at s' x = pte_at s x" if "x \<in> all_slots D" for x
  proof -
    obtain d k j where x: "x = (d, k, j)" "d \<in> D" "k < 0x800" "j < 0x100"
      using \<open>x \<in> all_slots D\<close> by (auto simp: all_slots_def)
    show ?thesis
    proof (cases "pde s d k = 0")
      case True
      then show ?thesis using pde' [OF x(2,3)] by (simp add: x(1) pte_at.simps)
    next
      case False
      from wf x(2,3) False obtain t where t: "pte_page (pde s d k) = t" "live_page (npage s) (pp_ref s) t"
        "t \<in> tables_of (pde s) D"
        by (rule vm_wf_tableE)
      then have "unit_page t" "t \<noteq> p" using p(2) by (auto simp: live_page_def)
      then show ?thesis
        using x dir_entry_simps(2) [OF x(4)] p(1) i False t pde' [OF x(2,3)]
        by (auto simp: pte_at.simps s' load_store_entry)
    qed
  qed
  have "vm_wf (npage s) (pp_ref s) D (pde s') (pte_at s')"
    using wf by (subst vm_wf_cong) (auto simp: pde' pte')
  moreover have "alloc_inv s' xs"
    using vm_invD(1) [OF inv] alloc_inv_cong [of s' s xs] by (simp add: s')
  ultimately show "vm_inv s' D xs" by (simp add: vm_inv_def s')
  show v: "same_view s s' D" by (rule same_view_slots) (rule pte')
  show "upte s' d w = upte s d w" if "d \<in> D" "w < ULIM" for d w
    using v that by (simp add: same_view_def)
  show "tables_of (pde s') D = tables_of (pde s) D" by (rule tables_of_cong) (rule pde')
qed

text \<open>A pointer that a receive may pass: null, or an aligned user address.\<close>

definition out_ptr :: "u32 \<Rightarrow> bool" where
  "out_ptr p \<longleftrightarrow> p = 0 \<or> p < ULIM \<and> p AND 3 = 0"

definition stored :: "kstate \<Rightarrow> u32 \<Rightarrow> u32 \<Rightarrow> u32 \<Rightarrow> mem" where
  "stored s pd p v = (if p \<noteq> 0 \<and> valid_pte (upte s pd p) then store32 (kmem s) (user_addr s pd p) v else kmem s)"

lemma ipc_store_ok:
  assumes inv: "vm_inv s D xs" and pd: "pd \<in> D" and p: "out_ptr p"
  shows "ipc_store (frame pd) p v s = Some (s\<lparr>kmem := stored s pd p v\<rparr>)"
    and "vm_inv (s\<lparr>kmem := stored s pd p v\<rparr>) D xs"
    and "same_view s (s\<lparr>kmem := stored s pd p v\<rparr>) D"
proof -
  let ?s = "s\<lparr>kmem := stored s pd p v\<rparr>"
  have "ipc_store (frame pd) p v s = Some ?s \<and> vm_inv ?s D xs \<and> same_view s ?s D"
  proof (cases "p \<noteq> 0 \<and> valid_pte (upte s pd p)")
    case False
    have "?s = s" using False by (auto simp: stored_def)
    moreover have "ipc_store (frame pd) p v s = Some s"
      using page_lookup_upte [OF inv pd, of p] False p by (auto simp: ipc_store_def out_ptr_def)
    ultimately show ?thesis using inv by simp
  next
    case True
    then have w: "p \<noteq> 0" "p < ULIM" "p AND 3 = 0" and val: "valid_pte (pte_at s (slot_of pd p))"
      using p by (auto simp: out_ptr_def upte_def)
    let ?p = "pte_page (upte s pd p)"
    have live: "live_page (npage s) (pp_ref s) ?p" "?p \<notin> D \<union> tables_of (pde s) D"
      using vm_wf_mapped [OF vm_invD(2) [OF inv] slot_of_all [OF pd w(2)] val] by (simp_all add: upte_def)
    note lp = live_page_simps [OF live(1)]
    obtain i where i: "i < 0x400" "PG_ADDR_OFFSET p = 4 * i" using offset_entry(1) [OF w(3)] by blast
    have m: "?s = s\<lparr>kmem := store32 (kmem s) (frame ?p + 4 * i) v\<rparr>"
      using True i by (simp add: stored_def user_addr_def)
    have "frame ?p OR PG_ADDR_OFFSET p = frame ?p + 4 * i"
      using frame_or_offset [OF lp(1) offset_entry(2) [OF w(3)]] i(2) by simp
    then have "ipc_store (frame pd) p v s = Some ?s"
      using page_lookup_upte [OF inv pd w(2)] True lp unfolding m
      by (simp add: ipc_store_def page2kva_frame)
    then show ?thesis using data_store [OF inv lp(1) live(2) i(1) m] by blast
  qed
  then show "ipc_store (frame pd) p v s = Some ?s" "vm_inv ?s D xs" "same_view s ?s D" by blast+
qed

subsection \<open>Sending\<close>

text \<open>What the receiver then reads through its two pointers.\<close>

definition user_word :: "kstate \<Rightarrow> u32 \<Rightarrow> u32 \<Rightarrow> u32" where
  "user_word s pd va = load32 (kmem s) (user_addr s pd va)"

lemma aligned_user_addr:
  assumes "vm_inv s D xs" "pd \<in> D" "out_ptr p" "p \<noteq> 0" "valid_pte (upte s pd p)"
  shows "aligned 4 (user_addr s pd p)"
proof -
  have p: "p < ULIM" "p AND 3 = 0" using assms(3,4) by (simp_all add: out_ptr_def)
  have "unit_page (pte_page (upte s pd p))"
    using vm_wf_mapped(1) [OF vm_invD(2) [OF assms(1)] slot_of_all [OF assms(2) p(1)]] assms(5)
    by (simp add: upte_def live_page_def)
  moreover obtain i where "i < 0x400" "PG_ADDR_OFFSET p = 4 * i" using offset_entry(1) [OF p(2)] by blast
  moreover from this(1) have "i < 0x1000" by (rule order.strict_trans) simp
  ultimately show ?thesis by (simp add: user_addr_def aligned_entry)
qed

lemma user_word_stored:
  assumes "vm_inv s D xs" "pd \<in> D" "out_ptr p" "p \<noteq> 0" "valid_pte (upte s pd p)"
  shows "load32 (stored s pd p v) (user_addr s pd p) = v"
    and "out_ptr q \<Longrightarrow> q \<noteq> 0 \<Longrightarrow> valid_pte (upte s pd q) \<Longrightarrow> user_addr s pd q \<noteq> user_addr s pd p \<Longrightarrow>
      load32 (stored s pd p v) (user_addr s pd q) = user_word s pd q"
  using assms aligned_user_addr [OF assms] aligned_user_addr [OF assms(1,2), of q]
  by (simp_all add: stored_def user_word_def load32_store32_same load32_store32_other)

text \<open>The receiver after the delivery.\<close>

definition delivered :: "u32 \<Rightarrow> u32 \<Rightarrow> u32 \<Rightarrow> env \<Rightarrow> env" where
  "delivered from value perm v = v\<lparr>env_ipc_perm := perm OR PTE_V OR PTE_R, env_ipc_recving := 0,
     env_ipc_value := value, env_ipc_from := from,
     env_tf := (env_tf v)\<lparr>regs := (regs (env_tf v))(0 := value)\<rparr>, env_status := ENV_RUNNABLE\<rparr>"

text \<open>The page of a message; \<open>None\<close> where the call gives up before it sends anything.\<close>

lemma ipc_send_page_ok:
  assumes sp: "spaces s D xs"
    and c: "env_pgdir (envs s c) = frame cpd" "cpd \<in> D" "srcva < ULIM"
    and e: "env_pgdir (envs s e) = frame pd" "pd \<in> D" "env_ipc_dstva (envs s e) < ULIM"
    and perm: "perm < 0x1000"
    and ref: "valid_pte (upte s cpd srcva) \<Longrightarrow> pp_ref s (pte_page (upte s cpd srcva)) \<noteq> 0xFFFF"
  shows "\<exists>r s' xs'. ipc_send_page c e srcva perm s = Some (r, s') \<and> spaces s' D xs' \<and> vm_only s s' \<and>
    (if srcva = 0 then r = Inr () \<and> s' = s
     else if \<not> valid_pte (upte s cpd srcva) then r = Inl (Inr 0) \<and> s' = s
     else r = Inl (Inl E_INVAL) \<and> xs = [] \<and> same_view s s' D
       \<or> r = Inr () \<and> one_entry s s' D pd (env_ipc_dstva (envs s e))
           (page2pa (pte_page (upte s cpd srcva)) OR (perm OR PTE_V)))"
proof -
  have inv: "vm_inv s D xs" using sp by (simp add: spaces_def)
  note look = page_lookup_upte [OF inv c(2,3)]
  show ?thesis
  proof (cases "srcva \<noteq> 0 \<and> valid_pte (upte s cpd srcva)")
    case False
    then show ?thesis using sp c(1) look by (auto simp: ipc_send_page_def)
  next
    case True
    let ?p = "pte_page (upte s cpd srcva)" and ?dst = "env_ipc_dstva (envs s e)"
    have live: "live_page (npage s) (pp_ref s) ?p" "?p \<notin> D \<union> tables_of (pde s) D"
      using vm_wf_mapped [OF vm_invD(2) [OF inv] slot_of_all [OF c(2,3)]] True by (simp_all add: upte_def)
    then have p: "unit_page ?p" "?p < npage s" "?p \<notin> D \<union> tables_of (pde s) D \<union> set xs"
      using live_not_free [OF inv] by (auto simp: live_page_def)
    obtain r s' xs' where ins: "page_insert (frame pd) ?p ?dst perm s = Some (r, s')" "vm_inv s' D xs'"
      "vm_only s s'"
      "case r of Inl err \<Rightarrow> err = E_NO_MEM \<and> xs = [] \<and> same_view s s' D
        | Inr _ \<Rightarrow> one_entry s s' D pd ?dst (page2pa ?p OR (perm OR PTE_V))"
      using page_insert_view [OF inv e(2,3) p ref perm] True by blast
    have "ipc_send_page c e srcva perm s =
        Some (case r of Inl _ \<Rightarrow> Inl (Inl E_INVAL) | Inr _ \<Rightarrow> Inr (), s')"
      using True look c(1) e(1) ins(1) by (simp add: ipc_send_page_def)
    moreover have "spaces s' D xs'" by (rule spaces_only [OF sp ins(3,2)])
    ultimately show ?thesis using True ins(3,4) by (cases r) auto
  qed
qed

text \<open>The rest of the call, once the page is in place.\<close>

definition ipc_finish :: "u32 \<Rightarrow> u32 \<Rightarrow> u32 \<Rightarrow> u32 \<Rightarrow> u32 \<Rightarrow> kstate \<Rightarrow> kstate" where
  "ipc_finish c e pd value perm s =
     (let s4 = s\<lparr>envs := (envs s)(e := (delivered (env_id (envs s c)) value perm (envs s e))
                 \<lparr>env_status := env_status (envs s e)\<rparr>)\<rparr>;
          s5 = s4\<lparr>kmem := stored s4 pd (env_ipc_arg_whom (envs s e)) (env_id (envs s c))\<rparr>;
          s6 = s5\<lparr>kmem := stored s5 pd (env_ipc_arg_perm (envs s e)) (perm OR PTE_V OR PTE_R)\<rparr>
      in s6\<lparr>envs := (envs s6)(e := (envs s6 e)\<lparr>env_status := ENV_RUNNABLE\<rparr>),
           env_sched_list := LIST_INSERT_HEAD e (env_sched_list s)\<rparr>)"

lemma ipc_finish_ok:
  assumes inv: "vm_inv s D xs" and pd: "pd \<in> D"
    and ptrs: "out_ptr (env_ipc_arg_whom (envs s e))" "out_ptr (env_ipc_arg_perm (envs s e))"
  shows "vm_inv (ipc_finish c e pd value perm s) D xs" "same_view s (ipc_finish c e pd value perm s) D"
    "envs (ipc_finish c e pd value perm s) = (envs s)(e := delivered (env_id (envs s c)) value perm (envs s e))"
    "env_sched_list (ipc_finish c e pd value perm s) = LIST_INSERT_HEAD e (env_sched_list s)"
    "curenv (ipc_finish c e pd value perm s) = curenv s"
proof -
  define s4 where "s4 = s\<lparr>envs := (envs s)(e := (delivered (env_id (envs s c)) value perm (envs s e))
    \<lparr>env_status := env_status (envs s e)\<rparr>)\<rparr>"
  define s5 where "s5 = s4\<lparr>kmem := stored s4 pd (env_ipc_arg_whom (envs s e)) (env_id (envs s c))\<rparr>"
  define s6 where "s6 = s5\<lparr>kmem := stored s5 pd (env_ipc_arg_perm (envs s e)) (perm OR PTE_V OR PTE_R)\<rparr>"
  have f: "ipc_finish c e pd value perm s = s6\<lparr>envs := (envs s6)(e := (envs s6 e)\<lparr>env_status := ENV_RUNNABLE\<rparr>),
      env_sched_list := LIST_INSERT_HEAD e (env_sched_list s)\<rparr>"
    by (simp only: ipc_finish_def Let_def s4_def s5_def s6_def)
  have i4: "vm_inv s4 D xs" "upte s4 = upte s"
    using inv vm_inv_cong(1) [of s4 s D xs] vm_inv_cong(4) [of s4 s] by (simp_all add: s4_def)
  have i5: "vm_inv s5 D xs" "same_view s4 s5 D"
    using ipc_store_ok(2,3) [OF i4(1) pd ptrs(1)] by (simp_all add: s5_def)
  have i6: "vm_inv s6 D xs" "same_view s5 s6 D"
    using ipc_store_ok(2,3) [OF i5(1) pd ptrs(2)] by (simp_all add: s6_def)
  let ?t = "ipc_finish c e pd value perm s"
  have t: "vm_inv ?t D xs = vm_inv s6 D xs" "upte ?t = upte s6"
    by (intro vm_inv_cong; simp add: f)+
  show "vm_inv ?t D xs" using i6(1) by (simp add: t)
  show "same_view s ?t D" using i4(2) i5(2) i6(2) by (simp add: same_view_def t)
  show "envs ?t = (envs s)(e := delivered (env_id (envs s c)) value perm (envs s e))"
    by (simp add: f s6_def s5_def s4_def delivered_def)
  show "env_sched_list ?t = LIST_INSERT_HEAD e (env_sched_list s)" "curenv ?t = curenv s"
    by (simp_all add: f s6_def s5_def s4_def)
qed

lemma ipc_finish_words:
  assumes inv: "vm_inv s D xs" and pd: "pd \<in> D"
    and ptrs: "out_ptr (env_ipc_arg_whom (envs s e))" "out_ptr (env_ipc_arg_perm (envs s e))"
  shows "env_ipc_arg_perm (envs s e) \<noteq> 0 \<Longrightarrow> valid_pte (upte s pd (env_ipc_arg_perm (envs s e))) \<Longrightarrow>
      user_word (ipc_finish c e pd value perm s) pd (env_ipc_arg_perm (envs s e)) = perm OR PTE_V OR PTE_R"
    and "env_ipc_arg_whom (envs s e) \<noteq> 0 \<Longrightarrow> valid_pte (upte s pd (env_ipc_arg_whom (envs s e))) \<Longrightarrow>
      env_ipc_arg_perm (envs s e) = 0 \<or> user_addr s pd (env_ipc_arg_whom (envs s e)) \<noteq> user_addr s pd (env_ipc_arg_perm (envs s e)) \<Longrightarrow>
      user_word (ipc_finish c e pd value perm s) pd (env_ipc_arg_whom (envs s e)) = env_id (envs s c)"
proof -
  let ?w = "env_ipc_arg_whom (envs s e)" and ?p = "env_ipc_arg_perm (envs s e)"
    and ?t = "ipc_finish c e pd value perm s"
  define s5 where "s5 = s\<lparr>kmem := stored s pd ?w (env_id (envs s c))\<rparr>"
  have i5: "vm_inv s5 D xs" "same_view s s5 D"
    using ipc_store_ok(2,3) [OF inv pd ptrs(1)] by (simp_all add: s5_def)
  have v: "upte s5 pd q = upte s pd q" "user_addr s5 pd q = user_addr s pd q" "upte ?t pd q = upte s pd q"
    "user_addr ?t pd q = user_addr s pd q" if "out_ptr q" "q \<noteq> 0" for q
    using i5(2) ipc_finish_ok(2) [OF inv pd ptrs, of c "value" perm] that pd
    by (simp_all add: same_view_def user_addr_def out_ptr_def)
  have m: "kmem ?t = stored s5 pd ?p (perm OR PTE_V OR PTE_R)"
  proof -
    let ?s4 = "s\<lparr>envs := (envs s)(e := (delivered (env_id (envs s c)) value perm (envs s e))
      \<lparr>env_status := env_status (envs s e)\<rparr>)\<rparr>"
    have u: "upte ?s4 = upte s" by (rule vm_inv_cong(4)) simp_all
    have st4: "stored ?s4 pd ?w x = stored s pd ?w x" for x by (simp add: stored_def user_addr_def u)
    let ?s5 = "?s4\<lparr>kmem := stored s pd ?w (env_id (envs s c))\<rparr>"
    have "upte ?s5 = upte s5" by (rule vm_inv_cong(4)) (simp_all add: s5_def)
    then have "stored ?s5 pd ?p x = stored s5 pd ?p x" for x by (simp add: stored_def user_addr_def s5_def)
    then show ?thesis by (simp add: ipc_finish_def Let_def st4)
  qed
  show "user_word ?t pd ?p = perm OR PTE_V OR PTE_R" if "?p \<noteq> 0" "valid_pte (upte s pd ?p)"
    using user_word_stored(1) [OF i5(1) pd ptrs(2) that(1)] that v [OF ptrs(2) that(1)]
    by (simp add: user_word_def m)
  show "user_word ?t pd ?w = env_id (envs s c)"
    if w: "?w \<noteq> 0" "valid_pte (upte s pd ?w)" "?p = 0 \<or> user_addr s pd ?w \<noteq> user_addr s pd ?p"
  proof -
    have first: "user_word s5 pd ?w = env_id (envs s c)"
      using user_word_stored(1) [OF inv pd ptrs(1) w(1,2)] v(2) [OF ptrs(1) w(1)]
      by (simp add: user_word_def s5_def)
    show ?thesis
    proof (cases "?p \<noteq> 0 \<and> valid_pte (upte s pd ?p)")
      case True
      then show ?thesis
        using user_word_stored(2) [OF i5(1) pd ptrs(2) _ _ ptrs(1) w(1)] first w v [OF ptrs(1) w(1)]
          v [OF ptrs(2)]
        by (simp add: user_word_def m)
    next
      case False
      then have "stored s5 pd ?p (perm OR PTE_V OR PTE_R) = kmem s5"
        using v(1) [OF ptrs(2)] by (auto simp: stored_def)
      then show ?thesis using first v(2,4) [OF ptrs(1) w(1)] by (simp add: user_word_def m)
    qed
  qed
qed

lemma sys_ipc_can_send_eq:
  assumes srcva: "\<not> UTOP \<le> srcva" and env: "envid2env envid False s = Some (Inr e)" "curenv s = Some c"
    and recving: "env_ipc_recving (envs s e) \<noteq> 0" and status: "env_status (envs s e) \<noteq> ENV_RUNNABLE"
    and page: "ipc_send_page c e srcva perm s = Some (Inr (), s1)" and only: "vm_only s s1"
    and inv: "vm_inv s1 D xs" and pd: "env_pgdir (envs s e) = frame pd" "pd \<in> D"
    and ptrs: "out_ptr (env_ipc_arg_whom (envs s e))" "out_ptr (env_ipc_arg_perm (envs s e))"
  shows "sys_ipc_can_send envid value srcva perm s = Some (Return (Inr 0) (ipc_finish c e pd value perm s1))"
proof -
  define s4 where "s4 = s1\<lparr>envs := (envs s1)(e := (delivered (env_id (envs s1 c)) value perm (envs s1 e))
    \<lparr>env_status := env_status (envs s1 e)\<rparr>)\<rparr>"
  define s5 where "s5 = s4\<lparr>kmem := stored s4 pd (env_ipc_arg_whom (envs s e)) (env_id (envs s c))\<rparr>"
  define s6 where "s6 = s5\<lparr>kmem := stored s5 pd (env_ipc_arg_perm (envs s e)) (perm OR PTE_V OR PTE_R)\<rparr>"
  have i4: "vm_inv s4 D xs" using inv vm_inv_cong(1) [of s4 s1 D xs] by (simp add: s4_def)
  note st5 = ipc_store_ok [OF i4 pd(2) ptrs(1), of "env_id (envs s c)", folded s5_def]
  note st6 = ipc_store_ok(1) [OF st5(2) pd(2) ptrs(2), of "perm OR PTE_V OR PTE_R", folded s6_def]
  define s2 where "s2 = upd_env e (\<lambda>v. v\<lparr>env_ipc_perm := perm OR PTE_V OR PTE_R, env_ipc_recving := 0,
    env_ipc_value := value\<rparr>) s1"
  define s3 where "s3 = upd_env e (\<lambda>v. v\<lparr>env_ipc_from := env_id (envs s2 c)\<rparr>) s2"
  have u: "upd_env e (\<lambda>v. v\<lparr>env_tf := (env_tf v)\<lparr>regs := (regs (env_tf v))(0 := env_ipc_value v)\<rparr>\<rparr>) s3 = s4"
    by (simp add: s4_def s3_def s2_def delivered_def)
  have f4: "env_pgdir (envs s4 e) = frame pd" "env_ipc_arg_whom (envs s4 e) = env_ipc_arg_whom (envs s e)"
    "env_ipc_from (envs s4 e) = env_id (envs s c)"
    using pd(1) by (simp_all add: s4_def delivered_def vm_onlyD(1) [OF only])
  have f5: "env_pgdir (envs s5 e) = frame pd" "env_ipc_arg_perm (envs s5 e) = env_ipc_arg_perm (envs s e)"
    "env_ipc_perm (envs s5 e) = perm OR PTE_V OR PTE_R" "env_status (envs s6 e) = env_status (envs s e)"
    "env_sched_list s6 = env_sched_list s1"
    using pd(1) by (simp_all add: s6_def s5_def s4_def delivered_def vm_onlyD(1) [OF only])
  have "ipc_finish c e pd value perm s1 = s6\<lparr>envs := (envs s6)(e := (envs s6 e)\<lparr>env_status := ENV_RUNNABLE\<rparr>),
      env_sched_list := LIST_INSERT_HEAD e (env_sched_list s1)\<rparr>"
    by (simp only: ipc_finish_def Let_def s4_def s5_def s6_def vm_onlyD(1) [OF only])
  then have "my_set_env_status e ENV_RUNNABLE s6 = Some (Return () (ipc_finish c e pd value perm s1))"
    using status f5(4,5) by (simp add: my_set_env_status_def)
  moreover have "sys_ipc_can_send envid value srcva perm s = do {
      s5 \<leftarrow> ipc_store (env_pgdir (envs s4 e)) (env_ipc_arg_whom (envs s4 e)) (env_ipc_from (envs s4 e)) s4;
      s6 \<leftarrow> ipc_store (env_pgdir (envs s5 e)) (env_ipc_arg_perm (envs s5 e)) (env_ipc_perm (envs s5 e)) s5;
      r \<leftarrow> my_set_env_status e ENV_RUNNABLE s6;
      on_return r (\<lambda>_ s7. Some (Return (Inr 0) s7))}"
    unfolding u [symmetric] s3_def s2_def
    by (simp only: sys_ipc_can_send_def Let_def srcva env recving page if_False bind.bind_lunit sum.case split)
  ultimately show ?thesis using st5(1) st6 f4 f5 by simp
qed

text \<open>The sender and the permissions arrive where the receiver asked for them, as far as its
  two pointers are not null, are mapped and differ.\<close>

definition words_handed :: "kstate \<Rightarrow> u32 \<Rightarrow> env \<Rightarrow> u32 \<Rightarrow> u32 \<Rightarrow> bool" where
  "words_handed s pd v from perm \<longleftrightarrow>
     (let w = env_ipc_arg_whom v; p = env_ipc_arg_perm v in
       (p \<noteq> 0 \<and> valid_pte (upte s pd p) \<longrightarrow> user_word s pd p = perm OR PTE_V OR PTE_R) \<and>
       (w \<noteq> 0 \<and> valid_pte (upte s pd w) \<and> (p = 0 \<or> user_addr s pd w \<noteq> user_addr s pd p) \<longrightarrow>
          user_word s pd w = from))"

lemma words_handed_finish:
  assumes inv: "vm_inv s D xs" and pd: "pd \<in> D"
    and ptrs: "out_ptr (env_ipc_arg_whom (envs s e))" "out_ptr (env_ipc_arg_perm (envs s e))"
  shows "words_handed (ipc_finish c e pd value perm s) pd (envs s e) (env_id (envs s c)) perm"
proof -
  have "upte (ipc_finish c e pd value perm s) pd q = upte s pd q"
    "user_addr (ipc_finish c e pd value perm s) pd q = user_addr s pd q" if "out_ptr q" "q \<noteq> 0" for q
    using ipc_finish_ok(2) [OF inv pd ptrs, of c "value" perm] that pd
    by (simp_all add: same_view_def user_addr_def out_ptr_def)
  then show ?thesis
    using ipc_finish_words [OF inv pd ptrs, of c "value" perm] ptrs
    unfolding words_handed_def Let_def by metis
qed

text \<open>A send to an environment that waits.\<close>

lemma sys_ipc_can_send_ok:
  assumes sp: "spaces s D xs" and ys: "lst_rep (env_sched_list s) ys" "e \<notin> set ys"
    and srcva: "\<not> UTOP \<le> srcva" and env: "envid2env envid False s = Some (Inr e)" "curenv s = Some c"
    and recving: "env_ipc_recving (envs s e) \<noteq> 0" and status: "env_status (envs s e) = ENV_NOT_RUNNABLE"
    and c: "env_pgdir (envs s c) = frame cpd" "cpd \<in> D"
    and e: "env_pgdir (envs s e) = frame pd" "pd \<in> D" "env_ipc_dstva (envs s e) < ULIM"
    and ptrs: "out_ptr (env_ipc_arg_whom (envs s e))" "out_ptr (env_ipc_arg_perm (envs s e))"
    and perm: "perm < 0x1000"
    and ref: "valid_pte (upte s cpd srcva) \<Longrightarrow> pp_ref s (pte_page (upte s cpd srcva)) \<noteq> 0xFFFF"
  shows "\<exists>r s' xs'. sys_ipc_can_send envid value srcva perm s = Some (Return r s') \<and> spaces s' D xs' \<and>
    (if srcva \<noteq> 0 \<and> \<not> valid_pte (upte s cpd srcva) then r = Inr 0 \<and> s' = s
     else case r of
       Inl err \<Rightarrow> err = E_INVAL \<and> srcva \<noteq> 0 \<and> xs = [] \<and> same_view s s' D \<and> vm_only s s'
     | Inr v \<Rightarrow> v = 0 \<and> envs s' = (envs s)(e := delivered (env_id (envs s c)) value perm (envs s e)) \<and>
         lst_rep (env_sched_list s') (e # ys) \<and> curenv s' = Some c \<and>
         (if srcva = 0 then same_view s s' D
          else one_entry s s' D pd (env_ipc_dstva (envs s e))
            (page2pa (pte_page (upte s cpd srcva)) OR (perm OR PTE_V))) \<and>
         words_handed s' pd (envs s e) (env_id (envs s c)) perm)"
proof -
  obtain r s1 xs1 where r: "ipc_send_page c e srcva perm s = Some (r, s1)" "spaces s1 D xs1" "vm_only s s1"
    "if srcva = 0 then r = Inr () \<and> s1 = s
     else if \<not> valid_pte (upte s cpd srcva) then r = Inl (Inr 0) \<and> s1 = s
     else r = Inl (Inl E_INVAL) \<and> xs = [] \<and> same_view s s1 D
       \<or> r = Inr () \<and> one_entry s s1 D pd (env_ipc_dstva (envs s e))
           (page2pa (pte_page (upte s cpd srcva)) OR (perm OR PTE_V))"
    using ipc_send_page_ok [OF sp c below_UTOP_ULIM [OF srcva] e perm ref] by blast
  show ?thesis
  proof (cases r)
    case (Inl v)
    then have "sys_ipc_can_send envid value srcva perm s = Some (Return v s1)"
      using srcva env recving r(1) by (simp add: sys_ipc_can_send_def)
    then show ?thesis using r Inl by (auto split: if_splits)
  next
    case (Inr u)
    note only = vm_onlyD [OF r(3)]
    have inv1: "vm_inv s1 D xs1" using r(2) by (simp add: spaces_def)
    have pg: "ipc_send_page c e srcva perm s = Some (Inr (), s1)" using r(1) Inr by simp
    have st: "env_status (envs s e) \<noteq> ENV_RUNNABLE" using status by (simp add: env_status_defs)
    let ?t = "ipc_finish c e pd value perm s1"
    have fin: "vm_inv ?t D xs1" "same_view s1 ?t D"
      "envs ?t = (envs s)(e := delivered (env_id (envs s c)) value perm (envs s e))"
      "env_sched_list ?t = LIST_INSERT_HEAD e (env_sched_list s)" "curenv ?t = Some c"
      using ipc_finish_ok [OF inv1 e(2), of e c "value" perm] ptrs env(2) by (simp_all add: only)
    have "words_handed ?t pd (envs s e) (env_id (envs s c)) perm"
      using words_handed_finish [OF inv1 e(2), of e c "value" perm] ptrs by (simp only: only)
    moreover have "spaces ?t D xs1"
      using fin(1) sp e(1,2) by (auto simp: spaces_def fin(3) delivered_def)
    moreover have "lst_rep (env_sched_list ?t) (e # ys)"
      unfolding fin(4) by (rule ll.rep_push [OF ys])
    moreover have "same_view s ?t D" if "srcva = 0"
      using r(4) that fin(2) by simp
    moreover have "one_entry s ?t D pd (env_ipc_dstva (envs s e))
        (page2pa (pte_page (upte s cpd srcva)) OR (perm OR PTE_V))"
      if "srcva \<noteq> 0" "valid_pte (upte s cpd srcva)"
      using r(4) Inr that fin(2) by (simp add: one_entry_def same_view_def)
    moreover have "valid_pte (upte s cpd srcva)" if "srcva \<noteq> 0" using r(4) Inr that by (auto split: if_splits)
    ultimately show ?thesis
      using sys_ipc_can_send_eq [OF srcva env recving st pg r(3) inv1 e(1,2) ptrs, of "value"] fin(3,5)
      by auto
  qed
qed

subsection \<open>Blocking\<close>

text \<open>The environment that stops running keeps its registers in \<open>env_tf\<close>.\<close>

definition saved :: "kstate \<Rightarrow> u32 \<Rightarrow> env" where
  "saved s = (case curenv s of None \<Rightarrow> envs s | Some c \<Rightarrow> (envs s)(c := (envs s c)\<lparr>env_tf := exc_tf s\<rparr>))"

lemma sched_pick_frame:
  "envs (sched_pick s) = envs s \<and> curenv (sched_pick s) = curenv s \<and> exc_tf (sched_pick s) = exc_tf s \<and>
   kmem (sched_pick s) = kmem s \<and> npage (sched_pick s) = npage s \<and> pp_ref (sched_pick s) = pp_ref s \<and>
   page_free_list (sched_pick s) = page_free_list s \<and> env_sched_list (sched_pick s) = env_sched_list s"
  by (simp add: sched_pick_def Let_def)

text \<open>From \<open>s\<close> the processor was given to the environment that the scheduler's static pointer names.\<close>

definition switched :: "kstate \<Rightarrow> kstate \<Rightarrow> bool" where
  "switched s s' \<longleftrightarrow> envs s' = saved s \<and> kmem s' = kmem s \<and> npage s' = npage s \<and> pp_ref s' = pp_ref s \<and>
     page_free_list s' = page_free_list s \<and> boot_pgdir s' = boot_pgdir s \<and> env_free_list s' = env_free_list s \<and>
     (\<exists>y. curenv s' = Some y \<and> sched_iter s' = Some y \<and> mCONTEXT s' = env_pgdir (envs s y))"

lemma switched_pick:
  assumes "switched ((sched_pick s)\<lparr>sched_ts := t\<rparr>) s'"
  shows "switched s s'"
proof -
  have "boot_pgdir (sched_pick s) = boot_pgdir s \<and> env_free_list (sched_pick s) = env_free_list s"
    by (simp add: sched_pick_def Let_def)
  then show ?thesis
    using assms sched_pick_frame [of s] by (simp add: switched_def saved_def split: option.splits)
qed

lemma env_run_switched: "env_run i s = Resume s' \<Longrightarrow> sched_iter s = Some i \<Longrightarrow> switched s s'"
  by (cases "curenv s") (auto simp: env_run_def lcontext_def Let_def saved_def switched_def)

lemma sched_yield_switched:
  assumes "sched_yield s = Some (Resume s')"
  shows "switched s s'"
proof -
  have "\<forall>s'. r = Resume s' \<longrightarrow> switched s s'" if "sched_yield s = Some r" for r
    using that
  proof (rule sched_yield.raw_induct [rotated])
    fix f :: "kstate \<Rightarrow> unit ctl option" and s r
    assume ih: "\<And>s r. f s = Some r \<Longrightarrow> \<forall>s'. r = Resume s' \<longrightarrow> switched s s'"
    let ?s2 = "(sched_pick s)\<lparr>sched_ts := sched_ts (sched_pick s) - 1\<rparr>"
    assume "(if LIST_EMPTY (env_sched_list s) then Some (Return () (load_trapframe_kstack s))
      else let s1 = sched_pick s; s2 = s1\<lparr>sched_ts := sched_ts s1 - 1\<rparr>
           in case sched_iter s2 of
                Some i \<Rightarrow> if env_status (envs s2 i) = ENV_RUNNABLE then Some (env_run i s2) else f s2
              | None \<Rightarrow> f s2) = Some r"
    then consider v s' where "r = Return v s'" | "f ?s2 = Some r" | i where "env_run i ?s2 = r" "sched_iter ?s2 = Some i"
      by (auto simp: Let_def split: if_splits option.splits)
    then show "\<forall>s'. r = Resume s' \<longrightarrow> switched s s'"
    proof cases
      case 2
      then show ?thesis using ih [OF 2] switched_pick by blast
    next
      case (3 i)
      then show ?thesis using env_run_switched [of i ?s2] switched_pick by blast
    qed simp
  qed
  then show ?thesis using assms by blast
qed

lemma sched_yield_frame:
  assumes "sched_yield s = Some (Resume s')"
  shows "envs s' = saved s \<and> kmem s' = kmem s \<and> npage s' = npage s \<and> pp_ref s' = pp_ref s \<and>
    page_free_list s' = page_free_list s"
  using sched_yield_switched [OF assms] by (simp add: switched_def)

text \<open>The scheduler also comes back when its pointer is on an environment that has just left
  the list: the rest of that slice is used up without running anything, then the stale link
  of the element leads back into the list.\<close>

definition sched_left :: "kstate \<Rightarrow> u32 list \<Rightarrow> u32 \<Rightarrow> bool" where
  "sched_left s xs i \<longleftrightarrow> lst_rep (env_sched_list s) xs \<and> (\<forall>e\<in>set xs. env_status (envs s e) = ENV_RUNNABLE) \<and>
     sched_iter s = Some i \<and> env_status (envs s i) \<noteq> ENV_RUNNABLE \<and>
     (case LIST_NEXT (env_sched_list s) i of None \<Rightarrow> True | Some j \<Rightarrow> j \<in> set xs)"

lemma sched_yield_left:
  assumes "sched_left s xs i" "xs \<noteq> []"
  shows "\<exists>s' y. sched_yield s = Some (Resume s') \<and> curenv s' = Some y \<and> y \<in> set xs \<and> sched_ok s' xs"
  using assms(1)
proof (induction "nat (sched_ts s)" arbitrary: s)
  case 0
  let ?next = "case LIST_NEXT (env_sched_list s) i of None \<Rightarrow> LIST_FIRST (env_sched_list s) | Some j \<Rightarrow> Some j"
  have rep: "lst_rep (env_sched_list s) xs" using 0 by (simp add: sched_left_def)
  have "LIST_FIRST (env_sched_list s) = Some (hd xs)"
    using ll.rep_first [OF rep] assms(2) by (cases xs) simp_all
  then obtain y where y: "?next = Some y" "y \<in> set xs"
    using 0(2) assms(2) by (auto simp: sched_left_def split: option.splits)
  have run: "env_status (envs s y) = ENV_RUNNABLE" using 0(2) y(2) by (simp add: sched_left_def)
  have it: "sched_iter s = Some i" using 0(2) by (simp add: sched_left_def)
  have pick: "sched_pick s = s\<lparr>sched_iter := Some y, sched_ts := sint (env_pri (envs s y))\<rparr>"
    using 0(1) it y(1) by (simp add: sched_pick_def Let_def)
  have ne: "\<not> LIST_EMPTY (env_sched_list s)"
    using rep assms(2) by (cases xs) (auto simp: lst_rep_def LIST_EMPTY_def)
  let ?s2 = "s\<lparr>sched_iter := Some y, sched_ts := sint (env_pri (envs s y)) - 1\<rparr>"
  obtain s' where s': "(env_run y ?s2 :: unit ctl) = Resume s'" "curenv s' = Some y"
    "env_sched_list s' = env_sched_list ?s2" "sched_iter s' = sched_iter ?s2"
    "\<And>e. env_status (envs s' e) = env_status (envs ?s2 e)"
    by (rule env_run_frame [of y ?s2]) blast
  have "sched_yield s = Some (Resume s')"
    using ne s'(1) run by (subst sched_yield.simps) (simp add: pick)
  then show ?case using s' y(2) 0(2) by (auto simp: sched_ok_def sched_left_def)
next
  case (Suc n)
  let ?s2 = "s\<lparr>sched_ts := sched_ts s - 1\<rparr>"
  have ne: "\<not> LIST_EMPTY (env_sched_list s)"
    using Suc(3) assms(2) by (cases xs) (auto simp: sched_left_def lst_rep_def LIST_EMPTY_def)
  have pick: "sched_pick s = s" using Suc(2) by (simp add: sched_pick_def)
  have "sched_yield s = sched_yield ?s2"
    using ne Suc(3) by (subst sched_yield.simps) (simp add: pick sched_left_def)
  moreover have "n = nat (sched_ts ?s2)" using Suc(2) by simp
  moreover have "sched_left ?s2 xs i" using Suc(3) by (simp add: sched_left_def)
  ultimately show ?case using Suc(1) [of ?s2] by simp
qed

subsection \<open>Receiving\<close>

lemma LIST_REMOVE_keeps_link:
  assumes "lst_rep l (as @ x # bs)" "LIST_REMOVE x l = Some l'"
  shows "LIST_NEXT l' x = (case bs of [] \<Rightarrow> None | z # _ \<Rightarrow> Some z)"
proof -
  have ch: "chain l HeadOf (lh_first l) (as @ x # bs)" and d: "x \<notin> set as" "x \<notin> set bs"
    using assms(1) by (auto simp: lst_rep_def)
  have nx: "le_next l x = (case bs of [] \<Rightarrow> None | z # _ \<Rightarrow> Some z)" by (rule chain_next [OF ch])
  have "le_prev l x = Some (if as = [] then HeadOf else NextOf (last as))"
    using chain_prev [OF ch] by simp
  moreover have "as \<noteq> [] \<Longrightarrow> last as \<noteq> x" using d(1) by auto
  moreover have "le_next l x \<noteq> Some x" using nx d(2) by (cases bs) auto
  ultimately have "le_next l' x = le_next l x"
    using assms(2) by (auto simp: LIST_REMOVE_def Let_def split: option.splits if_splits)
  then show ?thesis by (simp add: LIST_NEXT_def nx)
qed

text \<open>The environment that called, while it waits.\<close>

definition waiting :: "u32 \<Rightarrow> u32 \<Rightarrow> u32 \<Rightarrow> env \<Rightarrow> env" where
  "waiting dstva whom perm v = v\<lparr>env_ipc_recving := 1, env_ipc_dstva := dstva, env_ipc_arg_whom := whom,
     env_ipc_arg_perm := perm, env_status := ENV_NOT_RUNNABLE\<rparr>"

lemma sys_ipc_recv_ok:
  assumes ok: "sched_ok s ys" and c: "curenv s = Some c" "c \<in> set ys" and va: "\<not> UTOP \<le> dstva"
    and others: "remove1 c ys \<noteq> []"
  shows "\<exists>s' y. sys_ipc_recv junk dstva whom perm s = Some (Resume s') \<and> curenv s' = Some y \<and>
    y \<in> set (remove1 c ys) \<and> sched_ok s' (remove1 c ys) \<and>
    envs s' = (envs s)(c := (waiting dstva whom perm (envs s c))\<lparr>env_tf := exc_tf s\<rparr>) \<and>
    kmem s' = kmem s \<and> npage s' = npage s \<and> pp_ref s' = pp_ref s \<and> page_free_list s' = page_free_list s \<and>
    boot_pgdir s' = boot_pgdir s \<and> env_free_list s' = env_free_list s \<and> sched_iter s' = Some y \<and>
    mCONTEXT s' = env_pgdir (envs s y)"
proof -
  obtain as bs where ys: "ys = as @ c # bs" "c \<notin> set as" using split_list_first [OF c(2)] by blast
  have zs: "remove1 c ys = as @ bs" using ys by (simp add: remove1_append)
  have rep: "lst_rep (env_sched_list s) (as @ c # bs)" using ok ys(1) by (simp add: sched_ok_def)
  have dist: "c \<notin> set (as @ bs)" using ll.rep_distinct [OF rep] by simp
  obtain sl where sl: "LIST_REMOVE c (env_sched_list s) = Some sl" "lst_rep sl (as @ bs)"
    using ll.rep_unlink [OF rep] by blast
  let ?s2 = "s\<lparr>envs := (envs s)(c := waiting dstva whom perm (envs s c)), env_sched_list := sl\<rparr>"
  have run: "env_status (envs s e) = ENV_RUNNABLE" if "e \<in> set ys" for e
    using ok that by (simp add: sched_ok_def)
  then have "env_status (envs s c) \<noteq> ENV_NOT_RUNNABLE" using c(2) by (simp add: env_status_defs)
  then have set: "my_set_env_status c ENV_NOT_RUNNABLE (upd_env c (\<lambda>v. v\<lparr>env_ipc_recving := 1,
      env_ipc_dstva := dstva, env_ipc_arg_whom := whom, env_ipc_arg_perm := perm\<rparr>) s) = Some (Return () ?s2)"
    using sl(1) by (simp add: my_set_env_status_def Let_def waiting_def env_status_defs)
  have run2: "\<forall>e\<in>set (as @ bs). env_status (envs ?s2 e) = ENV_RUNNABLE"
    using run dist by (auto simp: ys(1))
  have "\<exists>s' y. sched_yield ?s2 = Some (Resume s') \<and> curenv s' = Some y \<and> y \<in> set (as @ bs) \<and> sched_ok s' (as @ bs)"
  proof (cases "sched_iter s = Some c")
    case True
    have "sched_left ?s2 (as @ bs) c"
      using sl(2) run2 True LIST_REMOVE_keeps_link [OF rep sl(1)]
      by (auto simp: sched_left_def waiting_def env_status_defs split: list.splits)
    then show ?thesis using sched_yield_left [of ?s2 "as @ bs" c] others zs by simp
  next
    case False
    have "sched_ok ?s2 (as @ bs)"
      using ok sl(2) run2 False by (auto simp: sched_ok_def ys(1) split: option.splits)
    then show ?thesis
      by (rule sched_yieldE) (use others zs in auto)
  qed
  then obtain s' y where s': "sched_yield ?s2 = Some (Resume s')" "curenv s' = Some y" "y \<in> set (as @ bs)"
    "sched_ok s' (as @ bs)"
    by blast
  have "sys_ipc_recv junk dstva whom perm s = Some (Resume s')"
    using va c(1) set s'(1) by (simp add: sys_ipc_recv_def Let_def sys_yield_def)
  moreover have "saved ?s2 = (envs s)(c := (waiting dstva whom perm (envs s c))\<lparr>env_tf := exc_tf s\<rparr>)"
    using c(1) by (simp add: saved_def)
  moreover have "mCONTEXT s' = env_pgdir (envs s y)"
    using sched_yield_switched [OF s'(1)] s'(2) by (auto simp: switched_def waiting_def)
  ultimately show ?thesis using s' sched_yield_switched [OF s'(1)] zs by (auto simp: switched_def)
qed

subsection \<open>Properties of messages\<close>

text \<open>Two environments over the directory of \<open>one_space\<close>, with page 4 mapped at \<open>0x400000\<close>;
  the second is in any state of its own.\<close>

definition two_envs :: "env \<Rightarrow> u32 \<Rightarrow> env" where
  "two_envs v = (\<lambda>_. zero_env)(0 := zero_env\<lparr>env_status := ENV_RUNNABLE, env_id := 1, env_pgdir := frame 2064\<rparr>,
     1 := v\<lparr>env_id := 257, env_pgdir := frame 2064\<rparr>)"

lemma two_envs_machine:
  obtains s where "spaces s {2064} [2056, 2052, 2048]" "pp_ref s 4 = 2" "upte s 2064 0x400000 = 0x4000443A"
    "upte s 2064 0x500000 = 0" "envs s = two_envs v" "curenv s = Some cur" "env_sched_list s = sl"
    "sched_iter s = None" "sched_ts s = 0" "env_free_list s = null_lst"
proof -
  obtain t where t: "spaces t {2064} [2056, 2052, 2048]" "pp_ref t 4 = 2" "upte t 2064 0x400000 = 0x4000443A"
    "upte t 2064 0x500000 = 0"
    by (rule one_env_page) blast
  let ?s = "t\<lparr>envs := two_envs v, curenv := Some cur, env_sched_list := sl, sched_iter := None, sched_ts := 0,
    env_free_list := null_lst\<rparr>"
  have "vm_inv ?s {2064} xs = vm_inv t {2064} xs" "upte ?s = upte t" for xs
    by (intro vm_inv_cong; simp)+
  moreover have "\<exists>pd\<in>{2064}. env_pgdir (envs ?s e) = frame pd" if "env_status (envs ?s e) \<noteq> ENV_FREE" for e
    using that by (simp add: two_envs_def zero_env_def env_status_defs split: if_splits)
  ultimately show thesis
    using that [of ?s] t by (simp add: spaces_def)
qed

definition waiter :: env where
  "waiter = zero_env\<lparr>env_status := ENV_NOT_RUNNABLE, env_ipc_recving := 1, env_ipc_dstva := 0x500000\<rparr>"

text \<open>Property C11. A send to an environment that waits. With a null \<open>srcva\<close> the value, the sender
  and the permissions are delivered, the receiver is made runnable at the head of the list, and
  no address space changes; with a mapped \<open>srcva\<close> its page also appears at the address the
  receiver chose, or nothing happens and the result is \<open>-E_INVAL\<close> when a page table is missing
  and memory is short. With an unmapped \<open>srcva\<close> the result is 0 and nothing is sent.\<close>

theorem ipc_send_correct:
  assumes "spaces s D xs" and ys: "lst_rep (env_sched_list s) ys" "e \<notin> set ys"
    and srcva: "\<not> UTOP \<le> srcva" and env: "envid2env envid False s = Some (Inr e)" "curenv s = Some c"
    and recving: "env_ipc_recving (envs s e) \<noteq> 0" and status: "env_status (envs s e) = ENV_NOT_RUNNABLE"
    and c: "env_pgdir (envs s c) = frame cpd" "cpd \<in> D"
    and e: "env_pgdir (envs s e) = frame pd" "pd \<in> D" "env_ipc_dstva (envs s e) < ULIM"
    and ptrs: "out_ptr (env_ipc_arg_whom (envs s e))" "out_ptr (env_ipc_arg_perm (envs s e))"
    and perm: "perm < 0x1000"
    and ref: "valid_pte (upte s cpd srcva) \<Longrightarrow> pp_ref s (pte_page (upte s cpd srcva)) \<noteq> 0xFFFF"
  shows "\<exists>r s' xs'. sys_ipc_can_send envid value srcva perm s = Some (Return r s') \<and> spaces s' D xs' \<and>
    (if srcva \<noteq> 0 \<and> \<not> valid_pte (upte s cpd srcva) then r = Inr 0 \<and> s' = s
     else case r of
       Inl err \<Rightarrow> err = E_INVAL \<and> srcva \<noteq> 0 \<and> xs = [] \<and> same_view s s' D \<and> vm_only s s'
     | Inr v \<Rightarrow> v = 0 \<and> envs s' = (envs s)(e := delivered (env_id (envs s c)) value perm (envs s e)) \<and>
         lst_rep (env_sched_list s') (e # ys) \<and> curenv s' = Some c \<and>
         (if srcva = 0 then same_view s s' D
          else one_entry s s' D pd (env_ipc_dstva (envs s e))
            (page2pa (pte_page (upte s cpd srcva)) OR (perm OR PTE_V))) \<and>
         words_handed s' pd (envs s e) (env_id (envs s c)) perm)"
  using assms by (rule sys_ipc_can_send_ok)

theorem ipc_send_correct_witness:
  "\<exists>s s'. spaces s {2064} [2056, 2052, 2048] \<and> sys_ipc_can_send 257 7 0x400000 PTE_R s = Some (Return (Inr 0) s') \<and>
    envs s' 1 = delivered 1 7 PTE_R (envs s 1) \<and> upte s 2064 0x500000 = 0 \<and> upte s' 2064 0x500000 = 0x4000443A"
proof -
  obtain s where s: "spaces s {2064} [2056, 2052, 2048]" "pp_ref s 4 = 2" "upte s 2064 0x400000 = 0x4000443A"
    "upte s 2064 0x500000 = 0" "envs s = two_envs waiter" "curenv s = Some 0"
    "env_sched_list s = LIST_INSERT_HEAD 0 null_lst"
    by (rule two_envs_machine [of waiter 0 "LIST_INSERT_HEAD 0 null_lst"]) blast
  have p: "pte_page (upte s 2064 0x400000) = 4" "valid_pte (upte s 2064 0x400000)"
    by (simp_all add: s(3) valid_pte_def pte_page_def PPN_def)
  have sl: "lst_rep (env_sched_list s) [0]" "1 \<notin> set [0 :: u32]"
    using ll.rep_push [OF null_lst_rep, of 0] by (simp_all add: s(7))
  have env: "envid2env 257 False s = Some (Inr 1)"
    by (simp add: envid2env_def s(5,6) two_envs_def waiter_def ENVX_def env_status_defs)
  have e: "env_ipc_recving (envs s 1) \<noteq> 0" "env_status (envs s 1) = ENV_NOT_RUNNABLE"
    "env_pgdir (envs s 0) = frame 2064" "env_pgdir (envs s 1) = frame 2064" "env_id (envs s 0) = 1"
    "env_ipc_dstva (envs s 1) = 0x500000" "out_ptr (env_ipc_arg_whom (envs s 1))" "out_ptr (env_ipc_arg_perm (envs s 1))"
    by (simp_all add: s(5) two_envs_def waiter_def out_ptr_def zero_env_def)
  obtain r s' where r: "sys_ipc_can_send 257 7 0x400000 PTE_R s = Some (Return r s')"
    "case r of Inl err \<Rightarrow> False
     | Inr v \<Rightarrow> v = 0 \<and> envs s' = (envs s)(1 := delivered 1 7 PTE_R (envs s 1)) \<and>
         one_entry s s' {2064} 2064 0x500000 (page2pa 4 OR (PTE_R OR PTE_V))"
    using ipc_send_correct [OF s(1) sl _ env s(6) e(1,2,3) _ e(4) _ _ e(7,8), of "0x400000" PTE_R 7] s(2,4) p e(5,6)
    by (fastforce split: sum.splits)
  then show ?thesis
    using s(1,4) by (cases r) (auto simp: one_entry_def same_page_def page2pa_def)
qed

text \<open>Property C12. A receive marks the caller as waiting, takes it off the scheduling list with its
  registers saved, and runs another environment of the list, also when the scheduler's static
  pointer was on the caller.\<close>

theorem ipc_recv_blocks:
  assumes ok: "sched_ok s ys" and c: "curenv s = Some c" "c \<in> set ys" and va: "\<not> UTOP \<le> dstva"
    and others: "remove1 c ys \<noteq> []"
  shows "\<exists>s' y. sys_ipc_recv junk dstva whom perm s = Some (Resume s') \<and> curenv s' = Some y \<and>
    y \<in> set (remove1 c ys) \<and> sched_ok s' (remove1 c ys) \<and>
    envs s' = (envs s)(c := (waiting dstva whom perm (envs s c))\<lparr>env_tf := exc_tf s\<rparr>) \<and>
    kmem s' = kmem s \<and> npage s' = npage s \<and> pp_ref s' = pp_ref s \<and> page_free_list s' = page_free_list s"
  using sys_ipc_recv_ok [OF assms, of junk whom perm] by (elim exE conjE) (intro exI conjI; assumption)

lemma two_runners:
  assumes "envs s = two_envs (zero_env\<lparr>env_status := ENV_RUNNABLE\<rparr>)" "sched_iter s = None" "sched_ts s = 0"
    and "env_sched_list s = LIST_INSERT_HEAD 1 (LIST_INSERT_HEAD 0 null_lst)"
  shows "sched_ok s [1, 0]"
  using ll.rep_push [OF ll.rep_push [OF null_lst_rep, of "0 :: u32"], of 1] assms
  by (simp add: sched_ok_def two_envs_def)

theorem ipc_recv_blocks_witness:
  "\<exists>s s'. sys_ipc_recv 0 0x500000 0 0 s = Some (Resume s') \<and> curenv s = Some 1 \<and> curenv s' = Some 0 \<and>
    env_ipc_recving (envs s' 1) = 1 \<and> env_status (envs s' 1) = ENV_NOT_RUNNABLE"
proof -
  obtain s where "spaces s {2064} [2056, 2052, 2048]"
    and s: "envs s = two_envs (zero_env\<lparr>env_status := ENV_RUNNABLE\<rparr>)" "curenv s = Some 1"
    "env_sched_list s = LIST_INSERT_HEAD 1 (LIST_INSERT_HEAD 0 null_lst)" "sched_iter s = None" "sched_ts s = 0"
    by (rule two_envs_machine [of "zero_env\<lparr>env_status := ENV_RUNNABLE\<rparr>" 1 "LIST_INSERT_HEAD 1 (LIST_INSERT_HEAD 0 null_lst)"]) blast
  obtain s' where "sys_ipc_recv 0 0x500000 0 0 s = Some (Resume s')" "curenv s' = Some 0"
    "env_ipc_recving (envs s' 1) = 1" "env_status (envs s' 1) = ENV_NOT_RUNNABLE"
    using ipc_recv_blocks [OF two_runners [OF s(1,4,5,3)] s(2), of "0x500000" 0 0 0]
    by (auto simp: waiting_def)
  then show ?thesis using s(2) by blast
qed

text \<open>Property C13. A receive by \<open>c\<close> and then a send to it by the environment that runs next: \<open>c\<close>
  is runnable at the head of the list, its return register holds the value, it knows the sender,
  and a second send is refused with \<open>-E_IPC_NOT_RECV\<close> and changes nothing.\<close>

theorem ipc_rendezvous:
  assumes "spaces s D xs" "sched_ok s ys" "curenv s = Some c" "c \<in> set ys" "remove1 c ys \<noteq> []"
    and "\<not> UTOP \<le> dstva" "out_ptr whom" "out_ptr ptr" "perm < 0x1000"
    and "env_id (envs s c) \<noteq> 0" "ENVX (env_id (envs s c)) = c"
  shows "\<exists>s1 y s2 xs'. sys_ipc_recv junk dstva whom ptr s = Some (Resume s1) \<and> curenv s1 = Some y \<and> y \<noteq> c \<and>
    sys_ipc_can_send (env_id (envs s c)) v 0 perm s1 = Some (Return (Inr 0) s2) \<and> spaces s2 D xs' \<and>
    same_view s s2 D \<and> lst_rep (env_sched_list s2) (c # remove1 c ys) \<and>
    env_status (envs s2 c) = ENV_RUNNABLE \<and> regs (env_tf (envs s2 c)) 0 = v \<and> env_ipc_value (envs s2 c) = v \<and>
    env_ipc_from (envs s2 c) = env_id (envs s y) \<and>
    sys_ipc_can_send (env_id (envs s c)) v' srcva perm' s2 =
      Some (Return (Inl (if UTOP \<le> srcva then E_INVAL else E_IPC_NOT_RECV)) s2)"
proof -
  obtain s1 y where s1: "sys_ipc_recv junk dstva whom ptr s = Some (Resume s1)" "curenv s1 = Some y"
    "y \<in> set (remove1 c ys)" "sched_ok s1 (remove1 c ys)"
    "envs s1 = (envs s)(c := (waiting dstva whom ptr (envs s c))\<lparr>env_tf := exc_tf s\<rparr>)"
    "kmem s1 = kmem s \<and> npage s1 = npage s \<and> pp_ref s1 = pp_ref s \<and> page_free_list s1 = page_free_list s"
    using sys_ipc_recv_ok [OF assms(2-4,6,5)] by metis
  have dist: "c \<notin> set (remove1 c ys)"
    using ll.rep_distinct [of _ ys] assms(2) by (auto simp: sched_ok_def)
  then have yc: "y \<noteq> c" using s1(3) by blast
  have run: "env_status (envs s e) = ENV_RUNNABLE" if "e \<in> set ys" for e
    using assms(2) that by (simp add: sched_ok_def)
  have c1: "env_status (envs s1 c) = ENV_NOT_RUNNABLE" "env_id (envs s1 c) = env_id (envs s c)"
    "env_ipc_recving (envs s1 c) = 1" "env_ipc_dstva (envs s1 c) = dstva"
    "env_ipc_arg_whom (envs s1 c) = whom" "env_ipc_arg_perm (envs s1 c) = ptr"
    by (simp_all add: s1(5) waiting_def)
  have vm: "vm_inv s1 D xs = vm_inv s D xs" "upte s1 = upte s"
    using s1(6) by (intro vm_inv_cong; simp)+
  have sp1: "spaces s1 D xs"
    using assms(1) run [OF assms(4)] unfolding spaces_def vm
    by (auto simp: s1(5) waiting_def env_status_defs)
  have env1: "envid2env (env_id (envs s c)) False s1 = Some (Inr c)"
    using assms(10,11) c1(1,2) s1(2) by (simp add: envid2env_def env_status_defs Let_def)
  obtain pd where pd: "pd \<in> D" "env_pgdir (envs s1 c) = frame pd" by (rule spaces_env [OF sp1 env1])
  have "env_status (envs s1 y) = ENV_RUNNABLE" using s1(3,4) by (simp add: sched_ok_def)
  then obtain qd where qd: "qd \<in> D" "env_pgdir (envs s1 y) = frame qd"
    using sp1 by (force simp: spaces_def env_status_defs)
  have rep1: "lst_rep (env_sched_list s1) (remove1 c ys)" using s1(4) by (simp add: sched_ok_def)
  have nn: "env_ipc_recving (envs s1 c) \<noteq> 0" "\<not> UTOP \<le> (0 :: u32)" "env_ipc_dstva (envs s1 c) < ULIM"
    "out_ptr (env_ipc_arg_whom (envs s1 c))" "out_ptr (env_ipc_arg_perm (envs s1 c))"
    using c1 assms(7,8) below_UTOP_ULIM [OF assms(6)] by simp_all
  have pg: "ipc_send_page y c 0 perm s1 = Some (Inr (), s1)" by (simp add: ipc_send_page_def)
  have st: "env_status (envs s1 c) \<noteq> ENV_RUNNABLE" using c1(1) by (simp add: env_status_defs)
  have inv1: "vm_inv s1 D xs" using sp1 by (simp add: spaces_def)
  let ?s2 = "ipc_finish y c pd v perm s1"
  have s2: "sys_ipc_can_send (env_id (envs s c)) v 0 perm s1 = Some (Return (Inr 0) ?s2)"
    by (rule sys_ipc_can_send_eq [OF nn(2) env1 s1(2) nn(1) st pg vm_only_refl inv1 pd(2,1) nn(4,5)])
  have fin: "vm_inv ?s2 D xs" "same_view s1 ?s2 D"
    "envs ?s2 = (envs s1)(c := delivered (env_id (envs s1 y)) v perm (envs s1 c))"
    "env_sched_list ?s2 = LIST_INSERT_HEAD c (env_sched_list s1)" "curenv ?s2 = Some y"
    using ipc_finish_ok [OF inv1 pd(1) nn(4,5), of y v perm] s1(2) by simp_all
  have sp2: "spaces ?s2 D xs"
    using sp1 fin(1) pd by (auto simp: spaces_def fin(3) delivered_def)
  have "lst_rep (env_sched_list ?s2) (c # remove1 c ys)"
    unfolding fin(4) by (rule ll.rep_push [OF rep1 dist])
  moreover have "same_view s ?s2 D" using fin(2) by (simp add: same_view_def vm(2))
  moreover have "env_id (envs s1 y) = env_id (envs s y)" using yc by (simp add: s1(5))
  moreover have "envid2env (env_id (envs s c)) False ?s2 = Some (Inr c)"
    using assms(10,11) c1(2) fin(3,5) by (simp add: envid2env_def env_status_defs Let_def delivered_def)
  then have "sys_ipc_can_send (env_id (envs s c)) v' srcva perm' ?s2 =
      Some (Return (Inl (if UTOP \<le> srcva then E_INVAL else E_IPC_NOT_RECV)) ?s2)"
    by (simp add: sys_ipc_can_send_def fin(3) delivered_def)
  ultimately show ?thesis
    using s1(1,2) yc s2 sp2 fin(3)
    by (intro exI [of _ s1] exI [of _ y] exI [of _ ?s2] exI [of _ xs]) (simp add: delivered_def)
qed

theorem ipc_rendezvous_witness:
  "\<exists>s s1 s2. sys_ipc_recv 0 0x500000 0 0 s = Some (Resume s1) \<and> curenv s = Some 1 \<and>
    sys_ipc_can_send 257 7 0 0 s1 = Some (Return (Inr 0) s2) \<and> regs (env_tf (envs s2 1)) 0 = 7"
proof -
  obtain s where s: "spaces s {2064} [2056, 2052, 2048]"
    "envs s = two_envs (zero_env\<lparr>env_status := ENV_RUNNABLE\<rparr>)" "curenv s = Some 1"
    "env_sched_list s = LIST_INSERT_HEAD 1 (LIST_INSERT_HEAD 0 null_lst)" "sched_iter s = None" "sched_ts s = 0"
    by (rule two_envs_machine [of "zero_env\<lparr>env_status := ENV_RUNNABLE\<rparr>" 1 "LIST_INSERT_HEAD 1 (LIST_INSERT_HEAD 0 null_lst)"]) blast
  have "env_id (envs s 1) = 257" by (simp add: s(2) two_envs_def)
  then obtain s1 s2 where "sys_ipc_recv 0 0x500000 0 0 s = Some (Resume s1)"
    "sys_ipc_can_send 257 7 0 0 s1 = Some (Return (Inr 0) s2)" "regs (env_tf (envs s2 1)) 0 = 7"
    using ipc_rendezvous [OF s(1) two_runners [OF s(2,5,6,4)] s(3), of "0x500000" 0 0 0 0 7 0 0 0]
    by (auto simp: out_ptr_def ENVX_def)
  then show ?thesis using s(3) by blast
qed

end
