(* ===== verification/Release.thy ===== *)
theory Release
  imports Messages
begin

section \<open>Releasing an environment: proofs\<close>

text \<open>
  \<open>env_free\<close> walks the tables of an environment, drops one reference of every page it maps,
  of every table and of the directory, and frees those that had no other. The proofs count
  references exactly: \<open>released s s' \<dots> S T\<close> says that from \<open>s\<close> to \<open>s'\<close> the entries \<open>S\<close> and the
  tables \<open>T\<close> of the directory \<open>pd\<close> were released and nothing else happened to the tables.
\<close>

subsection \<open>Counting references\<close>

definition entry_refs :: "(u32 \<times> u32 \<times> u32 \<Rightarrow> u32) \<Rightarrow> (u32 \<times> u32 \<times> u32) set \<Rightarrow> u32 \<Rightarrow> nat" where
  "entry_refs M S p = card {x \<in> S. valid_pte (M x) \<and> pte_page (M x) = p}"

definition table_refs :: "(u32 \<Rightarrow> u32) \<Rightarrow> u32 set \<Rightarrow> u32 \<Rightarrow> nat" where
  "table_refs P T p = card {k \<in> T. P k \<noteq> 0 \<and> pte_page (P k) = p}"

definition released :: "kstate \<Rightarrow> kstate \<Rightarrow> u32 set \<Rightarrow> u32 list \<Rightarrow> u32 list \<Rightarrow> u32
    \<Rightarrow> (u32 \<times> u32 \<times> u32) set \<Rightarrow> u32 set \<Rightarrow> bool" where
  "released s s' D xs xs' pd S T \<longleftrightarrow> vm_inv s' D xs' \<and> vm_only s s' \<and>
     (\<forall>d\<in>D. \<forall>i<0x800. pde s' d i = (if d = pd \<and> i \<in> T then 0 else pde s d i)) \<and>
     (\<forall>x\<in>all_slots D. if x \<in> S then \<not> valid_pte (pte_at s' x) else pte_at s' x = pte_at s x) \<and>
     (\<forall>p. unat (pp_ref s' p) + entry_refs (pte_at s) S p + table_refs (pde s pd) T p = unat (pp_ref s p)) \<and>
     set xs' = set xs \<union> {p. pp_ref s p \<noteq> 0 \<and> pp_ref s' p = 0}"

lemma refs_empty [simp]: "entry_refs M {} p = 0" "table_refs P {} p = 0"
  by (simp_all add: entry_refs_def table_refs_def)

lemma released_refl: "vm_inv s D xs \<Longrightarrow> released s s D xs xs pd {} {}"
  by (simp add: released_def entry_refs_def table_refs_def)

lemma card_parts:
  assumes "finite (S \<union> S')" "S \<inter> S' = {}" and "\<And>x. x \<in> S' \<Longrightarrow> Q' x = Q x"
  shows "card {x \<in> S \<union> S'. Q x} = card {x \<in> S. Q x} + card {x \<in> S'. Q' x}"
proof -
  have "{x \<in> S'. Q' x} = {x \<in> S'. Q x}" using assms(3) by (intro Collect_cong) (simp cong: conj_cong)
  moreover have "{x \<in> S \<union> S'. Q x} = {x \<in> S. Q x} \<union> {x \<in> S'. Q x}" by blast
  moreover have "card ({x \<in> S. Q x} \<union> {x \<in> S'. Q x}) = card {x \<in> S. Q x} + card {x \<in> S'. Q x}"
    by (rule card_Un_disjoint) (use assms(1,2) in auto)
  ultimately show ?thesis by simp
qed

lemma entry_refs_Un:
  assumes "S \<inter> S' = {}" and "\<And>x. x \<in> S' \<Longrightarrow> M' x = M x"
  shows "entry_refs M (S \<union> S') p = entry_refs M S p + entry_refs M' S' p"
  unfolding entry_refs_def
  by (rule card_parts [OF finite assms(1)]) (simp add: assms(2))

lemma table_refs_Un:
  assumes "T \<inter> T' = {}" and "\<And>k. k \<in> T' \<Longrightarrow> P' k = P k"
  shows "table_refs P (T \<union> T') p = table_refs P T p + table_refs P' T' p"
  unfolding table_refs_def
  by (rule card_parts [OF finite assms(1)]) (simp add: assms(2))

lemma releasedD:
  assumes "released s s' D xs xs' pd S T"
  shows "vm_inv s' D xs'" "vm_only s s'"
    "d \<in> D \<Longrightarrow> i < 0x800 \<Longrightarrow> pde s' d i = (if d = pd \<and> i \<in> T then 0 else pde s d i)"
    "x \<in> all_slots D \<Longrightarrow> if x \<in> S then \<not> valid_pte (pte_at s' x) else pte_at s' x = pte_at s x"
    "unat (pp_ref s' p) + entry_refs (pte_at s) S p + table_refs (pde s pd) T p = unat (pp_ref s p)"
    "set xs' = set xs \<union> {p. pp_ref s p \<noteq> 0 \<and> pp_ref s' p = 0}"
  using assms unfolding released_def by simp_all

lemma released_le: "released s s' D xs xs' pd S T \<Longrightarrow> pp_ref s' p \<noteq> 0 \<Longrightarrow> pp_ref s p \<noteq> 0"
  by (drule releasedD(5) [where p = p]) (auto simp: unat_eq_zero)

lemma released_trans:
  assumes st: "released s t D xs ys pd S T" and tu: "released t u D ys zs pd S' T'"
    and pd: "pd \<in> D" and S: "S' \<subseteq> all_slots D" "S \<inter> S' = {}" and T: "T' \<subseteq> {i. i < 0x800}" "T \<inter> T' = {}"
  shows "released s u D xs zs pd (S \<union> S') (T \<union> T')"
proof -
  note s = releasedD [OF st] and t = releasedD [OF tu]
  have pte: "pte_at t x = pte_at s x" if "x \<in> S'" for x
  proof -
    have "x \<in> all_slots D" "x \<notin> S" using that S by auto
    then show ?thesis using s(4) by simp
  qed
  have pd': "pde t pd k = pde s pd k" if "k \<in> T'" for k
  proof -
    have "k < 0x800" "k \<notin> T" using that T by auto
    then show ?thesis using s(3) [OF pd] by simp
  qed
  have refs: "unat (pp_ref u p) + entry_refs (pte_at s) (S \<union> S') p + table_refs (pde s pd) (T \<union> T') p
      = unat (pp_ref s p)" for p
    using s(5) [of p] t(5) [of p] entry_refs_Un [OF S(2), of "pte_at t" "pte_at s" p] pte
      table_refs_Un [OF T(2), of "pde t pd" "pde s pd" p] pd' by simp
  have zs: "set zs = set xs \<union> {p. pp_ref s p \<noteq> 0 \<and> pp_ref u p = 0}"
    unfolding t(6) s(6) using released_le [OF st] released_le [OF tu] by blast
  have "pde u d i = (if d = pd \<and> i \<in> T \<union> T' then 0 else pde s d i)" if "d \<in> D" "i < 0x800" for d i
    using s(3) [OF that] t(3) [OF that] by (cases "d = pd"; cases "i \<in> T"; cases "i \<in> T'") simp_all
  moreover have "if x \<in> S \<union> S' then \<not> valid_pte (pte_at u x) else pte_at u x = pte_at s x"
    if "x \<in> all_slots D" for x
    using s(4) [OF that] t(4) [OF that] by (auto split: if_splits)
  ultimately show ?thesis
    using t(1) refs zs vm_only_trans [OF s(2) t(2)] by (simp add: released_def)
qed

subsection \<open>The entries of one table\<close>

definition row :: "u32 \<Rightarrow> u32 \<Rightarrow> nat \<Rightarrow> (u32 \<times> u32 \<times> u32) set" where
  "row pd k n = {(pd, k, j) | j. unat j < n}"

lemma row_0: "row pd k 0 = {}"
  by (simp add: row_def)

lemma row_Suc: "n < 256 \<Longrightarrow> row pd k (Suc n) = row pd k n \<union> {(pd, k, of_nat n)}"
  by (auto simp: row_def less_Suc_eq unat_of_nat_u32 word_unat_eq_iff)

lemma va_of_indices:
  assumes "k < 0x800" "n < 256"
  shows "slot_of pd (push_bit 20 k OR push_bit 12 (of_nat n)) = (pd, k, of_nat n)"
    and "push_bit 20 k OR push_bit 12 (of_nat n) < ULIM"
proof -
  let ?va = "push_bit 20 k OR push_bit 12 (of_nat n :: u32)"
  have k: "unat k < 2048" using unat_lessI [OF assms(1)] by simp
  have n: "unat (push_bit 12 (of_nat n :: u32)) = n * 4096"
    using assms(2) unat_push12 [of "of_nat n"] by (simp add: unat_of_nat_u32 word_less_nat_alt)
  have k20: "unat (push_bit 20 k) = unat k * 1048576"
    using k by (simp add: push_bit_eq_mult unat_word_ariths)
  have "push_bit 20 k AND push_bit 12 (of_nat n) = 0"
  proof (rule bit_word_eqI)
    fix i
    have "\<not> bit (of_nat n :: u32) (i - 12)" if "20 \<le> i"
    proof -
      have "of_nat n = take_bit 8 (of_nat n :: u32)"
        using assms(2) by (simp add: word_unat_eq_iff unsigned_take_bit_eq unat_of_nat_u32 take_bit_nat_eq_self)
      then have "i - 12 < 8" if "bit (of_nat n :: u32) (i - 12)"
        using that by (metis bit_take_bit_iff)
      then show ?thesis using that by fastforce
    qed
    then show "bit (push_bit 20 k AND push_bit 12 (of_nat n)) i = bit 0 i"
      by (auto simp: bit_simps)
  qed
  then have "?va = push_bit 20 k + push_bit 12 (of_nat n)" by (simp add: disjunctive_add_eq_or)
  then have va: "unat ?va = unat k * 1048576 + n * 4096"
    using k assms(2) by (simp add: unat_word_ariths n k20)
  then show "?va < ULIM" using k assms(2) by (simp add: word_less_nat_alt)
  have "PDX ?va = k" using assms(2) by (simp add: word_unat_eq_iff unat_PDX va)
  moreover have "PTX ?va = of_nat n"
    using assms(2) by (simp add: word_unat_eq_iff unat_PTX va unat_of_nat_u32)
  ultimately show "slot_of pd ?va = (pd, k, of_nat n)" by (simp add: slot_of_def)
qed

lemma env_free_pte_ok:
  assumes inv: "vm_inv s D xs" and pd: "pd \<in> D" "env_pgdir (envs s e) = frame pd"
    and k: "k < 0x800" "pde s pd k \<noteq> 0" "pt = frame (pte_page (pde s pd k))" and n: "n < 256"
  shows "\<exists>s' xs'. env_free_pte e k pt (of_nat n) s = Some s' \<and> released s s' D xs xs' pd {(pd, k, of_nat n)} {}"
proof -
  let ?va = "push_bit 20 k OR push_bit 12 (of_nat n :: u32)"
  note va = va_of_indices [OF k(1) n]
  have entry: "load32 (kmem s) (pt + 4 * of_nat n) = upte s pd ?va"
    by (simp add: upte_def va(1) pte_at.simps k(2,3))
  show ?thesis
  proof (cases "valid_pte (upte s pd ?va)")
    case False
    then have "\<not> valid_pte (pte_at s (pd, k, of_nat n))" by (simp add: upte_def va(1))
    then have "released s s D xs xs pd {(pd, k, of_nat n)} {}"
      using inv by (auto simp: released_def entry_refs_def table_refs_def)
    then show ?thesis using False by (auto simp: env_free_pte_def entry valid_pte_def)
  next
    case True
    let ?p = "pte_page (upte s pd ?va)"
    obtain s' where s': "page_remove (frame pd) ?va s = Some s'"
      "vm_inv s' D (if pp_ref s ?p = 1 then ?p # xs else xs)" "pp_ref s' = (pp_ref s)(?p := pp_ref s ?p - 1)"
      "\<And>d i. d \<in> D \<Longrightarrow> i < 0x800 \<Longrightarrow> pde s' d i = pde s d i"
      "\<And>x. x \<in> all_slots D \<Longrightarrow> pte_at s' x = ((pte_at s)(slot_of pd ?va := 0)) x"
      using page_removeE [OF inv pd(1) va(2) True refl] by metis
    have "live_page (npage s) (pp_ref s) ?p"
      using vm_wf_mapped(1) [OF vm_invD(2) [OF inv] slot_of_all [OF pd(1) va(2)]] True by (simp add: upte_def)
    then have ref: "pp_ref s ?p \<noteq> 0" by (rule live_page_simps(4))
    have "{x. x = (pd, k, of_nat n) \<and> valid_pte (pte_at s x) \<and> pte_page (pte_at s x) = p} =
        (if p = ?p then {(pd, k, of_nat n)} else {})" for p
      using True by (auto simp: upte_def va(1))
    then have refs: "entry_refs (pte_at s) {(pd, k, of_nat n)} p = (if p = ?p then 1 else 0)" for p
      by (simp add: entry_refs_def)
    have "unat (pp_ref s' p) + (if p = ?p then 1 else 0) = unat (pp_ref s p)" for p
      using ref by (simp add: s'(3) unat_dec unat_gt_0)
    moreover have "pp_ref s ?p = 1 \<longleftrightarrow> pp_ref s' ?p = 0" by (simp add: s'(3))
    then have "set (if pp_ref s ?p = 1 then ?p # xs else xs) = set xs \<union> {p. pp_ref s p \<noteq> 0 \<and> pp_ref s' p = 0}"
      using ref by (auto simp: s'(3))
    ultimately have "released s s' D xs (if pp_ref s ?p = 1 then ?p # xs else xs) pd {(pd, k, of_nat n)} {}"
      using s'(2,4,5) vm_only_page_remove [OF s'(1)] unfolding released_def refs
      by (auto simp: table_refs_def va(1))
    then show ?thesis using s'(1) True pd(2) by (auto simp: env_free_pte_def entry valid_pte_def)
  qed
qed

lemma env_free_ptes_ok:
  assumes inv: "vm_inv s D xs" and pd: "pd \<in> D" "env_pgdir (envs s e) = frame pd"
    and k: "k < 0x800" "pde s pd k \<noteq> 0" "pt = frame (pte_page (pde s pd k))" and n: "n \<le> 256"
  shows "\<exists>s' xs'. foldM (\<lambda>j. env_free_pte e k pt (of_nat j)) [0..<n] s = Some s' \<and>
    released s s' D xs xs' pd (row pd k n) {}"
  using n
proof (induction n)
  case 0
  then show ?case using released_refl [OF inv] by (auto simp: row_0)
next
  case (Suc n)
  then obtain t ys where t: "foldM (\<lambda>j. env_free_pte e k pt (of_nat j)) [0..<n] s = Some t"
    "released s t D xs ys pd (row pd k n) {}"
    by auto
  note rt = releasedD [OF t(2)]
  have pde: "pde t pd k = pde s pd k" using rt(3) [OF pd(1) k(1)] by simp
  have "env_pgdir (envs t e) = frame pd" using pd(2) vm_onlyD(1) [OF rt(2)] by simp
  then obtain s' xs' where s': "env_free_pte e k pt (of_nat n) t = Some s'"
    "released t s' D ys xs' pd {(pd, k, of_nat n)} {}"
    using env_free_pte_ok [OF rt(1) pd(1), of e k pt n] k pde Suc.prems by auto
  have n: "n < 256" using Suc.prems by simp
  have "(of_nat n :: u32) < 0x100" using n by (simp add: word_less_nat_alt unat_of_nat_u32)
  then have "{(pd, k, of_nat n)} \<subseteq> all_slots D" using pd k by (simp add: all_slots_def)
  moreover have "row pd k n \<inter> {(pd, k, of_nat n)} = {}"
    using n by (auto simp: row_def unat_of_nat_u32)
  ultimately have "released s s' D xs xs' pd (row pd k n \<union> {(pd, k, of_nat n)}) ({} \<union> {})"
    by (intro released_trans [OF t(2) s'(2) pd(1)]) auto
  then have "released s s' D xs xs' pd (row pd k (Suc n)) {}" using row_Suc [OF n] by simp
  then show ?case using t(1) s'(1) by (auto simp: foldM_snoc)
qed

subsection \<open>A table and its directory entry\<close>

lemma vm_wf_clear_table:
  assumes wf: "vm_wf n R D P M" and pd: "pd \<in> D" "k < 0x800" "P pd k \<noteq> 0" "pte_page (P pd k) = q"
    and empty: "\<And>j. j < 0x100 \<Longrightarrow> \<not> valid_pte (M (pd, k, j))"
    and M': "\<And>x. x \<in> all_slots D \<Longrightarrow> M' x = (if fst x = pd \<and> fst (snd x) = k then 0 else M x)"
    and R': "\<And>p. p \<noteq> q \<Longrightarrow> R' p = R p"
  shows "vm_wf n R' D (P(pd := (P pd)(k := 0))) M'"
proof -
  let ?P = "P(pd := (P pd)(k := 0))"
  from wf pd(1,2,3) obtain t where q: "q \<notin> D" "q \<in> tables_of P D"
    by (rule vm_wf_tableE) (use pd(4) in simp)
  have other: "q' \<noteq> q" if "d \<in> D" "i < 0x800" "P d i \<noteq> 0" "\<not> (d = pd \<and> i = k)" "pte_page (P d i) = q'" for d i q'
    using vm_wf_unique [OF wf pd(1,2) that(1,2) pd(3) that(3)] that(4,5) pd(4) by auto
  have tabs: "tables_of ?P D \<subseteq> tables_of P D"
    by (auto simp: tables_of_def split: if_splits)
  have slots: "pte_page (M x) \<noteq> q" if "x \<in> all_slots D" "valid_pte (M x)" for x
    using vm_wf_mapped(2) [OF wf that] q(2) by auto
  have val: "valid_pte (M' x) \<longleftrightarrow> valid_pte (M x)" "valid_pte (M x) \<Longrightarrow> M' x = M x" if x: "x \<in> all_slots D" for x
  proof -
    obtain d i j where d: "x = (d, i, j)" "j < 0x100" using x by (auto simp: all_slots_def)
    show "valid_pte (M' x) \<longleftrightarrow> valid_pte (M x)" "valid_pte (M x) \<Longrightarrow> M' x = M x"
      using M' [OF x] empty [OF d(2)] by (auto simp: d(1))
  qed
  show ?thesis
  proof (rule vm_wfI)
    show "live_page n R' d" if "d \<in> D" for d
      using vm_wf_dir [OF wf that] R' [of d] q(1) that by (cases "d = q") (auto simp: live_page_def)
    show "\<exists>p. ?P d i = page2pa p OR PDE_PAGE_TABLE \<and> live_page n R' p \<and> p \<notin> D"
      if "d \<in> D" "i < 0x800" "?P d i \<noteq> 0" for d i
    proof -
      have nz: "P d i \<noteq> 0" "\<not> (d = pd \<and> i = k)" "?P d i = P d i" using that(3) by (auto split: if_splits)
      from wf that(1,2) nz(1) obtain p where p: "P d i = page2pa p OR PDE_PAGE_TABLE" "live_page n R p" "p \<notin> D"
        "pte_page (P d i) = p"
        by (rule vm_wf_tableE)
      then have "R' p = R p" using other [OF that(1,2) nz(1,2)] R' by simp
      then show ?thesis using p nz(3) by (intro exI [of _ p]) (simp add: live_page_def)
    qed
    show "pd2 = pd1 \<and> i2 = i1"
      if "pd1 \<in> D" "i1 < 0x800" "pd2 \<in> D" "i2 < 0x800" "?P pd1 i1 \<noteq> 0" "?P pd2 i2 = ?P pd1 i1" for pd1 i1 pd2 i2
    proof -
      have "P pd1 i1 \<noteq> 0" "P pd2 i2 = P pd1 i1" using that(5,6) by (auto split: if_splits)
      then show ?thesis using wf that(1-4) unfolding vm_wf_def by blast
    qed
    show "unit_page (pte_page (M' x)) \<and> pte_page (M' x) < n \<and> pte_page (M' x) \<notin> D \<and>
      pte_page (M' x) \<notin> tables_of ?P D" if "x \<in> all_slots D" "valid_pte (M' x)" for x
      using vm_wf_mapped [OF wf that(1)] that val [OF that(1)] tabs by (auto simp: live_page_def)
    show "card (mappings M' D p) \<le> unat (R' p)" for p
    proof -
      have eq: "mappings M' D p = mappings M D p" using val by (auto simp: mappings_def)
      have "card (mappings M D p) \<le> unat (R p)" using wf by (simp add: vm_wf_def)
      moreover have "mappings M D q = {}" using slots by (auto simp: mappings_def)
      then have "card (mappings M D q) = 0" by (simp only: card.empty)
      ultimately show ?thesis unfolding eq using R' [of p] by (cases "p = q") simp_all
    qed
  qed
qed

text \<open>The last reference of a page goes, and with it the page goes to the free list.\<close>

lemma page_decref_ok:
  assumes "alloc_inv s xs" "unit_page q" "q < npage s" "pp_ref s q \<noteq> 0"
  shows "\<exists>s'. page_decref (Some q) s = Some s' \<and> alloc_inv s' (if pp_ref s q = 1 then q # xs else xs) \<and>
    kmem s' = kmem s \<and> pp_ref s' = (pp_ref s)(q := pp_ref s q - 1) \<and> vm_only s s'"
proof -
  have q: "q \<notin> set xs" using assms(4) alloc_inv_unit [OF assms(1)] by auto
  show ?thesis
  proof (cases "pp_ref s q = 1")
    case True
    obtain s' where "page_decref (Some q) s = Some s'" "alloc_inv s' (q # xs)"
      "s' = s\<lparr>pp_ref := (pp_ref s)(q := 0), page_free_list := LIST_INSERT_HEAD q (page_free_list s)\<rparr>"
      using page_decref_last [OF assms(1) q assms(2,3) True] by blast
    then show ?thesis using True by (simp add: vm_only_def)
  next
    case False
    then show ?thesis
      using page_decref_shared [OF False] alloc_inv_set_ref [OF assms(1) q] by (simp add: vm_only_def)
  qed
qed

lemma row_slots: "pd \<in> D \<Longrightarrow> k < 0x800 \<Longrightarrow> n \<le> 256 \<Longrightarrow> row pd k n \<subseteq> all_slots D"
  by (auto simp: row_def all_slots_def word_less_nat_alt)

lemma row_256: "x \<in> all_slots D \<Longrightarrow> x \<in> row pd k 256 \<longleftrightarrow> fst x = pd \<and> fst (snd x) = k"
  by (auto simp: row_def all_slots_def word_less_nat_alt)

lemma released_empty:
  assumes "vm_inv s D xs" "pde s pd k = 0"
  shows "released s s D xs xs pd (row pd k 256) {k}"
proof -
  have "pte_at s x = 0" if "x \<in> row pd k 256" for x
    using that assms(2) by (auto simp: row_def pte_at.simps)
  then have "{x \<in> row pd k 256. valid_pte (pte_at s x) \<and> pte_page (pte_at s x) = p} = {}"
    "\<forall>x\<in>row pd k 256. \<not> valid_pte (pte_at s x)" for p
    by auto
  moreover have "{i. i = k \<and> pde s pd i \<noteq> 0 \<and> pte_page (pde s pd i) = p} = {}" for p
    using assms(2) by auto
  ultimately show ?thesis using assms by (simp add: released_def entry_refs_def table_refs_def)
qed

lemma env_free_pde_ok:
  assumes inv: "vm_inv s D xs" and pd: "pd \<in> D" "env_pgdir (envs s e) = frame pd" and k: "k < 0x800"
  shows "\<exists>s' xs'. env_free_pde e k s = Some s' \<and> released s s' D xs xs' pd (row pd k 256) {k}"
proof (cases "pde s pd k = 0")
  case True
  then have "env_free_pde e k s = Some s" using pd(2) by (simp add: env_free_pde_def pde_def)
  then show ?thesis using released_empty [OF inv True] by blast
next
  case False
  note wf = vm_invD(2) [OF inv]
  from wf pd(1) k False obtain q where q: "pde s pd k = page2pa q OR PDE_PAGE_TABLE"
    "live_page (npage s) (pp_ref s) q" "q \<notin> D" "pte_page (pde s pd k) = q" "q \<in> tables_of (pde s) D"
    by (rule vm_wf_tableE)
  note lq = live_page_simps [OF q(2)]
  have "pde s pd k AND PTE_V = PDE_PAGE_TABLE AND PTE_V" unfolding q(1) by (rule entry_flags) simp_all
  then have valid: "load32 (kmem s) (frame pd + 4 * k) AND PTE_V \<noteq> 0" by (simp add: pde_def)
  have pa: "PTE_ADDR (load32 (kmem s) (frame pd + 4 * k)) = page2pa q"
    using q(1) by (simp only: pde_def) (rule PTE_ADDR_table)
  obtain t ys where t: "foldM (\<lambda>j. env_free_pte e k (frame q) (of_nat j)) [0..<256] s = Some t"
    "released s t D xs ys pd (row pd k 256) {}"
    using env_free_ptes_ok [OF inv pd k False refl, of 256] q(4) by auto
  note rt = releasedD [OF t(2)] and only = vm_onlyD [OF releasedD(2) [OF t(2)]]
  have pdet: "pde t d i = pde s d i" if "d \<in> D" "i < 0x800" for d i using rt(3) [OF that] by simp
  have invalid: "\<not> valid_pte (pte_at t x)" if "x \<in> row pd k 256" for x
    using rt(4) [of x] row_slots [OF pd(1) k, of 256] that by auto
  have qlive: "live_page (npage t) (pp_ref t) q" "q \<notin> D"
  proof -
    have "tables_of (pde t) D = tables_of (pde s) D" by (rule tables_of_cong) (rule pdet)
    then have "q \<in> tables_of (pde t) D" using q(5) by simp
    then show "live_page (npage t) (pp_ref t) q" "q \<notin> D"
      using vm_wf_tables [OF vm_invD(2) [OF rt(1)]] by blast+
  qed
  define u where "u = t\<lparr>kmem := store32 (kmem t) (frame pd + 4 * k) 0\<rparr>"
  have "alloc_inv u ys" using vm_invD(1) [OF rt(1)] alloc_inv_cong [of u t ys] by (simp add: u_def)
  then obtain s' where s': "page_decref (Some q) u = Some s'"
    "alloc_inv s' (if pp_ref t q = 1 then q # ys else ys)" "kmem s' = kmem u"
    "pp_ref s' = (pp_ref t)(q := pp_ref t q - 1)" "vm_only u s'"
    using page_decref_ok [of u ys q] live_page_simps [OF qlive(1)] by (auto simp: u_def)
  have np: "npage s' = npage t" using vm_onlyD(4) [OF s'(5)] by (simp add: u_def)
  have up: "unit_page pd" using vm_wf_dir [OF wf pd(1)] by (simp add: live_page_def)
  have pde': "pde s' d i = (if d = pd \<and> i = k then 0 else pde s d i)" if "d \<in> D" "i < 0x800" for d i
  proof -
    have "unit_page d" using vm_wf_dir [OF wf that(1)] by (simp add: live_page_def)
    then show ?thesis
      using up dir_entry_simps(1) [of d i] dir_entry_simps(1) [OF up k] that(2) pdet [OF that]
      by (simp add: pde_def s'(3) u_def load_store_entry)
  qed
  have pte': "pte_at s' x = (if fst x = pd \<and> fst (snd x) = k then 0 else pte_at t x)" if "x \<in> all_slots D" for x
  proof -
    obtain d i j where x: "x = (d, i, j)" "d \<in> D" "i < 0x800" "j < 0x100"
      using \<open>x \<in> all_slots D\<close> by (auto simp: all_slots_def)
    show ?thesis
    proof (cases "d = pd \<and> i = k \<or> pde s d i = 0")
      case True
      then show ?thesis using pde' [OF x(2,3)] pdet [OF x(2,3)] by (auto simp: x(1) pte_at.simps)
    next
      case not: False
      from wf x(2,3) obtain b where b: "pte_page (pde s d i) = b" "live_page (npage s) (pp_ref s) b" "b \<notin> D"
        by (rule vm_wf_tableE) (use not in auto)
      then have "unit_page b" "b \<noteq> pd" using pd(1) by (auto simp: live_page_def)
      then show ?thesis
        using not b up dir_entry_simps(1) [OF up k] dir_entry_simps(2) [OF x(4)] pde' [OF x(2,3)] pdet [OF x(2,3)]
        by (auto simp: x(1) pte_at.simps s'(3) u_def load_store_entry)
    qed
  qed
  have "vm_wf (npage t) (pp_ref s') D ((pde t)(pd := (pde t pd)(k := 0))) (pte_at s')"
  proof (rule vm_wf_clear_table [OF vm_invD(2) [OF rt(1)] pd(1) k _ _ _ pte'])
    show "pde t pd k \<noteq> 0" "pte_page (pde t pd k) = q" using False q(4) pdet [OF pd(1) k] by simp_all
    show "\<not> valid_pte (pte_at t (pd, k, j))" if "j < 0x100" for j
      using that by (intro invalid) (simp add: row_def word_less_nat_alt)
  qed (simp_all add: s'(4))
  moreover have "vm_wf (npage t) (pp_ref s') D (pde s') (pte_at s') =
      vm_wf (npage t) (pp_ref s') D ((pde t)(pd := (pde t pd)(k := 0))) (pte_at s')"
    by (rule vm_wf_cong) (auto simp: pde' pdet)
  ultimately have "vm_wf (npage s') (pp_ref s') D (pde s') (pte_at s')" by (simp add: np)
  then have inv': "vm_inv s' D (if pp_ref t q = 1 then q # ys else ys)"
    using s'(2) by (simp add: vm_inv_def)
  have refs: "table_refs (pde s pd) {k} p = (if p = q then 1 else 0)" for p
  proof -
    have "{i. i = k \<and> pde s pd i \<noteq> 0 \<and> pte_page (pde s pd i) = p} = (if p = q then {k} else {})"
      using False q(4) by auto
    then show ?thesis by (simp add: table_refs_def)
  qed
  have unat: "unat (pp_ref s' p) + (if p = q then 1 else 0) = unat (pp_ref t p)" for p
    using live_page_simps(4) [OF qlive(1)] by (simp add: s'(4) unat_dec unat_gt_0)
  have xs': "set (if pp_ref t q = 1 then q # ys else ys) = set xs \<union> {p. pp_ref s p \<noteq> 0 \<and> pp_ref s' p = 0}"
  proof -
    have "pp_ref t q = 1 \<longleftrightarrow> pp_ref s' q = 0" by (simp add: s'(4))
    then have "set (if pp_ref t q = 1 then q # ys else ys) = set ys \<union> {p. pp_ref t p \<noteq> 0 \<and> pp_ref s' p = 0}"
      using live_page_simps(4) [OF qlive(1)] by (auto simp: s'(4))
    moreover have "pp_ref s' p \<noteq> 0 \<Longrightarrow> pp_ref t p \<noteq> 0" for p using unat [of p] by (auto simp: unat_eq_zero)
    ultimately show ?thesis using rt(6) released_le [OF t(2)] by blast
  qed
  have "vm_only s s'"
    using vm_only_trans [OF rt(2)] vm_only_trans [of t u s'] s'(5) by (simp add: u_def)
  moreover have "unat (pp_ref s' p) + entry_refs (pte_at s) (row pd k 256) p + table_refs (pde s pd) {k} p = unat (pp_ref s p)"
    for p
    using unat [of p] rt(5) [of p] by (cases "p = q") (simp_all add: refs)
  moreover have "if x \<in> row pd k 256 then \<not> valid_pte (pte_at s' x) else pte_at s' x = pte_at s x"
    if "x \<in> all_slots D" for x
    using pte' [OF that] rt(4) [OF that] row_256 [OF that] by simp
  ultimately have "released s s' D xs (if pp_ref t q = 1 then q # ys else ys) pd (row pd k 256) {k}"
    using inv' pde' xs' by (simp add: released_def)
  moreover have "env_free_pde e k s = Some s'"
  proof -
    have "KADDR (npage s) (page2pa q) = Some (frame q)" using KADDR_page2pa [OF lq(2)] lq(3) by simp
    moreover have "env_pgdir (envs t e) = frame pd" using pd(2) only(1) by simp
    moreover have "pa2page (page2pa q) u = Some q"
      using pa2page_entry [of "page2pa q OR 0" u] pte_page_entry [OF lq(2), of 0] lq(3) only(4) by (simp add: u_def)
    ultimately show ?thesis
      using valid pa t(1) s'(1) pd(2) by (simp add: env_free_pde_def Let_def u_def)
  qed
  ultimately show ?thesis by blast
qed

subsection \<open>The whole environment\<close>

definition below :: "nat \<Rightarrow> u32 set" where
  "below n = {i. unat i < n}"

definition rows :: "u32 \<Rightarrow> nat \<Rightarrow> (u32 \<times> u32 \<times> u32) set" where
  "rows pd n = {(pd, i, j) | i j. unat i < n \<and> unat j < 256}"

lemma rows_0: "rows pd 0 = {}" "below 0 = {}"
  by (simp_all add: rows_def below_def)

lemma rows_Suc:
  assumes "n < 2048"
  shows "rows pd (Suc n) = rows pd n \<union> row pd (of_nat n) 256" "below (Suc n) = below n \<union> {of_nat n}"
    "rows pd n \<inter> row pd (of_nat n) 256 = {}" "below n \<inter> {of_nat n} = {}"
proof -
  have n: "unat i < Suc n \<longleftrightarrow> unat i < n \<or> i = of_nat n" for i :: u32
    using assms by (auto simp: less_Suc_eq word_unat_eq_iff unat_of_nat_u32)
  show "rows pd (Suc n) = rows pd n \<union> row pd (of_nat n) 256" "below (Suc n) = below n \<union> {of_nat n}"
    by (auto simp: rows_def row_def below_def n)
  show "rows pd n \<inter> row pd (of_nat n) 256 = {}" "below n \<inter> {of_nat n} = {}"
    using assms by (auto simp: rows_def row_def below_def unat_of_nat_u32)
qed

lemma env_free_pdes_ok:
  assumes inv: "vm_inv s D xs" and pd: "pd \<in> D" "env_pgdir (envs s e) = frame pd" and n: "n \<le> 2048"
  shows "\<exists>s' xs'. foldM (\<lambda>k. env_free_pde e (of_nat k)) [0..<n] s = Some s' \<and>
    released s s' D xs xs' pd (rows pd n) (below n)"
  using n
proof (induction n)
  case 0
  then show ?case using released_refl [OF inv] by (auto simp: rows_0)
next
  case (Suc n)
  then obtain t ys where t: "foldM (\<lambda>k. env_free_pde e (of_nat k)) [0..<n] s = Some t"
    "released s t D xs ys pd (rows pd n) (below n)"
    by auto
  note rt = releasedD [OF t(2)]
  have n: "n < 2048" using Suc.prems by simp
  have k: "(of_nat n :: u32) < 0x800" using n by (simp add: word_less_nat_alt unat_of_nat_u32)
  have "env_pgdir (envs t e) = frame pd" using pd(2) vm_onlyD(1) [OF rt(2)] by simp
  then obtain s' xs' where s': "env_free_pde e (of_nat n) t = Some s'"
    "released t s' D ys xs' pd (row pd (of_nat n) 256) {of_nat n}"
    using env_free_pde_ok [OF rt(1) pd(1) _ k, of e] by auto
  have "released s s' D xs xs' pd (rows pd n \<union> row pd (of_nat n) 256) (below n \<union> {of_nat n})"
    by (rule released_trans [OF t(2) s'(2) pd(1)]) (use row_slots [OF pd(1) k] rows_Suc(3,4) [OF n] k in auto)
  then have "released s s' D xs xs' pd (rows pd (Suc n)) (below (Suc n))" using rows_Suc(1,2) [OF n] by simp
  then show ?case using t(1) s'(1) by (auto simp: foldM_snoc)
qed

text \<open>The invariant does not need a directory that is no longer used.\<close>

lemma vm_wf_drop_dir:
  assumes wf: "vm_wf n R D P M" and pd: "pd \<in> D" and R': "\<And>p. p \<noteq> pd \<Longrightarrow> R' p = R p"
  shows "vm_wf n R' (D - {pd}) P M"
proof -
  have sub: "all_slots (D - {pd}) \<subseteq> all_slots D" "tables_of P (D - {pd}) \<subseteq> tables_of P D"
    by (auto simp: all_slots_def tables_of_def)
  have tab: "R' p = R p" if "p \<in> tables_of P D" for p
    by (rule R') (use vm_wf_tables [OF wf that] pd in auto)
  show ?thesis
  proof (rule vm_wfI)
    show "live_page n R' d" if "d \<in> D - {pd}" for d
      using vm_wf_dir [OF wf, of d] that R' [of d] by (simp add: live_page_def)
    show "\<exists>q. P d i = page2pa q OR PDE_PAGE_TABLE \<and> live_page n R' q \<and> q \<notin> D - {pd}"
      if "d \<in> D - {pd}" "i < 0x800" "P d i \<noteq> 0" for d i
      using wf _ that(2,3)
    proof (rule vm_wf_tableE)
      show "d \<in> D" using that(1) by simp
      fix q assume "P d i = page2pa q OR PDE_PAGE_TABLE" "live_page n R q" "q \<notin> D" "q \<in> tables_of P D"
      then show ?thesis using tab by (intro exI [of _ q]) (simp add: live_page_def)
    qed
    show "pd2 = pd1 \<and> i2 = i1" if "pd1 \<in> D - {pd}" "i1 < 0x800" "pd2 \<in> D - {pd}" "i2 < 0x800" "P pd1 i1 \<noteq> 0"
      "P pd2 i2 = P pd1 i1" for pd1 i1 pd2 i2
      using wf that unfolding vm_wf_def by blast
    show "unit_page (pte_page (M x)) \<and> pte_page (M x) < n \<and> pte_page (M x) \<notin> D - {pd} \<and>
      pte_page (M x) \<notin> tables_of P (D - {pd})" if "x \<in> all_slots (D - {pd})" "valid_pte (M x)" for x
      using vm_wf_mapped [OF wf _ that(2)] that(1) sub by (auto simp: live_page_def)
    show "card (mappings M (D - {pd}) p) \<le> unat (R' p)" for p
    proof (cases "p = pd")
      case True
      have "mappings M (D - {pd}) pd = {}"
        using vm_wf_mapped(2) [OF wf] sub(1) pd unfolding mappings_def by blast
      then show ?thesis using True by simp
    next
      case False
      have "mappings M (D - {pd}) p \<subseteq> mappings M D p" using sub(1) by (auto simp: mappings_def)
      then have "card (mappings M (D - {pd}) p) \<le> card (mappings M D p)" by (rule card_mono [OF finite_mappings])
      also have "\<dots> \<le> unat (R p)" using wf by (simp add: vm_wf_def)
      finally show ?thesis using R' [OF False] by simp
    qed
  qed
qed

lemma view_kmem:
  assumes "kmem s' = kmem s"
  shows "pde s' = pde s" "pte_at s' = pte_at s" "upte s' = upte s"
proof -
  show p: "pde s' = pde s" by (simp add: pde_def fun_eq_iff assms)
  show t: "pte_at s' = pte_at s" by (auto simp: fun_eq_iff p assms pte_at.simps)
  show "upte s' = upte s" by (simp add: fun_eq_iff upte_def t)
qed

text \<open>The references to \<open>p\<close> that the release of the address space \<open>pd\<close> drops: one for every
  entry that maps it, one if it is a table, one if it is the directory.\<close>

definition space_refs :: "kstate \<Rightarrow> u32 \<Rightarrow> u32 \<Rightarrow> nat" where
  "space_refs s pd p = entry_refs (pte_at s) (rows pd 2045) p + table_refs (pde s pd) (below 2045) p
     + (if p = pd then 1 else 0)"

lemma vm_only_sched: "vm_only s s' \<Longrightarrow> sched_iter s' = sched_iter s \<and> sched_ts s' = sched_ts s"
  unfolding vm_only_def by (cases s; cases s') simp

lemma vm_only_boot: "vm_only s s' \<Longrightarrow> boot_pgdir s' = boot_pgdir s \<and> mCONTEXT s' = mCONTEXT s"
  unfolding vm_only_def by (cases s; cases s') simp

lemma env_free_ok:
  assumes inv: "vm_inv s D xs" and pd: "pd \<in> D" "env_pgdir (envs s e) = frame pd" "env_ttb (envs s e) = page2pa pd"
    and lists: "lst_rep (env_free_list s) fs" "e \<notin> set fs" "lst_rep (env_sched_list s) ys" "e \<in> set ys"
  shows "\<exists>s' xs'. env_free e s = Some s' \<and> vm_inv s' (D - {pd}) xs' \<and>
    (\<forall>d\<in>D - {pd}. \<forall>v<ULIM. upte s' d v = upte s d v) \<and>
    envs s' = (envs s)(e := (envs s e)\<lparr>env_pgdir := 0, env_ttb := 0, env_status := ENV_FREE\<rparr>) \<and>
    lst_rep (env_free_list s') (e # fs) \<and> lst_rep (env_sched_list s') (remove1 e ys) \<and> curenv s' = curenv s \<and>
    sched_iter s' = sched_iter s \<and> sched_ts s' = sched_ts s \<and> LIST_REMOVE e (env_sched_list s) = Some (env_sched_list s') \<and>
    (\<forall>p. unat (pp_ref s' p) + space_refs s pd p = unat (pp_ref s p)) \<and>
    set xs' = set xs \<union> {p. pp_ref s p \<noteq> 0 \<and> pp_ref s' p = 0} \<and>
    (\<forall>d\<in>D - {pd}. \<forall>i<0x800. pde s' d i = pde s d i) \<and> boot_pgdir s' = boot_pgdir s \<and> mCONTEXT s' = mCONTEXT s"
proof -
  obtain t ts where t: "foldM (\<lambda>k. env_free_pde e (of_nat k)) [0..<2045] s = Some t"
    "released s t D xs ts pd (rows pd 2045) (below 2045)"
    using env_free_pdes_ok [OF inv pd(1,2), of 2045] by auto
  note rt = releasedD [OF t(2)] and only = vm_onlyD [OF releasedD(2) [OF t(2)]]
  have live: "live_page (npage t) (pp_ref t) pd" using vm_wf_dir [OF vm_invD(2) [OF rt(1)] pd(1)] .
  note lp = live_page_simps [OF live]
  let ?u = "upd_env e (\<lambda>v. v\<lparr>env_pgdir := 0, env_ttb := 0\<rparr>) t"
  let ?ws = "if pp_ref t pd = 1 then pd # ts else ts"
  have "alloc_inv ?u ts" using vm_invD(1) [OF rt(1)] alloc_inv_cong [of ?u t ts] by simp
  then obtain w where w: "page_decref (Some pd) ?u = Some w" "alloc_inv w ?ws" "kmem w = kmem t"
    "pp_ref w = (pp_ref t)(pd := pp_ref t pd - 1)" "vm_only ?u w"
    using page_decref_ok [of ?u ts pd] lp by auto
  note ow = vm_onlyD [OF w(5)]
  have pa: "pa2page (page2pa pd) ?u = Some pd"
    using pa2page_entry [of "page2pa pd OR 0" ?u] pte_page_entry [OF lp(2), of 0] lp(3) by simp
  obtain as bs where ys: "ys = as @ e # bs" "e \<notin> set as" using split_list_first [OF lists(4)] by blast
  then obtain sl where sl: "LIST_REMOVE e (env_sched_list s) = Some sl" "lst_rep sl (remove1 e ys)"
    using ll.unlink_mem [OF lists(3,4)] by blast
  let ?s' = "w\<lparr>envs := (envs w)(e := (envs w e)\<lparr>env_status := ENV_FREE\<rparr>),
    env_free_list := LIST_INSERT_HEAD e (env_free_list w), env_sched_list := sl\<rparr>"
  have "env_free e s = Some ?s'"
    using t(1) pd(3) pa w(1) sl(1) ow(6) only(1,6) by (simp add: env_free_def Let_def)
  moreover have "vm_wf (npage t) (pp_ref w) (D - {pd}) (pde t) (pte_at t)"
    by (rule vm_wf_drop_dir [OF vm_invD(2) [OF rt(1)] pd(1)]) (simp add: w(4))
  then have "vm_inv ?s' (D - {pd}) ?ws"
    using w(2,3) ow(4) alloc_inv_cong [of ?s' w ?ws] by (simp add: vm_inv_def view_kmem [of ?s' t])
  moreover have "upte ?s' d v = upte s d v" if "d \<in> D - {pd}" "v < ULIM" for d v
  proof -
    have "slot_of d v \<notin> rows pd 2045" using that by (auto simp: rows_def slot_of_def)
    then show ?thesis
      using rt(4) [of "slot_of d v"] that w(3) by (simp add: view_kmem(3) [of ?s' t] upte_def)
  qed
  moreover have "envs ?s' = (envs s)(e := (envs s e)\<lparr>env_pgdir := 0, env_ttb := 0, env_status := ENV_FREE\<rparr>)"
    using ow(1) only(1) by simp
  moreover have "lst_rep (env_free_list ?s') (e # fs)"
    using ll.rep_push [OF lists(1,2)] ow(5) only(5) by simp
  moreover have "lst_rep (env_sched_list ?s') (remove1 e ys)" "curenv ?s' = curenv s"
    "sched_iter ?s' = sched_iter s" "sched_ts ?s' = sched_ts s" "LIST_REMOVE e (env_sched_list s) = Some (env_sched_list ?s')"
    using sl ow(2) only(2) vm_only_sched [OF w(5)] vm_only_sched [OF rt(2)] by simp_all
  moreover have refs: "unat (pp_ref ?s' p) + space_refs s pd p = unat (pp_ref s p)" for p
  proof -
    have "0 < unat (pp_ref t pd)" using lp(4) by (simp add: unat_gt_0)
    then show ?thesis
      using rt(5) [of p] lp(4) by (cases "p = pd") (simp_all add: space_refs_def w(4) unat_dec)
  qed
  moreover have "set ?ws = set xs \<union> {p. pp_ref s p \<noteq> 0 \<and> pp_ref ?s' p = 0}"
  proof -
    have "pp_ref t pd = 1 \<longleftrightarrow> pp_ref w pd = 0" by (simp add: w(4))
    then have "set ?ws = set ts \<union> {p. pp_ref t p \<noteq> 0 \<and> pp_ref w p = 0}"
      using lp(4) by (auto simp: w(4))
    moreover have "pp_ref w p \<noteq> 0 \<Longrightarrow> pp_ref t p \<noteq> 0" for p using lp(4) by (auto simp: w(4) split: if_splits)
    ultimately show ?thesis using rt(6) released_le [OF t(2)] by auto
  qed
  moreover have "pde ?s' d i = pde s d i" if "d \<in> D - {pd}" "i < 0x800" for d i
    using rt(3) [of d i] that w(3) by (simp add: view_kmem(1) [of ?s' t])
  moreover have "boot_pgdir ?s' = boot_pgdir s" "mCONTEXT ?s' = mCONTEXT s"
    using vm_only_boot [OF w(5)] vm_only_boot [OF rt(2)] by simp_all
  ultimately show ?thesis by blast
qed

subsection \<open>Properties\<close>

text \<open>Property C16. \<open>env_free\<close> returns the environment to the free list and takes it off the
  scheduling list. Of every page it drops exactly the references the address space held (one per
  entry that maps it, one if it is one of the tables, one if it is the directory), the pages that
  had no other reference, and only they, become free, and no other address space changes.\<close>

theorem env_free_correct:
  assumes "vm_inv s D xs" and "pd \<in> D" "env_pgdir (envs s e) = frame pd" "env_ttb (envs s e) = page2pa pd"
    and "lst_rep (env_free_list s) fs" "e \<notin> set fs" "lst_rep (env_sched_list s) ys" "e \<in> set ys"
  shows "\<exists>s' xs'. env_free e s = Some s' \<and> vm_inv s' (D - {pd}) xs' \<and>
    (\<forall>d\<in>D - {pd}. \<forall>v<ULIM. upte s' d v = upte s d v) \<and>
    envs s' = (envs s)(e := (envs s e)\<lparr>env_pgdir := 0, env_ttb := 0, env_status := ENV_FREE\<rparr>) \<and>
    lst_rep (env_free_list s') (e # fs) \<and> lst_rep (env_sched_list s') (remove1 e ys) \<and> curenv s' = curenv s \<and>
    sched_iter s' = sched_iter s \<and> sched_ts s' = sched_ts s \<and> LIST_REMOVE e (env_sched_list s) = Some (env_sched_list s') \<and>
    (\<forall>p. unat (pp_ref s' p) + space_refs s pd p = unat (pp_ref s p)) \<and>
    set xs' = set xs \<union> {p. pp_ref s p \<noteq> 0 \<and> pp_ref s' p = 0}"
  using env_free_ok [OF assms] by (elim exE conjE) (intro exI conjI; assumption)

text \<open>\<open>one_env\<close> with its environment on the scheduling list.\<close>

definition listed_env :: kstate where
  "listed_env = one_env\<lparr>envs := (envs one_env)(0 := (envs one_env 0)\<lparr>env_ttb := page2pa 2064\<rparr>),
     env_free_list := null_lst, env_sched_list := LIST_INSERT_HEAD 0 null_lst\<rparr>"

lemma listed_env_facts:
  "vm_inv listed_env {2064} [2060, 2056, 2052, 2048]" "pp_ref listed_env 2064 = 1"
  "env_pgdir (envs listed_env 0) = frame 2064" "env_ttb (envs listed_env 0) = page2pa 2064"
  "lst_rep (env_free_list listed_env) []" "lst_rep (env_sched_list listed_env) [0]"
  "curenv listed_env = Some 0" "env_status (envs listed_env 0) = ENV_RUNNABLE"
proof -
  have "vm_inv listed_env {2064} [2060, 2056, 2052, 2048] = vm_inv one_env {2064} [2060, 2056, 2052, 2048]"
    by (rule vm_inv_cong(1)) (simp_all add: listed_env_def)
  then show "vm_inv listed_env {2064} [2060, 2056, 2052, 2048]" using one_env_spaces(1) by (simp add: spaces_def)
  show "pp_ref listed_env 2064 = 1" by (simp add: listed_env_def one_env_spaces(3) one_space_npage)
  show "lst_rep (env_sched_list listed_env) [0]"
    using ll.rep_push [OF null_lst_rep, of "0 :: u32"] by (simp add: listed_env_def)
qed (simp_all add: listed_env_def one_env_self null_lst_rep, simp_all add: one_env_def)

theorem env_free_correct_witness:
  "\<exists>s' xs'. env_free 0 listed_env = Some s' \<and> vm_inv s' {} xs' \<and> 2064 \<in> set xs' \<and>
    env_status (envs s' 0) = ENV_FREE \<and> lst_rep (env_free_list s') [0]"
proof -
  note f = listed_env_facts
  obtain s' xs' where s': "env_free 0 listed_env = Some s'" "vm_inv s' {} xs'" "lst_rep (env_free_list s') [0]"
    "envs s' = (envs listed_env)(0 := (envs listed_env 0)\<lparr>env_pgdir := 0, env_ttb := 0, env_status := ENV_FREE\<rparr>)"
    "unat (pp_ref s' 2064) + space_refs listed_env 2064 2064 = unat (pp_ref listed_env 2064)"
    "set xs' = set [2060, 2056, 2052, 2048] \<union> {p. pp_ref listed_env p \<noteq> 0 \<and> pp_ref s' p = 0}"
    using env_free_correct [OF f(1) _ f(3,4,5) _ f(6)] by auto
  have "pp_ref s' 2064 = 0" using s'(5) f(2) by (simp add: space_refs_def unat_eq_zero)
  then show ?thesis using s' f(2) by auto
qed

lemma env_destroy_ok:
  assumes "vm_inv s D xs" "pd \<in> D" "env_pgdir (envs s e) = frame pd" "env_ttb (envs s e) = page2pa pd"
    and "lst_rep (env_free_list s) fs" "e \<notin> set fs" "sched_ok s ys" "e \<in> set ys" "remove1 e ys \<noteq> []"
  shows "\<exists>s' xs'. vm_inv s' (D - {pd}) xs' \<and>
    envs s' = (envs s)(e := (envs s e)\<lparr>env_pgdir := 0, env_ttb := 0, env_status := ENV_FREE\<rparr>) \<and>
    lst_rep (env_free_list s') (e # fs) \<and> (\<forall>d\<in>D - {pd}. \<forall>i<0x800. pde s' d i = pde s d i) \<and> boot_pgdir s' = boot_pgdir s \<and>
    (if curenv s = Some e
     then env_destroy e s = Some (Resume s') \<and> sched_ok s' (remove1 e ys) \<and>
       (\<exists>y\<in>set (remove1 e ys). curenv s' = Some y \<and> sched_iter s' = Some y \<and> mCONTEXT s' = env_pgdir (envs s y))
     else env_destroy e s = Some (Return () s') \<and> lst_rep (env_sched_list s') (remove1 e ys) \<and> curenv s' = curenv s \<and>
       sched_iter s' = sched_iter s \<and> sched_ts s' = sched_ts s \<and> mCONTEXT s' = mCONTEXT s)"
proof -
  have rep: "lst_rep (env_sched_list s) ys" using assms(7) by (simp add: sched_ok_def)
  obtain t xs' where t: "env_free e s = Some t" "vm_inv t (D - {pd}) xs'"
    "envs t = (envs s)(e := (envs s e)\<lparr>env_pgdir := 0, env_ttb := 0, env_status := ENV_FREE\<rparr>)"
    "lst_rep (env_sched_list t) (remove1 e ys)" "curenv t = curenv s" "sched_iter t = sched_iter s"
    "sched_ts t = sched_ts s" "LIST_REMOVE e (env_sched_list s) = Some (env_sched_list t)"
    "lst_rep (env_free_list t) (e # fs)" "\<forall>d\<in>D - {pd}. \<forall>i<0x800. pde t d i = pde s d i" "boot_pgdir t = boot_pgdir s"
    "mCONTEXT t = mCONTEXT s"
    using env_free_ok [OF assms(1-6) rep assms(8)] by blast
  show ?thesis
  proof (cases "curenv s = Some e")
    case False
    then show ?thesis using t by (intro exI [of _ t] exI [of _ xs']) (simp add: env_destroy_def)
  next
    case True
    let ?t = "t\<lparr>curenv := None\<rparr>"
    obtain as bs where ys: "ys = as @ e # bs" "e \<notin> set as" using split_list_first [OF assms(8)] by blast
    have zs: "remove1 e ys = as @ bs" using ys by (simp add: remove1_append)
    have rep_t: "lst_rep (env_sched_list t) (as @ bs)" using t(4) zs by simp
    have dist: "e \<notin> set (as @ bs)" using ll.rep_distinct [OF rep] ys by simp
    have run: "\<forall>x\<in>set (as @ bs). env_status (envs ?t x) = ENV_RUNNABLE"
      using assms(7) dist by (auto simp: sched_ok_def ys(1) t(3))
    have "\<exists>s' y. sched_yield ?t = Some (Resume s') \<and> curenv s' = Some y \<and> y \<in> set (as @ bs) \<and> sched_ok s' (as @ bs)"
    proof (cases "sched_iter s = Some e")
      case left: True
      have "sched_left ?t (as @ bs) e"
        using rep_t run left LIST_REMOVE_keeps_link [OF rep [unfolded ys(1)] t(8)]
        by (auto simp: sched_left_def t(3,6) env_status_defs split: list.splits)
      then show ?thesis using sched_yield_left [of ?t "as @ bs" e] assms(9) zs by simp
    next
      case False
      then have "sched_ok ?t (as @ bs)"
        using assms(7) rep_t run by (auto simp: sched_ok_def ys(1) t(6,7) split: option.splits)
      then show ?thesis by (rule sched_yieldE) (use assms(9) zs in auto)
    qed
    then obtain s' y where s': "sched_yield ?t = Some (Resume s')" "curenv s' = Some y" "y \<in> set (as @ bs)"
      "sched_ok s' (as @ bs)"
      by blast
    note fr = sched_yield_switched [OF s'(1), unfolded switched_def]
    have "vm_inv s' (D - {pd}) xs' = vm_inv t (D - {pd}) xs'" using fr by (intro vm_inv_cong(1)) simp_all
    moreover have "envs s' = envs t" using fr by (simp add: saved_def)
    moreover have "mCONTEXT s' = env_pgdir (envs s y)" "sched_iter s' = Some y"
      using fr s'(2,3) dist by (auto simp: t(3))
    moreover have "pde s' = pde t" using fr by (intro view_kmem(1)) simp
    moreover have "y \<in> set (remove1 e ys)" using s'(3) zs by simp
    moreover have "lst_rep (env_free_list s') (e # fs)" "boot_pgdir s' = boot_pgdir s" using fr t(9,11) by simp_all
    ultimately show ?thesis
      using s' t(1,2,3,5,10) True zs by (intro exI [of _ s'] exI [of _ xs']) (auto simp: env_destroy_def)
  qed
qed

text \<open>Property C17. \<open>env_destroy\<close> of another environment releases it and returns. Of the running one it
  releases it and runs another environment of the scheduling list, with the invariant of the
  scheduler again, although its static pointer was on the environment that is gone.\<close>

theorem env_destroy_correct:
  assumes "vm_inv s D xs" "pd \<in> D" "env_pgdir (envs s e) = frame pd" "env_ttb (envs s e) = page2pa pd"
    and "lst_rep (env_free_list s) fs" "e \<notin> set fs" "sched_ok s ys" "e \<in> set ys" "remove1 e ys \<noteq> []"
  shows "\<exists>s' xs'. vm_inv s' (D - {pd}) xs' \<and> env_status (envs s' e) = ENV_FREE \<and>
    (if curenv s = Some e
     then env_destroy e s = Some (Resume s') \<and> sched_ok s' (remove1 e ys) \<and>
       (\<exists>y\<in>set (remove1 e ys). curenv s' = Some y)
     else env_destroy e s = Some (Return () s') \<and> lst_rep (env_sched_list s') (remove1 e ys) \<and> curenv s' = curenv s)"
  using env_destroy_ok [OF assms] by (elim exE conjE) (intro exI conjI; (assumption | auto split: if_splits))

theorem env_destroy_correct_witness:
  "\<exists>s s' xs'. curenv s = Some 1 \<and> env_destroy 1 s = Some (Resume s') \<and> curenv s' = Some 0 \<and> vm_inv s' {} xs'"
proof -
  obtain s where s: "spaces s {2064} [2056, 2052, 2048]"
    "envs s = two_envs (zero_env\<lparr>env_status := ENV_RUNNABLE, env_ttb := page2pa 2064\<rparr>)" "curenv s = Some 1"
    "env_sched_list s = LIST_INSERT_HEAD 1 (LIST_INSERT_HEAD 0 null_lst)" "sched_iter s = None" "sched_ts s = 0"
    "env_free_list s = null_lst"
    by (rule two_envs_machine [of "zero_env\<lparr>env_status := ENV_RUNNABLE, env_ttb := page2pa 2064\<rparr>" 1
          "LIST_INSERT_HEAD 1 (LIST_INSERT_HEAD 0 null_lst)"]) blast
  have inv: "vm_inv s {2064} [2056, 2052, 2048]" using s(1) by (simp add: spaces_def)
  have e: "env_pgdir (envs s 1) = frame 2064" "env_ttb (envs s 1) = page2pa 2064" "lst_rep (env_free_list s) []"
    by (simp_all add: s(2,7) two_envs_def null_lst_rep)
  have ok: "sched_ok s [1, 0]"
    using ll.rep_push [OF ll.rep_push [OF null_lst_rep, of "0 :: u32"], of 1] s(4-6)
    by (simp add: sched_ok_def s(2) two_envs_def)
  obtain s' xs' where "env_destroy 1 s = Some (Resume s')" "curenv s' = Some 0" "vm_inv s' {} xs'"
    using env_destroy_correct [OF inv _ e _ ok] s(3) by auto
  then show ?thesis using s(3) by blast
qed

text \<open>Property. \<open>sys_set_env_status\<close> with \<open>ENV_FREE\<close> answers 0 but releases nothing: the status is
  written first, so \<open>sys_env_destroy\<close> then no longer accepts the identifier. The environment keeps
  its pages and its place on the scheduling list and is on no free list.\<close>

theorem set_free_releases_nothing:
  assumes "curenv s = Some c" "envid2env envid True s = Some (Inr e)"
    and "ENVX (env_id (envs s e)) = e" "env_id (envs s e) \<noteq> 0"
  shows "sys_set_env_status envid ENV_FREE s = Some (Return (Inr 0) (upd_env e (\<lambda>v. v\<lparr>env_status := ENV_FREE\<rparr>) s))"
proof -
  have "env_status (envs s e) \<noteq> ENV_FREE"
    using assms(2) by (auto simp: envid2env_def split: if_splits Option.bind_splits)
  moreover have "sys_env_destroy (env_id (envs s e)) (upd_env e (\<lambda>v. v\<lparr>env_status := ENV_FREE\<rparr>) s) =
      Some (Return (Inl E_BAD_ENV) (upd_env e (\<lambda>v. v\<lparr>env_status := ENV_FREE\<rparr>) s))"
    using assms(3,4) by (simp add: sys_env_destroy_def envid2env_def Let_def)
  ultimately show ?thesis
    using assms(2) by (simp add: sys_set_env_status_def my_set_env_status_def Let_def env_status_defs)
qed

theorem set_free_releases_nothing_witness:
  fixes s defines "s \<equiv> one_env\<lparr>envs := two_envs waiter, curenv := Some 1\<rparr>"
  shows "sys_set_env_status 257 ENV_FREE s = Some (Return (Inr 0) (upd_env 1 (\<lambda>v. v\<lparr>env_status := ENV_FREE\<rparr>) s))"
  by (rule set_free_releases_nothing)
    (simp_all add: s_def two_envs_def waiter_def envid2env_def ENVX_def env_status_defs Let_def)

text \<open>\<open>env_free\<close> also takes an environment off the scheduling list that is not on it, such as one
  that waits for a message. The element still has the links it had when it was removed, so the
  list gets back an element that was removed later.\<close>

lemma stale_remove:
  assumes "lst_rep l [a, e, b]"
  shows "\<exists>l1 l2 l3. LIST_REMOVE e l = Some l1 \<and> lst_rep l1 [a, b] \<and> LIST_REMOVE b l1 = Some l2 \<and> lst_rep l2 [a] \<and>
    LIST_REMOVE e l2 = Some l3 \<and> le_next l3 a = Some b"
proof -
  have d: "a \<noteq> e" "a \<noteq> b" "e \<noteq> b" and ch: "le_next l a = Some e" "le_prev l e = Some (NextOf a)" "le_next l e = Some b"
    "le_prev l b = Some (NextOf e)" "le_next l b = None" "lh_first l = Some a" "le_prev l a = Some HeadOf"
    using assms by (auto simp: lst_rep_def)
  show ?thesis using d ch by (simp add: LIST_REMOVE_def lst_rep_def)
qed

end
