(* ===== verification/Forking.thy ===== *)
theory Forking
  imports Release
begin

section \<open>Copying an address space: \<open>sys_env_alloc\<close> and \<open>fork\<close>\<close>

text \<open>
  \<open>sys_env_alloc\<close> walks the caller's tables and enters every page it maps in the new directory.
  \<open>copied s t D xs spd dpd S\<close>: from \<open>s\<close> to \<open>t\<close> the entries \<open>S\<close> of the directory \<open>spd\<close> that have
  all bits of \<open>PTE_V\<close> were copied to \<open>dpd\<close>, each for one more reference of its page, and
  nothing else happened to the tables.
\<close>

subsection \<open>One entry\<close>

definition full_pte :: "u32 \<Rightarrow> bool" where
  "full_pte e \<longleftrightarrow> e AND PTE_V = PTE_V"

lemma full_pte_valid: "full_pte e \<Longrightarrow> valid_pte e"
  by (auto simp: full_pte_def valid_pte_def)

lemma full_pte_0 [simp]: "\<not> full_pte 0"
  by (simp add: full_pte_def)

lemma offset_take: "PG_ADDR_OFFSET e = take_bit 12 e"
proof -
  have "(NOT 0xFFFFF000 :: u32) = mask 12" by (simp add: mask_eq_exp_minus_1)
  then show ?thesis by (simp only: PG_ADDR_OFFSET_def take_bit_eq_mask)
qed

lemma offset_less: "PG_ADDR_OFFSET e < 0x1000"
  by (simp add: offset_take less_4096_iff)

lemma base_minus: "PG_ADDR_BASE e = e - take_bit 12 e"
proof -
  have "(0xFFFFF000 :: u32) = NOT (mask 12)" by (simp add: mask_eq_exp_minus_1)
  then have "PG_ADDR_BASE e = e AND NOT (mask 12)" by (simp only: PG_ADDR_BASE_def)
  also have "\<dots> = push_bit 12 (drop_bit 12 e)" by (rule bit_word_eqI) (auto simp: bit_simps)
  also have "\<dots> = e - take_bit 12 e" using bits_ident [of 12 e] by (simp add: algebra_simps)
  finally show ?thesis .
qed

lemma take12_base: "take_bit 12 (e - DRAMBASE) = take_bit 12 (e :: u32)"
proof -
  have "unat (e - DRAMBASE) = (unat e + 0xC0000000) mod 2 ^ 32"
  proof -
    have "(- DRAMBASE) = (0xC0000000 :: u32)" by simp
    then have eq: "e - DRAMBASE = e + 0xC0000000" by (metis diff_conv_add_uminus)
    show ?thesis unfolding eq unat_word_ariths(1) by simp
  qed
  moreover have "(unat e + 0xC0000000) mod 2 ^ 32 mod 4096 = unat e mod 4096"
  proof -
    have "(unat e + 786432 * 4096) mod 4096 = unat e mod 4096" by (rule mod_mult_self1)
    then show ?thesis by (simp add: mod_mod_cancel)
  qed
  ultimately show ?thesis unfolding word_unat_eq_iff unsigned_take_bit_eq by (simp add: take_bit_eq_mod)
qed

lemma page2pa_pte_page: "page2pa (pte_page e) = PG_ADDR_BASE e"
  using bits_ident [of 12 "e - DRAMBASE"] take12_base [of e]
  by (simp add: page2pa_def pte_page_def PPN_def base_minus algebra_simps)

lemma pte_page_base: "pte_page (PG_ADDR_BASE e) = pte_page e"
proof -
  have "PG_ADDR_BASE e - DRAMBASE = push_bit 12 (pte_page e)"
    using page2pa_pte_page [of e, symmetric] by (simp add: page2pa_def)
  moreover have "pte_page e < 0x100000"
    using unsigned_less [of "e - DRAMBASE"]
    by (simp add: pte_page_def PPN_def word_less_nat_alt unat_drop_div div_less_iff_less_mult)
  ultimately show ?thesis by (simp add: pte_page_def [of "PG_ADDR_BASE e"] PPN_def drop12_push12)
qed

lemma entry_split: "page2pa (pte_page e) OR PG_ADDR_OFFSET e = e"
proof -
  have "(0xFFFFF000 :: u32) = NOT (mask 12)" by (simp add: mask_eq_exp_minus_1)
  then have "PG_ADDR_BASE e = e AND NOT (mask 12)" by (simp only: PG_ADDR_BASE_def)
  then show ?thesis
    unfolding page2pa_pte_page offset_take by (intro bit_word_eqI) (auto simp: bit_simps)
qed

lemma entry_perm: "full_pte e \<Longrightarrow> page2pa (pte_page e) OR (PG_ADDR_OFFSET e OR PTE_V) = e"
proof -
  assume "full_pte e"
  then have "e OR (e AND PTE_V) = e OR PTE_V" by (simp only: full_pte_def)
  moreover have "e OR (e AND PTE_V) = e" by (rule bit_word_eqI) (auto simp: bit_and_iff bit_or_iff)
  ultimately have "e OR PTE_V = e" by simp
  then show ?thesis by (simp add: entry_split flip: or.assoc)
qed

subsection \<open>The relation\<close>

definition copies :: "(u32 \<times> u32 \<times> u32 \<Rightarrow> u32) \<Rightarrow> (u32 \<times> u32 \<times> u32) set \<Rightarrow> u32 \<Rightarrow> nat" where
  "copies M S p = card {x \<in> S. full_pte (M x) \<and> pte_page (M x) = p}"

definition tables :: "kstate \<Rightarrow> u32 \<Rightarrow> u32 set" where
  "tables s pd = {k. k < 0x800 \<and> pde s pd k \<noteq> 0}"

text \<open>The tables before the copy: the new directory maps nothing, and no reference count can
  overflow by one more reference for every entry of the old one.\<close>

definition copyable :: "kstate \<Rightarrow> u32 set \<Rightarrow> u32 list \<Rightarrow> u32 \<Rightarrow> u32 \<Rightarrow> bool" where
  "copyable s D xs spd dpd \<longleftrightarrow> vm_inv s D xs \<and> spd \<in> D \<and> dpd \<in> D \<and> spd \<noteq> dpd \<and>
     (\<forall>x\<in>all_slots {dpd}. pte_at s x = 0) \<and> tables s dpd = {} \<and>
     (\<forall>p. unat (pp_ref s p) + copies (pte_at s) (all_slots {spd}) p \<le> 0xFFFF)"

definition copied :: "kstate \<Rightarrow> kstate \<Rightarrow> u32 set \<Rightarrow> u32 list \<Rightarrow> u32 list \<Rightarrow> u32 \<Rightarrow> u32
    \<Rightarrow> (u32 \<times> u32 \<times> u32) set \<Rightarrow> bool" where
  "copied s t D xs ys spd dpd S \<longleftrightarrow> vm_inv t D ys \<and> vm_only s t \<and> set ys \<subseteq> set xs \<and> npage t = npage s \<and>
     (\<forall>d\<in>D. \<forall>k<0x800. d \<noteq> dpd \<longrightarrow> pde t d k = pde s d k) \<and>
     tables t dpd \<subseteq> tables s spd \<and> card (tables t dpd) + length ys = length xs \<and>
     (\<forall>x\<in>all_slots D. pte_at t x =
        (if fst x = dpd \<and> (spd, snd x) \<in> S \<and> full_pte (pte_at s (spd, snd x)) then pte_at s (spd, snd x)
         else pte_at s x)) \<and>
     (\<forall>p. pp_ref s p \<noteq> 0 \<longrightarrow> unat (pp_ref t p) = unat (pp_ref s p) + copies (pte_at s) S p)"

lemma copiedD:
  assumes "copied s t D xs ys spd dpd S"
  shows "vm_inv t D ys" "vm_only s t" "set ys \<subseteq> set xs" "npage t = npage s"
    "d \<in> D \<Longrightarrow> k < 0x800 \<Longrightarrow> d \<noteq> dpd \<Longrightarrow> pde t d k = pde s d k"
    "x \<in> all_slots D \<Longrightarrow> pte_at t x =
        (if fst x = dpd \<and> (spd, snd x) \<in> S \<and> full_pte (pte_at s (spd, snd x)) then pte_at s (spd, snd x)
         else pte_at s x)"
    "pp_ref s p \<noteq> 0 \<Longrightarrow> unat (pp_ref t p) = unat (pp_ref s p) + copies (pte_at s) S p"
    "tables t dpd \<subseteq> tables s spd" "card (tables t dpd) + length ys = length xs"
  using assms unfolding copied_def by simp_all

lemma copied_refl: "copyable s D xs spd dpd \<Longrightarrow> copied s s D xs xs spd dpd {}"
  by (simp add: copyable_def copied_def copies_def)

lemma copies_insert:
  assumes "x \<notin> S"
  shows "copies M (insert x S) p = copies M S p + (if full_pte (M x) \<and> pte_page (M x) = p then 1 else 0)"
proof -
  have "{y \<in> insert x S. full_pte (M y) \<and> pte_page (M y) = p} =
      (if full_pte (M x) \<and> pte_page (M x) = p then insert x {y \<in> S. full_pte (M y) \<and> pte_page (M y) = p}
       else {y \<in> S. full_pte (M y) \<and> pte_page (M y) = p})"
    by auto
  then show ?thesis using assms by (auto simp: copies_def)
qed

lemma copies_mono: "S \<subseteq> T \<Longrightarrow> copies M S p \<le> copies M T p"
  unfolding copies_def by (rule card_mono) auto

text \<open>A state in which only the operands of the TLB differ.\<close>

lemma copied_tlb: "copied s t D xs ys spd dpd S \<Longrightarrow> copied s (tlb_invalidate d va t) D xs ys spd dpd S"
  using vm_only_tlb vm_only_trans by (auto simp: copied_def tables_def)

lemma indices:
  assumes "k < 0x800" "n < 256"
  shows "slot_of pd (push_bit 20 k OR of_nat n * BY2PG) = (pd, k, of_nat n)"
    and "push_bit 20 k OR of_nat n * BY2PG < ULIM"
    and "PTX (of_nat n * BY2PG) = of_nat n" and "(of_nat n :: u32) < 0x100"
    and "PG_ADDR_OFFSET (push_bit 20 k OR of_nat n * BY2PG) = 0"
proof -
  have m: "of_nat n * BY2PG = push_bit 12 (of_nat n :: u32)" by (simp add: push12)
  show "slot_of pd (push_bit 20 k OR of_nat n * BY2PG) = (pd, k, of_nat n)"
    "push_bit 20 k OR of_nat n * BY2PG < ULIM"
    unfolding m by (rule va_of_indices [OF assms])+
  show "PTX (of_nat n * BY2PG) = of_nat n"
    using va_of_indices(1) [OF _ assms(2), of 0] by (simp add: m slot_of_def)
  show "(of_nat n :: u32) < 0x100" using assms(2) by (simp add: word_less_nat_alt unat_of_nat_u32)
  show "PG_ADDR_OFFSET (push_bit 20 k OR of_nat n * BY2PG) = 0"
    unfolding m offset_take by (rule bit_word_eqI) (auto simp: bit_simps)
qed

text \<open>A step that enters the entry \<open>x\<close> of the old directory in the new one.\<close>

lemma copied_step:
  assumes cp: "copied s t D xs ys spd dpd S" and st: "copyable s D xs spd dpd"
    and x: "(spd, k, j) \<in> all_slots {spd}" "(spd, k, j) \<notin> S" "full_pte (pte_at s (spd, k, j))"
    and t': "vm_inv t' D zs" "vm_only t t'" "set zs \<subseteq> set ys" "npage t' = npage t"
      "\<And>d i. d \<in> D \<Longrightarrow> i < 0x800 \<Longrightarrow> d \<noteq> dpd \<Longrightarrow> pde t' d i = pde t d i"
      "\<And>y. y \<in> all_slots D \<Longrightarrow> pte_at t' y = ((pte_at t)((dpd, k, j) := pte_at s (spd, k, j))) y"
      "\<And>p. pp_ref s p \<noteq> 0 \<Longrightarrow> unat (pp_ref t' p) = unat (pp_ref t p) + (if p = pte_page (pte_at s (spd, k, j)) then 1 else 0)"
      "tables t' dpd = insert k (tables t dpd)" "card (tables t' dpd) + length zs = card (tables t dpd) + length ys"
  shows "copied s t' D xs zs spd dpd (insert (spd, k, j) S)"
proof -
  note c = copiedD [OF cp]
  have D: "spd \<in> D" "spd \<noteq> dpd" using st by (simp_all add: copyable_def)
  have "pde t' d i = pde s d i" if "d \<in> D" "i < 0x800" "d \<noteq> dpd" for d i
    using t'(5) [OF that] c(5) [OF that] by simp
  moreover have "pte_at t' y = (if fst y = dpd \<and> (spd, snd y) \<in> insert (spd, k, j) S \<and> full_pte (pte_at s (spd, snd y))
      then pte_at s (spd, snd y) else pte_at s y)" if y: "y \<in> all_slots D" for y
    using t'(6) [OF y] c(6) [OF y] x(3) by (cases y) auto
  moreover have "unat (pp_ref t' p) = unat (pp_ref s p) + copies (pte_at s) (insert (spd, k, j) S) p"
    if "pp_ref s p \<noteq> 0" for p
    using t'(7) [OF that] c(7) [OF that] x(3) by (auto simp: copies_insert [OF x(2)])
  moreover have "k \<in> tables s spd"
  proof -
    have "pte_at s (spd, k, j) \<noteq> 0" using x(3) by auto
    then show ?thesis using x(1) by (auto simp: tables_def all_slots_def pte_at.simps)
  qed
  ultimately show ?thesis
    using t'(1,3,4,8,9) c(3,4,8,9) vm_only_trans [OF c(2) t'(2)] by (auto simp: copied_def)
qed

lemma copy_page_ready:
  assumes cp: "copied s t D xs ys spd dpd S" and st: "copyable s D xs spd dpd"
    and x: "(spd, k, j) \<in> all_slots {spd}" "(spd, k, j) \<notin> S" "full_pte (pte_at s (spd, k, j))"
    and S: "S \<subseteq> all_slots {spd}" and p: "p = pte_page (pte_at s (spd, k, j))"
  shows "pte_at t (spd, k, j) = pte_at s (spd, k, j)" "unit_page p" "p < npage t"
    "p \<notin> D \<union> tables_of (pde t) D \<union> set ys" "pp_ref t p \<noteq> 0xFFFF" "pte_at t (dpd, k, j) = 0"
    "pp_ref s p \<noteq> 0"
proof -
  note c = copiedD [OF cp]
  have inv: "vm_inv s D xs" and D: "spd \<in> D" "dpd \<in> D" "spd \<noteq> dpd"
    and bound: "unat (pp_ref s p) + copies (pte_at s) (all_slots {spd}) p \<le> 0xFFFF"
    and new: "pte_at s (dpd, k, j) = 0"
    using st x(1) by (auto simp: copyable_def all_slots_def)
  have xD: "(spd, k, j) \<in> all_slots D" "(dpd, k, j) \<in> all_slots D" using x(1) D by (auto simp: all_slots_def)
  show same: "pte_at t (spd, k, j) = pte_at s (spd, k, j)" using c(6) [OF xD(1)] D(3) by simp
  show "pte_at t (dpd, k, j) = 0" using c(6) [OF xD(2)] x(2) new by simp
  have v: "valid_pte (pte_at t (spd, k, j))" using x(3) same by (simp add: full_pte_valid)
  note live = vm_wf_mapped [OF vm_invD(2) [OF c(1)] xD(1) v, unfolded same, folded p]
  show "unit_page p" "p < npage t" "p \<notin> D \<union> tables_of (pde t) D \<union> set ys"
    using live live_not_free [OF c(1) live(1)] by (auto simp: live_page_def)
  have "live_page (npage s) (pp_ref s) p"
    using vm_wf_mapped(1) [OF vm_invD(2) [OF inv] xD(1)] v same by (simp add: p)
  then show ref: "pp_ref s p \<noteq> 0" by (rule live_page_simps(4))
  have "copies (pte_at s) S p < copies (pte_at s) (insert (spd, k, j) S) p"
    using x(3) by (simp add: copies_insert [OF x(2)] p)
  also have "\<dots> \<le> copies (pte_at s) (all_slots {spd}) p" by (rule copies_mono) (use S x(1) in simp)
  finally have "unat (pp_ref t p) < 0xFFFF" using c(7) [OF ref] bound by simp
  then show "pp_ref t p \<noteq> 0xFFFF" by auto
qed

lemma env_alloc_page_ok:
  assumes cp: "copied s t D xs ys spd dpd S" and st: "copyable s D xs spd dpd" and S: "S \<subseteq> all_slots {spd}"
    and k: "k < 0x800" "j < 256" "(spd, k, of_nat j) \<notin> S" "pde s spd k \<noteq> 0"
  obtains (copied) t' zs where
      "env_alloc_page (frame dpd) k (frame (pte_page (pde s spd k))) (of_nat j * BY2PG) t = Some (Inr (), t')"
      "copied s t' D xs zs spd dpd (insert (spd, k, of_nat j) S)"
  | (full) t' where
      "env_alloc_page (frame dpd) k (frame (pte_page (pde s spd k))) (of_nat j * BY2PG) t = Some (Inl E_NO_MEM, t')"
      "copied s t' D xs [] spd dpd S" "k \<in> tables s spd" "k \<notin> tables t' dpd"
proof -
  let ?x = "(spd, k, of_nat j) :: u32 \<times> u32 \<times> u32" and ?va = "push_bit 20 k OR of_nat j * BY2PG"
    and ?tab = "frame (pte_page (pde s spd k))"
  note c = copiedD [OF cp] and ix = indices [OF k(1,2)]
  have D: "spd \<in> D" "dpd \<in> D" "spd \<noteq> dpd" using st by (simp_all add: copyable_def)
  have x: "?x \<in> all_slots {spd}" "?x \<in> all_slots D" using k ix(4) D by (simp_all add: all_slots_def)
  have same: "pte_at t ?x = pte_at s ?x" using c(6) [OF x(2)] D(3) by simp
  have entry: "load32 (kmem t) (?tab + 4 * of_nat j) = pte_at s ?x"
    using c(5) [OF D(1) k(1) D(3)] k(4) same by (simp add: pte_at.simps)
  show thesis
  proof (cases "full_pte (pte_at s ?x)")
    case False
    have "copied s t D xs ys spd dpd (insert ?x S)"
      using cp False by (auto simp: copied_def copies_insert [OF k(3)])
    then show thesis
      using copied(1) [of t ys] False ix(3) by (simp add: env_alloc_page_def entry full_pte_def Let_def)
  next
    case True
    let ?p = "pte_page (pte_at s ?x)"
    note r = copy_page_ready [OF cp st x(1) k(3) True S refl]
    have nv: "\<not> valid_pte (upte t dpd ?va)" using r(6) by (simp add: upte_def ix(1))
    note perm = or_PTE_V(1) [OF offset_less, of "pte_at s ?x"] or_PTE_V(2) [of "PG_ADDR_OFFSET (pte_at s ?x)"]
    have "pa2page (PG_ADDR_BASE (pte_at s ?x)) t = Some ?p"
      using r(3) pte_page_base by (simp add: pa2page_entry)
    then have step: "env_alloc_page (frame dpd) k ?tab (of_nat j * BY2PG) t =
        page_insert_new (frame dpd) ?p ?va (PG_ADDR_OFFSET (pte_at s ?x) OR PTE_V) t"
      using True ix(3,5) page_insert_fresh [OF c(1) D(2) ix(2) nv]
      by (simp add: env_alloc_page_def entry full_pte_def Let_def)
    show thesis
    proof (cases rule: page_insert_newE [OF c(1) D(2) ix(2) nv r(2,3,4,5) perm])
      case 1
      have "pde t dpd k = 0" using 1(1) ix(1) by (simp add: slot_of_def)
      then show thesis using full step copied_tlb [OF cp] 1 k(1,4) by (simp add: tables_def)
    next
      case (2 t')
      have hd: "hd ys \<in> set xs" if "pde t dpd (PDX ?va) = 0"
        using 2(4) [OF that] c(3) hd_in_set by blast
      have al: "alloc_inv s xs" using st vm_invD(1) by (auto simp: copyable_def)
      have e: "page2pa ?p OR (PG_ADDR_OFFSET (pte_at s ?x) OR PTE_V) = pte_at s ?x" by (rule entry_perm [OF True])
      have "unat (pp_ref t' p) = unat (pp_ref t p) + (if p = ?p then 1 else 0)" if "pp_ref s p \<noteq> 0" for p
        using that hd alloc_inv_unit [OF al] unat_inc [OF r(5)] by (auto simp: 2(5))
      moreover have "vm_only t t'" using 2(1) by (rule vm_only_insert_new)
      moreover have "set (if pde t dpd (PDX ?va) = 0 then tl ys else ys) \<subseteq> set ys"
        by (cases ys) auto
      moreover have tabs: "tables t' dpd = insert k (tables t dpd)"
      proof -
        have "pde t' dpd i = pde t dpd i" if "i < 0x800" "i \<noteq> k" for i
          using 2(8) [OF D(2) that(1)] that(2) ix(1) by (simp add: slot_of_def)
        moreover have "pde t' dpd k \<noteq> 0" using 2(9) ix(1) by (simp add: slot_of_def)
        ultimately have "i \<in> tables t' dpd \<longleftrightarrow> i \<in> insert k (tables t dpd)" for i
          using k(1) by (cases "i = k"; cases "i < 0x800") (simp_all add: tables_def)
        then show ?thesis by blast
      qed
      moreover have "card (tables t' dpd) + length (if pde t dpd (PDX ?va) = 0 then tl ys else ys) =
          card (tables t dpd) + length ys"
      proof (cases "pde t dpd k = 0")
        case True
        then have "ys \<noteq> []" "k \<notin> tables t dpd" using 2(4) ix(1) by (simp_all add: slot_of_def tables_def)
        then show ?thesis using True ix(1) by (cases ys) (simp_all add: tabs slot_of_def)
      next
        case False
        then have "insert k (tables t dpd) = tables t dpd" using k(1) by (auto simp: tables_def)
        then show ?thesis using False ix(1) by (simp add: tabs slot_of_def)
      qed
      ultimately have "copied s t' D xs (if pde t dpd (PDX ?va) = 0 then tl ys else ys) spd dpd (insert ?x S)"
        using copied_step [OF cp st x(1) k(3) True 2(2)] 2(3,6,8) unfolding ix(1) e by blast
      then show thesis using copied(1) 2(1) step by simp
    qed
  qed
qed

subsection \<open>The loops\<close>

lemma foldE_snoc: "foldE f (xs @ [x]) s =
    do { (r, t) \<leftarrow> foldE f xs s; (case r of Inl e \<Rightarrow> Some (Inl e, t) | Inr _ \<Rightarrow> f x t) }"
  by (induction xs arbitrary: s) (auto split: Option.bind_split sum.split prod.split)

lemma row_sub: "k < 0x800 \<Longrightarrow> n \<le> 256 \<Longrightarrow> row pd k n \<subseteq> all_slots {pd}"
  using row_slots [of pd "{pd}" k n] by simp

lemma row_notin: "n < 256 \<Longrightarrow> (pd, k, of_nat n) \<notin> row pd k n"
  by (simp add: row_def unat_of_nat_u32)

lemma copy_row:
  assumes cp: "copied s t D xs ys spd dpd S" and st: "copyable s D xs spd dpd" and S: "S \<subseteq> all_slots {spd}"
    and k: "k < 0x800" "pde s spd k \<noteq> 0" "S \<inter> row spd k 256 = {}" and n: "n \<le> 256"
  shows "\<exists>r t' zs S'. foldE (\<lambda>j. env_alloc_page (frame dpd) k (frame (pte_page (pde s spd k))) (of_nat j * BY2PG)) [0..<n] t
      = Some (r, t') \<and> copied s t' D xs zs spd dpd S' \<and>
    (case r of Inr _ \<Rightarrow> S' = S \<union> row spd k n | Inl e \<Rightarrow> e = E_NO_MEM \<and> zs = [] \<and> S' \<subseteq> all_slots {spd} \<and> tables t' dpd \<subset> tables s spd)"
  using n
proof (induction n)
  case 0
  have "copied s t D xs ys spd dpd (S \<union> row spd k 0)" using cp by (simp add: row_0)
  then show ?case by (auto simp: row_0)
next
  case (Suc n)
  then obtain r t1 zs S1 where t1: "foldE (\<lambda>j. env_alloc_page (frame dpd) k (frame (pte_page (pde s spd k))) (of_nat j * BY2PG)) [0..<n] t
      = Some (r, t1)" "copied s t1 D xs zs spd dpd S1"
    "case r of Inr _ \<Rightarrow> S1 = S \<union> row spd k n | Inl e \<Rightarrow> e = E_NO_MEM \<and> zs = [] \<and> S1 \<subseteq> all_slots {spd} \<and> tables t1 dpd \<subset> tables s spd"
    by (metis Suc_leD)
  show ?case
  proof (cases r)
    case (Inl e)
    then have "zs = []" "e = E_NO_MEM" "S1 \<subseteq> all_slots {spd}" "tables t1 dpd \<subset> tables s spd" using t1(3) by simp_all
    then show ?thesis using t1(1,2) Inl by (intro exI [of _ r] exI [of _ t1] exI [of _ "[]"] exI [of _ S1]) (simp add: foldE_snoc)
  next
    case (Inr u)
    then have S1: "S1 = S \<union> row spd k n" using t1(3) by simp
    have n: "n < 256" using Suc.prems by simp
    have sub: "S1 \<subseteq> all_slots {spd}" using S row_sub [OF k(1), of n] n S1 by simp
    have "(spd, k, of_nat n) \<in> row spd k 256" using n by (simp add: row_def unat_of_nat_u32)
    then have new: "(spd, k, of_nat n) \<notin> S1" using k(3) row_notin [OF n] S1 by auto
    have ins: "insert (spd, k, of_nat n) S1 = S \<union> row spd k (Suc n)" by (auto simp: S1 row_Suc [OF n])
    show ?thesis
    proof (cases rule: env_alloc_page_ok [OF t1(2) st sub k(1) n new k(2)])
      case (1 t2 zs2)
      then show ?thesis
        using t1(1) Inr ins by (intro exI [of _ "Inr ()"] exI [of _ t2] exI [of _ zs2] exI [of _ "S \<union> row spd k (Suc n)"])
          (simp add: foldE_snoc)
    next
      case (2 t2)
      then have "tables t2 dpd \<subset> tables s spd" using copiedD(8) [OF 2(2)] by blast
      then show ?thesis
        using t1(1) Inr sub 2 by (intro exI [of _ "Inl E_NO_MEM"] exI [of _ t2] exI [of _ "[]"] exI [of _ S1])
          (simp add: foldE_snoc)
    qed
  qed
qed

lemma table_entry:
  assumes inv: "vm_inv s D xs" and d: "d \<in> D" "k < 0x800"
  shows "pde s d k AND PDE_PAGE_TABLE \<noteq> PDE_PAGE_TABLE \<longleftrightarrow> pde s d k = 0"
    and "pde s d k \<noteq> 0 \<Longrightarrow> KADDR (npage s) (PTE_ADDR (pde s d k)) = Some (frame (pte_page (pde s d k)))"
proof -
  have q: "(pde s d k AND PDE_PAGE_TABLE = PDE_PAGE_TABLE) \<and>
      KADDR (npage s) (PTE_ADDR (pde s d k)) = Some (frame (pte_page (pde s d k)))" if "pde s d k \<noteq> 0"
    using vm_invD(2) [OF inv] d that
  proof (rule vm_wf_tableE)
    fix q assume q: "pde s d k = page2pa q OR PDE_PAGE_TABLE" "live_page (npage s) (pp_ref s) q" "pte_page (pde s d k) = q"
    show ?thesis using live_page_simps [OF q(2)] unfolding q(3) unfolding q(1) by (simp add: entry_flags KADDR_page2pa)
  qed
  then show "pde s d k AND PDE_PAGE_TABLE \<noteq> PDE_PAGE_TABLE \<longleftrightarrow> pde s d k = 0" by auto
  show "pde s d k \<noteq> 0 \<Longrightarrow> KADDR (npage s) (PTE_ADDR (pde s d k)) = Some (frame (pte_page (pde s d k)))"
    using q by simp
qed

lemma copied_absent:
  assumes "copied s t D xs ys spd dpd S" "pde s spd k = 0" "S \<inter> row spd k 256 = {}"
  shows "copied s t D xs ys spd dpd (S \<union> row spd k 256)"
proof -
  have z: "pte_at s (spd, k, j) = 0" for j using assms(2) by (simp add: pte_at.simps)
  then have "copies (pte_at s) (S \<union> row spd k 256) p = copies (pte_at s) S p" for p
    unfolding copies_def by (intro arg_cong [of _ _ card]) (auto simp: row_def)
  moreover have "(spd, y) \<in> S \<union> row spd k 256 \<and> full_pte (pte_at s (spd, y)) \<longleftrightarrow> (spd, y) \<in> S \<and> full_pte (pte_at s (spd, y))" for y
    using z by (auto simp: row_def)
  ultimately show ?thesis using assms(1) unfolding copied_def by simp
qed

lemma copy_table:
  assumes cp: "copied s t D xs ys spd dpd S" and st: "copyable s D xs spd dpd" and S: "S \<subseteq> all_slots {spd}"
    and k: "k < 0x800" "S \<inter> row spd k 256 = {}"
  shows "\<exists>r t' zs S'. env_alloc_table (frame spd) (frame dpd) k t = Some (r, t') \<and> copied s t' D xs zs spd dpd S' \<and>
    (case r of Inr _ \<Rightarrow> S' = S \<union> row spd k 256 | Inl e \<Rightarrow> e = E_NO_MEM \<and> zs = [] \<and> S' \<subseteq> all_slots {spd} \<and> tables t' dpd \<subset> tables s spd)"
proof -
  note c = copiedD [OF cp]
  have D: "spd \<in> D" "spd \<noteq> dpd" and inv: "vm_inv s D xs" using st by (simp_all add: copyable_def)
  have l: "load32 (kmem t) (frame spd + 4 * k) = pde s spd k" using c(5) [OF D(1) k(1) D(2)] by (simp add: pde_def)
  show ?thesis
  proof (cases "pde s spd k = 0")
    case True
    then have "env_alloc_table (frame spd) (frame dpd) k t = Some (Inr (), t)" by (simp add: env_alloc_table_def l)
    then show ?thesis using copied_absent [OF cp True k(2)] by auto
  next
    case False
    have "env_alloc_table (frame spd) (frame dpd) k t =
        foldE (\<lambda>j. env_alloc_page (frame dpd) k (frame (pte_page (pde s spd k))) (of_nat j * BY2PG)) [0..<256] t"
      using table_entry [OF inv D(1) k(1)] False c(4) by (simp add: env_alloc_table_def l)
    then show ?thesis using copy_row [OF cp st S k(1) False k(2), of 256] by simp
  qed
qed

lemma copy_rows:
  assumes st: "copyable s D xs spd dpd" and n: "n \<le> 2048"
  shows "\<exists>r t zs S. foldE (\<lambda>k. env_alloc_table (frame spd) (frame dpd) (of_nat k)) [0..<n] s = Some (r, t) \<and>
    copied s t D xs zs spd dpd S \<and>
    (case r of Inr _ \<Rightarrow> S = rows spd n | Inl e \<Rightarrow> e = E_NO_MEM \<and> zs = [] \<and> S \<subseteq> all_slots {spd} \<and> tables t dpd \<subset> tables s spd)"
  using n
proof (induction n)
  case 0
  show ?case using copied_refl [OF st] by (auto simp: rows_0)
next
  case (Suc n)
  then obtain r t zs S where t: "foldE (\<lambda>k. env_alloc_table (frame spd) (frame dpd) (of_nat k)) [0..<n] s = Some (r, t)"
    "copied s t D xs zs spd dpd S"
    "case r of Inr _ \<Rightarrow> S = rows spd n | Inl e \<Rightarrow> e = E_NO_MEM \<and> zs = [] \<and> S \<subseteq> all_slots {spd} \<and> tables t dpd \<subset> tables s spd"
    by (metis Suc_leD)
  show ?case
  proof (cases r)
    case (Inl e)
    then show ?thesis
      using t by (intro exI [of _ r] exI [of _ t] exI [of _ "[]"] exI [of _ S]) (simp add: foldE_snoc)
  next
    case (Inr u)
    then have S: "S = rows spd n" using t(3) by simp
    have n: "n < 2048" using Suc.prems by simp
    have k: "(of_nat n :: u32) < 0x800" using n by (simp add: word_less_nat_alt unat_of_nat_u32)
    have "S \<subseteq> all_slots {spd}" using n by (auto simp: S rows_def all_slots_def word_less_nat_alt)
    from copy_table [OF t(2) st this k] rows_Suc(3) [OF n] obtain r' t' zs' S' where
      "env_alloc_table (frame spd) (frame dpd) (of_nat n) t = Some (r', t')" "copied s t' D xs zs' spd dpd S'"
      "case r' of Inr _ \<Rightarrow> S' = S \<union> row spd (of_nat n) 256 | Inl e \<Rightarrow> e = E_NO_MEM \<and> zs' = [] \<and> S' \<subseteq> all_slots {spd} \<and> tables t' dpd \<subset> tables s spd"
      unfolding S by metis
    then show ?thesis
      using t(1) Inr S by (intro exI [of _ r'] exI [of _ t'] exI [of _ zs'] exI [of _ S'])
        (cases r'; simp add: foldE_snoc rows_Suc(1) [OF n])
  qed
qed

lemma all_rows: "rows pd 2048 = all_slots {pd}"
  by (auto simp: rows_def all_slots_def word_less_nat_alt)

subsection \<open>The call\<close>

text \<open>What the new address space maps once the entries \<open>S\<close> are copied.\<close>

lemma copied_view:
  assumes cp: "copied s t D xs ys spd dpd S" and st: "copyable s D xs spd dpd" and v: "v < ULIM"
  shows "d \<in> D \<Longrightarrow> d \<noteq> dpd \<Longrightarrow> upte t d v = upte s d v"
    and "upte t dpd v = (if slot_of spd v \<in> S \<and> full_pte (upte s spd v) then upte s spd v else 0)"
proof -
  note c = copiedD [OF cp]
  show "d \<in> D \<Longrightarrow> d \<noteq> dpd \<Longrightarrow> upte t d v = upte s d v"
    using c(6) [OF slot_of_all [OF _ v]] by (simp add: upte_def slot_of_def)
  have D: "dpd \<in> D" and z: "\<forall>x\<in>all_slots {dpd}. pte_at s x = 0" using st by (simp_all add: copyable_def)
  have "pte_at s (slot_of dpd v) = 0" using z slot_of_all [of dpd "{dpd}" v] v by blast
  then show "upte t dpd v = (if slot_of spd v \<in> S \<and> full_pte (upte s spd v) then upte s spd v else 0)"
    using c(6) [OF slot_of_all [OF D v]] by (simp add: upte_def slot_of_def)
qed

lemma slot_va:
  assumes "x \<in> all_slots D"
  obtains v where "v < ULIM" "x = slot_of (fst x) v" "fst x \<in> D"
proof -
  obtain d i j where x: "x = (d, i, j)" "d \<in> D" "i < 0x800" "j < 0x100"
    using assms by (auto simp: all_slots_def)
  have "unat j < 256" using x(4) by (simp add: word_less_nat_alt)
  from that [of "push_bit 20 i OR of_nat (unat j) * BY2PG"] indices(1,2) [OF x(3) this] show thesis
    by (simp add: x)
qed

text \<open>The state after \<open>env_alloc\<close> can be copied.\<close>

lemma alloc_copyable:
  assumes inv: "vm_inv s D (p # ps)" and inv1: "vm_inv s1 (insert p D) ps" and r1: "pp_ref s1 = (pp_ref s)(p := 1)"
    and v0: "\<And>v. v < ULIM \<Longrightarrow> upte s1 p v = 0" "\<And>i. i < 0x800 \<Longrightarrow> pde s1 p i = 0"
    and v1: "\<And>d v. d \<in> D \<Longrightarrow> v < ULIM \<Longrightarrow> upte s1 d v = upte s d v" and spd: "spd \<in> D"
    and refs: "\<And>q. unat (pp_ref s q) + copies (pte_at s) (all_slots {spd}) q \<le> 0xFFFF"
  shows "copyable s1 (insert p D) ps spd p" "p \<notin> D"
    "copies (pte_at s1) (all_slots {spd}) q = copies (pte_at s) (all_slots {spd}) q"
proof -
  note wf = vm_invD(2) [OF inv]
  have p: "pp_ref s p = 0" using alloc_inv_unit [OF vm_invD(1) [OF inv], of p] by simp
  then show pD: "p \<notin> D" using vm_wf_dir [OF wf, of p] by (auto simp: live_page_def)
  have pte: "pte_at s1 x = pte_at s x" if "x \<in> all_slots {spd}" for x
    using slot_va [OF that] v1 [OF spd] by (metis singletonD upte_def)
  show cs: "copies (pte_at s1) (all_slots {spd}) q = copies (pte_at s) (all_slots {spd}) q" for q
    unfolding copies_def by (intro arg_cong [of _ _ card] Collect_cong conj_cong refl) (simp_all add: pte)
  have z: "pte_at s1 x = 0" if "x \<in> all_slots {p}" for x
    using slot_va [OF that] v0(1) by (metis singletonD upte_def)
  have "mappings (pte_at s) D p = {}"
  proof -
    have "card (mappings (pte_at s) D p) \<le> unat (pp_ref s p)" using wf by (simp add: vm_wf_def)
    then show ?thesis using p by simp
  qed
  then have "copies (pte_at s) (all_slots {spd}) p = 0"
    using spd by (auto simp: copies_def mappings_def all_slots_def full_pte_valid)
  then have "unat (pp_ref s1 q) + copies (pte_at s1) (all_slots {spd}) q \<le> 0xFFFF" for q
    using refs [of q] by (cases "q = p") (simp_all add: r1 cs)
  then show "copyable s1 (insert p D) ps spd p"
    using inv1 spd pD z v0(2) by (auto simp: copyable_def tables_def)
qed

text \<open>Variables that the call does not touch.\<close>

definition alloc_kept :: "kstate \<Rightarrow> kstate \<Rightarrow> bool" where
  "alloc_kept s s' \<longleftrightarrow> sched_iter s' = sched_iter s \<and> sched_ts s' = sched_ts s \<and> boot_pgdir s' = boot_pgdir s \<and>
     mCONTEXT s' = mCONTEXT s \<and> exc_tf s' = exc_tf s"

lemma env_alloc_kept:
  assumes "env_alloc cpsr parent s = Some (Inr e, s')"
  shows "alloc_kept s s'" "env_ipc_recving (envs s' e) = env_ipc_recving (envs s e)"
  using assms by (auto simp: alloc_kept_def env_alloc_def env_setup_vm_def mkenvid_def page_alloc_def Let_def
      split: option.split_asm Option.bind_split_asm sum.split_asm)

lemma alloc_kept_vm_only: "vm_only s s' \<Longrightarrow> alloc_kept s s'"
  unfolding alloc_kept_def vm_only_def by (cases s; cases s') simp

lemma sys_env_alloc_ok:
  assumes sp: "spaces s D (p # ps)" and fl: "lst_rep (env_free_list s) (e # es)"
    and c: "curenv s = Some c" "c \<noteq> e" "env_pgdir (envs s c) = frame spd" "spd \<in> D"
    and boot: "boot_pgdir s = frame b" "unit_page b" "b \<noteq> p" "\<forall>i. 0x7FD \<le> i \<longrightarrow> i < 0x800 \<longrightarrow> pde s b i = 0"
    and refs: "\<And>q. unat (pp_ref s q) + copies (pte_at s) (all_slots {spd}) q \<le> 0xFFFF"
  shows "\<exists>r s' xs'. sys_env_alloc cpsr s = Some (Return r s') \<and> spaces s' (insert p D) xs' \<and> p \<notin> D \<and>
    lst_rep (env_free_list s') es \<and> env_sched_list s' = env_sched_list s \<and> curenv s' = curenv s \<and>
    (\<forall>i. i \<noteq> e \<longrightarrow> envs s' i = envs s i) \<and> (\<forall>d\<in>D. \<forall>v<ULIM. upte s' d v = upte s d v) \<and>
    env_pgdir (envs s' e) = frame p \<and> env_parent_id (envs s' e) = env_id (envs s c) \<and>
    (\<forall>d\<in>D. \<forall>i<0x800. pde s' d i = pde s d i) \<and> alloc_kept s s' \<and>
    env_ttb (envs s' e) = page2pa p \<and> env_ipc_recving (envs s' e) = env_ipc_recving (envs s e) \<and>
    env_id (envs s' e) = fst (mkenvid e s) \<and> env_status (envs s' e) = ENV_NOT_RUNNABLE \<and>
    (case r of
       Inl err \<Rightarrow> err = E_NO_MEM \<and> xs' = [] \<and> length ps < card (tables s spd) \<and>
         (\<forall>v<ULIM. upte s' p v \<in> {0, upte s spd v})
     | Inr eid \<Rightarrow> eid = fst (mkenvid e s) \<and>
         env_tf (envs s' e) = (exc_tf s)\<lparr>regs := (regs (exc_tf s))(0 := 0)\<rparr> \<and>
         (\<forall>v<ULIM. upte s' p v = (if full_pte (upte s spd v) then upte s spd v else 0)) \<and>
         (\<forall>q. pp_ref s q \<noteq> 0 \<longrightarrow>
            unat (pp_ref s' q) = unat (pp_ref s q) + copies (pte_at s) (all_slots {spd}) q))"
proof -
  have inv: "vm_inv s D (p # ps)" using sp by (simp add: spaces_def)
  obtain s1 where s1: "env_alloc cpsr (env_id (envs s c)) s = Some (Inr e, s1)" "vm_inv s1 (insert p D) ps"
    "lst_rep (env_free_list s1) es" "pp_ref s1 = (pp_ref s)(p := 1)" "\<And>v. v < ULIM \<Longrightarrow> upte s1 p v = 0"
    "\<And>d v. d \<in> D \<Longrightarrow> v < ULIM \<Longrightarrow> upte s1 d v = upte s d v"
    "env_pgdir (envs s1 e) = frame p" "env_id (envs s1 e) = fst (mkenvid e s)"
    "env_parent_id (envs s1 e) = env_id (envs s c)" "env_status (envs s1 e) = ENV_NOT_RUNNABLE"
    "\<And>i. i \<noteq> e \<Longrightarrow> envs s1 i = envs s i" "curenv s1 = curenv s" "env_sched_list s1 = env_sched_list s"
    "\<And>i. i < 0x7FD \<Longrightarrow> pde s1 p i = 0" "\<And>i. 0x7FD \<le> i \<Longrightarrow> i < 0x1000 \<Longrightarrow> pde s1 p i = pde s b i"
    "\<And>d i. d \<in> D \<Longrightarrow> i < 0x800 \<Longrightarrow> pde s1 d i = pde s d i" "env_ttb (envs s1 e) = page2pa p"
    by (rule env_allocE [OF inv fl boot(1-3), of cpsr "env_id (envs s c)"]) (simp add: boot(4), (rule that; assumption))
  have p0: "pde s1 p i = 0" if "i < 0x800" for i
    using s1(14) [of i] s1(15) [of i] boot(4) dir_entry_simps(1) [OF boot(2) that] that by force
  have tabs: "tables s1 spd = tables s spd" using s1(16) [OF c(4)] by (auto simp: tables_def)
  note cp = alloc_copyable [OF inv s1(2,4,5) p0 s1(6) c(4) refs]
  obtain r t zs S where t: "foldE (\<lambda>k. env_alloc_table (frame spd) (frame p) (of_nat k)) [0..<2048] s1 = Some (r, t)"
    "copied s1 t (insert p D) ps zs spd p S"
    "case r of Inr _ \<Rightarrow> S = rows spd 2048 | Inl e \<Rightarrow> e = E_NO_MEM \<and> zs = [] \<and> S \<subseteq> all_slots {spd} \<and> tables t p \<subset> tables s1 spd"
    using copy_rows [OF cp(1), of 2048] by auto
  note ct = copiedD [OF t(2)] and only = vm_onlyD [OF copiedD(2) [OF t(2)]]
  have tf: "exc_tf t = exc_tf s" using alloc_kept_vm_only [OF ct(2)] env_alloc_kept(1) [OF s1(1)] by (simp add: alloc_kept_def)
  have k1: "alloc_kept s s1" "env_ipc_recving (envs s1 e) = env_ipc_recving (envs s e)"
    by (rule env_alloc_kept [OF s1(1)])+
  have kt: "alloc_kept s t" using k1(1) alloc_kept_vm_only [OF ct(2)] by (simp add: alloc_kept_def)
  have pdes: "pde t d i = pde s d i" if "d \<in> D" "i < 0x800" for d i
    using ct(5) [of d i] s1(16) [OF that] cp(2) that by auto
  have sp1: "spaces s1 (insert p D) ps"
    using sp s1(2,7,11) by (auto simp: spaces_def) (metis)
  have spt: "spaces t (insert p D) zs" by (rule spaces_only [OF sp1 ct(2,1)])
  have dirs: "env_pgdir (envs s1 c) = frame spd" using s1(11) c(2,3) by simp
  have old: "upte t d v = upte s d v" if "d \<in> D" "v < ULIM" for d v
    using copied_view(1) [OF t(2) cp(1) that(2), of d] s1(6) [OF that] that cp(2) by auto
  have new: "upte t p v = (if slot_of spd v \<in> S \<and> full_pte (upte s spd v) then upte s spd v else 0)" if "v < ULIM" for v
    using copied_view(2) [OF t(2) cp(1) that] s1(6) [OF c(4) that] by simp
  show ?thesis
  proof (cases r)
    case (Inl err)
    have z: "tables t p \<subset> tables s spd" "zs = []" using t(3) Inl tabs by simp_all
    have "card (tables t p) < card (tables s spd)" by (rule psubset_card_mono [OF _ z(1)]) simp
    then have "length ps < card (tables s spd)" using ct(9) z(2) by simp
    moreover have "sys_env_alloc cpsr s = Some (Return (Inl err) t)"
      using t(1) Inl by (simp add: sys_env_alloc_def c(1) s1(1,7) dirs)
    ultimately show ?thesis
      using spt old new t(3) Inl s1(3,7-13,17) only cp(2) kt pdes k1(2) by (intro exI [of _ "Inl err"] exI [of _ t] exI [of _ zs]) auto
  next
    case (Inr u)
    obtain s' where s': "s' = t\<lparr>envs := (envs t)(e := (envs t e)\<lparr>env_status := ENV_NOT_RUNNABLE,
      env_tf := (exc_tf s)\<lparr>regs := (regs (exc_tf s))(0 := 0)\<rparr>\<rparr>)\<rparr>" by blast
    have call: "sys_env_alloc cpsr s = Some (Return (Inr (fst (mkenvid e s))) s')"
      using t(1) Inr by (simp add: sys_env_alloc_def c(1) s1(1,7) dirs s' tf only(1) s1(8))
    have mem: "kmem s' = kmem t" by (simp add: s')
    note view = view_kmem [OF mem]
    have "vm_inv s' (insert p D) zs" using ct(1) view(1,2) by (simp add: vm_inv_def alloc_inv_def s')
    then have "spaces s' (insert p D) zs" using spt by (auto simp: spaces_def s' only(1) s1(7))
    moreover have "upte s' p v = (if full_pte (upte s spd v) then upte s spd v else 0)" if "v < ULIM" for v
      using new [OF that] slot_of_all [OF _ that, of spd "{spd}"] t(3) Inr all_rows by (simp add: view(3))
    moreover have "unat (pp_ref s' q) = unat (pp_ref s q) + copies (pte_at s) (all_slots {spd}) q" if "pp_ref s q \<noteq> 0" for q
      using ct(7) [of q] s1(4) that t(3) Inr all_rows cp(3) alloc_inv_unit [OF vm_invD(1) [OF inv], of p]
      by (auto simp: s')
    moreover have "alloc_kept s s'" using kt by (simp add: alloc_kept_def s')
    ultimately show ?thesis
      using call s1(3,7-13,17) only cp(2) old pdes k1(2)
      by (intro exI [of _ "Inr (fst (mkenvid e s))"] exI [of _ s'] exI [of _ zs]) (simp add: view, simp add: s')
  qed
qed

subsection \<open>The property\<close>

text \<open>Property C18. \<open>sys_env_alloc\<close> gives the caller a child in a new address space. Every page that the
  caller maps is mapped in the child at the same address with the same permissions, and has one
  more reference for it; no other address space changes. The child's saved frame is the caller's,
  with result 0, its parent is the caller, and it is not runnable. The call fails only for want of
  pages for the child's tables; then all free pages are used up, and the child, which stays
  allocated, maps a part of what the caller maps.\<close>

theorem sys_env_alloc_correct:
  assumes "spaces s D (p # ps)" and "lst_rep (env_free_list s) (e # es)"
    and "curenv s = Some c" "c \<noteq> e" "env_pgdir (envs s c) = frame spd" "spd \<in> D"
    and "boot_pgdir s = frame b" "unit_page b" "b \<noteq> p" "\<And>i. 0x7FD \<le> i \<Longrightarrow> i < 0x800 \<Longrightarrow> pde s b i = 0"
    and "\<And>q. unat (pp_ref s q) + copies (pte_at s) (all_slots {spd}) q \<le> 0xFFFF"
  shows "\<exists>r s' xs'. sys_env_alloc cpsr s = Some (Return r s') \<and> spaces s' (insert p D) xs' \<and> p \<notin> D \<and>
    lst_rep (env_free_list s') es \<and> env_sched_list s' = env_sched_list s \<and> curenv s' = curenv s \<and>
    (\<forall>i. i \<noteq> e \<longrightarrow> envs s' i = envs s i) \<and> (\<forall>d\<in>D. \<forall>v<ULIM. upte s' d v = upte s d v) \<and>
    env_pgdir (envs s' e) = frame p \<and> env_parent_id (envs s' e) = env_id (envs s c) \<and>
    env_id (envs s' e) = fst (mkenvid e s) \<and> env_status (envs s' e) = ENV_NOT_RUNNABLE \<and>
    (case r of
       Inl err \<Rightarrow> err = E_NO_MEM \<and> xs' = [] \<and> length ps < card (tables s spd) \<and>
         (\<forall>v<ULIM. upte s' p v \<in> {0, upte s spd v})
     | Inr eid \<Rightarrow> eid = fst (mkenvid e s) \<and>
         env_tf (envs s' e) = (exc_tf s)\<lparr>regs := (regs (exc_tf s))(0 := 0)\<rparr> \<and>
         (\<forall>v<ULIM. upte s' p v = (if full_pte (upte s spd v) then upte s spd v else 0)) \<and>
         (\<forall>q. pp_ref s q \<noteq> 0 \<longrightarrow>
            unat (pp_ref s' q) = unat (pp_ref s q) + copies (pte_at s) (all_slots {spd}) q))"
proof -
  have "\<forall>i. 0x7FD \<le> i \<longrightarrow> i < 0x800 \<longrightarrow> pde s b i = 0" using assms(10) by blast
  from sys_env_alloc_ok [OF assms(1-9) this assms(11), of cpsr] show ?thesis
    by (elim exE conjE) (intro exI conjI; assumption)
qed

text \<open>A running environment that maps one page at \<open>0x400000\<close>, and a free one.\<close>

lemma forkable:
  obtains s where "spaces s {2064} [2056, 2052, 2048]" "lst_rep (env_free_list s) [1]" "curenv s = Some 0"
    "env_pgdir (envs s 0) = frame 2064" "boot_pgdir s = frame 2064" "\<And>i. 0x7FD \<le> i \<Longrightarrow> i < 0x800 \<Longrightarrow> pde s 2064 i = 0"
    "\<And>q. unat (pp_ref s q) + copies (pte_at s) (all_slots {2064}) q \<le> 0xFFFF" "card (tables s 2064) \<le> 1"
    "upte s 2064 0x400000 = 0x4000443A" "next_env_id s = 0" "env_id (envs s 0) = 256"
    "env_sched_list s = LIST_INSERT_HEAD 0 null_lst" "exc_tf s = zero_tf"
proof -
  have P: "PDX 0x400000 = 4" by (simp add: PDX_def)
  have v: "\<not> valid_pte (upte one_space 2064 0x400000)" by (simp add: one_space_mem)
  obtain t where t: "vm_inv t {2064} [2056, 2052, 2048]" "pp_ref t 4 = 2"
    "\<And>x. x \<in> all_slots {2064} \<Longrightarrow> pte_at t x = ((pte_at one_space)(slot_of 2064 0x400000 := page2pa 4 OR (PTE_R OR PTE_V))) x"
    "\<And>i. i < 0x800 \<Longrightarrow> i \<noteq> 4 \<Longrightarrow> pde t 2064 i = 0"
  proof (cases rule: page_insert_newE [OF one_space_inv _ _ v, where p = 4 and PERM = "PTE_R OR PTE_V"])
    case (10 t)
    then show thesis
      using that [of t] one_space_npage by (simp add: one_space_mem P)
  qed (auto simp: unit_page_def one_space_npage tables_of_def one_space_mem)
  have z: "pte_at one_space x = 0" for x by (cases x) (simp add: pte_at.simps one_space_mem)
  have pte: "pte_at t x = (if x = slot_of 2064 0x400000 then 0x4000443A else 0)" if "x \<in> all_slots {2064}" for x
    using t(3) [OF that] z by (simp add: page2pa_def)
  have one: "copies (pte_at t) (all_slots {2064}) q \<le> (if q = 4 then 1 else 0)" for q
  proof -
    have "{x \<in> all_slots {2064}. full_pte (pte_at t x) \<and> pte_page (pte_at t x) = q} \<subseteq>
        (if q = 4 then {slot_of 2064 0x400000} else {})"
      using pte by (auto simp: pte_page_def PPN_def split: if_splits)
    then have "copies (pte_at t) (all_slots {2064}) q \<le> card (if q = 4 then {slot_of 2064 0x400000} else {})"
      unfolding copies_def by (rule card_mono [rotated]) simp
    then show ?thesis by (auto split: if_splits)
  qed
  have "tables t 2064 \<subseteq> {4}" using t(4) by (auto simp: tables_def)
  then have tabs: "card (tables t 2064) \<le> 1" using card_mono [of "{4}" "tables t 2064"] by simp
  let ?s = "t\<lparr>envs := envs one_env, curenv := Some 0, env_free_list := LIST_INSERT_HEAD 1 null_lst, boot_pgdir := frame 2064,
    next_env_id := 0, env_sched_list := LIST_INSERT_HEAD 0 null_lst, exc_tf := zero_tf\<rparr>"
  have mem: "kmem ?s = kmem t" by simp
  note view = view_kmem [OF mem]
  have "vm_inv ?s {2064} [2056, 2052, 2048] = vm_inv t {2064} [2056, 2052, 2048]" by (rule vm_inv_cong; simp)
  then have sp: "spaces ?s {2064} [2056, 2052, 2048]"
    using t(1) one_env_spaces(1) by (simp add: spaces_def)
  have r: "unat (pp_ref ?s q) + copies (pte_at ?s) (all_slots {2064}) q \<le> 0xFFFF" for q
  proof -
    have "unat (pp_ref t q) < 65536" using unsigned_less [of "pp_ref t q"] by simp
    then show ?thesis using one [of q] t(2) unfolding view by (auto split: if_splits)
  qed
  show thesis
  proof (rule that [of ?s, OF sp _ _ _ _ _ r])
    show "lst_rep (env_free_list ?s) [1]" using ll.rep_push [OF null_lst_rep, of 1] by simp
    show "pde ?s 2064 i = 0" if "0x7FD \<le> i" "i < 0x800" for i
      unfolding view using t(4) [OF that(2)] that(1) by fastforce
    show "card (tables ?s 2064) \<le> 1" using tabs unfolding tables_def view .
    show "upte ?s 2064 0x400000 = 0x4000443A"
      unfolding view upte_def using pte [OF slot_of_all, of 2064 "0x400000"] by simp
  qed (simp_all add: one_env_self, simp add: one_env_def)
qed

theorem sys_env_alloc_correct_witness:
  "\<exists>s s' xs'. upte s 2064 0x400000 = 0x4000443A \<and> sys_env_alloc 0x13 s = Some (Return (Inr 257) s') \<and>
    spaces s' {2056, 2064} xs' \<and> upte s' 2056 0x400000 = 0x4000443A \<and> env_parent_id (envs s' 1) = 256"
proof -
  obtain s where s: "spaces s {2064} [2056, 2052, 2048]" "lst_rep (env_free_list s) [1]" "curenv s = Some 0"
    "env_pgdir (envs s 0) = frame 2064" "boot_pgdir s = frame 2064" "\<And>i. 0x7FD \<le> i \<Longrightarrow> i < 0x800 \<Longrightarrow> pde s 2064 i = 0"
    "\<And>q. unat (pp_ref s q) + copies (pte_at s) (all_slots {2064}) q \<le> 0xFFFF" "card (tables s 2064) \<le> 1"
    "upte s 2064 0x400000 = 0x4000443A" "next_env_id s = 0" "env_id (envs s 0) = 256"
    by (rule forkable) blast
  obtain r s' xs' where r: "sys_env_alloc 0x13 s = Some (Return r s')" "spaces s' {2056, 2064} xs'"
    "env_parent_id (envs s' 1) = 256"
    "case r of Inl err \<Rightarrow> length [2052, 2048 :: u32] < card (tables s 2064)
     | Inr eid \<Rightarrow> eid = fst (mkenvid 1 s) \<and> (\<forall>v<ULIM. upte s' 2056 v = (if full_pte (upte s 2064 v) then upte s 2064 v else 0))"
    using sys_env_alloc_correct [OF s(1,2,3) _ s(4) _ s(5) _ _ s(6,7), of "0x13"] s(11)
    by (fastforce simp: unit_page_def split: sum.splits)
  obtain eid where "r = Inr eid" using r(4) s(8) by (cases r) auto
  then show ?thesis
    using r s(9,10) by (intro exI [of _ s] exI [of _ s'] exI [of _ xs']) (simp add: mkenvid_def full_pte_def)
qed

end
