(* ===== verification/Frames.thy ===== *)
theory Frames
  imports Release
begin

section \<open>What the page functions leave alone in memory\<close>

text \<open>
  \<open>kept s s' q\<close>: the four frames from the unit page \<open>q\<close> on hold the same bytes in both states. The
  page functions on the directory \<open>pd\<close> write to \<open>pd\<close>, to the tables and to free pages only, so they
  keep every other directory and the pages that hold data.
\<close>

definition kept :: "kstate \<Rightarrow> kstate \<Rightarrow> u32 \<Rightarrow> bool" where
  "kept s s' q \<longleftrightarrow> (\<forall>j<0x1000. load32 (kmem s') (frame q + 4 * j) = load32 (kmem s) (frame q + 4 * j))"

definition outside :: "kstate \<Rightarrow> u32 set \<Rightarrow> u32 list \<Rightarrow> u32 \<Rightarrow> u32 \<Rightarrow> bool" where
  "outside s D xs pd q \<longleftrightarrow> unit_page q \<and> q \<noteq> pd \<and> q \<notin> tables_of (pde s) D \<union> set xs"

lemma kept_refl [simp]: "kept s s q"
  by (simp add: kept_def)

lemma kept_same: "kmem s' = kmem s \<Longrightarrow> kept s s' q"
  by (simp add: kept_def)

lemma kept_trans: "kept s t q \<Longrightarrow> kept t u q \<Longrightarrow> kept s u q"
  by (simp add: kept_def)

lemma kept_store:
  "unit_page p \<Longrightarrow> unit_page q \<Longrightarrow> p \<noteq> q \<Longrightarrow> i < 0x1000 \<Longrightarrow> kmem s' = store32 (kmem s) (frame p + 4 * i) v \<Longrightarrow> kept s s' q"
  by (simp add: kept_def load_store_entry)

lemma kept_bzero:
  "unit_page p \<Longrightarrow> unit_page q \<Longrightarrow> p \<noteq> q \<Longrightarrow> kmem s' = bzero (kmem s) (frame p) 4096 \<Longrightarrow> kept s s' q"
  by (simp add: kept_def load_bzero_entry)

lemma kept_pde: "kept s s' d \<Longrightarrow> i < 0x1000 \<Longrightarrow> pde s' d i = pde s d i"
  by (simp add: kept_def pde_def)

lemma kept_page_alloc:
  assumes al: "alloc_inv s xs" and q: "unit_page q" "q \<notin> set xs" and run: "page_alloc s = Some (r, s')"
  shows "kept s s' q"
proof (cases xs)
  case Nil
  then show ?thesis using page_alloc_empty [of s] al run by simp
next
  case (Cons p ps)
  obtain t where t: "page_alloc s = Some (Inr p, t)"
    "t = s\<lparr>page_free_list := page_free_list t, kmem := bzero (kmem s) (frame p) 4096\<rparr>"
    using page_allocE [OF al [unfolded Cons]] by metis
  have "kmem t = bzero (kmem s) (frame p) 4096" by (subst t(2)) simp
  moreover have "unit_page p" "p \<noteq> q" using alloc_inv_unit [OF al, of p] q Cons by auto
  ultimately show ?thesis using run t(1) q(1) by (simp add: kept_bzero)
qed

lemma table_unit:
  assumes inv: "vm_inv s D xs" and pd: "pd \<in> D" "va < ULIM" and nz: "pde s pd (PDX va) \<noteq> 0"
    and out: "outside s D xs d q"
  shows "pte_addr s pd va = frame (pte_page (pde s pd (PDX va))) + 4 * PTX va"
    and "unit_page (pte_page (pde s pd (PDX va)))" and "pte_page (pde s pd (PDX va)) \<noteq> q"
proof -
  have "\<exists>t. pte_page (pde s pd (PDX va)) = t \<and> unit_page t \<and> t \<noteq> q"
    using vm_invD(2) [OF inv] pd(1) PDX_user [OF pd(2)] nz
    by (rule vm_wf_tableE) (use out in \<open>auto simp: outside_def live_page_def\<close>)
  then show "unit_page (pte_page (pde s pd (PDX va)))" "pte_page (pde s pd (PDX va)) \<noteq> q" by simp_all
qed (simp add: pte_addr_def)

lemma kept_pgdir_walk:
  assumes inv: "vm_inv s D xs" and pd: "pd \<in> D" "va < ULIM" and out: "outside s D xs pd q"
    and run: "pgdir_walk (frame pd) va c s = Some (r, s')"
  shows "kept s s' q" and "r = Inr (Some a) \<Longrightarrow> \<exists>t i. a = frame t + 4 * i \<and> i < 0x1000 \<and> unit_page t \<and> t \<noteq> q"
proof -
  have q: "unit_page q" "q \<noteq> pd" "q \<notin> set xs" using out by (simp_all add: outside_def)
  have "kept s s' q \<and> (\<forall>a. r = Inr (Some a) \<longrightarrow> (\<exists>t i. a = frame t + 4 * i \<and> i < 0x1000 \<and> unit_page t \<and> t \<noteq> q))"
  proof (cases "pde s pd (PDX va) = 0")
    case False
    note tab = table_unit [OF inv pd False out]
    have "r = Inr (Some (pte_addr s pd va))" "s' = s"
      using run pgdir_walk_present [OF inv pd False, of c] by auto
    then show ?thesis
      using tab(2,3) PTX_less(2) [of va] unfolding tab(1) by (metis Inr_inject kept_refl option.inject)
  next
    case abs: True
    show ?thesis
    proof (cases "c \<and> xs \<noteq> []")
      case False
      then show ?thesis
        using run pgdir_walk_absent [OF pd(2) abs] pgdir_walk_full [OF pd(2) abs] vm_invD(1) [OF inv] by (cases c) auto
    next
      case True
      then obtain p ps where xs: "xs = p # ps" by (cases xs) auto
      have al: "alloc_inv s (p # ps)" using vm_invD(1) [OF inv] xs by simp
      have p: "unit_page p" "p < npage s" "p \<noteq> q" using alloc_inv_unit [OF al, of p] q(3) xs by auto
      have pdl: "unit_page pd" using vm_wf_dir [OF vm_invD(2) [OF inv] pd(1)] by (simp add: live_page_def)
      obtain t where t: "page_alloc s = Some (Inr p, t)" "npage t = npage s" using page_allocE [OF al] by metis
      have kt: "kept s t q" using kept_page_alloc [OF vm_invD(1) [OF inv] q(1,3) t(1)] .
      let ?t = "set_ref p (pp_ref t p + 1) (t\<lparr>kmem := store32 (kmem t) (frame pd + 4 * PDX va) (page2pa p OR PDE_PAGE_TABLE)\<rparr>)"
      have "page2kva p t = Some (frame p)" using p t(2) by (simp add: page2kva_frame unit_page_def)
      then have "r = Inr (Some (frame p + 4 * PTX va))" "s' = ?t"
        using run True section_va_user [OF pd(2)] abs t(1) by (simp_all add: pgdir_walk_def pde_def)
      moreover have "kept t ?t q" by (rule kept_store [OF pdl q(1) q(2) [symmetric] PDX_less]) simp
      ultimately show ?thesis using kept_trans [OF kt] p PTX_less(2) by blast
    qed
  qed
  then show "kept s s' q" "r = Inr (Some a) \<Longrightarrow> \<exists>t i. a = frame t + 4 * i \<and> i < 0x1000 \<and> unit_page t \<and> t \<noteq> q" by auto
qed

lemma kept_page_remove:
  assumes inv: "vm_inv s D xs" and pd: "pd \<in> D" "va < ULIM" and out: "outside s D xs d q"
    and run: "page_remove (frame pd) va s = Some s'"
  shows "kept s s' q"
proof (cases "valid_pte (upte s pd va)")
  case False
  then show ?thesis using page_remove_absent [OF inv pd False] run by simp
next
  case True
  have nz: "pde s pd (PDX va) \<noteq> 0" using True upte_absent [of s pd va] by auto
  note tab = table_unit [OF inv pd nz out]
  have "kmem s' = store32 (kmem s) (pte_addr s pd va) 0"
    using run section_va_user [OF pd(2)] page_lookup_upte [OF inv pd] True
    by (auto simp: page_remove_def page_free_total Let_def split: if_splits)
  then show ?thesis
    unfolding tab(1) by (rule kept_store [OF tab(2) _ tab(3) PTX_less(2), rotated]) (use out in \<open>simp add: outside_def\<close>)
qed

lemma kept_insert_new:
  assumes inv: "vm_inv s D xs" and pd: "pd \<in> D" "va < ULIM" and out: "outside s D xs pd q"
    and run: "page_insert_new (frame pd) p va perm s = Some (r, s')"
  shows "kept s s' q"
proof -
  let ?s1 = "tlb_invalidate (frame pd) va s"
  have inv1: "vm_inv ?s1 D xs" and out1: "outside ?s1 D xs pd q" using inv out by (simp_all add: outside_def)
  have k1: "kept s ?s1 q" by (rule kept_same) simp
  obtain x t where w: "pgdir_walk (frame pd) va True ?s1 = Some (x, t)"
    using run by (cases "pgdir_walk (frame pd) va True ?s1") (auto simp: page_insert_new_def)
  note kw = kept_pgdir_walk [OF inv1 pd out1 w]
  have "kept t s' q"
  proof (cases "\<exists>a. x = Inr (Some a)")
    case True
    then obtain a u i where a: "x = Inr (Some a)" "a = frame u + 4 * i" "i < 0x1000" "unit_page u" "u \<noteq> q"
      using kw(2) by blast
    have "kmem s' = store32 (kmem t) (frame u + 4 * i) (page2pa p OR perm)"
      using run w a(1,2) by (auto simp: page_insert_new_def)
    then show ?thesis using a out by (intro kept_store [of u q]) (simp_all add: outside_def)
  next
    case False
    then have "s' = t" using run w by (auto simp: page_insert_new_def split: sum.splits option.splits)
    then show ?thesis by simp
  qed
  then show ?thesis using kept_trans [OF kept_trans [OF k1 kw(1)]] by blast
qed

lemma kept_page_insert:
  assumes inv: "vm_inv s D xs" and pd: "pd \<in> D" "va < ULIM" and out: "outside s D xs pd q"
    and other: "valid_pte (upte s pd va) \<Longrightarrow> q \<noteq> pte_page (upte s pd va)"
    and run: "page_insert (frame pd) p va perm s = Some (r, s')"
  shows "kept s s' q"
proof (cases "valid_pte (upte s pd va)")
  case False
  then show ?thesis using run page_insert_fresh [OF inv pd False] kept_insert_new [OF inv pd out] by simp
next
  case True
  let ?p = "pte_page (upte s pd va)"
  have nz: "pde s pd (PDX va) \<noteq> 0" using True upte_absent [of s pd va] by auto
  note tab = table_unit [OF inv pd nz out]
  have live: "live_page (npage s) (pp_ref s) ?p"
    using vm_wf_mapped(1) [OF vm_invD(2) [OF inv] slot_of_all [OF pd], folded upte_def, OF True] .
  then have pa: "pa2page (upte s pd va) s = Some ?p" by (auto simp: pa2page_entry live_page_def)
  show ?thesis
  proof (cases "?p = p")
    case same: True
    have "kmem s' = store32 (kmem s) (pte_addr s pd va) (page2pa p OR (perm OR PTE_V))"
      using run section_va_user [OF pd(2)] True pa same
      by (simp add: page_insert_def pgdir_walk_present [OF inv pd nz] load_pte_addr [OF nz] valid_pte_def) auto
    then show ?thesis
      unfolding tab(1) by (rule kept_store [OF tab(2) _ tab(3) PTX_less(2), rotated]) (use out in \<open>simp add: outside_def\<close>)
  next
    case diff: False
    obtain s1 where s1: "page_remove (frame pd) va s = Some s1" "vm_inv s1 D (if pp_ref s ?p = 1 then ?p # xs else xs)"
      "\<And>d i. d \<in> D \<Longrightarrow> i < 0x800 \<Longrightarrow> pde s1 d i = pde s d i"
      by (rule page_removeE [OF inv pd True refl]) blast
    have "page_insert_new (frame pd) p va (perm OR PTE_V) s1 = Some (r, s')"
      using run section_va_user [OF pd(2)] True pa diff s1(1)
      by (simp add: page_insert_def pgdir_walk_present [OF inv pd nz] load_pte_addr [OF nz] valid_pte_def)
    moreover have "outside s1 D (if pp_ref s ?p = 1 then ?p # xs else xs) pd q"
      using out other [OF True] tables_of_cong [of D "pde s1" "pde s"] s1(3) by (auto simp: outside_def)
    ultimately show ?thesis
      using kept_insert_new [OF s1(2) pd] kept_page_remove [OF inv pd out s1(1)] kept_trans by blast
  qed
qed

subsection \<open>More references\<close>

text \<open>A count may be larger than the number of mappings.\<close>

lemma vm_wf_more_refs:
  assumes wf: "vm_wf n R D P M" and le: "\<And>q. R q \<le> R' q"
  shows "vm_wf n R' D P M"
proof -
  have live: "live_page n R' q" if "live_page n R q" for q
    using that le [of q] by (auto simp: live_page_def)
  have card: "card (mappings M D q) \<le> unat (R' q)" for q
    using wf le [of q] by (auto simp: vm_wf_def word_le_nat_alt intro: order_trans)
  show ?thesis
  proof (rule vm_wfI)
    show "live_page n R' d" if "d \<in> D" for d using vm_wf_dir [OF wf that] by (rule live)
    show "\<exists>q. P d i = page2pa q OR PDE_PAGE_TABLE \<and> live_page n R' q \<and> q \<notin> D" if "d \<in> D" "i < 0x800" "P d i \<noteq> 0" for d i
      using wf that by (rule vm_wf_tableE) (use live in blast)
    show "d' = d \<and> i' = i" if "d \<in> D" "i < 0x800" "d' \<in> D" "i' < 0x800" "P d i \<noteq> 0" "P d' i' = P d i" for d i d' i'
      using wf that unfolding vm_wf_def by blast
    show "unit_page (pte_page (M x)) \<and> pte_page (M x) < n \<and> pte_page (M x) \<notin> D \<and> pte_page (M x) \<notin> tables_of P D"
      if "x \<in> all_slots D" "valid_pte (M x)" for x
      using vm_wf_mapped [OF wf that] by (auto simp: live_page_def)
  qed (rule card)
qed

lemma vm_inv_set_ref:
  assumes "vm_inv s D xs" "p \<notin> set xs" "pp_ref s p \<le> r"
  shows "vm_inv (set_ref p r s) D xs"
proof -
  have "vm_wf (npage s) ((pp_ref s)(p := r)) D (pde s) (pte_at s)"
    by (rule vm_wf_more_refs [OF vm_invD(2) [OF assms(1)]]) (use assms(3) in simp)
  moreover have "kmem (set_ref p r s) = kmem s" by simp
  note view_kmem(1,2) [OF this]
  ultimately show ?thesis
    using alloc_inv_set_ref [OF vm_invD(1) [OF assms(1)] assms(2)] by (simp add: vm_inv_def)
qed

end
