(* ===== verification/Loading.thy ===== *)
theory Loading
  imports Forking Frames
begin

section \<open>What the program loader promises\<close>

text \<open>
  The bytes of a user address space are read through its page table (\<open>user_byte\<close>). A segment
  loaded by \<open>load_icode_mapper\<close> appears at its addresses: the bytes of the file, then zeros up to its
  size in memory; \<open>load_elf\<close> does so for every segment of the image. The source of
  the bytes is kernel memory outside the pool of pages.
\<close>

subsection \<open>Bytes\<close>

lemma load32_byte: "j < 4 \<Longrightarrow> m (a + of_nat j) = ucast (drop_bit (8 * j) (load32 m a))"
proof -
  assume "j < 4"
  then have "j = 0 \<or> j = 1 \<or> j = 2 \<or> j = 3" by arith
  then show ?thesis
    by (auto simp: load32_def intro!: bit_word_eqI) (auto simp: bit_simps dest: bit_imp_le_length)
qed

lemma word_indexE:
  assumes "k < (0x4000 :: u32)"
  obtains i j where "k = 4 * i + of_nat j" "i < 0x1000" "j < 4"
proof -
  have "unat k < 0x4000" using assms by (simp add: word_less_nat_alt)
  then have "k div 4 < 0x1000" by (simp add: word_less_nat_alt unat_div)
  moreover have "k = 4 * (k div 4) + of_nat (unat (k mod 4))" by (simp add: mult_div_mod_eq)
  moreover have "unat (k mod 4) < 4" by (simp add: unat_mod)
  ultimately show thesis using that by blast
qed

lemma kept_byte:
  assumes "kept s s' q" "k < 0x4000"
  shows "kmem s' (frame q + k) = kmem s (frame q + k)"
proof -
  obtain i j where k: "k = 4 * i + of_nat j" "i < 0x1000" "j < 4" by (rule word_indexE [OF assms(2)])
  have e: "frame q + k = (frame q + 4 * i) + of_nat j" using k(1) by simp
  show ?thesis unfolding e using assms(1) k(2,3) by (simp only: load32_byte kept_def)
qed

definition user_byte :: "kstate \<Rightarrow> u32 \<Rightarrow> u32 \<Rightarrow> u8" where
  "user_byte s pd va = kmem s (frame (pte_page (upte s pd va)) + PG_ADDR_OFFSET va)"

text \<open>A page that is neither a directory, nor a table, nor free is not written by the page functions.\<close>

lemma user_byte_kept:
  assumes inv: "vm_inv s D xs" and v: "d \<in> D" "va < ULIM" "valid_pte (upte s d va)"
    and e: "upte s' d va = upte s d va" and k: "\<And>q. outside s D xs pd q \<Longrightarrow> kept s s' q" and pd: "pd \<in> D"
  shows "user_byte s' d va = user_byte s d va"
proof -
  let ?q = "pte_page (upte s d va)"
  have q: "live_page (npage s) (pp_ref s) ?q" "?q \<notin> D \<union> tables_of (pde s) D"
    using vm_wf_mapped [OF vm_invD(2) [OF inv] slot_of_all [OF v(1,2)]] v(3) by (simp_all add: upte_def)
  then have "outside s D xs pd ?q" using pd live_not_free [OF inv] by (auto simp: outside_def live_page_def)
  then show ?thesis
    unfolding user_byte_def e
    by (rule kept_byte [OF k]) (rule order.strict_trans [OF offset_less], simp)
qed

subsection \<open>One page\<close>

lemma vm_inv_data:
  assumes inv: "vm_inv s D xs" and p: "p \<notin> D \<union> tables_of (pde s) D"
    and k: "\<And>q. unit_page q \<Longrightarrow> q \<noteq> p \<Longrightarrow> kept s s' q"
    and same: "npage s' = npage s" "pp_ref s' = pp_ref s" "page_free_list s' = page_free_list s"
  shows "vm_inv s' D xs" "x \<in> all_slots D \<Longrightarrow> pte_at s' x = pte_at s x"
    "d \<in> D \<Longrightarrow> i < 0x800 \<Longrightarrow> pde s' d i = pde s d i"
proof -
  note wf = vm_invD(2) [OF inv]
  have pde': "pde s' d i = pde s d i" if "d \<in> D" "i < 0x800" for d i
  proof -
    have d: "unit_page d" "d \<noteq> p" using vm_wf_dir [OF wf that(1)] p that by (auto simp: live_page_def)
    show ?thesis by (rule kept_pde [OF k [OF d]]) (rule order.strict_trans [OF that(2)], simp)
  qed
  have pte': "pte_at s' x = pte_at s x" if "x \<in> all_slots D" for x
  proof -
    obtain d i j where x: "x = (d, i, j)" "d \<in> D" "i < 0x800" "j < 0x100"
      using \<open>x \<in> all_slots D\<close> by (auto simp: all_slots_def)
    show ?thesis
    proof (cases "pde s d i = 0")
      case True
      then show ?thesis using pde' [OF x(2,3)] by (simp add: x(1) pte_at.simps)
    next
      case False
      from wf x(2,3) False obtain t where t: "pte_page (pde s d i) = t" "live_page (npage s) (pp_ref s) t"
        "t \<in> tables_of (pde s) D"
        by (rule vm_wf_tableE)
      then have "kept s s' t" using p by (intro k) (auto simp: live_page_def)
      then show ?thesis
        using t(1) False pde' [OF x(2,3)] dir_entry_simps(2) [OF x(4)] by (simp add: x(1) pte_at.simps kept_def)
    qed
  qed
  have "vm_wf (npage s) (pp_ref s) D (pde s') (pte_at s')"
    using wf by (subst vm_wf_cong) (auto simp: pde' pte')
  then show "vm_inv s' D xs"
    using alloc_inv_cong [of s' s xs] same vm_invD(1) [OF inv] by (simp add: vm_inv_def)
  show "x \<in> all_slots D \<Longrightarrow> pte_at s' x = pte_at s x" "d \<in> D \<Longrightarrow> i < 0x800 \<Longrightarrow> pde s' d i = pde s d i"
    using pde' pte' by blast+
qed

text \<open>How \<open>fill\<close> writes to the page at \<open>kva\<close>: the bytes \<open>img\<close>, and nothing else.\<close>

definition fills :: "(u32 \<Rightarrow> mem \<Rightarrow> mem) \<Rightarrow> (u32 \<Rightarrow> u8) \<Rightarrow> u32 \<Rightarrow> mem \<Rightarrow> bool" where
  "fills fill img q m \<longleftrightarrow> (\<forall>m'. (\<forall>x. \<not> in_region (frame q) 4096 x \<longrightarrow> m' x = m x) \<longrightarrow>
     fill (frame q) (bzero m' (frame q) 4096) = (\<lambda>x. if in_region (frame q) 4096 x then img (x - frame q) else m' x))"

lemma kept_region:
  assumes "unit_page p" "unit_page q" "q \<noteq> p" "\<And>x. \<not> in_region (frame p) 4096 x \<Longrightarrow> kmem s' x = kmem s x"
  shows "kept s s' q"
  unfolding kept_def
proof (intro allI impI)
  fix j :: u32 assume j: "j < 0x1000"
  show "load32 (kmem s') (frame q + 4 * j) = load32 (kmem s) (frame q + 4 * j)"
  proof (rule load32_cong)
    fix x assume "in_region (frame q + 4 * j) 4 x"
    then obtain k where "k < 4" "x = frame q + 4 * j + of_nat k"
      by (intro that [of "unat (x - (frame q + 4 * j))"]) (simp_all add: in_region_def)
    then show "kmem s' x = kmem s x" using assms entry_byte_in_frame [OF assms(1,2) j] by simp
  qed
qed

lemma mapper_pageE:
  assumes inv: "vm_inv s D xs" and pd: "pd \<in> D" and env: "env_pgdir (envs s e) = frame pd" and va: "va < ULIM"
    and v: "\<not> valid_pte (upte s pd va)" and fill: "\<And>q. q \<in> set xs \<Longrightarrow> fills fill img q (kmem s)"
  obtains (full) s' where "mapper_page e va fill s = Some (Inl E_NO_MEM, s')" "vm_inv s' D []" "vm_only s s'"
      "length xs \<le> 1" "\<And>d w. d \<in> D \<Longrightarrow> w < ULIM \<Longrightarrow> upte s' d w = upte s d w" "\<And>q. outside s D xs pd q \<Longrightarrow> kept s s' q"
      "tables_of (pde s') D = tables_of (pde s) D"
  | (ok) s' xs' p where "mapper_page e va fill s = Some (Inr (), s')" "vm_inv s' D xs'" "vm_only s s'"
      "set xs' \<subseteq> set xs" "length xs \<le> length xs' + 2" "p \<in> set xs"
      "\<And>d w. d \<in> D \<Longrightarrow> w < ULIM \<Longrightarrow> upte s' d w = (if d = pd \<and> same_page w va then page2pa p OR (PTE_R OR PTE_V) else upte s d w)"
      "\<And>k. k < 0x1000 \<Longrightarrow> kmem s' (frame p + k) = img k" "\<And>q. outside s D xs pd q \<Longrightarrow> kept s s' q"
      "tables_of (pde s') D \<subseteq> tables_of (pde s) D \<union> set xs" "p \<notin> set xs'"
proof (cases xs)
  case Nil
  then have "mapper_page e va fill s = Some (Inl E_NO_MEM, s)"
    using page_alloc_empty vm_invD(1) [OF inv] by (simp add: mapper_page_def)
  then show thesis using full [of s] inv Nil by simp
next
  case (Cons p ps)
  obtain s1 where s1: "page_alloc s = Some (Inr p, s1)" "vm_inv s1 D ps" "vm_only s s1" "pp_ref s1 = pp_ref s"
    "\<And>x. x \<in> all_slots D \<Longrightarrow> pte_at s1 x = pte_at s x"
    "unit_page p" "p < npage s1" "pp_ref s1 p = 0" "p \<notin> D \<union> tables_of (pde s1) D \<union> set ps"
    by (rule page_alloc_vmE [OF inv [unfolded Cons]]) blast
  have m1: "kmem s1 = bzero (kmem s) (frame p) 4096"
    using page_allocE [OF vm_invD(1) [OF inv, unfolded Cons]] s1(1) by (metis Pair_inject kstate.select_convs(1) kstate.surjective kstate.update_convs(1) option.inject)
  let ?s2 = "set_ref p 1 s1"
  define s3 where "s3 = ?s2\<lparr>kmem := fill (frame p) (bzero (kmem ?s2) (frame p) 4096)\<rparr>"
  have r3: "npage s3 = npage s1" "pp_ref s3 = (pp_ref s1)(p := 1)" "page_free_list s3 = page_free_list s1" "envs s3 = envs s1"
    by (simp_all add: s3_def)
  have only1: "vm_only s1 s3" unfolding s3_def by (simp add: vm_only_def)
  have pu: "p \<in> set xs" "p < 0x40000" using Cons s1(6) by (simp_all add: unit_page_def)
  have m3: "kmem s3 = (\<lambda>x. if in_region (frame p) 4096 x then img (x - frame p) else kmem s1 x)"
  proof -
    have "\<forall>x. \<not> in_region (frame p) 4096 x \<longrightarrow> kmem s1 x = kmem s x" by (simp add: m1 bzero_closed)
    then have "fill (frame p) (bzero (kmem s1) (frame p) 4096) = (\<lambda>x. if in_region (frame p) 4096 x then img (x - frame p) else kmem s1 x)"
      using fill [OF pu(1)] unfolding fills_def by blast
    then show ?thesis by (simp add: s3_def)
  qed
  have k: "kept s s3 q" if "unit_page q" "q \<noteq> p" for q
    by (rule kept_region [OF s1(6) that]) (simp add: m3 m1 bzero_closed)
  have k3: "kept ?s2 s3 q" if "unit_page q" "q \<noteq> p" for q
    by (rule kept_region [OF s1(6) that]) (simp add: m3)
  have i2: "vm_inv ?s2 D ps" by (rule vm_inv_set_ref [OF s1(2)]) (use s1(8,9) in auto)
  have v2: "pde ?s2 = pde s1" "pte_at ?s2 = pte_at s1" using view_kmem [of ?s2 s1] by simp_all
  have nD: "p \<notin> D \<union> tables_of (pde ?s2) D" using s1(9) by (simp add: v2)
  note d3 = vm_inv_data [OF i2 nD k3, simplified r3, simplified]
  have i3: "vm_inv s3 D ps" and pte3: "\<And>x. x \<in> all_slots D \<Longrightarrow> pte_at s3 x = pte_at s x"
    and pde3: "\<And>d i. d \<in> D \<Longrightarrow> i < 0x800 \<Longrightarrow> pde s3 d i = pde s1 d i"
    using d3(1) d3(2) d3(3) s1(5) by (simp_all add: v2)
  have pde1: "pde s3 d i = pde s d i" if "d \<in> D" "i < 0x800" for d i
  proof -
    have l: "live_page (npage s) (pp_ref s) d" by (rule vm_wf_dir [OF vm_invD(2) [OF inv] that(1)])
    then have "unit_page d" "d \<noteq> p" using live_not_free [OF inv l] pu(1) by (auto simp: live_page_def)
    then show ?thesis using kept_pde [OF k] dir_entry_simps(1) [of d i] that(2) by blast
  qed
  have tab: "tables_of (pde s3) D = tables_of (pde s) D" "tables_of (pde s3) D = tables_of (pde s1) D"
    by (rule tables_of_cong, rule pde1 pde3; assumption)+
  have u3: "upte s3 d w = upte s d w" if "d \<in> D" "w < ULIM" for d w
    using pte3 [OF slot_of_all [OF that]] by (simp add: upte_def)
  have only: "vm_only s s3" by (rule vm_only_trans [OF s1(3) only1])
  have p3: "p < npage s3" "p \<notin> D \<union> tables_of (pde s3) D \<union> set ps" "pp_ref s3 p \<noteq> 0xFFFF"
    using s1(7,9) tab(2) by (simp_all add: r3)
  have v3: "\<not> valid_pte (upte s3 pd va)" using v u3 [OF pd va] by simp
  have run: "mapper_page e va fill s = page_insert_new (frame pd) p va (PTE_R OR PTE_V) s3"
  proof -
    have "page2kva p ?s2 = Some (frame p)" using pu(2) s1(7) by (simp add: page2kva_frame)
    moreover have "PTE_V OR PTE_R OR PTE_V = PTE_R OR PTE_V" by simp
    ultimately show ?thesis
      using s1(1,8) env vm_onlyD(1) [OF only] page_insert_fresh [OF i3 pd va v3, of p "PTE_V OR PTE_R"]
      by (simp add: mapper_page_def s3_def)
  qed
  have out3: "outside s3 D ps pd q" if "outside s D xs pd q" for q using that Cons tab(1) by (auto simp: outside_def)
  have kq: "kept s s3 q" if "outside s D xs pd q" for q using that Cons by (intro k) (auto simp: outside_def)
  show thesis
  proof (cases rule: page_insert_newE [OF i3 pd va v3 s1(6) p3, of "PTE_R OR PTE_V"])
    case 3
    let ?t = "tlb_invalidate (frame pd) va s3"
    have mt: "kmem ?t = kmem s3" by simp
    note vt = view_kmem [OF mt]
    show thesis
    proof (rule full)
      show "mapper_page e va fill s = Some (Inl E_NO_MEM, ?t)" using run 3 by simp
      show "vm_inv ?t D []" using i3 3 by simp
      show "vm_only s ?t" by (rule vm_only_trans [OF only vm_only_tlb])
      show "length xs \<le> 1" using 3 Cons by simp
      show "upte ?t d w = upte s d w" if "d \<in> D" "w < ULIM" for d w using u3 [OF that] vt(3) by simp
      show "kept s ?t q" if "outside s D xs pd q" for q
        using kept_trans [OF kq [OF that] kept_same [OF mt]] .
      show "tables_of (pde ?t) D = tables_of (pde s) D" using tab(1) vt(1) by simp
    qed
  next
    case (4 s')
    have w: "page_insert_new (frame pd) p va (PTE_R OR PTE_V) s3 = Some (Inr (), s')" using 4 by simp
    have sub: "set (if pde s3 pd (PDX va) = 0 then tl ps else ps) \<subseteq> set ps"
      using list.set_sel(2) [of ps] by (cases ps) auto
    have pk: "kept s3 s' q" if "outside s3 D ps pd q" for q by (rule kept_insert_new [OF i3 pd va that w])
    show thesis
    proof (rule ok [of s' "if pde s3 pd (PDX va) = 0 then tl ps else ps" p])
      show "mapper_page e va fill s = Some (Inr (), s')" using run w by simp
      show "vm_inv s' D (if pde s3 pd (PDX va) = 0 then tl ps else ps)" using 4(2) .
      show "vm_only s s'"
        by (rule vm_only_trans [OF only vm_only_page_insert, of "frame pd" p va "PTE_R OR PTE_V" "Inr ()"])
          (use w page_insert_fresh [OF i3 pd va v3, of p "PTE_R OR PTE_V"] in simp)
      show "set (if pde s3 pd (PDX va) = 0 then tl ps else ps) \<subseteq> set xs" "p \<in> set xs" using sub Cons by auto
      show "length xs \<le> length (if pde s3 pd (PDX va) = 0 then tl ps else ps) + 2" using Cons by (simp, arith)
      show "upte s' d w = (if d = pd \<and> same_page w va then page2pa p OR (PTE_R OR PTE_V) else upte s d w)"
        if "d \<in> D" "w < ULIM" for d w
        using upte_of_pte_at [OF 4(6) that] u3 [OF that] by simp
      show "kmem s' (frame p + k) = img k" if "k < 0x1000" for k
      proof -
        have "outside s3 D ps pd p" using s1(6,9) pd tab(2) by (auto simp: outside_def)
        then have "kmem s' (frame p + k) = kmem s3 (frame p + k)"
          by (rule kept_byte [OF pk]) (rule order.strict_trans [OF that], simp)
        then show ?thesis using that by (simp add: m3 in_region_def word_less_nat_alt)
      qed
      show "kept s s' q" if "outside s D xs pd q" for q by (rule kept_trans [OF kq [OF that] pk [OF out3 [OF that]]])
      show "tables_of (pde s') D \<subseteq> tables_of (pde s) D \<union> set xs" using 4(10) tab(1) Cons by auto
      show "p \<notin> set (if pde s3 pd (PDX va) = 0 then tl ps else ps)" using s1(9) sub by auto
    qed
  qed simp_all
qed

subsection \<open>The two loops\<close>

lemma unat_offset: "unat (PG_ADDR_OFFSET va) = unat va mod 4096"
  by (simp only: offset_take unsigned_take_bit_eq) (simp add: take_bit_eq_mod)

lemma offset_0_iff: "PG_ADDR_OFFSET a = 0 \<longleftrightarrow> unat a mod 4096 = 0"
  by (metis unat_offset unat_0 unat_eq_zero)

lemma whole_pages:
  assumes "PG_ADDR_OFFSET a = 0"
  obtains m where "unat a = 4096 * m" "m < 1048576"
proof -
  have "4096 dvd unat a" using assms by (simp add: offset_0_iff mod_eq_0_iff_dvd)
  then obtain m where m: "unat a = 4096 * m" ..
  moreover have "m < 1048576" using m unat_u32 [of a] by simp
  ultimately show thesis by (rule that)
qed

lemma unat_minus: "unat ((a :: u32) - b) = (if b \<le> a then unat a - unat b else 2 ^ 32 + unat a - unat b)"
  using unat_u32 [of b] by (auto simp: unat_sub_if' word_le_nat_alt)

lemma same_page_base:
  assumes "PG_ADDR_OFFSET a = 0"
  shows "same_page w a \<longleftrightarrow> w - a < 0x1000"
proof -
  have "same_page w a \<longleftrightarrow> unat w div 4096 = unat a div 4096"
    by (simp add: same_page_def word_unat_eq_iff unat_drop_div)
  moreover have "unat a mod 4096 = 0" using assms by (simp add: offset_0_iff)
  moreover have "unat w < 4294967296" "unat a < 4294967296" by (rule unat_u32)+
  ultimately show ?thesis by (auto simp: word_less_nat_alt word_le_nat_alt unat_minus)
qed

lemma offset_base: "PG_ADDR_OFFSET a = 0 \<Longrightarrow> k < 0x1000 \<Longrightarrow> PG_ADDR_OFFSET (a + k) = k"
proof -
  assume "PG_ADDR_OFFSET a = 0" and k: "k < 0x1000"
  obtain m where m: "unat a = 4096 * m" "m < 1048576" by (rule whole_pages [OF \<open>PG_ADDR_OFFSET a = 0\<close>])
  have k': "unat k < 4096" using k by (simp add: word_less_nat_alt)
  then have "unat (a + k) = 4096 * m + unat k" using m by (simp add: unat_plus_if')
  then have "unat (a + k) mod 4096 = unat k" using k' by simp
  then show ?thesis by (simp only: word_unat_eq_iff unat_offset)
qed

text \<open>The first \<open>n\<close> bytes from \<open>base\<close> on are loaded, in state \<open>t\<close>, and nothing else is changed from
  state \<open>s\<close>.\<close>

definition loaded :: "kstate \<Rightarrow> u32 set \<Rightarrow> u32 list \<Rightarrow> u32 \<Rightarrow> u32 \<Rightarrow> (u32 \<Rightarrow> u8) \<Rightarrow> u32 \<Rightarrow> kstate \<Rightarrow> u32 list \<Rightarrow> bool" where
  "loaded s D xs pd base img n t ys \<longleftrightarrow> vm_inv t D ys \<and> vm_only s t \<and> set ys \<subseteq> set xs \<and>
     tables_of (pde t) D \<subseteq> tables_of (pde s) D \<union> set xs \<and> (\<forall>q. outside s D xs pd q \<longrightarrow> kept s t q) \<and>
     (\<forall>d\<in>D. \<forall>w<ULIM. \<not> (d = pd \<and> w - base < n) \<longrightarrow> upte t d w = upte s d w) \<and>
     (\<forall>j<n. full_pte (upte t pd (base + j)) \<and> user_byte t pd (base + j) = img j)"

lemma loaded_outside: "loaded s D xs pd base img n t ys \<Longrightarrow> outside s D xs pd q \<Longrightarrow> outside t D ys pd q"
  by (auto simp: loaded_def outside_def)

text \<open>From one page to the next.\<close>

lemma next_page:
  assumes "PG_ADDR_OFFSET n = 0" "k < 0x1000" "n < 0x80000000"
  shows "n + k < n + BY2PG"
proof -
  have "unat k < 4096" "unat n < 0x80000000" using assms(2,3) by (simp_all add: word_less_nat_alt)
  then have "unat (n + k) = unat n + unat k" "unat (n + BY2PG) = unat n + 4096" by (simp_all add: unat_plus_if')
  then show ?thesis using \<open>unat k < 4096\<close> by (simp add: word_less_nat_alt)
qed

lemma next_page_offset:
  assumes "PG_ADDR_OFFSET n = 0" "j < n + BY2PG" "\<not> j < n" "n < 0x80000000"
  shows "j - n < 0x1000"
proof -
  have "unat n < 0x80000000" using assms(4) by (simp add: word_less_nat_alt)
  then have "unat (n + BY2PG) = unat n + 4096" by (simp add: unat_plus_if')
  then have "unat j < unat n + 4096" "unat n \<le> unat j" using assms(2,3) by (simp_all add: word_less_nat_alt)
  then show ?thesis by (simp add: word_less_nat_alt word_le_nat_alt unat_minus)
qed

lemma next_page_le:
  assumes "PG_ADDR_OFFSET n = 0" "PG_ADDR_OFFSET B = 0" "n < B" "n < 0x80000000"
  shows "n + BY2PG \<le> B"
proof -
  obtain m where m: "unat n = 4096 * m" by (rule whole_pages [OF assms(1)])
  obtain c where c: "unat B = 4096 * c" by (rule whole_pages [OF assms(2)])
  have "m < c" using assms(3) m c by (simp add: word_less_nat_alt)
  moreover have "unat n < 0x80000000" using assms(4) by (simp add: word_less_nat_alt)
  then have "unat (n + BY2PG) = unat n + 4096" by (simp add: unat_plus_if')
  ultimately show ?thesis using m c by (simp add: word_le_nat_alt)
qed

text \<open>The window of a segment: \<open>B\<close> bytes, a whole number of pages, below \<open>ULIM\<close> and not mapped.\<close>

definition window :: "kstate \<Rightarrow> u32 \<Rightarrow> u32 \<Rightarrow> u32 \<Rightarrow> bool" where
  "window s pd base B \<longleftrightarrow> PG_ADDR_OFFSET base = 0 \<and> PG_ADDR_OFFSET B = 0 \<and> unat base + unat B \<le> 0x80000000 \<and>
     (\<forall>j<B. \<not> valid_pte (upte s pd (base + j)))"

lemma window_at:
  assumes "window s pd base B" "j < B"
  shows "base + j < ULIM" "unat (base + j) = unat base + unat j"
proof -
  have "unat j < unat B" using assms(2) by (simp add: word_less_nat_alt)
  then show "unat (base + j) = unat base + unat j"
    using assms(1) by (simp add: window_def unat_plus_if')
  then show "base + j < ULIM" using \<open>unat j < unat B\<close> assms(1) by (simp add: window_def word_less_nat_alt)
qed

lemma loaded_step:
  assumes ld: "loaded s D xs pd base img n t ys" and pd: "pd \<in> D" and env: "env_pgdir (envs s e) = frame pd"
    and win: "window s pd base B" and n: "PG_ADDR_OFFSET n = 0" "n < B"
    and fill: "\<And>q. q \<in> set ys \<Longrightarrow> fills fill (\<lambda>k. img (n + k)) q (kmem t)"
  obtains (full) t' where "mapper_page e (base + n) fill t = Some (Inl E_NO_MEM, t')" "loaded s D xs pd base img n t' []" "length ys \<le> 1"
  | (ok) t' ys' where "mapper_page e (base + n) fill t = Some (Inr (), t')" "loaded s D xs pd base img (n + BY2PG) t' ys'"
      "length ys \<le> length ys' + 2"
proof -
  note l = ld [unfolded loaded_def]
  note at = window_at [OF win n(2)]
  have inv: "vm_inv t D ys" and only: "vm_only s t" using l by simp_all
  have env': "env_pgdir (envs t e) = frame pd" using env vm_onlyD(1) [OF only] by simp
  obtain m where m: "unat n = 4096 * m" by (rule whole_pages [OF n(1)])
  have b0: "PG_ADDR_OFFSET base = 0" using win by (simp add: window_def)
  obtain c where c: "unat base = 4096 * c" by (rule whole_pages [OF b0])
  have B0: "PG_ADDR_OFFSET B = 0" and "unat B \<le> 0x80000000" using win by (simp_all add: window_def)
  then have n31: "n < 0x80000000" using n(2) by (simp add: word_less_nat_alt)
  have v: "\<not> valid_pte (upte t pd (base + n))"
    using l pd at(1) win n(2) by (auto simp: window_def)
  have below: "j < n \<Longrightarrow> base + j < ULIM \<and> \<not> same_page (base + j) (base + n)" for j
  proof
    assume j: "j < n"
    then show "base + j < ULIM" using window_at(1) [OF win] n(2) by (meson order.strict_trans)
    have "unat (base + j) = unat base + unat j" using window_at(2) [OF win] n(2) j by (meson order.strict_trans)
    moreover have "unat j div 4096 < m" using j m by (simp add: word_less_nat_alt div_less_iff_less_mult mult.commute)
    ultimately have "unat (base + j) div 4096 \<noteq> unat (base + n) div 4096" using at(2) m c by simp
    then show "\<not> same_page (base + j) (base + n)" by (auto simp: same_page_def word_unat_eq_iff unat_drop_div)
  qed
  have aligned: "PG_ADDR_OFFSET (base + n) = 0"
    by (simp add: offset_0_iff at(2) m c)
  show thesis
  proof (cases rule: mapper_pageE [OF inv pd env' at(1) v fill])
    case (2 t')
    have "loaded s D xs pd base img n t' []"
      unfolding loaded_def
    proof (intro conjI ballI allI impI)
      show "vm_only s t'" by (rule vm_only_trans [OF only 2(3)])
      show "tables_of (pde t') D \<subseteq> tables_of (pde s) D \<union> set xs" using l 2(7) by simp
      show "kept s t' q" if "outside s D xs pd q" for q
        using kept_trans [OF _ 2(6) [OF loaded_outside [OF ld that]]] l that by blast
      show "upte t' d w = upte s d w" if "d \<in> D" "w < ULIM" "\<not> (d = pd \<and> w - base < n)" for d w
        using l that 2(5) [OF that(1,2)] by simp
      fix j assume j: "j < n"
      have u: "upte t' pd (base + j) = upte t pd (base + j)" using 2(5) pd below [OF j] by blast
      have f: "full_pte (upte t pd (base + j))" "user_byte t pd (base + j) = img j" using l j by simp_all
      show "full_pte (upte t' pd (base + j))" unfolding u by (rule f(1))
      show "user_byte t' pd (base + j) = img j"
        using user_byte_kept [OF inv pd _ full_pte_valid [OF f(1)] u 2(6) pd] below [OF j] f(2) by simp
    qed (use 2(2) in simp_all)
    then show thesis using full 2 by blast
  next
    case (3 t' ys' p)
    have out: "outside t D ys pd q" if "outside s D xs pd q" for q by (rule loaded_outside [OF ld that])
    have p: "p < 0x40000" using alloc_inv_unit [OF vm_invD(1) [OF inv] 3(6)] by (simp add: unit_page_def)
    have e: "full_pte (page2pa p OR (PTE_R OR PTE_V))" "pte_page (page2pa p OR (PTE_R OR PTE_V)) = p"
      using p pte_page_entry [of p "PTE_R OR PTE_V"] entry_flags [of "PTE_R OR PTE_V" _ p] by (simp_all add: full_pte_def)
    have "loaded s D xs pd base img (n + BY2PG) t' ys'"
      unfolding loaded_def
    proof (intro conjI ballI allI impI)
      show "vm_only s t'" by (rule vm_only_trans [OF only 3(3)])
      show "set ys' \<subseteq> set xs" using l 3(4) by auto
      show "tables_of (pde t') D \<subseteq> tables_of (pde s) D \<union> set xs" using l 3(10) by blast
      show "kept s t' q" if "outside s D xs pd q" for q
        using kept_trans [OF _ 3(9) [OF out [OF that]]] l that by blast
      show "upte t' d w = upte s d w" if "d \<in> D" "w < ULIM" "\<not> (d = pd \<and> w - base < n + BY2PG)" for d w
      proof -
        have "\<not> same_page w (base + n)" if "d = pd"
        proof
          assume "same_page w (base + n)"
          then have "w - (base + n) < 0x1000" by (simp add: same_page_base [OF aligned])
          then have "n + (w - (base + n)) < n + BY2PG" by (rule next_page [OF n(1) _ n31])
          then show False using \<open>\<not> (d = pd \<and> w - base < n + BY2PG)\<close> that by (simp add: algebra_simps)
        qed
        moreover have "\<not> (d = pd \<and> w - base < n)"
          using that(3) order.strict_trans [OF _ next_page [OF n(1) _ n31, of 0], of "w - base"] by auto
        ultimately show ?thesis using 3(7) [OF that(1,2)] l that by auto
      qed
      fix j assume j: "j < n + BY2PG"
      have "full_pte (upte t' pd (base + j)) \<and> user_byte t' pd (base + j) = img j"
      proof (cases "j < n")
        case True
        have u: "upte t' pd (base + j) = upte t pd (base + j)" using 3(7) pd below [OF True] by simp
        have f: "full_pte (upte t pd (base + j))" "user_byte t pd (base + j) = img j" using l True by simp_all
        then show ?thesis
          using user_byte_kept [OF inv pd _ full_pte_valid [OF f(1)] u 3(9) pd] below [OF True] unfolding u by simp
      next
        case False
        obtain k where k: "j = n + k" "k < 0x1000"
          using next_page_offset [OF n(1) j False n31] by (intro that [of "j - n"]) simp_all
        have "j < B" by (rule order.strict_trans2 [OF j next_page_le [OF n(1) B0 n(2) n31]])
        note at' = window_at(1) [OF win this]
        have "same_page (base + j) (base + n)" unfolding same_page_base [OF aligned] using k by simp
        then have u: "upte t' pd (base + j) = page2pa p OR (PTE_R OR PTE_V)" using 3(7) [OF pd at'] by simp
        have "PG_ADDR_OFFSET (base + j) = k" using offset_base [OF aligned k(2)] k(1) by (simp add: algebra_simps)
        then show ?thesis using e 3(8) [OF k(2)] u k(1) by (simp add: user_byte_def)
      qed
      then show "full_pte (upte t' pd (base + j))" "user_byte t' pd (base + j) = img j" by blast+
    qed (use 3(2) in simp_all)
    then show thesis using ok 3(1,5) by blast
  qed
qed

text \<open>Where the bytes of the loops come from: \<open>fill\<close> at offset \<open>j\<close> writes the bytes \<open>img\<close> from \<open>j\<close> on,
  in every state that keeps the pages outside.\<close>

definition fills_from :: "kstate \<Rightarrow> u32 set \<Rightarrow> u32 list \<Rightarrow> u32 \<Rightarrow> (u32 \<Rightarrow> u32 \<Rightarrow> mem \<Rightarrow> mem) \<Rightarrow> (u32 \<Rightarrow> u8) \<Rightarrow> u32 \<Rightarrow> bool" where
  "fills_from s D xs pd fill img j \<longleftrightarrow> (\<forall>t q. (\<forall>p. outside s D xs pd p \<longrightarrow> kept s t p) \<longrightarrow> q \<in> set xs \<longrightarrow>
     fills (fill j) (\<lambda>k. img (j + k)) q (kmem t))"

lemma mapper_loop_ok:
  assumes "loaded s D xs pd base img i t ys" and pd: "pd \<in> D" and env: "env_pgdir (envs s e) = frame pd"
    and win: "window s pd base B" and "PG_ADDR_OFFSET i = 0" "i \<le> B" and bound: "bound \<le> B"
    and fill: "\<And>j. i \<le> j \<Longrightarrow> j < bound \<Longrightarrow> PG_ADDR_OFFSET j = 0 \<Longrightarrow> fills_from s D xs pd fill img j"
  shows "\<exists>r t' ys' n. mapper_loop e base bound fill i t = Some (r, t') \<and> loaded s D xs pd base img n t' ys' \<and>
    PG_ADDR_OFFSET n = 0 \<and> i \<le> n \<and> n \<le> B \<and>
    length ys + 2 * (unat i div 4096) \<le> length ys' + 2 * (unat n div 4096) + 1 \<and>
    (case r of Inr m \<Rightarrow> m = n \<and> bound \<le> n \<and> length ys + 2 * (unat i div 4096) \<le> length ys' + 2 * (unat n div 4096)
     | Inl err \<Rightarrow> err = E_NO_MEM \<and> ys' = [] \<and> n < bound)"
  using assms(1,5,6,8)
proof (induction "unat B - unat i" arbitrary: i t ys rule: less_induct)
  case less
  note ld = less.prems(1) and i = less.prems(2,3) and fill = less.prems(4)
  show ?case
  proof (cases "i < bound")
    case False
    then have "mapper_loop e base bound fill i t = Some (Inr i, t)" by (subst mapper_loop.simps) simp
    then show ?thesis using ld i False by (intro exI [of _ "Inr i"] exI [of _ t] exI [of _ ys] exI [of _ i]) simp
  next
    case True
    have iB: "i < B" using True bound by simp
    have B: "PG_ADDR_OFFSET B = 0" "unat B \<le> 0x80000000" using win by (simp_all add: window_def)
    have i31: "i < 0x80000000" using iB B(2) by (simp add: word_less_nat_alt)
    have next': "unat (i + BY2PG) = unat i + 4096" using i31 by (simp add: word_less_nat_alt unat_plus_if')
    have f: "fills (fill i) (\<lambda>k. img (i + k)) q (kmem t)" if "q \<in> set ys" for q
      using fill [OF order.refl True i(1)] ld that unfolding fills_from_def loaded_def by blast
    show ?thesis
    proof (cases rule: loaded_step [OF ld pd env win i(1) iB f])
      case (2 t')
      then have "mapper_loop e base bound fill i t = Some (Inl E_NO_MEM, t')"
        using True by (subst mapper_loop.simps) simp
      then show ?thesis using 2 i True
        by (intro exI [of _ "Inl E_NO_MEM"] exI [of _ t'] exI [of _ "[]"] exI [of _ i]) simp
    next
      case (3 t' ys')
      have run: "mapper_loop e base bound fill i t = mapper_loop e base bound fill (i + BY2PG) t'"
        using True 3(1) by (subst mapper_loop.simps) simp
      have le: "i + BY2PG \<le> B" by (rule next_page_le [OF i(1) B(1) iB i31])
      have "unat i mod 4096 = 0" using i(1) by (simp add: offset_0_iff)
      then have "unat (i + BY2PG) mod 4096 = 0" "unat (i + BY2PG) div 4096 = Suc (unat i div 4096)"
        unfolding next' by simp_all
      then have al: "PG_ADDR_OFFSET (i + BY2PG) = 0" "unat (i + BY2PG) div 4096 = Suc (unat i div 4096)"
        by (simp_all add: offset_0_iff)
      have ii: "i \<le> i + BY2PG" using next' by (simp add: word_le_nat_alt)
      have dec: "unat B - unat (i + BY2PG) < unat B - unat i"
        using next' iB by (simp add: word_less_nat_alt)
      obtain r u zs n where "mapper_loop e base bound fill (i + BY2PG) t' = Some (r, u)" "loaded s D xs pd base img n u zs"
        "PG_ADDR_OFFSET n = 0" "i + BY2PG \<le> n" "n \<le> B"
        "length ys' + 2 * (unat (i + BY2PG) div 4096) \<le> length zs + 2 * (unat n div 4096) + 1"
        "case r of Inr m \<Rightarrow> m = n \<and> bound \<le> n \<and> length ys' + 2 * (unat (i + BY2PG) div 4096) \<le> length zs + 2 * (unat n div 4096)
         | Inl err \<Rightarrow> err = E_NO_MEM \<and> zs = [] \<and> n < bound"
        using less.hyps [OF dec 3(2) al(1) le] fill ii by (meson order.trans)
      then show ?thesis
        unfolding run using 3(3) ii al(2)
        by (intro exI [of _ r] exI [of _ u] exI [of _ zs] exI [of _ n]) (auto split: sum.splits)
    qed
  qed
qed

subsection \<open>A segment\<close>

text \<open>Bytes in kernel memory that the loader does not write.\<close>

definition bytes_outside :: "kstate \<Rightarrow> u32 set \<Rightarrow> u32 list \<Rightarrow> u32 \<Rightarrow> u32 \<Rightarrow> nat \<Rightarrow> bool" where
  "bytes_outside s D xs pd a n \<longleftrightarrow> (\<forall>k<n. \<exists>q r. outside s D xs pd q \<and> r < 0x4000 \<and> a + of_nat k = frame q + r)"

lemma bytes_outside_kept:
  assumes "bytes_outside s D xs pd a n" "\<And>q. outside s D xs pd q \<Longrightarrow> kept s t q" "k < n"
  shows "kmem t (a + of_nat k) = kmem s (a + of_nat k)"
  using assms unfolding bytes_outside_def by (metis kept_byte)

lemma frame_apart:
  assumes "unit_page p" "unit_page q" "p \<noteq> q" "r < 0x4000"
  shows "\<not> in_region (frame p) 4096 (frame q + r)"
proof -
  obtain i k where "r = 4 * i + of_nat k" "i < 0x1000" "k < 4" by (rule word_indexE [OF assms(4)])
  then show ?thesis using entry_byte_in_frame [OF assms(1,2)] assms(3) by (simp add: add.assoc [symmetric])
qed

text \<open>The bytes of a segment: those of the file, then zeros.\<close>

definition segment_byte :: "kstate \<Rightarrow> u32 \<Rightarrow> u32 \<Rightarrow> u32 \<Rightarrow> u8" where
  "segment_byte s bin bin_size j = (if j < bin_size then kmem s (bin + j) else 0)"

lemma bytes_outsideE:
  assumes "bytes_outside s D xs pd a n" "k < n"
  obtains q r where "outside s D xs pd q" "r < 0x4000" "a + of_nat k = frame q + r"
  using assms unfolding bytes_outside_def by blast

lemma page_end: "PG_ADDR_OFFSET j = 0 \<Longrightarrow> k < 4096 \<Longrightarrow> unat (j + of_nat k) = unat j + k"
proof -
  assume j: "PG_ADDR_OFFSET j = 0" and k: "k < 4096"
  obtain m where m: "unat j = 4096 * m" "m < 1048576" by (rule whole_pages [OF j])
  have "unat (of_nat k :: u32) = k" using k by (simp add: unat_of_nat_u32)
  then show ?thesis using m k by (simp add: unat_plus_if')
qed

lemma mapper_fill_ok:
  assumes xs: "\<And>q. q \<in> set xs \<Longrightarrow> unit_page q" and src: "bytes_outside s D xs pd bin (unat bin_size)"
    and j: "j < bin_size" "PG_ADDR_OFFSET j = 0"
  shows "fills_from s D xs pd (mapper_fill bin bin_size 0) (segment_byte s bin bin_size) j"
  unfolding fills_from_def fills_def
proof (intro allI impI)
  fix t q m'
  assume kept: "\<forall>p. outside s D xs pd p \<longrightarrow> kept s t p" and q: "q \<in> set xs"
    and m': "\<forall>x. \<not> in_region (frame q) 4096 x \<longrightarrow> m' x = kmem t x"
  let ?len = "unat (if BY2PG \<le> bin_size - j then BY2PG else bin_size - j)"
  let ?M = "bzero m' (frame q) 4096"
  have jn: "unat j < unat bin_size" using j(1) by (simp add: word_less_nat_alt)
  then have sub: "unat (bin_size - j) = unat bin_size - unat j" by (simp add: unat_minus word_le_nat_alt)
  have len: "?len \<le> 4096" "unat j + ?len \<le> unat bin_size"
    "?len < 4096 \<Longrightarrow> unat j + ?len = unat bin_size"
    using jn sub by (auto simp: word_le_nat_alt)
  have fill: "mapper_fill bin bin_size 0 j (frame q) ?M = memcpy ?M (frame q) (bin + j) ?len"
    by (simp add: mapper_fill_def bcopy_def)
  have at: "\<not> in_region (frame q) 4096 (bin + j + of_nat k) \<and> m' (bin + j + of_nat k) = kmem s (bin + j + of_nat k)"
    if "k < ?len" for k
  proof -
    have "unat j + k < unat bin_size" using that len(2) by linarith
    then obtain p r where p: "outside s D xs pd p" "r < 0x4000" "bin + of_nat (unat j + k) = frame p + r"
      by (rule bytes_outsideE [OF src])
    have e: "bin + of_nat (unat j + k) = bin + j + of_nat k" by simp
    have "\<not> in_region (frame q) 4096 (bin + j + of_nat k)"
      using frame_apart [OF xs [OF q] _ _ p(2)] p(1) q unfolding e [symmetric] p(3) by (auto simp: outside_def)
    moreover have "kmem t (frame p + r) = kmem s (frame p + r)" using kept p by (intro kept_byte) auto
    ultimately show ?thesis using m' unfolding e [symmetric] p(3) by simp
  qed
  have sep: "\<not> in_region (frame q) ?len x" if x: "in_region (bin + j) ?len x" for x
  proof -
    have "x = bin + j + of_nat (unat (x - (bin + j)))" by simp
    then have "\<not> in_region (frame q) 4096 x" using at [of "unat (x - (bin + j))"] x by (simp add: in_region_def)
    then show ?thesis using len(1) by (simp add: in_region_def)
  qed
  have small: "?len \<le> 2 ^ 32" by (rule order.trans [OF len(1)]) simp
  have "memcpy ?M (frame q) (bin + j) ?len x =
      (if in_region (frame q) 4096 x then segment_byte s bin bin_size (j + (x - frame q)) else m' x)" for x
  proof -
    let ?k = "unat (x - frame q)"
    have k: "x - frame q = of_nat ?k" by simp
    have "(if in_region (frame q) ?len x then ?M (bin + j + (x - frame q)) else ?M x) =
      (if in_region (frame q) 4096 x then segment_byte s bin bin_size (j + (x - frame q)) else m' x)"
    proof (cases "in_region (frame q) ?len x")
      case True
      then have kl: "?k < ?len" by (simp add: in_region_def)
      then have "in_region (frame q) 4096 x" using len(1) by (simp add: in_region_def)
      moreover have "j + of_nat ?k < bin_size"
        using page_end [OF j(2), of ?k] kl len by (simp add: word_less_nat_alt)
      ultimately show ?thesis
        using True at [OF kl] by (simp add: segment_byte_def bzero_closed add.assoc)
    next
      case False
      show ?thesis
      proof (cases "in_region (frame q) 4096 x")
        case True
        then have kl: "?k < 4096" "?len \<le> ?k" using False by (simp_all add: in_region_def)
        then have "unat bin_size \<le> unat j + ?k" using len by linarith
        then have "\<not> j + of_nat ?k < bin_size" using page_end [OF j(2) kl(1)] by (simp add: word_less_nat_alt)
        then show ?thesis using False True by (simp add: segment_byte_def bzero_closed)
      qed (use False in \<open>simp add: bzero_closed\<close>)
    qed
    then show ?thesis by (subst memcpy_closed [OF small]) (rule sep, assumption, simp only:)
  qed
  then show "mapper_fill bin bin_size 0 j (frame q) ?M =
    (\<lambda>x. if in_region (frame q) 4096 x then segment_byte s bin bin_size (j + (x - frame q)) else m' x)"
    unfolding fill by blast
qed

lemma no_fill_ok: "\<not> j < bin_size \<Longrightarrow> PG_ADDR_OFFSET j = 0 \<Longrightarrow> fills_from s D xs pd (\<lambda>_ _ m. m) (segment_byte s bin bin_size) j"
  unfolding fills_from_def fills_def
proof (intro allI impI)
  fix t q m'
  assume j: "\<not> j < bin_size" "PG_ADDR_OFFSET j = 0"
  have "segment_byte s bin bin_size (j + (x - frame q)) = 0" if "in_region (frame q) 4096 x" for x
  proof -
    have "unat (j + of_nat (unat (x - frame q))) = unat j + unat (x - frame q)"
      using that by (intro page_end [OF j(2)]) (simp add: in_region_def)
    then have "\<not> j + (x - frame q) < bin_size" using j(1) by (simp add: word_less_nat_alt)
    then show ?thesis by (simp add: segment_byte_def)
  qed
  then show "bzero m' (frame q) 4096 =
    (\<lambda>x. if in_region (frame q) 4096 x then segment_byte s bin bin_size (j + (x - frame q)) else m' x)"
    by (auto simp: bzero_closed)
qed

lemma loaded_start: "vm_inv s D xs \<Longrightarrow> loaded s D xs pd base img 0 s xs"
  by (simp add: loaded_def)

lemma ROUNDDOWN_page: "PG_ADDR_OFFSET va = 0 \<Longrightarrow> ROUNDDOWN va BY2PG = va"
proof -
  assume "PG_ADDR_OFFSET va = 0"
  then have z: "\<not> bit va n" if "n < 12" for n
    using that by (metis offset_take bit_take_bit_iff bit_0_eq bot_apply bot_bool_def)
  have m: "(BY2PG - 1 :: u32) = mask 12" by (simp add: mask_eq_exp_minus_1)
  show ?thesis
    unfolding ROUNDDOWN_def m by (rule bit_word_eqI) (use z leI in \<open>auto simp: bit_and_iff bit_not_iff bit_mask_iff\<close>)
qed

lemma load_icode_mapper_ok:
  assumes inv: "vm_inv s D xs" and pd: "pd \<in> D" and env: "env_pgdir (envs s e) = frame pd"
    and win: "window s pd va B" and size: "bin_size \<le> B" "sgsize \<le> B"
    and src: "bytes_outside s D xs pd bin (unat bin_size)"
  shows "\<exists>r t ys n. load_icode_mapper va sgsize bin bin_size e s = Some (r, t) \<and>
    loaded s D xs pd va (segment_byte s bin bin_size) n t ys \<and> n \<le> B \<and>
    length xs \<le> length ys + 2 * (unat n div 4096) + 1 \<and>
    (case r of Inr _ \<Rightarrow> bin_size \<le> n \<and> sgsize \<le> n \<and> length xs \<le> length ys + 2 * (unat n div 4096)
     | Inl err \<Rightarrow> err = E_NO_MEM \<and> ys = [] \<and> n < B)"
proof -
  let ?img = "segment_byte s bin bin_size"
  have va: "PG_ADDR_OFFSET va = 0" using win by (simp add: window_def)
  have off: "va - ROUNDDOWN va BY2PG = 0" by (simp add: ROUNDDOWN_page [OF va])
  have units: "unit_page q" if "q \<in> set xs" for q using alloc_inv_unit [OF vm_invD(1) [OF inv] that] by simp
  have zero: "PG_ADDR_OFFSET 0 = 0" "0 \<le> B" "unat (0 :: u32) div 4096 = 0" by (simp_all add: offset_0_iff)
  obtain r t ys n where l1: "mapper_loop e va bin_size (mapper_fill bin bin_size 0) 0 s = Some (r, t)"
    "loaded s D xs pd va ?img n t ys" "PG_ADDR_OFFSET n = 0" "n \<le> B"
    "length xs \<le> length ys + 2 * (unat n div 4096) + 1"
    "case r of Inr m \<Rightarrow> m = n \<and> bin_size \<le> n \<and> length xs \<le> length ys + 2 * (unat n div 4096)
     | Inl err \<Rightarrow> err = E_NO_MEM \<and> ys = [] \<and> n < bin_size"
    using mapper_loop_ok [OF loaded_start [OF inv] pd env win zero(1,2) size(1) mapper_fill_ok [OF units src]]
    unfolding zero(3) mult_0_right add_0_right by blast
  show ?thesis
  proof (cases r)
    case (Inl err)
    then have "load_icode_mapper va sgsize bin bin_size e s = Some (Inl err, t)"
      using l1(1) by (simp add: load_icode_mapper_def off)
    then show ?thesis using Inl l1 order.strict_trans2 [OF _ size(1)] by (intro exI [of _ "Inl err"] exI [of _ t] exI [of _ ys] exI [of _ n]) simp
  next
    case (Inr m)
    then have m: "m = n" "bin_size \<le> n" "length xs \<le> length ys + 2 * (unat n div 4096)" using l1(6) by simp_all
    obtain r' u zs n' where l2: "mapper_loop e va sgsize (\<lambda>_ _ m. m) n t = Some (r', u)"
      "loaded s D xs pd va ?img n' u zs" "n \<le> n'" "n' \<le> B"
      "length ys + 2 * (unat n div 4096) \<le> length zs + 2 * (unat n' div 4096) + 1"
      "case r' of Inr m \<Rightarrow> m = n' \<and> sgsize \<le> n' \<and> length ys + 2 * (unat n div 4096) \<le> length zs + 2 * (unat n' div 4096)
       | Inl err \<Rightarrow> err = E_NO_MEM \<and> zs = [] \<and> n' < sgsize"
      using mapper_loop_ok [OF l1(2) pd env win l1(3,4) size(2) no_fill_ok] m(2) by (fastforce simp: not_less)
    have "load_icode_mapper va sgsize bin bin_size e s = Some (case r' of Inl err \<Rightarrow> Inl err | Inr _ \<Rightarrow> Inr (), u)"
      using l1(1) l2(1) Inr m(1) by (simp add: load_icode_mapper_def off)
    then show ?thesis
      using l2 m order.strict_trans2 [OF _ size(2)] by (intro exI [of _ "case r' of Inl err \<Rightarrow> Inl err | Inr _ \<Rightarrow> Inr ()"] exI [of _ u] exI [of _ zs] exI [of _ n'])
        (auto split: sum.splits)
  qed
qed

end
