(* ===== verification/Page_Check.thy ===== *)
theory Page_Check
  imports Loading
begin

section \<open>The boot-time test of the page functions (\<open>page_check\<close> of \<open>mm/pmap.c\<close>)\<close>

text \<open>
  \<open>armv7_init\<close> runs \<open>page_check\<close> on the boot directory before it goes on. The test hides the free list
  behind an empty one, plays through the cases of \<open>page_insert\<close> and \<open>page_remove\<close> with three pages, and
  gives the list back. That it passes rests on the lemmas of the page functions and on what these
  functions do not touch: the links of the hidden pages, and the kernel's part of the directory.
\<close>

subsection \<open>What is left alone\<close>

text \<open>Outside the pages \<open>P\<close>: the links of the free list, and, but for the directory \<open>b\<close>, the bytes; and of \<open>b\<close> the entries of
  the kernel.\<close>

definition same_links :: "u32 set \<Rightarrow> kstate \<Rightarrow> kstate \<Rightarrow> bool" where
  "same_links P s s' \<longleftrightarrow> (\<forall>q. q \<notin> P \<longrightarrow> le_next (page_free_list s') q = le_next (page_free_list s) q \<and>
     le_prev (page_free_list s') q = le_prev (page_free_list s) q)"

definition same_kernel_part :: "u32 \<Rightarrow> kstate \<Rightarrow> kstate \<Rightarrow> bool" where
  "same_kernel_part b s s' \<longleftrightarrow> (\<forall>i. 0x800 \<le> i \<longrightarrow> i < 0x1000 \<longrightarrow> pde s' b i = pde s b i)"

lemma same_links_refl [simp]: "same_links P s s" "page_free_list s' = page_free_list s \<Longrightarrow> same_links P s s'"
  by (simp_all add: same_links_def)

lemma same_links_trans: "same_links P s t \<Longrightarrow> same_links P t u \<Longrightarrow> same_links P s u"
  by (simp add: same_links_def)

lemma same_kernel_refl [simp]: "same_kernel_part b s s" "kmem s' = kmem s \<Longrightarrow> same_kernel_part b s s'"
  by (simp_all add: same_kernel_part_def pde_def)

lemma same_kernel_trans: "same_kernel_part b s t \<Longrightarrow> same_kernel_part b t u \<Longrightarrow> same_kernel_part b s u"
  by (simp add: same_kernel_part_def)

lemma same_kernel_kept: "kept s s' b \<Longrightarrow> same_kernel_part b s s'"
  by (simp add: same_kernel_part_def kept_pde)

lemma same_kernel_store:
  assumes "unit_page b" "i < 0x800" "kmem s' = store32 (kmem s) (frame b + 4 * i) v"
  shows "same_kernel_part b s s'"
proof -
  have i: "i < 0x1000" by (rule order.strict_trans [OF assms(2)]) simp
  show ?thesis
    using assms i by (auto simp: same_kernel_part_def pde_def load_store_entry)
qed

lemma same_links_alloc:
  assumes al: "alloc_inv s xs" and run: "page_alloc s = Some (r, s')" and P: "set xs \<subseteq> P"
  shows "same_links P s s'"
proof (cases xs)
  case Nil
  then show ?thesis using page_alloc_empty [of s] al run by simp
next
  case (Cons p ps)
  have rep: "lst_rep (page_free_list s) (p # ps)" using al Cons by (simp add: alloc_inv_def)
  have first: "lh_first (page_free_list s) = Some p" using lst_rep_first [OF rep] by simp
  have ch: "le_prev (page_free_list s) p = Some HeadOf" "chain (page_free_list s) (NextOf p) (le_next (page_free_list s) p) ps"
    "distinct (p # ps)"
    using rep by (simp_all add: lst_rep_def)
  have nxt: "le_next (page_free_list s) p = None \<or> (\<exists>n\<in>P. le_next (page_free_list s) p = Some n \<and> n \<noteq> p)"
    using ch(2,3) P Cons by (cases ps) auto
  then have "\<exists>fl. LIST_REMOVE p (page_free_list s) = Some fl \<and>
      (\<forall>q. q \<notin> P \<longrightarrow> le_next fl q = le_next (page_free_list s) q \<and> le_prev fl q = le_prev (page_free_list s) q)"
    using ch(1) by (auto simp: LIST_REMOVE_def Let_def)
  then obtain fl where fl: "LIST_REMOVE p (page_free_list s) = Some fl"
    "\<And>q. q \<notin> P \<Longrightarrow> le_next fl q = le_next (page_free_list s) q \<and> le_prev fl q = le_prev (page_free_list s) q"
    by blast
  have "page_free_list s' = fl"
    using run fl(1) first by (auto simp: page_alloc_def LIST_FIRST_def Let_def split: Option.bind_splits)
  then show ?thesis using fl(2) by (simp add: same_links_def)
qed

lemma same_links_free:
  assumes al: "alloc_inv s xs" and run: "page_free p s = Some s'" and P: "set xs \<subseteq> P" "p \<in> P"
  shows "same_links P s s'"
proof -
  have first: "lh_first (page_free_list s) = None \<or> (\<exists>n\<in>P. lh_first (page_free_list s) = Some n)"
    using al lst_rep_first [of "page_free_list s" xs] P by (cases xs) (auto simp: alloc_inv_def)
  have "q \<notin> P \<Longrightarrow> le_next (LIST_INSERT_HEAD p (page_free_list s)) q = le_next (page_free_list s) q \<and>
      le_prev (LIST_INSERT_HEAD p (page_free_list s)) q = le_prev (page_free_list s) q" for q
    using first P(2) by (auto simp: LIST_INSERT_HEAD_def Let_def)
  then show ?thesis using run by (auto simp: page_free_def same_links_def split: if_splits)
qed

lemma same_links_walk:
  assumes al: "alloc_inv s xs" and run: "pgdir_walk d va c s = Some (r, s')" and P: "set xs \<subseteq> P"
  shows "same_links P s s'"
proof -
  have "same_links P s (set_ref q n (s1\<lparr>kmem := m\<rparr>))" "same_links P s s1" if "page_alloc s = Some (x, s1)" for x s1 q n m
    using same_links_alloc [OF al that P] by (simp_all add: same_links_def)
  then show ?thesis
    using run by (auto simp: pgdir_walk_def Let_def split: if_splits Option.bind_splits sum.splits)
qed

lemma same_links_new:
  assumes al: "alloc_inv s xs" and run: "page_insert_new d p va e s = Some (r, s')" and P: "set xs \<subseteq> P"
  shows "same_links P s s'"
proof -
  let ?s1 = "tlb_invalidate d va s"
  have al1: "alloc_inv ?s1 xs" using al by (simp add: tlb_invalidate_eq alloc_inv_def)
  have "same_links P s t" if "pgdir_walk d va True ?s1 = Some (x, t)" for x t
    using same_links_walk [OF al1 that P] by (simp add: same_links_def tlb_invalidate_eq)
  then show ?thesis
    using run by (auto simp: page_insert_new_def Let_def same_links_def split: Option.bind_splits sum.splits option.splits)
qed

lemma same_links_remove:
  assumes inv: "vm_inv s D xs" and pd: "pd \<in> D" "va < ULIM" and run: "page_remove (frame pd) va s = Some s'"
    and P: "set xs \<subseteq> P" "valid_pte (upte s pd va) \<Longrightarrow> pte_page (upte s pd va) \<in> P"
  shows "same_links P s s'"
proof (cases "valid_pte (upte s pd va)")
  case False
  then show ?thesis using page_remove_absent [OF inv pd False] run by simp
next
  case True
  let ?q = "pte_page (upte s pd va)"
  let ?s1 = "set_ref ?q (pp_ref s ?q - 1) s"
  have live: "live_page (npage s) (pp_ref s) ?q"
    using vm_wf_mapped(1) [OF vm_invD(2) [OF inv] slot_of_all [OF pd], folded upte_def, OF True] .
  have al: "alloc_inv ?s1 xs" by (rule alloc_inv_set_ref [OF vm_invD(1) [OF inv] live_not_free [OF inv live]])
  have "same_links P s t" if "page_free ?q ?s1 = Some t" for t
    using same_links_free [OF al that P(1) P(2) [OF True]] by (simp add: same_links_def)
  then show ?thesis
    using run section_va_user [OF pd(2)] page_lookup_upte [OF inv pd] True
    by (auto simp: page_remove_def Let_def same_links_def tlb_invalidate_eq split: if_splits Option.bind_splits)
qed

lemma kernel_part_walk:
  assumes inv: "vm_inv s D xs" and pd: "pd \<in> D" "va < ULIM" and run: "pgdir_walk (frame pd) va c s = Some (r, s')"
  shows "same_kernel_part pd s s'"
proof (cases "pde s pd (PDX va) = 0")
  case False
  then show ?thesis using run pgdir_walk_present [OF inv pd False, of c] by simp
next
  case abs: True
  show ?thesis
  proof (cases "c \<and> xs \<noteq> []")
    case False
    then show ?thesis
      using run pgdir_walk_absent [OF pd(2) abs] pgdir_walk_full [OF pd(2) abs] vm_invD(1) [OF inv] by (cases c) auto
  next
    case True
    then obtain p ps where xs: "xs = p # ps" by (cases xs) auto
    have al: "alloc_inv s (p # ps)" using vm_invD(1) [OF inv] xs by simp
    have p: "unit_page p" "p < npage s" using alloc_inv_unit [OF al, of p] by auto
    have l: "live_page (npage s) (pp_ref s) pd" by (rule vm_wf_dir [OF vm_invD(2) [OF inv] pd(1)])
    then have pdl: "unit_page pd" "pd \<notin> set xs" using live_not_free [OF inv l] by (auto simp: live_page_def)
    obtain t where t: "page_alloc s = Some (Inr p, t)" "npage t = npage s" using page_allocE [OF al] by metis
    have kt: "kept s t pd" by (rule kept_page_alloc [OF vm_invD(1) [OF inv] pdl t(1)])
    let ?t = "set_ref p (pp_ref t p + 1) (t\<lparr>kmem := store32 (kmem t) (frame pd + 4 * PDX va) (page2pa p OR PDE_PAGE_TABLE)\<rparr>)"
    have "page2kva p t = Some (frame p)" using p t(2) by (simp add: page2kva_frame unit_page_def)
    then have "s' = ?t"
      using run True section_va_user [OF pd(2)] abs t(1) by (simp add: pgdir_walk_def pde_def)
    moreover have "same_kernel_part pd t ?t" by (rule same_kernel_store [OF pdl(1) PDX_user [OF pd(2)]]) simp
    ultimately show ?thesis using same_kernel_trans [OF same_kernel_kept [OF kt]] by simp
  qed
qed

lemma kernel_part_new:
  assumes inv: "vm_inv s D xs" and pd: "pd \<in> D" "va < ULIM" and run: "page_insert_new (frame pd) p va e s = Some (r, s')"
  shows "same_kernel_part pd s s'"
proof -
  define s1 where "s1 = tlb_invalidate (frame pd) va s"
  have inv1: "vm_inv s1 D xs" and k1: "kmem s1 = kmem s" using inv by (simp_all add: s1_def)
  have pdu: "unit_page pd" using vm_wf_dir [OF vm_invD(2) [OF inv] pd(1)] by (simp add: live_page_def)
  obtain x t where w: "pgdir_walk (frame pd) va True s1 = Some (x, t)"
    using run by (cases "pgdir_walk (frame pd) va True s1") (auto simp: page_insert_new_def s1_def)
  have st: "same_kernel_part pd s t"
    by (rule same_kernel_trans [OF same_kernel_refl(2) [OF k1] kernel_part_walk [OF inv1 pd w]])
  have "same_kernel_part pd t s'"
  proof (cases "\<exists>a. x = Inr (Some a)")
    case True
    then obtain a where a: "x = Inr (Some a)" by blast
    have k: "kmem s' = store32 (kmem t) a (page2pa p OR e)" using run w a by (auto simp: page_insert_new_def s1_def)
    have "\<exists>u i. a = frame u + 4 * i \<and> i < 0x1000 \<and> unit_page u \<and> u \<noteq> pd"
    proof (cases "pde s pd (PDX va) = 0")
      case False
      have z: "pde s1 pd (PDX va) \<noteq> 0" using False view_kmem(1) [OF k1] by simp
      have "a = pte_addr s1 pd va" using w a pgdir_walk_present [OF inv1 pd z, of True] by auto
      moreover have "\<exists>u. pte_page (pde s1 pd (PDX va)) = u \<and> unit_page u \<and> u \<noteq> pd"
        using vm_invD(2) [OF inv1] pd(1) PDX_user [OF pd(2)] z
        by (rule vm_wf_tableE) (use pd(1) in \<open>auto simp: live_page_def\<close>)
      ultimately show ?thesis using PTX_less(2) by (metis pte_addr_def)
    next
      case True
      have z: "pde s1 pd (PDX va) = 0" using True view_kmem(1) [OF k1] by simp
      show ?thesis
      proof (cases xs)
        case Nil
        then show ?thesis using w a pgdir_walk_full [OF pd(2) z] vm_invD(1) [OF inv1] by simp
      next
        case (Cons q qs)
        have al: "alloc_inv s1 (q # qs)" using vm_invD(1) [OF inv1] Cons by simp
        have q: "unit_page q" "q < npage s1" using alloc_inv_unit [OF al, of q] by auto
        have l: "live_page (npage s1) (pp_ref s1) pd" by (rule vm_wf_dir [OF vm_invD(2) [OF inv1] pd(1)])
        have "q \<noteq> pd" using live_not_free [OF inv1 l] Cons by auto
        moreover obtain u where "page_alloc s1 = Some (Inr q, u)" "npage u = npage s1" using page_allocE [OF al] by metis
        then have "a = frame q + 4 * PTX va"
          using w a section_va_user [OF pd(2)] z q by (simp add: pgdir_walk_def pde_def page2kva_frame unit_page_def)
        ultimately show ?thesis using q(1) PTX_less(2) by blast
      qed
    qed
    then show ?thesis using k pdu by (metis kept_store same_kernel_kept)
  next
    case False
    then have "s' = t" using run w by (auto simp: page_insert_new_def s1_def split: sum.splits option.splits)
    then show ?thesis by simp
  qed
  then show ?thesis by (rule same_kernel_trans [OF st])
qed

lemma kernel_part_remove:
  assumes inv: "vm_inv s D xs" and pd: "pd \<in> D" "va < ULIM" and run: "page_remove (frame pd) va s = Some s'"
  shows "same_kernel_part pd s s'"
proof (cases "valid_pte (upte s pd va)")
  case False
  then show ?thesis using page_remove_absent [OF inv pd False] run by simp
next
  case True
  have nz: "pde s pd (PDX va) \<noteq> 0" using True upte_absent [of s pd va] by auto
  have u: "unit_page pd" using vm_wf_dir [OF vm_invD(2) [OF inv] pd(1)] by (simp add: live_page_def)
  have "\<exists>t. pte_page (pde s pd (PDX va)) = t \<and> unit_page t \<and> t \<noteq> pd"
    using vm_invD(2) [OF inv] pd(1) PDX_user [OF pd(2)] nz
    by (rule vm_wf_tableE) (use pd(1) in \<open>auto simp: live_page_def\<close>)
  moreover have "kmem s' = store32 (kmem s) (pte_addr s pd va) 0"
    using run section_va_user [OF pd(2)] page_lookup_upte [OF inv pd] True
    by (auto simp: page_remove_def page_free_total Let_def split: if_splits)
  ultimately show ?thesis
    using kept_store [of "pte_page (pde s pd (PDX va))" pd "PTX va"] u PTX_less(2)
    by (intro same_kernel_kept) (auto simp: pte_addr_def)
qed

subsection \<open>The states of the test\<close>

text \<open>\<open>testing s0 b P s xs T M R\<close>: in state \<open>s\<close>, reached from \<open>s0\<close>, the free list is \<open>xs\<close>, the user part of the boot
  directory \<open>b\<close> is \<open>T\<close>, the entries of its tables are \<open>M\<close>, the reference counts are \<open>R\<close>; only the pages \<open>P\<close>
  are involved.\<close>

definition quiet :: "u32 set \<Rightarrow> u32 \<Rightarrow> kstate \<Rightarrow> kstate \<Rightarrow> bool" where
  "quiet P b s s' \<longleftrightarrow> vm_only s s' \<and> same_links P s s' \<and> same_kernel_part b s s' \<and>
     (\<forall>q. unit_page q \<longrightarrow> q \<noteq> b \<longrightarrow> q \<notin> P \<longrightarrow> kept s s' q)"

lemma quiet_refl: "quiet P b s s"
  by (simp add: quiet_def)

lemma quiet_trans: "quiet P b s t \<Longrightarrow> quiet P b t u \<Longrightarrow> quiet P b s u"
  unfolding quiet_def using vm_only_trans same_links_trans same_kernel_trans kept_trans by blast

definition testing :: "kstate \<Rightarrow> u32 \<Rightarrow> u32 set \<Rightarrow> kstate \<Rightarrow> u32 list \<Rightarrow> (u32 \<Rightarrow> u32) \<Rightarrow> (u32 \<Rightarrow> u32) \<Rightarrow> (u32 \<Rightarrow> u16) \<Rightarrow> bool" where
  "testing s0 b P s xs T M R \<longleftrightarrow> vm_inv s {b} xs \<and> set xs \<subseteq> P \<and> (\<forall>i<0x800. T i \<noteq> 0 \<longrightarrow> pte_page (T i) \<in> P) \<and>
     quiet P b s0 s \<and> pp_ref s = R \<and> (\<forall>i<0x800. pde s b i = T i) \<and> (\<forall>v<ULIM. upte s b v = M v) \<and>
     (\<forall>v<ULIM. valid_pte (M v) \<longrightarrow> pte_page (M v) \<in> P)"

lemma testingD:
  assumes "testing s0 b P s xs T M R"
  shows "vm_inv s {b} xs" "alloc_inv s xs" "set xs \<subseteq> P" "quiet P b s0 s" "pp_ref s = R" "i < 0x800 \<Longrightarrow> pde s b i = T i"
    "v < ULIM \<Longrightarrow> upte s b v = M v" "npage s = npage s0" "unit_page b" "b \<notin> set xs"
    "tables_of (pde s) {b} = {pte_page (T i) | i. i < 0x800 \<and> T i \<noteq> 0}"
proof -
  show inv: "vm_inv s {b} xs" and "set xs \<subseteq> P" "quiet P b s0 s" "pp_ref s = R" "i < 0x800 \<Longrightarrow> pde s b i = T i" "v < ULIM \<Longrightarrow> upte s b v = M v"
    using assms by (simp_all add: testing_def)
  show "alloc_inv s xs" by (rule vm_invD(1) [OF inv])
  have l: "live_page (npage s) (pp_ref s) b" by (rule vm_wf_dir [OF vm_invD(2) [OF inv]]) simp
  then show "unit_page b" "b \<notin> set xs" using live_not_free [OF inv l] by (auto simp: live_page_def)
  show "npage s = npage s0" using assms vm_onlyD(4) by (auto simp: testing_def quiet_def)
  show "tables_of (pde s) {b} = {pte_page (T i) | i. i < 0x800 \<and> T i \<noteq> 0}"
  proof -
    have eq: "pde s b i = T i" if "i < 0x800" for i using assms that by (simp add: testing_def)
    have "(\<exists>pd i. x = pte_page (pde s pd i) \<and> pd \<in> {b} \<and> i < 0x800 \<and> pde s pd i \<noteq> 0) \<longleftrightarrow>
        (\<exists>i. x = pte_page (T i) \<and> i < 0x800 \<and> T i \<noteq> 0)" (is "?l \<longleftrightarrow> ?r") for x
    proof
      assume ?l
      then obtain i where i: "x = pte_page (pde s b i)" "i < 0x800" "pde s b i \<noteq> 0" by blast
      then show ?r using eq by (intro exI [of _ i]) simp
    next
      assume ?r
      then obtain i where i: "x = pte_page (T i)" "i < 0x800" "T i \<noteq> 0" by blast
      then show ?l using eq by (intro exI [of _ b] exI [of _ i]) simp
    qed
    then show ?thesis by (simp only: tables_of_def)
  qed
qed

text \<open>A step from one state of the test to the next.\<close>

lemma testing_step:
  assumes t: "testing s0 b P s xs T M R" and inv: "vm_inv s' {b} xs'" and only: "vm_only s s'"
    and quiet: "same_links P s s'" "same_kernel_part b s s'" "\<And>q. outside s {b} xs b q \<Longrightarrow> q \<notin> P \<Longrightarrow> kept s s' q"
    and P: "set xs' \<subseteq> P" "\<And>i. i < 0x800 \<Longrightarrow> T' i \<noteq> 0 \<Longrightarrow> pte_page (T' i) \<in> P" "\<And>v. v < ULIM \<Longrightarrow> valid_pte (M' v) \<Longrightarrow> pte_page (M' v) \<in> P"
    and new: "pp_ref s' = R'" "\<And>i. i < 0x800 \<Longrightarrow> pde s' b i = T' i" "\<And>v. v < ULIM \<Longrightarrow> upte s' b v = M' v"
  shows "testing s0 b P s' xs' T' M' R'"
proof -
  have "outside s {b} xs b q" if "unit_page q" "q \<noteq> b" "q \<notin> P" for q
    using that t testingD(11) [OF t] by (auto simp: outside_def testing_def)
  then have "quiet P b s s'" using only quiet by (simp add: quiet_def)
  then have "quiet P b s0 s'" by (rule quiet_trans [OF testingD(4) [OF t]])
  then show ?thesis using inv P new by (simp add: testing_def)
qed

lemma test_full: "testing s0 b P s [] T M R \<Longrightarrow> page_alloc s = Some (Inl E_NO_MEM, s)"
  using page_alloc_empty [OF testingD(2)] by blast

lemma test_alloc:
  assumes t: "testing s0 b P s (q # xs) T M R"
  obtains s' where "page_alloc s = Some (Inr q, s')" "testing s0 b P s' xs T M R"
proof -
  note d = testingD [OF t]
  obtain s' where s': "page_alloc s = Some (Inr q, s')" "vm_inv s' {b} xs" "vm_only s s'" "pp_ref s' = pp_ref s"
    "\<And>x. x \<in> all_slots {b} \<Longrightarrow> pte_at s' x = pte_at s x"
    by (rule page_alloc_vmE [OF d(1)]) blast
  have k: "kept s s' r" if "unit_page r" "r \<notin> set (q # xs)" for r by (rule kept_page_alloc [OF d(2) that s'(1)])
  have kb: "kept s s' b" by (rule k [OF d(9,10)])
  have "testing s0 b P s' xs T M R"
  proof (rule testing_step [OF t s'(2,3)])
    show "same_links P s s'" by (rule same_links_alloc [OF d(2) s'(1) d(3)])
    show "same_kernel_part b s s'" by (rule same_kernel_kept [OF kb])
    show "kept s s' r" if "outside s {b} (q # xs) b r" for r using k that by (simp add: outside_def)
    show "set xs \<subseteq> P" using d(3) by simp
    show "pp_ref s' = R" using s'(4) d(5) by simp
    show "pde s' b i = T i" if "i < 0x800" for i
      using kept_pde [OF kb] d(6) [OF that] order.strict_trans [OF that, of "0x1000"] by simp
    show "upte s' b v = M v" if "v < ULIM" for v
      using s'(5) [OF slot_of_all [OF _ that]] d(7) [OF that] by (simp add: upte_def)
  qed (use t in \<open>simp_all add: testing_def\<close>)
  then show thesis using that s'(1) by blast
qed

lemma vm_inv_free_list:
  assumes "vm_inv s D xs" "kmem s' = kmem s" "pp_ref s' = pp_ref s" "npage s' = npage s" "alloc_inv s' xs'"
  shows "vm_inv s' D xs'"
  using assms view_kmem(1,2) [OF assms(2)] by (simp add: vm_inv_def)

lemma test_free:
  assumes t: "testing s0 b P s xs T M R" and p: "unit_page p" "p < npage s" "R p = 0" "p \<in> P" "p \<notin> set xs"
  obtains s' where "page_free p s = Some s'" "testing s0 b P s' (p # xs) T M R"
proof -
  note d = testingD [OF t]
  let ?s = "s\<lparr>page_free_list := LIST_INSERT_HEAD p (page_free_list s)\<rparr>"
  have f: "page_free p s = Some ?s" using p(3) d(5) by (simp add: page_free_total)
  have "alloc_inv ?s (p # xs)" using page_free_inv [OF d(2), of p] p d(5) f by (auto simp: unit_page_def)
  then have inv: "vm_inv ?s {b} (p # xs)" by (intro vm_inv_free_list [OF d(1)]) simp_all
  have m: "kmem ?s = kmem s" by simp
  have "testing s0 b P ?s (p # xs) T M R"
  proof (rule testing_step [OF t inv])
    show "same_links P s ?s" by (rule same_links_free [OF d(2) f d(3) p(4)])
    show "set (p # xs) \<subseteq> P" using d(3) p(4) by simp
  qed (use t view_kmem [OF m] in \<open>simp_all add: testing_def kept_def\<close>)
  then show thesis using that f by blast
qed

subsection \<open>The page functions on these states\<close>

abbreviation new_pte :: "u32 \<Rightarrow> u32" where
  "new_pte p \<equiv> page2pa p OR PTE_V"

lemma new_pte: "p < 0x40000 \<Longrightarrow> valid_pte (new_pte p)" "p < 0x40000 \<Longrightarrow> pte_page (new_pte p) = p"
  using entry_flags [of PTE_V PTE_V p] pte_page_entry [of p PTE_V] by (simp_all add: valid_pte_def)

lemma test_new:
  assumes t: "testing s0 b P s xs T M R" and va: "va < ULIM" "\<not> valid_pte (M va)"
    and p: "unit_page p" "p < npage s" "p \<in> P" "p \<noteq> b" "p \<notin> set xs" "\<And>i. i < 0x800 \<Longrightarrow> T i \<noteq> 0 \<Longrightarrow> pte_page (T i) \<noteq> p"
      "R p \<noteq> 0xFFFF"
  obtains (full) s' where "T (PDX va) = 0" "xs = []" "page_insert_new (frame b) p va PTE_V s = Some (Inl E_NO_MEM, s')"
      "testing s0 b P s' xs T M R"
  | (ok) s' where "T (PDX va) = 0 \<longrightarrow> xs \<noteq> []" "page_insert_new (frame b) p va PTE_V s = Some (Inr (), s')"
      "testing s0 b P s' (if T (PDX va) = 0 then tl xs else xs)
        (if T (PDX va) = 0 then T(PDX va := page2pa (hd xs) OR PDE_PAGE_TABLE) else T)
        (\<lambda>v. if same_page v va then new_pte p else M v) ((if T (PDX va) = 0 then R(hd xs := 1) else R)(p := R p + 1))"
proof -
  note d = testingD [OF t]
  have i: "PDX va < 0x800" by (rule PDX_user [OF va(1)])
  have Ti: "pde s b (PDX va) = T (PDX va)" by (rule d(6) [OF i])
  have v: "\<not> valid_pte (upte s b va)" using d(7) [OF va(1)] va(2) by simp
  have pn: "p \<notin> {b} \<union> tables_of (pde s) {b} \<union> set xs" using p(4-6) unfolding d(11) by auto
  have ref: "pp_ref s p \<noteq> 0xFFFF" using p(7) d(5) by simp
  have p4: "p < 0x40000" using p(1) by (simp add: unit_page_def)
  have perm: "(PTE_V :: u32) < 0x1000" "PTE_V AND PTE_V \<noteq> (0 :: u32)" by simp_all
  show thesis
  proof (cases rule: page_insert_newE [OF d(1) singletonI va(1) v p(1,2) pn ref perm])
    case 1
    let ?t = "tlb_invalidate (frame b) va s"
    have m: "kmem ?t = kmem s" by simp
    have "testing s0 b P ?t xs T M R"
    proof (rule testing_step [OF t])
      show "vm_inv ?t {b} xs" using d(1) by simp
      show "vm_only s ?t" by (rule vm_only_tlb)
      show "same_links P s ?t" by (simp add: tlb_invalidate_eq)
      show "pp_ref ?t = R" using d(5) by (simp add: tlb_invalidate_eq)
    qed (use t view_kmem [OF m] in \<open>simp_all add: testing_def kept_def\<close>)
    then show thesis using full 1 Ti by simp
  next
    case (2 s')
    let ?xs = "if T (PDX va) = 0 then tl xs else xs"
    let ?T = "if T (PDX va) = 0 then T(PDX va := page2pa (hd xs) OR PDE_PAGE_TABLE) else T"
    note run = 2(1)
    have inv: "vm_inv s' {b} ?xs" using 2(2) Ti by simp
    have sub: "set ?xs \<subseteq> set xs" using list.set_sel(2) [of xs] by (cases xs) auto
    have other: "pde s' b k = T k" if "k < 0x800" "k \<noteq> PDX va" for k using 2(8) [of b k] d(6) [OF that(1)] that by simp
    have hd: "xs \<noteq> [] \<and> pde s' b (PDX va) = page2pa (hd xs) OR PDE_PAGE_TABLE \<and> hd xs < 0x40000" if z: "T (PDX va) = 0"
    proof -
      have ne: "xs \<noteq> []" using 2(4) Ti z by simp
      then obtain q qs where xs: "xs = q # qs" by (cases xs) auto
      obtain u where u: "pde s' b (PDX va) = page2pa u OR PDE_PAGE_TABLE" "u \<in> tables_of (pde s') {b}"
        "live_page (npage s') (pp_ref s') u" "pte_page (pde s' b (PDX va)) = u"
        using vm_invD(2) [OF inv] singletonI i 2(9) by (rule vm_wf_tableE)
      have q: "unit_page q" "R q = 0" using alloc_inv_unit [OF d(2), of q] xs d(5) by auto
      have "u = q"
      proof (rule ccontr)
        assume "u \<noteq> q"
        have u0: "u \<in> tables_of (pde s) {b} \<union> set xs" using u(2) 2(10) by blast
        have "u \<notin> set qs"
          using live_not_free [OF inv u(3)] z xs by simp
        then have "u \<in> tables_of (pde s) {b}" using u0 \<open>u \<noteq> q\<close> xs by simp
        then obtain k where k: "u = pte_page (T k)" "k < 0x800" "T k \<noteq> 0" unfolding d(11) by blast
        have "k \<noteq> PDX va" using k(3) z by auto
        then have "pde s' b k = T k" using other k(2) by blast
        then have "pde s' b k \<noteq> 0" "pte_page (pde s' b k) = u" using k by simp_all
        then obtain u' where "pde s' b k = page2pa u' OR PDE_PAGE_TABLE" "pte_page (pde s' b k) = u'"
          using vm_wf_tableE [OF vm_invD(2) [OF inv] singletonI k(2)] by metis
        then have "pde s' b k = pde s' b (PDX va)" using u(1) \<open>pte_page (pde s' b k) = u\<close> by simp
        then have "k = PDX va"
          using vm_wf_unique [OF vm_invD(2) [OF inv] singletonI k(2) singletonI i] \<open>pde s' b k \<noteq> 0\<close> by simp
        then show False using \<open>k \<noteq> PDX va\<close> by simp
      qed
      then show ?thesis using u(1) xs q(1) by (simp add: unit_page_def)
    qed
    have "testing s0 b P s' ?xs ?T (\<lambda>v. if same_page v va then new_pte p else M v) ((if T (PDX va) = 0 then R(hd xs := 1) else R)(p := R p + 1))"
    proof (rule testing_step [OF t inv vm_only_insert_new [OF run]])
      show "same_links P s s'" by (rule same_links_new [OF d(2) run d(3)])
      show "same_kernel_part b s s'" by (rule kernel_part_new [OF d(1) singletonI va(1) run])
      show "kept s s' q" if "outside s {b} xs b q" for q by (rule kept_insert_new [OF d(1) singletonI va(1) that run])
      show "set ?xs \<subseteq> P" using sub d(3) by blast
      show "pte_page (?T k) \<in> P" if "k < 0x800" "?T k \<noteq> 0" for k
      proof (cases "T (PDX va) = 0 \<and> k = PDX va")
        case True
        then have "pte_page (?T k) = hd xs" using hd pte_page_entry [of "hd xs" PDE_PAGE_TABLE] by simp
        then show ?thesis using hd True d(3) list.set_sel(1) [of xs] by auto
      next
        case False
        then have "?T k = T k" by auto
        then show ?thesis using t that by (simp add: testing_def)
      qed
      show "pte_page (if same_page v va then new_pte p else M v) \<in> P" if "v < ULIM" "valid_pte (if same_page v va then new_pte p else M v)" for v
        using that t new_pte(2) [OF p4] p(3) by (auto simp: testing_def split: if_splits)
      show "pp_ref s' = (if T (PDX va) = 0 then R(hd xs := 1) else R)(p := R p + 1)" using 2(5) Ti d(5) by simp
      show "pde s' b k = ?T k" if "k < 0x800" for k
      proof (cases "k = PDX va")
        case True
        show ?thesis
        proof (cases "T (PDX va) = 0")
          case False
          have z: "pde s b (PDX va) \<noteq> 0" using False Ti by simp
          define t1 where "t1 = tlb_invalidate (frame b) va s"
          have t1: "vm_inv t1 {b} xs" "kmem t1 = kmem s" using d(1) by (simp_all add: t1_def)
          have z1: "pde t1 b (PDX va) \<noteq> 0" using z view_kmem(1) [OF t1(2)] by simp
          have "kmem s' = store32 (kmem t1) (pte_addr t1 b va) (new_pte p)"
            using run pgdir_walk_present [OF t1(1) singletonI va(1) z1, of True]
            by (auto simp: page_insert_new_def t1_def [symmetric])
          from store_pte(1) [OF t1(1) singletonI va(1) z1 this singletonI i]
          have "pde s' b (PDX va) = T (PDX va)" using Ti view_kmem(1) [OF t1(2)] by simp
          then show ?thesis using True False by simp
        qed (use True hd in simp)
      qed (use other that in simp)
      show "upte s' b v = (if same_page v va then new_pte p else M v)" if "v < ULIM" for v
        using upte_of_pte_at [OF 2(6) singletonI that] d(7) [OF that] by simp
    qed
    then show thesis using ok run 2(4) Ti by simp
  qed
qed

lemma test_insert:
  assumes t: "testing s0 b P s xs T M R" and va: "va < ULIM" "\<not> valid_pte (M va)"
  shows "page_insert (frame b) p va 0 s = page_insert_new (frame b) p va PTE_V s"
proof -
  note d = testingD [OF t]
  have "\<not> valid_pte (upte s b va)" using d(7) [OF va(1)] va(2) by simp
  from page_insert_fresh [OF d(1) singletonI va(1) this, of p 0] show ?thesis by simp
qed

lemma test_same:
  assumes t: "testing s0 b P s xs T M R" and va: "va < ULIM" and M: "\<And>v. v < ULIM \<Longrightarrow> same_page v va \<Longrightarrow> M v = new_pte p"
    and p: "p < 0x40000"
  obtains s' where "page_insert (frame b) p va 0 s = Some (Inr (), s')" "testing s0 b P s' xs T M R"
proof -
  note d = testingD [OF t]
  have here: "upte s b va = new_pte p" using d(7) [OF va] M [OF va] by (simp add: same_page_def)
  have v: "valid_pte (upte s b va)" "p = pte_page (upte s b va)" unfolding here using new_pte [OF p] by simp_all
  obtain s' where s': "page_insert (frame b) p va 0 s = Some (Inr (), s')" "vm_inv s' {b} xs" "pp_ref s' = pp_ref s"
    "\<And>x. x \<in> all_slots {b} \<Longrightarrow> pte_at s' x = ((pte_at s)(slot_of b va := new_pte p)) x"
    by (rule page_insert_same [OF d(1) singletonI va v, of 0]) simp_all
  have nz: "pde s b (PDX va) \<noteq> 0" using v(1) upte_absent [of s b va] by auto
  have live: "live_page (npage s) (pp_ref s) p"
    using vm_wf_mapped(1) [OF vm_invD(2) [OF d(1)] slot_of_all [OF singletonI va], folded upte_def, OF v(1)] v(2) by simp
  have pa: "pa2page (upte s b va) s = Some p" using live v(2) by (auto simp: pa2page_entry live_page_def)
  have eq: "s' = (tlb_invalidate (frame b) va s)\<lparr>kmem := store32 (kmem s) (pte_addr s b va) (new_pte p)\<rparr>"
    using s'(1) section_va_user [OF va] v(1) pa
    by (simp add: page_insert_def pgdir_walk_present [OF d(1) singletonI va nz] load_pte_addr [OF nz] valid_pte_def Let_def)
  have m: "kmem s' = store32 (kmem s) (pte_addr s b va) (new_pte p)" by (simp add: eq)
  note st = store_pte(1) [OF d(1) singletonI va nz m]
  have "\<exists>u. pte_page (pde s b (PDX va)) = u \<and> unit_page u \<and> u \<notin> {b} \<and> u \<in> tables_of (pde s) {b}"
    using vm_invD(2) [OF d(1)] singletonI PDX_user [OF va] nz by (rule vm_wf_tableE) (auto simp: live_page_def)
  then have tab: "unit_page (pte_page (pde s b (PDX va)))" "pte_page (pde s b (PDX va)) \<noteq> b"
    "pte_page (pde s b (PDX va)) \<in> tables_of (pde s) {b}" by simp_all
  have k: "kept s s' q" if "unit_page q" "q \<noteq> pte_page (pde s b (PDX va))" for q
    by (rule kept_store [OF tab(1) that(1) that(2) [symmetric] PTX_less(2)]) (simp add: m pte_addr_def)
  have "testing s0 b P s' xs T M R"
  proof (rule testing_step [OF t s'(2)])
    show "vm_only s s'" by (rule vm_only_page_insert [OF s'(1)])
    show "same_links P s s'" by (simp add: eq tlb_invalidate_eq)
    show "same_kernel_part b s s'" by (rule same_kernel_kept [OF k [OF d(9) tab(2) [symmetric]]])
    show "kept s s' q" if "outside s {b} xs b q" for q using that tab(3) by (intro k) (auto simp: outside_def)
    show "pde s' b i = T i" if "i < 0x800" for i using st [OF singletonI that] d(6) [OF that] by simp
    show "upte s' b w = M w" if "w < ULIM" for w
      using upte_of_pte_at [OF s'(4) singletonI that] d(7) [OF that] M [OF that] by simp
  qed (use t s'(3) in \<open>simp_all add: testing_def\<close>)
  then show thesis using that s'(1) by blast
qed

lemma test_remove:
  assumes t: "testing s0 b P s xs T M R" and va: "va < ULIM" and M: "M va = new_pte p" and p: "p < 0x40000"
  obtains s' where "page_remove (frame b) va s = Some s'"
    "testing s0 b P s' (if R p = 1 then p # xs else xs) T (\<lambda>v. if same_page v va then 0 else M v) (R(p := R p - 1))"
proof -
  note d = testingD [OF t]
  have here: "upte s b va = new_pte p" using d(7) [OF va] M by simp
  have v: "valid_pte (upte s b va)" "p = pte_page (upte s b va)" unfolding here using new_pte [OF p] by simp_all
  have pP: "p \<in> P" using t va M new_pte [OF p] by (auto simp: testing_def)
  obtain s' where s': "page_remove (frame b) va s = Some s'" "vm_inv s' {b} (if pp_ref s p = 1 then p # xs else xs)"
    "pp_ref s' = (pp_ref s)(p := pp_ref s p - 1)" "\<And>d i. d \<in> {b} \<Longrightarrow> i < 0x800 \<Longrightarrow> pde s' d i = pde s d i"
    "\<And>x. x \<in> all_slots {b} \<Longrightarrow> pte_at s' x = ((pte_at s)(slot_of b va := 0)) x"
    by (rule page_removeE [OF d(1) singletonI va v]) blast
  have "testing s0 b P s' (if R p = 1 then p # xs else xs) T (\<lambda>v. if same_page v va then 0 else M v) (R(p := R p - 1))"
  proof (rule testing_step [OF t])
    show "vm_inv s' {b} (if R p = 1 then p # xs else xs)" using s'(2) d(5) by simp
    show "vm_only s s'" by (rule vm_only_page_remove [OF s'(1)])
    show "same_links P s s'" by (rule same_links_remove [OF d(1) singletonI va s'(1) d(3)]) (use v(2) pP in simp)
    show "same_kernel_part b s s'" by (rule kernel_part_remove [OF d(1) singletonI va s'(1)])
    show "kept s s' q" if "outside s {b} xs b q" for q by (rule kept_page_remove [OF d(1) singletonI va that s'(1)])
    show "set (if R p = 1 then p # xs else xs) \<subseteq> P" using d(3) pP by simp
    show "pp_ref s' = R(p := R p - 1)" using s'(3) d(5) by simp
    show "pde s' b i = T i" if "i < 0x800" for i using s'(4) [OF singletonI that] d(6) [OF that] by simp
    show "upte s' b w = (if same_page w va then 0 else M w)" if "w < ULIM" for w
      using upte_of_pte_at [OF s'(5) singletonI that] d(7) [OF that] by simp
    show "pte_page (if same_page w va then 0 else M w) \<in> P" if "w < ULIM" "valid_pte (if same_page w va then 0 else M w)" for w
      using that t by (auto simp: testing_def split: if_splits)
  qed (use t in \<open>simp_all add: testing_def\<close>)
  then show thesis using that s'(1) by blast
qed

lemma test_replace:
  assumes t: "testing s0 b P s xs T M R" and va: "va < ULIM" and M: "M va = new_pte q" and q: "q < 0x40000" "q \<noteq> p"
    and rem: "page_remove (frame b) va s = Some s1"
  shows "page_insert (frame b) p va 0 s = page_insert_new (frame b) p va PTE_V s1"
proof -
  note d = testingD [OF t]
  have here: "upte s b va = new_pte q" using d(7) [OF va] M by simp
  have v: "valid_pte (upte s b va)" "pte_page (upte s b va) = q" unfolding here using new_pte [OF q(1)] by simp_all
  have nz: "pde s b (PDX va) \<noteq> 0" using v(1) upte_absent [of s b va] by auto
  have "live_page (npage s) (pp_ref s) q"
    using vm_wf_mapped(1) [OF vm_invD(2) [OF d(1)] slot_of_all [OF singletonI va], folded upte_def, OF v(1)] v(2) by simp
  then have "pa2page (upte s b va) s = Some q" using v(2) by (auto simp: pa2page_entry live_page_def)
  then show ?thesis
    using section_va_user [OF va] v(1) q(2) rem
    by (simp add: page_insert_def pgdir_walk_present [OF d(1) singletonI va nz] load_pte_addr [OF nz] valid_pte_def)
qed

lemma test_insert_full:
  assumes t: "testing s0 b P s [] T M R" and va: "va < ULIM" "\<not> valid_pte (M va)" "T (PDX va) = 0"
  obtains s' where "page_insert (frame b) p va 0 s = Some (Inl E_NO_MEM, s')" "testing s0 b P s' [] T M R"
proof -
  note d = testingD [OF t]
  let ?t = "tlb_invalidate (frame b) va s"
  have m: "kmem ?t = kmem s" by simp
  have "pde ?t b (PDX va) = 0" using d(6) [OF PDX_user [OF va(1)]] va(3) view_kmem(1) [OF m] by simp
  moreover have "alloc_inv ?t []" using d(2) by (simp add: tlb_invalidate_eq alloc_inv_def)
  ultimately have "page_insert (frame b) p va 0 s = Some (Inl E_NO_MEM, ?t)"
    unfolding test_insert [OF t va(1,2)] by (simp add: page_insert_new_def pgdir_walk_full [OF va(1)])
  moreover have "testing s0 b P ?t [] T M R"
  proof (rule testing_step [OF t])
    show "vm_inv ?t {b} []" using d(1) by simp
    show "vm_only s ?t" by (rule vm_only_tlb)
    show "same_links P s ?t" by (simp add: tlb_invalidate_eq)
    show "pp_ref ?t = R" using d(5) by (simp add: tlb_invalidate_eq)
  qed (use t view_kmem [OF m] in \<open>simp_all add: testing_def kept_def\<close>)
  ultimately show thesis by (rule that)
qed

lemma test_va2pa:
  assumes t: "testing s0 b P s xs T M R" and va: "va < ULIM"
  shows "M va = new_pte p \<Longrightarrow> p < 0x40000 \<Longrightarrow> PG_ADDR_OFFSET va = 0 \<Longrightarrow> va2pa (frame b) va s = Some (page2pa p)"
    "M va = 0 \<Longrightarrow> va2pa (frame b) va s = Some (NOT 0)"
proof -
  note d = testingD [OF t]
  have PG_ADDR_BASE: "PG_ADDR_BASE (new_pte p) = page2pa p" by (rule PG_ADDR_BASE_entry) simp
  show "M va = new_pte p \<Longrightarrow> p < 0x40000 \<Longrightarrow> PG_ADDR_OFFSET va = 0 \<Longrightarrow> va2pa (frame b) va s = Some (page2pa p)"
    using va2pa_upte [OF d(1) singletonI va] d(7) [OF va] new_pte(1) PG_ADDR_BASE by simp
  show "M va = 0 \<Longrightarrow> va2pa (frame b) va s = Some (NOT 0)"
    using va2pa_upte [OF d(1) singletonI va] d(7) [OF va] by simp
qed

subsection \<open>The test\<close>

text \<open>An address below \<open>ULIM\<close> is accessed through the tables of the boot directory, which is the active
  one: the bytes are those that the kernel sees at \<open>virt va\<close>.\<close>

definition virt :: "u32 \<Rightarrow> kstate \<Rightarrow> u32 option" where
  "virt va s = do {
     pa \<leftarrow> va2pa (boot_pgdir s) va s;
     if pa = NOT 0 then None else Some (pa - DRAMBASE + ULIM)
   }"

definition store_va :: "u32 \<Rightarrow> u32 \<Rightarrow> kstate \<Rightarrow> kstate option" where
  "store_va va v s = do { a \<leftarrow> virt va s; Some (s\<lparr>kmem := store32 (kmem s) a v\<rparr>) }"

definition store_page :: "u32 \<Rightarrow> u32 \<Rightarrow> kstate \<Rightarrow> kstate option" where
  "store_page pp v s = do { a \<leftarrow> page2kva pp s; Some (s\<lparr>kmem := store32 (kmem s) a v\<rparr>) }"

definition assert_alias :: "u32 \<Rightarrow> u32 \<Rightarrow> kstate \<Rightarrow> unit option" where
  "assert_alias va pp s = do {
     a \<leftarrow> virt va s;
     k \<leftarrow> page2kva pp s;
     assert_that (load32 (kmem s) a = load32 (kmem s) k)
   }"

definition check_memory :: "u32 \<Rightarrow> u32 \<Rightarrow> kstate \<Rightarrow> kstate option" where
  "check_memory va pp1 s = do {
     assert_alias va pp1 s;
     s \<leftarrow> store_va va 3911096 s;
     assert_alias va pp1 s;
     s \<leftarrow> store_page pp1 1096391 s;
     assert_alias va pp1 s;
     s \<leftarrow> store_va va 1234 s;
     s \<leftarrow> store_page pp1 4321 s;
     assert_alias va pp1 s;
     s \<leftarrow> store_page pp1 0xABCD s;
     s \<leftarrow> store_va va 0xDCBA s;
     assert_alias va pp1 s;
     Some s
   }"

definition assert_pa :: "u32 \<Rightarrow> u32 \<Rightarrow> kstate \<Rightarrow> unit option" where
  "assert_pa va pa s = do { a \<leftarrow> va2pa (boot_pgdir s) va s; assert_that (a = pa) }"

definition assert_no_memory :: "kstate \<Rightarrow> kstate option" where
  "assert_no_memory s = do { (r, s) \<leftarrow> page_alloc s; assert_that (r = Inl E_NO_MEM); Some s }"

definition assert_inserts :: "u32 \<Rightarrow> u32 \<Rightarrow> kstate \<Rightarrow> kstate option" where
  "assert_inserts pp va s = do { (r, s) \<leftarrow> page_insert (boot_pgdir s) pp va 0 s; assert_that (r = Inr ()); Some s }"

definition assert_refuses :: "u32 \<Rightarrow> u32 \<Rightarrow> kstate \<Rightarrow> kstate option" where
  "assert_refuses pp va s = do { (r, s) \<leftarrow> page_insert (boot_pgdir s) pp va 0 s; assert_that (r \<noteq> Inr ()); Some s }"

text \<open>The four parts of \<open>page_check\<close>: a page is mapped with a new table, pages are mapped anew and
  replaced, unmapped again, and what was taken is given back. The values that are only printed are
  computed too, since \<open>page2kva\<close> and \<open>KADDR\<close> may panic.\<close>

definition check_insert :: "u32 \<Rightarrow> u32 \<Rightarrow> u32 \<Rightarrow> kstate \<Rightarrow> kstate option" where
  "check_insert va pp0 pp1 s = do {
     s \<leftarrow> assert_refuses pp1 va s;
     s \<leftarrow> page_free pp0 s;
     s \<leftarrow> assert_inserts pp1 va s;
     let entry = load32 (kmem s) (boot_pgdir s + 4 * PDX va);
     assert_that (PTE_ADDR entry = page2pa pp0);
     _ \<leftarrow> page2kva pp1 s;
     _ \<leftarrow> KADDR (npage s) (PTE_ADDR entry);
     s \<leftarrow> check_memory va pp1 s;
     assert_pa va (page2pa pp1) s;
     assert_that (pp_ref s pp1 = 1);
     Some s
   }"

definition check_replace :: "u32 \<Rightarrow> u32 \<Rightarrow> u32 \<Rightarrow> u32 \<Rightarrow> kstate \<Rightarrow> kstate option" where
  "check_replace va pp0 pp1 pp2 s = do {
     s \<leftarrow> assert_inserts pp2 (va + BY2PG) s;
     assert_pa (va + BY2PG) (page2pa pp2) s;
     assert_that (pp_ref s pp2 = 1);
     s \<leftarrow> assert_no_memory s;
     s \<leftarrow> assert_inserts pp2 (va + BY2PG) s;
     assert_pa (va + BY2PG) (page2pa pp2) s;
     assert_that (pp_ref s pp2 = 1);
     s \<leftarrow> assert_no_memory s;
     s \<leftarrow> assert_refuses pp0 (va - PDMAP) s;
     s \<leftarrow> assert_inserts pp1 (va + BY2PG) s;
     assert_pa va (page2pa pp1) s;
     assert_pa (va + BY2PG) (page2pa pp1) s;
     assert_that (pp_ref s pp1 = 2);
     assert_that (pp_ref s pp2 = 0);
     Some s
   }"

definition check_remove :: "u32 \<Rightarrow> u32 \<Rightarrow> u32 \<Rightarrow> kstate \<Rightarrow> kstate option" where
  "check_remove va pp1 pp2 s = do {
     (r, s) \<leftarrow> page_alloc s;
     assert_that (r = Inr pp2);
     s \<leftarrow> page_remove (boot_pgdir s) va s;
     assert_pa va (NOT 0) s;
     assert_pa (va + BY2PG) (page2pa pp1) s;
     assert_that (pp_ref s pp1 = 1);
     assert_that (pp_ref s pp2 = 0);
     s \<leftarrow> page_remove (boot_pgdir s) (va + BY2PG) s;
     assert_pa va (NOT 0) s;
     assert_pa (va + BY2PG) (NOT 0) s;
     assert_that (pp_ref s pp1 = 0);
     assert_that (pp_ref s pp2 = 0);
     (r, s) \<leftarrow> page_alloc s;
     assert_that (r = Inr pp1);
     assert_no_memory s
   }"

definition page_check :: "kstate \<Rightarrow> kstate option" where
  "page_check s = do {
     (r, s) \<leftarrow> page_alloc s; pp0 \<leftarrow> got_page r;
     (r, s) \<leftarrow> page_alloc s; pp1 \<leftarrow> got_page r;
     (r, s) \<leftarrow> page_alloc s; pp2 \<leftarrow> got_page r;
     assert_that (pp1 \<noteq> pp0);
     assert_that (pp2 \<noteq> pp1 \<and> pp2 \<noteq> pp0);
     let fl = lh_first (page_free_list s);
     let s = s\<lparr>page_free_list := LIST_INIT (page_free_list s)\<rparr>;
     s \<leftarrow> assert_no_memory s;
     let va = 0x400000;
     s \<leftarrow> check_insert va pp0 pp1 s;
     s \<leftarrow> check_replace va pp0 pp1 pp2 s;
     s \<leftarrow> check_remove va pp1 pp2 s;
     assert_that (PTE_ADDR (load32 (kmem s) (boot_pgdir s + 4 * PDX va)) = page2pa pp0);
     let s = s\<lparr>kmem := store32 (kmem s) (boot_pgdir s + 4 * PDX va) 0\<rparr>;
     assert_that (pp_ref s pp0 = 1);
     let s = set_ref pp0 0 s;
     let s = s\<lparr>page_free_list := (page_free_list s)\<lparr>lh_first := fl\<rparr>\<rparr>;
     s \<leftarrow> page_free pp0 s;
     s \<leftarrow> page_free pp1 s;
     page_free pp2 s
   }"

subsection \<open>The test passes\<close>

lemma test_write:
  assumes t: "testing s0 b P s xs T M R" and p: "unit_page p" "p \<in> P" "p \<noteq> b" "\<And>i. i < 0x800 \<Longrightarrow> T i \<noteq> 0 \<Longrightarrow> pte_page (T i) \<noteq> p"
  shows "testing s0 b P (s\<lparr>kmem := store32 (kmem s) (frame p) v\<rparr>) xs T M R"
proof -
  note d = testingD [OF t]
  let ?s = "s\<lparr>kmem := store32 (kmem s) (frame p) v\<rparr>"
  have np: "p \<notin> {b} \<union> tables_of (pde s) {b}" using p(3,4) unfolding d(11) by auto
  have k: "kept s ?s q" if "unit_page q" "q \<noteq> p" for q
    by (rule kept_store [OF p(1) that(1) that(2) [symmetric], of 0]) simp_all
  note data = vm_inv_data [OF d(1) np k]
  have eq: "npage ?s = npage s" "pp_ref ?s = pp_ref s" "page_free_list ?s = page_free_list s" by simp_all
  show ?thesis
  proof (rule testing_step [OF t data(1) [OF _ _ eq]])
    show "same_kernel_part b s ?s" by (rule same_kernel_kept [OF k [OF d(9) p(3) [symmetric]]])
    show "kept s ?s q" if "outside s {b} xs b q" "q \<notin> P" for q using that p(2) by (intro k) (auto simp: outside_def)
    show "pde ?s b i = T i" if "i < 0x800" for i using data(3) [OF _ _ eq singletonI that] d(6) [OF that] by simp
    show "upte ?s b w = M w" if "w < ULIM" for w
      using data(2) [OF _ _ eq slot_of_all [OF singletonI that]] d(7) [OF that] by (simp add: upte_def)
  qed (use t in \<open>simp_all add: testing_def\<close>)
qed

lemma pa_to_kva: "p < 0x40000 \<Longrightarrow> page2pa p \<noteq> NOT 0 \<and> page2pa p - DRAMBASE + ULIM = frame p"
proof
  assume "p < 0x40000"
  show "page2pa p \<noteq> NOT 0"
  proof
    assume "page2pa p = NOT 0"
    then have "bit (page2pa p) 0" by simp
    then show False by (simp add: page2pa_push bit_simps)
  qed
  show "page2pa p - DRAMBASE + ULIM = frame p" by (simp add: frame_def page2pa_def)
qed

text \<open>The states of the test in terms of the free list, of whether there is a table, of the entries at the two
  addresses and of the three reference counts.\<close>

definition stage :: "kstate \<Rightarrow> u32 \<Rightarrow> u32 \<Rightarrow> u32 \<Rightarrow> u32 \<Rightarrow> kstate \<Rightarrow> u32 list \<Rightarrow> bool \<Rightarrow> u32 \<Rightarrow> u32 \<Rightarrow> u16 \<times> u16 \<times> u16 \<Rightarrow> bool" where
  "stage s0 b p0 p1 p2 s xs tab a c r \<longleftrightarrow> boot_pgdir s = frame b \<and> distinct [p0, p1, p2, b] \<and>
     (\<forall>p\<in>{p0, p1, p2}. unit_page p \<and> p < npage s) \<and>
     testing s0 b {p0, p1, p2} s xs ((\<lambda>_. 0)(4 := if tab then page2pa p0 OR PDE_PAGE_TABLE else 0))
       (\<lambda>v. if same_page v 0x401000 then c else if same_page v 0x400000 then a else 0)
       ((pp_ref s0)(p0 := fst r, p1 := fst (snd r), p2 := snd (snd r)))"

lemma stageI:
  assumes st: "stage s0 b p0 p1 p2 s xs tab a c r" and t: "testing s0 b {p0, p1, p2} s' xs' T M R"
    and T: "\<And>i. T i = ((\<lambda>_. 0)(4 := if tab' then page2pa p0 OR PDE_PAGE_TABLE else 0)) i"
    and M: "\<And>v. M v = (if same_page v 0x401000 then c' else if same_page v 0x400000 then a' else 0)"
    and R: "R = (pp_ref s0)(p0 := fst r', p1 := fst (snd r'), p2 := snd (snd r'))"
  shows "stage s0 b p0 p1 p2 s' xs' tab' a' c' r'"
proof -
  have "T = (\<lambda>_. 0)(4 := if tab' then page2pa p0 OR PDE_PAGE_TABLE else 0)" using T by blast
  moreover have "M = (\<lambda>v. if same_page v 0x401000 then c' else if same_page v 0x400000 then a' else 0)" using M by blast
  moreover have "boot_pgdir s' = boot_pgdir s" "npage s' = npage s"
  proof -
    have "boot_pgdir u = boot_pgdir s0 \<and> npage u = npage s0" if "testing s0 b {p0, p1, p2} u ys T M R" for u ys T M R
      using vm_only_boot testingD(4,8) [OF that] unfolding quiet_def by blast
    moreover obtain T0 M0 R0 where "testing s0 b {p0, p1, p2} s xs T0 M0 R0" using st unfolding stage_def by blast
    ultimately have "boot_pgdir s' = boot_pgdir s0 \<and> npage s' = npage s0" "boot_pgdir s = boot_pgdir s0 \<and> npage s = npage s0"
      using t by blast+
    then show "boot_pgdir s' = boot_pgdir s" "npage s' = npage s" by simp_all
  qed
  ultimately show ?thesis using st t R by (simp add: stage_def)
qed

lemma test_vas:
  "PDX 0x400000 = 4" "PDX 0x401000 = 4" "PDX 0x300000 = 3" "\<not> same_page 0x400000 0x401000" "\<not> same_page 0x401000 0x400000"
  "\<not> same_page 0x300000 0x401000" "\<not> same_page 0x300000 0x400000" "same_page v v"
  "PG_ADDR_OFFSET 0x400000 = 0" "PG_ADDR_OFFSET 0x401000 = 0" "(0x400000 :: u32) < ULIM" "(0x401000 :: u32) < ULIM" "(0x300000 :: u32) < ULIM"
  by (simp_all add: PDX_def same_page_def PG_ADDR_OFFSET_def)

lemma stageD:
  assumes "stage s0 b p0 p1 p2 s xs tab a c r"
  shows "boot_pgdir s = frame b" "testing s0 b {p0, p1, p2} s xs ((\<lambda>_. 0)(4 := if tab then page2pa p0 OR PDE_PAGE_TABLE else 0))
       (\<lambda>v. if same_page v 0x401000 then c else if same_page v 0x400000 then a else 0)
       ((pp_ref s0)(p0 := fst r, p1 := fst (snd r), p2 := snd (snd r)))"
    "distinct [p0, p1, p2, b]" "p \<in> {p0, p1, p2} \<Longrightarrow> unit_page p" "p \<in> {p0, p1, p2} \<Longrightarrow> p < npage s" "p \<in> {p0, p1, p2} \<Longrightarrow> p < 0x40000"
    "pp_ref s p0 = fst r" "pp_ref s p1 = fst (snd r)" "pp_ref s p2 = snd (snd r)"
proof -
  show t: "testing s0 b {p0, p1, p2} s xs ((\<lambda>_. 0)(4 := if tab then page2pa p0 OR PDE_PAGE_TABLE else 0))
       (\<lambda>v. if same_page v 0x401000 then c else if same_page v 0x400000 then a else 0)
       ((pp_ref s0)(p0 := fst r, p1 := fst (snd r), p2 := snd (snd r)))"
    and d: "boot_pgdir s = frame b" "distinct [p0, p1, p2, b]" "p \<in> {p0, p1, p2} \<Longrightarrow> unit_page p" "p \<in> {p0, p1, p2} \<Longrightarrow> p < npage s"
    using assms unfolding stage_def by blast+
  show "p \<in> {p0, p1, p2} \<Longrightarrow> p < 0x40000" using assms unfolding stage_def by (auto simp: unit_page_def)
  show "pp_ref s p0 = fst r" "pp_ref s p1 = fst (snd r)" "pp_ref s p2 = snd (snd r)"
    unfolding testingD(5) [OF t] using d(2) by auto
qed

lemma stage_refuse:
  assumes st: "stage s0 b p0 p1 p2 s [] tab a c r" and va: "va = 0x400000 \<and> \<not> tab \<and> a = 0 \<or> va = 0x300000"
  obtains s' where "assert_refuses p va s = Some s'" "stage s0 b p0 p1 p2 s' [] tab a c r"
proof -
  note d = stageD [OF st]
  obtain s' where s': "page_insert (frame b) p va 0 s = Some (Inl E_NO_MEM, s')"
    "testing s0 b {p0, p1, p2} s' [] ((\<lambda>_. 0)(4 := if tab then page2pa p0 OR PDE_PAGE_TABLE else 0))
       (\<lambda>v. if same_page v 0x401000 then c else if same_page v 0x400000 then a else 0)
       ((pp_ref s0)(p0 := fst r, p1 := fst (snd r), p2 := snd (snd r)))"
    by (rule test_insert_full [OF d(2), of va]) (use va in \<open>auto simp: test_vas\<close>)
  have "assert_refuses p va s = Some s'" using s'(1) d(1) by (simp add: assert_refuses_def assert_that_def)
  moreover have "stage s0 b p0 p1 p2 s' [] tab a c r" by (rule stageI [OF st s'(2)]) simp_all
  ultimately show thesis by (rule that)
qed

lemma stage_no_memory:
  assumes st: "stage s0 b p0 p1 p2 s [] tab a c r"
  shows "assert_no_memory s = Some s"
  using test_full [OF stageD(2) [OF st]] by (simp add: assert_no_memory_def assert_that_def)

lemma stage_alloc:
  assumes st: "stage s0 b p0 p1 p2 s (q # xs) tab a c r"
  obtains s' where "page_alloc s = Some (Inr q, s')" "stage s0 b p0 p1 p2 s' xs tab a c r"
proof -
  obtain s' where s': "page_alloc s = Some (Inr q, s')" "testing s0 b {p0, p1, p2} s' xs
      ((\<lambda>_. 0)(4 := if tab then page2pa p0 OR PDE_PAGE_TABLE else 0))
       (\<lambda>v. if same_page v 0x401000 then c else if same_page v 0x400000 then a else 0)
       ((pp_ref s0)(p0 := fst r, p1 := fst (snd r), p2 := snd (snd r)))"
    by (rule test_alloc [OF stageD(2) [OF st]])
  have "stage s0 b p0 p1 p2 s' xs tab a c r" by (rule stageI [OF st s'(2)]) simp_all
  then show thesis using that s'(1) by blast
qed

lemma stage_free:
  assumes st: "stage s0 b p0 p1 p2 s xs tab a c r" and p: "p \<in> {p0, p1, p2}" "p \<notin> set xs" "pp_ref s p = 0"
  obtains s' where "page_free p s = Some s'" "stage s0 b p0 p1 p2 s' (p # xs) tab a c r"
proof -
  note d = stageD [OF st]
  have z: "((pp_ref s0)(p0 := fst r, p1 := fst (snd r), p2 := snd (snd r))) p = 0" using p(3) testingD(5) [OF d(2)] by simp
  obtain s' where s': "page_free p s = Some s'" "testing s0 b {p0, p1, p2} s' (p # xs)
      ((\<lambda>_. 0)(4 := if tab then page2pa p0 OR PDE_PAGE_TABLE else 0))
       (\<lambda>v. if same_page v 0x401000 then c else if same_page v 0x400000 then a else 0)
       ((pp_ref s0)(p0 := fst r, p1 := fst (snd r), p2 := snd (snd r)))"
    by (rule test_free [OF d(2) d(4) [OF p(1)] d(5) [OF p(1)] z p(1,2)])
  have "stage s0 b p0 p1 p2 s' (p # xs) tab a c r" by (rule stageI [OF st s'(2)]) simp_all
  then show thesis using that s'(1) by blast
qed

lemma stage_insert_first:
  assumes st: "stage s0 b p0 p1 p2 s [p0] False 0 0 (0, 0, 0)"
  obtains s' where "assert_inserts p1 0x400000 s = Some s'" "stage s0 b p0 p1 p2 s' [] True (new_pte p1) 0 (1, 1, 0)"
proof -
  note d = stageD [OF st]
  have dist: "p1 \<noteq> p0" "p1 \<noteq> p2" "p1 \<noteq> b" "p0 \<noteq> p2" "p0 \<noteq> p1" using d(3) by auto
  have p: "unit_page p1" "p1 < npage s" "p1 \<in> {p0, p1, p2}" using d(4,5) by simp_all
  show thesis
  proof (cases rule: test_new [OF d(2) test_vas(11) _ p dist(3)])
    case (6 s')
    have "assert_inserts p1 0x400000 s = Some s'"
      using 6(2) d(1) test_insert [OF d(2) test_vas(11), of p1] by (simp add: assert_inserts_def assert_that_def test_vas)
    moreover have "stage s0 b p0 p1 p2 s' [] True (new_pte p1) 0 (1, 1, 0)"
      using 6(3) by (simp add: test_vas) (rule stageI [OF st], assumption, auto simp: dist same_page_def fun_eq_iff)
    ultimately show thesis by (rule that)
  qed (simp_all add: test_vas dist)
qed

lemma table_entry_nz: "page2pa p OR PDE_PAGE_TABLE \<noteq> 0"
proof
  assume z: "page2pa p OR PDE_PAGE_TABLE = 0"
  have "(page2pa p OR PDE_PAGE_TABLE) AND PDE_PAGE_TABLE = PDE_PAGE_TABLE" by (simp add: entry_flags)
  then show False unfolding z by simp
qed

lemma stage_insert_second:
  assumes st: "stage s0 b p0 p1 p2 s [] True a 0 (1, 1, 0)"
  obtains s' where "assert_inserts p2 0x401000 s = Some s'" "stage s0 b p0 p1 p2 s' [] True a (new_pte p2) (1, 1, 1)"
proof -
  note d = stageD [OF st]
  have dist: "p2 \<noteq> p0" "p2 \<noteq> p1" "p2 \<noteq> b" "p0 \<noteq> p2" "p1 \<noteq> p2" "p0 \<noteq> p1" using d(3) by auto
  have p: "unit_page p2" "p2 < npage s" "p2 \<in> {p0, p1, p2}" using d(4,5) by simp_all
  have tab: "page2pa p0 OR PDE_PAGE_TABLE \<noteq> 0" "pte_page (page2pa p0 OR PDE_PAGE_TABLE) = p0"
    using table_entry_nz pte_page_entry [of p0 PDE_PAGE_TABLE] d(6) [of p0] by simp_all
  show thesis
  proof (cases rule: test_new [OF d(2) test_vas(12) _ p dist(3)])
    case (6 s')
    have "assert_inserts p2 0x401000 s = Some s'"
      using 6(2) d(1) test_insert [OF d(2) test_vas(12), of p2] by (simp add: assert_inserts_def assert_that_def test_vas)
    moreover have "stage s0 b p0 p1 p2 s' [] True a (new_pte p2) (1, 1, 1)"
      using 6(3) by (simp add: test_vas tab) (rule stageI [OF st], assumption, auto simp: dist same_page_def fun_eq_iff)
    ultimately show thesis by (rule that)
  qed (auto simp: test_vas dist tab split: if_splits)
qed

lemma stage_insert_again:
  assumes st: "stage s0 b p0 p1 p2 s [] True a (new_pte p2) r"
  obtains s' where "assert_inserts p2 0x401000 s = Some s'" "stage s0 b p0 p1 p2 s' [] True a (new_pte p2) r"
proof -
  note d = stageD [OF st]
  have p: "p2 < 0x40000" using d(6) by simp
  obtain s' where s': "page_insert (frame b) p2 0x401000 0 s = Some (Inr (), s')" "testing s0 b {p0, p1, p2} s' []
      ((\<lambda>_. 0)(4 := if True then page2pa p0 OR PDE_PAGE_TABLE else 0))
      (\<lambda>v. if same_page v 0x401000 then new_pte p2 else if same_page v 0x400000 then a else 0)
      ((pp_ref s0)(p0 := fst r, p1 := fst (snd r), p2 := snd (snd r)))"
    by (rule test_same [OF d(2) test_vas(12) _ p]) simp_all
  have "stage s0 b p0 p1 p2 s' [] True a (new_pte p2) r" by (rule stageI [OF st s'(2)]) simp_all
  then show thesis using that s'(1) d(1) by (simp add: assert_inserts_def assert_that_def)
qed

lemma stage_remove:
  assumes st: "stage s0 b p0 p1 p2 s [] True a (new_pte p1) (1, r1, r2)" and last: "r1 = 2 \<and> a = new_pte p1 \<or> r1 = 1 \<and> a = 0"
  shows "r1 = 2 \<Longrightarrow> \<exists>s'. page_remove (boot_pgdir s) 0x400000 s = Some s' \<and> stage s0 b p0 p1 p2 s' [] True 0 (new_pte p1) (1, 1, r2)"
    "r1 = 1 \<Longrightarrow> \<exists>s'. page_remove (boot_pgdir s) 0x401000 s = Some s' \<and> stage s0 b p0 p1 p2 s' [p1] True 0 0 (1, 0, r2)"
proof -
  note d = stageD [OF st]
  have dist: "p1 \<noteq> p0" "p1 \<noteq> p2" "p0 \<noteq> p2" "p0 \<noteq> p1" using d(3) by auto
  have p: "p1 < 0x40000" using d(6) by simp
  assume r: "r1 = 2"
  have a: "a = new_pte p1" using r last by auto
  obtain s' where s': "page_remove (frame b) 0x400000 s = Some s'"
    "testing s0 b {p0, p1, p2} s' (if ((pp_ref s0)(p0 := fst (1 :: u16, r1, r2), p1 := fst (snd (1 :: u16, r1, r2)), p2 := snd (snd (1 :: u16, r1, r2)))) p1 = 1 then [p1] else [])
      ((\<lambda>_. 0)(4 := if True then page2pa p0 OR PDE_PAGE_TABLE else 0))
      (\<lambda>v. if same_page v 0x400000 then 0 else if same_page v 0x401000 then new_pte p1 else if same_page v 0x400000 then a else 0)
      (((pp_ref s0)(p0 := fst (1 :: u16, r1, r2), p1 := fst (snd (1 :: u16, r1, r2)), p2 := snd (snd (1 :: u16, r1, r2))))
        (p1 := ((pp_ref s0)(p0 := fst (1 :: u16, r1, r2), p1 := fst (snd (1 :: u16, r1, r2)), p2 := snd (snd (1 :: u16, r1, r2)))) p1 - 1))"
    by (rule test_remove [OF d(2) test_vas(11) _ p]) (simp_all add: test_vas a)
  have "stage s0 b p0 p1 p2 s' [] True 0 (new_pte p1) (1, 1, r2)"
    using s'(2) by (simp add: dist r) (rule stageI [OF st], assumption, auto simp: dist r same_page_def fun_eq_iff)
  then show "\<exists>s'. page_remove (boot_pgdir s) 0x400000 s = Some s' \<and> stage s0 b p0 p1 p2 s' [] True 0 (new_pte p1) (1, 1, r2)"
    using s'(1) d(1) by auto
next
  note d = stageD [OF st]
  have dist: "p1 \<noteq> p0" "p1 \<noteq> p2" "p0 \<noteq> p2" "p0 \<noteq> p1" using d(3) by auto
  have p: "p1 < 0x40000" using d(6) by simp
  assume r: "r1 = 1"
  have a: "a = 0" using r last by auto
  obtain s' where s': "page_remove (frame b) 0x401000 s = Some s'"
    "testing s0 b {p0, p1, p2} s' (if ((pp_ref s0)(p0 := fst (1 :: u16, r1, r2), p1 := fst (snd (1 :: u16, r1, r2)), p2 := snd (snd (1 :: u16, r1, r2)))) p1 = 1 then [p1] else [])
      ((\<lambda>_. 0)(4 := if True then page2pa p0 OR PDE_PAGE_TABLE else 0))
      (\<lambda>v. if same_page v 0x401000 then 0 else if same_page v 0x401000 then new_pte p1 else if same_page v 0x400000 then a else 0)
      (((pp_ref s0)(p0 := fst (1 :: u16, r1, r2), p1 := fst (snd (1 :: u16, r1, r2)), p2 := snd (snd (1 :: u16, r1, r2))))
        (p1 := ((pp_ref s0)(p0 := fst (1 :: u16, r1, r2), p1 := fst (snd (1 :: u16, r1, r2)), p2 := snd (snd (1 :: u16, r1, r2)))) p1 - 1))"
    by (rule test_remove [OF d(2) test_vas(12) _ p]) (simp_all add: test_vas)
  have "stage s0 b p0 p1 p2 s' [p1] True 0 0 (1, 0, r2)"
    using s'(2) by (simp add: dist r) (rule stageI [OF st], assumption, auto simp: dist r a same_page_def fun_eq_iff)
  then show "\<exists>s'. page_remove (boot_pgdir s) 0x401000 s = Some s' \<and> stage s0 b p0 p1 p2 s' [p1] True 0 0 (1, 0, r2)"
    using s'(1) d(1) by auto
qed

lemma stage_replace:
  assumes st: "stage s0 b p0 p1 p2 s [] True (new_pte p1) (new_pte p2) (1, 1, 1)"
  obtains s' where "assert_inserts p1 0x401000 s = Some s'" "stage s0 b p0 p1 p2 s' [p2] True (new_pte p1) (new_pte p1) (1, 2, 0)"
proof -
  note d = stageD [OF st]
  have dist: "p1 \<noteq> p0" "p1 \<noteq> p2" "p0 \<noteq> p2" "p0 \<noteq> p1" "p2 \<noteq> p1" "p2 \<noteq> p0" "p1 \<noteq> b" using d(3) by auto
  have p: "p2 < 0x40000" "unit_page p1" "p1 < npage s" "p1 \<in> {p0, p1, p2}" using d(4-6) by simp_all
  have tab: "page2pa p0 OR PDE_PAGE_TABLE \<noteq> 0" "pte_page (page2pa p0 OR PDE_PAGE_TABLE) = p0"
    using table_entry_nz pte_page_entry [of p0 PDE_PAGE_TABLE] d(6) [of p0] by simp_all
  let ?r = "(1, 1, 1) :: u16 \<times> u16 \<times> u16"
  let ?R = "(pp_ref s0)(p0 := fst ?r, p1 := fst (snd ?r), p2 := snd (snd ?r))"
  obtain s1 where s1: "page_remove (frame b) 0x401000 s = Some s1"
    "testing s0 b {p0, p1, p2} s1 (if ?R p2 = 1 then [p2] else []) ((\<lambda>_. 0)(4 := if True then page2pa p0 OR PDE_PAGE_TABLE else 0))
      (\<lambda>v. if same_page v 0x401000 then 0 else if same_page v 0x401000 then new_pte p2 else if same_page v 0x400000 then new_pte p1 else 0)
      (?R(p2 := ?R p2 - 1))"
    by (rule test_remove [OF d(2) test_vas(12) _ p(1)]) (simp_all add: test_vas)
  have st1: "stage s0 b p0 p1 p2 s1 [p2] True (new_pte p1) 0 (1, 1, 0)"
    using s1(2) by (simp add: dist) (rule stageI [OF st], assumption, auto simp: dist same_page_def fun_eq_iff)
  note d1 = stageD [OF st1]
  have p1: "p1 < npage s1" using d1(5) by simp
  have ins: "page_insert (frame b) p1 0x401000 0 s = page_insert_new (frame b) p1 0x401000 PTE_V s1"
    by (rule test_replace [OF d(2) test_vas(12) _ p(1) dist(5) s1(1)]) (simp add: test_vas)
  show thesis
  proof (cases rule: test_new [OF d1(2) test_vas(12) _ p(2) p1 p(4) dist(7)])
    case (6 s')
    have "assert_inserts p1 0x401000 s = Some s'" using 6(2) d(1) ins by (simp add: assert_inserts_def assert_that_def)
    moreover have "stage s0 b p0 p1 p2 s' [p2] True (new_pte p1) (new_pte p1) (1, 2, 0)"
      using 6(3) by (simp add: test_vas tab) (rule stageI [OF st1], assumption, auto simp: dist same_page_def fun_eq_iff)
    ultimately show thesis by (rule that)
  qed (auto simp: test_vas dist tab split: if_splits)
qed

lemma stage_pa:
  assumes st: "stage s0 b p0 p1 p2 s xs tab a c r"
  shows "a = new_pte p \<Longrightarrow> p < 0x40000 \<Longrightarrow> assert_pa 0x400000 (page2pa p) s = Some ()"
    "c = new_pte p \<Longrightarrow> p < 0x40000 \<Longrightarrow> assert_pa 0x401000 (page2pa p) s = Some ()"
    "a = 0 \<Longrightarrow> assert_pa 0x400000 (NOT 0) s = Some ()" "c = 0 \<Longrightarrow> assert_pa 0x401000 (NOT 0) s = Some ()"
  using test_va2pa(1) [OF stageD(2) [OF st] test_vas(11), of p] test_va2pa(1) [OF stageD(2) [OF st] test_vas(12), of p]
    test_va2pa(2) [OF stageD(2) [OF st] test_vas(11)] test_va2pa(2) [OF stageD(2) [OF st] test_vas(12)] stageD(1) [OF st]
  by (simp_all add: assert_pa_def assert_that_def test_vas)

lemma stage_memory:
  assumes st: "stage s0 b p0 p1 p2 s [] True (new_pte p1) c r"
  obtains s' where "check_memory 0x400000 p1 s = Some s'" "stage s0 b p0 p1 p2 s' [] True (new_pte p1) c r"
proof -
  let ?ok = "\<lambda>s. stage s0 b p0 p1 p2 s [] True (new_pte p1) c r"
  let ?w = "\<lambda>s v. s\<lparr>kmem := store32 (kmem s) (frame p1) v\<rparr>"
  have addr: "virt 0x400000 s = Some (frame p1)" "page2kva p1 s = Some (frame p1)" if st: "?ok s" for s
  proof -
    note d = stageD [OF st]
    have p: "p1 < 0x40000" "p1 < npage s" using d(5,6) by simp_all
    have "va2pa (frame b) 0x400000 s = Some (page2pa p1)"
      by (rule test_va2pa(1) [OF d(2) test_vas(11) _ p(1)]) (simp_all add: test_vas)
    then show "virt 0x400000 s = Some (frame p1)" using pa_to_kva [OF p(1)] d(1) by (simp add: virt_def)
    show "page2kva p1 s = Some (frame p1)" by (rule page2kva_frame [OF p])
  qed
  have w: "?ok (?w s v)" if st: "?ok s" for s v
  proof (rule stageI [OF st test_write [OF stageD(2) [OF st]]])
    note d = stageD [OF st]
    show "unit_page p1" "p1 \<in> {p0, p1, p2}" "p1 \<noteq> b" using d(3,4) by auto
    show "pte_page (((\<lambda>_. 0)(4 := if True then page2pa p0 OR PDE_PAGE_TABLE else 0)) i) \<noteq> p1"
      if "((\<lambda>_. 0)(4 := if True then page2pa p0 OR PDE_PAGE_TABLE else 0)) i \<noteq> 0" for i
      using that pte_page_entry [of p0 PDE_PAGE_TABLE] d(3) d(6) [of p0] by (auto split: if_splits)
  qed simp_all
  have step: "assert_alias 0x400000 p1 s = Some ()" "store_va 0x400000 v s = Some (?w s v)" "store_page p1 v s = Some (?w s v)" if "?ok s" for s v
    using addr [OF that] by (simp_all add: assert_alias_def assert_that_def store_va_def store_page_def)
  define s1 where "s1 = ?w s 3911096"
  define s2 where "s2 = ?w s1 1096391"
  define s3 where "s3 = ?w s2 1234"
  define s4 where "s4 = ?w s3 4321"
  define s5 where "s5 = ?w s4 0xABCD"
  define s6 where "s6 = ?w s5 0xDCBA"
  have o1: "?ok s1" unfolding s1_def by (rule w [OF st])
  have o2: "?ok s2" unfolding s2_def by (rule w [OF o1])
  have o3: "?ok s3" unfolding s3_def by (rule w [OF o2])
  have o4: "?ok s4" unfolding s4_def by (rule w [OF o3])
  have o5: "?ok s5" unfolding s5_def by (rule w [OF o4])
  have o6: "?ok s6" unfolding s6_def by (rule w [OF o5])
  note ok = o1 o2 o3 o4 o5 o6
  have "check_memory 0x400000 p1 s = Some s6"
    unfolding check_memory_def
    by (simp only: step [OF st] step [OF ok(1)] step [OF ok(2)] step [OF ok(3)] step [OF ok(4)] step [OF ok(5)] step [OF ok(6)]
        Option.bind.bind_lunit s1_def [symmetric] s2_def [symmetric] s3_def [symmetric] s4_def [symmetric] s5_def [symmetric] s6_def [symmetric])
  then show thesis by (rule that [OF _ ok(6)])
qed

lemma stage_check_insert:
  assumes st: "stage s0 b p0 p1 p2 s [] False 0 0 (0, 0, 0)"
  obtains s' where "check_insert 0x400000 p0 p1 s = Some s'" "stage s0 b p0 p1 p2 s' [] True (new_pte p1) 0 (1, 1, 0)"
proof -
  obtain s1 where s1: "assert_refuses p1 0x400000 s = Some s1" "stage s0 b p0 p1 p2 s1 [] False 0 0 (0, 0, 0)"
    by (rule stage_refuse [OF st, where va = "0x400000" and p = p1]) simp
  have z: "pp_ref s1 p0 = 0" using stageD(7) [OF s1(2)] by simp
  obtain s2 where s2: "page_free p0 s1 = Some s2" "stage s0 b p0 p1 p2 s2 [p0] False 0 0 (0, 0, 0)"
    by (rule stage_free [OF s1(2) _ _ z]) simp_all
  obtain s3 where s3: "assert_inserts p1 0x400000 s2 = Some s3" "stage s0 b p0 p1 p2 s3 [] True (new_pte p1) 0 (1, 1, 0)"
    by (rule stage_insert_first [OF s2(2)])
  note d = stageD [OF s3(2)]
  have p: "p0 < 0x40000" "p1 < 0x40000" "p0 < npage s3" "p1 < npage s3" using d(5,6) by simp_all
  have entry: "load32 (kmem s3) (boot_pgdir s3 + 16) = page2pa p0 OR PDE_PAGE_TABLE"
    using testingD(6) [OF d(2), of 4] d(1) by (simp add: pde_def)
  have kva: "page2kva p1 s3 = Some (frame p1)" "KADDR (npage s3) (page2pa p0) = Some (frame p0)"
    using page2kva_frame [OF p(2,4)] KADDR_page2pa p(1,3) by auto
  obtain s4 where s4: "check_memory 0x400000 p1 s3 = Some s4" "stage s0 b p0 p1 p2 s4 [] True (new_pte p1) 0 (1, 1, 0)"
    by (rule stage_memory [OF s3(2)])
  have "check_insert 0x400000 p0 p1 s = Some s4"
    unfolding check_insert_def
    using stage_pa(1) [OF s4(2) refl p(2)] stageD(8) [OF s4(2)]
    by (simp add: s1(1) s2(1) s3(1) s4(1) entry kva assert_that_def test_vas Let_def)
  then show thesis using that s4(2) by blast
qed

lemma stage_check_replace:
  assumes st: "stage s0 b p0 p1 p2 s [] True (new_pte p1) 0 (1, 1, 0)"
  obtains s' where "check_replace 0x400000 p0 p1 p2 s = Some s'" "stage s0 b p0 p1 p2 s' [p2] True (new_pte p1) (new_pte p1) (1, 2, 0)"
proof -
  have p: "p1 < 0x40000" "p2 < 0x40000" using stageD(6) [OF st] by simp_all
  obtain s1 where s1: "assert_inserts p2 0x401000 s = Some s1" "stage s0 b p0 p1 p2 s1 [] True (new_pte p1) (new_pte p2) (1, 1, 1)"
    by (rule stage_insert_second [OF st])
  obtain s2 where s2: "assert_inserts p2 0x401000 s1 = Some s2" "stage s0 b p0 p1 p2 s2 [] True (new_pte p1) (new_pte p2) (1, 1, 1)"
    by (rule stage_insert_again [OF s1(2)])
  obtain s3 where s3: "assert_refuses p0 0x300000 s2 = Some s3" "stage s0 b p0 p1 p2 s3 [] True (new_pte p1) (new_pte p2) (1, 1, 1)"
    by (rule stage_refuse [OF s2(2), where va = "0x300000" and p = p0]) simp
  obtain s4 where s4: "assert_inserts p1 0x401000 s3 = Some s4" "stage s0 b p0 p1 p2 s4 [p2] True (new_pte p1) (new_pte p1) (1, 2, 0)"
    by (rule stage_replace [OF s3(2)])
  have "check_replace 0x400000 p0 p1 p2 s = Some s4"
    unfolding check_replace_def
    using stage_pa(2) [OF s1(2) refl p(2)] stage_pa(2) [OF s2(2) refl p(2)] stage_pa(1,2) [OF s4(2) refl p(1)]
      stageD(9) [OF s1(2)] stageD(9) [OF s2(2)] stageD(8,9) [OF s4(2)]
    by (simp add: s1(1) s2(1) s3(1) s4(1) stage_no_memory [OF s1(2)] stage_no_memory [OF s2(2)] assert_that_def)
  then show thesis using that s4(2) by blast
qed

lemma stage_check_remove:
  assumes st: "stage s0 b p0 p1 p2 s [p2] True (new_pte p1) (new_pte p1) (1, 2, 0)"
  obtains s' where "check_remove 0x400000 p1 p2 s = Some s'" "stage s0 b p0 p1 p2 s' [] True 0 0 (1, 0, 0)"
proof -
  have p: "p1 < 0x40000" using stageD(6) [OF st] by simp
  obtain s1 where s1: "page_alloc s = Some (Inr p2, s1)" "stage s0 b p0 p1 p2 s1 [] True (new_pte p1) (new_pte p1) (1, 2, 0)"
    by (rule stage_alloc [OF st])
  obtain s2 where s2: "page_remove (boot_pgdir s1) 0x400000 s1 = Some s2" "stage s0 b p0 p1 p2 s2 [] True 0 (new_pte p1) (1, 1, 0)"
    using stage_remove(1) [OF s1(2)] by auto
  obtain s3 where s3: "page_remove (boot_pgdir s2) 0x401000 s2 = Some s3" "stage s0 b p0 p1 p2 s3 [p1] True 0 0 (1, 0, 0)"
    using stage_remove(2) [OF s2(2)] by auto
  obtain s4 where s4: "page_alloc s3 = Some (Inr p1, s4)" "stage s0 b p0 p1 p2 s4 [] True 0 0 (1, 0, 0)"
    by (rule stage_alloc [OF s3(2)])
  have "check_remove 0x400000 p1 p2 s = Some s4"
    unfolding check_remove_def
    using stage_pa(2) [OF s2(2) refl p] stage_pa(3) [OF s2(2) refl] stage_pa(3,4) [OF s3(2) refl]
      stageD(8,9) [OF s2(2)] stageD(8,9) [OF s3(2)]
    by (simp add: s1(1) s2(1) s3(1) s4(1) stage_no_memory [OF s4(2)] assert_that_def)
  then show thesis using that s4(2) by blast
qed

lemma stage_start:
  assumes inv: "vm_inv s {b} []" and boot: "boot_pgdir s = frame b" "\<And>i. i < 0x800 \<Longrightarrow> pde s b i = 0"
    and p: "distinct [p0, p1, p2, b]" "\<And>p. p \<in> {p0, p1, p2} \<Longrightarrow> unit_page p \<and> p < npage s \<and> pp_ref s p = 0"
  shows "stage s b p0 p1 p2 s [] False 0 0 (0, 0, 0)"
proof -
  have "upte s b v = 0" if "v < ULIM" for v by (rule upte_absent) (rule boot(2) [OF PDX_user [OF that]])
  moreover have "pp_ref s = (pp_ref s)(p0 := 0, p1 := 0, p2 := 0)" using p(2) by (auto simp: fun_eq_iff)
  ultimately show ?thesis
    using inv boot p by (simp add: stage_def testing_def quiet_refl)
qed

lemma page_check_ok:
  assumes inv: "vm_inv s {b} (p0 # p1 # p2 # rest)" and boot: "boot_pgdir s = frame b" "\<And>i. i < 0x800 \<Longrightarrow> pde s b i = 0"
  obtains s' where "page_check s = Some s'" "vm_inv s' {b} (p2 # p1 # p0 # rest)" "vm_only s s'" "pp_ref s' = pp_ref s"
    "\<And>i. i < 0x1000 \<Longrightarrow> pde s' b i = pde s b i" "\<And>q. unit_page q \<Longrightarrow> q \<noteq> b \<Longrightarrow> q \<notin> set (p0 # p1 # p2 # rest) \<Longrightarrow> kept s s' q"
proof -
  let ?P = "set (p0 # p1 # p2 # rest)"
  let ?z = "\<lambda>_. 0"
  have up: "upte s b v = 0" if "v < ULIM" for v by (rule upte_absent) (rule boot(2) [OF PDX_user [OF that]])
  have t: "testing s b ?P s (p0 # p1 # p2 # rest) ?z ?z (pp_ref s)"
    using inv boot up by (simp add: testing_def quiet_refl)
  note d = testingD [OF t]
  have dist: "distinct (p0 # p1 # p2 # rest)" by (rule alloc_inv_distinct [OF d(2)])
  have units: "unit_page p \<and> p < npage s \<and> pp_ref s p = 0" if "p \<in> ?P" for p using alloc_inv_unit [OF d(2) that] by simp
  have bP: "b \<notin> ?P" by (rule d(10))
  have live: "live_page (npage s) (pp_ref s) b" by (rule vm_wf_dir [OF vm_invD(2) [OF inv]]) simp
  obtain s1 where s1: "page_alloc s = Some (Inr p0, s1)" "testing s b ?P s1 (p1 # p2 # rest) ?z ?z (pp_ref s)" by (rule test_alloc [OF t])
  obtain s2 where s2: "page_alloc s1 = Some (Inr p1, s2)" "testing s b ?P s2 (p2 # rest) ?z ?z (pp_ref s)" by (rule test_alloc [OF s1(2)])
  obtain s3 where s3: "page_alloc s2 = Some (Inr p2, s3)" "testing s b ?P s3 rest ?z ?z (pp_ref s)" by (rule test_alloc [OF s2(2)])
  note d3 = testingD [OF s3(2)]
  have only3: "vm_only s s3" using d3(4) by (simp add: quiet_def)
  define s4 where "s4 = s3\<lparr>page_free_list := LIST_INIT (page_free_list s3)\<rparr>"
  have f4: "kmem s4 = kmem s3" "pp_ref s4 = pp_ref s" "npage s4 = npage s" "boot_pgdir s4 = frame b" "vm_only s3 s4"
    using d3(5,8) boot(1) vm_only_boot [OF only3] by (simp_all add: s4_def)
  have al4: "alloc_inv s4 []" using d3(2) f4(3) d3(8) by (simp add: alloc_inv_def s4_def LIST_INIT_rep)
  have inv4: "vm_inv s4 {b} []" by (rule vm_inv_free_list [OF d3(1) f4(1) _ _ al4]) (simp_all add: f4 d3)
  have pde4: "pde s4 b i = 0" if "i < 0x800" for i using d3(6) [OF that] view_kmem(1) [OF f4(1)] by simp
  have st4: "stage s4 b p0 p1 p2 s4 [] False 0 0 (0, 0, 0)"
    by (rule stage_start [OF inv4 f4(4) pde4]) (use dist bP units in \<open>auto simp: f4\<close>)
  have full: "assert_no_memory s4 = Some s4" by (rule stage_no_memory [OF st4])
  obtain s5 where s5: "check_insert 0x400000 p0 p1 s4 = Some s5" "stage s4 b p0 p1 p2 s5 [] True (new_pte p1) 0 (1, 1, 0)"
    by (rule stage_check_insert [OF st4])
  obtain s6 where s6: "check_replace 0x400000 p0 p1 p2 s5 = Some s6" "stage s4 b p0 p1 p2 s6 [p2] True (new_pte p1) (new_pte p1) (1, 2, 0)"
    by (rule stage_check_replace [OF s5(2)])
  obtain s7 where s7: "check_remove 0x400000 p1 p2 s6 = Some s7" "stage s4 b p0 p1 p2 s7 [] True 0 0 (1, 0, 0)"
    by (rule stage_check_remove [OF s6(2)])
  note g = stageD [OF s7(2)] and d7 = testingD [OF stageD(2) [OF s7(2)]]
  have q7: "vm_only s4 s7" "same_links {p0, p1, p2} s4 s7" "same_kernel_part b s4 s7"
    "\<And>q. unit_page q \<Longrightarrow> q \<noteq> b \<Longrightarrow> q \<notin> {p0, p1, p2} \<Longrightarrow> kept s4 s7 q"
    using d7(4) by (simp_all add: quiet_def)
  have entry: "load32 (kmem s7) (boot_pgdir s7 + 16) = page2pa p0 OR PDE_PAGE_TABLE"
    using d7(6) [of 4] g(1) by (simp add: pde_def)
  define s8 where "s8 = (set_ref p0 0 (s7\<lparr>kmem := store32 (kmem s7) (boot_pgdir s7 + 16) 0\<rparr>))
    \<lparr>page_free_list := (page_free_list s7)\<lparr>lh_first := lh_first (page_free_list s3)\<rparr>\<rparr>"
  have m8: "kmem s8 = store32 (kmem s7) (frame b + 4 * 4) 0" by (simp add: s8_def g(1))
  have r8: "pp_ref s8 = pp_ref s"
  proof
    fix q show "pp_ref s8 q = pp_ref s q"
      using d7(5) f4(2) units dist by (auto simp: s8_def)
  qed
  have n8: "npage s8 = npage s" using d7(8) f4(3) by (simp add: s8_def)
  have only8: "vm_only s7 s8" by (simp add: s8_def vm_only_def)
  have "lst_rep (page_free_list s8) rest"
  proof (rule lst_rep_frame)
    show "lst_rep (page_free_list s3) rest" using d3(2) by (simp add: alloc_inv_def)
    show "lh_first (page_free_list s8) = lh_first (page_free_list s3)" by (simp add: s8_def)
    fix x assume "x \<in> set rest"
    then have "x \<notin> {p0, p1, p2}" using dist by auto
    then show "le_next (page_free_list s8) x = le_next (page_free_list s3) x \<and> le_prev (page_free_list s8) x = le_prev (page_free_list s3) x"
      using q7(2) by (simp add: same_links_def s8_def s4_def LIST_INIT_def)
  qed
  then have al8: "alloc_inv s8 rest" using d3(2,5,8) r8 n8 by (simp add: alloc_inv_def)
  define s9 where "s9 = s8\<lparr>page_free_list := LIST_INSERT_HEAD p0 (page_free_list s8)\<rparr>"
  define s10 where "s10 = s9\<lparr>page_free_list := LIST_INSERT_HEAD p1 (page_free_list s9)\<rparr>"
  define s11 where "s11 = s10\<lparr>page_free_list := LIST_INSERT_HEAD p2 (page_free_list s10)\<rparr>"
  have fr: "page_free p0 s8 = Some s9" "page_free p1 s9 = Some s10" "page_free p2 s10 = Some s11"
    using units r8 by (simp_all add: page_free_total s9_def s10_def s11_def)
  have al9: "alloc_inv s9 (p0 # rest)" unfolding s9_def by (rule page_free_inv [OF al8]) (use dist units r8 n8 in auto)
  have al10: "alloc_inv s10 (p1 # p0 # rest)" unfolding s10_def
    by (rule page_free_inv [OF al9]) (use dist units r8 n8 in \<open>auto simp: s9_def\<close>)
  have al11: "alloc_inv s11 (p2 # p1 # p0 # rest)" unfolding s11_def
    by (rule page_free_inv [OF al10]) (use dist units r8 n8 in \<open>auto simp: s9_def s10_def\<close>)
  have f11: "kmem s11 = kmem s8" "pp_ref s11 = pp_ref s" "npage s11 = npage s" "vm_only s8 s11"
    using r8 n8 by (simp_all add: s9_def s10_def s11_def vm_only_def)
  have m11: "kmem s11 = store32 (kmem s7) (frame b + 4 * 4) 0" using f11(1) m8 by simp
  have pde11: "pde s11 b i = pde s b i" if "i < 0x1000" for i
  proof -
    have e: "pde s11 b i = (if i = 4 then 0 else pde s7 b i)"
      using load_store_entry [OF d7(9) d7(9), of 4 i "kmem s7" 0] that by (simp add: pde_def m11)
    show ?thesis
    proof (cases "i < 0x800")
      case True
      then show ?thesis using e d7(6) [OF True] boot(2) [OF True] by simp
    next
      case False
      then have "i \<noteq> 4" "0x800 \<le> i" by auto
      moreover have "pde s7 b i = pde s4 b i" using q7(3) \<open>0x800 \<le> i\<close> that by (simp add: same_kernel_part_def)
      moreover have "pde s4 b i = pde s3 b i" using view_kmem(1) [OF f4(1)] by simp
      moreover have "pde s3 b i = pde s b i" using d3(4) \<open>0x800 \<le> i\<close> that by (simp add: quiet_def same_kernel_part_def)
      ultimately show ?thesis using e by simp
    qed
  qed
  have z11: "pde s11 b i = 0" if "i < 0x800" for i
    using pde11 [of i] boot(2) [OF that] order.strict_trans [OF that, of "0x1000"] by simp
  have "vm_wf (npage s11) (pp_ref s11) {b} (pde s11) (pte_at s11)"
    by (rule vm_wf_empty) (use live z11 in \<open>auto simp: f11 all_slots_def pte_at.simps\<close>)
  then have "vm_inv s11 {b} (p2 # p1 # p0 # rest)" using al11 by (simp add: vm_inv_def)
  moreover have "kept s s11 q" if q: "unit_page q" "q \<noteq> b" "q \<notin> ?P" for q
  proof -
    have "kept s s3 q" using d3(4) q by (simp add: quiet_def)
    moreover have "kept s3 s4 q" by (rule kept_same [OF f4(1)])
    moreover have "kept s4 s7 q" by (rule q7(4)) (use q in auto)
    moreover have "kept s7 s11 q" by (rule kept_store [OF d7(9) q(1) q(2) [symmetric] _ m11]) simp
    ultimately show ?thesis using kept_trans by blast
  qed
  moreover have "vm_only s s11"
    using only3 f4(5) q7(1) only8 f11(4) vm_only_trans by blast
  moreover have "page_check s = Some s11"
  proof -
    have "PTE_ADDR (page2pa p0 OR PDE_PAGE_TABLE) = page2pa p0" by simp
    moreover have "pp_ref s7 p0 = 1" using g(7) by simp
    moreover have "s7\<lparr>kmem := store32 (kmem s7) (boot_pgdir s7 + 16) 0, pp_ref := (pp_ref s7)(p0 := 0),
        page_free_list := (page_free_list s7)\<lparr>lh_first := lh_first (page_free_list s3)\<rparr>\<rparr> = s8"
      by (simp add: s8_def)
    moreover have "p1 \<noteq> p0" "p2 \<noteq> p1" "p2 \<noteq> p0" using dist by auto
    ultimately show ?thesis
      unfolding page_check_def
      by (simp add: s1(1) s2(1) s3(1) s4_def [symmetric] full s5(1) s6(1) s7(1) entry assert_that_def test_vas Let_def fr)
  qed
  ultimately show thesis using that f11(2) pde11 by blast
qed

text \<open>Property C14. With three free pages and an empty user part in the boot directory the boot-time self-test
  of the page tables comes through: none of its assertions about \<open>page_insert\<close>, \<open>page_remove\<close>,
  \<open>page_lookup\<close>, \<open>va2pa\<close> and the reference counts fails. It leaves no trace: the same pages are
  free (two of them have changed places on the list), every reference count and every entry of the
  boot directory is what it was, and nothing but the memory of the pages it used and the TLB has been
  touched.\<close>

theorem page_check_passes:
  assumes inv: "vm_inv s {b} (p0 # p1 # p2 # rest)" and boot: "boot_pgdir s = frame b" "\<And>i. i < 0x800 \<Longrightarrow> pde s b i = 0"
  shows "\<exists>s'. page_check s = Some s' \<and> vm_inv s' {b} (p2 # p1 # p0 # rest) \<and> vm_only s s' \<and> pp_ref s' = pp_ref s \<and>
    (\<forall>i<0x1000. pde s' b i = pde s b i) \<and>
    (\<forall>q. unit_page q \<longrightarrow> q \<noteq> b \<longrightarrow> q \<notin> set (p0 # p1 # p2 # rest) \<longrightarrow> kept s s' q)"
  by (rule page_check_ok [OF inv boot]) blast+

theorem page_check_passes_witness:
  "\<exists>s'. page_check (one_space\<lparr>boot_pgdir := frame 2064\<rparr>) = Some s' \<and> vm_inv s' {2064} [2052, 2056, 2060, 2048] \<and>
    pp_ref s' = pp_ref one_space"
proof -
  let ?s = "one_space\<lparr>boot_pgdir := frame 2064\<rparr>"
  have v: "vm_inv ?s D xs = vm_inv one_space D xs" "pde ?s = pde one_space" for D xs
    by (rule vm_inv_cong; simp)+
  show ?thesis
    using page_check_passes [of ?s 2064 2060 2056 2052 "[2048]"] one_space_inv by (auto simp: v one_space_mem)
qed

end
