(* ===== verification/Programs.thy ===== *)
theory Programs
  imports Loading
begin

section \<open>What \<open>env_create\<close> makes of a program\<close>

text \<open>
  An ELF file in kernel memory becomes the memory of a new environment: \<open>load_elf\<close> puts every
  loadable segment at its address, and \<open>env_create_priority\<close> makes the environment runnable at the
  entry point, with a stack page. The segments have to start at page boundaries; for others
  \<open>load_icode_mapper\<close> maps too few pages (\<open>mapper_one_page\<close>).
\<close>

subsection \<open>Loaded parts of an address space\<close>

text \<open>From state \<open>s\<close> to \<open>t\<close> exactly the addresses in \<open>W\<close> of \<open>pd\<close> have been mapped, to pages that hold \<open>f\<close>.\<close>

definition image :: "kstate \<Rightarrow> u32 set \<Rightarrow> u32 list \<Rightarrow> u32 \<Rightarrow> u32 set \<Rightarrow> (u32 \<Rightarrow> u8) \<Rightarrow> kstate \<Rightarrow> u32 list \<Rightarrow> bool" where
  "image s D xs pd W f t ys \<longleftrightarrow> vm_inv t D ys \<and> vm_only s t \<and> set ys \<subseteq> set xs \<and>
     tables_of (pde t) D \<subseteq> tables_of (pde s) D \<union> set xs \<and> (\<forall>q. outside s D xs pd q \<longrightarrow> kept s t q) \<and>
     (\<forall>d\<in>D. \<forall>w<ULIM. \<not> (d = pd \<and> w \<in> W) \<longrightarrow> upte t d w = upte s d w) \<and>
     (\<forall>w\<in>W. w < ULIM \<and> full_pte (upte t pd w) \<and> user_byte t pd w = f w)"

lemma imageD:
  assumes "image s D xs pd W f t ys"
  shows "vm_inv t D ys" "vm_only s t" "set ys \<subseteq> set xs" "tables_of (pde t) D \<subseteq> tables_of (pde s) D \<union> set xs"
    "outside s D xs pd q \<Longrightarrow> kept s t q" "outside s D xs pd q \<Longrightarrow> outside t D ys pd q"
    "d \<in> D \<Longrightarrow> w < ULIM \<Longrightarrow> \<not> (d = pd \<and> w \<in> W) \<Longrightarrow> upte t d w = upte s d w"
    "w \<in> W \<Longrightarrow> w < ULIM" "w \<in> W \<Longrightarrow> full_pte (upte t pd w)" "w \<in> W \<Longrightarrow> user_byte t pd w = f w"
  using assms by (auto simp: image_def outside_def)

lemma image_start: "vm_inv s D xs \<Longrightarrow> image s D xs pd {} f s xs"
  by (simp add: image_def)

lemma image_trans:
  assumes i1: "image s D xs pd W f t ys" and i2: "image t D ys pd W' g u zs" and pd: "pd \<in> D" and new: "W \<inter> W' = {}"
  shows "image s D xs pd (W \<union> W') (\<lambda>w. if w \<in> W then f w else g w) u zs"
  unfolding image_def
proof (intro conjI ballI allI impI)
  note a = imageD [OF i1] and b = imageD [OF i2]
  show "vm_inv u D zs" "set zs \<subseteq> set xs" using a b by auto
  show "vm_only s u" by (rule vm_only_trans [OF a(2) b(2)])
  show "tables_of (pde u) D \<subseteq> tables_of (pde s) D \<union> set xs" using a(3,4) b(4) by blast
  show "kept s u q" if "outside s D xs pd q" for q by (rule kept_trans [OF a(5) [OF that] b(5) [OF a(6) [OF that]]])
  show "upte u d w = upte s d w" if "d \<in> D" "w < ULIM" "\<not> (d = pd \<and> w \<in> W \<union> W')" for d w
    using a(7) [OF that(1,2)] b(7) [OF that(1,2)] that(3) by simp
  fix w assume w: "w \<in> W \<union> W'"
  then show "w < ULIM" using a(8) b(8) by blast
  show "full_pte (upte u pd w)" "user_byte u pd w = (if w \<in> W then f w else g w)"
  proof -
    have "upte u pd w = upte t pd w \<and> user_byte u pd w = user_byte t pd w" if "w \<in> W"
    proof
      show up: "upte u pd w = upte t pd w" using b(7) [OF pd a(8) [OF that]] that new by blast
      show "user_byte u pd w = user_byte t pd w"
        by (rule user_byte_kept [OF a(1) pd a(8) [OF that] full_pte_valid [OF a(9) [OF that]] up b(5) pd])
    qed
    then show "full_pte (upte u pd w)" "user_byte u pd w = (if w \<in> W then f w else g w)"
      using a(9,10) b(9,10) w by auto
  qed
qed

lemma window_minus: "(w - base < n) = (\<exists>j<n. w = base + j)" for w base n :: u32
  by (metis add_diff_cancel_left' diff_add_cancel add.commute)

lemma image_loaded:
  assumes ld: "loaded s D xs pd base img n t ys" and win: "window s pd base B" and n: "n \<le> B"
  shows "image s D xs pd {w. w - base < n} (\<lambda>w. img (w - base)) t ys"
proof -
  note l = ld [unfolded loaded_def]
  have "w < ULIM \<and> full_pte (upte t pd w) \<and> user_byte t pd w = img (w - base)" if w: "w - base < n" for w
  proof -
    obtain j where j: "j < n" "w = base + j" using w unfolding window_minus by blast
    then have "base + j < ULIM" using window_at(1) [OF win] n by (meson order.strict_trans2)
    then show ?thesis using l j by simp
  qed
  then show ?thesis using l by (simp add: image_def)
qed

subsection \<open>The segments of an ELF file\<close>

definition seg_size :: "Elf32_Phdr \<Rightarrow> u32" where
  "seg_size ph = max (p_filesz ph) (p_memsz ph)"

definition seg_pages :: "Elf32_Phdr \<Rightarrow> nat" where
  "seg_pages ph = (unat (seg_size ph) + 4095) div 4096"

definition covers :: "Elf32_Phdr \<Rightarrow> u32 set" where
  "covers ph = {w. w - p_vaddr ph < of_nat (4096 * seg_pages ph)}"

text \<open>A segment can be loaded from the file at \<open>binary\<close>: it starts at a page boundary, its pages are below
  \<open>ULIM\<close>, and its bytes are not where the loader writes.\<close>

definition seg_ok :: "kstate \<Rightarrow> u32 set \<Rightarrow> u32 list \<Rightarrow> u32 \<Rightarrow> u32 \<Rightarrow> Elf32_Phdr \<Rightarrow> bool" where
  "seg_ok s D xs pd binary ph \<longleftrightarrow> PG_ADDR_OFFSET (p_vaddr ph) = 0 \<and> unat (p_vaddr ph) + 4096 * seg_pages ph \<le> 0x80000000 \<and>
     bytes_outside s D xs pd (binary + p_offset ph) (unat (p_filesz ph))"

lemma covers_below: "seg_ok s D xs pd binary ph \<Longrightarrow> w \<in> covers ph \<Longrightarrow> w < ULIM"
proof -
  assume ok: "seg_ok s D xs pd binary ph" and "w \<in> covers ph"
  then obtain j where j: "j < of_nat (4096 * seg_pages ph)" "w = p_vaddr ph + j" by (auto simp: covers_def window_minus)
  have n: "unat (p_vaddr ph) + 4096 * seg_pages ph \<le> 0x80000000" using ok by (simp add: seg_ok_def)
  then have "unat (of_nat (4096 * seg_pages ph) :: u32) = 4096 * seg_pages ph" by (intro unat_of_nat_u32) simp
  then have "unat j < 4096 * seg_pages ph" using j(1) by (simp only: word_less_nat_alt)
  then show "w < ULIM" using n by (simp add: j(2) word_less_nat_alt unat_plus_if')
qed

lemma seg_window:
  assumes "seg_ok s D xs pd binary ph" "\<And>w. w \<in> covers ph \<Longrightarrow> \<not> valid_pte (upte s pd w)"
  shows "window s pd (p_vaddr ph) (of_nat (4096 * seg_pages ph))" "seg_size ph \<le> of_nat (4096 * seg_pages ph)"
    "unat (of_nat (4096 * seg_pages ph) :: u32) = 4096 * seg_pages ph"
proof -
  have n: "4096 * seg_pages ph \<le> 0x80000000" using assms by (simp add: seg_ok_def)
  then show u: "unat (of_nat (4096 * seg_pages ph) :: u32) = 4096 * seg_pages ph" by (intro unat_of_nat_u32) simp
  show "seg_size ph \<le> of_nat (4096 * seg_pages ph)"
    unfolding word_le_nat_alt u by (simp add: seg_pages_def)
  show "window s pd (p_vaddr ph) (of_nat (4096 * seg_pages ph))"
    unfolding window_def u offset_0_iff using assms by (simp add: seg_ok_def covers_def offset_0_iff)
qed

lemma bytes_outside_image:
  "image s D xs pd W f t ys \<Longrightarrow> bytes_outside s D xs pd a n \<Longrightarrow> bytes_outside t D ys pd a n"
  unfolding bytes_outside_def using imageD(6) by blast

lemma seg_ok_image: "image s D xs pd W f t ys \<Longrightarrow> seg_ok s D xs pd binary ph \<Longrightarrow> seg_ok t D ys pd binary ph"
  using bytes_outside_image by (simp add: seg_ok_def)

lemma image_empty:
  assumes "image s D xs pd W f t ys" "pd \<in> D" "seg_ok s D xs pd binary ph" "covers ph \<inter> W = {}"
    "\<And>w. w < ULIM \<Longrightarrow> \<not> valid_pte (upte s pd w)" "w \<in> covers ph"
  shows "\<not> valid_pte (upte t pd w)"
proof -
  have "w \<notin> W" using assms(4,6) by blast
  then show ?thesis
    using imageD(7) [OF assms(1,2) covers_below [OF assms(3,6)]] assms(5) [OF covers_below [OF assms(3,6)]] by simp
qed

text \<open>The bytes that the file says a segment has.\<close>

definition ph_byte :: "kstate \<Rightarrow> u32 \<Rightarrow> Elf32_Phdr \<Rightarrow> u32 \<Rightarrow> u8" where
  "ph_byte s binary ph w = segment_byte s (binary + p_offset ph) (p_filesz ph) (w - p_vaddr ph)"

lemma segment_byte_kept:
  assumes "bytes_outside s D xs pd bin (unat n)" "\<And>q. outside s D xs pd q \<Longrightarrow> kept s t q"
  shows "segment_byte t bin n j = segment_byte s bin n j"
proof (cases "j < n")
  case True
  then have "unat j < unat n" by (simp add: word_less_nat_alt)
  from bytes_outside_kept [OF assms this] True show ?thesis by (simp add: segment_byte_def)
qed (simp add: segment_byte_def)

lemma load_segmentE:
  assumes im: "image s D xs pd W f t ys" and pd: "pd \<in> D" and env: "env_pgdir (envs s e) = frame pd"
    and ok: "seg_ok s D xs pd binary ph" and new: "covers ph \<inter> W = {}"
    and empty: "\<And>w. w < ULIM \<Longrightarrow> \<not> valid_pte (upte s pd w)"
  obtains r u zs W' where "load_icode_mapper (p_vaddr ph) (p_memsz ph) (binary + p_offset ph) (p_filesz ph) e t = Some (r, u)"
    "image s D xs pd (W \<union> W') (\<lambda>w. if w \<in> W then f w else ph_byte s binary ph w) u zs" "W' \<subseteq> covers ph"
    "case r of Inr _ \<Rightarrow> {w. w - p_vaddr ph < seg_size ph} \<subseteq> W' \<and> length ys \<le> length zs + 2 * seg_pages ph
     | Inl err \<Rightarrow> err = E_NO_MEM \<and> zs = [] \<and> length ys < 2 * seg_pages ph"
proof -
  let ?B = "of_nat (4096 * seg_pages ph) :: u32"
  note okt = seg_ok_image [OF im ok] and win = seg_window [OF seg_ok_image [OF im ok] image_empty [OF im pd ok new empty]]
  have env': "env_pgdir (envs t e) = frame pd" using env vm_onlyD(1) [OF imageD(2) [OF im]] by simp
  have sz: "p_filesz ph \<le> ?B" "p_memsz ph \<le> ?B" using win(2) by (simp_all add: seg_size_def)
  have src: "bytes_outside t D ys pd (binary + p_offset ph) (unat (p_filesz ph))" using okt by (simp add: seg_ok_def)
  obtain r u zs n where m: "load_icode_mapper (p_vaddr ph) (p_memsz ph) (binary + p_offset ph) (p_filesz ph) e t = Some (r, u)"
    "loaded t D ys pd (p_vaddr ph) (segment_byte t (binary + p_offset ph) (p_filesz ph)) n u zs" "n \<le> ?B"
    "length ys \<le> length zs + 2 * (unat n div 4096) + 1"
    "case r of Inr _ \<Rightarrow> p_filesz ph \<le> n \<and> p_memsz ph \<le> n \<and> length ys \<le> length zs + 2 * (unat n div 4096)
     | Inl err \<Rightarrow> err = E_NO_MEM \<and> zs = [] \<and> n < ?B"
    using load_icode_mapper_ok [OF imageD(1) [OF im] pd env' win(1) sz src] by blast
  let ?W = "{w. w - p_vaddr ph < n}"
  have byte: "segment_byte t (binary + p_offset ph) (p_filesz ph) (w - p_vaddr ph) = ph_byte s binary ph w" for w
    unfolding ph_byte_def using ok imageD(5) [OF im] by (intro segment_byte_kept) (auto simp: seg_ok_def)
  have sub: "?W \<subseteq> covers ph" using m(3) by (auto simp: covers_def intro: order.strict_trans2)
  have "image t D ys pd ?W (ph_byte s binary ph) u zs"
    using image_loaded [OF m(2) win(1) m(3)] by (simp only: byte)
  from image_trans [OF im this pd] have "image s D xs pd (W \<union> ?W) (\<lambda>w. if w \<in> W then f w else ph_byte s binary ph w) u zs"
    using new sub by blast
  moreover have n: "unat n div 4096 \<le> seg_pages ph"
  proof -
    have "unat n \<le> 4096 * seg_pages ph" using m(3) win(3) by (simp add: word_le_nat_alt)
    then have "unat n div 4096 \<le> 4096 * seg_pages ph div 4096" by (rule div_le_mono)
    then show ?thesis by simp
  qed
  moreover have "unat n div 4096 < seg_pages ph" if "n < ?B"
    using that win(3) by (simp add: word_less_nat_alt div_less_iff_less_mult mult.commute)
  moreover have "{w. w - p_vaddr ph < seg_size ph} \<subseteq> ?W" if "p_filesz ph \<le> n" "p_memsz ph \<le> n"
    using order.strict_trans2 [OF _ max.boundedI [OF that]] by (auto simp: seg_size_def)
  ultimately show thesis
    using that [OF m(1) _ sub] m(4,5) by (auto split: sum.splits)
qed

text \<open>The segments of a list of headers can be loaded one after the other: those to be loaded do not
  overlap, nor do they meet the addresses \<open>W\<close>.\<close>

fun segs_ok :: "kstate \<Rightarrow> u32 set \<Rightarrow> u32 list \<Rightarrow> u32 \<Rightarrow> u32 \<Rightarrow> u32 set \<Rightarrow> Elf32_Phdr list \<Rightarrow> bool" where
  "segs_ok s D xs pd binary W [] \<longleftrightarrow> True"
| "segs_ok s D xs pd binary W (ph # phs) \<longleftrightarrow> (if p_type ph = PT_LOAD
     then seg_ok s D xs pd binary ph \<and> covers ph \<inter> W = {} \<and> segs_ok s D xs pd binary (W \<union> covers ph) phs
     else segs_ok s D xs pd binary W phs)"

definition seg_cost :: "Elf32_Phdr list \<Rightarrow> nat" where
  "seg_cost phs = (\<Sum>ph\<leftarrow>phs. if p_type ph = PT_LOAD then 2 * seg_pages ph else 0)"

definition headers_at :: "kstate \<Rightarrow> u32 set \<Rightarrow> u32 list \<Rightarrow> u32 \<Rightarrow> u32 \<Rightarrow> u32 \<Rightarrow> Elf32_Phdr list \<Rightarrow> bool" where
  "headers_at s D xs pd ptr esz phs \<longleftrightarrow> (\<forall>i<length phs. read_phdr (kmem s) (ptr + of_nat i * esz) = phs ! i \<and>
     bytes_outside s D xs pd (ptr + of_nat i * esz) 24)"

lemma headers_at_Cons:
  "headers_at s D xs pd ptr esz (ph # phs) \<longleftrightarrow>
    read_phdr (kmem s) ptr = ph \<and> bytes_outside s D xs pd ptr 24 \<and> headers_at s D xs pd (ptr + esz) esz phs"
  unfolding headers_at_def by (auto simp: All_less_Suc2 algebra_simps)

lemma read_phdr_kept:
  assumes "bytes_outside s D xs pd a 24" "\<And>q. outside s D xs pd q \<Longrightarrow> kept s t q"
  shows "read_phdr (kmem t) a = read_phdr (kmem s) a"
proof -
  have "load32 (kmem t) (a + of_nat k) = load32 (kmem s) (a + of_nat k)" if "k + 4 \<le> 24" for k
    using bytes_outside_kept [OF assms, of k] bytes_outside_kept [OF assms, of "k + 1"]
      bytes_outside_kept [OF assms, of "k + 2"] bytes_outside_kept [OF assms, of "k + 3"] that
    by (simp add: load32_def ac_simps)
  from this [of 0] this [of 4] this [of 8] this [of 16] this [of 20] show ?thesis
    by (simp add: read_phdr_def)
qed

abbreviation icode_map :: "u32 \<Rightarrow> elf_map" where
  "icode_map e \<equiv> (\<lambda>va sgsize bin bin_size. load_icode_mapper va sgsize bin bin_size e)"

definition shows_segment :: "kstate \<Rightarrow> u32 \<Rightarrow> Elf32_Phdr \<Rightarrow> u32 set \<Rightarrow> (u32 \<Rightarrow> u8) \<Rightarrow> bool" where
  "shows_segment s binary ph W f \<longleftrightarrow> (\<forall>w. w - p_vaddr ph < seg_size ph \<longrightarrow> w \<in> W \<and> f w = ph_byte s binary ph w)"

lemma load_segments_ok:
  assumes pd: "pd \<in> D" and env: "env_pgdir (envs s e) = frame pd"
    and empty: "\<And>w. w < ULIM \<Longrightarrow> \<not> valid_pte (upte s pd w)"
  shows "image s D xs pd W f t ys \<Longrightarrow> segs_ok s D xs pd binary V phs \<Longrightarrow> W \<subseteq> V \<Longrightarrow> headers_at s D xs pd ptr esz phs \<Longrightarrow>
    \<exists>r u zs W' f'. load_segments (icode_map e) binary ptr esz (length phs) t = Some (r, u) \<and>
      image s D xs pd W' f' u zs \<and> W \<subseteq> W' \<and> (\<forall>w\<in>W. f' w = f w) \<and>
      W' \<subseteq> W \<union> (\<Union>ph\<in>{ph \<in> set phs. p_type ph = PT_LOAD}. covers ph) \<and>
      (case r of Inr _ \<Rightarrow> length ys \<le> length zs + seg_cost phs \<and>
          (\<forall>ph\<in>set phs. p_type ph = PT_LOAD \<longrightarrow> shows_segment s binary ph W' f')
       | Inl err \<Rightarrow> err = E_NO_MEM \<and> zs = [] \<and> length ys < seg_cost phs)"
proof (induction phs arbitrary: ptr W V f t ys)
  case Nil
  then show ?case
    by (intro exI [of _ "Inr ()"] exI [of _ t] exI [of _ ys] exI [of _ W] exI [of _ f]) (simp add: seg_cost_def)
next
  case (Cons ph phs)
  note im = Cons.prems(1) and hd = Cons.prems(4) [unfolded headers_at_Cons]
  have ph: "read_phdr (kmem t) ptr = ph" using read_phdr_kept [OF _ imageD(5) [OF im]] hd by metis
  show ?case
  proof (cases "p_type ph = PT_LOAD")
    case False
    have ok: "segs_ok s D xs pd binary V phs" and cost: "seg_cost (ph # phs) = seg_cost phs"
      using Cons.prems(2) False by (simp_all add: seg_cost_def)
    have run: "load_segments (icode_map e) binary ptr esz (length (ph # phs)) t =
        load_segments (icode_map e) binary (ptr + esz) esz (length phs) t"
      using False ph by simp
    have loads: "{p \<in> set (ph # phs). p_type p = PT_LOAD} = {p \<in> set phs. p_type p = PT_LOAD}" using False by auto
    have all: "(\<forall>p\<in>set (ph # phs). p_type p = PT_LOAD \<longrightarrow> P p) \<longleftrightarrow> (\<forall>p\<in>set phs. p_type p = PT_LOAD \<longrightarrow> P p)" for P
      using False by simp
    have h: "headers_at s D xs pd (ptr + esz) esz phs" using hd by blast
    show ?thesis unfolding run loads cost all by (rule Cons.IH [OF im ok Cons.prems(3) h])
  next
    case True
    have ok: "seg_ok s D xs pd binary ph" "covers ph \<inter> V = {}" "segs_ok s D xs pd binary (V \<union> covers ph) phs"
      using Cons.prems(2) True by simp_all
    have new: "covers ph \<inter> W = {}" using ok(2) Cons.prems(3) by blast
    have cost: "seg_cost (ph # phs) = 2 * seg_pages ph + seg_cost phs" using True by (simp add: seg_cost_def)
    have loads: "{p \<in> set (ph # phs). p_type p = PT_LOAD} = insert ph {p \<in> set phs. p_type p = PT_LOAD}" using True by auto
    obtain r u zs W1 where m: "icode_map e (p_vaddr ph) (p_memsz ph) (binary + p_offset ph) (p_filesz ph) t = Some (r, u)"
      "image s D xs pd (W \<union> W1) (\<lambda>w. if w \<in> W then f w else ph_byte s binary ph w) u zs" "W1 \<subseteq> covers ph"
      "case r of Inr _ \<Rightarrow> {w. w - p_vaddr ph < seg_size ph} \<subseteq> W1 \<and> length ys \<le> length zs + 2 * seg_pages ph
       | Inl err \<Rightarrow> err = E_NO_MEM \<and> zs = [] \<and> length ys < 2 * seg_pages ph"
      by (rule load_segmentE [OF im pd env ok(1) new empty]) blast
    show ?thesis
    proof (cases r)
      case (Inl err)
      have "load_segments (icode_map e) binary ptr esz (length (ph # phs)) t = Some (Inl err, u)"
        using True ph m(1) Inl by simp
      then show ?thesis
        using m(2-4) Inl unfolding loads cost
        by (intro exI [of _ "Inl err"] exI [of _ u] exI [of _ zs] exI [of _ "W \<union> W1"]
            exI [of _ "\<lambda>w. if w \<in> W then f w else ph_byte s binary ph w"]) auto
    next
      case (Inr x)
      let ?g = "\<lambda>w. if w \<in> W then f w else ph_byte s binary ph w"
      have run: "load_segments (icode_map e) binary ptr esz (length (ph # phs)) t =
          load_segments (icode_map e) binary (ptr + esz) esz (length phs) u"
        using True ph m(1) Inr by simp
      have sub: "W \<union> W1 \<subseteq> V \<union> covers ph" using Cons.prems(3) m(3) by blast
      obtain r' v ws W' f' where i: "load_segments (icode_map e) binary (ptr + esz) esz (length phs) u = Some (r', v)"
        "image s D xs pd W' f' v ws" "W \<union> W1 \<subseteq> W'" "\<forall>w\<in>W \<union> W1. f' w = ?g w"
        "W' \<subseteq> (W \<union> W1) \<union> (\<Union>ph\<in>{ph \<in> set phs. p_type ph = PT_LOAD}. covers ph)"
        "case r' of Inr _ \<Rightarrow> length zs \<le> length ws + seg_cost phs \<and>
            (\<forall>ph\<in>set phs. p_type ph = PT_LOAD \<longrightarrow> shows_segment s binary ph W' f')
         | Inl err \<Rightarrow> err = E_NO_MEM \<and> ws = [] \<and> length zs < seg_cost phs"
        using Cons.IH [OF m(2) ok(3) sub] hd by blast
      have mem: "{w. w - p_vaddr ph < seg_size ph} \<subseteq> W1" "length ys \<le> length zs + 2 * seg_pages ph"
        using m(4) Inr by simp_all
      have shown: "shows_segment s binary ph W' f'"
        unfolding shows_segment_def
      proof (intro allI impI conjI)
        fix w assume "w - p_vaddr ph < seg_size ph"
        then have w: "w \<in> W1" using mem(1) by blast
        then show "w \<in> W'" using i(3) by blast
        have "w \<notin> W" using w m(3) new by blast
        then show "f' w = ph_byte s binary ph w" using i(4) w by simp
      qed
      show ?thesis
        unfolding run loads cost
        using i shown m(3) mem(2)
        by (intro exI [of _ r'] exI [of _ v] exI [of _ ws] exI [of _ W'] exI [of _ f']) (auto split: sum.splits)
    qed
  qed
qed

subsection \<open>Segments that do not start at a page boundary\<close>

text \<open>The loops count the pages of the segment from its first byte, not from the start of its first
  page: a segment of at most a page gets a single page, also when it ends in the next one.\<close>

lemma mapper_one_page:
  assumes "0 < bin_size" "bin_size \<le> 0x1000" "sgsize \<le> 0x1000" "offset = va - ROUNDDOWN va BY2PG"
  shows "load_icode_mapper va sgsize bin bin_size e s = mapper_page e (va - offset) (mapper_fill bin bin_size offset 0) s"
proof -
  have stop: "mapper_loop e base bound fill 0x1000 t = Some (Inr 0x1000, t)" if "bound \<le> 0x1000" for base bound fill t
    using leD [OF that] by (subst mapper_loop.simps) simp
  have "mapper_loop e base bin_size fill 0 s = do {
      (r, s1) \<leftarrow> mapper_page e base (fill 0) s;
      (case r of Inl err \<Rightarrow> Some (Inl err, s1) | Inr _ \<Rightarrow> Some (Inr 0x1000, s1)) }" for base fill
    using assms(1,2) by (subst mapper_loop.simps) (simp add: stop cong: sum.case_cong)
  then show ?thesis
    using assms(3,4)
    by (cases "mapper_page e (va - offset) (mapper_fill bin bin_size offset 0) s")
      (auto simp: load_icode_mapper_def stop split: sum.splits)
qed

lemma mapper_one_page_example:
  "load_icode_mapper 0x400F00 0x200 bin 0x200 e s = mapper_page e 0x400000 (mapper_fill bin 0x200 0xF00 0) s"
  using mapper_one_page [of "0x200" "0x200" "0xF00" "0x400F00"] by (simp add: ROUNDDOWN_def)

subsection \<open>The file\<close>

text \<open>An ELF file at \<open>binary\<close> in kernel memory, with the program headers \<open>phs\<close> and the entry point
  \<open>entry\<close>; what the loader reads of it is memory that it does not write. Its segments avoid the
  addresses \<open>V\<close>.\<close>

definition elf_at :: "kstate \<Rightarrow> u32 set \<Rightarrow> u32 list \<Rightarrow> u32 \<Rightarrow> u32 \<Rightarrow> u32 \<Rightarrow> u32 set \<Rightarrow> u32 \<Rightarrow> Elf32_Phdr list \<Rightarrow> bool" where
  "elf_at s D xs pd binary sz V entry phs \<longleftrightarrow> 4 \<le> sint sz \<and> is_elf_format (kmem s) binary \<and>
     bytes_outside s D xs pd binary 52 \<and> entry = e_entry (read_ehdr (kmem s) binary) \<and>
     length phs = unat (e_phnum (read_ehdr (kmem s) binary)) \<and> segs_ok s D xs pd binary V phs \<and>
     headers_at s D xs pd (binary + e_phoff (read_ehdr (kmem s) binary)) (ucast (e_phentsize (read_ehdr (kmem s) binary))) phs"

lemma read_ehdr_kept:
  assumes "bytes_outside s D xs pd a 52" "\<And>q. outside s D xs pd q \<Longrightarrow> kept s t q"
  shows "read_ehdr (kmem t) a = read_ehdr (kmem s) a"
proof -
  note b = bytes_outside_kept [OF assms]
  have w: "load32 (kmem t) (a + of_nat k) = load32 (kmem s) (a + of_nat k)" if "k + 4 \<le> 52" for k
    using b [of k] b [of "k + 1"] b [of "k + 2"] b [of "k + 3"] that by (simp add: load32_def ac_simps)
  have h: "load16 (kmem t) (a + of_nat k) = load16 (kmem s) (a + of_nat k)" if "k + 2 \<le> 52" for k
    using b [of k] b [of "k + 1"] that by (simp add: load16_def ac_simps)
  have "map (\<lambda>k. kmem t (a + of_nat k)) [0..<16] = map (\<lambda>k. kmem s (a + of_nat k)) [0..<16]"
    using b by (intro map_cong) auto
  then show ?thesis
    using w [of 24] w [of 28] h [of 42] h [of 44] by (simp add: read_ehdr_def)
qed

lemma is_elf_format_cong: "read_ehdr m a = read_ehdr m' a \<Longrightarrow> is_elf_format m a = is_elf_format m' a"
  by (simp add: is_elf_format_def)

lemma load_elf_ok:
  assumes im: "image s D xs pd W f t ys" and pd: "pd \<in> D" and env: "env_pgdir (envs s e) = frame pd"
    and empty: "\<And>w. w < ULIM \<Longrightarrow> \<not> valid_pte (upte s pd w)"
    and elf: "elf_at s D xs pd binary sz W entry phs" and room: "seg_cost phs \<le> length ys"
  obtains u zs W' f' where "load_elf binary sz (icode_map e) t = Some (Inr entry, u)" "image s D xs pd W' f' u zs"
    "W \<subseteq> W'" "\<forall>w\<in>W. f' w = f w" "W' \<subseteq> W \<union> (\<Union>ph\<in>{ph \<in> set phs. p_type ph = PT_LOAD}. covers ph)"
    "length ys \<le> length zs + seg_cost phs" "\<forall>ph\<in>set phs. p_type ph = PT_LOAD \<longrightarrow> shows_segment s binary ph W' f'"
proof -
  let ?h = "read_ehdr (kmem s) binary"
  note el = elf [unfolded elf_at_def]
  have keeps: "read_ehdr (kmem u) binary = ?h" if "image s D xs pd W' f' u zs" for W' f' u zs
    using read_ehdr_kept [OF _ imageD(5) [OF that]] el by blast
  from keeps [OF im] have ht: "read_ehdr (kmem t) binary = ?h" "is_elf_format (kmem t) binary"
    using el is_elf_format_cong by blast+
  obtain r u zs W' f' where l: "load_segments (icode_map e) binary (binary + e_phoff ?h) (ucast (e_phentsize ?h)) (length phs) t = Some (r, u)"
    "image s D xs pd W' f' u zs" "W \<subseteq> W'" "\<forall>w\<in>W. f' w = f w"
    "W' \<subseteq> W \<union> (\<Union>ph\<in>{ph \<in> set phs. p_type ph = PT_LOAD}. covers ph)"
    "case r of Inr _ \<Rightarrow> length ys \<le> length zs + seg_cost phs \<and>
          (\<forall>ph\<in>set phs. p_type ph = PT_LOAD \<longrightarrow> shows_segment s binary ph W' f')
       | Inl err \<Rightarrow> err = E_NO_MEM \<and> zs = [] \<and> length ys < seg_cost phs"
    using load_segments_ok [OF pd env empty im, where V = W] el by blast
  obtain x where r: "r = Inr x" using l(6) room by (cases r) simp_all
  have "load_elf binary sz (icode_map e) t = Some (Inr entry, u)"
    using el ht l(1) keeps [OF l(2)] by (simp add: load_elf_def r)
  then show thesis using that l r by simp
qed

subsection \<open>The stack\<close>

lemma stack_pageE:
  assumes inv: "vm_inv s D (p # ps)" and pd: "pd \<in> D" and va: "va < ULIM" "PG_ADDR_OFFSET va = 0"
    and v: "\<not> valid_pte (upte s pd va)" and room: "ps \<noteq> []"
  obtains s1 s2 ys where "page_alloc s = Some (Inr p, s1)" "envs s1 = envs s"
    "page_insert (frame pd) p va (PTE_V OR PTE_R) s1 = Some (Inr (), s2)"
    "image s D (p # ps) pd {w. same_page w va} (\<lambda>_. 0) s2 ys" "length ps \<le> length ys + 1"
proof -
  obtain s1 where s1: "page_alloc s = Some (Inr p, s1)" "vm_inv s1 D ps" "vm_only s s1" "pp_ref s1 = pp_ref s"
    "\<And>x. x \<in> all_slots D \<Longrightarrow> pte_at s1 x = pte_at s x"
    "unit_page p" "p < npage s1" "pp_ref s1 p = 0" "p \<notin> D \<union> tables_of (pde s1) D \<union> set ps"
    by (rule page_alloc_vmE [OF inv]) blast
  have m1: "kmem s1 = bzero (kmem s) (frame p) 4096"
    using page_allocE [OF vm_invD(1) [OF inv]] s1(1)
    by (metis Pair_inject kstate.select_convs(1) kstate.surjective kstate.update_convs(1) option.inject)
  have k1: "kept s s1 q" if "unit_page q" "q \<noteq> p" for q
    by (rule kept_region [OF s1(6) that]) (simp add: m1 bzero_closed)
  have tab: "tables_of (pde s1) D = tables_of (pde s) D"
  proof (rule tables_of_cong)
    fix d i assume d: "d \<in> D" "i < (0x800 :: u32)"
    have "d \<noteq> p" "unit_page d" using d(1) s1(9) vm_wf_dir [OF vm_invD(2) [OF inv] d(1)] by (auto simp: live_page_def)
    then show "pde s1 d i = pde s d i" using kept_pde [OF k1] dir_entry_simps(1) [of d i] d(2) by blast
  qed
  have u1: "upte s1 d w = upte s d w" if "d \<in> D" "w < ULIM" for d w
    using s1(5) [OF slot_of_all [OF that]] by (simp add: upte_def)
  have v1: "\<not> valid_pte (upte s1 pd va)" using v u1 [OF pd va(1)] by simp
  have perm: "(PTE_V OR PTE_R) OR PTE_V = PTE_R OR PTE_V" by simp
  note ins = page_insert_fresh [OF s1(2) pd va(1) v1, of p "PTE_V OR PTE_R", unfolded perm]
  have ref: "pp_ref s1 p \<noteq> 0xFFFF" using s1(8) by simp
  show thesis
  proof (cases rule: page_insert_newE [OF s1(2) pd va(1) v1 s1(6,7,9) ref, of "PTE_R OR PTE_V"])
    case (4 s2)
    let ?ys = "if pde s1 pd (PDX va) = 0 then tl ps else ps"
    have w: "page_insert_new (frame pd) p va (PTE_R OR PTE_V) s1 = Some (Inr (), s2)" using 4 by simp
    have sub: "set ?ys \<subseteq> set ps" using list.set_sel(2) [of ps] by (cases ps) auto
    have out1: "outside s1 D ps pd q" if "outside s D (p # ps) pd q" for q using that tab by (auto simp: outside_def)
    have k2: "kept s1 s2 q" if "outside s1 D ps pd q" for q by (rule kept_insert_new [OF s1(2) pd va(1) that w])
    have u2: "upte s2 d w = (if d = pd \<and> same_page w va then page2pa p OR (PTE_R OR PTE_V) else upte s d w)"
      if "d \<in> D" "w < ULIM" for d w
      using upte_of_pte_at [OF 4(6) that] u1 [OF that] by simp
    have e: "full_pte (page2pa p OR (PTE_R OR PTE_V))" "pte_page (page2pa p OR (PTE_R OR PTE_V)) = p"
      using s1(6) pte_page_entry [of p "PTE_R OR PTE_V"] entry_flags [of "PTE_R OR PTE_V" _ p]
      by (simp_all add: full_pte_def unit_page_def)
    have "image s D (p # ps) pd {w. same_page w va} (\<lambda>_. 0) s2 ?ys"
      unfolding image_def
    proof (intro conjI ballI allI impI)
      show "vm_inv s2 D ?ys" by (rule 4(2))
      show "vm_only s s2" by (rule vm_only_trans [OF s1(3) vm_only_insert_new [OF w]])
      show "set ?ys \<subseteq> set (p # ps)" using sub by auto
      show "tables_of (pde s2) D \<subseteq> tables_of (pde s) D \<union> set (p # ps)" using 4(10) tab by auto
      show "kept s s2 q" if "outside s D (p # ps) pd q" for q
        using that by (intro kept_trans [OF k1 k2 [OF out1]]) (auto simp: outside_def)
      show "upte s2 d w = upte s d w" if "d \<in> D" "w < ULIM" "\<not> (d = pd \<and> w \<in> {w. same_page w va})" for d w
        using u2 [OF that(1,2)] that(3) by auto
      fix w assume "w \<in> {w. same_page w va}"
      then have w: "same_page w va" "w - va < 0x1000" using same_page_base [OF va(2)] by simp_all
      then obtain k where k: "w = va + k" "k < 0x1000" by (intro that [of "w - va"]) simp_all
      have off: "PG_ADDR_OFFSET w = k" using offset_base [OF va(2) k(2)] k(1) by simp
      have "drop_bit 12 w < (0x80000 :: u32)"
        using va(1) w(1) by (simp add: same_page_def word_less_nat_alt unat_drop_div less_mult_imp_div_less)
      then show wl: "w < ULIM" by (simp add: word_less_nat_alt unat_drop_div div_less_iff_less_mult)
      show "full_pte (upte s2 pd w)" using e(1) u2 [OF pd wl] w(1) by simp
      have "outside s1 D ps pd p" using s1(6,9) pd by (auto simp: outside_def)
      then have "kmem s2 (frame p + k) = kmem s1 (frame p + k)"
        by (rule kept_byte [OF k2]) (rule order.strict_trans [OF k(2)], simp)
      then show "user_byte s2 pd w = 0"
        using e(2) u2 [OF pd wl] w(1) off k(2) by (simp add: user_byte_def m1 bzero_closed in_region_def word_less_nat_alt)
    qed
    moreover have "length ps \<le> length ?ys + 1" by (cases ps) auto
    moreover have "page_insert (frame pd) p va (PTE_V OR PTE_R) s1 = Some (Inr (), s2)" unfolding ins by (rule w)
    ultimately show thesis using that [OF s1(1) vm_onlyD(1) [OF s1(3)]] by blast
  qed (use room in simp_all)
qed

subsection \<open>A new environment\<close>

abbreviation USTACK :: "u32 set" where
  "USTACK \<equiv> {w. same_page w (USTACKTOP - BY2PG)}"

abbreviation loads :: "Elf32_Phdr list \<Rightarrow> Elf32_Phdr set" where
  "loads phs \<equiv> {ph \<in> set phs. p_type ph = PT_LOAD}"

lemma load_icodeE:
  assumes inv: "vm_inv s D (p # ps)" and pd: "pd \<in> D" and env: "env_pgdir (envs s e) = frame pd"
    and empty: "\<And>w. w < ULIM \<Longrightarrow> \<not> valid_pte (upte s pd w)"
    and elf: "elf_at s D (p # ps) pd binary sz USTACK entry phs" and room: "seg_cost phs + 1 \<le> length ps"
  obtains t u ys W f where "load_icode junk e binary sz s = Some u" "image s D (p # ps) pd W f t ys" "USTACK \<subseteq> W"
    "\<forall>w\<in>USTACK. f w = 0" "W \<subseteq> USTACK \<union> (\<Union>ph\<in>loads phs. covers ph)" "length ps \<le> length ys + seg_cost phs + 1"
    "\<forall>ph\<in>loads phs. shows_segment s binary ph W f"
    "u = upd_env e (\<lambda>v. v\<lparr>env_tf := (env_tf v)\<lparr>exc_pc := entry\<rparr>\<rparr>)
       (upd_env e (\<lambda>v. v\<lparr>env_status := ENV_RUNNABLE\<rparr>) t\<lparr>env_sched_list := LIST_INSERT_HEAD e (env_sched_list t)\<rparr>)"
proof -
  let ?va = "USTACKTOP - BY2PG :: u32"
  have va: "?va < ULIM" "PG_ADDR_OFFSET ?va = 0" by (simp_all add: PG_ADDR_OFFSET_def)
  have ne: "ps \<noteq> []" using room by auto
  obtain s1 s2 ys where st: "page_alloc s = Some (Inr p, s1)" "envs s1 = envs s"
    "page_insert (frame pd) p ?va (PTE_V OR PTE_R) s1 = Some (Inr (), s2)"
    "image s D (p # ps) pd USTACK (\<lambda>_. 0) s2 ys" "length ps \<le> length ys + 1"
    by (rule stack_pageE [OF inv pd va empty [OF va(1)] ne])
  have room': "seg_cost phs \<le> length ys" using room st(5) by simp
  obtain t zs W f where l: "load_elf binary sz (icode_map e) s2 = Some (Inr entry, t)" "image s D (p # ps) pd W f t zs"
    "USTACK \<subseteq> W" "\<forall>w\<in>USTACK. f w = 0" "W \<subseteq> USTACK \<union> (\<Union>ph\<in>loads phs. covers ph)"
    "length ys \<le> length zs + seg_cost phs" "\<forall>ph\<in>set phs. p_type ph = PT_LOAD \<longrightarrow> shows_segment s binary ph W f"
    by (rule load_elf_ok [OF st(4) pd env empty elf room']) blast
  have "load_icode junk e binary sz s = Some (upd_env e (\<lambda>v. v\<lparr>env_tf := (env_tf v)\<lparr>exc_pc := entry\<rparr>\<rparr>)
       (upd_env e (\<lambda>v. v\<lparr>env_status := ENV_RUNNABLE\<rparr>) t\<lparr>env_sched_list := LIST_INSERT_HEAD e (env_sched_list t)\<rparr>))"
    using st(1-3) env l(1) by (simp add: load_icode_def Let_def)
  then show thesis
    using that [OF _ l(2-5)] l(6,7) st(5) by simp
qed

text \<open>What a program in memory has to be like for \<open>env_create\<close>: an ELF file in kernel memory outside
  the tables and free pages, whose segments to be loaded are page-aligned, do not overlap and leave the
  stack page alone.\<close>

definition program_at :: "kstate \<Rightarrow> u32 set \<Rightarrow> u32 list \<Rightarrow> u32 \<Rightarrow> u32 \<Rightarrow> u32 \<Rightarrow> Elf32_Phdr list \<Rightarrow> bool" where
  "program_at s D xs binary sz entry phs \<longleftrightarrow> elf_at s D xs (hd xs) binary sz USTACK entry phs"

lemma bytes_outside_cong:
  "(\<And>q. outside t E ys pd q = outside s D xs pd q) \<Longrightarrow> bytes_outside t E ys pd a n = bytes_outside s D xs pd a n"
  by (simp add: bytes_outside_def)

text \<open>The file survives \<open>env_alloc\<close>.\<close>

lemma segs_ok_cong:
  "(\<And>q. outside t E ys pd q = outside s D xs pd q) \<Longrightarrow> segs_ok t E ys pd binary V phs = segs_ok s D xs pd binary V phs"
proof (induction phs arbitrary: V)
  case (Cons ph phs)
  have "seg_ok t E ys pd binary ph = seg_ok s D xs pd binary ph"
    unfolding seg_ok_def bytes_outside_cong [OF Cons.prems] by (rule refl)
  then show ?case using Cons.IH [OF Cons.prems] by simp
qed simp

lemma elf_at_keep:
  assumes out: "\<And>q. outside t E ys pd q = outside s D xs pd q" and keep: "\<And>q. outside s D xs pd q \<Longrightarrow> kept s t q"
    and elf: "elf_at s D xs pd binary sz V entry phs"
  shows "elf_at t E ys pd binary sz V entry phs"
proof -
  note el = elf [unfolded elf_at_def]
  have h: "read_ehdr (kmem t) binary = read_ehdr (kmem s) binary"
    using read_ehdr_kept [OF _ keep] el by blast
  have p: "read_phdr (kmem t) a = read_phdr (kmem s) a" if "bytes_outside s D xs pd a 24" for a
    by (rule read_phdr_kept [OF that keep])
  have "headers_at t E ys pd ptr esz phs = headers_at s D xs pd ptr esz phs" for ptr esz
    unfolding headers_at_def bytes_outside_cong [OF out] using p by auto
  then show ?thesis
    unfolding elf_at_def h using el is_elf_format_cong [OF h] by (simp add: bytes_outside_cong [OF out] segs_ok_cong [OF out])
qed

lemma ph_byte_kept:
  assumes "segs_ok s D xs pd binary V phs" "ph \<in> loads phs" "\<And>q. outside s D xs pd q \<Longrightarrow> kept s t q"
  shows "ph_byte t binary ph w = ph_byte s binary ph w"
proof -
  have "bytes_outside s D xs pd (binary + p_offset ph) (unat (p_filesz ph))"
    using assms(1,2) by (induction phs arbitrary: V) (auto simp: seg_ok_def split: if_splits)
  from segment_byte_kept [OF this assms(3)] show ?thesis by (simp add: ph_byte_def)
qed

text \<open>The new environment \<open>e\<close> as a process: its directory, and the bytes of the program in it.\<close>

definition process :: "kstate \<Rightarrow> u32 \<Rightarrow> Elf32_Phdr list \<Rightarrow> kstate \<Rightarrow> u32 \<Rightarrow> bool" where
  "process s binary phs s' p \<longleftrightarrow>
     (\<forall>ph\<in>loads phs. \<forall>w. w - p_vaddr ph < seg_size ph \<longrightarrow> full_pte (upte s' p w) \<and> user_byte s' p w = ph_byte s binary ph w) \<and>
     (\<forall>w\<in>USTACK. full_pte (upte s' p w) \<and> user_byte s' p w = 0) \<and>
     (\<forall>w<ULIM. w \<notin> USTACK \<union> (\<Union>ph\<in>loads phs. covers ph) \<longrightarrow> upte s' p w = 0)"

lemma image_process:
  assumes im: "image s1 D xs p W f t ys" and p: "p \<in> D" and empty: "\<And>w. w < ULIM \<Longrightarrow> upte s1 p w = 0"
    and W: "USTACK \<subseteq> W" "W \<subseteq> USTACK \<union> (\<Union>ph\<in>loads phs. covers ph)"
    and f: "\<forall>w\<in>USTACK. f w = 0" "\<forall>ph\<in>loads phs. shows_segment s1 binary ph W f"
    and same: "\<And>ph w. ph \<in> loads phs \<Longrightarrow> ph_byte s1 binary ph w = ph_byte s binary ph w" and mem: "kmem s' = kmem t"
  shows "process s binary phs s' p"
  unfolding process_def
proof (intro conjI ballI allI impI)
  have v: "upte s' = upte t" "user_byte s' = user_byte t"
    using view_kmem(3) [OF mem] by (simp_all add: user_byte_def fun_eq_iff mem)
  note i = imageD [OF im, folded v]
  show "full_pte (upte s' p w)" "user_byte s' p w = ph_byte s binary ph w"
    if "ph \<in> loads phs" "w - p_vaddr ph < seg_size ph" for ph w
  proof -
    have "w \<in> W" "f w = ph_byte s1 binary ph w" using f(2) that by (auto simp: shows_segment_def)
    then show "full_pte (upte s' p w)" "user_byte s' p w = ph_byte s binary ph w" using i(9,10) same [OF that(1)] by auto
  qed
  show "full_pte (upte s' p w)" "user_byte s' p w = 0" if "w \<in> USTACK" for w
  proof -
    have w: "w \<in> W" using W(1) that by blast
    show "full_pte (upte s' p w)" by (rule i(9) [OF w])
    show "user_byte s' p w = 0" using i(10) [OF w] f(1) that by simp
  qed
  show "upte s' p w = 0" if "w < ULIM" "w \<notin> USTACK \<union> (\<Union>ph\<in>loads phs. covers ph)" for w
  proof -
    have "w \<notin> W" using W(2) that(2) by blast
    then show ?thesis using i(7) [OF p that(1)] empty [OF that(1)] by simp
  qed
qed

lemma vm_only_next_id: "vm_only s s' \<Longrightarrow> next_env_id s' = next_env_id s"
  unfolding vm_only_def by (cases s; cases s') simp

lemma env_createE:
  assumes inv: "vm_inv s D (p # ps)" and fl: "lst_rep (env_free_list s) (e # es)"
    and run: "lst_rep (env_sched_list s) rs" "e \<notin> set rs"
    and boot: "boot_pgdir s = frame b" "unit_page b" "b \<noteq> p" "\<And>i. 0x7FD \<le> i \<Longrightarrow> i < 0x800 \<Longrightarrow> pde s b i = 0"
    and prog: "program_at s D (p # ps) binary sz entry phs" and room: "seg_cost phs + 2 \<le> length ps"
  obtains s' ys where "env_create_priority cpsr junk binary sz priority s = Some s'" "vm_inv s' (insert p D) ys"
    "lst_rep (env_free_list s') es" "lst_rep (env_sched_list s') (e # rs)" "process s binary phs s' p"
    "env_status (envs s' e) = ENV_RUNNABLE" "env_pri (envs s' e) = priority" "env_pgdir (envs s' e) = frame p"
    "env_ttb (envs s' e) = page2pa p" "env_ipc_recving (envs s' e) = env_ipc_recving (envs s e)" "exc_pc (env_tf (envs s' e)) = entry"
    "\<And>d w. d \<in> D \<Longrightarrow> w < ULIM \<Longrightarrow> upte s' d w = upte s d w" "\<And>i. i \<noteq> e \<Longrightarrow> envs s' i = envs s i"
    "set ys \<subseteq> set ps" "length ps \<le> length ys + seg_cost phs + 2" "\<And>q. outside s D (p # ps) p q \<Longrightarrow> kept s s' q"
    "tables_of (pde s') (insert p D) \<subseteq> tables_of (pde s) D \<union> set ps" "alloc_kept s s'" "curenv s' = curenv s" "p \<notin> D"
    "env_id (envs s' e) = fst (mkenvid e s)" "next_env_id s' = next_env_id s + 1"
proof -
  obtain q qs where ps: "ps = q # qs" using room by (cases ps) simp_all
  obtain s0 where s0: "env_alloc cpsr 0 s = Some (Inr e, s0)" "vm_inv s0 (insert p D) ps"
    "lst_rep (env_free_list s0) es" "\<And>v. v < ULIM \<Longrightarrow> upte s0 p v = 0"
    "\<And>d v. d \<in> D \<Longrightarrow> v < ULIM \<Longrightarrow> upte s0 d v = upte s d v" "env_pgdir (envs s0 e) = frame p"
    "\<And>i. i \<noteq> e \<Longrightarrow> envs s0 i = envs s i" "env_sched_list s0 = env_sched_list s"
    "\<And>i. i < 0x7FD \<Longrightarrow> pde s0 p i = 0" "\<And>i. 0x7FD \<le> i \<Longrightarrow> i < 0x1000 \<Longrightarrow> pde s0 p i = pde s b i"
    "\<And>d i. d \<in> D \<Longrightarrow> i < 0x800 \<Longrightarrow> pde s0 d i = pde s d i"
    "\<And>q j. unit_page q \<Longrightarrow> q \<noteq> p \<Longrightarrow> j < 0x1000 \<Longrightarrow> pde s0 q j = pde s q j"
    "env_ttb (envs s0 e) = page2pa p" "curenv s0 = curenv s" "env_id (envs s0 e) = fst (mkenvid e s)" "next_env_id s0 = next_env_id s + 1"
    by (rule env_allocE [OF inv fl boot(1-3), of cpsr 0]) (simp add: boot(4), (rule that; assumption))
  define s1 where "s1 = upd_env e (\<lambda>v. v\<lparr>env_pri := priority\<rparr>) s0"
  have m1: "kmem s1 = kmem s0" and same1: "npage s1 = npage s0" "page_free_list s1 = page_free_list s0" "pp_ref s1 = pp_ref s0"
    "env_free_list s1 = env_free_list s0" "env_sched_list s1 = env_sched_list s0" by (simp_all add: s1_def)
  note v1 = vm_inv_cong [OF same1(1-3) m1]
  have e1: "env_pgdir (envs s1 e) = frame p" "env_pri (envs s1 e) = priority" "\<And>i. i \<noteq> e \<Longrightarrow> envs s1 i = envs s i"
    using s0(6,7) by (simp_all add: s1_def)
  have inv1: "vm_inv s1 (insert p D) ps" unfolding v1 by (rule s0(2))
  note k0 = env_alloc_kept [OF s0(1)]
  have pD: "p \<notin> D" using vm_wf_dir [OF vm_invD(2) [OF inv], of p] alloc_inv_unit [OF vm_invD(1) [OF inv], of p]
    by (auto simp: live_page_def)
  have p0: "pde s0 p i = 0" if "i < 0x800" for i
    using s0(9) [of i] s0(10) [of i] boot(4) dir_entry_simps(1) [OF boot(2) that] that by force
  have tabs: "tables_of (pde s1) (insert p D) = tables_of (pde s) D"
  proof -
    have "tables_of (pde s0) (insert p D) = tables_of (pde s0) D"
      unfolding tables_of_def using p0 by blast
    also have "\<dots> = tables_of (pde s) D" by (rule tables_of_cong) (rule s0(11))
    finally show ?thesis by (simp add: v1)
  qed
  have out: "outside s1 (insert p D) ps p q = outside s D (p # ps) p q" for q
    using tabs by (auto simp: outside_def)
  have keep: "kept s s1 q" if "outside s D (p # ps) p q" for q
    using s0(12) [of q] that by (simp add: kept_def outside_def pde_def m1)
  have elf: "elf_at s D (p # ps) p binary sz USTACK entry phs" using prog by (simp add: program_at_def)
  have elf1: "elf_at s1 (insert p D) (q # qs) p binary sz USTACK entry phs"
    using elf_at_keep [OF out keep elf] ps by simp
  have empty: "upte s1 p w = 0" if "w < ULIM" for w using s0(4) [OF that] v1 by simp
  then have free: "\<not> valid_pte (upte s1 p w)" if "w < ULIM" for w using that by simp
  have room1: "seg_cost phs + 1 \<le> length qs" using room ps by simp
  obtain t s' ys W f where l: "load_icode junk e binary sz s1 = Some s'" "image s1 (insert p D) (q # qs) p W f t ys" "USTACK \<subseteq> W"
    "\<forall>w\<in>USTACK. f w = 0" "W \<subseteq> USTACK \<union> (\<Union>ph\<in>loads phs. covers ph)" "length qs \<le> length ys + seg_cost phs + 1"
    "\<forall>ph\<in>loads phs. shows_segment s1 binary ph W f"
    "s' = upd_env e (\<lambda>v. v\<lparr>env_tf := (env_tf v)\<lparr>exc_pc := entry\<rparr>\<rparr>)
       (upd_env e (\<lambda>v. v\<lparr>env_status := ENV_RUNNABLE\<rparr>) t\<lparr>env_sched_list := LIST_INSERT_HEAD e (env_sched_list t)\<rparr>)"
    by (rule load_icodeE [OF inv1 [unfolded ps] insertI1 e1(1) free elf1 room1])
  note only = vm_onlyD [OF imageD(2) [OF l(2)]]
  have mem: "kmem s' = kmem t" and same: "npage s' = npage t" "page_free_list s' = page_free_list t" "pp_ref s' = pp_ref t"
    by (simp_all add: l(8))
  note v' = vm_inv_cong [OF same mem]
  have "process s binary phs s' p"
  proof (rule image_process [OF l(2) insertI1 empty l(3,5,4,7) _ mem])
    fix ph w assume "ph \<in> loads phs"
    then show "ph_byte s1 binary ph w = ph_byte s binary ph w"
      using elf by (intro ph_byte_kept [OF _ _ keep]) (auto simp: elf_at_def)
  qed
  moreover have "upte s' d w = upte s d w" if "d \<in> D" "w < ULIM" for d w
  proof -
    have "d \<noteq> p" using that(1) s0(2) vm_wf_dir [OF vm_invD(2) [OF inv] that(1)] alloc_inv_unit [OF vm_invD(1) [OF inv], of p]
      by (auto simp: live_page_def)
    then show ?thesis using imageD(7) [OF l(2), of d w] that s0(5) [OF that] v' v1 by simp
  qed
  moreover have "vm_inv s' (insert p D) ys" unfolding v' by (rule imageD(1) [OF l(2)])
  moreover have "lst_rep (env_sched_list s') (e # rs)"
    using LIST_INSERT_HEAD_rep [OF run] by (simp add: l(8) only same1 s0(8))
  moreover have "env_create_priority cpsr junk binary sz priority s = Some s'"
    using s0(1) l(1) by (simp add: env_create_priority_def s1_def)
  moreover have "alloc_kept s s'"
    using k0(1) alloc_kept_vm_only [OF imageD(2) [OF l(2)]] by (simp add: alloc_kept_def l(8) s1_def)
  moreover have "curenv s' = curenv s" using s0(14) only(2) by (simp add: l(8) s1_def)
  moreover have "env_id (envs s' e) = fst (mkenvid e s)" using s0(15) only(1) by (simp add: l(8) s1_def)
  moreover have "next_env_id s' = next_env_id s + 1" using s0(16) vm_only_next_id [OF imageD(2) [OF l(2)]] by (simp add: l(8) s1_def)
  moreover have "kept s s' q" if "outside s D (p # ps) p q" for q
  proof -
    have "kept s1 t q" using imageD(5) [OF l(2)] that out ps by blast
    then show ?thesis using keep [OF that] kept_trans kept_same [OF mem] by blast
  qed
  moreover have "tables_of (pde s') (insert p D) \<subseteq> tables_of (pde s) D \<union> set ps"
    using imageD(4) [OF l(2)] tabs ps by (simp add: v')
  moreover have "set ys \<subseteq> set ps" using imageD(3) [OF l(2)] ps by simp
  moreover have "length ps \<le> length ys + seg_cost phs + 2" using l(6) ps by simp
  moreover have "lst_rep (env_free_list s') es" "env_status (envs s' e) = ENV_RUNNABLE" "env_pri (envs s' e) = priority"
    "env_pgdir (envs s' e) = frame p" "env_ttb (envs s' e) = page2pa p" "exc_pc (env_tf (envs s' e)) = entry"
    "env_ipc_recving (envs s' e) = env_ipc_recving (envs s e)" "\<And>i. i \<noteq> e \<Longrightarrow> envs s' i = envs s i"
    using e1 s0(3,13) k0(2) by (simp_all add: l(8) only same1 s1_def)
  ultimately show thesis using that pD by blast
qed

text \<open>Property C6. \<open>env_create_priority\<close> turns an ELF file in kernel memory into a process: the first free
  environment becomes runnable, at the head of the scheduling list, with the given priority, the
  entry point of the file as its program counter and an address space in which every loadable segment
  shows the bytes of the file followed by zeros up to its size in memory, the stack page is zero, and
  nothing else is mapped. The other address spaces and environments do not change, and the page tables
  stay well-formed. It needs page-aligned segments and enough free pages: one for the directory, two for
  the stack page and its table, two for each page of a segment.\<close>

theorem env_create_correct:
  assumes inv: "vm_inv s D (p # ps)" and fl: "lst_rep (env_free_list s) (e # es)"
    and run: "lst_rep (env_sched_list s) rs" "e \<notin> set rs"
    and boot: "boot_pgdir s = frame b" "unit_page b" "b \<noteq> p" "\<And>i. 0x7FD \<le> i \<Longrightarrow> i < 0x800 \<Longrightarrow> pde s b i = 0"
    and prog: "program_at s D (p # ps) binary sz entry phs" and room: "seg_cost phs + 2 \<le> length ps"
  shows "\<exists>s' ys. env_create_priority cpsr junk binary sz priority s = Some s' \<and> vm_inv s' (insert p D) ys \<and>
    lst_rep (env_free_list s') es \<and> lst_rep (env_sched_list s') (e # rs) \<and>
    env_status (envs s' e) = ENV_RUNNABLE \<and> env_pri (envs s' e) = priority \<and> env_pgdir (envs s' e) = frame p \<and>
    exc_pc (env_tf (envs s' e)) = entry \<and> process s binary phs s' p \<and>
    (\<forall>d\<in>D. \<forall>w<ULIM. upte s' d w = upte s d w) \<and> (\<forall>i. i \<noteq> e \<longrightarrow> envs s' i = envs s i)"
proof -
  note prems = inv fl run boot(1-3)
  show ?thesis
    by (rule env_createE [OF prems _ prog room, where cpsr = cpsr and junk = junk and priority = priority])
      (use boot(4) in blast)+
qed

text \<open>A machine with a program of 16 bytes at \<open>0x80200000\<close>, half of them in the file.\<close>

definition small_elf :: "u8 list" where
  "small_elf = [0x7F, 0x45, 0x4C, 0x46, 1, 1, 1, 0, 0, 0, 0, 0, 0, 0, 0, 0, 2, 0, 40, 0, 1, 0, 0, 0,
     0x04, 0x00, 0x40, 0, 52, 0, 0, 0, 0, 0, 0, 0, 0, 0, 0, 0, 52, 0, 32, 0, 1, 0, 0, 0, 0, 0, 0, 0,
     1, 0, 0, 0, 84, 0, 0, 0, 0, 0, 0x40, 0, 0, 0, 0, 0, 8, 0, 0, 0, 16, 0, 0, 0, 7, 0, 0, 0, 0, 0x10, 0, 0,
     0xEF, 0xBE, 0xAD, 0xDE, 1, 2, 3, 4]"

definition elf_machine :: kstate where
  "elf_machine = env_init (small_machine\<lparr>kmem := \<lambda>a. if a - 0x80200000 < 92 then small_elf ! unat (a - 0x80200000) else 0\<rparr>)"

definition small_phdr :: Elf32_Phdr where
  "small_phdr = \<lparr>p_type = 1, p_offset = 84, p_vaddr = 0x400000, p_filesz = 8, p_memsz = 16\<rparr>"

lemma bytes_in_frame:
  assumes "outside s D xs pd q" "a = frame q + r" "unat r + n \<le> 0x4000"
  shows "bytes_outside s D xs pd a n"
  unfolding bytes_outside_def
proof (intro allI impI)
  fix k assume "k < n"
  then have "unat (r + of_nat k) = unat r + k" using assms(3) by (simp add: unat_plus_if' unat_of_nat_u32)
  then have "r + of_nat k < 0x4000" using \<open>k < n\<close> assms(3) by (simp add: word_less_nat_alt)
  then show "\<exists>q r. outside s D xs pd q \<and> r < 0x4000 \<and> a + of_nat k = frame q + r"
    using assms(1,2) by (intro exI [of _ q] exI [of _ "r + of_nat k"]) simp
qed

lemma elf_machine_inv: "vm_inv elf_machine {} [2064, 2060, 2056, 2052, 2048]"
  "lst_rep (env_free_list elf_machine) (0 # map of_nat [1..<1024])" "env_sched_list elf_machine = null_lst"
  "boot_pgdir elf_machine = frame 0x100" "0x7FD \<le> i \<Longrightarrow> i < 0x800 \<Longrightarrow> pde elf_machine 0x100 i = 0"
proof -
  let ?m = "small_machine\<lparr>kmem := \<lambda>a. if a - 0x80200000 < 92 then small_elf ! unat (a - 0x80200000) else 0\<rparr>"
  have "alloc_inv ?m xs = alloc_inv small_machine xs" for xs by (rule alloc_inv_cong) simp_all
  then have "vm_inv ?m {} [2064, 2060, 2056, 2052, 2048]"
    using small_machine_inv(1) by (simp add: vm_inv_def vm_wf_def mappings_def all_slots_def)
  then show "vm_inv elf_machine {} [2064, 2060, 2056, 2052, 2048]" by (simp add: elf_machine_def env_init_vm)
  show "lst_rep (env_free_list elf_machine) (0 # map of_nat [1..<1024])"
    using fold_env_init_one [of 1024 "?m\<lparr>env_free_list := LIST_INIT (env_free_list ?m)\<rparr>"]
    by (simp add: elf_machine_def env_init_def LIST_INIT_rep upt_conv_Cons [of 0])
  have f: "boot_pgdir (fold (\<lambda>k. page_init_free (of_nat k)) ks t) = boot_pgdir t
      \<and> env_sched_list (fold (\<lambda>k. page_init_free (of_nat k)) ks t) = env_sched_list t" for ks t
    by (induction ks arbitrary: t) (simp_all add: page_init_free_def Let_def)
  have "boot_pgdir small_machine = 0x80100000 \<and> env_sched_list small_machine = null_lst"
    by (simp add: small_machine_def page_init_def Let_def f fold_set_ref power_on_def)
  then show "boot_pgdir elf_machine = frame 0x100" "env_sched_list elf_machine = null_lst"
    by (simp_all add: elf_machine_def env_init_vm frame_def)
  show "pde elf_machine 0x100 i = 0" if "0x7FD \<le> i" "i < 0x800"
  proof -
    have "unat i = 2045 \<or> unat i = 2046 \<or> unat i = 2047" using that by (auto simp: word_less_nat_alt word_le_nat_alt)
    then have "i = 0x7FD \<or> i = 0x7FE \<or> i = 0x7FF" by (simp add: word_unat_eq_iff)
    then show ?thesis
      unfolding elf_machine_def env_init_vm by (auto simp: pde_def load32_def frame_def)
  qed
qed

lemma elf_machine_mem: "kmem elf_machine a = (if a - 0x80200000 < 92 then small_elf ! unat (a - 0x80200000) else 0)"
proof -
  have f: "kmem (fold (\<lambda>k. env_init_one (of_nat k)) ks t) = kmem t" for ks t
    by (induction ks arbitrary: t) (simp_all add: env_init_one_def Let_def)
  show ?thesis by (simp add: elf_machine_def env_init_def f)
qed

lemma small_elf_at:
  assumes mem: "\<And>a. a - 0x80200000 < 92 \<Longrightarrow> kmem s a = small_elf ! unat (a - 0x80200000)" and out: "outside s D xs pd 0x200"
  shows "elf_at s D xs pd 0x80200000 92 USTACK 0x400004 [small_phdr]"
proof -
  have b: "bytes_outside s D xs pd (0x80200000 + r) n" if "unat r + n \<le> 0x4000" for r n
    by (rule bytes_in_frame [OF out _ that]) (simp add: frame_def)
  have h: "read_ehdr (kmem s) 0x80200000 = \<lparr>e_ident = take 16 small_elf, e_entry = 0x400004,
     e_phoff = 52, e_phentsize = 32, e_phnum = 1\<rparr>"
    by (simp add: read_ehdr_def load32_def load16_def mem small_elf_def upt_rec)
  have p: "read_phdr (kmem s) 0x80200034 = small_phdr"
    by (simp add: read_phdr_def load32_def mem small_elf_def small_phdr_def)
  have elf: "is_elf_format (kmem s) 0x80200000"
    by (simp add: is_elf_format_def h small_elf_def)
  have seg: "seg_ok s D xs pd 0x80200000 small_phdr"
    using b [of 84 8] by (simp add: seg_ok_def seg_pages_def seg_size_def small_phdr_def PG_ADDR_OFFSET_def max_def)
  have "covers small_phdr = {w. w - 0x400000 < 0x1000}"
    by (simp add: covers_def seg_pages_def seg_size_def small_phdr_def max_def)
  also have "\<dots> = {w. same_page w 0x400000}"
    by (simp add: same_page_base PG_ADDR_OFFSET_def)
  finally have "covers small_phdr \<inter> USTACK = {}" by (auto simp: same_page_def)
  then show ?thesis
    using b [of 0 52] b [of 52 24] elf seg p
    by (simp add: elf_at_def h headers_at_def small_phdr_def)
qed

lemma elf_machine_program: "program_at elf_machine {} [2064, 2060, 2056, 2052, 2048] 0x80200000 92 0x400004 [small_phdr]"
  unfolding program_at_def
  by (rule small_elf_at) (simp_all add: elf_machine_mem outside_def tables_of_def unit_page_def)

theorem env_create_correct_witness:
  "\<exists>s'. env_create_priority 0x13 0 0x80200000 92 5 elf_machine = Some s' \<and> lst_rep (env_sched_list s') [0] \<and>
    env_status (envs s' 0) = ENV_RUNNABLE \<and> exc_pc (env_tf (envs s' 0)) = 0x400004 \<and> env_pgdir (envs s' 0) = frame 2064 \<and>
    map (user_byte s' 2064) [0x400000, 0x400001, 0x400007, 0x400008, 0x40000F, 0x7FCFD000] = [0xEF, 0xBE, 4, 0, 0, 0] \<and>
    upte s' 2064 0x500000 = 0"
proof -
  have cost: "seg_cost [small_phdr] = 2" by (simp add: seg_cost_def small_phdr_def seg_pages_def seg_size_def max_def)
  obtain s' ys where s': "env_create_priority 0x13 0 0x80200000 92 5 elf_machine = Some s'" "lst_rep (env_sched_list s') [0]"
    "env_status (envs s' 0) = ENV_RUNNABLE" "env_pgdir (envs s' 0) = frame 2064" "exc_pc (env_tf (envs s' 0)) = 0x400004"
    "process elf_machine 0x80200000 [small_phdr] s' 2064"
    using env_create_correct [OF elf_machine_inv(1,2) _ _ elf_machine_inv(4) _ _ _ elf_machine_program, where rs = "[]" and cpsr = "0x13" and junk = 0 and priority = 5]
    by (auto simp: elf_machine_inv(3,5) lst_rep_Nil null_lst_def unit_page_def cost)
  have byte: "\<forall>w. w - 0x400000 < 16 \<longrightarrow>
      user_byte s' 2064 w = (if w - 0x400000 < 8 then kmem elf_machine (0x80200054 + (w - 0x400000)) else 0)"
    using s'(6) by (simp add: process_def small_phdr_def seg_size_def max_def ph_byte_def segment_byte_def)
  have "user_byte s' 2064 0x7FCFD000 = 0"
    using s'(6) by (simp add: process_def same_page_def)
  moreover have "map (user_byte s' 2064) [0x400000, 0x400001, 0x400007, 0x400008, 0x40000F] = [0xEF, 0xBE, 4, 0, 0]"
    by (simp add: byte elf_machine_mem small_elf_def)
  moreover have "upte s' 2064 0x500000 = 0"
    using s'(6) by (simp add: process_def same_page_def covers_def seg_pages_def seg_size_def small_phdr_def max_def)
  ultimately show ?thesis using s'(1-5) by auto
qed

end
