(* ===== verification/Machine.thy ===== *)
theory Machine
  imports Forking Frames
begin

section \<open>The kernel as a whole: an invariant of every reachable state\<close>

text \<open>
  A state of the machine while an environment \<open>c\<close> runs in user mode: the paging invariant for a set
  \<open>D\<close> of directories, one of them the boot directory and one for every environment in use, no two
  environments with the same; the free list \<open>fs\<close> and the scheduling list \<open>ys\<close> of environments,
  the second with exactly the runnable ones; and the scheduler's static pointer on \<open>c\<close>. A step is
  what the running environment can do: change its registers and its memory, fault, make a
  system call, or be interrupted by the timer.
\<close>

subsection \<open>The invariant\<close>

definition in_use :: "kstate \<Rightarrow> u32 \<Rightarrow> bool" where
  "in_use s e \<longleftrightarrow> env_status (envs s e) \<noteq> ENV_FREE"

definition owns :: "kstate \<Rightarrow> u32 \<Rightarrow> u32 \<Rightarrow> bool" where
  "owns s e pd \<longleftrightarrow> env_pgdir (envs s e) = frame pd \<and> env_ttb (envs s e) = page2pa pd"

definition boot_ok :: "kstate \<Rightarrow> u32 set \<Rightarrow> u32 \<Rightarrow> bool" where
  "boot_ok s D b \<longleftrightarrow> b \<in> D \<and> boot_pgdir s = frame b \<and> (\<forall>i. 0x7FD \<le> i \<longrightarrow> i < 0x800 \<longrightarrow> pde s b i = 0)"

definition dirs_ok :: "kstate \<Rightarrow> u32 set \<Rightarrow> u32 \<Rightarrow> bool" where
  "dirs_ok s D b \<longleftrightarrow> (\<forall>e. in_use s e \<longrightarrow> (\<exists>pd\<in>D. pd \<noteq> b \<and> owns s e pd)) \<and>
     (\<forall>e e'. in_use s e \<longrightarrow> in_use s e' \<longrightarrow> env_pgdir (envs s e) = env_pgdir (envs s e') \<longrightarrow> e = e')"

definition waits_ok :: "kstate \<Rightarrow> bool" where
  "waits_ok s \<longleftrightarrow> (\<forall>e. env_ipc_recving (envs s e) \<noteq> 0 \<longrightarrow> env_status (envs s e) = ENV_NOT_RUNNABLE \<and>
     env_ipc_dstva (envs s e) < ULIM \<and> out_ptr (env_ipc_arg_whom (envs s e)) \<and> out_ptr (env_ipc_arg_perm (envs s e)))"

definition lists_ok :: "kstate \<Rightarrow> u32 list \<Rightarrow> u32 list \<Rightarrow> bool" where
  "lists_ok s fs ys \<longleftrightarrow> lst_rep (env_free_list s) fs \<and> (\<forall>e\<in>set fs. \<not> in_use s e) \<and> sched_ok s ys \<and>
     (\<forall>e. env_status (envs s e) = ENV_RUNNABLE \<longrightarrow> e \<in> set ys)"

definition runs :: "kstate \<Rightarrow> u32 \<Rightarrow> bool" where
  "runs s c \<longleftrightarrow> curenv s = Some c \<and> sched_iter s = Some c \<and> mCONTEXT s = env_pgdir (envs s c)"

definition machine_ok :: "kstate \<Rightarrow> u32 set \<Rightarrow> u32 \<Rightarrow> u32 list \<Rightarrow> u32 list \<Rightarrow> u32 list \<Rightarrow> u32 \<Rightarrow> bool" where
  "machine_ok s D b xs fs ys c \<longleftrightarrow> vm_inv s D xs \<and> boot_ok s D b \<and> dirs_ok s D b \<and> waits_ok s \<and>
     lists_ok s fs ys \<and> runs s c \<and> c \<in> set ys"

subsection \<open>The steps\<close>

inductive kstep :: "kstate \<Rightarrow> kstate \<Rightarrow> bool" where
  registers: "kstep s (s\<lparr>exc_tf := tf\<rparr>)"
| store: "ipc_store (mCONTEXT s) va v s = Some s' \<Longrightarrow> out_ptr va \<Longrightarrow> kstep s s'"
| fault: "pageout va s = Some s' \<Longrightarrow> kstep s s'"
| tick: "irq_handler False True s = Some (Resume s') \<Longrightarrow> kstep s s'"
| yield: "sys_yield s = Some (Resume s') \<Longrightarrow> kstep s s'"
| memory: "mem_call s s' \<Longrightarrow> kstep s s'"
| recv: "sys_ipc_recv junk dstva whom perm s = Some (Resume s') \<Longrightarrow> out_ptr whom \<Longrightarrow> out_ptr perm \<Longrightarrow> kstep s s'"
| send: "sys_ipc_can_send envid val srcva perm s = Some (Return r s') \<Longrightarrow> perm < 0x1000 \<Longrightarrow>
    (\<And>p. pp_ref s p \<noteq> 0xFFFF) \<Longrightarrow> kstep s s'"
| fork: "sys_env_alloc cpsr s = Some (Return r s') \<Longrightarrow>
    (\<And>pd p. mCONTEXT s = frame pd \<Longrightarrow> unit_page pd \<Longrightarrow> unat (pp_ref s p) + copies (pte_at s) (all_slots {pd}) p \<le> 0xFFFF) \<Longrightarrow> kstep s s'"
| start: "sys_set_env_status envid ENV_RUNNABLE s = Some (Return r s') \<Longrightarrow>
    (\<And>e. envid2env envid True s = Some (Inr e) \<Longrightarrow> env_ipc_recving (envs s e) = 0) \<Longrightarrow> kstep s s'"
| kill: "sys_env_destroy envid s = Some ctl \<Longrightarrow> ctl = Resume s' \<or> ctl = Return r s' \<and> curenv s' \<noteq> None \<Longrightarrow>
    (\<And>e. envid2env envid True s = Some (Inr e) \<Longrightarrow> env_status (envs s e) = ENV_RUNNABLE) \<Longrightarrow> kstep s s'"

inductive ksteps :: "kstate \<Rightarrow> kstate \<Rightarrow> bool" where
  none: "ksteps s s"
| more: "ksteps s t \<Longrightarrow> kstep t u \<Longrightarrow> ksteps s u"

text \<open>What the parts of the invariant depend on.\<close>

lemma boot_ok_cong:
  "boot_pgdir s' = boot_pgdir s \<Longrightarrow> (\<And>i. i < 0x800 \<Longrightarrow> pde s' b i = pde s b i) \<Longrightarrow> boot_ok s' D b = boot_ok s D b"
  by (auto simp: boot_ok_def)

lemma dirs_ok_cong:
  assumes "\<And>e. in_use s' e = in_use s e" "\<And>e. env_pgdir (envs s' e) = env_pgdir (envs s e)"
    "\<And>e. env_ttb (envs s' e) = env_ttb (envs s e)"
  shows "dirs_ok s' D b = dirs_ok s D b"
  unfolding dirs_ok_def owns_def assms ..

lemma waits_ok_cong:
  assumes "\<And>e. env_ipc_recving (envs s' e) = env_ipc_recving (envs s e)" "\<And>e. env_status (envs s' e) = env_status (envs s e)"
    "\<And>e. env_ipc_dstva (envs s' e) = env_ipc_dstva (envs s e)"
    "\<And>e. env_ipc_arg_whom (envs s' e) = env_ipc_arg_whom (envs s e)"
    "\<And>e. env_ipc_arg_perm (envs s' e) = env_ipc_arg_perm (envs s e)"
  shows "waits_ok s' = waits_ok s"
  unfolding waits_ok_def assms ..

subsection \<open>Consequences of the invariant\<close>

lemma machine_okD:
  assumes "machine_ok s D b xs fs ys c"
  shows "vm_inv s D xs" "boot_ok s D b" "dirs_ok s D b" "waits_ok s" "lists_ok s fs ys" "runs s c" "c \<in> set ys"
  using assms by (simp_all add: machine_ok_def)

lemma machine_spaces: "machine_ok s D b xs fs ys c \<Longrightarrow> spaces s D xs"
  by (auto simp: machine_ok_def spaces_def dirs_ok_def in_use_def owns_def)

lemma runnable_in_use: "env_status (envs s e) = ENV_RUNNABLE \<Longrightarrow> in_use s e"
  "env_status (envs s e) = ENV_NOT_RUNNABLE \<Longrightarrow> in_use s e"
  by (simp_all add: in_use_def env_status_defs)

lemma listed_runnable: "lists_ok s fs ys \<Longrightarrow> e \<in> set ys \<longleftrightarrow> env_status (envs s e) = ENV_RUNNABLE"
  by (auto simp: lists_ok_def sched_ok_def)

lemma machine_dir:
  assumes "machine_ok s D b xs fs ys c" "in_use s e"
  obtains pd where "pd \<in> D" "pd \<noteq> b" "env_pgdir (envs s e) = frame pd" "env_ttb (envs s e) = page2pa pd"
  using assms by (auto simp: machine_ok_def dirs_ok_def owns_def)

lemma machine_current:
  assumes "machine_ok s D b xs fs ys c"
  obtains pd where "pd \<in> D" "pd \<noteq> b" "env_pgdir (envs s c) = frame pd" "mCONTEXT s = frame pd" "in_use s c"
    "env_status (envs s c) = ENV_RUNNABLE" "curenv s = Some c"
proof -
  note m = machine_okD [OF assms]
  have "env_status (envs s c) = ENV_RUNNABLE" using listed_runnable [OF m(5)] m(7) by simp
  then show thesis
    using that machine_dir [OF assms runnable_in_use(1)] m(6) runnable_in_use(1) by (metis runs_def)
qed

lemma envid2env_in_use: "envid2env envid c s = Some (Inr e) \<Longrightarrow> in_use s e"
  by (auto simp: envid2env_def in_use_def split: if_splits Option.bind_splits)

subsection \<open>Steps that change the tables only\<close>

lemma machine_vm:
  assumes ok: "machine_ok s D b xs fs ys c" and only: "vm_only s s'" and inv: "vm_inv s' D xs'"
    and boot: "\<And>i. i < 0x800 \<Longrightarrow> pde s' b i = pde s b i"
  shows "machine_ok s' D b xs' fs ys c"
proof -
  note m = machine_okD [OF ok] and o = vm_onlyD [OF only] and a = alloc_kept_vm_only [OF only, unfolded alloc_kept_def]
  have "boot_ok s' D b" using m(2) a boot boot_ok_cong by blast
  moreover have "dirs_ok s' D b" using m(3) dirs_ok_cong [of s' s] by (simp add: in_use_def o)
  moreover have "waits_ok s'" using m(4) waits_ok_cong [of s' s] by (simp add: o)
  moreover have "lists_ok s' fs ys" using m(5) a by (auto simp: lists_ok_def in_use_def sched_ok_def o split: option.splits)
  moreover have "runs s' c" using m(6) a by (simp add: runs_def o)
  ultimately show ?thesis using inv m(7) by (simp add: machine_ok_def)
qed

lemma outside_dir:
  assumes inv: "vm_inv s D xs" and d: "d \<in> D" "d \<noteq> pd"
  shows "outside s D xs pd d" "pd' \<in> D \<Longrightarrow> va < ULIM \<Longrightarrow> valid_pte (upte s pd' va) \<Longrightarrow> d \<noteq> pte_page (upte s pd' va)"
proof -
  note wf = vm_invD(2) [OF inv]
  have live: "live_page (npage s) (pp_ref s) d" by (rule vm_wf_dir [OF wf d(1)])
  then show "outside s D xs pd d"
    using d vm_wf_tables [OF wf, of d] live_not_free [OF inv] by (auto simp: outside_def live_page_def)
  show "d \<noteq> pte_page (upte s pd' va)" if "pd' \<in> D" "va < ULIM" "valid_pte (upte s pd' va)"
    using vm_wf_mapped(2) [OF wf slot_of_all [OF that(1,2)]] that(3) d(1) by (auto simp: upte_def)
qed

lemma user_pde: "i < 0x800 \<Longrightarrow> i < (0x1000 :: u32)"
  by (erule order.strict_trans) simp

text \<open>The page functions on the directory of an environment leave the boot directory alone.\<close>

lemma page_insert_dir:
  assumes inv: "vm_inv s D xs" and d: "d \<in> D" "d \<noteq> pd" and pd: "pd \<in> D" "va < ULIM"
    and run: "page_insert (frame pd) p va perm s = Some (r, s')" and i: "i < 0x800"
  shows "pde s' d i = pde s d i"
  using kept_page_insert [OF inv pd outside_dir(1) [OF inv d] outside_dir(2) [OF inv d pd] run] kept_pde user_pde [OF i] by blast

lemma page_alloc_dir:
  assumes inv: "vm_inv s D xs" and d: "d \<in> D" and run: "page_alloc s = Some (r, s')" and i: "i < 0x800"
  shows "pde s' d i = pde s d i"
proof -
  have "live_page (npage s) (pp_ref s) d" by (rule vm_wf_dir [OF vm_invD(2) [OF inv] d])
  then show ?thesis
    using kept_page_alloc [OF vm_invD(1) [OF inv] _ live_not_free [OF inv] run] kept_pde [OF _ user_pde [OF i]]
    by (simp add: live_page_def)
qed

lemma page_remove_dir:
  assumes inv: "vm_inv s D xs" and d: "d \<in> D" "d \<noteq> pd" and pd: "pd \<in> D" "va < ULIM"
    and run: "page_remove (frame pd) va s = Some s'" and i: "i < 0x800"
  shows "pde s' d i = pde s d i"
  using kept_page_remove [OF inv pd outside_dir(1) [OF inv d] run] kept_pde user_pde [OF i] by blast

text \<open>\<open>page_alloc\<close> keeps the invariant whatever it returns.\<close>

lemma page_alloc_any:
  assumes inv: "vm_inv s D xs" and run: "page_alloc s = Some (r, s1)"
  obtains "xs = []" "r = Inl E_NO_MEM" "s1 = s"
  | p ps where "xs = p # ps" "r = Inr p" "vm_inv s1 D ps" "vm_only s s1" "unit_page p" "p < npage s1" "pp_ref s1 p = 0"
      "p \<notin> D \<union> tables_of (pde s1) D \<union> set ps"
proof (cases xs)
  case Nil
  then show thesis using that(1) run page_alloc_empty [of s] vm_invD(1) [OF inv] by simp
next
  case (Cons p ps)
  obtain t where t: "page_alloc s = Some (Inr p, t)" "vm_inv t D ps" "vm_only s t" "unit_page p" "p < npage t" "pp_ref t p = 0"
    "p \<notin> D \<union> tables_of (pde t) D \<union> set ps"
    using page_alloc_vmE [OF inv [unfolded Cons]] by metis
  then show thesis using that(2) [OF Cons] run by simp
qed

subsection \<open>Memory calls, stores and faults\<close>

text \<open>Which page functions a call runs.\<close>

lemma sys_mem_alloc_run:
  assumes "sys_mem_alloc envid va perm s = Some (Return r s')"
  obtains "s' = s" | e x s1 where "envid2env envid False s = Some (Inr e)" "\<not> UTOP \<le> va" "page_alloc s = Some (Inl x, s1)" "s' = s1"
  | e p y s1 where "envid2env envid False s = Some (Inr e)" "\<not> UTOP \<le> va" "page_alloc s = Some (Inr p, s1)"
      "page_insert (env_pgdir (envs s1 e)) p va perm s1 = Some (y, s')"
  using assms by (auto simp: sys_mem_alloc_def split: if_splits Option.bind_splits sum.splits)

lemma sys_mem_map_run:
  assumes "sys_mem_map srcid srcva dstid dstva perm s = Some (Return r s')"
  obtains "s' = s" | d p y where "envid2env dstid False s = Some (Inr d)" "\<not> UTOP \<le> dstva"
      "page_insert (env_pgdir (envs s d)) p (ROUNDDOWN dstva BY2PG) perm s = Some (y, s')"
  using assms by (auto simp: sys_mem_map_def Let_def split: if_splits Option.bind_splits sum.splits option.splits)

lemma sys_mem_unmap_run:
  assumes "sys_mem_unmap envid va s = Some (Return r s')"
  obtains "s' = s" | e where "envid2env envid True s = Some (Inr e)" "\<not> UTOP \<le> va"
      "page_remove (env_pgdir (envs s e)) va s = Some s'"
  using assms by (auto simp: sys_mem_unmap_def split: if_splits Option.bind_splits sum.splits)

lemma machine_insert:
  assumes ok: "machine_ok s D b xs fs ys c" and e: "in_use s e" and va: "va < ULIM"
    and t: "vm_inv t D zs" "vm_only s t" "\<And>i. i < 0x800 \<Longrightarrow> pde t b i = pde s b i"
    and run: "page_insert (env_pgdir (envs t e)) p va perm t = Some (r, s')"
  shows "vm_only s s'" "i < 0x800 \<Longrightarrow> pde s' b i = pde s b i"
proof -
  obtain pd where pd: "pd \<in> D" "pd \<noteq> b" "env_pgdir (envs s e) = frame pd" by (rule machine_dir [OF ok e])
  have bD: "b \<in> D" using machine_okD(2) [OF ok] by (simp add: boot_ok_def)
  have run': "page_insert (frame pd) p va perm t = Some (r, s')" using run pd(3) vm_onlyD(1) [OF t(2)] by simp
  show "vm_only s s'" by (rule vm_only_trans [OF t(2) vm_only_page_insert [OF run]])
  show "i < 0x800 \<Longrightarrow> pde s' b i = pde s b i"
    using page_insert_dir [OF t(1) bD pd(2) [symmetric] pd(1) va run'] t(3) by simp
qed

lemma machine_mem_call:
  assumes ok: "machine_ok s D b xs fs ys c" and call: "mem_call s s'"
  shows "\<exists>xs'. machine_ok s' D b xs' fs ys c"
proof -
  note inv = machine_okD(1) [OF ok] and sp = machine_spaces [OF ok]
  have bD: "b \<in> D" using machine_okD(2) [OF ok] by (simp add: boot_ok_def)
  have "vm_only s s' \<and> (\<forall>i<0x800. pde s' b i = pde s b i)"
    using call
  proof cases
    case (alloc envid va perm r)
    from alloc(1) show ?thesis
    proof (cases rule: sys_mem_alloc_run)
      case (2 e x s1)
      then show ?thesis by (cases rule: page_alloc_any [OF inv 2(3)]) simp_all
    next
      case (3 e p y s1)
      from inv 3(3) show ?thesis
      proof (cases rule: page_alloc_any)
        case (2 q ps)
        then show ?thesis
          using machine_insert [OF ok envid2env_in_use [OF 3(1)] below_UTOP_ULIM [OF 3(2)] 2(3,4) page_alloc_dir [OF inv bD 3(3)] 3(4)]
          by simp
      qed simp
    qed simp
  next
    case (map srcid srcva dstid dstva perm r)
    from map(1) show ?thesis
    proof (cases rule: sys_mem_map_run)
      case (2 d p y)
      then show ?thesis
        using machine_insert [OF ok envid2env_in_use [OF 2(1)] round_below [OF below_UTOP_ULIM [OF 2(2)]] inv vm_only_refl _ 2(3)]
        by simp
    qed simp
  next
    case (unmap envid va r)
    from unmap show ?thesis
    proof (cases rule: sys_mem_unmap_run)
      case (2 e)
      obtain pd where pd: "pd \<in> D" "pd \<noteq> b" "env_pgdir (envs s e) = frame pd"
        by (rule machine_dir [OF ok envid2env_in_use [OF 2(1)]])
      then show ?thesis
        using 2(3) page_remove_dir [OF inv bD pd(2) [symmetric] pd(1) below_UTOP_ULIM [OF 2(2)]] vm_only_page_remove [OF 2(3)]
        by simp
    qed simp
  qed
  moreover obtain xs' where "spaces s' D xs'" using mem_call_spaces [OF sp call] by blast
  ultimately show ?thesis using machine_vm [OF ok, of s' xs'] by (auto simp: spaces_def)
qed

lemma stored_dir:
  assumes inv: "vm_inv s D xs" and pd: "pd \<in> D" and b: "b \<in> D" and va: "out_ptr va" and i: "i < 0x800"
  shows "load32 (stored s pd va v) (frame b + 4 * i) = pde s b i"
proof (cases "va \<noteq> 0 \<and> valid_pte (upte s pd va)")
  case True
  then have v: "va < ULIM" "va AND 3 = 0" using va by (auto simp: out_ptr_def)
  have ub: "unit_page b" using vm_wf_dir [OF vm_invD(2) [OF inv] b] by (simp add: live_page_def)
  let ?p = "pte_page (upte s pd va)" and ?s = "s\<lparr>kmem := stored s pd va v\<rparr>"
  have "live_page (npage s) (pp_ref s) ?p" "?p \<notin> D"
    using vm_wf_mapped [OF vm_invD(2) [OF inv] slot_of_all [OF pd v(1)]] True by (auto simp: upte_def)
  moreover obtain j where j: "j < 0x400" "PG_ADDR_OFFSET va = 4 * j" using offset_entry(1) [OF v(2)] by blast
  moreover have "j < 0x1000" using j(1) by (rule order.strict_trans) simp
  ultimately have "kept s ?s b"
    using ub b True by (intro kept_store [of ?p b j]) (auto simp: stored_def user_addr_def live_page_def)
  from kept_pde [OF this user_pde [OF i]] show ?thesis by (simp add: pde_def)
next
  case False
  then have "stored s pd va v = kmem s" by (auto simp: stored_def)
  then show ?thesis by (simp add: pde_def)
qed

lemma machine_store:
  assumes ok: "machine_ok s D b xs fs ys c" and run: "ipc_store (mCONTEXT s) va v s = Some s'" and va: "out_ptr va"
  shows "machine_ok s' D b xs fs ys c"
proof -
  note inv = machine_okD(1) [OF ok]
  obtain pd where pd: "pd \<in> D" "mCONTEXT s = frame pd" by (rule machine_current [OF ok])
  have s': "s' = s\<lparr>kmem := stored s pd va v\<rparr>" using run pd(2) ipc_store_ok(1) [OF inv pd(1) va, of v] by simp
  have b: "b \<in> D" using machine_okD(2) [OF ok] by (simp add: boot_ok_def)
  have "pde s' b i = pde s b i" if "i < 0x800" for i
    using stored_dir [OF inv pd(1) b va that, of v] by (simp add: pde_def s')
  moreover have "vm_inv s' D xs" unfolding s' by (rule ipc_store_ok(2) [OF inv pd(1) va])
  ultimately show ?thesis using machine_vm [OF ok, of s' xs] by (simp add: s')
qed

lemma machine_fault:
  assumes ok: "machine_ok s D b xs fs ys c" and run: "pageout va s = Some s'"
  shows "\<exists>xs'. machine_ok s' D b xs' fs ys c"
proof -
  note inv = machine_okD(1) [OF ok]
  obtain pd where pd: "pd \<in> D" "env_pgdir (envs s c) = frame pd" "mCONTEXT s = frame pd" "in_use s c"
    by (rule machine_current [OF ok])
  have bD: "b \<in> D" using machine_okD(2) [OF ok] by (simp add: boot_ok_def)
  obtain p s1 y where s1: "page_alloc s = Some (Inr p, s1)"
    "page_insert (mCONTEXT s1) p va (PTE_V OR PTE_R) (set_ref p (pp_ref s1 p + 1) s1) = Some (y, s')" and va: "va < ULIM"
    using run by (auto simp: pageout_def Let_def split: if_splits Option.bind_splits sum.splits)
  from inv s1(1) show ?thesis
  proof (cases rule: page_alloc_any)
    case (2 q ps)
    let ?t = "set_ref p 1 s1"
    have a: "vm_inv s1 D ps" "vm_only s s1" "unit_page p" "p < npage s1" "pp_ref s1 p = 0"
      "p \<notin> D \<union> tables_of (pde s1) D \<union> set ps"
      using 2 by auto
    have t: "vm_inv ?t D ps" by (rule vm_inv_set_ref [OF a(1)]) (use a in auto)
    have k: "kmem ?t = kmem s1" by simp
    have p: "p < npage ?t" "p \<notin> D \<union> tables_of (pde ?t) D \<union> set ps" "pp_ref ?t p \<noteq> 0xFFFF"
      using a view_kmem(1) [OF k] by auto
    have only: "vm_only s ?t" by (rule vm_only_trans [OF a(2)]) simp
    have ins: "page_insert (frame pd) p va (PTE_V OR PTE_R) ?t = Some (y, s')"
      using s1(2) a(5) pd(3) vm_onlyD(3) [OF a(2)] by simp
    obtain r' u zs where "page_insert (frame pd) p va (PTE_V OR PTE_R) ?t = Some (r', u)" "vm_inv u D zs"
      by (rule page_insert_view [OF t pd(1) va a(3) p, of "PTE_V OR PTE_R"]) simp_all
    then have zs: "vm_inv s' D zs" using ins by simp
    have dir: "pde ?t b i = pde s b i" if "i < 0x800" for i
      using page_alloc_dir [OF inv bD s1(1) that] view_kmem(1) [OF k] by simp
    have "page_insert (env_pgdir (envs ?t c)) p va (PTE_V OR PTE_R) ?t = Some (y, s')"
      using ins pd(2) vm_onlyD(1) [OF a(2)] by simp
    from machine_insert [OF ok pd(4) va t only dir this] show ?thesis
      using machine_vm [OF ok _ zs] by blast
  qed (use s1 in auto)
qed

subsection \<open>Giving up the processor\<close>

lemma machine_registers:
  assumes ok: "machine_ok s D b xs fs ys c"
  shows "machine_ok (s\<lparr>exc_tf := tf\<rparr>) D b xs fs ys c"
proof -
  let ?s = "s\<lparr>exc_tf := tf\<rparr>"
  have "vm_inv ?s D xs = vm_inv s D xs" by (rule vm_inv_cong(1)) simp_all
  moreover have "pde ?s = pde s" by (rule view_kmem(1)) simp
  then have "boot_ok ?s D b = boot_ok s D b" by (intro boot_ok_cong) simp_all
  moreover have "dirs_ok ?s D b = dirs_ok s D b" "waits_ok ?s = waits_ok s"
    by (intro dirs_ok_cong waits_ok_cong; simp add: in_use_def)+
  moreover have "lists_ok ?s fs ys = lists_ok s fs ys" "runs ?s c = runs s c"
    by (simp_all add: lists_ok_def in_use_def sched_ok_def runs_def cong: option.case_cong)
  ultimately show ?thesis using ok by (simp only: machine_ok_def)
qed

text \<open>The invariant after a switch: every field that it reads is known.\<close>

lemma machine_switch:
  assumes inv: "vm_inv t D xs" and boot: "boot_ok t D b" and d: "dirs_ok t D b" and w: "waits_ok t"
    and fl: "lst_rep (env_free_list t) fs" "\<forall>e\<in>set fs. \<not> in_use t e"
    and run: "\<And>e. env_status (envs t e) = ENV_RUNNABLE \<Longrightarrow> e \<in> set ys"
    and sw: "switched t s'" and ok: "sched_ok s' ys" and y: "curenv s' = Some y" "y \<in> set ys"
  shows "machine_ok s' D b xs fs ys y"
proof -
  note sw = sw [unfolded switched_def]
  have f: "env_status (envs s' e) = env_status (envs t e)" "env_pgdir (envs s' e) = env_pgdir (envs t e)"
    "env_ttb (envs s' e) = env_ttb (envs t e)" "env_ipc_recving (envs s' e) = env_ipc_recving (envs t e)"
    "env_ipc_dstva (envs s' e) = env_ipc_dstva (envs t e)" "env_ipc_arg_whom (envs s' e) = env_ipc_arg_whom (envs t e)"
    "env_ipc_arg_perm (envs s' e) = env_ipc_arg_perm (envs t e)" for e
    using sw by (auto simp: saved_def split: option.splits)
  have "vm_inv s' D xs = vm_inv t D xs" using sw by (intro vm_inv_cong(1)) simp_all
  moreover have "pde s' = pde t" using sw by (intro view_kmem(1)) simp
  then have "boot_ok s' D b = boot_ok t D b" using sw by (intro boot_ok_cong) simp_all
  moreover have "dirs_ok s' D b = dirs_ok t D b" "waits_ok s' = waits_ok t"
    by (intro dirs_ok_cong waits_ok_cong; simp add: in_use_def f)+
  moreover have "lists_ok s' fs ys" unfolding lists_ok_def in_use_def f using fl run ok sw by (simp add: in_use_def)
  moreover have "runs s' y" unfolding runs_def f using sw y(1) by auto
  ultimately show ?thesis
    using inv boot d w y(2) by (simp add: machine_ok_def)
qed

lemma machine_yield:
  assumes ok: "machine_ok s D b xs fs ys c" and run: "sched_yield s = Some (Resume s')"
  shows "\<exists>y. machine_ok s' D b xs fs ys y"
proof -
  note m = machine_okD [OF ok]
  have so: "sched_ok s ys" and ne: "ys \<noteq> []" using m(5,7) by (auto simp: lists_ok_def)
  obtain t y where t: "sched_yield s = Some (Resume t)" "curenv t = Some y" "y \<in> set ys" "sched_ok t ys"
    by (rule sched_yieldE [OF so ne]) blast
  have "machine_ok s' D b xs fs ys y"
    by (rule machine_switch [OF m(1-4) _ _ _ sched_yield_switched [OF run]])
      (use m(5) t run in \<open>auto simp: lists_ok_def\<close>)
  then show ?thesis by blast
qed

lemma sched_yield_empty: "lst_rep (env_sched_list s) [] \<Longrightarrow> sched_yield s = Some (Return () (load_trapframe_kstack s))"
  by (subst sched_yield.simps) (simp add: LIST_EMPTY_def lst_rep_Nil)

lemma machine_recv:
  assumes ok: "machine_ok s D b xs fs ys c" and run: "sys_ipc_recv junk dstva whom perm s = Some (Resume s')"
    and ptrs: "out_ptr whom" "out_ptr perm"
  shows "\<exists>y. machine_ok s' D b xs fs (remove1 c ys) y"
proof -
  note m = machine_okD [OF ok]
  have c: "curenv s = Some c" "c \<in> set ys" "env_status (envs s c) = ENV_RUNNABLE"
    using m(6,7) listed_runnable [OF m(5)] by (simp_all add: runs_def)
  have so: "sched_ok s ys" and rep: "lst_rep (env_sched_list s) ys" using m(5) by (simp_all add: lists_ok_def sched_ok_def)
  have va: "\<not> UTOP \<le> dstva" using run by (auto simp: sys_ipc_recv_def)
  have others: "remove1 c ys \<noteq> []"
  proof
    assume nil: "remove1 c ys = []"
    obtain sl where sl: "LIST_REMOVE c (env_sched_list s) = Some sl" "lst_rep sl (remove1 c ys)"
      using ll.unlink_mem [OF rep c(2)] by blast
    show False
      using run va c(1,3) sl(1) sched_yield_empty sl(2) nil
      by (simp add: sys_ipc_recv_def my_set_env_status_def Let_def env_status_defs sys_yield_def)
  qed
  obtain u y where u: "sys_ipc_recv junk dstva whom perm s = Some (Resume u)" "curenv u = Some y"
    "y \<in> set (remove1 c ys)" "sched_ok u (remove1 c ys)"
    "envs u = (envs s)(c := (waiting dstva whom perm (envs s c))\<lparr>env_tf := exc_tf s\<rparr>)"
    "kmem u = kmem s" "npage u = npage s" "pp_ref u = pp_ref s" "page_free_list u = page_free_list s"
    "boot_pgdir u = boot_pgdir s" "env_free_list u = env_free_list s" "sched_iter u = Some y"
    "mCONTEXT u = env_pgdir (envs s y)"
    using sys_ipc_recv_ok [OF so c(1,2) va others, of junk whom perm] by metis
  let ?t = "s\<lparr>envs := (envs s)(c := waiting dstva whom perm (envs s c))\<rparr>"
  have sw: "switched ?t u"
    using u by (simp add: switched_def saved_def c(1) waiting_def)
  have use: "in_use ?t e = in_use s e" for e
    using c(3) by (simp add: in_use_def waiting_def env_status_defs)
  have "vm_inv ?t D xs" using m(1) vm_inv_cong(1) [of ?t s D xs] by simp
  moreover have "boot_ok ?t D b" using m(2) boot_ok_cong [of ?t s b D] view_kmem(1) [of ?t s] by simp
  moreover have "dirs_ok ?t D b"
    using m(3) dirs_ok_cong [of ?t s D b] use by (simp add: waiting_def)
  moreover have "waits_ok ?t"
    using m(4) ptrs below_UTOP_ULIM [OF va] by (simp add: waits_ok_def waiting_def)
  moreover have "e \<in> set (remove1 c ys)" if "env_status (envs ?t e) = ENV_RUNNABLE" for e
    using that m(5) by (auto simp: lists_ok_def waiting_def env_status_defs split: if_splits)
  moreover have "lst_rep (env_free_list ?t) fs" "\<forall>e\<in>set fs. \<not> in_use ?t e"
    using m(5) use by (simp_all add: lists_ok_def)
  ultimately have "machine_ok u D b xs fs (remove1 c ys) y"
    using machine_switch [OF _ _ _ _ _ _ _ sw u(4,2,3)] by blast
  then show ?thesis using run u(1) by auto
qed

subsection \<open>Messages, creation and destruction\<close>

lemma sys_ipc_can_send_run:
  assumes "sys_ipc_can_send envid val srcva perm s = Some (Return r s')"
  shows "s' = s \<or> \<not> UTOP \<le> srcva \<and> (\<exists>e. envid2env envid False s = Some (Inr e) \<and> env_ipc_recving (envs s e) \<noteq> 0)"
  using assms by (auto simp: sys_ipc_can_send_def split: if_splits Option.bind_splits sum.splits)

lemma ipc_finish_kept:
  "boot_pgdir (ipc_finish c e pd val perm s) = boot_pgdir s" "mCONTEXT (ipc_finish c e pd val perm s) = mCONTEXT s"
  "sched_iter (ipc_finish c e pd val perm s) = sched_iter s" "sched_ts (ipc_finish c e pd val perm s) = sched_ts s"
  "env_free_list (ipc_finish c e pd val perm s) = env_free_list s"
  by (simp_all add: ipc_finish_def Let_def)

lemma ipc_finish_dir:
  assumes inv: "vm_inv s D xs" and pd: "pd \<in> D" and b: "b \<in> D" and i: "i < 0x800"
    and ptrs: "out_ptr (env_ipc_arg_whom (envs s e))" "out_ptr (env_ipc_arg_perm (envs s e))"
  shows "pde (ipc_finish c e pd val perm s) b i = pde s b i"
proof -
  let ?s4 = "s\<lparr>envs := (envs s)(e := (delivered (env_id (envs s c)) val perm (envs s e))
    \<lparr>env_status := env_status (envs s e)\<rparr>)\<rparr>"
  let ?s5 = "?s4\<lparr>kmem := stored ?s4 pd (env_ipc_arg_whom (envs s e)) (env_id (envs s c))\<rparr>"
  have i4: "vm_inv ?s4 D xs" using inv vm_inv_cong(1) [of ?s4 s D xs] by simp
  have i5: "vm_inv ?s5 D xs" by (rule ipc_store_ok(2) [OF i4 pd ptrs(1)])
  have "pde (ipc_finish c e pd val perm s) b i =
      load32 (stored ?s5 pd (env_ipc_arg_perm (envs s e)) (perm OR PTE_V OR PTE_R)) (frame b + 4 * i)"
    by (simp add: pde_def ipc_finish_def Let_def)
  also have "\<dots> = pde ?s5 b i" by (rule stored_dir [OF i5 pd b ptrs(2) i])
  also have "\<dots> = pde ?s4 b i" using stored_dir [OF i4 pd b ptrs(1) i, of "env_id (envs s c)"] by (simp add: pde_def)
  finally show ?thesis by (simp add: pde_def)
qed

lemma machine_send:
  assumes ok: "machine_ok s D b xs fs ys c" and run: "sys_ipc_can_send envid val srcva perm s = Some (Return r s')"
    and perm: "perm < 0x1000" and refs: "\<And>p. pp_ref s p \<noteq> 0xFFFF"
  shows "\<exists>xs' ys'. machine_ok s' D b xs' fs ys' c"
proof (cases "s' = s")
  case True
  then show ?thesis using ok by blast
next
  case False
  note m = machine_okD [OF ok] and sp = machine_spaces [OF ok]
  obtain e where va: "\<not> UTOP \<le> srcva" and e: "envid2env envid False s = Some (Inr e)" "env_ipc_recving (envs s e) \<noteq> 0"
    using sys_ipc_can_send_run [OF run] False by blast
  obtain cpd where c: "cpd \<in> D" "env_pgdir (envs s c) = frame cpd" "curenv s = Some c" "env_status (envs s c) = ENV_RUNNABLE"
    by (rule machine_current [OF ok])
  have w: "env_status (envs s e) = ENV_NOT_RUNNABLE" "env_ipc_dstva (envs s e) < ULIM"
    "out_ptr (env_ipc_arg_whom (envs s e))" "out_ptr (env_ipc_arg_perm (envs s e))"
    using m(4) e(2) by (simp_all add: waits_ok_def)
  obtain pd where pd: "pd \<in> D" "pd \<noteq> b" "env_pgdir (envs s e) = frame pd" "env_ttb (envs s e) = page2pa pd"
    by (rule machine_dir [OF ok runnable_in_use(2) [OF w(1)]])
  have b: "b \<in> D" using m(2) by (simp add: boot_ok_def)
  obtain x s1 xs1 where s1: "ipc_send_page c e srcva perm s = Some (x, s1)" "spaces s1 D xs1" "vm_only s s1"
    using ipc_send_page_ok [OF sp c(2,1) below_UTOP_ULIM [OF va] pd(3,1) w(2) perm refs] by blast
  have inv1: "vm_inv s1 D xs1" using s1(2) by (simp add: spaces_def)
  have dir: "pde s1 b i = pde s b i" if "i < 0x800" for i
  proof -
    have "s1 = s \<or> (\<exists>p y. page_insert (frame pd) p (env_ipc_dstva (envs s e)) perm s = Some (y, s1))"
      using s1(1) pd(3) by (auto simp: ipc_send_page_def split: if_splits Option.bind_splits option.splits)
    then show ?thesis using page_insert_dir [OF m(1) b pd(2) [symmetric] pd(1) w(2) _ that] by auto
  qed
  have ok1: "machine_ok s1 D b xs1 fs ys c" by (rule machine_vm [OF ok s1(3) inv1 dir])
  show ?thesis
  proof (cases x)
    case (Inl v)
    then have "s' = s1" using run va e c(3) s1(1) by (simp add: sys_ipc_can_send_def)
    then show ?thesis using ok1 by blast
  next
    case (Inr u)
    let ?t = "ipc_finish c e pd val perm s1"
    note o = vm_onlyD [OF s1(3)] and m1 = machine_okD [OF ok1]
    have "env_status (envs s e) \<noteq> ENV_RUNNABLE" using w(1) by (simp add: env_status_defs)
    then have s': "s' = ?t"
      using run sys_ipc_can_send_eq [OF va e(1) c(3) e(2) _ _ s1(3) inv1 pd(3,1) w(3,4)] s1(1) Inr by simp
    have ptrs: "out_ptr (env_ipc_arg_whom (envs s1 e))" "out_ptr (env_ipc_arg_perm (envs s1 e))" using w(3,4) by (simp_all add: o)
    note fin = ipc_finish_ok [OF inv1 pd(1) ptrs, of c val perm]
    have st: "env_status (envs ?t i) = (if i = e then ENV_RUNNABLE else env_status (envs s1 i))"
      "env_pgdir (envs ?t i) = env_pgdir (envs s1 i)" "env_ttb (envs ?t i) = env_ttb (envs s1 i)" for i
      by (simp_all add: fin(3) delivered_def)
    have use: "in_use ?t i = in_use s1 i" for i
      using w(1) by (simp add: in_use_def st o env_status_defs)
    have new: "e \<notin> set ys" using listed_runnable [OF m(5), of e] w(1) by (simp add: env_status_defs)
    have "boot_ok ?t D b"
      using m1(2) boot_ok_cong [of ?t s1 b D] ipc_finish_dir [OF inv1 pd(1) b _ ptrs] ipc_finish_kept(1) by blast
    moreover have "dirs_ok ?t D b" using m1(3) dirs_ok_cong [of ?t s1 D b] use st(2,3) by blast
    moreover have "waits_ok ?t" using m1(4) by (simp add: waits_ok_def fin(3) delivered_def)
    moreover have "lists_ok ?t fs (e # ys)"
    proof -
      have "lst_rep (env_sched_list ?t) (e # ys)"
        using ll.rep_push [OF _ new] m1(5) by (simp add: fin(4) lists_ok_def sched_ok_def)
      then show ?thesis
        using m1(5) use by (auto simp: lists_ok_def sched_ok_def st(1) ipc_finish_kept split: option.splits)
    qed
    moreover have "runs ?t c" using m1(6) by (simp add: runs_def fin(5) ipc_finish_kept st(2))
    ultimately have "machine_ok ?t D b xs1 fs (e # ys) c" using fin(1) m(7) by (simp add: machine_ok_def)
    then show ?thesis using s' by blast
  qed
qed

lemma sys_env_alloc_none:
  assumes c: "curenv s = Some c" and al: "alloc_inv s xs"
  shows "lst_rep (env_free_list s) [] \<Longrightarrow> sys_env_alloc cpsr s = Some (Return (Inl E_NO_FREE_ENV) s)"
    and "lst_rep (env_free_list s) (e # es) \<Longrightarrow> xs = [] \<Longrightarrow> sys_env_alloc cpsr s = None"
  using c al ll.first_Cons [of "env_free_list s" e es] page_alloc_empty [of s]
  by (auto simp: sys_env_alloc_def env_alloc_def env_setup_vm_def LIST_FIRST_def lst_rep_Nil)

lemma frame_of_dir: "unit_page p \<Longrightarrow> unit_page q \<Longrightarrow> frame p = frame q \<longleftrightarrow> p = q"
  by (simp add: frame_eq_iff unit_page_def)

lemma machine_fork:
  assumes ok: "machine_ok s D b xs fs ys c" and run: "sys_env_alloc cpsr s = Some (Return r s')"
    and refs: "\<And>pd p. mCONTEXT s = frame pd \<Longrightarrow> unit_page pd \<Longrightarrow> unat (pp_ref s p) + copies (pte_at s) (all_slots {pd}) p \<le> 0xFFFF"
  shows "\<exists>D' xs' fs'. machine_ok s' D' b xs' fs' ys c"
proof (cases fs)
  case Nil
  note m = machine_okD [OF ok]
  have "s' = s" using run sys_env_alloc_none(1) [OF _ vm_invD(1) [OF m(1)]] m(5,6) Nil by (simp add: lists_ok_def runs_def)
  then show ?thesis using ok by blast
next
  case fs: (Cons e es)
  note m = machine_okD [OF ok] and sp = machine_spaces [OF ok]
  obtain spd where c: "spd \<in> D" "env_pgdir (envs s c) = frame spd" "mCONTEXT s = frame spd" "in_use s c"
    "env_status (envs s c) = ENV_RUNNABLE" "curenv s = Some c"
    by (rule machine_current [OF ok])
  have fl: "lst_rep (env_free_list s) (e # es)" "\<not> in_use s e" "\<forall>i\<in>set es. \<not> in_use s i"
    using m(5) fs by (simp_all add: lists_ok_def)
  obtain p ps where xs: "xs = p # ps"
    using sys_env_alloc_none(2) [OF c(6) vm_invD(1) [OF m(1)] fl(1)] run by (cases xs) auto
  have b: "b \<in> D" "boot_pgdir s = frame b" "\<forall>i. 0x7FD \<le> i \<longrightarrow> i < 0x800 \<longrightarrow> pde s b i = 0"
    using m(2) by (simp_all add: boot_ok_def)
  have units: "unit_page d \<and> d \<noteq> p" if "d \<in> D" for d
  proof -
    have l: "live_page (npage s) (pp_ref s) d" by (rule vm_wf_dir [OF vm_invD(2) [OF m(1)] that])
    then show ?thesis using live_not_free [OF m(1) l] xs by (auto simp: live_page_def)
  qed
  have up: "unit_page p" using alloc_inv_unit [OF vm_invD(1) [OF m(1)], of p] xs by simp
  have ce: "c \<noteq> e" using c(4) fl(2) by auto
  have call: "\<exists>xs'. spaces s' (insert p D) xs' \<and> p \<notin> D \<and> lst_rep (env_free_list s') es \<and>
      env_sched_list s' = env_sched_list s \<and> curenv s' = curenv s \<and> (\<forall>i. i \<noteq> e \<longrightarrow> envs s' i = envs s i) \<and>
      env_pgdir (envs s' e) = frame p \<and> (\<forall>d\<in>D. \<forall>i<0x800. pde s' d i = pde s d i) \<and> alloc_kept s s' \<and>
      env_ttb (envs s' e) = page2pa p \<and> env_ipc_recving (envs s' e) = env_ipc_recving (envs s e) \<and>
      env_status (envs s' e) = ENV_NOT_RUNNABLE"
    using sys_env_alloc_ok [OF sp [unfolded xs] fl(1) c(6) ce c(2,1) b(2) _ _ b(3) refs [OF c(3)], of cpsr] units [OF b(1)] units [OF c(1)] run
    by (elim exE conjE; simp) blast
  obtain xs' where t: "spaces s' (insert p D) xs'" "p \<notin> D" "lst_rep (env_free_list s') es"
      "env_sched_list s' = env_sched_list s" "curenv s' = curenv s" "\<And>i. i \<noteq> e \<Longrightarrow> envs s' i = envs s i"
      "env_pgdir (envs s' e) = frame p" "\<And>d i. d \<in> D \<Longrightarrow> i < 0x800 \<Longrightarrow> pde s' d i = pde s d i" "alloc_kept s s'"
      "env_ttb (envs s' e) = page2pa p" "env_ipc_recving (envs s' e) = env_ipc_recving (envs s e)"
      "env_status (envs s' e) = ENV_NOT_RUNNABLE"
    using call by auto
  have rec: "env_ipc_recving (envs s' e) = 0"
    using m(4) fl(2) runnable_in_use(2) t(11) by (auto simp: waits_ok_def)
  have use: "in_use s' i \<longleftrightarrow> i = e \<or> in_use s i" for i
    using t(6) [of i] t(12) by (cases "i = e") (simp_all add: in_use_def env_status_defs)
  have "boot_ok s' (insert p D) b"
    using b t(8) [OF b(1)] t(9) by (simp add: boot_ok_def alloc_kept_def)
  moreover have "dirs_ok s' (insert p D) b"
    unfolding dirs_ok_def
  proof (intro conjI allI impI)
    have pb: "p \<noteq> b" using b(1) t(2) by auto
    show "\<exists>pd\<in>insert p D. pd \<noteq> b \<and> owns s' i pd" if "in_use s' i" for i
      using that m(3) t(6) [of i] t(7,10) pb by (cases "i = e") (auto simp: use dirs_ok_def owns_def)
    have no: "env_pgdir (envs s i) \<noteq> frame p" if "in_use s i" for i
      using machine_dir [OF ok that] frame_of_dir [OF _ up] units by metis
    show "i = j" if "in_use s' i" "in_use s' j" "env_pgdir (envs s' i) = env_pgdir (envs s' j)" for i j
      using that m(3) no t(6) [of i] t(6) [of j] t(7) unfolding use dirs_ok_def by metis
  qed
  moreover have "waits_ok s'"
    using m(4) rec t(6) by (auto simp: waits_ok_def) metis+
  moreover have "lists_ok s' es ys"
  proof -
    have new: "e \<notin> set ys" using listed_runnable [OF m(5), of e] fl(2) runnable_in_use(1) by auto
    have e': "e \<notin> set es" using ll.rep_distinct [OF fl(1)] by simp
    have "\<forall>i\<in>set es. \<not> in_use s' i" using fl(3) e' by (auto simp: use)
    moreover have "envs s' i = envs s i" if "i \<in> set ys" for i using new t(6) [of i] that by blast
    then have "sched_ok s' ys"
      using m(5) t(4,9) by (auto simp: lists_ok_def sched_ok_def alloc_kept_def split: option.splits)
    moreover have "i \<in> set ys" if "env_status (envs s' i) = ENV_RUNNABLE" for i
      using that t(6) [of i] t(12) m(5) by (cases "i = e") (auto simp: lists_ok_def env_status_defs)
    ultimately show ?thesis using t(3) by (simp add: lists_ok_def)
  qed
  moreover have "runs s' c" using m(6) t(5,9) t(6) [OF ce] by (simp add: runs_def alloc_kept_def)
  ultimately have "machine_ok s' (insert p D) b xs' es ys c"
    using t(1) m(7) by (simp add: machine_ok_def spaces_def)
  then show ?thesis by blast
qed

lemma machine_start:
  assumes ok: "machine_ok s D b xs fs ys c" and run: "sys_set_env_status envid ENV_RUNNABLE s = Some (Return r s')"
    and idle: "\<And>e. envid2env envid True s = Some (Inr e) \<Longrightarrow> env_ipc_recving (envs s e) = 0"
  shows "\<exists>ys'. machine_ok s' D b xs fs ys' c"
proof (cases "s' = s")
  case True
  then show ?thesis using ok by blast
next
  case False
  note m = machine_okD [OF ok]
  obtain e where e: "envid2env envid True s = Some (Inr e)" "env_status (envs s e) \<noteq> ENV_RUNNABLE"
    and s': "s' = s\<lparr>envs := (envs s)(e := (envs s e)\<lparr>env_status := ENV_RUNNABLE\<rparr>),
       env_sched_list := LIST_INSERT_HEAD e (env_sched_list s)\<rparr>"
    using run False
    by (auto simp: sys_set_env_status_def my_set_env_status_def split: if_splits Option.bind_splits sum.splits)
  have rec: "env_ipc_recving (envs s e) = 0" by (rule idle [OF e(1)])
  have use: "in_use s' i = in_use s i" for i
    using envid2env_in_use [OF e(1)] by (simp add: s' in_use_def env_status_defs)
  have new: "e \<notin> set ys" using listed_runnable [OF m(5), of e] e(2) by simp
  have "vm_inv s' D xs" using m(1) vm_inv_cong(1) [of s' s D xs] by (simp add: s')
  moreover have "pde s' = pde s" by (rule view_kmem(1)) (simp add: s')
  then have "boot_ok s' D b" using m(2) boot_ok_cong [of s' s b D] by (simp add: s')
  moreover have "dirs_ok s' D b" using m(3) dirs_ok_cong [of s' s D b] use by (simp add: s')
  moreover have "waits_ok s'" using m(4) rec by (simp add: waits_ok_def s')
  moreover have "lists_ok s' fs (e # ys)"
    using m(5) ll.rep_push [OF _ new] use by (auto simp: lists_ok_def sched_ok_def s' split: option.splits)
  moreover have "runs s' c" using m(6) by (simp add: runs_def s')
  ultimately have "machine_ok s' D b xs fs (e # ys) c" using m(7) by (simp add: machine_ok_def)
  then show ?thesis by blast
qed

lemma machine_kill:
  assumes ok: "machine_ok s D b xs fs ys c" and run: "sys_env_destroy envid s = Some ctl"
    and res: "ctl = Resume s' \<or> ctl = Return r s' \<and> curenv s' \<noteq> None"
    and target: "\<And>e. envid2env envid True s = Some (Inr e) \<Longrightarrow> env_status (envs s e) = ENV_RUNNABLE"
  shows "\<exists>D' xs' fs' ys' y. machine_ok s' D' b xs' fs' ys' y"
proof (cases "\<exists>e. envid2env envid True s = Some (Inr e)")
  case False
  then have "s' = s" using run res by (auto simp: sys_env_destroy_def split: Option.bind_splits sum.splits)
  then show ?thesis using ok by blast
next
  case True
  note m = machine_okD [OF ok]
  obtain e where e: "envid2env envid True s = Some (Inr e)" "env_status (envs s e) = ENV_RUNNABLE" using True target by blast
  have ey: "e \<in> set ys" using listed_runnable [OF m(5)] e(2) by simp
  obtain pd where pd: "pd \<in> D" "pd \<noteq> b" "env_pgdir (envs s e) = frame pd" "env_ttb (envs s e) = page2pa pd"
    by (rule machine_dir [OF ok envid2env_in_use [OF e(1)]])
  have b: "b \<in> D - {pd}" "boot_pgdir s = frame b" "\<forall>i. 0x7FD \<le> i \<longrightarrow> i < 0x800 \<longrightarrow> pde s b i = 0"
    using m(2) pd(2) by (auto simp: boot_ok_def)
  have ef: "e \<notin> set fs" and fl: "lst_rep (env_free_list s) fs" and so: "sched_ok s ys" and rep: "lst_rep (env_sched_list s) ys"
    using m(5) envid2env_in_use [OF e(1)] by (auto simp: lists_ok_def sched_ok_def)
  have cur: "curenv s = Some c" using m(6) by (simp add: runs_def)
  have others: "remove1 e ys \<noteq> []"
  proof
    assume nil: "remove1 e ys = []"
    then have "ys = [e]" using ey ll.rep_distinct [OF rep] by (cases ys) (auto split: if_splits)
    then have ce: "c = e" using m(7) by simp
    obtain t where t: "env_free e s = Some t" "lst_rep (env_sched_list t) []" "curenv t = curenv s"
      using env_free_ok [OF m(1) pd(1,3,4) fl ef rep ey] nil by auto
    then have "sys_env_destroy envid s = Some (Return (Inr 0) (load_trapframe_kstack (t\<lparr>curenv := None\<rparr>)))"
      using e(1) cur ce sched_yield_empty [of "t\<lparr>curenv := None\<rparr>"] by (simp add: sys_env_destroy_def env_destroy_def)
    then show False using run res by (auto simp: load_trapframe_kstack_def)
  qed
  obtain u xs' where u: "vm_inv u (D - {pd}) xs'"
    "envs u = (envs s)(e := (envs s e)\<lparr>env_pgdir := 0, env_ttb := 0, env_status := ENV_FREE\<rparr>)"
    "lst_rep (env_free_list u) (e # fs)" "\<forall>d\<in>D - {pd}. \<forall>i<0x800. pde u d i = pde s d i" "boot_pgdir u = boot_pgdir s"
    "if curenv s = Some e
     then env_destroy e s = Some (Resume u) \<and> sched_ok u (remove1 e ys) \<and>
       (\<exists>y\<in>set (remove1 e ys). curenv u = Some y \<and> sched_iter u = Some y \<and> mCONTEXT u = env_pgdir (envs s y))
     else env_destroy e s = Some (Return () u) \<and> lst_rep (env_sched_list u) (remove1 e ys) \<and> curenv u = curenv s \<and>
       sched_iter u = sched_iter s \<and> sched_ts u = sched_ts s \<and> mCONTEXT u = mCONTEXT s"
    using env_destroy_ok [OF m(1) pd(1,3,4) fl ef so ey others] by blast
  have su: "s' = u" using run res e(1) u(6) by (auto simp: sys_env_destroy_def split: if_splits)
  have dist: "e \<notin> set (remove1 e ys)" using ll.rep_distinct [OF rep] by simp
  have st: "env_status (envs u i) = (if i = e then ENV_FREE else env_status (envs s i))"
    "i \<noteq> e \<Longrightarrow> envs u i = envs s i" for i
    by (simp_all add: u(2))
  have use: "in_use u i \<longleftrightarrow> i \<noteq> e \<and> in_use s i" for i by (simp add: in_use_def st)
  obtain y where y: "curenv u = Some y" "y \<in> set (remove1 e ys)" "sched_iter u = Some y" "mCONTEXT u = env_pgdir (envs s y)"
    "sched_ok u (remove1 e ys)"
  proof (cases "curenv s = Some e")
    case True
    then show thesis using u(6) that by auto
  next
    case False
    then have "c \<in> set (remove1 e ys)" using cur m(7) by auto
    moreover have "sched_ok u (remove1 e ys)"
      using False u(6) so m(6) calculation dist st by (auto simp: sched_ok_def runs_def dest: notin_set_remove1)
    ultimately show thesis using False u(6) cur m(6) that [of c] by (simp add: runs_def)
  qed
  have "boot_ok u (D - {pd}) b" using b u(4,5) by (simp add: boot_ok_def)
  moreover have "dirs_ok u (D - {pd}) b"
    unfolding dirs_ok_def
  proof (intro conjI allI impI)
    show "\<exists>d\<in>D - {pd}. d \<noteq> b \<and> owns u i d" if "in_use u i" for i
    proof -
      have i: "i \<noteq> e" "in_use s i" using that by (simp_all add: use)
      obtain d where d: "d \<in> D" "d \<noteq> b" "env_pgdir (envs s i) = frame d" "env_ttb (envs s i) = page2pa d"
        by (rule machine_dir [OF ok i(2)])
      have "d \<noteq> pd" using m(3) i d(3) pd(3) envid2env_in_use [OF e(1)] by (auto simp: dirs_ok_def)
      then show ?thesis using d st(2) [OF i(1)] by (auto simp: owns_def)
    qed
    show "i = j" if "in_use u i" "in_use u j" "env_pgdir (envs u i) = env_pgdir (envs u j)" for i j
      using that m(3) st(2) unfolding use dirs_ok_def by metis
  qed
  moreover have "waits_ok u"
    using m(4) e(2) by (auto simp: waits_ok_def u(2) env_status_defs)
  moreover have "lists_ok u (e # fs) (remove1 e ys)"
  proof -
    have "i \<in> set (remove1 e ys)" if "env_status (envs u i) = ENV_RUNNABLE" for i
      using that m(5) by (auto simp: lists_ok_def st env_status_defs split: if_splits)
    then show ?thesis using u(3) y(5) m(5) use by (auto simp: lists_ok_def)
  qed
  moreover have "y \<noteq> e" using y(2) dist by blast
  then have "runs u y" using y st(2) [of y] by (simp add: runs_def)
  ultimately have "machine_ok u (D - {pd}) b xs' (e # fs) (remove1 e ys) y" using u(1) y(2) by (simp add: machine_ok_def)
  then show ?thesis using su by blast
qed

subsection \<open>The theorem\<close>

lemma kstep_machine:
  assumes ok: "machine_ok s D b xs fs ys c" and step: "kstep s s'"
  shows "\<exists>D' xs' fs' ys' c'. machine_ok s' D' b xs' fs' ys' c'"
  using step
proof cases
  case (registers tf)
  then show ?thesis using machine_registers [OF ok] by blast
next
  case (store va v)
  then show ?thesis using machine_store [OF ok] by blast
next
  case (fault va)
  then show ?thesis using machine_fault [OF ok] by blast
next
  case tick
  then have "sched_yield s = Some (Resume s')" by (simp add: irq_handler_def)
  then show ?thesis using machine_yield [OF ok] by blast
next
  case yield
  then have "sched_yield s = Some (Resume s')" by (simp add: sys_yield_def)
  then show ?thesis using machine_yield [OF ok] by blast
next
  case memory
  then show ?thesis using machine_mem_call [OF ok] by blast
next
  case (recv junk dstva whom perm)
  then show ?thesis using machine_recv [OF ok] by blast
next
  case (send envid val srcva perm r)
  then show ?thesis using machine_send [OF ok] by blast
next
  case (fork cpsr r)
  then show ?thesis using machine_fork [OF ok] by blast
next
  case (start envid r)
  then show ?thesis using machine_start [OF ok] by blast
next
  case (kill envid ctl r)
  show ?thesis by (rule machine_kill [OF ok kill])
qed

lemma ksteps_machine:
  assumes "ksteps s s'" "machine_ok s D b xs fs ys c"
  shows "\<exists>D' xs' fs' ys' c'. machine_ok s' D' b xs' fs' ys' c'"
  using assms
proof (induction rule: ksteps.induct)
  case (more s t u)
  then show ?case using kstep_machine by blast
qed blast


text \<open>A machine with one environment, which is running, and one that is free, over the pool of
  \<open>one_space\<close>.\<close>

lemma one_running:
  obtains s where "machine_ok s {2060, 2064} 2064 [2056, 2052, 2048] [1] [0] 0" "tables s 2060 = {}"
    "\<And>q. copies (pte_at s) (all_slots {2060}) q = 0" "mCONTEXT s = frame 2060"
proof -
  let ?i = "one_space\<lparr>boot_pgdir := frame 2064, envs := (\<lambda>_. zero_env),
    env_free_list := LIST_INSERT_HEAD 0 (LIST_INSERT_HEAD 1 null_lst)\<rparr>"
  have i1: "lst_rep (env_free_list ?i) [0, 1]"
    using ll.rep_push [OF ll.rep_push [OF null_lst_rep], of "1 :: u32" 0] by simp
  have i2: "vm_inv ?i {2064} [2060, 2056, 2052, 2048]"
    using one_space_inv vm_inv_cong(1) [of ?i one_space] by simp
  have i3: "pde ?i d i = 0" for d i using one_space_mem(1) view_kmem(1) [of ?i one_space] by simp
  obtain t where t: "vm_inv t {2060, 2064} [2056, 2052, 2048]" "lst_rep (env_free_list t) [1]"
    "\<And>v. v < ULIM \<Longrightarrow> upte t 2060 v = 0" "\<And>d i. d \<in> {2064} \<Longrightarrow> i < 0x800 \<Longrightarrow> pde t d i = pde ?i d i"
    "\<And>i. i < 0x7FD \<Longrightarrow> pde t 2060 i = 0" "\<And>i. 0x7FD \<le> i \<Longrightarrow> i < 0x1000 \<Longrightarrow> pde t 2060 i = pde ?i 2064 i"
    "env_pgdir (envs t 0) = frame 2060" "env_ttb (envs t 0) = page2pa 2060" "\<And>i. i \<noteq> 0 \<Longrightarrow> envs t i = envs ?i i"
  proof -
    have b: "boot_pgdir ?i = frame 2064" "unit_page 2064" "2064 \<noteq> (2060 :: u32)"
      "\<And>i. 0x7FD \<le> i \<Longrightarrow> i < 0x800 \<Longrightarrow> pde ?i 2064 i = 0"
      by (simp_all add: unit_page_def i3)
    show thesis by (rule env_allocE [OF i2 i1 b, of 0 0]) (assumption+, (rule that; assumption))
  qed
  let ?s = "t\<lparr>boot_pgdir := frame 2064,
    envs := (envs t)(0 := (envs t 0)\<lparr>env_status := ENV_RUNNABLE, env_ipc_recving := 0\<rparr>),
    env_sched_list := LIST_INSERT_HEAD 0 null_lst, curenv := Some 0, sched_iter := Some 0, sched_ts := 0, mCONTEXT := frame 2060\<rparr>"
  have view: "pde ?s = pde t" "upte ?s = upte t" "pte_at ?s = pte_at t" using view_kmem [of ?s t] by simp_all
  have e: "env_status (envs ?s i) = (if i = 0 then ENV_RUNNABLE else ENV_FREE)" "env_ipc_recving (envs ?s i) = 0" for i
  proof -
    have z: "envs t i = zero_env" if "i \<noteq> 0" using t(9) [OF that] by simp
    show "env_status (envs ?s i) = (if i = 0 then ENV_RUNNABLE else ENV_FREE)" "env_ipc_recving (envs ?s i) = 0"
      by (simp_all add: z zero_env_def ENV_FREE_def)
  qed
  have use: "in_use ?s i \<longleftrightarrow> i = 0" for i unfolding in_use_def e by (simp add: env_status_defs)
  have p0: "pde t 2060 i = 0" if "i < 0x800" for i
  proof (cases "i < 0x7FD")
    case False
    then show ?thesis using t(6) [of i] user_pde [OF that] i3 by simp
  qed (rule t(5))
  have "vm_inv ?s {2060, 2064} [2056, 2052, 2048]" using t(1) vm_inv_cong(1) [of ?s t] by simp
  moreover have "boot_ok ?s {2060, 2064} 2064" using t(4) i3 by (simp add: boot_ok_def view)
  moreover have "dirs_ok ?s {2060, 2064} 2064" unfolding dirs_ok_def use using t(7,8) by (simp add: owns_def)
  moreover have "waits_ok ?s" unfolding waits_ok_def e by simp
  moreover have "lists_ok ?s [1] [0]"
    unfolding lists_ok_def sched_ok_def use e using t(2) ll.rep_push [OF null_lst_rep, of "0 :: u32"]
    by (simp add: env_status_defs)
  moreover have "runs ?s 0" using t(7) by (simp add: runs_def)
  ultimately have ok: "machine_ok ?s {2060, 2064} 2064 [2056, 2052, 2048] [1] [0] 0" by (simp add: machine_ok_def)
  have "pte_at ?s x = 0" if x: "x \<in> all_slots {2060}" for x
    using x p0 by (cases x) (auto simp: all_slots_def pte_at.simps view)
  then have "copies (pte_at ?s) (all_slots {2060}) q = 0" for q by (auto simp: copies_def full_pte_def)
  moreover have "tables ?s 2060 = {}" using p0 by (auto simp: tables_def view)
  ultimately show thesis using that [OF ok] by simp
qed


end
