(* ===== verification/Print.thy ===== *)
theory Print
  imports Prelude
begin

section \<open>Formatted output (\<open>lib/print.c\<close>, \<open>lib/printf.c\<close>, \<open>user/fprintf.c\<close>)\<close>

text \<open>
  The formatter \<open>lp_Print\<close> with its three conversion routines. A format is the list of its
  bytes before the terminating NUL; a variable argument is a word or a string. The local
  array \<open>buf\<close> is a list of 80 bytes, and a write outside it is undefined behaviour, the
  value \<open>None\<close>; \<open>None\<close> is also the endless loop after the fatal message. The callback
  \<open>output\<close> acts on a state of its own.
\<close>

abbreviation (input) LP_MAX_BUF :: nat where "LP_MAX_BUF \<equiv> 80"

datatype va = Num u32 | Str "u8 list"

definition wr :: "nat \<Rightarrow> u8 \<Rightarrow> u8 list \<Rightarrow> u8 list option" where
  "wr i c buf = (if i < length buf then Some (buf[i := c]) else None)"

subsection \<open>Conversions\<close>

definition PrintChar :: "u8 list \<Rightarrow> u8 \<Rightarrow> nat \<Rightarrow> bool \<Rightarrow> (nat \<times> u8 list) option" where
  "PrintChar buf c len ladjust =
     (let len = (if len < 1 then 1 else len) in
      if ladjust
      then do {
        buf \<leftarrow> wr 0 c buf;
        buf \<leftarrow> foldM (\<lambda>i. wr i 32) [1..<len] buf;
        Some (len, buf)
      }
      else do {
        buf \<leftarrow> foldM (\<lambda>i. wr i 32) [0..<len - 1] buf;
        buf \<leftarrow> wr (len - 1) c buf;
        Some (len, buf)
      })"

definition PrintString :: "u8 list \<Rightarrow> u8 list \<Rightarrow> nat \<Rightarrow> bool \<Rightarrow> (nat \<times> u8 list) option" where
  "PrintString buf str n ladjust =
     (let len = length str; n = (if n < len then len else n) in
      if ladjust
      then do {
        buf \<leftarrow> foldM (\<lambda>i. wr i (str ! i)) [0..<len] buf;
        buf \<leftarrow> foldM (\<lambda>i. wr i 32) [len..<n] buf;
        Some (n, buf)
      }
      else do {
        buf \<leftarrow> foldM (\<lambda>i. wr i 32) [0..<n - len] buf;
        buf \<leftarrow> foldM (\<lambda>i. wr i (str ! (i + len - n))) [n - len..<n] buf;
        Some (n, buf)
      })"

definition digit_char :: "bool \<Rightarrow> u32 \<Rightarrow> u8" where
  "digit_char upcase d =
     (if d \<le> 9 then 48 + ucast d else if upcase then 65 + ucast d - 10 else 97 + ucast d - 10)"

text \<open>The digits, least significant first, from index \<open>p\<close> on.\<close>

partial_function (option) print_digits ::
  "u32 \<Rightarrow> u32 \<Rightarrow> bool \<Rightarrow> u8 list \<Rightarrow> nat \<Rightarrow> (u8 list \<times> nat) option" where
  "print_digits u base upcase buf p = do {
     buf1 \<leftarrow> wr p (digit_char upcase (u mod base)) buf;
     let u1 = u div base;
     if u1 \<noteq> 0 then print_digits u1 base upcase buf1 (p + 1) else Some (buf1, p + 1)
   }"

function reverse_loop :: "u8 list \<Rightarrow> nat \<Rightarrow> nat \<Rightarrow> u8 list option" where
  "reverse_loop buf begin_i end_i =
     (if begin_i < end_i
      then do {
        buf1 \<leftarrow> wr begin_i (buf ! end_i) buf;
        buf2 \<leftarrow> wr end_i (buf ! begin_i) buf1;
        reverse_loop buf2 (begin_i + 1) (end_i - 1)
      }
      else Some buf)"
  by pat_completeness auto
termination by (relation "measure (\<lambda>(_, b, e). e - b)") auto

declare reverse_loop.simps [simp del]

definition PrintNum :: "u8 list \<Rightarrow> u32 \<Rightarrow> u32 \<Rightarrow> bool \<Rightarrow> nat \<Rightarrow> bool \<Rightarrow> u8 \<Rightarrow> bool
    \<Rightarrow> (nat \<times> u8 list) option" where
  "PrintNum buf u base negFlag n ladjust padc upcase = do {
     (buf, p) \<leftarrow> print_digits u base upcase buf 0;
     (buf, p) \<leftarrow> (if negFlag then do { buf \<leftarrow> wr p 45 buf; Some (buf, p + 1) } else Some (buf, p));
     let actualLength = p;
     let n = (if n < actualLength then actualLength else n);
     let padc = (if ladjust then 32 else padc);
     buf \<leftarrow> (if negFlag \<and> \<not> ladjust \<and> padc = 48
       then do {
         buf \<leftarrow> foldM (\<lambda>i. wr i padc) [actualLength - 1..<n - 1] buf;
         wr (n - 1) 45 buf
       }
       else foldM (\<lambda>i. wr i padc) [actualLength..<n] buf);
     buf \<leftarrow> reverse_loop buf 0 (if ladjust then actualLength - 1 else n - 1);
     Some (n, buf)
   }"

subsection \<open>The formatter\<close>

definition OUTPUT :: "(u8 list \<Rightarrow> 's \<Rightarrow> 's) \<Rightarrow> u8 list \<Rightarrow> 's \<Rightarrow> 's option" where
  "OUTPUT output str s = (if LP_MAX_BUF < length str then None else Some (output str s))"

definition IsDigit :: "u8 \<Rightarrow> bool" where
  "IsDigit x \<longleftrightarrow> 48 \<le> x \<and> x \<le> 57"

fun scan_digits :: "nat \<Rightarrow> u8 list \<Rightarrow> nat \<times> u8 list" where
  "scan_digits n [] = (n, [])"
| "scan_digits n (c # cs) =
     (if IsDigit c then scan_digits (10 * n + unat (c - 48)) cs else (n, c # cs))"

record spec =
  longFlag :: bool
  width :: nat
  prec :: "nat option"
  ladjust :: bool
  padc :: u8

text \<open>One optional prefix character.\<close>

fun eat :: "u8 \<Rightarrow> u8 list \<Rightarrow> bool \<times> u8 list" where
  "eat x [] = (False, [])"
| "eat x (c # cs) = (if c = x then (True, cs) else (False, c # cs))"

definition parse_spec :: "u8 list \<Rightarrow> spec \<times> u8 list" where
  "parse_spec fmt =
     (let (l, fmt) = eat 108 fmt;
          (lj, fmt) = eat 45 fmt;
          (z, fmt) = eat 48 fmt;
          (w, fmt) = scan_digits 0 fmt;
          (dot, fmt) = eat 46 fmt;
          (pr, fmt) = (if dot \<and> fmt \<noteq> [] \<and> IsDigit (hd fmt)
                       then map_prod Some id (scan_digits 0 fmt) else (None, fmt))
      in (\<lparr>longFlag = l, width = w, prec = pr, ladjust = lj, padc = (if z then 48 else 32)\<rparr>, fmt))"

fun va_num :: "va list \<Rightarrow> (u32 \<times> va list) option" where
  "va_num (Num n # ap) = Some (n, ap)"
| "va_num _ = None"

fun va_str :: "va list \<Rightarrow> (u8 list \<times> va list) option" where
  "va_str (Str x # ap) = Some (x, ap)"
| "va_str _ = None"

text \<open>The conversion of the character \<open>c\<close>, which is not the end of the format. \<open>int\<close> and
  \<open>long\<close> have the same width.\<close>

definition print_num :: "(u8 list \<Rightarrow> 's \<Rightarrow> 's) \<Rightarrow> u8 list \<Rightarrow> spec \<Rightarrow> u32 \<Rightarrow> bool \<Rightarrow> bool \<Rightarrow> va list \<Rightarrow> 's
    \<Rightarrow> (u8 list \<times> va list \<times> 's) option" where
  "print_num output buf sp base sgned upcase ap s = do {
     (num, ap) \<leftarrow> va_num ap;
     let neg = sgned \<and> sint num < 0;
     (n, buf) \<leftarrow> PrintNum buf (if neg then - num else num) base neg (width sp) (ladjust sp) (padc sp) upcase;
     s \<leftarrow> OUTPUT output (take n buf) s;
     Some (buf, ap, s)
   }"

definition convert :: "(u8 list \<Rightarrow> 's \<Rightarrow> 's) \<Rightarrow> u8 list \<Rightarrow> spec \<Rightarrow> u8 \<Rightarrow> va list \<Rightarrow> 's
    \<Rightarrow> (u8 list \<times> va list \<times> 's) option" where
  "convert output buf sp c ap s =
     (if c = 98 then print_num output buf sp 2 False False ap s
      else if c = 100 \<or> c = 68 then print_num output buf sp 10 True False ap s
      else if c = 111 \<or> c = 79 then print_num output buf sp 8 False False ap s
      else if c = 117 \<or> c = 85 then print_num output buf sp 10 False False ap s
      else if c = 120 then print_num output buf sp 16 False False ap s
      else if c = 88 then print_num output buf sp 16 False True ap s
      else if c = 99 then do {
        (num, ap) \<leftarrow> va_num ap;
        (n, buf) \<leftarrow> PrintChar buf (ucast num) (width sp) (ladjust sp);
        s \<leftarrow> OUTPUT output (take n buf) s;
        Some (buf, ap, s)
      }
      else if c = 115 then do {
        (str, ap) \<leftarrow> va_str ap;
        (n, buf) \<leftarrow> PrintString buf str (width sp) (ladjust sp);
        s \<leftarrow> OUTPUT output (take n buf) s;
        Some (buf, ap, s)
      }
      else do { s \<leftarrow> OUTPUT output [c] s; Some (buf, ap, s) })"

lemma scan_digits_length: "length (snd (scan_digits n cs)) \<le> length cs"
  by (induction n cs rule: scan_digits.induct) (auto simp: le_SucI)

lemma eat_length: "length (snd (eat x cs)) \<le> length cs"
  by (cases cs) auto

lemma parse_spec_length: "length (snd (parse_spec fmt)) \<le> length fmt"
proof -
  obtain l f1 where 1: "eat 108 fmt = (l, f1)" by fastforce
  obtain lj f2 where 2: "eat 45 f1 = (lj, f2)" by fastforce
  obtain z f3 where 3: "eat 48 f2 = (z, f3)" by fastforce
  obtain w f4 where 4: "scan_digits 0 f3 = (w, f4)" by fastforce
  obtain d f5 where 5: "eat 46 f4 = (d, f5)" by fastforce
  have "length f5 \<le> length fmt"
    using eat_length [of 108 fmt] eat_length [of 45 f1] eat_length [of 48 f2]
      scan_digits_length [of 0 f3] eat_length [of 46 f4] 1 2 3 4 5 by simp
  then show ?thesis
    using scan_digits_length [of 0 f5] by (simp add: parse_spec_def 1 2 3 4 5 split_beta)
qed

text \<open>Where the format ends inside a conversion, the code steps back so that the next
  round sees the end.\<close>

function lp_loop :: "(u8 list \<Rightarrow> 's \<Rightarrow> 's) \<Rightarrow> u8 list \<Rightarrow> u8 list \<Rightarrow> va list \<Rightarrow> 's \<Rightarrow> 's option" where
  "lp_loop output buf fmt ap s = do {
     s \<leftarrow> OUTPUT output (takeWhile (\<lambda>c. c \<noteq> 37) fmt) s;
     (case dropWhile (\<lambda>c. c \<noteq> 37) fmt of
        [] \<Rightarrow> Some s
      | _ # rest \<Rightarrow>
          (case parse_spec rest of
             (sp, []) \<Rightarrow> lp_loop output buf [] ap s
           | (sp, c # rest') \<Rightarrow> do {
               (buf, ap, s) \<leftarrow> convert output buf sp c ap s;
               lp_loop output buf rest' ap s
             }))
   }"
  by pat_completeness auto
termination
proof (relation "measure (\<lambda>(_, _, fmt, _, _). length fmt)", goal_cases)
  case (2 out buf fmt ap s s' p rest sp f)
  then have "length (p # rest) \<le> length fmt" by (metis length_dropWhile_le)
  then show ?case by auto
next
  case (3 out buf fmt ap s s' p rest sp f c rest' x1 x2 x3 x4 x5)
  then have "length (p # rest) \<le> length fmt" by (metis length_dropWhile_le)
  moreover have "snd (parse_spec rest) = c # rest'" using 3 by (metis snd_conv)
  then have "length (c # rest') \<le> length rest" using parse_spec_length [of rest] by simp
  ultimately show ?case by auto
qed simp

declare lp_loop.simps [simp del]

text \<open>The whole call: the loop, then the special termination call. \<open>buf\<close> holds anything.\<close>

definition lp_Print :: "(u8 list \<Rightarrow> 's \<Rightarrow> 's) \<Rightarrow> u8 list \<Rightarrow> u8 list \<Rightarrow> va list \<Rightarrow> 's \<Rightarrow> 's option" where
  "lp_Print output buf fmt ap s = do {
     s \<leftarrow> lp_loop output buf fmt ap s;
     OUTPUT output [0] s
   }"

subsection \<open>The callers\<close>

text \<open>The console is the list of bytes sent, in order.\<close>

definition myoutput :: "u8 list \<Rightarrow> u8 list \<Rightarrow> u8 list" where
  "myoutput str con = (if str = [0] then con
     else con @ concat (map (\<lambda>c. if c = 10 then [13, 10] else [c]) str))"

definition printf :: "u8 list \<Rightarrow> u8 list \<Rightarrow> va list \<Rightarrow> u8 list \<Rightarrow> u8 list option" where
  "printf buf fmt ap con = lp_Print myoutput buf fmt ap con"

text \<open>The callback of \<open>fprintf\<close> writes every chunk at the start of the user's buffer.\<close>

definition user_out2string :: "u8 list \<Rightarrow> u8 list \<Rightarrow> u8 list" where
  "user_out2string str b = (if str = [0] then b else str @ drop (length str) b)"

text \<open>What \<open>fprintf\<close> hands to \<open>write\<close>: the buffer up to its first NUL.\<close>

definition fprintf_text :: "u8 list \<Rightarrow> u8 list \<Rightarrow> va list \<Rightarrow> u8 list option" where
  "fprintf_text buf fmt ap = do {
     b \<leftarrow> lp_Print user_out2string buf fmt ap (replicate 512 0);
     Some (takeWhile (\<lambda>c. c \<noteq> 0) b)
   }"

end
