(* ===== verification/Drivers.thy ===== *)
theory Drivers
  imports Svc Print
begin

section \<open>Devices (\<open>drivers/uart0\<close>, \<open>drivers/gic\<close>, \<open>drivers/timer2\<close>, \<open>lib/trap.c\<close>)\<close>

text \<open>
  The drivers read and write device registers. A \<open>trace\<close> is the sequence of these accesses in
  program order. What a device answers to a read is the parameter \<open>dev\<close> of the operations: a
  function of the accesses so far and the address. A busy wait is a \<open>partial_function\<close>:
  it is \<open>None\<close> when the device never gets ready.
\<close>

subsection \<open>Register accesses\<close>

datatype io = Rd u32 u32 | Wr u32 u32  \<comment> \<open>address and value\<close>

type_synonym trace = "io list"
type_synonym device = "trace \<Rightarrow> u32 \<Rightarrow> u32"

definition readl :: "device \<Rightarrow> u32 \<Rightarrow> trace \<Rightarrow> u32 \<times> trace" where
  "readl dev a t = (dev t a, t @ [Rd a (dev t a)])"

definition writel :: "u32 \<Rightarrow> u32 \<Rightarrow> trace \<Rightarrow> trace" where
  "writel v a t = t @ [Wr a v]"

text \<open>The values of the variable of \<open>for (i = a; i < b; i += d)\<close>.\<close>

function for_range :: "int \<Rightarrow> int \<Rightarrow> int \<Rightarrow> int list" where
  "for_range a b d = (if a < b \<and> 0 < d then a # for_range (a + d) b d else [])"
  by auto
termination by (relation "measure (\<lambda>(a, b, d). nat (b - a))") auto

declare for_range.simps [simp del]

subsection \<open>The interrupt controller (\<open>gic.c\<close>)\<close>

abbreviation (input) GICD_BASE :: u32 where "GICD_BASE \<equiv> IOVABASE + 0x81000"
abbreviation (input) GICC_BASE :: u32 where "GICC_BASE \<equiv> IOVABASE + 0x82000"

definition GICD_CTRL :: u32 where "GICD_CTRL = GICD_BASE"
definition GICD_ISENABLER :: u32 where "GICD_ISENABLER = GICD_BASE + 0x100"
definition GICD_ICENABLER :: u32 where "GICD_ICENABLER = GICD_BASE + 0x180"
definition GICD_ICPENDR :: u32 where "GICD_ICPENDR = GICD_BASE + 0x280"
definition GICD_ICACTIVER :: u32 where "GICD_ICACTIVER = GICD_BASE + 0x380"
definition GICD_IPRIORITYR :: u32 where "GICD_IPRIORITYR = GICD_BASE + 0x400"
definition GICD_ITARGETSR :: u32 where "GICD_ITARGETSR = GICD_BASE + 0x800"
definition GICD_ICFGR :: u32 where "GICD_ICFGR = GICD_BASE + 0xC00"
definition GICC_CTLR :: u32 where "GICC_CTLR = GICC_BASE"
definition GICC_PMR :: u32 where "GICC_PMR = GICC_BASE + 0x4"
definition GICC_IAR :: u32 where "GICC_IAR = GICC_BASE + 0xC"
definition GICC_EOIR :: u32 where "GICC_EOIR = GICC_BASE + 0x10"

lemmas gic_addrs = GICD_CTRL_def GICD_ISENABLER_def GICD_ICENABLER_def GICD_ICPENDR_def GICD_ICACTIVER_def
  GICD_IPRIORITYR_def GICD_ITARGETSR_def GICD_ICFGR_def GICC_CTLR_def GICC_PMR_def GICC_IAR_def GICC_EOIR_def

definition GIC_IRQ_N :: int where "GIC_IRQ_N = 123"

definition gicd_ctrl_enable :: "trace \<Rightarrow> trace" where
  "gicd_ctrl_enable t =
     (let t = writel 0 GICD_CTRL t;
          t = fold (\<lambda>i. writel 0 (GICD_ICFGR + of_int (i * 4 div 16))) (for_range 32 GIC_IRQ_N 16) t;
          t = fold (\<lambda>i. writel 0x01010101 (GICD_ITARGETSR + of_int (i * 4 div 4))) (for_range 32 GIC_IRQ_N 4) t;
          t = fold (\<lambda>i. writel 0xA0A0A0A0 (GICD_IPRIORITYR + of_int (i * 4 div 4))) (for_range 32 GIC_IRQ_N 4) t;
          t = fold (\<lambda>i. writel 0xFFFFFFFF (GICD_ICENABLER + of_int (i * 4 div 32))) (for_range 32 GIC_IRQ_N 32) t
      in writel 1 GICD_CTRL t)"

definition gicd_clear_pending :: "u32 \<Rightarrow> trace \<Rightarrow> trace" where
  "gicd_clear_pending src_id t =
     (let n = drop_bit 5 src_id;
          t = writel (push_bit (unat (src_id AND 0x1F)) 1) (GICD_ICPENDR + push_bit 2 n) t
      in writel (push_bit (unat (src_id AND 0x1F)) 1) (GICD_ICACTIVER + push_bit 2 n) t)"

definition gicd_set_enable :: "u32 \<Rightarrow> trace \<Rightarrow> trace" where
  "gicd_set_enable src_id t =
     (let n = drop_bit 5 src_id;
          t = writel (push_bit (unat (src_id AND 0x1F)) 1) (GICD_ISENABLER + push_bit 2 n) t
      in gicd_clear_pending src_id t)"

definition gicc_get_interrupt_id :: "device \<Rightarrow> trace \<Rightarrow> u32 \<times> trace" where
  "gicc_get_interrupt_id dev t =
     (let (iar, t) = readl dev GICC_IAR t;
          t = writel iar GICC_EOIR t
      in (iar AND 0x3FF, t))"

definition gicc_ctrl_enable :: "trace \<Rightarrow> trace" where
  "gicc_ctrl_enable t =
     (let t = writel 0xFFFF0000 GICD_ICENABLER t;
          t = writel 0x0000FFFF GICD_ISENABLER t;
          t = fold (\<lambda>i. writel 0xA0A0A0A0 (GICD_IPRIORITYR + of_int (i * 4 div 4))) (for_range 0 32 4) t;
          t = writel 0xF0 GICC_PMR t
      in writel 1 GICC_CTLR t)"

subsection \<open>The timer (\<open>timer2.c\<close>)\<close>

abbreviation (input) TMR_BASE :: u32 where "TMR_BASE \<equiv> IOVABASE + 0x20C00"

definition TMR_IRQ_EN :: u32 where "TMR_IRQ_EN = TMR_BASE"
definition TMR_IRQ_STA :: u32 where "TMR_IRQ_STA = TMR_BASE + 0x4"
definition TMR2_CTRL :: u32 where "TMR2_CTRL = TMR_BASE + 0x30"
definition TMR2_INTV :: u32 where "TMR2_INTV = TMR_BASE + 0x34"
definition TMR2_GIC_SRC_ID :: u32 where "TMR2_GIC_SRC_ID = 56"
definition TIMER_INVERTAL :: u32 where "TIMER_INVERTAL = 0x100"

lemmas timer_addrs = TMR_IRQ_EN_def TMR_IRQ_STA_def TMR2_CTRL_def TMR2_INTV_def

definition timer2_clear_irq :: "trace \<Rightarrow> trace" where
  "timer2_clear_irq t = gicd_clear_pending TMR2_GIC_SRC_ID (writel (push_bit 2 1) TMR_IRQ_STA t)"

definition timer2_init :: "device \<Rightarrow> trace \<Rightarrow> trace" where
  "timer2_init dev t =
     (let t = writel TIMER_INVERTAL TMR2_INTV t;
          (en, t) = readl dev TMR_IRQ_EN t;
          t = writel (en OR push_bit 2 1) TMR_IRQ_EN t;
          t = writel 0x41 TMR2_CTRL t;
          t = gicd_set_enable TMR2_GIC_SRC_ID t
      in timer2_clear_irq t)"

subsection \<open>The serial line (\<open>uart0.c\<close>) and the output on it\<close>

definition UART0_RBR :: u32 where "UART0_RBR = IOVABASE + 0x28000"
definition UART0_THR :: u32 where "UART0_THR = IOVABASE + 0x28000"
definition UART0_LSR :: u32 where "UART0_LSR = IOVABASE + 0x28014"

lemmas uart_addrs = UART0_RBR_def UART0_THR_def UART0_LSR_def

text \<open>\<open>while (!(readl(UART0_LSR) & mask)) {}\<close>\<close>

partial_function (option) wait_lsr :: "device \<Rightarrow> u32 \<Rightarrow> trace \<Rightarrow> trace option" where
  "wait_lsr dev bits t =
     (if fst (readl dev UART0_LSR t) AND bits = 0
      then wait_lsr dev bits (snd (readl dev UART0_LSR t))
      else Some (snd (readl dev UART0_LSR t)))"

definition uart0_putc :: "device \<Rightarrow> u8 \<Rightarrow> trace \<Rightarrow> trace option" where
  "uart0_putc dev c t = do {
     t \<leftarrow> wait_lsr dev (push_bit 6 1) t;
     Some (writel (ucast c) UART0_THR t)
   }"

text \<open>A string is the list of its characters without the final NUL.\<close>

fun uart0_puts :: "device \<Rightarrow> u8 list \<Rightarrow> trace \<Rightarrow> trace option" where
  "uart0_puts dev [] t = Some t"
| "uart0_puts dev (c # cs) t = do {
     t \<leftarrow> (if c = 10 then uart0_putc dev 13 t else Some t);
     t \<leftarrow> uart0_putc dev c t;
     uart0_puts dev cs t
   }"

definition uart0_getc :: "device \<Rightarrow> trace \<Rightarrow> (u8 \<times> trace) option" where
  "uart0_getc dev t = do {
     t \<leftarrow> wait_lsr dev 1 t;
     let (v, t) = readl dev UART0_RBR t;
     Some (ucast v, t)
   }"

definition uart0_getc_non_block :: "device \<Rightarrow> trace \<Rightarrow> u8 \<times> trace" where
  "uart0_getc_non_block dev t =
     (let (l, t) = readl dev UART0_LSR t in
      if l AND 1 = 0 then (0, t)
      else let (v, t) = readl dev UART0_RBR t in (ucast v, t))"

text \<open>The callback of the kernel's \<open>printf\<close> (\<open>lib/printf.c\<close>), on the device; \<open>myoutput\<close> of \<open>Print\<close> is
  the same function on the list of the bytes sent.\<close>

definition uart_output :: "device \<Rightarrow> u8 list \<Rightarrow> trace \<Rightarrow> trace option" where
  "uart_output dev str t = (if str = [0] then Some t else uart0_puts dev str t)"

text \<open>The two system calls on the serial line (\<open>lib/svc.c\<close>); the argument of the first is cut to a character.\<close>

definition sys_putc :: "device \<Rightarrow> u32 \<Rightarrow> trace \<Rightarrow> (u32 \<times> trace) option" where
  "sys_putc dev c t = do { t \<leftarrow> uart0_putc dev (ucast c) t; Some (0, t) }"

definition sys_getc :: "device \<Rightarrow> trace \<Rightarrow> u32 \<times> trace" where
  "sys_getc dev t = (let (c, t) = uart0_getc_non_block dev t in (ucast c, t))"

subsection \<open>Traps\<close>

text \<open>\<open>trap_init\<close> maps the exception vector and enables the interrupts; the third component is \<open>cpsr\<close>.\<close>

definition trap_init :: "kstate \<Rightarrow> trace \<Rightarrow> u32 \<Rightarrow> (kstate \<times> trace \<times> u32) option" where
  "trap_init s t cpsr = do {
     (r, s) \<leftarrow> page_insert (mCONTEXT s) 0 0xFFFF0000 0 s;
     if r \<noteq> Inr () then None
     else Some (s, gicc_ctrl_enable (gicd_ctrl_enable t), cpsr AND NOT 0x80)
   }"

text \<open>The whole handler of \<open>lib/irq.c\<close>: \<open>irq_handler\<close> is its effect on the kernel's variables.\<close>

definition handle_irq :: "device \<Rightarrow> u32 \<Rightarrow> kstate \<Rightarrow> trace \<Rightarrow> (unit ctl \<times> trace) option" where
  "handle_irq dev spsr s t = do {
     let (interrupt_id, t) = gicc_get_interrupt_id dev t;
     let timer = (interrupt_id = TMR2_GIC_SRC_ID);
     let t = (if timer then timer2_clear_irq t else t);
     c \<leftarrow> irq_handler (spsr AND 0x1F = 0x13) timer s;
     Some (c, t)
   }"

end
