(* ===== verification/Printing.thy ===== *)
theory Printing
  imports Print
begin

section \<open>Formatted output: what the conversions produce\<close>

subsection \<open>The buffer loops\<close>

lemma foldM_wr:
  "a \<le> b \<Longrightarrow> b \<le> length buf \<Longrightarrow>
    foldM (\<lambda>i. wr i (f i)) [a..<b] buf = Some (take a buf @ map f [a..<b] @ drop b buf)"
proof (induction b)
  case (Suc b)
  show ?case
  proof (cases "a = Suc b")
    case False
    then have ab: "a \<le> b" "b < length buf" using Suc.prems by simp_all
    have "(take a buf @ map f [a..<b] @ drop b buf)[b := f b] = take a buf @ map f [a..<Suc b] @ drop (Suc b) buf"
      using ab by (simp add: list_update_append Cons_nth_drop_Suc [symmetric])
    then show ?thesis using Suc ab by (simp add: foldM_append wr_def)
  qed simp
qed simp

lemma foldM_wr_None:
  assumes "a < b" "length buf < b"
  shows "foldM (\<lambda>i. wr i (f i)) [a..<b] buf = None"
proof (cases "length buf \<le> a")
  case True
  then show ?thesis using assms by (simp add: upt_conv_Cons wr_def)
next
  case False
  then have "[a..<b] = [a..<length buf] @ [length buf..<b]"
    using assms upt_add_eq_append [of a "length buf" "b - length buf"] by simp
  then show ?thesis
    using False assms by (simp add: foldM_append foldM_wr upt_conv_Cons wr_def)
qed

lemma reverse_loop_append:
  "reverse_loop (as @ ms @ cs) (length as) (length as + length ms - 1) = Some (as @ rev ms @ cs)"
proof (induction "length ms" arbitrary: as ms cs rule: less_induct)
  case less
  show ?case
  proof (cases "length ms < 2")
    case True
    then have "rev ms = ms" by (cases ms) auto
    then show ?thesis using True by (subst reverse_loop.simps) auto
  next
    case False
    then obtain x ms' where x: "ms = x # ms'" "ms' \<noteq> []" by (cases ms) auto
    obtain ns y where y: "ms' = ns @ [y]" using x(2) by (metis append_butlast_last_id)
    have ms: "ms = x # ns @ [y]" using x y by simp
    have nth: "(as @ x # ns @ y # cs) ! Suc (length as + length ns) = y"
      by (simp add: nth_append)
    have w: "wr (length as) y (as @ x # ns @ y # cs) = Some (as @ y # ns @ y # cs)"
      "wr (Suc (length as + length ns)) x (as @ y # ns @ y # cs) = Some (as @ y # ns @ x # cs)"
      by (simp_all add: wr_def list_update_append)
    have "reverse_loop ((as @ [y]) @ ns @ (x # cs)) (length (as @ [y])) (length (as @ [y]) + length ns - 1)
        = Some ((as @ [y]) @ rev ns @ (x # cs))"
      by (rule less) (simp add: ms)
    then show ?thesis
      unfolding ms by (subst reverse_loop.simps) (simp add: nth w)
  qed
qed

lemma reverse_loop_take:
  "n \<le> length buf \<Longrightarrow> reverse_loop buf 0 (n - 1) = Some (rev (take n buf) @ drop n buf)"
  using reverse_loop_append [of "[]" "take n buf" "drop n buf"] by (simp add: min.absorb2)

subsection \<open>Digits\<close>

function digs :: "nat \<Rightarrow> nat \<Rightarrow> nat list" where
  "digs b n = n mod b # (if n div b = 0 \<or> b < 2 then [] else digs b (n div b))"
  by pat_completeness auto
termination
proof (relation "measure snd", goal_cases)
  case (2 b n)
  then have "0 < n" by (cases n) auto
  then show ?case using 2 by (simp add: div_less_dividend)
qed simp

declare digs.simps [simp del]

fun from_digits :: "nat \<Rightarrow> nat list \<Rightarrow> nat" where
  "from_digits b [] = 0"
| "from_digits b (d # ds) = d + b * from_digits b ds"

lemma from_digs: "2 \<le> b \<Longrightarrow> from_digits b (digs b n) = n"
proof (induction b n rule: digs.induct)
  case (1 b n)
  then show ?case
    by (subst digs.simps) (auto simp: mod_mult_div_eq div_eq_0_iff)
qed

lemma digs_less: "2 \<le> b \<Longrightarrow> d \<in> set (digs b n) \<Longrightarrow> d < b"
proof (induction b n rule: digs.induct)
  case (1 b n)
  then show ?case by (subst (asm) (2) digs.simps) (auto split: if_splits)
qed

lemma length_digs: "2 \<le> b \<Longrightarrow> n < 2 ^ Suc k \<Longrightarrow> length (digs b n) \<le> Suc k"
proof (induction k arbitrary: n)
  case 0
  then show ?case by (subst digs.simps) (auto simp: less_2_cases_iff)
next
  case (Suc k)
  have "n div b \<le> n div 2" using Suc.prems(1) by (simp add: div_le_mono2)
  also have "n div 2 < 2 ^ Suc k" using Suc.prems(2) by simp
  finally have "length (digs b (n div b)) \<le> Suc k" by (rule Suc.IH [OF Suc.prems(1)])
  then show ?case by (subst digs.simps) auto
qed

definition dchar :: "bool \<Rightarrow> nat \<Rightarrow> u8" where
  "dchar upcase d = digit_char upcase (of_nat d)"

lemma print_digits_correct:
  assumes "2 \<le> unat base" "p + length (digs (unat base) (unat u)) \<le> length buf"
  shows "print_digits u base upcase buf p =
    (let ds = map (dchar upcase) (digs (unat base) (unat u))
     in Some (take p buf @ ds @ drop (p + length ds) buf, p + length ds))"
  using assms(2)
proof (induction "unat u" arbitrary: u buf p rule: less_induct)
  case less
  let ?d = "dchar upcase (unat u mod unat base)"
  have d: "digit_char upcase (u mod base) = ?d"
    by (simp add: dchar_def unat_mod [symmetric])
  have p: "p < length buf" using less.prems by (subst (asm) digs.simps) simp
  have w: "wr p ?d buf = Some (buf[p := ?d])" using p by (simp add: wr_def)
  have z: "u div base \<noteq> 0 \<longleftrightarrow> unat u div unat base \<noteq> 0"
    by (simp add: word_unat_eq_iff unat_div)
  show ?case
  proof (cases "u div base = 0")
    case True
    then have "digs (unat base) (unat u) = [unat u mod unat base]" using z by (subst digs.simps) simp
    then show ?thesis
      using True p w by (subst print_digits.simps) (simp add: d Let_def upd_conv_take_nth_drop)
  next
    case False
    then have ds: "digs (unat base) (unat u) = unat u mod unat base # digs (unat base) (unat (u div base))"
      using z assms(1) by (subst digs.simps) (simp add: unat_div)
    have "unat (u div base) < unat u"
      using False z assms(1) by (simp add: unat_div) (metis Suc_1 Suc_le_lessD div_0 div_less_dividend neq0_conv)
    moreover have "p + 1 + length (digs (unat base) (unat (u div base))) \<le> length (buf[p := ?d])"
      using less.prems ds by simp
    ultimately have "print_digits (u div base) base upcase (buf[p := ?d]) (p + 1) =
      (let ds = map (dchar upcase) (digs (unat base) (unat (u div base)))
       in Some (take (p + 1) (buf[p := ?d]) @ ds @ drop (p + 1 + length ds) (buf[p := ?d]), p + 1 + length ds))"
      by (rule less.hyps)
    then show ?thesis
      using False p w
      by (subst print_digits.simps) (simp add: d ds Let_def take_Suc_conv_app_nth)
  qed
qed

subsection \<open>Whole conversions\<close>

text \<open>The text of a number in a field: \<open>ds\<close> are its digits, most significant first.\<close>

definition num_layout :: "nat \<Rightarrow> bool \<Rightarrow> u8 \<Rightarrow> bool \<Rightarrow> u8 list \<Rightarrow> u8 list" where
  "num_layout w lj pad neg ds =
     (let sign = (if neg then [45] else []); fill = replicate (w - length (sign @ ds))
      in if lj then sign @ ds @ fill 32
         else if pad = 48 then sign @ fill 48 @ ds else fill pad @ sign @ ds)"

definition num_text :: "bool \<Rightarrow> nat \<Rightarrow> nat \<Rightarrow> u8 list" where
  "num_text upcase b n = rev (map (dchar upcase) (digs b n))"

lemma map_const_upt: "map (\<lambda>_. c) [a..<b] = replicate (b - a) c"
  by (simp add: map_replicate_const)

lemma PrintNum_layout:
  assumes base: "2 \<le> unat base" and buf: "length buf = LP_MAX_BUF" and w: "w \<le> LP_MAX_BUF"
  obtains buf' where "length buf' = LP_MAX_BUF"
    "PrintNum buf u base neg w lj pad up =
       Some (length (num_layout w lj pad neg (num_text up (unat base) (unat u))), buf')"
    "take (length (num_layout w lj pad neg (num_text up (unat base) (unat u)))) buf' =
       num_layout w lj pad neg (num_text up (unat base) (unat u))"
proof -
  define ds where "ds = map (dchar up) (digs (unat base) (unat u))"
  have tx: "num_text up (unat base) (unat u) = rev ds" by (simp add: num_text_def ds_def)
  have "unat u < 2 ^ Suc 31" using unat_u32 [of u] by simp
  then have k: "length ds \<le> 32" using length_digs [OF base, of "unat u" 31] by (simp add: ds_def)
  have dig: "print_digits u base up buf 0 = Some (ds @ drop (length ds) buf, length ds)"
    using print_digits_correct [OF base, of 0 u buf up] k buf by (simp add: ds_def Let_def)
  define bd where "bd = (if neg then ds @ [45] else ds)"
  have bl: "length bd \<le> 33" using k by (simp add: bd_def)
  have sgn1: "(if neg then do { b \<leftarrow> wr (length ds) 45 (ds @ drop (length ds) buf); Some (b, length ds + 1) }
      else Some (ds @ drop (length ds) buf, length ds)) = Some (bd @ drop (length bd) buf, length bd)"
    using k buf by (auto simp: wr_def bd_def list_update_append Cons_nth_drop_Suc [symmetric])
  define n where "n = (if w < length bd then length bd else w)"
  have n: "length bd \<le> n" "n \<le> 80" using bl w by (auto simp: n_def)
  define pad' where "pad' = (if lj then 32 else pad)"
  define whole where "whole = (if neg \<and> \<not> lj \<and> pad' = 48 then ds @ replicate (n - length bd) 48 @ [45]
      else bd @ replicate (n - length bd) pad')"
  have rl: "length whole = n" using n by (auto simp: whole_def bd_def)
  have fl: "(if neg \<and> \<not> lj \<and> pad' = 48
      then do { b \<leftarrow> foldM (\<lambda>i. wr i pad') [length bd - 1..<n - 1] (bd @ drop (length bd) buf); wr (n - 1) 45 b }
      else foldM (\<lambda>i. wr i pad') [length bd..<n] (bd @ drop (length bd) buf)) = Some (whole @ drop n buf)"
  proof (cases "neg \<and> \<not> lj \<and> pad' = 48")
    case True
    then have b: "length bd = Suc (length ds)" "bd = ds @ [45]" by (simp_all add: bd_def)
    obtain m where m: "n = Suc m" using n b by (cases n) auto
    have "foldM (\<lambda>i. wr i pad') [length ds..<m] (bd @ drop (length bd) buf) =
        Some (ds @ replicate (m - length ds) 48 @ drop m (bd @ drop (length bd) buf))"
      using n b m buf True by (subst foldM_wr) (simp_all add: map_const_upt)
    moreover have "wr m 45 (ds @ replicate (m - length ds) 48 @ drop m (bd @ drop (length bd) buf)) =
        Some (ds @ replicate (m - length ds) 48 @ 45 # drop (Suc m) buf)"
    proof -
      let ?B = "bd @ drop (length bd) buf"
      have "length ds \<le> m" "m < length ?B" using n b m buf by simp_all
      moreover from this(2) have "drop m ?B = ?B ! m # drop (Suc m) ?B" by (simp only: Cons_nth_drop_Suc)
      moreover have "drop (Suc m) ?B = drop (Suc m) buf" using n b m by (simp add: Suc_diff_le)
      ultimately show ?thesis by (simp add: wr_def list_update_append)
    qed
    ultimately show ?thesis using True b m by (simp add: whole_def)
  next
    case False
    then show ?thesis
      using n buf by (auto simp: foldM_wr map_const_upt whole_def)
  qed
  define a where "a = (if lj then length bd else n)"
  have rv: "reverse_loop (whole @ drop n buf) 0 (if lj then length bd - 1 else n - 1) =
      Some (rev (take a whole) @ drop a whole @ drop n buf)"
    using reverse_loop_take [of a "whole @ drop n buf"] rl n by (auto simp: a_def)
  have lay: "rev (take a whole) @ drop a whole = num_layout w lj pad neg (rev ds)"
    using n by (auto simp: a_def whole_def bd_def num_layout_def pad'_def n_def)
  have "PrintNum buf u base neg w lj pad up = Some (n, num_layout w lj pad neg (rev ds) @ drop n buf)"
    by (simp only: PrintNum_def dig Option.bind.simps prod.case sgn1 Let_def n_def [symmetric]
        pad'_def [symmetric] fl rv lay [symmetric] append_assoc)
  moreover have "length (num_layout w lj pad neg (rev ds)) = n" using lay rl by (metis length_append length_rev append_take_drop_id)
  ultimately show thesis
    using that [of "num_layout w lj pad neg (rev ds) @ drop n buf"] n buf by (simp add: tx)
qed

lemma PrintNum_None:
  assumes base: "2 \<le> unat base" and buf: "length buf = LP_MAX_BUF" and w: "LP_MAX_BUF < w"
  shows "PrintNum buf u base neg w lj pad up = None"
proof -
  define ds where "ds = map (dchar up) (digs (unat base) (unat u))"
  have "unat u < 2 ^ Suc 31" using unat_u32 [of u] by simp
  then have k: "length ds \<le> 32" using length_digs [OF base, of "unat u" 31] by (simp add: ds_def)
  have dig: "print_digits u base up buf 0 = Some (ds @ drop (length ds) buf, length ds)"
    using print_digits_correct [OF base, of 0 u buf up] k buf by (simp add: ds_def Let_def)
  have sgn: "(if neg then do { b \<leftarrow> wr (length ds) 45 (ds @ drop (length ds) buf); Some (b, length ds + 1) }
      else Some (ds @ drop (length ds) buf, length ds)) =
      Some ((if neg then ds @ 45 # drop (length ds + 1) buf else ds @ drop (length ds) buf),
        if neg then length ds + 1 else length ds)"
    using k buf by (auto simp: wr_def list_update_append Cons_nth_drop_Suc [symmetric])
  have fill: "foldM (\<lambda>i. wr i c) [a..<w] b = None" if "a < 80" "length b = 80" for a b c
    using that w by (intro foldM_wr_None) simp_all
  have fill1: "foldM (\<lambda>i. wr i c) [a..<w - 1] b \<bind> wr (w - 1) d = None" if "a < 80" "length b = 80" for a b c d
  proof (cases "w = 81")
    case True
    then show ?thesis using that by (simp add: foldM_wr wr_def)
  next
    case False
    then have "foldM (\<lambda>i. wr i c) [a..<w - 1] b = None"
      using that w by (intro foldM_wr_None) simp_all
    then show ?thesis by simp
  qed
  show ?thesis
    using k w buf fill fill1 by (simp add: PrintNum_def dig sgn del: One_nat_def cong: if_cong)
qed

text \<open>The text of a string or character in a field.\<close>

definition str_layout :: "nat \<Rightarrow> bool \<Rightarrow> u8 list \<Rightarrow> u8 list" where
  "str_layout w lj str =
     (let fill = replicate (w - length str) 32 in if lj then str @ fill else fill @ str)"

lemma map_nth_shift: "map (\<lambda>i. str ! (i + length str - n)) [n - length str..<n] = str" if "length str \<le> n"
proof (rule nth_equalityI)
  show "length (map (\<lambda>i. str ! (i + length str - n)) [n - length str..<n]) = length str" using that by simp
qed (use that in simp)

lemma PrintString_layout:
  assumes "length buf = LP_MAX_BUF"
  shows "PrintString buf str w lj =
    (if length (str_layout w lj str) \<le> LP_MAX_BUF
     then Some (length (str_layout w lj str), str_layout w lj str @ drop (length (str_layout w lj str)) buf)
     else None)"
proof -
  define n where "n = (if w < length str then length str else w)"
  have n: "length str \<le> n" "length (str_layout w lj str) = n" by (auto simp: n_def str_layout_def)
  show ?thesis
  proof (cases "n \<le> 80")
    case True
    have id: "map ((!) str) [0..<length str] = str" by (rule map_nth)
    show ?thesis
      using True n assms
      by (auto simp: PrintString_def n_def [symmetric] Let_def foldM_wr map_const_upt id map_nth_shift)
        (auto simp: str_layout_def n_def)
  next
    case False
    show ?thesis
    proof (cases lj)
      case True
      have "foldM (\<lambda>i. wr i (str ! i)) [0..<length str] buf = None" if "\<not> length str \<le> 80"
        using that assms by (intro foldM_wr_None) auto
      then show ?thesis
        using True False n assms
        by (cases "length str \<le> 80")
          (auto simp: PrintString_def n_def [symmetric] Let_def foldM_wr foldM_wr_None)
    next
      case lj: False
      have "foldM (\<lambda>i. wr i 32) [0..<n - length str] buf = None" if "\<not> n - length str \<le> 80"
        using that assms by (intro foldM_wr_None) auto
      moreover have "foldM (\<lambda>i. wr i (f i)) [n - length str..<n] b = None"
        if "n - length str \<le> 80" "length b = 80" for f b
        using that False n(1) by (intro foldM_wr_None) auto
      ultimately have "PrintString buf str w lj = None"
        using lj assms
        by (cases "n - length str \<le> 80") (simp_all add: PrintString_def n_def [symmetric] Let_def foldM_wr)
      then show ?thesis using False n(2) by simp
    qed
  qed
qed

lemma PrintChar_layout:
  assumes "length buf = LP_MAX_BUF"
  shows "PrintChar buf c w lj =
    (if length (str_layout w lj [c]) \<le> LP_MAX_BUF
     then Some (length (str_layout w lj [c]), str_layout w lj [c] @ drop (length (str_layout w lj [c])) buf)
     else None)"
proof -
  have "PrintChar buf c w lj = PrintString buf [c] w lj"
  proof (cases w)
    case 0
    then show ?thesis by (simp add: PrintChar_def PrintString_def Let_def)
  next
    case (Suc v)
    then show ?thesis by (simp add: PrintChar_def PrintString_def Let_def)
  qed
  then show ?thesis using PrintString_layout [OF assms, of "[c]"] by simp
qed

subsection \<open>The formatter as a list of chunks\<close>

text \<open>What a format means: the list of texts handed to the callback, without a buffer.\<close>

definition num_chunk :: "spec \<Rightarrow> nat \<Rightarrow> bool \<Rightarrow> bool \<Rightarrow> va list \<Rightarrow> (u8 list \<times> va list) option" where
  "num_chunk sp b sgned up ap = do {
     (num, ap) \<leftarrow> va_num ap;
     let neg = sgned \<and> sint num < 0;
     Some (num_layout (width sp) (ladjust sp) (padc sp) neg
       (num_text up b (unat (if neg then - num else num))), ap)
   }"

definition chunk :: "spec \<Rightarrow> u8 \<Rightarrow> va list \<Rightarrow> (u8 list \<times> va list) option" where
  "chunk sp c ap =
     (if c = 98 then num_chunk sp 2 False False ap
      else if c = 100 \<or> c = 68 then num_chunk sp 10 True False ap
      else if c = 111 \<or> c = 79 then num_chunk sp 8 False False ap
      else if c = 117 \<or> c = 85 then num_chunk sp 10 False False ap
      else if c = 120 then num_chunk sp 16 False False ap
      else if c = 88 then num_chunk sp 16 False True ap
      else if c = 99 then do {
        (num, ap) \<leftarrow> va_num ap;
        Some (str_layout (width sp) (ladjust sp) [ucast num], ap)
      }
      else if c = 115 then do {
        (str, ap) \<leftarrow> va_str ap;
        Some (str_layout (width sp) (ladjust sp) str, ap)
      }
      else Some ([c], ap))"

lemma parse_rest_length:
  assumes "dropWhile (\<lambda>c. c \<noteq> 37) fmt = p # rest" "parse_spec rest = (sp, c # rest')"
  shows "length rest' < length fmt"
proof -
  have "length (p # rest) \<le> length fmt" using assms(1) by (metis length_dropWhile_le)
  moreover have "length (c # rest') \<le> length rest"
    using parse_spec_length [of rest] assms(2) by simp
  ultimately show ?thesis by simp
qed

function render :: "u8 list \<Rightarrow> va list \<Rightarrow> u8 list list option" where
  "render fmt ap =
     (case dropWhile (\<lambda>c. c \<noteq> 37) fmt of
        [] \<Rightarrow> Some [takeWhile (\<lambda>c. c \<noteq> 37) fmt]
      | _ # rest \<Rightarrow>
          (case parse_spec rest of
             (sp, []) \<Rightarrow> Some [takeWhile (\<lambda>c. c \<noteq> 37) fmt, []]
           | (sp, c # rest') \<Rightarrow> do {
               (t, ap) \<leftarrow> chunk sp c ap;
               cs \<leftarrow> render rest' ap;
               Some (takeWhile (\<lambda>c. c \<noteq> 37) fmt # t # cs)
             }))"
  by pat_completeness auto
termination
proof (relation "measure (length \<circ> fst)", goal_cases)
  case (2 fmt ap p rest sp r c rest')
  then show ?case using parse_rest_length [of fmt p rest sp c rest'] by simp
qed simp

declare render.simps [simp del]

definition fits :: "u8 list \<Rightarrow> bool" where
  "fits t \<longleftrightarrow> length t \<le> LP_MAX_BUF"

lemma print_num_chunk:
  assumes "length buf = LP_MAX_BUF" "2 \<le> unat base"
  shows "case num_chunk sp (unat base) sgned up ap of
      None \<Rightarrow> print_num output buf sp base sgned up ap s = None
    | Some (t, ap') \<Rightarrow>
        if fits t then \<exists>buf'. length buf' = LP_MAX_BUF \<and>
            print_num output buf sp base sgned up ap s = Some (buf', ap', output t s)
        else print_num output buf sp base sgned up ap s = None"
proof (cases "va_num ap")
  case None
  then show ?thesis by (simp add: num_chunk_def print_num_def)
next
  case (Some na)
  then obtain num ap' where na: "va_num ap = Some (num, ap')" by (cases na) auto
  define neg where "neg \<longleftrightarrow> sgned \<and> sint num < 0"
  define u where "u = (if neg then - num else num)"
  define t where "t = num_layout (width sp) (ladjust sp) (padc sp) neg (num_text up (unat base) (unat u))"
  have ch: "num_chunk sp (unat base) sgned up ap = Some (t, ap')"
    by (simp add: num_chunk_def na Let_def neg_def [symmetric] u_def [symmetric] t_def)
  show ?thesis
  proof (cases "width sp \<le> LP_MAX_BUF")
    case True
    obtain buf' where b: "length buf' = LP_MAX_BUF"
      "PrintNum buf u base neg (width sp) (ladjust sp) (padc sp) up = Some (length t, buf')"
      "take (length t) buf' = t"
      using PrintNum_layout [OF assms(2,1) True, of u neg "ladjust sp" "padc sp" up] unfolding t_def by blast
    have "length t \<le> LP_MAX_BUF" using b(1,3) by (metis length_take min.cobounded1)
    then have "fits t" by (simp add: fits_def)
    moreover have "print_num output buf sp base sgned up ap s = Some (buf', ap', output t s)"
      using \<open>length t \<le> LP_MAX_BUF\<close>
      by (simp add: print_num_def na Let_def neg_def [symmetric] u_def [symmetric] b OUTPUT_def)
    ultimately show ?thesis using b(1) by (simp add: ch)
  next
    case False
    then have "LP_MAX_BUF < length t" by (auto simp: t_def num_layout_def Let_def)
    moreover have "print_num output buf sp base sgned up ap s = None"
      using PrintNum_None [OF assms(2,1), of "width sp" u neg] False
      by (simp add: print_num_def na Let_def neg_def [symmetric] u_def [symmetric])
    ultimately show ?thesis by (simp add: ch fits_def)
  qed
qed

lemma convert_chunk:
  assumes "length buf = LP_MAX_BUF"
  shows "case chunk sp c ap of
      None \<Rightarrow> convert output buf sp c ap s = None
    | Some (t, ap') \<Rightarrow>
        if fits t then \<exists>buf'. length buf' = LP_MAX_BUF \<and>
            convert output buf sp c ap s = Some (buf', ap', output t s)
        else convert output buf sp c ap s = None"
proof -
  consider (num) base sg up where "2 \<le> unat base" "chunk sp c ap = num_chunk sp (unat base) sg up ap"
      "convert output buf sp c ap s = print_num output buf sp base sg up ap s"
    | (chr) "c = 99" | (str) "c = 115"
    | (lit) "chunk sp c ap = Some ([c], ap)"
      "convert output buf sp c ap s = do { s \<leftarrow> OUTPUT output [c] s; Some (buf, ap, s) }"
  proof -
    assume *: "\<And>base sg up. 2 \<le> unat base \<Longrightarrow> chunk sp c ap = num_chunk sp (unat base) sg up ap \<Longrightarrow>
      convert output buf sp c ap s = print_num output buf sp base sg up ap s \<Longrightarrow> thesis"
      "c = 99 \<Longrightarrow> thesis" "c = 115 \<Longrightarrow> thesis"
      "chunk sp c ap = Some ([c], ap) \<Longrightarrow>
       convert output buf sp c ap s = do { s \<leftarrow> OUTPUT output [c] s; Some (buf, ap, s) } \<Longrightarrow> thesis"
    consider "c = 98" | "c = 100 \<or> c = 68" | "c = 111 \<or> c = 79" | "c = 117 \<or> c = 85" | "c = 120" | "c = 88"
      | "c = 99" | "c = 115" | "c \<notin> {98, 100, 68, 111, 79, 117, 85, 120, 88, 99, 115}" by auto
    then show thesis
    proof cases
      case 1 show ?thesis by (rule *(1) [of 2 False False]) (simp_all add: chunk_def convert_def 1)
    next
      case 2 show ?thesis by (rule *(1) [of 10 True False]) (use 2 in \<open>auto simp: chunk_def convert_def\<close>)
    next
      case 3 show ?thesis by (rule *(1) [of 8 False False]) (use 3 in \<open>auto simp: chunk_def convert_def\<close>)
    next
      case 4 show ?thesis by (rule *(1) [of 10 False False]) (use 4 in \<open>auto simp: chunk_def convert_def\<close>)
    next
      case 5 show ?thesis by (rule *(1) [of 16 False False]) (simp_all add: chunk_def convert_def 5)
    next
      case 6 show ?thesis by (rule *(1) [of 16 False True]) (simp_all add: chunk_def convert_def 6)
    next
      case 7 then show ?thesis by (rule *(2))
    next
      case 8 then show ?thesis by (rule *(3))
    next
      case 9 show ?thesis by (rule *(4)) (use 9 in \<open>simp_all add: chunk_def convert_def\<close>)
    qed
  qed
  then show ?thesis
  proof cases
    case num
    show ?thesis unfolding num(2,3) by (rule print_num_chunk [OF assms num(1)])
  next
    case chr
    show ?thesis
      by (cases "va_num ap")
        (auto simp: chr chunk_def convert_def PrintChar_layout [OF assms] fits_def OUTPUT_def assms)
  next
    case str
    show ?thesis
      by (cases "va_str ap")
        (auto simp: str chunk_def convert_def PrintString_layout [OF assms] fits_def OUTPUT_def assms)
  next
    case lit
    then show ?thesis using assms by (auto simp: fits_def OUTPUT_def)
  qed
qed

lemma lp_loop_render:
  "length buf = LP_MAX_BUF \<Longrightarrow>
    lp_loop output buf fmt ap s =
      (case render fmt ap of None \<Rightarrow> None
       | Some cs \<Rightarrow> if list_all fits cs then Some (fold output cs s) else None)"
proof (induction fmt ap arbitrary: buf s rule: render.induct)
  case (1 fmt ap)
  let ?lit = "takeWhile (\<lambda>c. c \<noteq> 37) fmt"
  show ?case
  proof (cases "dropWhile (\<lambda>c. c \<noteq> 37) fmt")
    case Nil
    have "lp_loop output buf fmt ap s = OUTPUT output ?lit s" "render fmt ap = Some [?lit]"
      by (subst lp_loop.simps, simp only: Nil list.case Option.bind_runit)
        (subst render.simps, simp only: Nil list.case)
    then show ?thesis by (simp add: OUTPUT_def fits_def)
  next
    case (Cons p rest)
    obtain sp r where ps: "parse_spec rest = (sp, r)" by fastforce
    show ?thesis
    proof (cases r)
      case Nil
      have "lp_loop output buf [] ap s' = Some (output [] s')" for s'
        by (subst lp_loop.simps) (simp add: OUTPUT_def)
      moreover have "lp_loop output buf fmt ap s = do { s \<leftarrow> OUTPUT output ?lit s; lp_loop output buf [] ap s }"
        by (subst lp_loop.simps) (simp only: Cons ps Nil list.case prod.case)
      moreover have "render fmt ap = Some [?lit, []]"
        by (subst render.simps) (simp only: Cons ps Nil list.case prod.case)
      ultimately show ?thesis
        by (simp add: OUTPUT_def fits_def)
    next
      case r: (Cons c rest')
      note IH = "1.IH" [OF Cons, of sp r c rest', OF ps [symmetric] r]
      note conv = convert_chunk [OF "1.prems", where sp = sp and c = c and ap = ap]
      have L: "lp_loop output buf fmt ap s = do {
          s \<leftarrow> OUTPUT output ?lit s;
          (buf, ap, s) \<leftarrow> convert output buf sp c ap s;
          lp_loop output buf rest' ap s }"
        by (subst lp_loop.simps) (simp only: Cons ps r list.case prod.case)
      have R: "render fmt ap = do { (t, ap) \<leftarrow> chunk sp c ap; cs \<leftarrow> render rest' ap; Some (?lit # t # cs) }"
        by (subst render.simps) (simp only: Cons ps r list.case prod.case)
      show ?thesis
      proof (cases "chunk sp c ap")
        case None
        then show ?thesis using conv [where s = "output ?lit s"] by (simp add: L R OUTPUT_def)
      next
        case (Some tap)
        then obtain t ap' where ch: "chunk sp c ap = Some (t, ap')" by (cases tap) auto
        show ?thesis
        proof (cases "fits t")
          case False
          then show ?thesis
            using conv [where s = "output ?lit s"] ch
            by (cases "render rest' ap'") (simp_all add: L R OUTPUT_def)
        next
          case True
          then obtain buf' where b: "length buf' = LP_MAX_BUF"
            "convert output buf sp c ap (output ?lit s) = Some (buf', ap', output t (output ?lit s))"
            using conv [where s = "output ?lit s"] ch by auto
          show ?thesis
          proof (cases "fits ?lit")
            case fl: True
            then have "OUTPUT output ?lit s = Some (output ?lit s)" by (simp add: OUTPUT_def fits_def)
            then have "lp_loop output buf fmt ap s = lp_loop output buf' rest' ap' (output t (output ?lit s))"
              by (simp add: L b(2))
            also have "\<dots> = (case render rest' ap' of None \<Rightarrow> None
                | Some cs \<Rightarrow> if list_all fits cs then Some (fold output cs (output t (output ?lit s))) else None)"
              by (rule IH [OF ch refl b(1)])
            finally show ?thesis
              using fl True by (cases "render rest' ap'") (simp_all add: R ch)
          next
            case fl: False
            then have "OUTPUT output ?lit s = None" by (simp add: OUTPUT_def fits_def)
            then show ?thesis
              using fl by (cases "render rest' ap'") (simp_all add: L R ch)
          qed
        qed
      qed
    qed
  qed
qed

subsection \<open>Properties\<close>

text \<open>Property C31. \<open>lp_Print\<close> never writes outside its 80-byte buffer and comes back exactly when
  every chunk of the format fits in 80 bytes; it then hands the chunks of \<open>render\<close> to the
  callback in order, followed by the terminating NUL.\<close>

theorem lp_Print_correct:
  assumes "length buf = LP_MAX_BUF"
  shows "lp_Print output buf fmt ap s =
    (case render fmt ap of None \<Rightarrow> None
     | Some cs \<Rightarrow> if list_all fits cs then Some (output [0] (fold output cs s)) else None)"
  by (cases "render fmt ap") (simp_all add: lp_Print_def lp_loop_render [OF assms] OUTPUT_def)

theorem lp_Print_correct_witness:
  "lp_Print (\<lambda>t s. s @ [t]) (replicate 80 1) [97, 37, 45, 51, 100, 37, 115] [Num (- 7), Str [98]] [] =
    Some [[97], [45, 55, 32], [], [98], [], [0]]"
  unfolding lp_Print_correct [of "replicate 80 1", simplified]
  by (simp add: render.simps parse_spec_def IsDigit_def chunk_def num_chunk_def num_layout_def str_layout_def
      num_text_def digs.simps dchar_def digit_char_def fits_def)

definition crlf :: "u8 list \<Rightarrow> u8 list" where
  "crlf t = concat (map (\<lambda>c. if c = 10 then [13, 10] else [c]) t)"

lemma fold_myoutput: "fold myoutput cs con = con @ crlf (concat (filter (\<lambda>t. t \<noteq> [0]) cs))"
  by (induction cs arbitrary: con) (auto simp: myoutput_def crlf_def)

text \<open>Property C32. \<open>printf\<close> sends the text of the format to the console, with a carriage return
  before every line feed; only a chunk that is a single NUL is dropped.\<close>

theorem printf_correct:
  assumes "length buf = LP_MAX_BUF" "render fmt ap = Some cs" "list_all fits cs"
  shows "printf buf fmt ap con = Some (con @ crlf (concat (filter (\<lambda>t. t \<noteq> [0]) cs)))"
  by (simp add: printf_def lp_Print_def lp_loop_render [OF assms(1)] assms(2,3) OUTPUT_def fold_myoutput)
    (simp add: myoutput_def)

theorem printf_correct_witness:
  "printf (replicate 80 1) [37, 48, 52, 120, 10] [Num 0x2A] [62] = Some [62, 48, 48, 50, 97, 13, 10]"
proof -
  have "render [37, 48, 52, 120, 10] [Num 0x2A] = Some [[], [48, 48, 50, 97], [10]]"
    by (simp add: render.simps parse_spec_def IsDigit_def chunk_def num_chunk_def num_layout_def
        num_text_def digs.simps dchar_def digit_char_def) (simp add: numeral_2_eq_2)
  from printf_correct [OF _ this, of "replicate 80 1"] show ?thesis
    by (simp add: fits_def crlf_def)
qed

text \<open>The value of a digit string, most significant digit first.\<close>

definition char_val :: "u8 \<Rightarrow> nat" where
  "char_val c = (if c \<le> 57 then unat c - 48 else if c \<le> 90 then unat c - 55 else unat c - 87)"

definition read_num :: "nat \<Rightarrow> u8 list \<Rightarrow> nat" where
  "read_num b cs = foldl (\<lambda>v c. b * v + char_val c) 0 cs"

lemma char_val_dchar: "d < 36 \<Longrightarrow> char_val (dchar up d) = d"
proof -
  assume "d < 36"
  then have "d \<in> set [0..<36]" by simp
  then show ?thesis
    by (simp add: upt_rec) (elim disjE; cases up; simp add: char_val_def dchar_def digit_char_def)
qed

lemma read_num_zeros: "read_num b (replicate k 48 @ cs) = read_num b cs"
  by (induction k) (simp_all add: read_num_def char_val_def)

lemma foldl_rev_digits:
  "foldl (\<lambda>v c. b * v + char_val c) 0 (rev (map f ds)) = from_digits b (map (char_val \<circ> f) ds)"
  by (induction ds) (simp_all add: add.commute)

lemma read_num_text:
  assumes "2 \<le> b" "b \<le> 36"
  shows "read_num b (num_text up b n) = n"
proof -
  have "map (char_val \<circ> dchar up) (digs b n) = digs b n"
    using assms digs_less [OF assms(1), of _ n] by (intro map_idI) (fastforce simp: char_val_dchar)
  then show ?thesis
    by (simp add: read_num_def num_text_def foldl_rev_digits from_digs [OF assms(1)])
qed

text \<open>Property. The text that \<open>PrintNum\<close> leaves in the buffer for an unsigned number, zero
  padded to any width the buffer holds, reads back as that number.\<close>

theorem PrintNum_roundtrip:
  assumes "2 \<le> unat base" "unat base \<le> 36" "length buf = LP_MAX_BUF" "w \<le> LP_MAX_BUF"
  shows "\<exists>n buf'. PrintNum buf u base False w False 48 up = Some (n, buf') \<and>
    w \<le> n \<and> n \<le> LP_MAX_BUF \<and> length buf' = LP_MAX_BUF \<and> read_num (unat base) (take n buf') = unat u"
proof -
  let ?t = "num_layout w False 48 False (num_text up (unat base) (unat u))"
  obtain buf' where b: "length buf' = LP_MAX_BUF" "PrintNum buf u base False w False 48 up = Some (length ?t, buf')"
    "take (length ?t) buf' = ?t"
    using PrintNum_layout [OF assms(1,3,4)] by blast
  have "length ?t \<le> LP_MAX_BUF" using b(1,3) by (metis length_take min.cobounded1)
  moreover have "w \<le> length ?t" by (simp add: num_layout_def Let_def)
  moreover have "read_num (unat base) ?t = unat u"
    by (simp add: num_layout_def Let_def read_num_zeros read_num_text [OF assms(1,2)])
  ultimately show ?thesis using b by auto
qed

theorem PrintNum_roundtrip_witness:
  "\<exists>n buf'. PrintNum (replicate 80 0) 0xBEEF 16 False 6 False 48 True = Some (n, buf') \<and>
    6 \<le> n \<and> n \<le> LP_MAX_BUF \<and> length buf' = LP_MAX_BUF \<and> read_num 16 (take n buf') = 0xBEEF"
  using PrintNum_roundtrip [of 16 "replicate 80 0" 6 "0xBEEF" True] by simp

subsection \<open>Where the code and its callers' intent part\<close>

text \<open>A field wider than the buffer overruns it before the check in \<open>OUTPUT\<close>.\<close>

lemma printf_wide_field:
  "length buf = LP_MAX_BUF \<Longrightarrow> printf buf [37, 56, 49, 100] [Num 7] con = None"
proof -
  have "render [37, 56, 49, 100] [Num 7] = Some [[], replicate 80 32 @ [55], []]"
    by (subst render.simps, simp add: parse_spec_def IsDigit_def)
      (simp add: chunk_def num_chunk_def num_layout_def num_text_def,
        simp add: digs.simps, simp add: dchar_def digit_char_def render.simps)
  moreover assume "length buf = LP_MAX_BUF"
  ultimately show ?thesis by (simp add: printf_def lp_Print_def lp_loop_render fits_def)
qed

text \<open>\<open>fprintf\<close> of \<open>ab%d\<close> with 7 writes \<open>7b\<close>: its callback restarts at the buffer's first byte.\<close>

lemma fprintf_overwrites: "fprintf_text (replicate 80 0) [97, 98, 37, 100] [Num 7] = Some [55, 98]"
  by (simp add: fprintf_text_def lp_Print_def lp_loop_render OUTPUT_def render.simps parse_spec_def IsDigit_def
      chunk_def num_chunk_def num_layout_def num_text_def digs.simps dchar_def digit_char_def fits_def
      user_out2string_def)

end
