(* ===== verification/Devices.thy ===== *)
theory Devices
  imports Drivers Printing
begin

section \<open>What the drivers promise\<close>

text \<open>
  The output: the bytes written to the transmit register, in order, each written when the status
  register has just said that the line is free; and exactly when output comes back. The
  interrupts: the enable bits of the controller after the initialisation, read off the trace by
  the rule of the controller's manual (a one in a set-enable register enables, a one in a
  clear-enable register disables).
\<close>

subsection \<open>Busy waiting\<close>

fun polls :: "device \<Rightarrow> nat \<Rightarrow> trace \<Rightarrow> trace" where
  "polls dev 0 t = t"
| "polls dev (Suc k) t = polls dev k (t @ [Rd UART0_LSR (dev t UART0_LSR)])"

definition ready_after :: "device \<Rightarrow> u32 \<Rightarrow> nat \<Rightarrow> trace \<Rightarrow> bool" where
  "ready_after dev bits k t \<longleftrightarrow> dev (polls dev k t) UART0_LSR AND bits \<noteq> 0"

lemma wait_lsr_ready:
  assumes "ready_after dev bits k t" "\<And>j. j < k \<Longrightarrow> \<not> ready_after dev bits j t"
  shows "wait_lsr dev bits t = Some (polls dev (Suc k) t)"
  using assms
proof (induction k arbitrary: t)
  case 0
  then show ?case by (subst wait_lsr.simps) (simp add: ready_after_def readl_def)
next
  case (Suc k)
  let ?t = "t @ [Rd UART0_LSR (dev t UART0_LSR)]"
  have "\<not> ready_after dev bits 0 t" by (rule Suc.prems(2)) simp
  then have "wait_lsr dev bits t = wait_lsr dev bits ?t"
    by (subst wait_lsr.simps) (simp add: ready_after_def readl_def)
  also have "\<dots> = Some (polls dev (Suc k) ?t)"
  proof (rule Suc.IH)
    show "ready_after dev bits k ?t" using Suc.prems(1) by (simp add: ready_after_def)
    show "\<not> ready_after dev bits j ?t" if "j < k" for j
      using Suc.prems(2) [of "Suc j"] that by (simp add: ready_after_def)
  qed
  finally show ?case by simp
qed

lemma wait_lsr_some:
  assumes "wait_lsr dev bits t = Some t'"
  shows "\<exists>k. ready_after dev bits k t"
proof (rule wait_lsr.raw_induct [OF _ assms])
  fix wait dev bits t t'
  assume IH: "\<And>dev bits t t'. wait dev bits t = Some t' \<Longrightarrow> \<exists>k. ready_after dev bits k t"
    and run: "(if fst (readl dev UART0_LSR t) AND bits = 0 then wait dev bits (snd (readl dev UART0_LSR t))
      else Some (snd (readl dev UART0_LSR t))) = Some t'"
  show "\<exists>k. ready_after dev bits k t"
  proof (cases "fst (readl dev UART0_LSR t) AND bits = 0")
    case True
    then have "wait dev bits (snd (readl dev UART0_LSR t)) = Some t'" using run by simp
    from IH [OF this] obtain k where "ready_after dev bits k (snd (readl dev UART0_LSR t))" ..
    then have "ready_after dev bits (Suc k) t" by (simp add: ready_after_def readl_def)
    then show ?thesis by blast
  next
    case False
    then have "ready_after dev bits 0 t" by (simp add: ready_after_def readl_def)
    then show ?thesis by blast
  qed
qed

lemma wait_lsr_iff: "(\<exists>t'. wait_lsr dev bits t = Some t') \<longleftrightarrow> (\<exists>k. ready_after dev bits k t)"
proof
  assume "\<exists>k. ready_after dev bits k t"
  then obtain k where "ready_after dev bits k t" "\<And>j. j < k \<Longrightarrow> \<not> ready_after dev bits j t"
    using exists_least_iff [of "\<lambda>k. ready_after dev bits k t"] by blast
  then show "\<exists>t'. wait_lsr dev bits t = Some t'" using wait_lsr_ready by blast
qed (use wait_lsr_some in blast)

subsection \<open>Output\<close>

fun sent_by :: "io \<Rightarrow> u8 list" where
  "sent_by (Wr a v) = (if a = UART0_THR then [ucast v] else [])"
| "sent_by (Rd a v) = []"

definition sent :: "trace \<Rightarrow> u8 list" where
  "sent t = concat (map sent_by t)"

text \<open>Every byte is written directly after a status read that allows it.\<close>

definition paced :: "trace \<Rightarrow> bool" where
  "paced t \<longleftrightarrow> (\<forall>i<length t. \<forall>v. t ! i = Wr UART0_THR v \<longrightarrow>
     0 < i \<and> (\<exists>l. t ! (i - 1) = Rd UART0_LSR l \<and> l AND push_bit 6 1 \<noteq> 0))"

lemma sent_append [simp]: "sent (t @ u) = sent t @ sent u" "sent [] = []"
  by (simp_all add: sent_def)

lemma sent_Cons [simp]: "sent (x # t) = sent_by x @ sent t"
  by (simp add: sent_def)

lemma paced_read: "paced t \<Longrightarrow> paced (t @ [Rd a v])"
  by (auto simp: paced_def nth_append)

lemma paced_write:
  "paced (t @ [Rd UART0_LSR l]) \<Longrightarrow> l AND push_bit 6 1 \<noteq> 0 \<Longrightarrow> paced (t @ [Rd UART0_LSR l, Wr UART0_THR v])"
  unfolding paced_def by (auto simp: nth_append nth_Cons' less_Suc_eq)

lemma polls_sent [simp]: "sent (polls dev k t) = sent t"
  by (induction k arbitrary: t) simp_all

lemma polls_paced: "paced t \<Longrightarrow> paced (polls dev k t)"
  by (induction k arbitrary: t) (simp_all add: paced_read)

lemma polls_Suc: "polls dev (Suc k) t = polls dev k t @ [Rd UART0_LSR (dev (polls dev k t) UART0_LSR)]"
proof (induction k arbitrary: t)
  case (Suc k)
  show ?case by (subst polls.simps(2)) (subst Suc.IH, simp only: polls.simps(2))
qed simp

lemma uart0_putcE:
  assumes "uart0_putc dev c t = Some t'"
  obtains "sent t' = sent t @ [c]" "paced t \<Longrightarrow> paced t'"
proof -
  obtain u where u: "wait_lsr dev (push_bit 6 1) t = Some u" "t' = u @ [Wr UART0_THR (ucast c)]"
    using assms by (auto simp: uart0_putc_def writel_def split: Option.bind_splits)
  obtain k where k: "ready_after dev (push_bit 6 1) k t" "\<And>j. j < k \<Longrightarrow> \<not> ready_after dev (push_bit 6 1) j t"
    using wait_lsr_some [OF u(1)] exists_least_iff [of "\<lambda>k. ready_after dev (push_bit 6 1) k t"] by blast
  have p: "u = polls dev (Suc k) t" using wait_lsr_ready [OF k] u(1) by simp
  have "sent t' = sent t @ [c]" unfolding u(2) p by (simp del: polls.simps add: ucast_up_ucast_id is_up)
  moreover have "paced t'" if "paced t"
  proof -
    have "paced (polls dev k t @ [Rd UART0_LSR (dev (polls dev k t) UART0_LSR)])"
      using polls_paced [OF that, of dev "Suc k"] by (simp only: polls_Suc)
    then show ?thesis
      unfolding u(2) p polls_Suc using paced_write k(1) by (simp add: ready_after_def)
  qed
  ultimately show thesis by (rule that)
qed

lemma uart0_putsE:
  assumes "uart0_puts dev str t = Some t'"
  obtains "sent t' = sent t @ concat (map (\<lambda>c. if c = 10 then [13, 10] else [c]) str)" "paced t \<Longrightarrow> paced t'"
  using assms
proof (induction str arbitrary: t thesis)
  case (Cons c cs)
  obtain u v where u: "(if c = 10 then uart0_putc dev 13 t else Some t) = Some u" "uart0_putc dev c u = Some v"
    "uart0_puts dev cs v = Some t'"
    using Cons.prems(2) by (auto split: Option.bind_splits)
  have "sent u = sent t @ (if c = 10 then [13] else [])" "paced t \<Longrightarrow> paced u"
    using u(1) by (auto split: if_splits elim: uart0_putcE)
  moreover have "sent v = sent u @ [c]" "paced u \<Longrightarrow> paced v" using uart0_putcE [OF u(2)] by auto
  moreover have "sent t' = sent v @ concat (map (\<lambda>c. if c = 10 then [13, 10] else [c]) cs)" "paced v \<Longrightarrow> paced t'"
    using Cons.IH [OF _ u(3)] by auto
  ultimately show ?case using Cons.prems(1) by simp
qed simp

lemma uart0_puts_returns:
  assumes "\<And>t. \<exists>k. ready_after dev (push_bit 6 1) k t"
  shows "\<exists>t'. uart0_puts dev str t = Some t'"
proof (induction str arbitrary: t)
  case (Cons c cs)
  have put: "\<exists>t'. uart0_putc dev c t = Some t'" for c t
    using assms [of t] wait_lsr_iff [of dev "push_bit 6 1" t] by (auto simp: uart0_putc_def)
  obtain u where u: "(if c = 10 then uart0_putc dev 13 t else Some t) = Some u"
    using put [of 13 t] by (cases "c = 10") auto
  obtain v where "uart0_putc dev c u = Some v" using put by blast
  then show ?case using u Cons.IH by simp
qed simp

text \<open>Property C33. Output of the kernel on the serial line. When the line gets free again and again
  the output comes back. Whenever it comes back, the bytes it has sent are those that
  \<open>myoutput\<close> of \<open>Print\<close> adds to the console (a carriage return before every newline), and each was
  written directly after a status read that said the line is free. When the line is
  never free, it does not come back.\<close>

theorem uart_output_correct:
  "((\<forall>t. \<exists>k. ready_after dev (push_bit 6 1) k t) \<longrightarrow> (\<exists>t'. uart_output dev str t = Some t')) \<and>
   (\<forall>t'. uart_output dev str t = Some t' \<longrightarrow> sent t' = myoutput str (sent t) \<and> (paced t \<longrightarrow> paced t')) \<and>
   ((\<forall>k. \<not> ready_after dev (push_bit 6 1) k t) \<longrightarrow> str \<noteq> [] \<longrightarrow> str \<noteq> [0] \<longrightarrow> uart_output dev str t = None)"
proof (intro conjI allI impI)
  show "\<exists>t'. uart_output dev str t = Some t'" if "\<forall>t. \<exists>k. ready_after dev (push_bit 6 1) k t"
    using uart0_puts_returns [of dev str t] that by (simp add: uart_output_def)
  show "paced t'" if "uart_output dev str t = Some t'" "paced t" for t'
    using that by (auto simp: uart_output_def myoutput_def split: if_splits elim: uart0_putsE)
  show "sent t' = myoutput str (sent t)" if "uart_output dev str t = Some t'" for t'
    using that by (auto simp: uart_output_def myoutput_def split: if_splits elim: uart0_putsE)
  show "uart_output dev str t = None"
    if never: "\<forall>k. \<not> ready_after dev (push_bit 6 1) k t" and str: "str \<noteq> []" "str \<noteq> [0]"
  proof -
    have "uart0_putc dev c t = None" for c
      using never wait_lsr_iff [of dev "push_bit 6 1" t]
      by (cases "wait_lsr dev (push_bit 6 1) t") (auto simp: uart0_putc_def)
    then show ?thesis using str by (cases str) (simp_all add: uart_output_def)
  qed
qed

text \<open>A line that is free at every third access.\<close>

definition slow_line :: device where
  "slow_line t a = (if a = UART0_LSR \<and> length t mod 3 = 2 then 0x60 else 0)"

lemma polls_length: "length (polls dev k t) = length t + k"
  by (induction k arbitrary: t) simp_all

theorem uart_output_correct_witness:
  "\<exists>t. uart_output slow_line [104, 10] [] = Some t \<and> sent t = [104, 13, 10] \<and> paced t"
proof -
  have "\<exists>k. ready_after slow_line (push_bit 6 1) k t" for t
  proof -
    have "(length t + (2 * length t + 2)) mod 3 = 2" by presburger
    then have "ready_after slow_line (push_bit 6 1) (2 * length t + 2) t"
      by (simp add: ready_after_def slow_line_def polls_length)
    then show ?thesis by blast
  qed
  moreover have "paced []" by (simp add: paced_def)
  ultimately show ?thesis
    using uart_output_correct [of slow_line "[104, 10]" "[]"] by (auto simp: myoutput_def)
qed

subsection \<open>Interrupts\<close>

text \<open>One word of the enable bits, by the accesses to its two registers.\<close>

fun irq_word_step :: "u32 \<Rightarrow> io \<Rightarrow> u32 \<Rightarrow> u32" where
  "irq_word_step k (Rd a v) w = w"
| "irq_word_step k (Wr a v) w =
     (if a = GICD_ISENABLER + 4 * k then w OR v
      else if a = GICD_ICENABLER + 4 * k then w AND NOT v else w)"

definition irq_word :: "u32 \<Rightarrow> trace \<Rightarrow> u32 \<Rightarrow> u32" where
  "irq_word k t w = fold (irq_word_step k) t w"

text \<open>The value last written to a register.\<close>

fun last_write :: "trace \<Rightarrow> u32 \<Rightarrow> u32 option" where
  "last_write [] a = None"
| "last_write (x # t) a = (case last_write t a of Some v \<Rightarrow> Some v
     | None \<Rightarrow> (case x of Wr b v \<Rightarrow> if b = a then Some v else None | Rd b v \<Rightarrow> None))"

definition boot_irqs :: "device \<Rightarrow> trace \<Rightarrow> trace" where
  "boot_irqs dev t = timer2_init dev (gicc_ctrl_enable (gicd_ctrl_enable t))"

text \<open>Each operation as what it appends to the trace.\<close>

lemma fold_writel: "fold (\<lambda>i. writel v (f i)) xs t = t @ map (\<lambda>i. Wr (f i) v) xs"
  by (induction xs arbitrary: t) (simp_all add: writel_def)

lemma timer2_init_append:
  "timer2_init dev t = t @ [Wr TMR2_INTV 0x100, Rd TMR_IRQ_EN (dev (t @ [Wr TMR2_INTV 0x100]) TMR_IRQ_EN),
     Wr TMR_IRQ_EN (dev (t @ [Wr TMR2_INTV 0x100]) TMR_IRQ_EN OR 4), Wr TMR2_CTRL 0x41,
     Wr (GICD_ISENABLER + 4) 0x1000000, Wr (GICD_ICPENDR + 4) 0x1000000, Wr (GICD_ICACTIVER + 4) 0x1000000,
     Wr TMR_IRQ_STA 4, Wr (GICD_ICPENDR + 4) 0x1000000, Wr (GICD_ICACTIVER + 4) 0x1000000]"
  by (simp add: timer2_init_def timer2_clear_irq_def gicd_set_enable_def gicd_clear_pending_def Let_def writel_def
      readl_def TIMER_INVERTAL_def TMR2_GIC_SRC_ID_def)

definition gic_boot :: trace where
  "gic_boot = gicc_ctrl_enable (gicd_ctrl_enable [])"

lemma boot_irqs_append: "boot_irqs dev t = t @ gic_boot @ drop (length (t @ gic_boot)) (timer2_init dev (t @ gic_boot))"
proof -
  have "gicc_ctrl_enable (gicd_ctrl_enable t) = t @ gic_boot"
    unfolding gic_boot_def gicc_ctrl_enable_def gicd_ctrl_enable_def Let_def fold_writel by (simp add: writel_def)
  then show ?thesis by (simp add: boot_irqs_def timer2_init_append)
qed

text \<open>The accesses that count for one word and for one register.\<close>

definition concerns :: "u32 \<Rightarrow> io \<Rightarrow> bool" where
  "concerns k x \<longleftrightarrow> (case x of Rd a v \<Rightarrow> False
     | Wr a v \<Rightarrow> a = GICD_ISENABLER + 4 * k \<or> a = GICD_ICENABLER + 4 * k)"

lemma irq_word_concerns: "irq_word k t w = fold (irq_word_step k) (filter (concerns k) t) w"
  unfolding irq_word_def by (induction t arbitrary: w) (auto simp: concerns_def split: io.splits)

lemma last_write_append:
  "last_write (t @ u) a = (case last_write u a of Some v \<Rightarrow> Some v | None \<Rightarrow> last_write t a)"
  by (induction t) (simp_all split: option.splits io.splits)

text \<open>The accesses to one bank of registers.\<close>

definition in_bank :: "u32 \<Rightarrow> u32 \<Rightarrow> io \<Rightarrow> bool" where
  "in_bank base n x \<longleftrightarrow> (case x of Rd a v \<Rightarrow> False | Wr a v \<Rightarrow> base \<le> a \<and> a < base + n)"

lemma last_write_bank:
  assumes "base \<le> a" "a < base + n"
  shows "last_write (filter (in_bank base n) t) a = last_write t a"
  using assms by (induction t) (auto simp: in_bank_def split: io.splits option.splits)

lemma last_write_map: "last_write (map (\<lambda>i. Wr (f i) v) xs) a = (if a \<in> f ` set xs then Some v else None)"
  by (induction xs) auto

lemma gic_boot_banks:
  "filter (in_bank GICD_IPRIORITYR 0x80) gic_boot = map (\<lambda>i. Wr (GICD_IPRIORITYR + 4 * of_int i) 0xA0A0A0A0) ([8..30] @ [0..7])"
  "filter (in_bank GICD_ITARGETSR 0x80) gic_boot = map (\<lambda>i. Wr (GICD_ITARGETSR + 4 * of_int i) 0x01010101) [8..30]"
  "filter (in_bank GICD_ISENABLER 0x100) gic_boot = [Wr (GICD_ICENABLER + 4) 0xFFFFFFFF, Wr (GICD_ICENABLER + 8) 0xFFFFFFFF,
     Wr (GICD_ICENABLER + 12) 0xFFFFFFFF, Wr GICD_ICENABLER 0xFFFF0000, Wr GICD_ISENABLER 0xFFFF]"
  by code_simp+

lemma bank_bounds:
  "list_all (\<lambda>i. GICD_IPRIORITYR \<le> GICD_IPRIORITYR + 4 * of_int i \<and> GICD_IPRIORITYR + 4 * of_int i < GICD_IPRIORITYR + 0x80) [0..30]"
  "list_all (\<lambda>i. GICD_ITARGETSR \<le> GICD_ITARGETSR + 4 * of_int i \<and> GICD_ITARGETSR + 4 * of_int i < GICD_ITARGETSR + 0x80) [8..30]"
  by code_simp+

lemma gic_boot_registers:
  "i \<in> {0..30} \<Longrightarrow> last_write gic_boot (GICD_IPRIORITYR + 4 * of_int i) = Some 0xA0A0A0A0"
  "i \<in> {8..30} \<Longrightarrow> last_write gic_boot (GICD_ITARGETSR + 4 * of_int i) = Some 0x01010101"
proof -
  assume i: "i \<in> {0..30}"
  then have "last_write gic_boot (GICD_IPRIORITYR + 4 * of_int i) =
      last_write (filter (in_bank GICD_IPRIORITYR 0x80) gic_boot) (GICD_IPRIORITYR + 4 * of_int i)"
    using bank_bounds(1) by (intro last_write_bank [symmetric]) (auto simp: list_all_iff simp del: upto_rec_numeral)
  also have "i \<in> set ([8..30] @ [0..7])" using i by (auto simp del: upto_rec_numeral)
  then have "last_write (filter (in_bank GICD_IPRIORITYR 0x80) gic_boot) (GICD_IPRIORITYR + 4 * of_int i) = Some 0xA0A0A0A0"
    unfolding gic_boot_banks last_write_map by auto
  finally show "last_write gic_boot (GICD_IPRIORITYR + 4 * of_int i) = Some 0xA0A0A0A0" .
next
  assume i: "i \<in> {8..30}"
  then have "last_write gic_boot (GICD_ITARGETSR + 4 * of_int i) =
      last_write (filter (in_bank GICD_ITARGETSR 0x80) gic_boot) (GICD_ITARGETSR + 4 * of_int i)"
    using bank_bounds(2) by (intro last_write_bank [symmetric]) (auto simp: list_all_iff simp del: upto_rec_numeral)
  also have "i \<in> set [8..30]" using i by (auto simp del: upto_rec_numeral)
  then have "last_write (filter (in_bank GICD_ITARGETSR 0x80) gic_boot) (GICD_ITARGETSR + 4 * of_int i) = Some 0x01010101"
    unfolding gic_boot_banks last_write_map by auto
  finally show "last_write gic_boot (GICD_ITARGETSR + 4 * of_int i) = Some 0x01010101" .
qed

lemma concerns_bank:
  assumes "k \<in> {0, 1, 2, 3}"
  shows "filter (concerns k) t = filter (concerns k) (filter (in_bank GICD_ISENABLER 0x100) t)"
  using assms by (induction t) (auto simp: concerns_def in_bank_def gic_addrs split: io.splits)

lemma gic_boot_words:
  "filter (concerns 0) gic_boot = [Wr GICD_ICENABLER 0xFFFF0000, Wr GICD_ISENABLER 0xFFFF]"
  "filter (concerns 1) gic_boot = [Wr (GICD_ICENABLER + 4) 0xFFFFFFFF]"
  "filter (concerns 2) gic_boot = [Wr (GICD_ICENABLER + 8) 0xFFFFFFFF]"
  "filter (concerns 3) gic_boot = [Wr (GICD_ICENABLER + 12) 0xFFFFFFFF]"
  by (subst concerns_bank, simp, simp only: gic_boot_banks, simp add: concerns_def gic_addrs)+

lemma gic_boot_control:
  "last_write gic_boot GICC_PMR = Some 0xF0" "last_write gic_boot GICD_CTRL = Some 1" "last_write gic_boot GICC_CTLR = Some 1"
  "list_all (\<lambda>x. case x of Rd a v \<Rightarrow> False
     | Wr a v \<Rightarrow> GICD_CTRL \<le> a \<and> a < GICD_CTRL + 0x1000 \<or> a = GICC_CTLR \<or> a = GICC_PMR) gic_boot"
  by code_simp+

lemma timer_words:
  "filter (concerns 0) (drop (length t) (timer2_init dev t)) = []"
  "filter (concerns 1) (drop (length t) (timer2_init dev t)) = [Wr (GICD_ISENABLER + 4) 0x1000000]"
  "filter (concerns 2) (drop (length t) (timer2_init dev t)) = []"
  "filter (concerns 3) (drop (length t) (timer2_init dev t)) = []"
  by (simp_all add: timer2_init_append concerns_def gic_addrs timer_addrs)

text \<open>The registers that \<open>timer2_init\<close> writes.\<close>

definition timer_writes :: "u32 list" where
  "timer_writes = [TMR2_INTV, TMR_IRQ_EN, TMR2_CTRL, TMR_IRQ_STA, GICD_ISENABLER + 4, GICD_ICPENDR + 4, GICD_ICACTIVER + 4]"

lemma timer_writes_apart:
  "list_all (\<lambda>i. GICD_IPRIORITYR + 4 * of_int i \<notin> set timer_writes) [0..30]"
  "list_all (\<lambda>i. GICD_ITARGETSR + 4 * of_int i \<notin> set timer_writes) [8..30]"
  "GICC_PMR \<notin> set timer_writes" "GICD_CTRL \<notin> set timer_writes" "GICC_CTLR \<notin> set timer_writes"
  by code_simp+

lemma last_write_timer:
  "a \<notin> set timer_writes \<Longrightarrow> last_write (boot_irqs dev t) a = last_write (t @ gic_boot) a"
  unfolding boot_irqs_append timer2_init_append append_assoc [symmetric]
  by (subst last_write_append) (auto simp: timer_writes_def)

text \<open>Property C15. The interrupts after \<open>trap_init\<close> and \<open>timer2_init\<close>, whatever the controller had enabled
  before. Of the interrupts 0 to 127 exactly the first 16 (sent by software) and number 56 (timer 2)
  are enabled. Every interrupt has the priority 0xA0, below the mask 0xF0, and those of the devices go
  to the first processor; both parts of the controller are on, and the timer runs with the
  interval 0x100 and its interrupt enabled. No other device is touched.\<close>

theorem boot_irqs_timer_only:
  fixes dev t w
  defines "u \<equiv> boot_irqs dev t"
  shows "irq_word 0 u w = 0xFFFF \<and> irq_word 1 u w = push_bit (56 - 32) 1 \<and> irq_word 2 u w = 0 \<and> irq_word 3 u w = 0 \<and>
    (\<forall>i\<in>{0..30}. last_write u (GICD_IPRIORITYR + 4 * of_int i) = Some 0xA0A0A0A0) \<and>
    (\<forall>i\<in>{8..30}. last_write u (GICD_ITARGETSR + 4 * of_int i) = Some 0x01010101) \<and>
    last_write u GICC_PMR = Some 0xF0 \<and> last_write u GICD_CTRL = Some 1 \<and> last_write u GICC_CTLR = Some 1 \<and>
    last_write u TMR2_INTV = Some 0x100 \<and> last_write u TMR2_CTRL = Some 0x41 \<and>
    (\<exists>v. last_write u TMR_IRQ_EN = Some (v OR 4)) \<and>
    (\<forall>x\<in>set (drop (length t) u). case x of Wr a v \<Rightarrow> a \<in> {GICD_CTRL..<GICD_CTRL + 0x1000} \<union> {GICC_CTLR, GICC_PMR} \<union>
       {TMR_IRQ_EN, TMR_IRQ_STA, TMR2_CTRL, TMR2_INTV} | Rd a v \<Rightarrow> a = TMR_IRQ_EN)"
proof (intro conjI)
  let ?tm = "drop (length (t @ gic_boot)) (timer2_init dev (t @ gic_boot))"
  have u: "u = (t @ gic_boot) @ ?tm" unfolding u_def by (simp add: boot_irqs_append [of dev t])
  have neg: "- 4294901761 = (0xFFFF :: u32)" "- 4294967296 = (0 :: u32)" by simp_all
  have or_absorb: "x AND m OR m = m" for x m :: u32 by (rule bit_word_eqI) (auto simp: bit_simps)
  have w: "irq_word k u w = fold (irq_word_step k) (filter (concerns k) ?tm)
      (fold (irq_word_step k) (filter (concerns k) gic_boot) (irq_word k t w))" for k
    unfolding u by (simp only: irq_word_concerns filter_append fold_append comp_apply)
  show "irq_word 0 u w = 0xFFFF" "irq_word 1 u w = push_bit (56 - 32) 1" "irq_word 2 u w = 0" "irq_word 3 u w = 0"
    unfolding w timer_words gic_boot_words by (simp_all add: gic_addrs neg or_absorb)
  have registers: "\<forall>i\<in>{a..b}. last_write (boot_irqs dev t) (f i) = Some v"
    if "list_all (\<lambda>i. f i \<notin> set timer_writes) [a..b]" "\<And>i. i \<in> {a..b} \<Longrightarrow> last_write gic_boot (f i) = Some v" for a b f v
    using that by (auto simp: list_all_iff last_write_timer last_write_append simp del: upto_rec_numeral)
  show "last_write u GICC_PMR = Some 0xF0" "last_write u GICD_CTRL = Some 1" "last_write u GICC_CTLR = Some 1"
    unfolding u_def by (simp_all add: last_write_timer timer_writes_apart last_write_append gic_boot_control)
  show "\<forall>i\<in>{0..30}. last_write u (GICD_IPRIORITYR + 4 * of_int i) = Some 0xA0A0A0A0"
    unfolding u_def by (rule registers [OF timer_writes_apart(1) gic_boot_registers(1)])
  show "\<forall>i\<in>{8..30}. last_write u (GICD_ITARGETSR + 4 * of_int i) = Some 0x01010101"
    unfolding u_def by (rule registers [OF timer_writes_apart(2) gic_boot_registers(2)])
  show "last_write u TMR2_INTV = Some 0x100" "last_write u TMR2_CTRL = Some 0x41" "\<exists>v. last_write u TMR_IRQ_EN = Some (v OR 4)"
    unfolding u timer2_init_append by (auto simp: last_write_append timer_addrs gic_addrs)
  show "\<forall>x\<in>set (drop (length t) u). case x of Wr a v \<Rightarrow> a \<in> {GICD_CTRL..<GICD_CTRL + 0x1000} \<union> {GICC_CTLR, GICC_PMR} \<union>
       {TMR_IRQ_EN, TMR_IRQ_STA, TMR2_CTRL, TMR2_INTV} | Rd a v \<Rightarrow> a = TMR_IRQ_EN"
  proof -
    have "\<forall>x\<in>set gic_boot. case x of Wr a v \<Rightarrow> a \<in> {GICD_CTRL..<GICD_CTRL + 0x1000} \<union> {GICC_CTLR, GICC_PMR} \<union>
       {TMR_IRQ_EN, TMR_IRQ_STA, TMR2_CTRL, TMR2_INTV} | Rd a v \<Rightarrow> a = TMR_IRQ_EN"
      using gic_boot_control(4) by (auto simp: list_all_iff split: io.splits)
    moreover have "drop (length t) u = gic_boot @ ?tm" by (simp add: u)
    ultimately show ?thesis by (auto simp: timer2_init_append gic_addrs timer_addrs)
  qed
qed

theorem boot_irqs_timer_only_witness:
  "irq_word 1 (boot_irqs (\<lambda>_ _. 0) []) 0xFFFFFFFF = 0x1000000 \<and>
   last_write (boot_irqs (\<lambda>_ _. 0) []) (GICD_ITARGETSR + 4 * of_int 14) = Some 0x01010101"
proof -
  note all = boot_irqs_timer_only [where dev = "\<lambda>_ _. 0" and t = "[]" and w = "0xFFFFFFFF"]
  have "(14 :: int) \<in> {8..30}" by simp
  then have "last_write (boot_irqs (\<lambda>_ _. 0) []) (GICD_ITARGETSR + 4 * of_int 14) = Some 0x01010101" using all by blast
  then show ?thesis using all by simp
qed

end
