(* ===== verification/Boot.thy ===== *)
theory Boot
  imports Page_Check Programs Machine Devices
begin

section \<open>The kernel from reset to the first environment (\<open>boot/start.S\<close>, \<open>init/init.c\<close>)\<close>

text \<open>
  \<open>armv7_init\<close> composes the initialisation functions in the order of the code. It is called by
  \<open>main\<close> after \<open>init_boot_pgdir\<close>, and its last statement, a \<open>panic\<close>, is where the kernel
  waits for the timer: the first interrupt from timer 2 starts an environment. The messages that
  the functions print are not part of the model, and the two programs are the bytes that
  \<open>tools/bintoc.c\<close> has turned into arrays: their addresses and sizes are parameters.
\<close>

subsection \<open>The code\<close>

text \<open>The static initialiser of the boot page directory.\<close>

definition KSTACKTOP :: u32 where
  "KSTACKTOP = KERNTOP - 2 * PDMAP"

text \<open>The identifier that the library sends its file requests to.\<close>

definition FS_SERV_ENVID :: u32 where
  "FS_SERV_ENVID = 1"

definition boot_pgdir_image :: "u32 \<Rightarrow> u32" where
  "boot_pgdir_image i =
     (if i = PDX DRAMBASE \<or> i = PDX ULIM then DRAMBASE OR PDE_SECTION
      else if i = PDX (KSTACKTOP - 1) then ((KSTACKTOP - 1 - ULIM + DRAMBASE) AND 0xFFF00000) OR PDE_SECTION
      else 0)"

definition armv7_init :: "device \<Rightarrow> u32 \<Rightarrow> u32 \<Rightarrow> u32 \<times> u32 \<Rightarrow> u32 \<times> u32 \<Rightarrow> kstate \<Rightarrow> trace \<Rightarrow>
    (kstate \<times> trace \<times> u32) option" where
  "armv7_init dev cpsr junk fs_serv user_fstest s t = do {
     let s = armv7_detect_memory s;
     s \<leftarrow> armv7_vm_init s;
     let s = page_init s;
     s \<leftarrow> physical_memory_manage_check s;
     s \<leftarrow> page_check s;
     let s = env_init s;
     let s = sched_init s;
     (s, t, cpsr) \<leftarrow> trap_init s t cpsr;
     s \<leftarrow> env_create_priority cpsr junk (fst fs_serv) (snd fs_serv) 1 s;
     s \<leftarrow> env_create_priority cpsr junk (fst user_fstest) (snd user_fstest) 1 s;
     let t = timer2_init dev t;
     Some (s, t, cpsr)
   }"

subsection \<open>The memory at each stage\<close>

text \<open>The pages below \<open>KERNTOP\<close> hold the kernel with its data, at physical addresses that
  \<open>page_init\<close> never hands out.\<close>

definition boot_stage :: "mem \<Rightarrow> u32 \<Rightarrow> kstate \<Rightarrow> u32 list \<Rightarrow> bool" where
  "boot_stage m b s xs \<longleftrightarrow> vm_inv s {b} xs \<and> (\<forall>q\<in>set xs. 2048 \<le> q) \<and> boot_pgdir s = frame b \<and> mCONTEXT s = frame b \<and>
     (\<forall>i<0x800. pde s b i = 0) \<and> (\<forall>q<2048. unit_page q \<longrightarrow> q \<noteq> b \<longrightarrow> kept (power_on m (frame b)) s q) \<and>
     envs s = (\<lambda>_. zero_env) \<and> curenv s = None \<and> sched_iter s = None \<and> sched_ts s = 0 \<and> next_env_id s = 0"

lemma boot_stageD:
  assumes "boot_stage m b s xs"
  shows "vm_inv s {b} xs" "q \<in> set xs \<Longrightarrow> 2048 \<le> q" "boot_pgdir s = frame b" "mCONTEXT s = frame b"
    "i < 0x800 \<Longrightarrow> pde s b i = 0" "q < 2048 \<Longrightarrow> unit_page q \<Longrightarrow> q \<noteq> b \<Longrightarrow> kept (power_on m (frame b)) s q"
    "envs s = (\<lambda>_. zero_env)" "curenv s = None" "sched_iter s = None" "sched_ts s = 0" "next_env_id s = 0"
  using assms by (simp_all add: boot_stage_def)

lemma boot_stage_vm_only:
  assumes st: "boot_stage m b s xs" and only: "vm_only s s'" and inv: "vm_inv s' {b} ys" and sub: "set ys \<subseteq> set xs"
    and pde: "\<And>i. i < 0x800 \<Longrightarrow> pde s' b i = pde s b i"
    and keep: "\<And>q. unit_page q \<Longrightarrow> q \<noteq> b \<Longrightarrow> q \<notin> set xs \<Longrightarrow> kept s s' q"
  shows "boot_stage m b s' ys"
proof -
  note d = boot_stageD [OF st] and o = vm_onlyD [OF only] and a = alloc_kept_vm_only [OF only, unfolded alloc_kept_def]
  have "kept (power_on m (frame b)) s' q" if "q < 2048" "unit_page q" "q \<noteq> b" for q
  proof -
    have "q \<notin> set xs" using d(2) [of q] that(1) by auto
    then show ?thesis using kept_trans [OF d(6) [OF that]] keep that by blast
  qed
  then show ?thesis using inv sub d pde by (auto simp: boot_stage_def o a vm_only_next_id [OF only])
qed

subsubsection \<open>The boot directory and the first pages\<close>

lemma kept_fold_put:
  assumes "unit_page b" "unit_page q" "q \<noteq> b" "j < 0x1000"
  shows "load32 (fold (\<lambda>k m. store32 m (frame b + 4 * PDX (f k)) (g k)) ks m) (frame q + 4 * j) = load32 m (frame q + 4 * j)"
proof (induction ks arbitrary: m)
  case (Cons k ks)
  show ?case using Cons.IH load_store_entry [OF assms(1,2) PDX_less assms(4)] assms(3) by simp
qed simp

lemma kept_init_boot_pgdir:
  assumes "boot_pgdir s = frame b" "unit_page b" "unit_page q" "q \<noteq> b"
  shows "kept s (init_boot_pgdir s) q"
  unfolding kept_def
proof (intro allI impI)
  fix j :: u32 assume j: "j < 0x1000"
  show "load32 (kmem (init_boot_pgdir s)) (frame q + 4 * j) = load32 (kmem s) (frame q + 4 * j)"
    unfolding init_boot_pgdir_def Let_def assms(1) kmem_upd by (simp only: kept_fold_put [OF assms(2-4) j])
qed

lemma init_boot_pgdir_frame:
  "init_boot_pgdir s = s\<lparr>kmem := kmem (init_boot_pgdir s)\<rparr>"
  by (simp add: init_boot_pgdir_def Let_def)

lemma kernel_entry_low:
  assumes "unit_page q" "q < 2048" "j < 0x1000" "k < 4"
  shows "unat (frame q + 4 * j + of_nat k) < 0x80800000"
proof -
  obtain a where a: "unat q = 4 * a" using unat_entry(2) [OF assms(1,3)] by blast
  have "unat (frame q + 4 * j + of_nat k) = unat (frame q + 4 * j) + k"
    by (rule aligned_byte [OF aligned_entry [OF assms(1,3)] assms(4)])
  moreover have "unat q < 2048" "unat j < 4096" using assms(2,3) by (simp_all add: word_less_nat_alt)
  ultimately show ?thesis using unat_entry(1) [OF assms(1,3)] a assms(4) by simp
qed

lemma load_bzero_high:
  assumes "unit_page q" "q < 2048" "j < 0x1000" "0x80800000 \<le> unat a" "unat a + n \<le> 2 ^ 32"
  shows "load32 (bzero m a n) (frame q + 4 * j) = load32 m (frame q + 4 * j)"
proof -
  have "\<not> in_region a n (frame q + 4 * j + of_nat k)" if "k < 4" for k
    unfolding in_region_unat [OF assms(5)] using kernel_entry_low [OF assms(1-3) that] assms(4) by simp
  from this [of 0] this [of 1] this [of 2] this [of 3] show ?thesis using assms(5) by (simp add: load32_def bzero_closed)
qed

lemma boot_memory:
  assumes b: "unit_page b" "b < 2048" and image: "\<And>i. i < 0x1000 \<Longrightarrow> load32 m (frame b + 4 * i) = boot_pgdir_image i"
  obtains s where "armv7_vm_init (armv7_detect_memory (init_boot_pgdir (power_on m (frame b)))) = Some s"
    "boot_stage m b (page_init s) (page_init_list 2852 0x40000)" "pde (page_init s) b 0xFFF = 0" "pp_ref (page_init s) 0 = 1"
proof -
  let ?p = "power_on m (frame b)" and ?s0 = "init_boot_pgdir (power_on m (frame b))"
  obtain k0 where k0: "kmem ?s0 = k0" "?s0 = ?p\<lparr>kmem := k0\<rparr>" using init_boot_pgdir_frame [of ?p] by metis
  have bp: "boot_pgdir ?p = frame b" "kmem ?p = m" by (simp_all add: power_on_def)
  define k2 where "k2 = bzero (bzero k0 0x80800000 0x300000) 0x80B00000 0x23000"
  obtain s where s: "armv7_vm_init (armv7_detect_memory ?s0) = Some s" "kmem s = k2" "npage s = 0x40000" "freemem s = 0x80B23000"
    "boot_pgdir s = frame b" "mCONTEXT s = frame b" "envs s = (\<lambda>_. zero_env)" "curenv s = None" "sched_iter s = None" "sched_ts s = 0"
    "next_env_id s = 0"
    unfolding k0(2) by (simp add: armv7_vm_init_def armv7_detect_memory_def alloc_def Let_def k2_def ROUND_def power_on_def)
  have mem: "load32 k2 (frame q + 4 * j) = load32 k0 (frame q + 4 * j)" if "unit_page q" "q < 2048" "j < 0x1000" for q j
    unfolding k2_def by (simp add: load_bzero_high [OF that])
  have f: "first_free s = 2852" by (simp add: first_free_def s(4) ROUND_def)
  obtain fl where fl: "page_init s = s\<lparr>page_free_list := fl, freemem := ROUND (freemem s) (BY2PG * 4),
      pp_ref := (\<lambda>p. if p \<in> of_nat ` {2852..<0x40000} then 0 else if p \<in> of_nat ` {0..<2852} then 1 else pp_ref s p)\<rparr>"
    "lst_rep fl (page_init_list 2852 0x40000)"
    using page_init_state [of s] f s(3) by (auto cong: if_cong)
  note pi = page_init_correct [of s, unfolded f s(3)]
  have al: "alloc_inv (page_init s) (page_init_list 2852 0x40000)" using pi by simp
  have low: "pp_ref (page_init s) p = 1" if "p < 2048" for p
  proof -
    have "p < 0x40000" "unat p < 2852" using order.strict_trans [OF that, of "0x40000"] that by (simp_all add: word_less_nat_alt)
    then show ?thesis using pi by simp
  qed
  define u where "u = page_init s"
  have u: "kmem u = k2" "npage u = 0x40000" "boot_pgdir u = frame b" "mCONTEXT u = frame b" "envs u = (\<lambda>_. zero_env)"
    "curenv u = None" "sched_iter u = None" "sched_ts u = 0" "next_env_id u = 0"
    by (simp_all add: u_def fl(1) s)
  have pb: "pde u b i = (if i < 0x800 then 0 else pde ?s0 b i)" if "i < 0x1000" for i
  proof -
    have i: "unat i < 4096" using that by (simp add: word_less_nat_alt)
    have "pde u b i = pde ?s0 b i" using mem [OF b that] by (simp add: pde_def u(1) k0(1))
    moreover have "pde ?s0 b i = 0" if "i < 0x800"
      using init_boot_pgdir_pde [OF bp(1) b(1) i] that by (simp add: word_less_nat_alt)
    ultimately show ?thesis by simp
  qed
  have "pde ?s0 b 0xFFF = 0"
    using init_boot_pgdir_pde [OF bp(1) b(1), of 4095] image [of "0xFFF"]
    by (simp add: pde_def bp boot_pgdir_image_def PDX_def KSTACKTOP_def)
  then have last: "pde u b 0xFFF = 0" using pb [of "0xFFF"] by simp
  have z: "pde u b i = 0" if "i < 0x800" for i using pb [of i] that order.strict_trans [OF that, of "0x1000"] by simp
  have "live_page (npage u) (pp_ref u) b"
    using b low [OF b(2), folded u_def] order.strict_trans [OF b(2), of "0x40000"] by (simp add: live_page_def u(2))
  then have "vm_wf (npage u) (pp_ref u) {b} (pde u) (pte_at u)"
    by (intro vm_wf_empty) (auto simp: z all_slots_def pte_at.simps)
  then have inv: "vm_inv u {b} (page_init_list 2852 0x40000)" using al by (simp add: vm_inv_def u_def)
  have "kept ?p u q" if "q < 2048" "unit_page q" "q \<noteq> b" for q
  proof -
    have "kept ?s0 u q" using mem [OF that(2,1)] by (simp add: kept_def u(1) k0(1))
    then show ?thesis using kept_trans kept_init_boot_pgdir [OF bp(1) b(1) that(2,3)] by blast
  qed
  moreover have "2048 \<le> q" if "q \<in> set (page_init_list 2852 0x40000)" for q
    using that by (simp add: page_init_list_mem word_le_nat_alt)
  ultimately have "boot_stage m b u (page_init_list 2852 0x40000)"
    using inv z by (simp add: boot_stage_def u)
  then show thesis using that [OF s(1)] low [of 0] last by (simp add: u_def)
qed

lemma stage_outside: "boot_stage m b s xs \<Longrightarrow> unit_page b \<Longrightarrow> b \<notin> set xs"
  using live_not_free [of s "{b}" xs] vm_wf_dir [of "npage s" "pp_ref s" "{b}" "pde s" "pte_at s" b]
  by (auto simp: boot_stage_def dest: vm_invD)

lemma kept_bzero_page:
  "unit_page p \<Longrightarrow> unit_page q \<Longrightarrow> q \<noteq> p \<Longrightarrow> j < 0x1000 \<Longrightarrow>
    load32 (bzero k (frame p) 4096) (frame q + 4 * j) = load32 k (frame q + 4 * j)"
  by (simp add: load_bzero_entry)

lemma boot_stage_memory_check:
  assumes st: "boot_stage m b s (p0 # p1 # p2 # rest)"
  obtains s' where "physical_memory_manage_check s = Some s'" "boot_stage m b s' (p2 # p1 # p0 # rest)"
    "pde s' b 0xFFF = pde s b 0xFFF" "pp_ref s' = pp_ref s"
proof -
  note d = boot_stageD [OF st] and al = vm_invD(1) [OF boot_stageD(1) [OF st]]
  obtain s' where s': "physical_memory_manage_check s = Some s'" "alloc_inv s' (p2 # p1 # p0 # rest)" "pp_ref s' = pp_ref s"
    "s'\<lparr>page_free_list := page_free_list s, kmem := kmem s\<rparr> = s"
    "kmem s' = bzero (store32 (bzero (bzero (bzero (kmem s) (frame p0) 4096) (frame p1) 4096) (frame p2) 4096) (frame p0) 1000)
      (frame p0) 4096"
    by (rule physical_memory_manage_checkE [OF al])
  have only: "vm_only s s'" using s'(3,4) unfolding vm_only_def by (cases s; cases s') simp
  have units: "unit_page p0" "unit_page p1" "unit_page p2" using alloc_inv_unit [OF al] by auto
  have keep: "kept s s' q" if q: "unit_page q" "q \<notin> set (p0 # p1 # p2 # rest)" for q
  proof -
    have ne: "q \<noteq> p0" "q \<noteq> p1" "q \<noteq> p2" using q(2) by auto
    have st: "load32 (store32 k (frame p0) v) (frame q + 4 * j) = load32 k (frame q + 4 * j)" if "j < 0x1000" for k v j
      using load_store_entry [OF units(1) q(1) _ that, of 0 k v] ne(1) by simp
    show ?thesis
      unfolding kept_def s'(5) using st by (simp add: kept_bzero_page [OF _ q(1)] units ne)
  qed
  have lb: "live_page (npage s) (pp_ref s) b" using vm_wf_dir [OF vm_invD(2) [OF d(1)], of b] by simp
  have bx: "b \<notin> set (p0 # p1 # p2 # rest)" using live_not_free [OF d(1) lb] .
  have kb: "kept s s' b" using keep bx lb by (simp add: live_page_def)
  have pde: "pde s' b i = pde s b i" if "i < 0x1000" for i by (rule kept_pde [OF kb that])
  have z: "pde s' b i = 0" if "i < 0x800" for i using pde [of i] d(5) [OF that] order.strict_trans [OF that, of "0x1000"] by simp
  have "vm_wf (npage s') (pp_ref s') {b} (pde s') (pte_at s')"
    using lb vm_onlyD(4) [OF only] by (intro vm_wf_empty) (auto simp: z s'(3) all_slots_def pte_at.simps)
  then have "vm_inv s' {b} (p2 # p1 # p0 # rest)" using s'(2) by (simp add: vm_inv_def)
  then have "boot_stage m b s' (p2 # p1 # p0 # rest)"
    by (rule boot_stage_vm_only [OF st only]) (use z d(5) keep in auto)
  then show thesis using that s'(1,3) pde by simp
qed

lemma boot_stage_page_check:
  assumes st: "boot_stage m b s (p0 # p1 # p2 # rest)"
  obtains s' where "page_check s = Some s'" "boot_stage m b s' (p2 # p1 # p0 # rest)"
    "pde s' b 0xFFF = pde s b 0xFFF" "pp_ref s' = pp_ref s"
proof -
  note d = boot_stageD [OF st]
  obtain s' where s': "page_check s = Some s'" "vm_inv s' {b} (p2 # p1 # p0 # rest)" "vm_only s s'" "pp_ref s' = pp_ref s"
    "\<And>i. i < 0x1000 \<Longrightarrow> pde s' b i = pde s b i"
    "\<And>q. unit_page q \<Longrightarrow> q \<noteq> b \<Longrightarrow> q \<notin> set (p0 # p1 # p2 # rest) \<Longrightarrow> kept s s' q"
    by (rule page_check_ok [OF d(1,3,5)]) (assumption, (rule that; assumption))
  have "boot_stage m b s' (p2 # p1 # p0 # rest)"
    by (rule boot_stage_vm_only [OF st s'(3,2)]) (use s'(5) [OF user_pde] s'(6) in auto)
  then show thesis using that s'(1,4,5) by simp
qed

lemma fold_env_init_zero:
  "envs s = (\<lambda>_. zero_env) \<Longrightarrow> envs (fold (\<lambda>k. env_init_one (of_nat k)) ks s) = (\<lambda>_. zero_env)"
  by (induction ks arbitrary: s) (simp_all add: env_init_one_def Let_def fun_eq_iff zero_env_def env_status_defs)

lemma env_init_frame:
  "sched_iter (env_init s) = sched_iter s \<and> sched_ts (env_init s) = sched_ts s \<and> mCONTEXT (env_init s) = mCONTEXT s \<and> kmem (env_init s) = kmem s"
proof -
  have "sched_iter (fold (\<lambda>k. env_init_one (of_nat k)) ks t) = sched_iter t \<and> sched_ts (fold (\<lambda>k. env_init_one (of_nat k)) ks t) = sched_ts t
      \<and> mCONTEXT (fold (\<lambda>k. env_init_one (of_nat k)) ks t) = mCONTEXT t \<and> kmem (fold (\<lambda>k. env_init_one (of_nat k)) ks t) = kmem t" for ks t
    by (induction ks arbitrary: t) (simp_all add: env_init_one_def Let_def)
  then show ?thesis by (simp add: env_init_def)
qed

lemma boot_stage_envs:
  assumes st: "boot_stage m b s xs" and t: "t = sched_init (env_init s)"
  shows "boot_stage m b t xs" "lst_rep (env_free_list t) (map of_nat [0..<1024])"
    "lst_rep (env_sched_list t) []" "pde t = pde s" "pp_ref t = pp_ref s"
proof -
  have m: "kmem t = kmem (env_init s)" by (simp add: t sched_init_def)
  have same: "npage t = npage s" "page_free_list t = page_free_list (env_init s)" "pp_ref t = pp_ref s" "boot_pgdir t = boot_pgdir s"
    "mCONTEXT t = mCONTEXT s" "curenv t = curenv s" "sched_iter t = sched_iter s" "sched_ts t = sched_ts s"
    "next_env_id t = next_env_id s"
    using env_init_frame [of s] by (simp_all add: t sched_init_def env_init_vm)
  have "envs (env_init s) = (\<lambda>_. zero_env)"
    unfolding env_init_def by (rule fold_env_init_zero) (simp add: boot_stageD(7) [OF st])
  then have e: "envs t = (\<lambda>_. zero_env)" by (simp add: t sched_init_def)
  have v: "vm_inv t D ys = vm_inv s D ys" "pde t = pde s" for D ys
    using vm_inv_cong(1,2) [of t "env_init s"] same m by (simp_all add: env_init_vm)
  have "kept s t q" for q by (rule kept_same) (simp add: m env_init_frame)
  then have "kept p t q" if "kept p s q" for p q using that kept_trans by blast
  then show "boot_stage m b t xs" using st by (simp add: boot_stage_def v same e)
  show "pde t = pde s" "pp_ref t = pp_ref s" by (rule v(2), rule same(3))
  show "lst_rep (env_sched_list t) []" by (simp add: t sched_init_def LIST_INIT_rep)
  show "lst_rep (env_free_list t) (map of_nat [0..<1024])"
    using fold_env_init_one [of 1024 "s\<lparr>env_free_list := LIST_INIT (env_free_list s)\<rparr>"]
    by (simp add: t sched_init_def env_init_def LIST_INIT_rep)
qed

subsection \<open>The exception vector\<close>

lemma trap_init_insert:
  assumes st: "boot_stage m b s (p # xs)" and last: "pde s b 0xFFF = 0" and zero: "pp_ref s 0 = 1"
  obtains s' where "page_insert (frame b) 0 0xFFFF0000 0 s = Some (Inr (), s')" "boot_stage m b s' xs"
    "env_free_list s' = env_free_list s" "env_sched_list s' = env_sched_list s"
    "load32 (kmem s') (frame b + 4 * 0xFFF) = page2pa p OR PDE_PAGE_TABLE"
    "load32 (kmem s') (frame p + 4 * 0xF0) = page2pa 0 OR PTE_V"
proof -
  note d = boot_stageD [OF st]
  have al: "alloc_inv s (p # xs)" by (rule vm_invD(1) [OF d(1)])
  have lb: "live_page (npage s) (pp_ref s) b" using vm_wf_dir [OF vm_invD(2) [OF d(1)], of b] by simp
  then have ub: "unit_page b" by (simp add: live_page_def)
  have p: "unit_page p" "p < npage s" "pp_ref s p = 0" "p < 0x40000" "2048 \<le> p" "p \<notin> set xs"
    using alloc_inv_unit [OF al, of p] alloc_inv_distinct [OF al] d(2) [of p] by (auto simp: unit_page_def)
  have bp: "b \<noteq> p" "b \<notin> set xs" using live_not_free [OF d(1) lb] by auto
  have p0: "p \<noteq> 0" using p(5) by auto
  define va where "va = (0xFFFF0000 :: u32)"
  have va: "\<not> section_va va" "PDX va = 0xFFF" "PTX va = 0xF0" by (simp_all add: va_def section_va_def PDX_def PTX_def)
  have e: "load32 (kmem s) (frame b + 4 * 0xFFF) = 0" using last by (simp add: pde_def)
  have walk: "pgdir_walk (frame b) va False s = Some (Inr None, s)"
    using va e by (simp add: pgdir_walk_def)
  define t where "t = tlb_invalidate (frame b) va s"
  have tl: "vm_only s t" "kmem t = kmem s" "pp_ref t = pp_ref s" "npage t = npage s" "alloc_inv t (p # xs)"
    using al by (simp_all add: t_def vm_only_tlb alloc_inv_cong [of "tlb_invalidate (frame b) va s" s])
  obtain u where u: "page_alloc t = Some (Inr p, u)" "alloc_inv u xs"
    "u = t\<lparr>page_free_list := page_free_list u, kmem := bzero (kmem t) (frame p) 4096\<rparr>"
    "pp_ref u = pp_ref t" "npage u = npage t"
    by (rule page_allocE [OF tl(5)])
  have ku: "kmem u = bzero (kmem s) (frame p) 4096" by (subst u(3)) (simp add: tl)
  have only_u: "vm_only s u" by (rule vm_only_trans [OF tl(1) vm_only_page_alloc [OF u(1)]])
  define v where "v = set_ref p 1 (u\<lparr>kmem := store32 (kmem u) (frame b + 4 * 0xFFF) (page2pa p OR PDE_PAGE_TABLE)\<rparr>)"
  have kva: "page2kva p u = Some (frame p)" using p u(5) tl(4) by (simp add: page2kva_frame)
  have walk2: "pgdir_walk (frame b) va True t = Some (Inr (Some (frame p + 4 * 0xF0)), v)"
    using va e u(1) kva p(3) by (simp add: pgdir_walk_def tl(2,3) u(4) v_def)
  define s' where "s' = set_ref 0 2 (v\<lparr>kmem := store32 (kmem v) (frame p + 4 * 0xF0) (page2pa 0 OR PTE_V)\<rparr>)"
  have run: "page_insert (frame b) 0 va 0 s = Some (Inr (), s')"
    using va walk walk2 zero p0
    by (simp add: page_insert_def page_insert_new_def t_def [symmetric] s'_def v_def u(4) tl(3))
  have km: "kmem s' = store32 (store32 (bzero (kmem s) (frame p) 4096) (frame b + 4 * 0xFFF) (page2pa p OR PDE_PAGE_TABLE))
      (frame p + 4 * 0xF0) (page2pa 0 OR PTE_V)"
    by (simp add: s'_def v_def ku)
  have ref: "pp_ref s' = (pp_ref s)(p := 1, 0 := 2)" by (simp add: s'_def v_def u(4) tl(3))
  have only: "vm_only s s'" using only_u unfolding vm_only_def s'_def v_def by (cases s; cases u) simp
  have entry: "load32 (kmem s') (frame q + 4 * j) = (if q = p \<and> j = 0xF0 then page2pa 0 OR PTE_V
      else if q = b \<and> j = 0xFFF then page2pa p OR PDE_PAGE_TABLE
      else load32 (bzero (kmem s) (frame p) 4096) (frame q + 4 * j))" if "unit_page q" "j < 0x1000" for q j
  proof -
    have i: "(0xF0 :: u32) < 0x1000" "(0xFFF :: u32) < 0x1000" by simp_all
    show ?thesis
      unfolding km load_store_entry [OF p(1) that(1) i(1) that(2)] load_store_entry [OF ub that(1) i(2) that(2)]
      using bp(1) by auto
  qed
  have keep: "kept s s' q" if "unit_page q" "q \<noteq> b" "q \<noteq> p" for q
    using entry that by (simp add: kept_def load_bzero_entry [OF p(1)])
  have z: "pde s' b i = 0" if i: "i < 0x800" for i
  proof -
    have "i < 0x1000" "i \<noteq> 0xFFF" using i order.strict_trans [OF i, of "0x1000"] by auto
    then show ?thesis using entry [OF ub, of i] bp(1) d(5) [OF i] by (simp add: pde_def load_bzero_entry [OF p(1) ub])
  qed
  have "alloc_inv s' xs"
  proof -
    have "0 \<notin> set xs" using d(2) [of 0] by auto
    then have "alloc_inv (set_ref 0 2 (set_ref p 1 u)) xs"
      using alloc_inv_set_ref [OF alloc_inv_set_ref [OF u(2) p(6)]] by simp
    then show ?thesis by (rule iffD1 [OF alloc_inv_cong, rotated -1]) (simp_all add: s'_def v_def)
  qed
  moreover have "vm_wf (npage s') (pp_ref s') {b} (pde s') (pte_at s')"
  proof (rule vm_wf_empty)
    show "live_page (npage s') (pp_ref s') q" if "q \<in> {b}" for q
      using that lb bp(1) vm_onlyD(4) [OF only] by (simp add: live_page_def ref)
    show "pde s' q i = 0" if "q \<in> {b}" "i < 0x800" for q i using that z by simp
    show "pte_at s' x = 0" if "x \<in> all_slots {b}" for x using that z by (auto simp: all_slots_def pte_at.simps)
  qed
  ultimately have "vm_inv s' {b} xs" by (simp add: vm_inv_def)
  then have "boot_stage m b s' xs"
    by (rule boot_stage_vm_only [OF st only]) (use z d(5) keep in auto)
  then show thesis
    using that run vm_onlyD(5,6) [OF only] entry [OF ub, of "0xFFF"] entry [OF p(1), of "0xF0"] bp(1) by (simp add: va_def)
qed

subsection \<open>The programs\<close>

lemma bytes_outside_mono:
  "(\<And>q. outside s D xs pd q \<Longrightarrow> outside t E ys pd' q) \<Longrightarrow> bytes_outside s D xs pd a n \<Longrightarrow> bytes_outside t E ys pd' a n"
  unfolding bytes_outside_def by blast

lemma segs_ok_mono:
  assumes "\<And>q. outside s D xs pd q \<Longrightarrow> outside t E ys pd' q"
  shows "segs_ok s D xs pd binary V phs \<Longrightarrow> segs_ok t E ys pd' binary V phs"
proof (induction phs arbitrary: V)
  case (Cons ph phs)
  have "seg_ok t E ys pd' binary ph" if "seg_ok s D xs pd binary ph"
    using that bytes_outside_mono [OF assms] unfolding seg_ok_def by blast
  then show ?case using Cons by (simp split: if_splits)
qed simp

lemma elf_at_mono:
  assumes out: "\<And>q. outside s D xs pd q \<Longrightarrow> outside t E ys pd' q" and keep: "\<And>q. outside s D xs pd q \<Longrightarrow> kept s t q"
    and elf: "elf_at s D xs pd binary sz V entry phs"
  shows "elf_at t E ys pd' binary sz V entry phs"
proof -
  note el = elf [unfolded elf_at_def]
  have h: "read_ehdr (kmem t) binary = read_ehdr (kmem s) binary" using read_ehdr_kept [OF _ keep] el by blast
  have p: "read_phdr (kmem t) a = read_phdr (kmem s) a" if "bytes_outside s D xs pd a 24" for a
    by (rule read_phdr_kept [OF that keep])
  have "headers_at t E ys pd' ptr esz phs" if "headers_at s D xs pd ptr esz phs" for ptr esz
    using that p bytes_outside_mono [OF out] unfolding headers_at_def by metis
  then show ?thesis
    unfolding elf_at_def h using el is_elf_format_cong [OF h] bytes_outside_mono [OF out] segs_ok_mono [OF out] by blast
qed

text \<open>A program in the kernel image: an ELF file in the memory below \<open>KERNTOP\<close>, apart from the boot
  page directory.\<close>

definition kernel_elf :: "mem \<Rightarrow> u32 \<Rightarrow> u32 \<Rightarrow> u32 \<Rightarrow> u32 \<Rightarrow> Elf32_Phdr list \<Rightarrow> bool" where
  "kernel_elf m b binary sz entry phs \<longleftrightarrow>
     elf_at (power_on m (frame b)) {} (page_init_list 2048 0x40000) b binary sz USTACK entry phs"

lemma kernel_outside: "outside s {} (page_init_list 2048 0x40000) b q \<longleftrightarrow> unit_page q \<and> q \<noteq> b \<and> q < 2048"
proof -
  have "q \<in> set (page_init_list 2048 0x40000) \<longleftrightarrow> 2048 \<le> unat q" if "unit_page q"
    using that unfolding unit_page_def by (simp only: page_init_list_mem word_less_nat_alt) simp
  then show ?thesis by (auto simp: outside_def tables_of_def word_less_nat_alt)
qed

text \<open>The kernel image has been kept up to a state \<open>s\<close> in which the directories \<open>D\<close> and the free pages
  \<open>ps\<close> are elsewhere.\<close>

lemma kernel_program:
  assumes elf: "kernel_elf m b binary sz entry phs"
    and keep: "\<And>q. q < 2048 \<Longrightarrow> unit_page q \<Longrightarrow> q \<noteq> b \<Longrightarrow> kept (power_on m (frame b)) s q"
    and high: "\<forall>q\<in>set (p # ps) \<union> tables_of (pde s) D. 2048 \<le> q"
  shows "program_at s D (p # ps) binary sz entry phs"
  unfolding program_at_def
proof (rule elf_at_mono [OF _ _ elf [unfolded kernel_elf_def]])
  fix q assume "outside (power_on m (frame b)) {} (page_init_list 2048 0x40000) b q"
  then have q: "q < 2048" "unit_page q" "q \<noteq> b" by (simp_all add: kernel_outside)
  then have "q \<notin> set (p # ps) \<union> tables_of (pde s) D" using high by (meson leD)
  then show "outside s D (p # ps) (hd (p # ps)) q" using q by (simp add: outside_def)
  show "kept (power_on m (frame b)) s q" by (rule keep [OF q])
qed

lemma kernel_ph_byte:
  assumes elf: "kernel_elf m b binary sz entry phs" and ph: "ph \<in> loads phs"
    and keep: "\<And>q. q < 2048 \<Longrightarrow> unit_page q \<Longrightarrow> q \<noteq> b \<Longrightarrow> kept (power_on m (frame b)) s q"
  shows "ph_byte s binary ph w = ph_byte (power_on m (frame b)) binary ph w"
proof (rule ph_byte_kept [OF _ ph])
  show "segs_ok (power_on m (frame b)) {} (page_init_list 2048 0x40000) b binary USTACK phs"
    using elf by (simp add: kernel_elf_def elf_at_def)
qed (use keep in \<open>simp add: kernel_outside\<close>)

lemma segs_ok_below:
  assumes "segs_ok s D xs pd binary V phs" "ph \<in> loads phs" "w - p_vaddr ph < seg_size ph"
  shows "w < ULIM"
proof -
  have ok: "seg_ok s D xs pd binary ph"
    using assms(1,2) by (induction phs arbitrary: V) (auto split: if_splits)
  have n: "4096 * seg_pages ph \<le> 0x80000000" using ok by (simp add: seg_ok_def)
  then have "unat (of_nat (4096 * seg_pages ph) :: u32) = 4096 * seg_pages ph" by (intro unat_of_nat_u32) simp
  then have "seg_size ph \<le> of_nat (4096 * seg_pages ph)" unfolding word_le_nat_alt by (simp add: seg_pages_def)
  then have "w \<in> covers ph" using assms(3) by (simp add: covers_def)
  then show ?thesis by (rule covers_below [OF ok])
qed

text \<open>A process stays what it is while other environments are made.\<close>

lemma process_keep:
  assumes pr: "process s0 binary phs s p" and inv: "vm_inv s D xs" and p: "p \<in> D"
    and up: "\<And>w. w < ULIM \<Longrightarrow> upte s' p w = upte s p w" and keep: "\<And>q. outside s D xs p q \<Longrightarrow> kept s s' q"
    and below: "\<And>ph w. ph \<in> loads phs \<Longrightarrow> w - p_vaddr ph < seg_size ph \<Longrightarrow> w < ULIM"
    and byte: "\<And>ph w. ph \<in> loads phs \<Longrightarrow> ph_byte s0 binary ph w = ph_byte s1 binary ph w"
  shows "process s1 binary phs s' p"
proof -
  have stack: "w < ULIM" if "w \<in> USTACK" for w
  proof -
    have "drop_bit 12 w < (0x80000 :: u32)" using that by (simp add: same_page_def)
    then show ?thesis by (simp add: word_less_nat_alt unat_drop_div div_less_iff_less_mult)
  qed
  have same: "upte s' p w = upte s p w \<and> user_byte s' p w = user_byte s p w" if "w < ULIM" "full_pte (upte s p w)" for w
    using up [OF that(1)] user_byte_kept [OF inv p that(1) full_pte_valid [OF that(2)] up [OF that(1)] keep p] by simp
  show ?thesis
    using pr same stack below byte up by (simp add: process_def)
qed

subsection \<open>The first interrupt\<close>

text \<open>Two runnable environments over the boot directory: the timer interrupt that ends the boot starts
  the one at the head of the list, and from then on the machine invariant holds.\<close>

lemma first_tickE:
  assumes inv: "vm_inv s D xs" and b: "boot_ok s D b" and dirs: "dirs_ok s D b"
    and waits: "\<And>e. env_ipc_recving (envs s e) = 0"
    and fl: "lst_rep (env_free_list s) fs" "\<forall>e\<in>set fs. \<not> in_use s e"
    and sl: "lst_rep (env_sched_list s) (y # ys)" "\<And>e. e \<in> set (y # ys) \<longleftrightarrow> env_status (envs s e) = ENV_RUNNABLE"
    and start: "sched_iter s = None" "sched_ts s = 0"
  obtains s' where "irq_handler True True s = Some (Resume s')" "machine_ok s' D b xs fs (y # ys) y"
proof -
  define t where "t = save_trapframe_kstack s"
  have e: "envs t = envs s" "env_free_list t = env_free_list s" "env_sched_list t = env_sched_list s" "boot_pgdir t = boot_pgdir s"
    "sched_iter t = None" "sched_ts t = 0" "kmem t = kmem s"
    by (simp_all add: t_def save_trapframe_kstack_def start)
  have v: "vm_inv t D xs = vm_inv s D xs" "pde t = pde s"
    by (rule vm_inv_cong; simp add: t_def save_trapframe_kstack_def)+
  have "sched_ok t (y # ys)" using sl e by (simp add: sched_ok_def)
  then obtain s' z where s': "sched_yield t = Some (Resume s')" "curenv s' = Some z" "sched_ok s' (y # ys)"
    "next_after (y # ys) None = Some z"
    by (rule sched_yieldE) (simp_all add: e)
  have z: "z = y" using s'(4) by simp
  have "machine_ok s' D b xs fs (y # ys) y"
  proof (rule machine_switch [OF _ _ _ _ _ _ _ sched_yield_switched [OF s'(1)] s'(3) s'(2) [unfolded z]])
    show "vm_inv t D xs" using inv v by simp
    show "boot_ok t D b" using b by (simp add: boot_ok_def e v)
    show "dirs_ok t D b" using dirs dirs_ok_cong [of t s] by (simp add: e in_use_def)
    show "waits_ok t" using waits by (simp add: waits_ok_def e)
    show "e \<in> set (y # ys)" if "env_status (envs t e) = ENV_RUNNABLE" for e using sl(2) that e(1) by simp
  qed (use fl in \<open>simp_all add: e in_use_def\<close>)
  then show thesis using that s'(1) by (simp add: irq_handler_def t_def)
qed

subsection \<open>From reset to the first environment\<close>

lemma length_filter_mod4: "length (filter (\<lambda>k. k mod 4 = 0) [4 * a..<4 * (a + n)]) = (n :: nat)"
proof (induction n)
  case (Suc n)
  have four: "[m..<m + 4] = [m, m + 1, m + 2, m + 3]" for m by (simp add: upt_conv_Cons)
  have "4 * (a + Suc n) = 4 * (a + n) + 4" by simp
  then have "[4 * a..<4 * (a + Suc n)] = [4 * a..<4 * (a + n)] @ [4 * (a + n)..<4 * (a + n) + 4]"
    by (simp only: upt_add_eq_append [of "4 * a" "4 * (a + n)"] mult_le_mono le_add1 le_refl)
  moreover have "filter (\<lambda>k. k mod 4 = 0) [4 * b, 4 * b + 1, 4 * b + 2, 4 * b + 3] = [4 * b]" for b :: nat
    by simp presburger
  ultimately show ?case using Suc.IH by (simp only: filter_append length_append four length_Cons list.size(3) add_Suc_right add_0_right)
qed simp

lemma page_init_list_length: "length (page_init_list 2852 0x40000) = 64823"
proof -
  have e: "4 * 713 = (2852 :: nat)" "4 * (713 + 64823) = (0x40000 :: nat)" by simp_all
  show ?thesis using length_filter_mod4 [of 713 64823] by (simp only: page_init_list_def length_rev length_map e)
qed

lemma boot_prepared:
  assumes b: "unit_page b" "b < 2048" and image: "\<And>i. i < 0x1000 \<Longrightarrow> load32 m (frame b + 4 * i) = boot_pgdir_image i"
  obtains s xs where
    "\<And>dev cpsr junk f u. armv7_init dev cpsr junk f u (init_boot_pgdir (power_on m (frame b))) [] = do {
       s1 \<leftarrow> env_create_priority (cpsr AND NOT 0x80) junk (fst f) (snd f) 1 s;
       s2 \<leftarrow> env_create_priority (cpsr AND NOT 0x80) junk (fst u) (snd u) 1 s1;
       Some (s2, boot_irqs dev [], cpsr AND NOT 0x80) }"
    "boot_stage m b s xs" "length xs = 64822" "lst_rep (env_free_list s) (map of_nat [0..<1024])" "lst_rep (env_sched_list s) []"
proof -
  obtain s1 where s1: "armv7_vm_init (armv7_detect_memory (init_boot_pgdir (power_on m (frame b)))) = Some s1"
    "boot_stage m b (page_init s1) (page_init_list 2852 0x40000)" "pde (page_init s1) b 0xFFF = 0" "pp_ref (page_init s1) 0 = 1"
    by (rule boot_memory [OF b image])
  obtain p0 p1 p2 rest where ps: "page_init_list 2852 0x40000 = p0 # p1 # p2 # rest" "length rest = 64820"
  proof -
    have three: "\<exists>x y z zs. xs = x # y # z # zs \<and> length zs = n" if "length xs = n + 3" for xs :: "u32 list" and n
      using that by (auto simp: eval_nat_numeral length_Suc_conv)
    have "length (page_init_list 2852 0x40000) = 64820 + 3" by (simp add: page_init_list_length)
    from three [OF this] show thesis using that by blast
  qed
  obtain s2 where s2: "physical_memory_manage_check (page_init s1) = Some s2" "boot_stage m b s2 (p2 # p1 # p0 # rest)"
    "pde s2 b 0xFFF = pde (page_init s1) b 0xFFF" "pp_ref s2 = pp_ref (page_init s1)"
    by (rule boot_stage_memory_check [OF s1(2) [unfolded ps(1)]])
  obtain s3 where s3: "page_check s2 = Some s3" "boot_stage m b s3 (p0 # p1 # p2 # rest)"
    "pde s3 b 0xFFF = pde s2 b 0xFFF" "pp_ref s3 = pp_ref s2"
    by (rule boot_stage_page_check [OF s2(2)])
  define s4 where "s4 = sched_init (env_init s3)"
  note s4 = boot_stage_envs [OF s3(2) s4_def]
  have zero: "pde s4 b 0xFFF = 0" "pp_ref s4 0 = 1" using s4(4,5) s3(3,4) s2(3,4) s1(3,4) by simp_all
  obtain s5 where s5: "page_insert (frame b) 0 0xFFFF0000 0 s4 = Some (Inr (), s5)" "boot_stage m b s5 (p1 # p2 # rest)"
    "env_free_list s5 = env_free_list s4" "env_sched_list s5 = env_sched_list s4"
    by (rule trap_init_insert [OF s4(1) zero])
  have trap: "trap_init s4 t cpsr = Some (s5, gicc_ctrl_enable (gicd_ctrl_enable t), cpsr AND NOT 0x80)" for t cpsr
    using s5(1) boot_stageD(4) [OF s4(1)] by (simp add: trap_init_def)
  have run: "armv7_init dev cpsr junk f u (init_boot_pgdir (power_on m (frame b))) [] = do {
       s1 \<leftarrow> env_create_priority (cpsr AND NOT 0x80) junk (fst f) (snd f) 1 s5;
       s2 \<leftarrow> env_create_priority (cpsr AND NOT 0x80) junk (fst u) (snd u) 1 s1;
       Some (s2, boot_irqs dev [], cpsr AND NOT 0x80) }" for dev cpsr junk f u
    by (simp only: armv7_init_def Let_def s1(1) s2(1) s3(1) Option.bind.simps trap s4_def [symmetric] prod.case boot_irqs_def)
  show thesis by (rule that [OF run s5(2)]) (simp_all add: ps(2) s5(3,4) s4(2,3))
qed

text \<open>The two environments, from the state that the initialisation has reached.\<close>

lemma boot_environments:
  fixes m b defines "M \<equiv> power_on m (frame b)"
  assumes st: "boot_stage m b s xs" and b: "unit_page b" "b < 2048"
    and fl: "lst_rep (env_free_list s) (0 # 1 # fs)" and sl: "lst_rep (env_sched_list s) []"
    and elf1: "kernel_elf m b bin1 z1 entry1 phs1" and elf2: "kernel_elf m b bin2 z2 entry2 phs2"
    and room: "seg_cost phs1 + seg_cost phs2 + 6 \<le> length xs"
  obtains s1 s2 p1 p2 ys where "env_create_priority cpsr junk bin1 z1 1 s = Some s1" "env_create_priority cpsr junk bin2 z2 1 s1 = Some s2"
    "process M bin1 phs1 s2 p1" "process M bin2 phs2 s2 p2" "vm_inv s2 {p2, p1, b} ys" "boot_ok s2 {p2, p1, b} b"
    "distinct [b, p1, p2]" "owns s2 0 p1" "owns s2 1 p2" "env_status (envs s2 0) = ENV_RUNNABLE" "env_status (envs s2 1) = ENV_RUNNABLE"
    "exc_pc (env_tf (envs s2 0)) = entry1" "exc_pc (env_tf (envs s2 1)) = entry2"
    "env_ipc_recving (envs s2 0) = 0" "env_ipc_recving (envs s2 1) = 0" "\<And>e. e \<noteq> 0 \<Longrightarrow> e \<noteq> 1 \<Longrightarrow> envs s2 e = zero_env"
    "lst_rep (env_free_list s2) fs" "lst_rep (env_sched_list s2) [1, 0]"
    "sched_iter s2 = None" "sched_ts s2 = 0" "env_id (envs s2 0) = FS_SERV_ENVID" "env_id (envs s2 1) = 0x102"
proof -
  note d = boot_stageD [OF st]
  obtain p1 ps where xs: "xs = p1 # ps" using room by (cases xs) simp_all
  have z0: "tables_of (pde s) {b} = {}" using d(5) by (auto simp: tables_of_def)
  have prog1: "program_at s {b} (p1 # ps) bin1 z1 entry1 phs1"
    by (rule kernel_program [OF elf1 d(6)]) (use d(2) xs z0 in auto)
  have high: "2048 \<le> q" if "q \<in> set (p1 # ps)" for q using d(2) that xs by simp
  have bx: "b \<noteq> p1" "b \<notin> set ps" using high [of b] b(2) by auto
  have new: "(0 :: u32) \<notin> set []" "(1 :: u32) \<notin> set [0]" by simp_all
  note inv = d(1) [unfolded xs]
  have boot: "pde s b i = 0" if "0x7FD \<le> i" "i < 0x800" for i using d(5) that by simp
  have room1: "seg_cost phs1 + 2 \<le> length ps" using room xs by simp
  obtain s1 ys1 where s1: "env_create_priority cpsr junk bin1 z1 1 s = Some s1" "vm_inv s1 {p1, b} ys1"
    "lst_rep (env_free_list s1) (1 # fs)" "lst_rep (env_sched_list s1) [0]" "process s bin1 phs1 s1 p1"
    "env_status (envs s1 0) = ENV_RUNNABLE" "env_pgdir (envs s1 0) = frame p1" "env_ttb (envs s1 0) = page2pa p1"
    "env_ipc_recving (envs s1 0) = env_ipc_recving (envs s 0)" "exc_pc (env_tf (envs s1 0)) = entry1"
    "\<And>d w. d \<in> {b} \<Longrightarrow> w < ULIM \<Longrightarrow> upte s1 d w = upte s d w" "\<And>i. i \<noteq> 0 \<Longrightarrow> envs s1 i = envs s i"
    "set ys1 \<subseteq> set ps" "length ps \<le> length ys1 + seg_cost phs1 + 2" "\<And>q. outside s {b} (p1 # ps) p1 q \<Longrightarrow> kept s s1 q"
    "tables_of (pde s1) {p1, b} \<subseteq> tables_of (pde s) {b} \<union> set ps" "alloc_kept s s1" "curenv s1 = curenv s" "p1 \<notin> {b}"
    "env_id (envs s1 0) = fst (mkenvid 0 s)" "next_env_id s1 = next_env_id s + 1"
    by (rule env_createE [OF inv fl sl new(1) d(3) b(1) bx(1) boot prog1 room1, where cpsr = cpsr and junk = junk and priority = 1])
      (assumption, assumption, (rule that; assumption))
  have k1: "kept M s1 q" if "q < 2048" "unit_page q" "q \<noteq> b" for q
  proof -
    have "outside s {b} (p1 # ps) p1 q" using that high [of q] z0 by (auto simp: outside_def)
    then show ?thesis using s1(15) kept_trans d(6) [OF that] unfolding M_def by blast
  qed
  have "outside s {b} (p1 # ps) p1 b" using b bx z0 by (simp add: outside_def)
  then have kb1: "pde s1 b i = 0" if "i < 0x800" for i using kept_pde [OF s1(15) user_pde [OF that]] d(5) [OF that] by simp
  obtain p2 qs where ys1: "ys1 = p2 # qs" using s1(14) room xs by (cases ys1) simp_all
  have sub: "set (p2 # qs) \<subseteq> set ps" using s1(13) ys1 by simp
  have t1: "tables_of (pde s1) {p1, b} \<subseteq> set ps" using s1(16) z0 by simp
  have prog2: "program_at s1 {p1, b} (p2 # qs) bin2 z2 entry2 phs2"
    by (rule kernel_program [OF elf2 k1 [unfolded M_def]]) (use high sub t1 in auto)
  have b2: "b \<noteq> p2" using bx sub by auto
  have boot2: "pde s1 b i = 0" if "0x7FD \<le> i" "i < 0x800" for i using kb1 that by simp
  have room2: "seg_cost phs2 + 2 \<le> length qs" using room xs s1(14) ys1 by simp
  have bp1: "boot_pgdir s1 = frame b" using s1(17) d(3) by (simp add: alloc_kept_def)
  obtain s2 ys2 where s2: "env_create_priority cpsr junk bin2 z2 1 s1 = Some s2" "vm_inv s2 {p2, p1, b} ys2"
    "lst_rep (env_free_list s2) fs" "lst_rep (env_sched_list s2) [1, 0]" "process s1 bin2 phs2 s2 p2"
    "env_status (envs s2 1) = ENV_RUNNABLE" "env_pgdir (envs s2 1) = frame p2" "env_ttb (envs s2 1) = page2pa p2"
    "env_ipc_recving (envs s2 1) = env_ipc_recving (envs s1 1)" "exc_pc (env_tf (envs s2 1)) = entry2"
    "\<And>d w. d \<in> {p1, b} \<Longrightarrow> w < ULIM \<Longrightarrow> upte s2 d w = upte s1 d w" "\<And>i. i \<noteq> 1 \<Longrightarrow> envs s2 i = envs s1 i"
    "\<And>q. outside s1 {p1, b} (p2 # qs) p2 q \<Longrightarrow> kept s1 s2 q" "alloc_kept s1 s2" "p2 \<notin> {p1, b}"
    "env_id (envs s2 1) = fst (mkenvid 1 s1)"
    by (rule env_createE [OF s1(2) [unfolded ys1] s1(3) s1(4) new(2) bp1 b(1) b2 boot2 prog2 room2,
          where cpsr = cpsr and junk = junk and priority = 1])
      (assumption, assumption, (rule that; assumption))
  have below: "w < ULIM" if "kernel_elf m b bin z entry phs" "ph \<in> loads phs" "w - p_vaddr ph < seg_size ph" for bin z entry phs ph w
    using that(1) segs_ok_below [OF _ that(2,3)] unfolding kernel_elf_def elf_at_def by blast
  have pr1: "process M bin1 phs1 s2 p1"
  proof (rule process_keep [OF s1(5,2)])
    show "upte s2 p1 w = upte s1 p1 w" if "w < ULIM" for w using s2(11) that by simp
    show "kept s1 s2 q" if "outside s1 {p1, b} ys1 p1 q" for q
      using that ys1 by (intro s2(13)) (auto simp: outside_def)
    show "ph_byte s bin1 ph w = ph_byte M bin1 ph w" if "ph \<in> loads phs1" for ph w
      unfolding M_def by (rule kernel_ph_byte [OF elf1 that d(6)])
  qed (use below [OF elf1] in auto)
  have pr2: "process M bin2 phs2 s2 p2"
    by (rule process_keep [OF s2(5,2)])
      (use below [OF elf2] kernel_ph_byte [OF elf2 _ k1 [unfolded M_def]] in \<open>auto simp: M_def\<close>)
  have "outside s1 {p1, b} (p2 # qs) p2 b" using b b2 bx sub t1 by (auto simp: outside_def)
  then have "pde s2 b i = 0" if "i < 0x800" for i using kept_pde [OF s2(13) user_pde [OF that]] kb1 [OF that] by simp
  then have bo: "boot_ok s2 {p2, p1, b} b" using s2(14) bp1 by (simp add: boot_ok_def alloc_kept_def)
  have e0: "envs s2 0 = envs s1 0" using s2(12) by simp
  show thesis
  proof (rule that [OF s1(1) s2(1) pr1 pr2 s2(2) bo _ _ _ _ s2(6) _ s2(10) _ _ _ s2(3,4)])
    show "distinct [b, p1, p2]" using s1(19) s2(15) by auto
    show "owns s2 0 p1" "owns s2 1 p2" using s1(7,8) s2(7,8) by (simp_all add: owns_def e0)
    show "env_status (envs s2 0) = ENV_RUNNABLE" "exc_pc (env_tf (envs s2 0)) = entry1" using s1(6,10) by (simp_all add: e0)
    show "env_ipc_recving (envs s2 0) = 0" "env_ipc_recving (envs s2 1) = 0"
      using s1(9,12) s2(9) by (simp_all add: e0 d(7) zero_env_def)
    show "envs s2 e = zero_env" if "e \<noteq> 0" "e \<noteq> 1" for e using s2(12) s1(12) that d(7) by simp
    show "env_id (envs s2 0) = FS_SERV_ENVID" "env_id (envs s2 1) = 0x102"
      using s1(20,21) s2(16) d(11) by (simp_all add: e0 mkenvid_def Let_def FS_SERV_ENVID_def)
    show "sched_iter s2 = None" "sched_ts s2 = 0" using s2(14) s1(17) d(9,10) by (simp_all add: alloc_kept_def)
  qed
qed

lemma boot_lists: "map of_nat [0..<1024] = (0 :: u32) # 1 # map of_nat [2..<1024]"
proof -
  have less: "(0 :: nat) < 1024" "(1 :: nat) < 1024" by simp_all
  have "[0..<1024] = 0 # 1 # [2..<1024]"
    using upt_conv_Cons [OF less(1)] upt_conv_Cons [OF less(2)] by (simp only: One_nat_def numeral_2_eq_2)
  then show ?thesis by (simp only: list.map semiring_1_class.of_nat_0 of_nat_1)
qed

lemma boot_free_list: "e \<in> set (map of_nat [2..<1024]) \<Longrightarrow> e \<noteq> 0 \<and> e \<noteq> (1 :: u32)"
proof -
  assume "e \<in> set (map of_nat [2..<1024])"
  then obtain k where k: "e = of_nat k" "k \<in> {2..<1024}" by (simp only: set_map set_upt) blast
  then have "unat e = k" by (simp add: of_nat_u32)
  then show ?thesis using k(2) by auto
qed


text \<open>A kernel image with the boot directory at \<open>0x80100000\<close> and the small program at \<open>0x80200000\<close>.\<close>

definition small_image :: mem where
  "small_image = store32 (store32 (store32 (\<lambda>a. if a - 0x80200000 < 92 then small_elf ! unat (a - 0x80200000) else 0)
     (frame 0x100 + 4 * 0x400) 0x40010402) (frame 0x100 + 4 * 0x800) 0x40010402) (frame 0x100 + 4 * 0x805) 0x40510402"


lemma small_image_address:
  assumes "i < 0x1000" "k < 4"
  shows "0x80100000 \<le> unat (frame 0x100 + 4 * i + of_nat k)" "unat (frame 0x100 + 4 * i + of_nat k) < 0x80200000"
proof -
  have u: "unit_page 0x100" by (simp add: unit_page_def)
  have "unat (frame 0x100 + 4 * i + of_nat k) = unat (frame 0x100 + 4 * i) + k"
    by (rule aligned_byte [OF aligned_entry [OF u assms(1)] assms(2)])
  moreover have "unat (frame 0x100 + 4 * i) = 0x80100000 + 4 * unat i" using unat_entry(1) [OF u assms(1)] by simp
  moreover have "unat i < 4096" using assms(1) by (simp add: word_less_nat_alt)
  ultimately show "0x80100000 \<le> unat (frame 0x100 + 4 * i + of_nat k)" "unat (frame 0x100 + 4 * i + of_nat k) < 0x80200000"
    using assms(2) by simp_all
qed

lemma small_image_pgdir:
  assumes "i < 0x1000"
  shows "load32 small_image (frame 0x100 + 4 * i) = boot_pgdir_image i"
proof -
  have u: "unit_page 0x100" by (simp add: unit_page_def)
  have i: "(0x400 :: u32) < 0x1000" "(0x800 :: u32) < 0x1000" "(0x805 :: u32) < 0x1000" by simp_all
  have low: "\<not> frame 0x100 + 4 * i + of_nat k - 0x80200000 < 92" if "k < 4" for k
    unfolding word_less_nat_alt unat_sub_if' using small_image_address [OF assms that] by simp
  have "load32 (\<lambda>a. if a - 0x80200000 < 92 then small_elf ! unat (a - 0x80200000) else 0) (frame 0x100 + 4 * i) = 0"
    using low [of 0] low [of 1] low [of 2] low [of 3] by (simp add: load32_def)
  then show ?thesis
    unfolding small_image_def load_store_entry [OF u u i(1) assms] load_store_entry [OF u u i(2) assms] load_store_entry [OF u u i(3) assms]
    by (simp add: boot_pgdir_image_def KSTACKTOP_def PDX_def)
qed

lemma small_image_elf: "kernel_elf small_image 0x100 0x80200000 92 0x400004 [small_phdr]"
  unfolding kernel_elf_def
proof (rule small_elf_at)
  show "kmem (power_on small_image (frame 0x100)) a = small_elf ! unat (a - 0x80200000)" if "a - 0x80200000 < 92" for a
  proof -
    have "unat (a - 0x80200000) < 92" using that by (simp add: word_less_nat_alt)
    then have "0x80200000 \<le> unat a" by (rule contrapos_pp) (simp add: unat_sub_if')
    then have ne: "a \<noteq> frame 0x100 + 4 * j + of_nat k" if "j < 0x1000" "k < 4" for j k
      using small_image_address(2) [OF that] by auto
    have "store32 m (frame 0x100 + 4 * j) v a = m a" if "j < 0x1000" for m j v
      using ne [OF that, of 0] ne [OF that, of 1] ne [OF that, of 2] ne [OF that, of 3] by (simp add: store32_def)
    from this [of "0x400"] this [of "0x800"] this [of "0x805"] show ?thesis using that by (simp add: small_image_def power_on_def)
  qed
  show "outside (power_on small_image (frame 0x100)) {} (page_init_list 2048 0x40000) 0x100 0x200"
    by (simp add: kernel_outside unit_page_def)
qed


end
