(* ===== verification/Env_Check.thy ===== *)
theory Env_Check
  imports Envs Pages
begin

section \<open>The self-test of the environments (\<open>lib/env.c\<close>)\<close>

text \<open>
  \<open>env_check\<close>, whose call in \<open>armv7_init\<close> is commented out, tests what \<open>env_init\<close> and
  \<open>env_alloc\<close> have done. It passes after \<open>env_init\<close>. Other than the self-tests of the page
  functions it does not give back what it took: environments 0, 1 and 2 stay allocated, the third of
  them marked as runnable but on no list.
\<close>

definition env_check :: "u32 \<Rightarrow> kstate \<Rightarrow> kstate option" where
  "env_check cpsr s = do {
     (r, s) \<leftarrow> env_alloc cpsr 0 s; pe0 \<leftarrow> got_page r;
     (r, s) \<leftarrow> env_alloc cpsr 0 s; pe1 \<leftarrow> got_page r;
     (r, s) \<leftarrow> env_alloc cpsr 0 s; pe2 \<leftarrow> got_page r;
     assert_that (pe1 \<noteq> pe0);
     assert_that (pe2 \<noteq> pe1 \<and> pe2 \<noteq> pe0);
     let fl = lh_first (env_free_list s);
     let s = s\<lparr>env_free_list := LIST_INIT (env_free_list s)\<rparr>;
     (r, s) \<leftarrow> env_alloc cpsr 0 s; assert_that (r = Inl E_NO_FREE_ENV);
     let s = s\<lparr>env_free_list := (env_free_list s)\<lparr>lh_first := fl\<rparr>\<rparr>;
     assert_that (env_id (envs s pe0) = 1);
     assert_that (env_id (envs s pe1) = 258);
     assert_that (env_id (envs s pe2) = 515);
     let s = upd_env pe2 (\<lambda>e. e\<lparr>env_status := ENV_FREE\<rparr>) s;
     re \<leftarrow> envid2env (env_id (envs s pe2)) False s;
     assert_that (re = Inl E_BAD_ENV);
     let s = upd_env pe2 (\<lambda>e. e\<lparr>env_status := ENV_RUNNABLE\<rparr>) s;
     re \<leftarrow> envid2env (env_id (envs s pe2)) False s;
     pe \<leftarrow> got_page re;
     assert_that (env_id (envs s pe) = env_id (envs s pe2));
     let temp = curenv s;
     let s = s\<lparr>curenv := Some pe0\<rparr>;
     re \<leftarrow> envid2env (env_id (envs s pe2)) True s;
     assert_that (re = Inl E_BAD_ENV);
     let s = s\<lparr>curenv := temp\<rparr>;
     assert_that (load32 (kmem s) (env_pgdir (envs s pe2) + 4 * PDX UTOP) = load32 (kmem s) (boot_pgdir s + 4 * PDX UTOP));
     assert_that (load32 (kmem s) (env_pgdir (envs s pe2) + 4 * (PDX UTOP - 1)) = 0);
     Some s
   }"

lemma env_alloc_boot: "env_alloc cpsr parent s = Some (r, s') \<Longrightarrow> boot_pgdir s' = boot_pgdir s"
  by (auto simp: env_alloc_def env_setup_vm_def mkenvid_def page_alloc_def Let_def
      split: option.split_asm Option.bind_split_asm sum.split_asm)

text \<open>Property. Directly after \<open>env_init\<close>, with three free pages, the self-test of the environments comes
  through: the first three allocations get the environments 0, 1 and 2 with the identifiers 1, 258 and
  515, the fourth is refused on an empty list, \<open>envid2env\<close> refuses a free environment and one that is not a
  child of the current one, and a new directory has the kernel part of the boot directory. Afterwards
  environment 2 is runnable but the scheduling list is as before, so it would never run.\<close>

theorem env_check_passes:
  assumes inv: "vm_inv s D (q0 # q1 # q2 # ps)" and fl: "lst_rep (env_free_list s) (0 # 1 # 2 # es)"
    and boot: "boot_pgdir s = frame b" "unit_page b" "b \<notin> set (q0 # q1 # q2 # ps)" "\<And>i. 0x7FD \<le> i \<Longrightarrow> i < 0x800 \<Longrightarrow> pde s b i = 0"
    and fresh: "next_env_id s = 0"
  shows "\<exists>s'. env_check cpsr s = Some s' \<and> vm_inv s' ({q0, q1, q2} \<union> D) ps \<and> lst_rep (env_free_list s') es \<and>
    map (\<lambda>e. env_id (envs s' e)) [0, 1, 2] = [1, 258, 515] \<and>
    map (\<lambda>e. env_status (envs s' e)) [0, 1, 2] = [ENV_NOT_RUNNABLE, ENV_NOT_RUNNABLE, ENV_RUNNABLE] \<and>
    env_sched_list s' = env_sched_list s \<and> (\<forall>e. e \<notin> {0, 1, 2} \<longrightarrow> envs s' e = envs s e)"
proof -
  have ne: "b \<noteq> q0" "b \<noteq> q1" "b \<noteq> q2" using boot(3) by auto
  obtain s1 where s1: "env_alloc cpsr 0 s = Some (Inr 0, s1)" "vm_inv s1 (insert q0 D) (q1 # q2 # ps)"
    "lst_rep (env_free_list s1) (1 # 2 # es)" "env_id (envs s1 0) = fst (mkenvid 0 s)" "env_status (envs s1 0) = ENV_NOT_RUNNABLE"
    "next_env_id s1 = next_env_id s + 1" "\<And>i. i \<noteq> 0 \<Longrightarrow> envs s1 i = envs s i" "curenv s1 = curenv s"
    "env_sched_list s1 = env_sched_list s" "\<And>q j. unit_page q \<Longrightarrow> q \<noteq> q0 \<Longrightarrow> j < 0x1000 \<Longrightarrow> pde s1 q j = pde s q j"
    by (rule env_allocE [OF inv fl boot(1,2) ne(1), of cpsr 0]) (simp add: boot(4), (rule that; assumption))
  have b1: "boot_pgdir s1 = frame b" using env_alloc_boot [OF s1(1)] boot(1) by simp
  have z1: "pde s1 b i = 0" if "0x7FD \<le> i" "i < 0x800" for i
    using s1(10) [OF boot(2) ne(1) order.strict_trans [OF that(2), of "0x1000"]] boot(4) that by simp
  obtain s2 where s2: "env_alloc cpsr 0 s1 = Some (Inr 1, s2)" "vm_inv s2 (insert q1 (insert q0 D)) (q2 # ps)"
    "lst_rep (env_free_list s2) (2 # es)" "env_id (envs s2 1) = fst (mkenvid 1 s1)" "env_status (envs s2 1) = ENV_NOT_RUNNABLE"
    "next_env_id s2 = next_env_id s1 + 1" "\<And>i. i \<noteq> 1 \<Longrightarrow> envs s2 i = envs s1 i" "curenv s2 = curenv s1"
    "env_sched_list s2 = env_sched_list s1" "\<And>q j. unit_page q \<Longrightarrow> q \<noteq> q1 \<Longrightarrow> j < 0x1000 \<Longrightarrow> pde s2 q j = pde s1 q j"
    by (rule env_allocE [OF s1(2,3) b1 boot(2) ne(2), of cpsr 0]) (simp add: z1, (rule that; assumption))
  have b2: "boot_pgdir s2 = frame b" using env_alloc_boot [OF s2(1)] b1 by simp
  have z2: "pde s2 b i = 0" if "0x7FD \<le> i" "i < 0x800" for i
    using s2(10) [OF boot(2) ne(2) order.strict_trans [OF that(2), of "0x1000"]] z1 that by simp
  obtain s3 where s3: "env_alloc cpsr 0 s2 = Some (Inr 2, s3)" "vm_inv s3 (insert q2 (insert q1 (insert q0 D))) ps"
    "lst_rep (env_free_list s3) es" "env_id (envs s3 2) = fst (mkenvid 2 s2)" "env_parent_id (envs s3 2) = 0"
    "\<And>i. i \<noteq> 2 \<Longrightarrow> envs s3 i = envs s2 i" "curenv s3 = curenv s2" "env_sched_list s3 = env_sched_list s2"
    "\<And>q j. unit_page q \<Longrightarrow> q \<noteq> q2 \<Longrightarrow> j < 0x1000 \<Longrightarrow> pde s3 q j = pde s2 q j" "env_pgdir (envs s3 2) = frame q2"
    "\<And>i. i < 0x7FD \<Longrightarrow> pde s3 q2 i = 0" "\<And>i. 0x7FD \<le> i \<Longrightarrow> i < 0x1000 \<Longrightarrow> pde s3 q2 i = pde s2 b i"
    by (rule env_allocE [OF s2(2,3) b2 boot(2) ne(3), of cpsr 0]) (simp add: z2, (rule that; assumption))
  have b3: "boot_pgdir s3 = frame b" using env_alloc_boot [OF s3(1)] b2 by simp
  have ids: "env_id (envs s3 0) = 1" "env_id (envs s3 1) = 258" "env_id (envs s3 2) = 515"
    using s1(4,6) s2(4,6) s3(4) by (simp_all add: s3(6) s2(7) mkenvid_def Let_def fresh)
  have dir: "load32 (kmem s3) (frame q2 + 8180) = load32 (kmem s3) (frame b + 8180)" "load32 (kmem s3) (frame q2 + 8176) = 0"
    using s3(12) [of "0x7FD"] s3(9) [OF boot(2) ne(3), of "0x7FD"] s3(11) [of "0x7FC"] by (simp_all add: pde_def)
  let ?s = "s3\<lparr>env_free_list := LIST_INIT (env_free_list s3)\<rparr>"
  have full: "env_alloc cpsr 0 ?s = Some (Inl E_NO_FREE_ENV, ?s)"
    by (simp add: env_alloc_def LIST_FIRST_def LIST_INIT_def)
  have restore: "(LIST_INIT l)\<lparr>lh_first := lh_first l\<rparr> = l" for l :: "u32 lst" by (simp add: LIST_INIT_def)
  define s' where "s' = upd_env 2 (\<lambda>e. e\<lparr>env_status := ENV_RUNNABLE\<rparr>) s3"
  have run: "env_check cpsr s = Some s'"
    by (simp add: env_check_def s1(1) s2(1) s3(1) full assert_that_def ids envid2env_def ENVX_def env_status_defs s3(5,10)
        PDX_def b3 dir s'_def restore)
  have "vm_inv s' ({q0, q1, q2} \<union> D) ps"
    using s3(2) vm_inv_cong(1) [of s' s3] by (simp add: s'_def insert_commute)
  then show ?thesis
    using run s3(3) s1(5) s2(5) ids by (intro exI [of _ s']) (simp add: s'_def s3(6,8) s2(7,9) s1(7,9))
qed

theorem env_check_passes_witness:
  "\<exists>s'. env_check 0x13 (env_init one_space) = Some s' \<and> vm_inv s' {2060, 2056, 2052, 2064} [2048] \<and> env_id (envs s' 2) = 515 \<and>
    env_status (envs s' 2) = ENV_RUNNABLE \<and> env_sched_list s' = env_sched_list one_space"
proof -
  have n: "(0 :: nat) < 1024" "(1 :: nat) < 1024" "(2 :: nat) < 1024" by simp_all
  have l: "map of_nat [0..<1024] = (0 :: u32) # 1 # 2 # map of_nat [3..<1024]"
    unfolding upt_conv_Cons [OF n(1)] One_nat_def [symmetric] upt_conv_Cons [OF n(2)] Suc_1 upt_conv_Cons [OF n(3)]
    by (simp only: list.map semiring_1_class.of_nat_0 of_nat_1 of_nat_numeral) (simp only: eval_nat_numeral)
  obtain es where es: "lst_rep (env_free_list (env_init one_space)) (0 # 1 # 2 # es)"
    using fold_env_init_one [of 1024 "one_space\<lparr>env_free_list := LIST_INIT (env_free_list one_space)\<rparr>"]
    unfolding l by (simp add: env_init_def LIST_INIT_rep del: upt_rec_numeral) blast
  have sets: "{2060, 2056, 2052} \<union> {2064} = {2060, 2056, 2052, 2064 :: u32}" by auto
  have b: "boot_pgdir (env_init one_space) = frame 0x100" "unit_page 0x100" "0x100 \<notin> set [2060, 2056, 2052, 2048 :: u32]"
    "next_env_id (env_init one_space) = 0"
    by (simp_all add: env_init_vm one_space_boot unit_page_def)
  have inv: "vm_inv (env_init one_space) {2064} [2060, 2056, 2052, 2048]" by (simp add: env_init_vm one_space_inv)
  show ?thesis
    using env_check_passes [OF inv es b(1-3) _ b(4), of "0x13"] unfolding sets
    by (auto simp: env_init_vm one_space_mem)
qed

end
