(* ===== verification/Fs.thy ===== *)
theory Fs
  imports Prelude
begin

section \<open>The file system's blocks (\<open>fs/fs.c\<close>, \<open>fs/ide.c\<close>)\<close>

text \<open>
  The file server is one process: \<open>umem\<close> is its memory, \<open>uperm\<close> gives the permission bits
  of each of its pages (0: not mapped) and \<open>uref\<close> how many mappings the page has in all.
  Every disk block has its own page, so the server has no aliases. The system calls it makes
  on itself are the operations of this state; whether the \<open>n\<close>-th allocation finds memory is
  decided by \<open>grant n\<close>, since it depends on the rest of the system.

  \<open>disk\<close> is the disk image of \<open>disk_size\<close> bytes behind \<open>sys_dev_read\<close> and \<open>sys_dev_write\<close>.
  \<open>super\<close> and \<open>bitmap\<close> are the server's pointers into \<open>umem\<close>.

  A panic, a failed assertion and an access to a page that is not mapped (which the server
  never means to make) are the value \<open>None\<close>.
\<close>

record fs =
  umem :: mem
  uperm :: "u32 \<Rightarrow> u32"
  uref :: "u32 \<Rightarrow> nat"
  grant :: "nat \<Rightarrow> bool"
  allocs :: nat
  disk :: mem
  disk_size :: u32
  super :: u32
  nbitmap :: u32
  bitmap :: u32
  dirty_flags :: "u32 \<Rightarrow> u8"

abbreviation (input) BY2BLK :: u32 where "BY2BLK \<equiv> BY2PG"
abbreviation (input) BY2SECT :: u32 where "BY2SECT \<equiv> 512"
abbreviation (input) SECT2BLK :: u32 where "SECT2BLK \<equiv> 8"
abbreviation (input) BIT2BLK :: u32 where "BIT2BLK \<equiv> 32768"
abbreviation (input) DISKMAP :: u32 where "DISKMAP \<equiv> 0x10000000"
abbreviation (input) DISKMAX :: u32 where "DISKMAX \<equiv> 8388608"
abbreviation (input) FS_MAGIC :: u32 where "FS_MAGIC \<equiv> 0x68286097"

subsection \<open>Memory and system calls\<close>

definition is_mapped :: "fs \<Rightarrow> u32 \<Rightarrow> bool" where
  "is_mapped s va \<longleftrightarrow> uperm s (PPN va) \<noteq> 0"

definition rd :: "u32 \<Rightarrow> fs \<Rightarrow> u32 option" where
  "rd a s = (if is_mapped s a then Some (load32 (umem s) a) else None)"

definition wrt :: "u32 \<Rightarrow> u32 \<Rightarrow> fs \<Rightarrow> fs option" where
  "wrt a v s = (if is_mapped s a then Some (s\<lparr>umem := store32 (umem s) a v\<rparr>) else None)"

definition syscall_va_perm :: "u32 \<Rightarrow> fs \<Rightarrow> u32" where
  "syscall_va_perm va s = uperm s (PPN va)"

text \<open>A fresh, cleared page at \<open>va\<close>; \<open>page_insert\<close> adds \<open>PTE_V\<close> to the permissions.\<close>

definition syscall_mem_alloc :: "u32 \<Rightarrow> u32 \<Rightarrow> fs \<Rightarrow> (errcode + u32) \<times> fs" where
  "syscall_mem_alloc va perm s =
     (if UTOP \<le> va then (Inl E_UNSPECIFIED, s)
      else if perm AND PTE_V = 0 then (Inl E_INVAL, s)
      else if \<not> grant s (allocs s) then (Inl E_NO_MEM, s\<lparr>allocs := allocs s + 1\<rparr>)
      else (Inr 0, s\<lparr>allocs := allocs s + 1,
        umem := bzero (umem s) (PG_ADDR_BASE va) 4096,
        uperm := (uperm s)(PPN va := perm OR PTE_V), uref := (uref s)(PPN va := 1)\<rparr>))"

definition syscall_mem_unmap :: "u32 \<Rightarrow> fs \<Rightarrow> (errcode + u32) \<times> fs" where
  "syscall_mem_unmap va s =
     (if UTOP \<le> va then (Inl E_INVAL, s)
      else (Inr 0, s\<lparr>uperm := (uperm s)(PPN va := 0), uref := (uref s)(PPN va := 0)\<rparr>))"

text \<open>A copy between two memories.\<close>

fun copy_in :: "mem \<Rightarrow> u32 \<Rightarrow> mem \<Rightarrow> u32 \<Rightarrow> nat \<Rightarrow> mem" where
  "copy_in m p d q 0 = m"
| "copy_in m p d q (Suc n) = copy_in (m(p := d q)) (p + 1) d (q + 1) n"

text \<open>The device calls check the disk's size, and the server ignores their result.
  Transfers are of one block, so one test of the page is enough.\<close>

definition ide_read :: "u32 \<Rightarrow> u32 \<Rightarrow> u32 \<Rightarrow> fs \<Rightarrow> fs option" where
  "ide_read secno dst nsecs s =
     (let off = secno * BY2SECT; len = nsecs * BY2SECT in
      if disk_size s \<le> off \<or> disk_size s < off + len then Some s
      else if is_mapped s dst then Some (s\<lparr>umem := copy_in (umem s) dst (disk s) off (unat len)\<rparr>)
      else None)"

definition ide_write :: "u32 \<Rightarrow> u32 \<Rightarrow> u32 \<Rightarrow> fs \<Rightarrow> fs option" where
  "ide_write secno src nsecs s =
     (let off = secno * BY2SECT; len = nsecs * BY2SECT in
      if disk_size s \<le> off \<or> disk_size s < off + len then Some s
      else if is_mapped s src then Some (s\<lparr>disk := copy_in (disk s) off (umem s) src (unat len)\<rparr>)
      else None)"

subsection \<open>The block cache\<close>

definition diskaddr :: "u32 \<Rightarrow> fs \<Rightarrow> u32 option" where
  "diskaddr blockno s =
     (if super s \<noteq> 0
      then do {
        n \<leftarrow> rd (super s + 4) s;
        if n \<le> blockno then None else Some (DISKMAP + blockno * BY2BLK)
      }
      else Some (DISKMAP + blockno * BY2BLK))"

definition va_is_mapped :: "u32 \<Rightarrow> fs \<Rightarrow> bool" where
  "va_is_mapped va s \<longleftrightarrow> 0 < syscall_va_perm va s"

definition block_is_mapped :: "u32 \<Rightarrow> fs \<Rightarrow> u32 option" where
  "block_is_mapped blockno s = do {
     va \<leftarrow> diskaddr blockno s;
     Some (if va_is_mapped va s then va else 0)
   }"

definition va_is_dirty :: "u32 \<Rightarrow> fs \<Rightarrow> bool" where
  "va_is_dirty va s \<longleftrightarrow> dirty_flags s (PPN va) \<noteq> 0"

definition block_is_dirty :: "u32 \<Rightarrow> fs \<Rightarrow> bool option" where
  "block_is_dirty blockno s = do {
     va \<leftarrow> diskaddr blockno s;
     Some (va_is_mapped va s \<and> va_is_dirty va s)
   }"

definition map_block :: "u32 \<Rightarrow> fs \<Rightarrow> ((errcode + u32) \<times> fs) option" where
  "map_block blockno s = do {
     m \<leftarrow> block_is_mapped blockno s;
     if m \<noteq> 0 then Some (Inr 0, s)
     else do {
       va \<leftarrow> diskaddr blockno s;
       Some (syscall_mem_alloc va (PTE_V OR PTE_R OR PTE_LIBRARY) s)
     }
   }"

definition block_is_free :: "u32 \<Rightarrow> fs \<Rightarrow> bool option" where
  "block_is_free blockno s =
     (if super s = 0 then Some False
      else do {
        n \<leftarrow> rd (super s + 4) s;
        if n \<le> blockno then Some False
        else do {
          w \<leftarrow> rd (bitmap s + 4 * (blockno div 32)) s;
          Some (w AND push_bit (unat (blockno mod 32)) 1 \<noteq> 0)
        }
      })"

definition unmap_block :: "u32 \<Rightarrow> fs \<Rightarrow> fs option" where
  "unmap_block blockno s = do {
     m \<leftarrow> block_is_mapped blockno s;
     if m = 0 then Some s
     else do {
       free \<leftarrow> block_is_free blockno s;
       dirty \<leftarrow> block_is_dirty blockno s;
       if \<not> free \<and> dirty then None
       else do {
         va \<leftarrow> diskaddr blockno s;
         (case syscall_mem_unmap va s of
            (Inl _, _) \<Rightarrow> None
          | (Inr _, s1) \<Rightarrow> do { m \<leftarrow> block_is_mapped blockno s1; if m = 0 then Some s1 else None })
       }
     }
   }"

text \<open>The result is the block's address and whether it came off the disk. The result of the
  allocation is ignored.\<close>

definition read_block :: "u32 \<Rightarrow> fs \<Rightarrow> ((u32 \<times> bool) \<times> fs) option" where
  "read_block blockno s = do {
     va \<leftarrow> diskaddr blockno s;
     free \<leftarrow> (if bitmap s \<noteq> 0 then block_is_free blockno s else Some False);
     if free then None
     else do {
       m \<leftarrow> block_is_mapped blockno s;
       if m \<noteq> 0 then Some ((va, False), s)
       else do {
         s2 \<leftarrow> ide_read (blockno * SECT2BLK) va SECT2BLK (snd (syscall_mem_alloc va (PTE_V OR PTE_R) s));
         Some ((va, True), s2)
       }
     }
   }"

definition write_block :: "u32 \<Rightarrow> fs \<Rightarrow> fs option" where
  "write_block blockno s = do {
     m \<leftarrow> block_is_mapped blockno s;
     if m = 0 then None
     else do {
       va \<leftarrow> diskaddr blockno s;
       s1 \<leftarrow> ide_write (blockno * SECT2BLK) va SECT2BLK s;
       Some (s1\<lparr>dirty_flags := (dirty_flags s1)(PPN va := 0)\<rparr>)
     }
   }"

subsection \<open>The bitmap\<close>

definition free_block :: "u32 \<Rightarrow> fs \<Rightarrow> fs option" where
  "free_block blockno s =
     (if blockno = 0 then None
      else do {
        w \<leftarrow> rd (bitmap s + 4 * (blockno div 32)) s;
        wrt (bitmap s + 4 * (blockno div 32)) (w AND NOT (push_bit (unat (blockno mod 32)) 1)) s
      })"

fun alloc_scan :: "u32 list \<Rightarrow> fs \<Rightarrow> ((errcode + u32) \<times> fs) option" where
  "alloc_scan [] s = Some (Inl E_NO_DISK, s)"
| "alloc_scan (blockno # bs) s = do {
     w \<leftarrow> rd (bitmap s + 4 * (blockno div 32)) s;
     if w AND push_bit (unat (blockno mod 32)) 1 \<noteq> 0
     then do {
       s1 \<leftarrow> wrt (bitmap s + 4 * (blockno div 32)) (w AND NOT (push_bit (unat (blockno mod 32)) 1)) s;
       s2 \<leftarrow> write_block (blockno div BIT2BLK) s1;
       Some (Inr blockno, s2)
     }
     else alloc_scan bs s
   }"

definition alloc_block_num :: "fs \<Rightarrow> ((errcode + u32) \<times> fs) option" where
  "alloc_block_num s = do {
     n \<leftarrow> rd (super s + 4) s;
     alloc_scan (map of_nat [3..<unat n]) s
   }"

definition alloc_block :: "fs \<Rightarrow> ((errcode + u32) \<times> fs) option" where
  "alloc_block s = do {
     (r, s1) \<leftarrow> alloc_block_num s;
     (case r of
        Inl e \<Rightarrow> Some (Inl e, s1)
      | Inr bno \<Rightarrow> do {
          (r, s2) \<leftarrow> map_block bno s1;
          (case r of
             Inl e \<Rightarrow> do { s3 \<leftarrow> free_block bno s2; Some (Inl e, s3) }
           | Inr _ \<Rightarrow> Some (Inr bno, s2))
        })
   }"

subsection \<open>Start-up\<close>

definition read_super :: "fs \<Rightarrow> fs option" where
  "read_super s = do {
     ((blk, isnew), s1) \<leftarrow> read_block 1 s;
     let s2 = s1\<lparr>super := blk\<rparr>;
     magic \<leftarrow> rd (super s2) s2;
     if magic \<noteq> FS_MAGIC then None
     else do {
       n \<leftarrow> rd (super s2 + 4) s2;
       if DISKMAX div BY2BLK < n then None else Some s2
     }
   }"

definition assert_not_free :: "u32 \<Rightarrow> fs \<Rightarrow> fs option" where
  "assert_not_free blockno s = do { free \<leftarrow> block_is_free blockno s; if free then None else Some s }"

definition read_bitmap :: "fs \<Rightarrow> fs option" where
  "read_bitmap s = do {
     n \<leftarrow> rd (super s + 4) s;
     let s0 = s\<lparr>nbitmap := n div BIT2BLK + 1\<rparr>;
     s1 \<leftarrow> foldM (\<lambda>i s. map_option snd (read_block (of_nat i + 2) s)) [0..<unat (nbitmap s0)] s0;
     va \<leftarrow> diskaddr 2 s1;
     let s2 = s1\<lparr>bitmap := va\<rparr>;
     s2 \<leftarrow> assert_not_free 0 s2;
     s2 \<leftarrow> assert_not_free 1 s2;
     foldM (\<lambda>i. assert_not_free (of_nat i + 2)) [0..<unat (nbitmap s2)] s2
   }"

text \<open>The string \<open>OOPS!\<close> with its newline and NUL.\<close>

abbreviation (input) OOPS :: "u8 list" where "OOPS \<equiv> [79, 79, 80, 83, 33, 10, 0]"

fun put_bytes :: "mem \<Rightarrow> u32 \<Rightarrow> u8 list \<Rightarrow> mem" where
  "put_bytes m a [] = m"
| "put_bytes m a (c # cs) = put_bytes (m(a := c)) (a + 1) cs"

definition get_bytes :: "mem \<Rightarrow> u32 \<Rightarrow> nat \<Rightarrow> u8 list" where
  "get_bytes m a n = map (\<lambda>i. m (a + of_nat i)) [0..<n]"

definition check_write_block :: "fs \<Rightarrow> fs option" where
  "check_write_block s = do {
     (_, s1) \<leftarrow> read_block 0 (s\<lparr>super := 0\<rparr>);
     a1 \<leftarrow> diskaddr 1 s1;
     a0 \<leftarrow> diskaddr 0 s1;
     if \<not> (is_mapped s1 a1 \<and> is_mapped s1 a0) then None
     else do {
       let s2 = s1\<lparr>umem := bcopy (umem s1) a1 a0 4096\<rparr>;
       let s3 = s2\<lparr>umem := put_bytes (umem s2) a1 OOPS\<rparr>;
       s4 \<leftarrow> write_block 1 s3;
       m \<leftarrow> block_is_mapped 1 s4;
       if m = 0 then None
       else do {
         let s5 = snd (syscall_mem_unmap a1 s4);
         m \<leftarrow> block_is_mapped 1 s5;
         if m \<noteq> 0 then None
         else do {
           (_, s6) \<leftarrow> read_block 1 s5;
           if get_bytes (umem s6) a1 7 \<noteq> OOPS then None
           else do {
             let s7 = s6\<lparr>umem := bcopy (umem s6) a0 a1 4096\<rparr>;
             s8 \<leftarrow> write_block 1 s7;
             Some (s8\<lparr>super := a1\<rparr>)
           }
         }
       }
     }
   }"

definition fs_init :: "fs \<Rightarrow> fs option" where
  "fs_init s = do {
     s1 \<leftarrow> read_super s;
     s2 \<leftarrow> check_write_block s1;
     s3 \<leftarrow> read_bitmap s2;
     Some (s3\<lparr>dirty_flags := \<lambda>_. 0\<rparr>)
   }"

definition fs_sync :: "fs \<Rightarrow> fs option" where
  "fs_sync s = do {
     n \<leftarrow> rd (super s + 4) s;
     foldM (\<lambda>i s. do {
       d \<leftarrow> block_is_dirty (of_nat i) s;
       if d then write_block (of_nat i) s else Some s
     }) [0..<unat n] s
   }"

end
