(* ===== verification/Fs_Files.thy ===== *)
theory Fs_Files
  imports Fs
begin

section \<open>Files and directories (\<open>fs/fs.c\<close>)\<close>

text \<open>
  A \<open>struct File\<close> is 256 bytes of a cached block, and a \<open>struct File *\<close> its address. A result
  \<open>Inl e\<close> is the return value \<open>-e\<close>, a result \<open>Inr\<close> is 0 with what the output parameter gets.
  Paths and names that the server keeps in local arrays are the lists of their bytes before
  the NUL.
\<close>

abbreviation (input) NDIRECT :: u32 where "NDIRECT \<equiv> 10"
abbreviation (input) NINDIRECT :: u32 where "NINDIRECT \<equiv> 1024"
abbreviation (input) BY2FILE :: u32 where "BY2FILE \<equiv> 256"
abbreviation (input) FILE2BLK :: nat where "FILE2BLK \<equiv> 16"
abbreviation (input) MAXNAMELEN :: nat where "MAXNAMELEN \<equiv> 128"
abbreviation (input) FTYPE_DIR :: u32 where "FTYPE_DIR \<equiv> 1"

text \<open>The addresses of a file's fields.\<close>

abbreviation (input) f_size :: "u32 \<Rightarrow> u32" where "f_size f \<equiv> f + 128"
abbreviation (input) f_type :: "u32 \<Rightarrow> u32" where "f_type f \<equiv> f + 132"
abbreviation (input) f_direct :: "u32 \<Rightarrow> u32 \<Rightarrow> u32" where "f_direct f k \<equiv> f + 136 + 4 * k"
abbreviation (input) f_indirect :: "u32 \<Rightarrow> u32" where "f_indirect f \<equiv> f + 176"
abbreviation (input) f_dir :: "u32 \<Rightarrow> u32" where "f_dir f \<equiv> f + 180"

type_synonym 'a res = "((errcode + 'a) \<times> fs) option"

text \<open>Go on after success, pass an error through.\<close>

definition on_ok :: "'a res \<Rightarrow> ('a \<Rightarrow> fs \<Rightarrow> 'b res) \<Rightarrow> 'b res" where
  "on_ok m k = do { (r, s) \<leftarrow> m; (case r of Inl e \<Rightarrow> Some (Inl e, s) | Inr x \<Rightarrow> k x s) }"

subsection \<open>The blocks of a file\<close>

definition file_block_walk :: "u32 \<Rightarrow> u32 \<Rightarrow> bool \<Rightarrow> fs \<Rightarrow> u32 res" where
  "file_block_walk f filebno alloc s =
     (if filebno < NDIRECT then Some (Inr (f_direct f filebno), s)
      else if filebno < NINDIRECT then do {
        ind \<leftarrow> rd (f_indirect f) s;
        on_ok
          (if ind \<noteq> 0 then Some (Inr (), s)
           else if \<not> alloc then Some (Inl E_NOT_FOUND, s)
           else on_ok (alloc_block s) (\<lambda>b s. do { s \<leftarrow> wrt (f_indirect f) b s; Some (Inr (), s) }))
          (\<lambda>_ s. do {
            ind \<leftarrow> rd (f_indirect f) s;
            ((blk, isnew), s) \<leftarrow> read_block ind s;
            Some (Inr (blk + 4 * filebno), s)
          })
      }
      else Some (Inl E_INVAL, s))"

definition file_map_block :: "u32 \<Rightarrow> u32 \<Rightarrow> bool \<Rightarrow> fs \<Rightarrow> u32 res" where
  "file_map_block f filebno alloc s =
     on_ok (file_block_walk f filebno alloc s) (\<lambda>ptr s. do {
       b \<leftarrow> rd ptr s;
       if b \<noteq> 0 then Some (Inr b, s)
       else if \<not> alloc then Some (Inl E_NOT_FOUND, s)
       else on_ok (alloc_block s) (\<lambda>b s. do { s \<leftarrow> wrt ptr b s; Some (Inr b, s) })
     })"

definition file_clear_block :: "u32 \<Rightarrow> u32 \<Rightarrow> fs \<Rightarrow> unit res" where
  "file_clear_block f filebno s =
     on_ok (file_block_walk f filebno False s) (\<lambda>ptr s. do {
       b \<leftarrow> rd ptr s;
       if b \<noteq> 0 then do { s \<leftarrow> free_block b s; s \<leftarrow> wrt ptr 0 s; Some (Inr (), s) }
       else Some (Inr (), s)
     })"

definition file_get_block :: "u32 \<Rightarrow> u32 \<Rightarrow> fs \<Rightarrow> u32 res" where
  "file_get_block f filebno s =
     on_ok (file_map_block f filebno True s) (\<lambda>diskbno s. do {
       ((blk, isnew), s) \<leftarrow> read_block diskbno s;
       Some (Inr blk, s)
     })"

definition file_dirty :: "u32 \<Rightarrow> u32 \<Rightarrow> fs \<Rightarrow> unit res" where
  "file_dirty f offset s =
     on_ok (file_get_block f (offset div BY2BLK) s) (\<lambda>blk s.
       Some (Inr (), s\<lparr>dirty_flags := (dirty_flags s)(PPN blk := 1)\<rparr>))"

subsection \<open>Directories\<close>

text \<open>\<open>strcmp(a, name) == 0\<close>, and \<open>strcpy(a, name)\<close>.\<close>

fun str_eq :: "mem \<Rightarrow> u32 \<Rightarrow> u8 list \<Rightarrow> bool" where
  "str_eq m a [] \<longleftrightarrow> m a = 0"
| "str_eq m a (c # cs) \<longleftrightarrow> m a = c \<and> str_eq m (a + 1) cs"

definition strcpy :: "u32 \<Rightarrow> u8 list \<Rightarrow> fs \<Rightarrow> fs" where
  "strcpy a name s = s\<lparr>umem := put_bytes (umem s) a (name @ [0])\<rparr>"

definition slot :: "u32 \<Rightarrow> nat \<Rightarrow> u32" where
  "slot blk j = blk + of_nat j * BY2FILE"

definition find_slot :: "mem \<Rightarrow> u32 \<Rightarrow> (u32 \<Rightarrow> bool) \<Rightarrow> u32 option" where
  "find_slot m blk P = map_option (slot blk) (find (\<lambda>j. P (slot blk j)) [0..<FILE2BLK])"

fun lookup_blocks :: "u32 \<Rightarrow> u8 list \<Rightarrow> nat list \<Rightarrow> fs \<Rightarrow> u32 res" where
  "lookup_blocks dir name [] s = Some (Inl E_NOT_FOUND, s)"
| "lookup_blocks dir name (i # is) s =
     on_ok (file_get_block dir (of_nat i) s) (\<lambda>blk s.
       (case find_slot (umem s) blk (\<lambda>f. str_eq (umem s) f name) of
          Some f \<Rightarrow> do { s \<leftarrow> wrt (f_dir f) dir s; Some (Inr f, s) }
        | None \<Rightarrow> lookup_blocks dir name is s))"

definition dir_lookup :: "u32 \<Rightarrow> u8 list \<Rightarrow> fs \<Rightarrow> u32 res" where
  "dir_lookup dir name s = do {
     sz \<leftarrow> rd (f_size dir) s;
     lookup_blocks dir name [0..<unat (sz div BY2BLK)] s
   }"

fun alloc_blocks :: "u32 \<Rightarrow> nat list \<Rightarrow> fs \<Rightarrow> u32 option res" where
  "alloc_blocks dir [] s = Some (Inr None, s)"
| "alloc_blocks dir (i # is) s =
     on_ok (file_get_block dir (of_nat i) s) (\<lambda>blk s.
       (case find_slot (umem s) blk (\<lambda>f. umem s f = 0) of
          Some f \<Rightarrow> Some (Inr (Some f), s)
        | None \<Rightarrow> alloc_blocks dir is s))"

definition dir_alloc_file :: "u32 \<Rightarrow> fs \<Rightarrow> u32 res" where
  "dir_alloc_file dir s = do {
     sz \<leftarrow> rd (f_size dir) s;
     let nblock = sz div BY2BLK;
     on_ok (alloc_blocks dir [0..<unat nblock] s) (\<lambda>found s.
       (case found of
          Some f \<Rightarrow> Some (Inr f, s)
        | None \<Rightarrow> do {
            sz \<leftarrow> rd (f_size dir) s;
            s \<leftarrow> wrt (f_size dir) (sz + BY2BLK) s;
            file_get_block dir nblock s
          }))
   }"

subsection \<open>Paths\<close>

definition skip_slash :: "u8 list \<Rightarrow> u8 list" where
  "skip_slash p = dropWhile (\<lambda>c. c = 47) p"

text \<open>The two output parameters of a walk and the last element of the path.\<close>

record walk =
  pdir :: u32
  pfile :: u32
  lastelem :: "u8 list"

lemma skip_slash_length: "length (skip_slash p) \<le> length p"
  by (simp add: skip_slash_def length_dropWhile_le)

lemma rest_shorter: "path \<noteq> [] \<Longrightarrow> length (skip_slash (dropWhile (\<lambda>c. c \<noteq> 47) path)) < length path"
proof (cases path)
  case (Cons c cs)
  show ?thesis
  proof (cases "c = 47")
    case True
    then have "length (skip_slash path) \<le> length cs"
      using Cons skip_slash_length [of cs] by (simp add: skip_slash_def)
    then show ?thesis using True Cons by simp
  next
    case False
    have "length (skip_slash (dropWhile (\<lambda>c. c \<noteq> 47) cs)) \<le> length cs"
      by (meson skip_slash_length length_dropWhile_le order.trans)
    then show ?thesis using False Cons by simp
  qed
qed simp

function walk_loop :: "u8 list \<Rightarrow> u32 \<Rightarrow> u32 \<Rightarrow> u8 list \<Rightarrow> fs \<Rightarrow> ((errcode + unit) \<times> walk \<times> fs) option" where
  "walk_loop path dir file elem s =
     (if path = [] then Some (Inr (), \<lparr>pdir = dir, pfile = file, lastelem = elem\<rparr>, s)
      else
        (let name = takeWhile (\<lambda>c. c \<noteq> 47) path;
             rest = skip_slash (dropWhile (\<lambda>c. c \<noteq> 47) path) in
         if MAXNAMELEN \<le> length name
         then Some (Inl E_BAD_PATH, \<lparr>pdir = 0, pfile = 0, lastelem = elem\<rparr>, s)
         else do {
           ty \<leftarrow> rd (f_type file) s;
           if ty \<noteq> FTYPE_DIR
           then Some (Inl E_NOT_FOUND, \<lparr>pdir = 0, pfile = 0, lastelem = elem\<rparr>, s)
           else do {
             (r, s) \<leftarrow> dir_lookup file name s;
             (case r of
                Inl e \<Rightarrow>
                  Some (Inl e,
                    (if e = E_NOT_FOUND \<and> rest = [] then \<lparr>pdir = file, pfile = 0, lastelem = name\<rparr>
                     else \<lparr>pdir = 0, pfile = 0, lastelem = elem\<rparr>), s)
              | Inr f \<Rightarrow> walk_loop rest file f elem s)
           }
         }))"
  by pat_completeness auto
termination
  by (relation "measure (\<lambda>(path, _). length path)") (auto simp: rest_shorter)

declare walk_loop.simps [simp del]

text \<open>The array for the last element holds anything before (\<open>[]\<close> here).\<close>

definition walk_path :: "u8 list \<Rightarrow> fs \<Rightarrow> ((errcode + unit) \<times> walk \<times> fs) option" where
  "walk_path path s = walk_loop (skip_slash path) 0 (super s + 8) [] s"

definition file_open :: "u8 list \<Rightarrow> fs \<Rightarrow> u32 res" where
  "file_open path s = do {
     (r, w, s) \<leftarrow> walk_path path s;
     Some (case r of Inl e \<Rightarrow> Inl e | Inr _ \<Rightarrow> Inr (pfile w), s)
   }"

text \<open>A failed \<open>dir_alloc_file\<close> is reported with the error of the walk.\<close>

definition file_create :: "u8 list \<Rightarrow> fs \<Rightarrow> u32 res" where
  "file_create path s = do {
     (r, w, s) \<leftarrow> walk_path path s;
     (case r of
        Inr _ \<Rightarrow> Some (Inl E_FILE_EXISTS, s)
      | Inl e \<Rightarrow>
          if e \<noteq> E_NOT_FOUND \<or> pdir w = 0 then Some (Inl e, s)
          else do {
            (r, s) \<leftarrow> dir_alloc_file (pdir w) s;
            (case r of
               Inl _ \<Rightarrow> Some (Inl e, s)
             | Inr f \<Rightarrow> if is_mapped s f then Some (Inr f, strcpy f (lastelem w) s) else None)
          })
   }"

subsection \<open>Size, flush and removal\<close>

definition clear_blocks :: "u32 \<Rightarrow> nat list \<Rightarrow> fs \<Rightarrow> fs option" where
  "clear_blocks f = foldM (\<lambda>bno s. map_option snd (file_clear_block f (of_nat bno) s))"

definition file_truncate :: "u32 \<Rightarrow> u32 \<Rightarrow> fs \<Rightarrow> fs option" where
  "file_truncate f newsize s = do {
     sz \<leftarrow> rd (f_size f) s;
     let old_nblocks = sz div BY2BLK + 1;
     let new_nblocks = (if newsize = 0 then 0 else newsize div BY2BLK + 1);
     s \<leftarrow> (if new_nblocks \<le> NDIRECT then wrt (f_indirect f) 0 s else Some s);
     s \<leftarrow> clear_blocks f [unat new_nblocks..<unat old_nblocks] s;
     wrt (f_size f) newsize s
   }"

definition flush_block :: "u32 \<Rightarrow> nat \<Rightarrow> fs \<Rightarrow> fs option" where
  "flush_block f bno s = do {
     (r, s) \<leftarrow> file_map_block f (of_nat bno) False s;
     (case r of
        Inl _ \<Rightarrow> Some s
      | Inr diskno \<Rightarrow> do { d \<leftarrow> block_is_dirty diskno s; if d then write_block diskno s else Some s })
   }"

definition file_flush :: "u32 \<Rightarrow> fs \<Rightarrow> fs option" where
  "file_flush f s = do {
     sz \<leftarrow> rd (f_size f) s;
     foldM (flush_block f) [0..<unat (sz div BY2BLK + 1)] s
   }"

text \<open>Flush the directory that the file is in, if it is known.\<close>

definition flush_dir :: "u32 \<Rightarrow> fs \<Rightarrow> fs option" where
  "flush_dir f s = do {
     d \<leftarrow> rd (f_dir f) s;
     if d \<noteq> 0 then file_flush d s else Some s
   }"

definition file_set_size :: "u32 \<Rightarrow> u32 \<Rightarrow> fs \<Rightarrow> fs option" where
  "file_set_size f newsize s = do {
     sz \<leftarrow> rd (f_size f) s;
     s \<leftarrow> (if newsize < sz then file_truncate f newsize s else Some s);
     s \<leftarrow> wrt (f_size f) newsize s;
     flush_dir f s
   }"

definition file_close :: "u32 \<Rightarrow> fs \<Rightarrow> fs option" where
  "file_close f s = do { s \<leftarrow> file_flush f s; flush_dir f s }"

definition file_remove :: "u8 list \<Rightarrow> fs \<Rightarrow> unit res" where
  "file_remove path s = do {
     (r, w, s) \<leftarrow> walk_path path s;
     (case r of
        Inl e \<Rightarrow> Some (Inl e, s)
      | Inr _ \<Rightarrow> do {
          s \<leftarrow> file_truncate (pfile w) 0 s;
          s \<leftarrow> (if is_mapped s (pfile w) then Some (s\<lparr>umem := (umem s)(pfile w := 0)\<rparr>) else None);
          s \<leftarrow> file_flush (pfile w) s;
          s \<leftarrow> flush_dir (pfile w) s;
          Some (Inr (), s)
        })
   }"

end
