(* ===== verification/Serv.thy ===== *)
theory Serv
  imports Fs_Files
begin

section \<open>The file server's requests (\<open>fs/serv.c\<close>)\<close>

text \<open>
  The server keeps a table of 1024 open files; the page \<open>o_ff\<close> of an entry is shared with the
  client that opened it, and its number of references says whether a client still has it.
  \<open>replies\<close> logs what \<open>ipc_send\<close> sends: the receiver, the value and the page with its
  permissions. File ids are words; the code's test for a negative one would only fire after an
  entry was reused two million times, and is left out.
\<close>

record open_file =
  o_file :: u32
  o_fileid :: u32
  o_mode :: u32
  o_ff :: u32

type_synonym reply = "u32 \<times> (errcode + u32) \<times> u32 \<times> u32"

record srv =
  fsys :: fs
  opentab :: "nat \<Rightarrow> open_file"
  replies :: "reply list"

abbreviation (input) MAXOPEN :: nat where "MAXOPEN \<equiv> 1024"
abbreviation (input) FILEVA :: u32 where "FILEVA \<equiv> 0x60000000"
abbreviation (input) REQVA :: u32 where "REQVA \<equiv> 0x0FFFF000"
abbreviation (input) MAXPATHLEN :: nat where "MAXPATHLEN \<equiv> 1024"

definition ipc_send :: "u32 \<Rightarrow> errcode + u32 \<Rightarrow> u32 \<Rightarrow> u32 \<Rightarrow> srv \<Rightarrow> srv" where
  "ipc_send whom val srcva perm s = s\<lparr>replies := replies s @ [(whom, val, srcva, perm)]\<rparr>"

definition pageref :: "u32 \<Rightarrow> fs \<Rightarrow> nat" where
  "pageref va s = uref s (PPN va)"

subsection \<open>The table of open files\<close>

definition serve_init :: "srv \<Rightarrow> srv" where
  "serve_init s = s\<lparr>opentab := \<lambda>i. (opentab s i)\<lparr>o_fileid := of_nat i, o_ff := FILEVA + of_nat i * BY2PG\<rparr>\<rparr>"

text \<open>Cases 0 and 1 of the switch; the first falls through to the second.\<close>

definition open_take :: "nat \<Rightarrow> srv \<Rightarrow> (nat \<times> srv) option" where
  "open_take i s =
     (let p = opentab s i in
      if is_mapped (fsys s) (o_ff p)
      then Some (i, s\<lparr>opentab := (opentab s)(i := p\<lparr>o_fileid := o_fileid p + of_nat MAXOPEN\<rparr>),
             fsys := (fsys s)\<lparr>umem := bzero (umem (fsys s)) (o_ff p) 4096\<rparr>\<rparr>)
      else None)"

fun open_scan :: "nat list \<Rightarrow> srv \<Rightarrow> ((errcode + nat) \<times> srv) option" where
  "open_scan [] s = Some (Inl E_MAX_OPEN, s)"
| "open_scan (i # is) s =
     (let p = opentab s i; n = pageref (o_ff p) (fsys s) in
      if n = 0
      then (case syscall_mem_alloc (o_ff p) (PTE_V OR PTE_R OR PTE_LIBRARY) (fsys s) of
          (Inl e, f) \<Rightarrow> Some (Inl e, s\<lparr>fsys := f\<rparr>)
        | (Inr _, f) \<Rightarrow> map_option (map_prod Inr id) (open_take i (s\<lparr>fsys := f\<rparr>)))
      else if n = 1 then map_option (map_prod Inr id) (open_take i s)
      else open_scan is s)"

definition open_alloc :: "srv \<Rightarrow> ((errcode + nat) \<times> srv) option" where
  "open_alloc s = open_scan [0..<MAXOPEN] s"

definition open_lookup :: "u32 \<Rightarrow> srv \<Rightarrow> errcode + nat" where
  "open_lookup fileid s =
     (let i = unat fileid mod MAXOPEN; p = opentab s i in
      if pageref (o_ff p) (fsys s) = 1 \<or> o_fileid p \<noteq> fileid then Inl E_INVAL else Inr i)"

subsection \<open>Requests\<close>

text \<open>The words of the request page, and its path (the server ends it after 1023 bytes).\<close>

definition req_word :: "nat \<Rightarrow> srv \<Rightarrow> u32 option" where
  "req_word i s = rd (REQVA + of_nat (4 * i)) (fsys s)"

definition req_path :: "srv \<Rightarrow> u8 list option" where
  "req_path s = (if is_mapped (fsys s) REQVA
     then Some (takeWhile (\<lambda>c. c \<noteq> 0) (get_bytes (umem (fsys s)) REQVA (MAXPATHLEN - 1))) else None)"

text \<open>After a failed \<open>open_alloc\<close> the code goes on with an uninitialised \<open>o\<close>; after a failed
  \<open>file_open\<close> with \<open>f = 0\<close>, which it dereferences.\<close>

definition serve_open :: "u32 \<Rightarrow> srv \<Rightarrow> srv option" where
  "serve_open envid s = do {
     path \<leftarrow> req_path s;
     omode \<leftarrow> req_word 256 s;
     (r, s) \<leftarrow> open_alloc s;
     (case r of
        Inl e \<Rightarrow> None
      | Inr i \<Rightarrow> do {
          (r, fs) \<leftarrow> file_open path (fsys s);
          let s = s\<lparr>fsys := fs\<rparr>;
          let s = (case r of Inl e \<Rightarrow> ipc_send envid (Inl e) 0 0 s | Inr _ \<Rightarrow> s);
          let f = (case r of Inl _ \<Rightarrow> 0 | Inr f \<Rightarrow> f);
          let p = opentab s i;
          let ff = o_ff p;
          if \<not> is_mapped (fsys s) f \<or> \<not> is_mapped (fsys s) ff then None
          else do {
            let m = memcpy (umem (fsys s)) (ff + 16) f 256;
            let m = store32 m (ff + 12) (o_fileid p);
            let m = store32 m (ff + 8) omode;
            let m = store32 m ff 102;
            let s = s\<lparr>opentab := (opentab s)(i := p\<lparr>o_file := f, o_mode := omode\<rparr>),
              fsys := (fsys s)\<lparr>umem := m\<rparr>\<rparr>;
            Some (ipc_send envid (Inr 0) ff (PTE_V OR PTE_R OR PTE_LIBRARY) s)
          }
        })
   }"

text \<open>Look the id up, run \<open>k\<close> on its file, and answer with an error or what \<open>k\<close> gives.\<close>

definition with_file :: "u32 \<Rightarrow> (u32 \<Rightarrow> fs \<Rightarrow> (u32 \<times> u32) res) \<Rightarrow> srv \<Rightarrow> srv option" where
  "with_file envid k s = do {
     fileid \<leftarrow> req_word 0 s;
     (case open_lookup fileid s of
        Inl e \<Rightarrow> Some (ipc_send envid (Inl e) 0 0 s)
      | Inr i \<Rightarrow> do {
          (r, fs) \<leftarrow> k (o_file (opentab s i)) (fsys s);
          let s = s\<lparr>fsys := fs\<rparr>;
          Some (case r of
              Inl e \<Rightarrow> ipc_send envid (Inl e) 0 0 s
            | Inr (srcva, perm) \<Rightarrow> ipc_send envid (Inr 0) srcva perm s)
        })
   }"

definition no_page :: "fs option \<Rightarrow> (u32 \<times> u32) res" where
  "no_page m = map_option (Pair (Inr (0, 0))) m"

definition serve_map :: "u32 \<Rightarrow> srv \<Rightarrow> srv option" where
  "serve_map envid s = with_file envid (\<lambda>f fs. do {
     offset \<leftarrow> req_word 1 s;
     on_ok (file_get_block f (offset div BY2BLK) fs)
       (\<lambda>blk fs. Some (Inr (blk, PTE_V OR PTE_R OR PTE_LIBRARY), fs))
   }) s"

definition serve_set_size :: "u32 \<Rightarrow> srv \<Rightarrow> srv option" where
  "serve_set_size envid s = with_file envid (\<lambda>f fs. do {
     sz \<leftarrow> req_word 1 s;
     no_page (file_set_size f sz fs)
   }) s"

definition serve_close :: "u32 \<Rightarrow> srv \<Rightarrow> srv option" where
  "serve_close envid s = with_file envid (\<lambda>f fs. no_page (file_close f fs)) s"

definition serve_dirty :: "u32 \<Rightarrow> srv \<Rightarrow> srv option" where
  "serve_dirty envid s = with_file envid (\<lambda>f fs. do {
     offset \<leftarrow> req_word 1 s;
     on_ok (file_dirty f offset fs) (\<lambda>_ fs. Some (Inr (0, 0), fs))
   }) s"

definition serve_remove :: "u32 \<Rightarrow> srv \<Rightarrow> srv option" where
  "serve_remove envid s = do {
     path \<leftarrow> req_path s;
     (r, fs) \<leftarrow> file_remove path (fsys s);
     Some (ipc_send envid (case r of Inl e \<Rightarrow> Inl e | Inr _ \<Rightarrow> Inr 0) 0 0 (s\<lparr>fsys := fs\<rparr>))
   }"

definition serve_sync :: "u32 \<Rightarrow> srv \<Rightarrow> srv option" where
  "serve_sync envid s = do {
     fs \<leftarrow> fs_sync (fsys s);
     Some (ipc_send envid (Inr 0) 0 0 (s\<lparr>fsys := fs\<rparr>))
   }"

text \<open>One round of \<open>serve\<close>: a request \<open>req\<close> from \<open>whom\<close> whose page, mapped at \<open>REQVA\<close>, has
  the permissions \<open>perm\<close>.\<close>

definition serve_round :: "u32 \<Rightarrow> u32 \<Rightarrow> u32 \<Rightarrow> srv \<Rightarrow> srv option" where
  "serve_round req whom perm s =
     (if perm AND PTE_V = 0 then Some s
      else do {
        s \<leftarrow> (if req = 1 then serve_open whom s
              else if req = 2 then serve_map whom s
              else if req = 3 then serve_set_size whom s
              else if req = 4 then serve_close whom s
              else if req = 5 then serve_dirty whom s
              else if req = 6 then serve_remove whom s
              else if req = 7 then serve_sync whom s
              else Some s);
        Some (s\<lparr>fsys := snd (syscall_mem_unmap REQVA (fsys s))\<rparr>)
      })"

end
