(* ===== verification/Client.thy ===== *)
theory Client
  imports Serv Print
begin

section \<open>A user process and its file server (\<open>user/syscall_lib.c\<close>, \<open>user/ipc.c\<close>, \<open>user/fsipc.c\<close>)\<close>

text \<open>
  One user process together with the file server it talks to. A page of the process is a frame
  with its permission bits: a frame of its own, or a page that the server shares with it, whose
  bytes are those of the server's memory. The server never unmaps a page that it shares.

  The process has its own counter of allocations, whose outcome \<open>enough\<close> decides, as for the
  server. An \<open>int\<close> result is the word the code returns; \<open>neg\<close> is the test for an error.
  \<open>ipcbuf\<close> is the address of \<open>fsipcbuf\<close>, which the linker chooses as it does those of the \<open>struct Dev\<close>
  (\<open>dev_addr\<close>, by their \<open>dev_id\<close>), \<open>me\<close> the identifier of the process, \<open>cout\<close> and \<open>cin\<close> what goes to and comes from the console (a 0 in \<open>cin\<close> is a
  \<open>syscall_getc\<close> that found no character).

  Strings that the process passes to a function are the bytes before their NUL.
\<close>

datatype frame = Own nat | Served u32

record proc =
  pages :: "u32 \<Rightarrow> (frame \<times> u32) option"
  frames :: "nat \<Rightarrow> mem"
  next_frame :: nat
  calls :: nat
  enough :: "nat \<Rightarrow> bool"
  fileserv :: srv
  me :: u32
  ipcbuf :: u32
  dev_addr :: "u32 \<Rightarrow> u32"
  cout :: "u8 list"
  cin :: "u8 list"

definition err :: "errcode \<Rightarrow> u32" where
  "err e = - of_int (errno e)"

definition neg :: "u32 \<Rightarrow> bool" where
  "neg r \<longleftrightarrow> sint r < 0"

type_synonym 'a call = "('a \<times> proc) option"

subsection \<open>Memory\<close>

definition frame_byte :: "frame \<Rightarrow> u32 \<Rightarrow> proc \<Rightarrow> u8" where
  "frame_byte fr off s = (case fr of
     Own k \<Rightarrow> frames s k off | Served p \<Rightarrow> umem (fsys (fileserv s)) (push_bit 12 p + off))"

definition set_fsys :: "(fs \<Rightarrow> fs) \<Rightarrow> proc \<Rightarrow> proc" where
  "set_fsys f s = s\<lparr>fileserv := (fileserv s)\<lparr>fsys := f (fsys (fileserv s))\<rparr>\<rparr>"

definition set_frame_byte :: "frame \<Rightarrow> u32 \<Rightarrow> u8 \<Rightarrow> proc \<Rightarrow> proc" where
  "set_frame_byte fr off v s = (case fr of
     Own k \<Rightarrow> s\<lparr>frames := (frames s)(k := (frames s k)(off := v))\<rparr>
   | Served p \<Rightarrow> set_fsys (\<lambda>f. f\<lparr>umem := (umem f)(push_bit 12 p + off := v)\<rparr>) s)"

definition ld8 :: "u32 \<Rightarrow> proc \<Rightarrow> u8 option" where
  "ld8 va s = (case pages s (PPN va) of
     None \<Rightarrow> None | Some (fr, perm) \<Rightarrow> Some (frame_byte fr (PG_ADDR_OFFSET va) s))"

definition st8 :: "u32 \<Rightarrow> u8 \<Rightarrow> proc \<Rightarrow> proc option" where
  "st8 va v s = (case pages s (PPN va) of
     None \<Rightarrow> None
   | Some (fr, perm) \<Rightarrow> if perm AND PTE_R = PTE_R then Some (set_frame_byte fr (PG_ADDR_OFFSET va) v s) else None)"

definition ld32 :: "u32 \<Rightarrow> proc \<Rightarrow> u32 option" where
  "ld32 va s = do {
     a \<leftarrow> ld8 va s; b \<leftarrow> ld8 (va + 1) s; c \<leftarrow> ld8 (va + 2) s; d \<leftarrow> ld8 (va + 3) s;
     Some (ucast a OR push_bit 8 (ucast b) OR push_bit 16 (ucast c) OR push_bit 24 (ucast d))
   }"

definition st32 :: "u32 \<Rightarrow> u32 \<Rightarrow> proc \<Rightarrow> proc option" where
  "st32 va v s = do {
     s \<leftarrow> st8 va (ucast v) s; s \<leftarrow> st8 (va + 1) (ucast (drop_bit 8 v)) s;
     s \<leftarrow> st8 (va + 2) (ucast (drop_bit 16 v)) s; st8 (va + 3) (ucast (drop_bit 24 v)) s
   }"

text \<open>\<open>bcopy(src, dst, n)\<close> and \<open>strcpy\<close> of a string and its NUL.\<close>

fun copy_user :: "u32 \<Rightarrow> u32 \<Rightarrow> nat \<Rightarrow> proc \<Rightarrow> proc option" where
  "copy_user src dst 0 s = Some s"
| "copy_user src dst (Suc n) s = do { c \<leftarrow> ld8 src s; s \<leftarrow> st8 dst c s; copy_user (src + 1) (dst + 1) n s }"

fun put_user :: "u32 \<Rightarrow> u8 list \<Rightarrow> proc \<Rightarrow> proc option" where
  "put_user dst [] s = Some s"
| "put_user dst (c # cs) s = do { s \<leftarrow> st8 dst c s; put_user (dst + 1) cs s }"

fun get_user :: "u32 \<Rightarrow> nat \<Rightarrow> proc \<Rightarrow> u8 list option" where
  "get_user src 0 s = Some []"
| "get_user src (Suc n) s = do { c \<leftarrow> ld8 src s; cs \<leftarrow> get_user (src + 1) n s; Some (c # cs) }"

definition strcpy_user :: "u32 \<Rightarrow> u8 list \<Rightarrow> proc \<Rightarrow> proc option" where
  "strcpy_user dst str s = put_user dst (str @ [0]) s"

subsection \<open>System calls on the process itself\<close>

text \<open>A mapping of a server page counts as one of its references.\<close>

definition share :: "frame \<Rightarrow> proc \<Rightarrow> proc" where
  "share fr s = (case fr of Own _ \<Rightarrow> s
     | Served p \<Rightarrow> set_fsys (\<lambda>f. f\<lparr>uref := (uref f)(p := uref f p + 1)\<rparr>) s)"

definition release :: "frame \<Rightarrow> proc \<Rightarrow> proc" where
  "release fr s = (case fr of Own _ \<Rightarrow> s
     | Served p \<Rightarrow> set_fsys (\<lambda>f. f\<lparr>uref := (uref f)(p := uref f p - 1)\<rparr>) s)"

definition drop_page :: "u32 \<Rightarrow> proc \<Rightarrow> proc" where
  "drop_page va s = (case pages s (PPN va) of None \<Rightarrow> s
     | Some (fr, _) \<Rightarrow> release fr (s\<lparr>pages := (pages s)(PPN va := None)\<rparr>))"

text \<open>The kernel's \<open>page_insert\<close>: the same page again only gets new permissions.\<close>

definition insert_page :: "u32 \<Rightarrow> frame \<Rightarrow> u32 \<Rightarrow> proc \<Rightarrow> proc" where
  "insert_page va fr perm s =
     (let put = (\<lambda>s. s\<lparr>pages := (pages s)(PPN va := Some (fr, perm OR PTE_V))\<rparr>) in
      if \<exists>p. pages s (PPN va) = Some (fr, p) then put s
      else put (share fr (drop_page va s)))"

definition user_va_perm :: "u32 \<Rightarrow> proc \<Rightarrow> u32" where
  "user_va_perm va s =
     (if ULIM \<le> va then err E_INVAL
      else (case pages s (PPN va) of None \<Rightarrow> 0 | Some (_, perm) \<Rightarrow> perm))"

definition user_mem_alloc :: "u32 \<Rightarrow> u32 \<Rightarrow> proc \<Rightarrow> u32 \<times> proc" where
  "user_mem_alloc va perm s =
     (if UTOP \<le> va then (err E_UNSPECIFIED, s)
      else if perm AND PTE_V = 0 then (err E_INVAL, s)
      else if \<not> enough s (calls s) then (err E_NO_MEM, s\<lparr>calls := calls s + 1\<rparr>)
      else (0, insert_page va (Own (next_frame s)) perm
        (s\<lparr>calls := calls s + 1, next_frame := next_frame s + 1, frames := (frames s)(next_frame s := \<lambda>_. 0)\<rparr>)))"

definition user_mem_map :: "u32 \<Rightarrow> u32 \<Rightarrow> u32 \<Rightarrow> proc \<Rightarrow> u32 \<times> proc" where
  "user_mem_map srcva dstva perm s =
     (if UTOP \<le> srcva \<or> UTOP \<le> dstva then (err E_UNSPECIFIED, s)
      else if perm AND PTE_V = 0 then (err E_INVAL, s)
      else (case pages s (PPN srcva) of
          None \<Rightarrow> (err E_UNSPECIFIED, s)
        | Some (fr, _) \<Rightarrow>
            if enough s (calls s) then (0, insert_page dstva fr perm (s\<lparr>calls := calls s + 1\<rparr>))
            else (err E_NO_MEM, s\<lparr>calls := calls s + 1\<rparr>)))"

definition user_mem_unmap :: "u32 \<Rightarrow> proc \<Rightarrow> u32 \<times> proc" where
  "user_mem_unmap va s = (if UTOP \<le> va then (err E_INVAL, s) else (0, drop_page va s))"

subsection \<open>A request to the file server\<close>

text \<open>The request page arrives in the server at \<open>REQVA\<close>.\<close>

definition send_request :: "frame \<Rightarrow> proc \<Rightarrow> srv" where
  "send_request fr s = (fileserv s)\<lparr>fsys := (fsys (fileserv s))
     \<lparr>umem := (\<lambda>a. if in_region REQVA 4096 a then frame_byte fr (a - REQVA) s else umem (fsys (fileserv s)) a),
      uperm := (uperm (fsys (fileserv s)))(PPN REQVA := PTE_V OR PTE_R),
      uref := (uref (fsys (fileserv s)))(PPN REQVA := 2)\<rparr>\<rparr>"

text \<open>\<open>ipc_send\<close> waits until the server receives; the server works on the request, and its first
  reply is what \<open>ipc_recv\<close> gets. The call does not come back when there is no reply, when the
  page to be sent is not mapped, or when the server panics because the transfer fails.\<close>

definition fsipc :: "u32 \<Rightarrow> u32 \<Rightarrow> u32 \<Rightarrow> proc \<Rightarrow> u32 call" where
  "fsipc req fsreq dstva s = do {
     (fr, _) \<leftarrow> pages s (PPN fsreq);
     t \<leftarrow> serve_round req (me s) (PTE_V OR PTE_R) (send_request fr s);
     (case drop (length (replies (fileserv s))) (replies t) of
        [] \<Rightarrow> None
      | (_, r, srcva, perm) # _ \<Rightarrow>
          let val = (case r of Inl e \<Rightarrow> err e | Inr v \<Rightarrow> v); s = s\<lparr>fileserv := t\<rparr> in
          if srcva = 0 then Some (val, s)
          else if UTOP \<le> dstva \<or> \<not> is_mapped (fsys t) srcva \<or> \<not> enough s (calls s) then None
          else Some (val, insert_page dstva (Served (PPN srcva)) perm (s\<lparr>calls := calls s + 1\<rparr>)))
   }"

definition fsipc_open :: "u8 list \<Rightarrow> u32 \<Rightarrow> u32 \<Rightarrow> proc \<Rightarrow> u32 call" where
  "fsipc_open path omode fd s =
     (if MAXPATHLEN \<le> length path then Some (err E_BAD_PATH, s)
      else do {
        s \<leftarrow> strcpy_user (ipcbuf s) path s;
        s \<leftarrow> st32 (ipcbuf s + 1024) omode s;
        fsipc 1 (ipcbuf s) fd s
      })"

text \<open>A request of one or two words. The permissions that \<open>fsipc_map\<close> tests always have \<open>PTE_V\<close>:
  the kernel adds it to those of the page and to the value it stores for the receiver.\<close>

definition fsipc_map :: "u32 \<Rightarrow> u32 \<Rightarrow> u32 \<Rightarrow> proc \<Rightarrow> u32 call" where
  "fsipc_map fileid offset dstva s = do {
     s \<leftarrow> st32 (ipcbuf s) fileid s;
     s \<leftarrow> st32 (ipcbuf s + 4) offset s;
     (r, s) \<leftarrow> fsipc 2 (ipcbuf s) dstva s;
     Some (if neg r then r else 0, s)
   }"

definition fsipc_set_size :: "u32 \<Rightarrow> u32 \<Rightarrow> proc \<Rightarrow> u32 call" where
  "fsipc_set_size fileid sz s = do {
     s \<leftarrow> st32 (ipcbuf s) fileid s;
     s \<leftarrow> st32 (ipcbuf s + 4) sz s;
     fsipc 3 (ipcbuf s) 0 s
   }"

definition fsipc_close :: "u32 \<Rightarrow> proc \<Rightarrow> u32 call" where
  "fsipc_close fileid s = do { s \<leftarrow> st32 (ipcbuf s) fileid s; fsipc 4 (ipcbuf s) 0 s }"

definition fsipc_dirty :: "u32 \<Rightarrow> u32 \<Rightarrow> proc \<Rightarrow> u32 call" where
  "fsipc_dirty fileid offset s = do {
     s \<leftarrow> st32 (ipcbuf s) fileid s;
     s \<leftarrow> st32 (ipcbuf s + 4) offset s;
     fsipc 5 (ipcbuf s) 0 s
   }"

definition fsipc_remove :: "u8 list \<Rightarrow> proc \<Rightarrow> u32 call" where
  "fsipc_remove path s =
     (if MAXPATHLEN \<le> length path then Some (err E_BAD_PATH, s)
      else do { s \<leftarrow> strcpy_user (ipcbuf s) path s; fsipc 6 (ipcbuf s) 0 s })"

definition fsipc_sync :: "proc \<Rightarrow> u32 call" where
  "fsipc_sync s = fsipc 7 (ipcbuf s) 0 s"

end
