(* ===== verification/Syscalls.thy ===== *)
theory Syscalls
  imports Svc Drivers Client
begin

section \<open>From the call in the library to the handler (\<open>user/syscall_lib.c\<close>, \<open>lib/svc_entry.S\<close>)\<close>

text \<open>
  Each routine of \<open>syscall_lib.c\<close> is one \<open>msyscall\<close> with a number of \<open>unistd.h\<close> and up to five
  arguments: number and three arguments arrive in the saved registers 0 to 3, the others are on the
  caller's stack. \<open>svc_entry\<close> checks the number, fetches the two words and branches through
  \<open>svc_vec\<close>; \<open>svc_return\<close> stores the result where register 0 is restored from.
\<close>

subsection \<open>The numbers\<close>

definition SYS_putc :: u32 where "SYS_putc = 0"
definition SYS_getc :: u32 where "SYS_getc = 1"
definition SYS_env_alloc :: u32 where "SYS_env_alloc = 2"
definition SYS_env_destroy :: u32 where "SYS_env_destroy = 3"
definition SYS_getenvid :: u32 where "SYS_getenvid = 4"
definition SYS_yield :: u32 where "SYS_yield = 5"
definition SYS_mem_alloc :: u32 where "SYS_mem_alloc = 6"
definition SYS_mem_map :: u32 where "SYS_mem_map = 7"
definition SYS_mem_unmap :: u32 where "SYS_mem_unmap = 8"
definition SYS_set_env_status :: u32 where "SYS_set_env_status = 9"
definition SYS_set_trapframe :: u32 where "SYS_set_trapframe = 10"
definition SYS_panic :: u32 where "SYS_panic = 11"
definition SYS_ipc_can_send :: u32 where "SYS_ipc_can_send = 12"
definition SYS_ipc_recv :: u32 where "SYS_ipc_recv = 13"
definition SYS_va_perm :: u32 where "SYS_va_perm = 14"
definition SYS_va_ref :: u32 where "SYS_va_ref = 15"
definition SYS_dev_read :: u32 where "SYS_dev_read = 16"
definition SYS_dev_write :: u32 where "SYS_dev_write = 17"
definition NR_SYSCALLS :: u32 where "NR_SYSCALLS = 18"

lemmas SYS_defs = SYS_putc_def SYS_getc_def SYS_env_alloc_def SYS_env_destroy_def SYS_getenvid_def SYS_yield_def
  SYS_mem_alloc_def SYS_mem_map_def SYS_mem_unmap_def SYS_set_env_status_def SYS_set_trapframe_def SYS_panic_def
  SYS_ipc_can_send_def SYS_ipc_recv_def SYS_va_perm_def SYS_va_ref_def SYS_dev_read_def SYS_dev_write_def NR_SYSCALLS_def

subsection \<open>The routines of the library\<close>

text \<open>A call as \<open>msyscall\<close> makes it: the number and the five arguments.\<close>

type_synonym call = "u32 \<times> u32 \<times> u32 \<times> u32 \<times> u32 \<times> u32"

definition call_dev_read :: "u32 \<Rightarrow> u32 \<Rightarrow> u32 \<Rightarrow> call" where
  "call_dev_read dstva offset len = (SYS_dev_read, dstva, offset, len, 0, 0)"

definition call_dev_write :: "u32 \<Rightarrow> u32 \<Rightarrow> u32 \<Rightarrow> call" where
  "call_dev_write srcva offset len = (SYS_dev_write, srcva, offset, len, 0, 0)"

definition call_va_perm :: "u32 \<Rightarrow> call" where
  "call_va_perm va = (SYS_va_perm, va, 0, 0, 0, 0)"

definition call_va_ref :: "u32 \<Rightarrow> call" where
  "call_va_ref va = (SYS_va_ref, va, 0, 0, 0, 0)"

text \<open>\<open>char\<close> is unsigned on the machine.\<close>

definition call_putc :: "u8 \<Rightarrow> call" where
  "call_putc ch = (SYS_putc, ucast ch, 0, 0, 0, 0)"

definition call_getenvid :: call where
  "call_getenvid = (SYS_getenvid, 0, 0, 0, 0, 0)"

definition call_yield :: call where
  "call_yield = (SYS_yield, 0, 0, 0, 0, 0)"

definition call_env_destroy :: "u32 \<Rightarrow> call" where
  "call_env_destroy envid = (SYS_env_destroy, envid, 0, 0, 0, 0)"

definition call_mem_alloc :: "u32 \<Rightarrow> u32 \<Rightarrow> u32 \<Rightarrow> call" where
  "call_mem_alloc envid va perm = (SYS_mem_alloc, envid, va, perm, 0, 0)"

definition call_mem_map :: "u32 \<Rightarrow> u32 \<Rightarrow> u32 \<Rightarrow> u32 \<Rightarrow> u32 \<Rightarrow> call" where
  "call_mem_map srcid srcva dstid dstva perm = (SYS_mem_map, srcid, srcva, dstid, dstva, perm)"

definition call_mem_unmap :: "u32 \<Rightarrow> u32 \<Rightarrow> call" where
  "call_mem_unmap envid va = (SYS_mem_unmap, envid, va, 0, 0, 0)"

definition call_set_env_status :: "u32 \<Rightarrow> u32 \<Rightarrow> call" where
  "call_set_env_status envid status = (SYS_set_env_status, envid, status, 0, 0, 0)"

definition call_set_trapframe :: "u32 \<Rightarrow> u32 \<Rightarrow> call" where
  "call_set_trapframe envid tf = (SYS_set_trapframe, envid, tf, 0, 0, 0)"

definition call_panic :: "u32 \<Rightarrow> call" where
  "call_panic msg = (SYS_panic, msg, 0, 0, 0, 0)"

definition call_ipc_can_send :: "u32 \<Rightarrow> u32 \<Rightarrow> u32 \<Rightarrow> u32 \<Rightarrow> call" where
  "call_ipc_can_send envid value srcva perm = (SYS_ipc_can_send, envid, value, srcva, perm, 0)"

definition call_ipc_recv :: "u32 \<Rightarrow> u32 \<Rightarrow> u32 \<Rightarrow> call" where
  "call_ipc_recv dstva whom perm = (SYS_ipc_recv, dstva, whom, perm, 0, 0)"

definition call_getc :: call where
  "call_getc = (SYS_getc, 0, 0, 0, 0, 0)"

definition call_env_alloc :: call where
  "call_env_alloc = (SYS_env_alloc, 0, 0, 0, 0, 0)"

subsection \<open>The entry in the kernel\<close>

definition svc_return :: "u32 \<Rightarrow> kstate \<Rightarrow> kstate" where
  "svc_return r0 s = s\<lparr>exc_tf := (exc_tf s)\<lparr>regs := (regs (exc_tf s))(0 := r0)\<rparr>\<rparr>"

fun in_r0 :: "(errcode + u32) ctl \<Rightarrow> u32 ctl" where
  "in_r0 (Return r s) = Return (case r of Inl e \<Rightarrow> err e | Inr v \<Rightarrow> v) s"
| "in_r0 (Resume s) = Resume s"

fun void_r0 :: "u32 \<Rightarrow> unit ctl \<Rightarrow> u32 ctl" where
  "void_r0 junk (Return _ s) = Return junk s"
| "void_r0 junk (Resume s) = Resume s"

text \<open>The table \<open>svc_vec\<close> with what each handler takes of its arguments. \<open>img\<close> is the disk image with
  its size, \<open>junk\<close> what register 0 holds after a handler that returns nothing.\<close>

definition svc_vec :: "device \<Rightarrow> u32 \<times> u32 \<Rightarrow> u32 \<Rightarrow> u32 \<Rightarrow> call \<Rightarrow> kstate \<Rightarrow> trace \<Rightarrow> (u32 ctl \<times> trace) option" where
  "svc_vec dev img cpsr junk = (\<lambda>(sysno, a1, a2, a3, a4, a5) s t.
     let plain = (\<lambda>c. map_option (\<lambda>c. (in_r0 c, t)) c) in
     if sysno = 0 then map_option (\<lambda>(r, t). (Return r s, t)) (sys_putc dev a1 t)
     else if sysno = 1 then (let (r, t) = sys_getc dev t in Some (Return r s, t))
     else if sysno = 2 then plain (sys_env_alloc cpsr s)
     else if sysno = 3 then plain (sys_env_destroy a1 s)
     else if sysno = 4 then plain (sys_getenvid s)
     else if sysno = 5 then map_option (\<lambda>c. (void_r0 junk c, t)) (sys_yield s)
     else if sysno = 6 then plain (sys_mem_alloc a1 a2 a3 s)
     else if sysno = 7 then plain (sys_mem_map a1 a2 a3 a4 a5 s)
     else if sysno = 8 then plain (sys_mem_unmap a1 a2 s)
     else if sysno = 9 then plain (sys_set_env_status a1 a2 s)
     else if sysno = 10 then plain (sys_set_trapframe a1 a2 s)
     else if sysno = 11 then plain (sys_panic s)
     else if sysno = 12 then plain (sys_ipc_can_send a1 a2 a3 a4 s)
     else if sysno = 13 then plain (sys_ipc_recv junk a1 a2 a3 s)
     else if sysno = 14 then plain (sys_va_perm a1 s)
     else if sysno = 15 then plain (sys_va_ref a1 s)
     else if sysno = 16 then plain (sys_dev_read (fst img) (snd img) a1 a2 a3 s)
     else if sysno = 17 then plain (sys_dev_write (fst img) (snd img) a1 a2 a3 s)
     else None)"

text \<open>The saved frame is \<open>exc_tf\<close>. A handler that has switched to another environment does not come back.\<close>

definition svc_entry :: "device \<Rightarrow> u32 \<times> u32 \<Rightarrow> u32 \<Rightarrow> u32 \<Rightarrow> kstate \<Rightarrow> trace \<Rightarrow> (kstate \<times> trace) option" where
  "svc_entry dev img cpsr junk s t =
     (let r = regs (exc_tf s) in
      if NR_SYSCALLS \<le> r 0 then Some (svc_return (NOT 0) s, t)
      else do {
        (ws, s) \<leftarrow> load_user_words (usr_sp (exc_tf s)) 2 s;
        (c, t) \<leftarrow> svc_vec dev img cpsr junk (r 0, r 1, r 2, r 3, ws ! 0, ws ! 1) s t;
        Some (case c of Return v s \<Rightarrow> svc_return v s | Resume s \<Rightarrow> s, t)
      })"

text \<open>A call in the registers and on the stack of the caller, whose stack page is mapped.\<close>

definition calls :: "kstate \<Rightarrow> call \<Rightarrow> bool" where
  "calls s = (\<lambda>(sysno, a1, a2, a3, a4, a5). map (regs (exc_tf s)) [0, 1, 2, 3] = [sysno, a1, a2, a3] \<and>
     load_user_words (usr_sp (exc_tf s)) 2 s = Some ([a4, a5], s))"

definition replies :: "u32 ctl \<Rightarrow> kstate" where
  "replies c = (case c of Return v s \<Rightarrow> svc_return v s | Resume s \<Rightarrow> s)"

lemma svc_entry_calls:
  assumes "calls s (sysno, a1, a2, a3, a4, a5)" "sysno < NR_SYSCALLS"
  shows "svc_entry dev img cpsr junk s t =
    map_option (\<lambda>(c, t). (replies c, t)) (svc_vec dev img cpsr junk (sysno, a1, a2, a3, a4, a5) s t)"
  using assms by (auto simp: calls_def svc_entry_def replies_def Let_def not_le map_option_case split: option.split)

text \<open>Every routine of the library reaches its handler, with its arguments in their order, and finds the
  result in register 0; a number that is not in the table gives \<open>-1\<close> and changes nothing else.\<close>

lemma syscalls_reach_handlers:
  "svc_vec dev img cpsr junk (call_dev_read dstva off len) s t = map_option (\<lambda>c. (in_r0 c, t)) (sys_dev_read (fst img) (snd img) dstva off len s)"
  "svc_vec dev img cpsr junk (call_dev_write srcva off len) s t = map_option (\<lambda>c. (in_r0 c, t)) (sys_dev_write (fst img) (snd img) srcva off len s)"
  "svc_vec dev img cpsr junk (call_va_perm va) s t = map_option (\<lambda>c. (in_r0 c, t)) (sys_va_perm va s)"
  "svc_vec dev img cpsr junk (call_va_ref va) s t = map_option (\<lambda>c. (in_r0 c, t)) (sys_va_ref va s)"
  "svc_vec dev img cpsr junk call_getenvid s t = map_option (\<lambda>c. (in_r0 c, t)) (sys_getenvid s)"
  "svc_vec dev img cpsr junk call_yield s t = map_option (\<lambda>c. (void_r0 junk c, t)) (sys_yield s)"
  "svc_vec dev img cpsr junk (call_env_destroy envid) s t = map_option (\<lambda>c. (in_r0 c, t)) (sys_env_destroy envid s)"
  "svc_vec dev img cpsr junk (call_mem_alloc envid va perm) s t = map_option (\<lambda>c. (in_r0 c, t)) (sys_mem_alloc envid va perm s)"
  "svc_vec dev img cpsr junk (call_mem_map srcid srcva dstid dstva perm) s t =
     map_option (\<lambda>c. (in_r0 c, t)) (sys_mem_map srcid srcva dstid dstva perm s)"
  "svc_vec dev img cpsr junk (call_mem_unmap envid va) s t = map_option (\<lambda>c. (in_r0 c, t)) (sys_mem_unmap envid va s)"
  "svc_vec dev img cpsr junk (call_set_env_status envid status) s t = map_option (\<lambda>c. (in_r0 c, t)) (sys_set_env_status envid status s)"
  "svc_vec dev img cpsr junk (call_set_trapframe envid tf) s t = map_option (\<lambda>c. (in_r0 c, t)) (sys_set_trapframe envid tf s)"
  "svc_vec dev img cpsr junk (call_panic msg) s t = None"
  "svc_vec dev img cpsr junk (call_ipc_can_send envid val srcva perm) s t = map_option (\<lambda>c. (in_r0 c, t)) (sys_ipc_can_send envid val srcva perm s)"
  "svc_vec dev img cpsr junk (call_ipc_recv dstva whom perm) s t = map_option (\<lambda>c. (in_r0 c, t)) (sys_ipc_recv junk dstva whom perm s)"
  "svc_vec dev img cpsr junk call_env_alloc s t = map_option (\<lambda>c. (in_r0 c, t)) (sys_env_alloc cpsr s)"
  "svc_vec dev img cpsr junk (call_putc ch) s t = map_option (\<lambda>t. (Return 0 s, t)) (uart0_putc dev ch t)"
  "svc_vec dev img cpsr junk call_getc s t = Some (Return (fst (sys_getc dev t)) s, snd (sys_getc dev t))"
  by (simp_all add: svc_vec_def call_dev_read_def call_dev_write_def call_va_perm_def call_va_ref_def call_putc_def
      call_getenvid_def call_yield_def call_env_destroy_def call_mem_alloc_def call_mem_map_def call_mem_unmap_def
      call_set_env_status_def call_set_trapframe_def call_panic_def call_ipc_can_send_def call_ipc_recv_def call_getc_def
      call_env_alloc_def SYS_defs sys_panic_def sys_putc_def split_beta map_option_bind comp_def ucast_up_ucast_id is_up
      split: option.split)
    (cases "uart0_putc dev ch t"; simp)

lemma svc_entry_unknown:
  "NR_SYSCALLS \<le> regs (exc_tf s) 0 \<Longrightarrow> svc_entry dev img cpsr junk s t = Some (svc_return (NOT 0) s, t)"
  by (simp add: svc_entry_def Let_def)

end
