(* ===== verification/User_Calls.thy ===== *)
theory User_Calls
  imports Forking Client
begin

section \<open>The library on top of the system calls (\<open>user/fork.c\<close>, \<open>user/ipc.c\<close>)\<close>

text \<open>
  These routines only make system calls, so they are functions on the kernel's state as it is when
  the process runs. \<open>fork_rest\<close> is what both the parent and the child do after \<open>syscall_env_alloc\<close>
  has returned in them; the result comes with the new value of the variable \<open>envid\<close>, where
  it is assigned. A failed call panics (\<open>None\<close>).
\<close>

subsection \<open>\<open>fork\<close>\<close>

definition fork_rest :: "u32 \<Rightarrow> kstate \<Rightarrow> (u32 \<times> u32 option) ctl option" where
  "fork_rest newenvid s =
     (if newenvid = 0
      then do {
        c \<leftarrow> sys_getenvid s;
        on_return c (\<lambda>r s1. case r of Inl _ \<Rightarrow> None | Inr i \<Rightarrow> Some (Return (0, Some i) s1))
      }
      else do {
        c \<leftarrow> sys_set_env_status newenvid ENV_RUNNABLE s;
        on_return c (\<lambda>r s1. case r of Inl _ \<Rightarrow> None | Inr _ \<Rightarrow> Some (Return (newenvid, None) s1))
      })"

definition fork :: "u32 \<Rightarrow> kstate \<Rightarrow> (u32 \<times> u32 option) ctl option" where
  "fork cpsr s = do {
     c \<leftarrow> sys_env_alloc cpsr s;
     on_return c (\<lambda>r s1. fork_rest (case r of Inl e \<Rightarrow> err e | Inr i \<Rightarrow> i) s1)
   }"

subsection \<open>Messages\<close>

text \<open>While the caller waits for its turn again, the other processes run: \<open>others\<close> takes the state
  in which \<open>syscall_yield\<close> has given up the processor to the one in which the caller goes on.\<close>

partial_function (option) ipc_send ::
    "(kstate \<Rightarrow> kstate option) \<Rightarrow> u32 \<Rightarrow> u32 \<Rightarrow> u32 \<Rightarrow> u32 \<Rightarrow> kstate \<Rightarrow> kstate option" where
  "ipc_send others whom val srcva perm s = do {
     c \<leftarrow> sys_ipc_can_send whom val srcva perm s;
     (case c of
        Resume _ \<Rightarrow> None
      | Return r s1 \<Rightarrow>
          if r = Inl E_IPC_NOT_RECV
          then do {
            c \<leftarrow> sys_yield s1;
            s2 \<leftarrow> (case c of Return _ s2 \<Rightarrow> Some s2 | Resume s2 \<Rightarrow> others s2);
            ipc_send others whom val srcva perm s2
          }
          else if r = Inr 0 then Some s1 else None)
   }"

text \<open>The value comes back in the first register of the caller's frame.\<close>

definition ipc_recv :: "u32 \<Rightarrow> u32 \<Rightarrow> u32 \<Rightarrow> u32 \<Rightarrow> kstate \<Rightarrow> (errcode + u32) ctl option" where
  "ipc_recv junk whom dstva perm s = sys_ipc_recv junk dstva whom perm s"

subsection \<open>What the child is\<close>

lemma sys_set_runnable_child:
  assumes e: "eid = fst (mkenvid e t)" "e < 1024" "e \<noteq> 0" "env_id (envs s e) = eid" "env_status (envs s e) = ENV_NOT_RUNNABLE"
    and c: "curenv s = Some c" "c \<noteq> e" "env_parent_id (envs s e) = env_id (envs s c)"
  shows "sys_set_env_status eid ENV_RUNNABLE s = Some (Return (Inr 0)
    (s\<lparr>envs := (envs s)(e := (envs s e)\<lparr>env_status := ENV_RUNNABLE\<rparr>),
       env_sched_list := LIST_INSERT_HEAD e (env_sched_list s)\<rparr>))" and "eid \<noteq> 0"
proof -
  have x: "ENVX eid = e" using e(1,2) by (simp add: mkenvid_def Let_def ENVX_alt and_0xFF_less)
  then show nz: "eid \<noteq> 0" using e(3) by (auto simp: ENVX_def)
  have "envid2env eid True s = Some (Inr e)"
    using x nz e(4,5) c by (simp add: envid2env_def env_status_defs)
  then show "sys_set_env_status eid ENV_RUNNABLE s = Some (Return (Inr 0)
    (s\<lparr>envs := (envs s)(e := (envs s e)\<lparr>env_status := ENV_RUNNABLE\<rparr>),
       env_sched_list := LIST_INSERT_HEAD e (env_sched_list s)\<rparr>))"
    using e(5) by (simp add: sys_set_env_status_def my_set_env_status_def env_status_defs)
qed

text \<open>A change of a status and of the scheduling list keeps the address spaces.\<close>

lemma spaces_status:
  assumes sp: "spaces s D xs" and old: "env_status (envs s e) \<noteq> ENV_FREE"
  shows "spaces (s\<lparr>envs := (envs s)(e := (envs s e)\<lparr>env_status := st\<rparr>), env_sched_list := l\<rparr>) D xs"
    and "upte (s\<lparr>envs := (envs s)(e := (envs s e)\<lparr>env_status := st\<rparr>), env_sched_list := l\<rparr>) = upte s"
proof -
  let ?s = "s\<lparr>envs := (envs s)(e := (envs s e)\<lparr>env_status := st\<rparr>), env_sched_list := l\<rparr>"
  have "vm_inv ?s D xs = vm_inv s D xs" "upte ?s = upte s" by (intro vm_inv_cong; simp)+
  then show "spaces ?s D xs" "upte ?s = upte s" using sp old by (auto simp: spaces_def)
qed



end
