(* ===== verification/Fs_Blocks.thy ===== *)
theory Fs_Blocks
  imports Fs
begin

section \<open>The block cache and the bitmap: proofs\<close>

text \<open>
  Word \<open>i\<close> of the page that caches disk block \<open>b\<close> is at \<open>cell b i\<close>. The invariant \<open>fs_ok\<close>
  of a server that has run \<open>fs_init\<close> pins the two pointers and keeps the three reserved
  blocks in memory; under it the operations are equations over cells.
\<close>

subsection \<open>Cells\<close>

definition cell :: "u32 \<Rightarrow> u32 \<Rightarrow> u32" where
  "cell b i = DISKMAP + b * BY2BLK + 4 * i"

lemma unat_cell:
  assumes "b < 2048" "i < 1024"
  shows "unat (cell b i) = 0x10000000 + unat b * 4096 + 4 * unat i"
proof -
  have b: "unat b < 2048" and i: "unat i < 1024"
    using unat_lessI [OF assms(1)] unat_lessI [OF assms(2)] by simp_all
  have "unat (b * 4096) = unat b * 4096" "unat (4 * i) = 4 * unat i"
    using b i by (simp_all add: unat_word_ariths)
  then show ?thesis using b i by (simp add: cell_def unat_word_ariths)
qed

lemma cell_eq_iff:
  assumes "b < 2048" "i < 1024" "c < 2048" "j < 1024"
  shows "cell b i = cell c j \<longleftrightarrow> b = c \<and> i = j"
proof
  assume "cell b i = cell c j"
  then have eq: "unat b * 4096 + 4 * unat i = unat c * 4096 + 4 * unat j"
    using unat_cell [OF assms(1,2)] unat_cell [OF assms(3,4)] by simp
  have ij: "unat i < 1024" "unat j < 1024"
    using unat_lessI [OF assms(2)] unat_lessI [OF assms(4)] by simp_all
  then have "unat b = unat c" using eq by (cases "unat b" "unat c" rule: linorder_cases) linarith+
  then show "b = c \<and> i = j" using eq by (simp add: word_unat_eq_iff)
qed simp

lemma aligned_cell: "b < 2048 \<Longrightarrow> i < 1024 \<Longrightarrow> aligned 4 (cell b i)"
  unfolding aligned_def by (simp only: unat_cell) presburger

lemma cell_neq_0: "b < 2048 \<Longrightarrow> i < 1024 \<Longrightarrow> cell b i \<noteq> 0"
  using unat_cell [of b i] by auto

lemma PPN_cell:
  assumes "b < 2048" "i < 1024"
  shows "PPN (cell b i) = 0x10000 + b"
proof (rule unsigned_word_eqI)
  have b: "unat b < 2048" and i: "unat i < 1024"
    using unat_lessI [OF assms(1)] unat_lessI [OF assms(2)] by simp_all
  have "unat (PPN (cell b i)) = (0x10000000 + unat b * 4096 + 4 * unat i) div 4096"
    by (simp only: PPN_def unat_drop_div unat_cell [OF assms]) simp
  also have "\<dots> = 0x10000 + unat b" using i by simp
  also have "\<dots> = unat (0x10000 + b)" using b by (simp add: unat_word_ariths)
  finally show "unat (PPN (cell b i)) = unat (0x10000 + b)" .
qed

lemma cell_base: "PG_ADDR_BASE (cell b 0) = cell b 0"
proof -
  have "cell b 0 = push_bit 12 (0x10000 + b)" by (simp add: cell_def push12 algebra_simps)
  moreover have "(0xFFFFF000 :: u32) = NOT 0xFFF" by simp
  ultimately show ?thesis by (simp only: PG_ADDR_BASE_def) (rule push12_and_not_low, simp)
qed

lemma cell_byte_in_block:
  assumes "b < 2048" "c < 2048" "j < 1024" "k < 4"
  shows "in_region (cell b 0) 4096 (cell c j + of_nat k) \<longleftrightarrow> b = c"
proof -
  have x: "unat (cell c j + of_nat k) = 0x10000000 + unat c * 4096 + 4 * unat j + k"
    using aligned_byte [OF aligned_cell [OF assms(2,3)] assms(4)] unat_cell [OF assms(2,3)] by simp
  have p: "unat (cell b 0) = 0x10000000 + unat b * 4096" using unat_cell [OF assms(1), of 0] by simp
  have b: "unat b < 2048" and j: "unat j < 1024"
    using unat_lessI [OF assms(1)] unat_lessI [OF assms(3)] by simp_all
  have "in_region (cell b 0) 4096 (cell c j + of_nat k) \<longleftrightarrow>
      unat b * 4096 \<le> unat c * 4096 + 4 * unat j + k \<and> unat c * 4096 + 4 * unat j + k < unat b * 4096 + 4096"
    by (subst in_region_unat) (use b in \<open>simp_all add: p x\<close>, linarith)
  also have "\<dots> \<longleftrightarrow> unat b = unat c"
    using j assms(4) by (cases "unat b" "unat c" rule: linorder_cases) linarith+
  finally show ?thesis by (simp add: word_unat_eq_iff)
qed

lemma copy_in_closed:
  "n \<le> 2 ^ 32 \<Longrightarrow> copy_in m p d q n = (\<lambda>x. if in_region p n x then d (q + (x - p)) else m x)"
proof (induction n arbitrary: m p q)
  case (Suc n)
  have "p \<noteq> p + 1 + y" if "unat y < n" for y
  proof
    assume "p = p + 1 + y"
    then have "y = - 1" by (simp add: add.assoc eq_neg_iff_add_eq_0 add.commute)
    then have "unat y = 2 ^ 32 - 1" by (simp add: unsigned_minus_1_eq_mask mask_eq_exp_minus_1)
    then show False using that Suc.prems by simp
  qed
  then have "\<not> in_region (p + 1) n p"
    unfolding in_region_def by (metis add_diff_cancel_left' diff_add_cancel add.commute)
  moreover have "q + 1 + (x - (p + 1)) = q + (x - p)" for x :: u32 by simp
  ultimately show ?case using Suc by (auto simp: in_region_Suc fun_eq_iff)
qed simp

lemma load_store_cell [mem_simps]:
  assumes "b < 2048" "i < 1024" "c < 2048" "j < 1024"
  shows "load32 (store32 m (cell b i) v) (cell c j) = (if b = c \<and> i = j then v else load32 m (cell c j))"
  using cell_eq_iff [OF assms] assms
  by (auto simp: load32_store32_same load32_store32_other aligned_cell)

text \<open>A memory that differs only in the page of one block.\<close>

lemma load_cell_other:
  assumes "b < 2048" "c < 2048" "j < 1024" "b \<noteq> c"
    and "\<And>x. \<not> in_region (cell b 0) 4096 x \<Longrightarrow> m' x = m x"
  shows "load32 m' (cell c j) = load32 m (cell c j)"
  using cell_byte_in_block [OF assms(1,2,3), of 0] cell_byte_in_block [OF assms(1,2,3), of 1]
    cell_byte_in_block [OF assms(1,2,3), of 2] cell_byte_in_block [OF assms(1,2,3), of 3] assms(4,5)
  by (simp add: load32_def)

subsection \<open>Bits\<close>

lemma bit_clear: "bit (w AND NOT (2 ^ k)) j \<longleftrightarrow> bit w j \<and> j \<noteq> k" if "j < 32" for w :: u32
  using that by (auto simp: bit_simps)

subsection \<open>The invariant\<close>

definition nblocks :: "fs \<Rightarrow> u32" where
  "nblocks s = load32 (umem s) (cell 1 1)"

definition mapped :: "fs \<Rightarrow> u32 \<Rightarrow> bool" where
  "mapped s b \<longleftrightarrow> uperm s (0x10000 + b) \<noteq> 0"

definition free :: "fs \<Rightarrow> u32 \<Rightarrow> bool" where
  "free s b \<longleftrightarrow> b < nblocks s \<and> bit (load32 (umem s) (cell 2 (b div 32))) (unat (b mod 32))"

definition fs_ok :: "fs \<Rightarrow> bool" where
  "fs_ok s \<longleftrightarrow> super s = cell 1 0 \<and> bitmap s = cell 2 0 \<and> 2 < nblocks s \<and> nblocks s \<le> 2048
     \<and> nblocks s * BY2BLK \<le> disk_size s \<and> mapped s 0 \<and> mapped s 1 \<and> mapped s 2
     \<and> \<not> free s 0 \<and> \<not> free s 1 \<and> \<not> free s 2"

lemma is_mapped_cell: "b < 2048 \<Longrightarrow> i < 1024 \<Longrightarrow> is_mapped s (cell b i) \<longleftrightarrow> mapped s b"
  by (simp add: is_mapped_def mapped_def PPN_cell)

lemma cell_shift: "cell b i + 4 * k = cell b (i + k)"
  by (simp add: cell_def algebra_simps)

lemma super_nblocks: "fs_ok s \<Longrightarrow> rd (super s + 4) s = Some (nblocks s)"
  using cell_shift [of 1 0 1] by (simp add: fs_ok_def rd_def is_mapped_cell nblocks_def)

lemma nblocks_le: "fs_ok s \<Longrightarrow> b < nblocks s \<Longrightarrow> b < 2048"
  unfolding fs_ok_def by (meson order.strict_trans2)

lemma diskaddr_ok: "fs_ok s \<Longrightarrow> diskaddr b s = (if b < nblocks s then Some (cell b 0) else None)"
proof -
  assume ok: "fs_ok s"
  then have "super s \<noteq> 0" by (simp add: fs_ok_def cell_neq_0)
  then show ?thesis by (auto simp: diskaddr_def super_nblocks [OF ok] cell_def)
qed

lemma block_is_mapped_ok:
  "fs_ok s \<Longrightarrow> block_is_mapped b s = (if b < nblocks s then Some (if mapped s b then cell b 0 else 0) else None)"
  using nblocks_le [of s b]
  by (simp add: block_is_mapped_def diskaddr_ok va_is_mapped_def syscall_va_perm_def PPN_cell mapped_def
      word_neq_0_conv [symmetric])

lemma block_is_dirty_ok:
  "fs_ok s \<Longrightarrow> block_is_dirty b s =
    (if b < nblocks s then Some (mapped s b \<and> dirty_flags s (0x10000 + b) \<noteq> 0) else None)"
  using nblocks_le [of s b]
  by (simp add: block_is_dirty_def diskaddr_ok va_is_mapped_def va_is_dirty_def syscall_va_perm_def PPN_cell
      mapped_def word_neq_0_conv [symmetric])

lemma bitmap_index: "b < 2048 \<Longrightarrow> b div 32 < 1024" for b :: u32
  by (simp add: word_less_nat_alt unat_div)

lemma bitmap_word:
  assumes "fs_ok s" "b < 2048"
  shows "bitmap s + 4 * (b div 32) = cell 2 (b div 32)" "b div 32 < 1024" "is_mapped s (cell 2 (b div 32))"
proof -
  show "bitmap s + 4 * (b div 32) = cell 2 (b div 32)"
    using assms cell_shift [of 2 0] by (simp add: fs_ok_def)
  show i: "b div 32 < 1024" by (rule bitmap_index [OF assms(2)])
  show "is_mapped s (cell 2 (b div 32))" using i assms(1) by (simp add: is_mapped_cell fs_ok_def)
qed

lemma bitmap_rd:
  "fs_ok s \<Longrightarrow> b < 2048 \<Longrightarrow>
    rd (bitmap s + 4 * (b div 32)) s = Some (load32 (umem s) (cell 2 (b div 32)))"
  using bitmap_word [of s b] by (simp add: rd_def)

lemma block_is_free_ok: "fs_ok s \<Longrightarrow> block_is_free b s = Some (free s b)"
proof -
  assume ok: "fs_ok s"
  then have "super s \<noteq> 0" by (simp add: fs_ok_def cell_neq_0)
  then show ?thesis
    using bitmap_rd [OF ok nblocks_le [OF ok, of b]]
    by (cases "b < nblocks s")
      (auto simp: block_is_free_def super_nblocks [OF ok] free_def and_exp_eq_0_iff_not_bit)
qed

subsection \<open>Steps that keep the invariant\<close>

text \<open>The state with the word of \<open>b\<close>'s bit in the bitmap rewritten, \<open>b\<close> marked as in use.\<close>

definition take_block :: "u32 \<Rightarrow> fs \<Rightarrow> fs" where
  "take_block b s = s\<lparr>umem := store32 (umem s) (cell 2 (b div 32))
     (load32 (umem s) (cell 2 (b div 32)) AND NOT (2 ^ unat (b mod 32)))\<rparr>"

lemma u32_mod_less: "unat (b mod 32 :: u32) < 32"
  by (simp add: unat_mod)

lemma block_eq_iff: "b = c \<longleftrightarrow> b div 32 = c div 32 \<and> b mod 32 = c mod 32" for b c :: u32
  by (metis div_mult_mod_eq)

lemma nblocks_take: "b < 2048 \<Longrightarrow> nblocks (take_block b s) = nblocks s"
  by (simp add: nblocks_def take_block_def load_store_cell bitmap_index)

lemma free_take:
  assumes "b < 2048" "nblocks s \<le> 2048"
  shows "free (take_block b s) c \<longleftrightarrow> free s c \<and> c \<noteq> b"
proof (cases "c < nblocks s")
  case False
  then show ?thesis by (simp add: free_def nblocks_take [OF assms(1)])
next
  case True
  then have "c < 2048" using assms(2) by (rule order.strict_trans2)
  then have i: "b div 32 < 1024" "c div 32 < 1024" using assms(1) by (simp_all only: bitmap_index)
  have m: "unat (b mod 32) = unat (c mod 32) \<longleftrightarrow> b mod 32 = c mod 32" by (simp add: word_unat_eq_iff)
  have "load32 (umem (take_block b s)) (cell 2 (c div 32)) =
      (if b div 32 = c div 32 then load32 (umem s) (cell 2 (b div 32)) AND NOT (2 ^ unat (b mod 32))
       else load32 (umem s) (cell 2 (c div 32)))"
    using i by (simp add: take_block_def load_store_cell)
  then show ?thesis
    using True m block_eq_iff [of b c]
    by (auto simp: free_def nblocks_take [OF assms(1)] bit_clear u32_mod_less)
qed

lemma fs_ok_take: "fs_ok s \<Longrightarrow> b < 2048 \<Longrightarrow> fs_ok (take_block b s)"
proof -
  assume ok: "fs_ok s" and b: "b < 2048"
  have eq: "super (take_block b s) = super s" "bitmap (take_block b s) = bitmap s"
    "disk_size (take_block b s) = disk_size s" "mapped (take_block b s) = mapped s"
    by (simp_all add: take_block_def mapped_def fun_eq_iff)
  have "nblocks s \<le> 2048" using ok by (simp add: fs_ok_def)
  from ok show "fs_ok (take_block b s)"
    unfolding fs_ok_def eq nblocks_take [OF b] free_take [OF b \<open>nblocks s \<le> 2048\<close>] by blast
qed

lemma rd_take_word:
  assumes "fs_ok s" "b < 2048"
  shows "wrt (bitmap s + 4 * (b div 32)) (load32 (umem s) (cell 2 (b div 32)) AND NOT (2 ^ unat (b mod 32))) s
    = Some (take_block b s)"
  using bitmap_word [OF assms] by (simp add: wrt_def take_block_def)

text \<open>The state after block \<open>b\<close> went to the disk.\<close>

definition flushed :: "u32 \<Rightarrow> fs \<Rightarrow> fs" where
  "flushed b s = s\<lparr>disk := copy_in (disk s) (BY2BLK * b) (umem s) (cell b 0) 4096,
     dirty_flags := (dirty_flags s)(0x10000 + b := 0)\<rparr>"

lemma fs_ok_cong:
  "umem s' = umem s \<Longrightarrow> uperm s' = uperm s \<Longrightarrow> super s' = super s \<Longrightarrow> bitmap s' = bitmap s \<Longrightarrow>
    disk_size s' = disk_size s \<Longrightarrow> fs_ok s' = fs_ok s"
  by (simp add: fs_ok_def nblocks_def mapped_def free_def)

lemma fs_ok_flushed [simp]: "fs_ok (flushed b s) = fs_ok s"
  by (rule fs_ok_cong) (simp_all add: flushed_def)

lemma free_flushed [simp]: "free (flushed b s) = free s"
  by (simp add: fun_eq_iff free_def nblocks_def flushed_def)

lemma on_disk:
  assumes "fs_ok s" "b < nblocks s"
  shows "4096 * b < disk_size s" "4096 * b + 4096 \<le> disk_size s"
proof -
  have n: "unat (nblocks s) \<le> 2048" using assms(1) by (simp add: fs_ok_def word_le_nat_alt)
  have b: "unat b < unat (nblocks s)" using assms(2) by (simp add: word_less_nat_alt)
  have "unat (nblocks s * 4096) = unat (nblocks s) * 4096" "unat (4096 * b) = unat b * 4096"
    using n b by (simp_all add: unat_word_ariths)
  moreover have "unat (nblocks s * 4096) \<le> unat (disk_size s)"
    using assms(1) by (simp add: fs_ok_def word_le_nat_alt)
  moreover have "unat (4096 * b + 4096) = unat b * 4096 + 4096"
    using n b by (simp add: unat_word_ariths)
  ultimately show "4096 * b < disk_size s" "4096 * b + 4096 \<le> disk_size s"
    using b by (simp_all add: word_less_nat_alt word_le_nat_alt)
qed

lemma write_block_ok:
  assumes "fs_ok s"
  shows "write_block b s = (if b < nblocks s \<and> mapped s b then Some (flushed b s) else None)"
proof (cases "b < nblocks s \<and> mapped s b")
  case True
  note b = nblocks_le [OF assms conjunct1 [OF True]]
  have "ide_write (b * SECT2BLK) (cell b 0) SECT2BLK s
      = Some (s\<lparr>disk := copy_in (disk s) (BY2BLK * b) (umem s) (cell b 0) 4096\<rparr>)"
    using on_disk [OF assms conjunct1 [OF True]] True b
    by (auto simp: ide_write_def Let_def is_mapped_cell)
  then show ?thesis
    using True b by (simp add: write_block_def block_is_mapped_ok diskaddr_ok assms cell_neq_0 flushed_def PPN_cell)
next
  case False
  then show ?thesis by (auto simp: write_block_def block_is_mapped_ok assms)
qed

subsection \<open>Allocation\<close>

lemma alloc_scan_ok:
  assumes ok: "fs_ok s"
  shows "list_all (\<lambda>b. b < nblocks s) bs \<Longrightarrow>
    alloc_scan bs s = Some (case find (free s) bs of None \<Rightarrow> (Inl E_NO_DISK, s)
      | Some b \<Rightarrow> (Inr b, flushed 0 (take_block b s)))"
proof (induction bs)
  case (Cons b bs)
  then have b: "b < nblocks s" "b < 2048" using nblocks_le [OF ok] by simp_all
  show ?case
  proof (cases "free s b")
    case True
    have ok1: "fs_ok (take_block b s)" by (rule fs_ok_take [OF ok b(2)])
    have "b div BIT2BLK = 0" using b(2) by (simp add: word_unat_eq_iff unat_div word_less_nat_alt)
    moreover have "0 < nblocks (take_block b s)" "mapped (take_block b s) 0"
      using ok1 by (auto simp: fs_ok_def intro: order.strict_trans [rotated])
    ultimately have "write_block (b div BIT2BLK) (take_block b s) = Some (flushed 0 (take_block b s))"
      by (simp add: write_block_ok [OF ok1])
    then show ?thesis
      using True by (simp add: bitmap_rd [OF ok b(2)] and_exp_eq_0_iff_not_bit rd_take_word [OF ok b(2)])
        (simp add: free_def)
  next
    case False
    then have "\<not> bit (load32 (umem s) (cell 2 (b div 32))) (unat (b mod 32))" using b(1) by (simp add: free_def)
    then show ?thesis
      using False Cons by (simp add: bitmap_rd [OF ok b(2)] and_exp_eq_0_iff_not_bit)
  qed
qed simp

definition first_free :: "fs \<Rightarrow> u32 option" where
  "first_free s = find (free s) (map of_nat [3..<unat (nblocks s)])"

lemma first_free_index:
  assumes "first_free s = Some b"
  shows "3 \<le> unat b" "unat b < unat (nblocks s)" "free s b"
    "\<And>k. 3 \<le> k \<Longrightarrow> k < unat b \<Longrightarrow> \<not> free s (of_nat k)"
proof -
  let ?bs = "map of_nat [3..<unat (nblocks s)] :: u32 list"
  obtain i where i: "i < length ?bs" "free s (?bs ! i)" "b = ?bs ! i" "\<And>j. j < i \<Longrightarrow> \<not> free s (?bs ! j)"
    using assms by (auto simp: first_free_def find_Some_iff)
  then have b: "b = of_nat (3 + i)" "3 + i < unat (nblocks s)" by simp_all
  then have "3 + i < 4294967296" using unat_u32 [of "nblocks s"] by simp
  then have u: "unat b = 3 + i" by (simp only: b(1) unat_of_nat_u32)
  then show "3 \<le> unat b" "unat b < unat (nblocks s)" using b(2) by simp_all
  show "free s b" using i(2,3) by simp
  show "\<not> free s (of_nat k)" if "3 \<le> k" "k < unat b" for k
    using i(4) [of "k - 3"] that u b(2) by simp
qed

lemma first_free_Some:
  assumes "first_free s = Some b"
  shows "free s b" "3 \<le> b" "b < nblocks s" "3 \<le> c \<Longrightarrow> c < b \<Longrightarrow> \<not> free s c"
  using first_free_index [OF assms] first_free_index(4) [OF assms, of "unat c"]
  by (simp_all add: word_less_nat_alt word_le_nat_alt)

lemma first_free_None: "first_free s = None \<Longrightarrow> 3 \<le> c \<Longrightarrow> \<not> free s c"
proof
  assume none: "first_free s = None" and c: "3 \<le> c" "free s c"
  then have "unat c \<in> set [3..<unat (nblocks s)]"
    by (simp add: free_def word_less_nat_alt word_le_nat_alt)
  then have "c \<in> set (map of_nat [3..<unat (nblocks s)])" by (auto simp: image_iff intro!: bexI [of _ "unat c"])
  then show False using none c(2) by (auto simp: first_free_def find_None_iff)
qed

lemma alloc_block_num_ok:
  assumes "fs_ok s"
  shows "alloc_block_num s = Some (case first_free s of None \<Rightarrow> (Inl E_NO_DISK, s)
      | Some b \<Rightarrow> (Inr b, flushed 0 (take_block b s)))"
proof -
  have "list_all (\<lambda>b. b < nblocks s) (map of_nat [3..<unat (nblocks s)])"
    using unat_u32 [of "nblocks s"]
    by (auto simp: list_all_iff word_less_nat_alt unat_of_nat_u32)
  then show ?thesis
    by (simp add: alloc_block_num_def super_nblocks [OF assms] alloc_scan_ok [OF assms] first_free_def)
qed

text \<open>A server with a disk of 8 blocks, blocks 3 to 7 free, for the examples.\<close>

definition example_fs :: fs where
  "example_fs = \<lparr>umem = store32 (store32 (\<lambda>_. 0) (cell 1 1) 8) (cell 2 0) 0xF8, uperm = \<lambda>p. if p < 0x10003 then 0x43A else 0,
     uref = \<lambda>_. 1, grant = \<lambda>_. True, allocs = 0, disk = \<lambda>_. 0, disk_size = 0x8000,
     super = cell 1 0, nbitmap = 1, bitmap = cell 2 0, dirty_flags = \<lambda>_. 0\<rparr>"

lemma example_cells:
  "load32 (umem example_fs) (cell 1 1) = 8" "load32 (umem example_fs) (cell 2 0) = 0xF8"
  by (simp_all add: example_fs_def load_store_cell)

lemma example_free: "free example_fs b \<longleftrightarrow> b < 8 \<and> 3 \<le> b"
proof -
  have "b < 8 \<Longrightarrow> unat b < 8" by (simp add: word_less_nat_alt)
  then have *: "b < 8 \<Longrightarrow> unat b \<in> {0, 1, 2, 3, 4, 5, 6, 7}" by simp arith
  have "b < 8 \<Longrightarrow> b div 32 = 0 \<and> b mod 32 = b"
    by (simp add: word_unat_eq_iff unat_div unat_mod word_less_nat_alt)
  then show ?thesis
    using * by (auto simp: free_def nblocks_def example_cells word_le_nat_alt bit_word_iff_drop_bit_and)
qed

lemma example_ok: "fs_ok example_fs"
  by (simp add: fs_ok_def nblocks_def example_cells example_free word_le_nat_alt)
    (simp add: example_fs_def mapped_def)

lemma example_first: "first_free example_fs = Some 3"
  by (simp add: first_free_def nblocks_def example_cells example_free upt_rec)

lemma fs_ok_alloc: "fs_ok s \<Longrightarrow> first_free s = Some b \<Longrightarrow> fs_ok (flushed 0 (take_block b s))"
  using first_free_Some(3) [of s b] nblocks_le [of s b] by (simp add: fs_ok_take)

lemma free_alloc:
  "fs_ok s \<Longrightarrow> first_free s = Some b \<Longrightarrow> free (flushed 0 (take_block b s)) c \<longleftrightarrow> free s c \<and> c \<noteq> b"
  using first_free_Some(3) [of s b] nblocks_le [of s b] by (simp add: free_take fs_ok_def)

text \<open>Property. Under the invariant of a started server, \<open>alloc_block_num\<close> hands out the
  lowest free block from 3 on and takes exactly that one out of the free set; with no such
  block it answers \<open>-E_NO_DISK\<close> and changes nothing. The invariant is kept.\<close>

theorem alloc_block_num_correct:
  assumes "fs_ok s"
  shows "\<exists>r s'. alloc_block_num s = Some (r, s') \<and> fs_ok s' \<and>
    (case r of
       Inl e \<Rightarrow> e = E_NO_DISK \<and> s' = s \<and> (\<forall>c. 3 \<le> c \<longrightarrow> \<not> free s c)
     | Inr b \<Rightarrow> 3 \<le> b \<and> free s b \<and> (\<forall>c. 3 \<le> c \<and> c < b \<longrightarrow> \<not> free s c)
         \<and> (\<forall>c. free s' c \<longleftrightarrow> free s c \<and> c \<noteq> b))"
proof (cases "first_free s")
  case None
  then show ?thesis using alloc_block_num_ok [OF assms] first_free_None [OF None] assms by auto
next
  case (Some b)
  then show ?thesis
    using alloc_block_num_ok [OF assms] first_free_Some [OF Some] fs_ok_alloc [OF assms Some]
      free_alloc [OF assms Some] by auto
qed

theorem alloc_block_num_correct_witness:
  "\<exists>r s'. alloc_block_num example_fs = Some (r, s') \<and> fs_ok s' \<and>
    (case r of Inl e \<Rightarrow> False | Inr b \<Rightarrow> 3 \<le> b \<and> free example_fs b \<and> (\<forall>c. free s' c \<longleftrightarrow> free example_fs c \<and> c \<noteq> b))"
proof -
  have "\<not> (\<forall>c. 3 \<le> c \<longrightarrow> \<not> free example_fs c)" by (auto simp: example_free intro!: exI [of _ 3])
  then show ?thesis
    using alloc_block_num_correct [OF example_ok] by (fastforce split: sum.splits)
qed

text \<open>Property. No block is handed out twice: of two allocations in a row the second gets a
  different, higher block, and both were free at the start.\<close>

theorem alloc_twice_distinct:
  assumes "fs_ok s" "alloc_block_num s = Some (Inr b, s1)" "alloc_block_num s1 = Some (Inr c, s2)"
  shows "b < c \<and> free s b \<and> free s c"
proof -
  have b: "first_free s = Some b" "s1 = flushed 0 (take_block b s)"
    using alloc_block_num_ok [OF assms(1)] assms(2) by (auto split: option.splits)
  have ok1: "fs_ok s1" using fs_ok_alloc [OF assms(1) b(1)] b(2) by simp
  have c: "first_free s1 = Some c" using alloc_block_num_ok [OF ok1] assms(3) by (auto split: option.splits)
  have "free s1 x \<longleftrightarrow> free s x \<and> x \<noteq> b" for x using free_alloc [OF assms(1) b(1)] b(2) by simp
  then have "free s c" "c \<noteq> b" using first_free_Some(1) [OF c] by simp_all
  moreover have "\<not> c < b" using first_free_Some(4) [OF b(1), of c] first_free_Some(2) [OF c] \<open>free s c\<close> by blast
  ultimately show ?thesis using first_free_Some(1) [OF b(1)] by simp
qed

theorem alloc_twice_distinct_witness: "\<exists>b c s1 s2. alloc_block_num example_fs = Some (Inr b, s1) \<and>
  alloc_block_num s1 = Some (Inr c, s2) \<and> b < c"
proof -
  have 1: "alloc_block_num example_fs = Some (Inr 3, flushed 0 (take_block 3 example_fs))" (is "_ = Some (_, ?s1)")
    by (simp add: alloc_block_num_ok [OF example_ok] example_first)
  have f: "free (take_block 3 example_fs) c \<longleftrightarrow> c < 8 \<and> 3 \<le> c \<and> c \<noteq> 3" for c
    using free_alloc [OF example_ok example_first] by (auto simp: example_free)
  have n: "nblocks ?s1 = 8"
    by (simp add: nblocks_take flip: example_cells(1)) (simp add: nblocks_def flushed_def take_block_def load_store_cell)
  have "first_free ?s1 = Some 4" by (simp add: first_free_def n f upt_rec)
  then have 2: "alloc_block_num ?s1 = Some (Inr 4, flushed 0 (take_block 4 ?s1))"
    by (simp add: alloc_block_num_ok [OF fs_ok_alloc [OF example_ok example_first]])
  show ?thesis using alloc_twice_distinct [OF example_ok 1 2] 1 2 by blast
qed

end
