(* ===== verification/Fs_Cache.thy ===== *)
theory Fs_Cache
  imports Fs_Blocks
begin

section \<open>Reading, writing and starting the block cache: proofs\<close>

text \<open>
  \<open>read_block\<close> and \<open>map_block\<close> bring pages in, \<open>unmap_block\<close> drops them; the block on the disk
  and its page agree after a write or a read. At the end, the start-up sequence \<open>fs_init\<close>
  on a well-formed disk.
\<close>

subsection \<open>Pages coming and going\<close>

text \<open>A new cleared page for block \<open>b\<close>, and one filled from the disk.\<close>

definition paged :: "u32 \<Rightarrow> u32 \<Rightarrow> fs \<Rightarrow> fs" where
  "paged perm b s = s\<lparr>allocs := allocs s + 1, umem := bzero (umem s) (cell b 0) 4096,
     uperm := (uperm s)(0x10000 + b := perm), uref := (uref s)(0x10000 + b := 1)\<rparr>"

definition loaded :: "u32 \<Rightarrow> fs \<Rightarrow> fs" where
  "loaded b s = s\<lparr>allocs := allocs s + 1,
     umem := copy_in (umem s) (cell b 0) (disk s) (4096 * b) 4096,
     uperm := (uperm s)(0x10000 + b := 0x43A), uref := (uref s)(0x10000 + b := 1)\<rparr>"

lemma page_eq_iff: "b < 2048 \<Longrightarrow> c < 2048 \<Longrightarrow> 0x10000 + b = 0x10000 + c \<longleftrightarrow> b = c" for b c :: u32
  by simp

lemma below_UTOP: "b < 2048 \<Longrightarrow> \<not> UTOP \<le> cell b 0"
  using unat_cell [of b 0] by (simp add: word_le_nat_alt word_less_nat_alt)

lemma syscall_mem_alloc_cell:
  "b < 2048 \<Longrightarrow> perm AND PTE_V \<noteq> 0 \<Longrightarrow> syscall_mem_alloc (cell b 0) perm s =
    (if grant s (allocs s) then (Inr 0, paged (perm OR PTE_V) b s)
     else (Inl E_NO_MEM, s\<lparr>allocs := allocs s + 1\<rparr>))"
  using below_UTOP [of b]
  by (simp add: syscall_mem_alloc_def cell_base PPN_cell paged_def)

lemma block_region_other:
  assumes "b < 2048" "c < 2048" "j < 1024" "b \<noteq> c"
  shows "load32 (bzero m (cell b 0) 4096) (cell c j) = load32 m (cell c j)"
    and "load32 (copy_in m (cell b 0) d q 4096) (cell c j) = load32 m (cell c j)"
  by (rule load_cell_other [OF assms(1,2,3,4)]; simp add: bzero_closed copy_in_closed)+

text \<open>The invariant survives every change outside the pages of blocks 0, 1 and 2.\<close>

lemma fs_ok_other:
  assumes ok: "fs_ok s"
    and eq: "super s' = super s" "bitmap s' = bitmap s" "disk_size s' = disk_size s"
    and word: "load32 (umem s') (cell 1 1) = load32 (umem s) (cell 1 1)"
      "\<And>i. i < 64 \<Longrightarrow> load32 (umem s') (cell 2 i) = load32 (umem s) (cell 2 i)"
    and map: "mapped s' 0" "mapped s' 1" "mapped s' 2"
  shows "fs_ok s' \<and> nblocks s' = nblocks s \<and> free s' = free s"
proof -
  have n: "nblocks s' = nblocks s" using word(1) by (simp add: nblocks_def)
  have "free s' b = free s b" for b
  proof (cases "b < nblocks s")
    case True
    then have "b < 2048" using nblocks_le [OF ok] by simp
    then have "b div 32 < 64" by (simp add: word_less_nat_alt unat_div)
    then show ?thesis by (simp add: free_def n word(2))
  qed (simp add: free_def n)
  then have "free s' = free s" by (rule ext)
  then show ?thesis using assms n by (simp add: fs_ok_def)
qed

lemma low_word_64: "i < 64 \<Longrightarrow> i < 1024" for i :: u32
  by (simp add: word_less_nat_alt)

lemma fs_ok_paged:
  assumes "fs_ok s" "b < 2048" "\<not> mapped s b" "perm \<noteq> 0"
  shows "fs_ok (paged perm b s) \<and> nblocks (paged perm b s) = nblocks s \<and> free (paged perm b s) = free s"
proof -
  have b: "b \<noteq> 0" "b \<noteq> 1" "b \<noteq> 2" "mapped s 0" "mapped s 1" "mapped s 2"
    using assms(1,3) by (auto simp: fs_ok_def)
  show ?thesis
    by (rule fs_ok_other [OF assms(1)])
      (use b assms(2) in \<open>simp_all add: paged_def block_region_other low_word_64 mapped_def\<close>)
qed

lemma fs_ok_loaded:
  assumes "fs_ok s" "b < 2048" "\<not> mapped s b"
  shows "fs_ok (loaded b s) \<and> nblocks (loaded b s) = nblocks s \<and> free (loaded b s) = free s"
proof -
  have b: "b \<noteq> 0" "b \<noteq> 1" "b \<noteq> 2" "mapped s 0" "mapped s 1" "mapped s 2"
    using assms(1,3) by (auto simp: fs_ok_def)
  show ?thesis
    by (rule fs_ok_other [OF assms(1)])
      (use b assms(2) in \<open>simp_all add: loaded_def block_region_other low_word_64 mapped_def\<close>)
qed

lemma copy_over_bzero: "copy_in (bzero m p 4096) p d q 4096 = copy_in m p d q 4096"
  by (simp add: copy_in_closed bzero_closed fun_eq_iff)

lemma allocs_upd [simp]:
  "nblocks (s\<lparr>allocs := n\<rparr>) = nblocks s" "free (s\<lparr>allocs := n\<rparr>) = free s"
  "mapped (s\<lparr>allocs := n\<rparr>) = mapped s"
  by (simp_all add: nblocks_def free_def mapped_def fun_eq_iff)

lemma fs_ok_allocs: "fs_ok (s\<lparr>allocs := n\<rparr>) = fs_ok s"
  by (rule fs_ok_cong) simp_all

subsection \<open>The operations under the invariant\<close>

lemma map_block_ok:
  assumes "fs_ok s"
  shows "map_block b s =
    (if \<not> b < nblocks s then None
     else Some (if mapped s b then (Inr 0, s)
       else if grant s (allocs s) then (Inr 0, paged 0x43B b s)
       else (Inl E_NO_MEM, s\<lparr>allocs := allocs s + 1\<rparr>)))"
  using nblocks_le [OF assms, of b]
  by (cases "b < nblocks s")
    (simp_all add: map_block_def block_is_mapped_ok assms diskaddr_ok cell_neq_0 syscall_mem_alloc_cell)

lemma ide_read_loaded:
  assumes "fs_ok s" "b < nblocks s"
  shows "ide_read (b * SECT2BLK) (cell b 0) SECT2BLK (paged 0x43A b s) = Some (loaded b s)"
  using on_disk [OF assms] nblocks_le [OF assms]
  by (auto simp: ide_read_def Let_def is_mapped_cell mapped_def paged_def loaded_def copy_over_bzero)

lemma ide_read_unmapped:
  assumes "fs_ok s" "b < nblocks s" "\<not> mapped s b"
  shows "ide_read (b * SECT2BLK) (cell b 0) SECT2BLK (s\<lparr>allocs := n\<rparr>) = None"
  using on_disk [OF assms(1,2)] nblocks_le [OF assms(1,2)] assms(3)
  by (auto simp: ide_read_def Let_def is_mapped_def PPN_cell mapped_def)

lemma read_block_ok:
  assumes "fs_ok s"
  shows "read_block b s =
    (if b < nblocks s \<and> \<not> free s b
     then if mapped s b then Some ((cell b 0, False), s)
       else if grant s (allocs s) then Some ((cell b 0, True), loaded b s) else None
     else None)"
proof (cases "b < nblocks s \<and> \<not> free s b")
  case True
  then have b: "b < 2048" using nblocks_le [OF assms] by simp
  have bm: "bitmap s \<noteq> 0" using assms by (simp add: fs_ok_def cell_neq_0)
  show ?thesis
    using True b bm ide_read_loaded [OF assms, of b] ide_read_unmapped [OF assms, of b]
    by (simp add: read_block_def diskaddr_ok block_is_mapped_ok block_is_free_ok assms cell_neq_0
        syscall_mem_alloc_cell)
next
  case False
  moreover have "bitmap s \<noteq> 0" using assms by (simp add: fs_ok_def cell_neq_0)
  ultimately show ?thesis
    by (auto simp: read_block_def diskaddr_ok block_is_free_ok assms)
qed

text \<open>The state with the page of block \<open>b\<close> dropped.\<close>

definition dropped :: "u32 \<Rightarrow> fs \<Rightarrow> fs" where
  "dropped b s = s\<lparr>uperm := (uperm s)(0x10000 + b := 0), uref := (uref s)(0x10000 + b := 0)\<rparr>"

lemma fs_ok_dropped:
  assumes "fs_ok s" "b \<noteq> 0" "b \<noteq> 1" "b \<noteq> 2"
  shows "fs_ok (dropped b s) \<and> nblocks (dropped b s) = nblocks s \<and> free (dropped b s) = free s"
proof -
  have "mapped s 0" "mapped s 1" "mapped s 2" using assms(1) by (auto simp: fs_ok_def)
  then show ?thesis
    by (intro fs_ok_other [OF assms(1)]) (use assms in \<open>simp_all add: dropped_def mapped_def\<close>)
qed

lemma unmap_block_ok:
  assumes "fs_ok s" "b \<noteq> 0" "b \<noteq> 1" "b \<noteq> 2"
  shows "unmap_block b s =
    (if \<not> b < nblocks s then None
     else if \<not> mapped s b then Some s
     else if \<not> free s b \<and> dirty_flags s (0x10000 + b) \<noteq> 0 then None
     else Some (dropped b s))"
proof (cases "b < nblocks s \<and> mapped s b")
  case True
  then have b: "b < 2048" using nblocks_le [OF assms(1)] by simp
  have sys: "syscall_mem_unmap (cell b 0) s = (Inr 0, dropped b s)"
    using below_UTOP [OF b] b by (simp add: syscall_mem_unmap_def PPN_cell dropped_def)
  have "block_is_mapped b (dropped b s) = Some 0"
    using fs_ok_dropped [OF assms] True by (simp add: block_is_mapped_ok) (simp add: dropped_def mapped_def)
  then show ?thesis
    using True b sys
    by (simp add: unmap_block_def block_is_mapped_ok block_is_free_ok block_is_dirty_ok diskaddr_ok assms(1)
        cell_neq_0)
next
  case False
  then show ?thesis by (auto simp: unmap_block_def block_is_mapped_ok assms(1))
qed

subsection \<open>Properties of the block cache\<close>

lemma mapped_flushed [simp]: "mapped (flushed b s) = mapped s"
  by (simp add: fun_eq_iff mapped_def flushed_def)

lemma nblocks_flushed [simp]: "nblocks (flushed b s) = nblocks s"
  by (simp add: nblocks_def flushed_def)

lemma copy_back:
  "copy_in m p (copy_in d q m p 4096) q 4096 = m"
  by (simp add: copy_in_closed fun_eq_iff in_region_def)

text \<open>Property C36. What \<open>write_block\<close> puts on the disk is what \<open>read_block\<close> brings back after the
  page was dropped: memory is then as before, and no other block of the disk was touched.\<close>

theorem block_roundtrip:
  assumes ok: "fs_ok s" and b: "b < nblocks s" "b \<noteq> 0" "b \<noteq> 1" "b \<noteq> 2"
    and m: "mapped s b" "\<not> free s b" and mem: "grant s (allocs s)"
  shows "\<exists>s1 s2 s3. write_block b s = Some s1 \<and> unmap_block b s1 = Some s2 \<and>
    read_block b s2 = Some ((cell b 0, True), s3) \<and> fs_ok s3 \<and> mapped s3 b \<and> umem s3 = umem s \<and>
    (\<forall>x. \<not> in_region (4096 * b) 4096 x \<longrightarrow> disk s3 x = disk s x)"
proof -
  let ?s1 = "flushed b s" and ?s2 = "dropped b (flushed b s)"
  let ?s3 = "loaded b ?s2"
  have ok1: "fs_ok ?s1" using ok by simp
  note d = fs_ok_dropped [OF ok1 b(2,3,4)]
  have 1: "write_block b s = Some ?s1" using b m by (simp add: write_block_ok [OF ok])
  have "dirty_flags ?s1 (0x10000 + b) = 0" by (simp add: flushed_def)
  then have 2: "unmap_block b ?s1 = Some ?s2" using b m by (simp add: unmap_block_ok [OF ok1 b(2,3,4)])
  have nm: "\<not> mapped ?s2 b" by (simp add: dropped_def mapped_def)
  moreover have "grant ?s2 (allocs ?s2)" using mem by (simp add: dropped_def flushed_def)
  ultimately have 3: "read_block b ?s2 = Some ((cell b 0, True), ?s3)"
    using d b m by (simp add: read_block_ok)
  have "umem ?s3 = copy_in (umem s) (cell b 0) (copy_in (disk s) (4096 * b) (umem s) (cell b 0) 4096) (4096 * b) 4096"
    by (simp add: loaded_def dropped_def flushed_def)
  then have u: "umem ?s3 = umem s" by (simp add: copy_back)
  have "disk ?s3 x = disk s x" if "\<not> in_region (4096 * b) 4096 x" for x
    using that by (simp add: loaded_def dropped_def flushed_def copy_in_closed)
  moreover have "fs_ok ?s3" using fs_ok_loaded [OF conjunct1 [OF d] nblocks_le [OF ok b(1)] nm] by simp
  moreover have "mapped ?s3 b" by (simp add: mapped_def loaded_def)
  ultimately show ?thesis using 1 2 3 u by blast
qed

text \<open>The example server after block 3 was allocated.\<close>

lemma example_alloc:
  defines "s \<equiv> paged 0x43B 3 (flushed 0 (take_block 3 example_fs))"
  shows "fs_ok s" "nblocks s = 8" "mapped s 3" "\<not> free s 3" "grant s (allocs s)"
    "alloc_block example_fs = Some (Inr 3, s)"
proof -
  let ?s1 = "flushed 0 (take_block 3 example_fs)"
  have ok1: "fs_ok ?s1" by (rule fs_ok_alloc [OF example_ok example_first])
  have n1: "nblocks ?s1 = 8" by (simp add: nblocks_take) (simp add: nblocks_def example_cells)
  have nm: "\<not> mapped ?s1 3" by (simp add: mapped_def example_fs_def take_block_def)
  note p = fs_ok_paged [OF ok1 _ nm, of "0x43B"]
  show "fs_ok s" "nblocks s = 8" using p n1 by (simp_all add: s_def)
  show "mapped s 3" "grant s (allocs s)"
    by (simp_all add: s_def paged_def mapped_def flushed_def take_block_def example_fs_def)
  show "\<not> free s 3" using p free_alloc [OF example_ok example_first, of 3] by (simp add: s_def)
  have "grant ?s1 (allocs ?s1)" by (simp add: flushed_def take_block_def example_fs_def)
  then have "map_block 3 ?s1 = Some (Inr 0, s)"
    using n1 nm by (simp add: map_block_ok [OF ok1] s_def)
  then show "alloc_block example_fs = Some (Inr 3, s)"
    by (simp add: alloc_block_def alloc_block_num_ok [OF example_ok] example_first)
qed

theorem block_roundtrip_witness:
  "\<exists>s s1 s2 s3. alloc_block example_fs = Some (Inr 3, s) \<and> write_block 3 s = Some s1 \<and>
    unmap_block 3 s1 = Some s2 \<and> read_block 3 s2 = Some ((cell 3 0, True), s3) \<and> umem s3 = umem s"
  using block_roundtrip [OF example_alloc(1), of 3] example_alloc by auto

lemma free_block_ok:
  assumes "fs_ok s"
  shows "b < 2048 \<Longrightarrow> free_block b s = (if b = 0 then None else Some (take_block b s))"
  by (simp add: free_block_def bitmap_rd [OF assms] rd_take_word [OF assms])

text \<open>Property. \<open>free_block\<close> does not make a block free: it clears the block's bit, as the
  allocator does, so the set of free blocks is the old one without the block.\<close>

theorem free_block_frees_nothing:
  assumes "fs_ok s" "b \<noteq> 0" "b < nblocks s"
  shows "\<exists>s'. free_block b s = Some s' \<and> fs_ok s' \<and> (\<forall>c. free s' c \<longleftrightarrow> free s c \<and> c \<noteq> b)"
proof -
  have "b < 2048" using nblocks_le [OF assms(1,3)] .
  moreover from this have "free (take_block b s) c \<longleftrightarrow> free s c \<and> c \<noteq> b" for c
    using free_take assms(1) by (simp add: fs_ok_def)
  ultimately show ?thesis
    using assms by (simp add: free_block_ok fs_ok_take)
qed

theorem free_block_frees_nothing_witness:
  "\<exists>s s'. alloc_block example_fs = Some (Inr 3, s) \<and> free_block 3 s = Some s' \<and> \<not> free s' 3"
  using free_block_frees_nothing [OF example_alloc(1), of 3] example_alloc by auto

lemma alloc_block_eq:
  assumes ok: "fs_ok s"
  shows "alloc_block s = (case first_free s of
      None \<Rightarrow> Some (Inl E_NO_DISK, s)
    | Some b \<Rightarrow> Some (if mapped s b then (Inr b, flushed 0 (take_block b s))
        else if grant s (allocs s) then (Inr b, paged 0x43B b (flushed 0 (take_block b s)))
        else (Inl E_NO_MEM, take_block b ((flushed 0 (take_block b s))\<lparr>allocs := Suc (allocs s)\<rparr>))))"
proof (cases "first_free s")
  case None
  then show ?thesis using ok by (simp add: alloc_block_def alloc_block_num_ok)
next
  case (Some b)
  let ?s1 = "flushed 0 (take_block b s)"
  let ?s2 = "?s1\<lparr>allocs := Suc (allocs s)\<rparr>"
  have b: "b < nblocks s" "b < 2048" "b \<noteq> 0"
    using first_free_Some(2,3) [OF Some] nblocks_le [OF ok] by auto
  have ok1: "fs_ok ?s1" by (rule fs_ok_alloc [OF ok Some])
  have ok2: "fs_ok ?s2" using ok1 by (simp only: fs_ok_allocs)
  have "nblocks ?s1 = nblocks s" by (simp add: nblocks_take b(2))
  moreover have "mapped ?s1 b = mapped s b" "grant ?s1 (allocs ?s1) = grant s (allocs s)" "allocs ?s1 = allocs s"
    by (simp_all add: mapped_def flushed_def take_block_def)
  ultimately have "map_block b ?s1 = Some (if mapped s b then (Inr 0, ?s1)
      else if grant s (allocs s) then (Inr 0, paged 0x43B b ?s1) else (Inl E_NO_MEM, ?s2))"
    using b(1) by (simp add: map_block_ok [OF ok1])
  then show ?thesis
    using free_block_ok [OF ok2 b(2)] b(3)
    by (simp add: alloc_block_def alloc_block_num_ok [OF ok] Some)
qed

lemma alloc_block_ok:
  assumes ok: "fs_ok s"
  shows "\<exists>r s'. alloc_block s = Some (r, s') \<and> fs_ok s' \<and> nblocks s' = nblocks s \<and>
    (case first_free s of
       None \<Rightarrow> r = Inl E_NO_DISK \<and> s' = s
     | Some b \<Rightarrow> (\<forall>c. free s' c \<longleftrightarrow> free s c \<and> c \<noteq> b) \<and>
         (if mapped s b \<or> grant s (allocs s) then r = Inr b \<and> mapped s' b else r = Inl E_NO_MEM))"
proof (cases "first_free s")
  case None
  then show ?thesis using ok by (simp add: alloc_block_eq)
next
  case (Some b)
  let ?s1 = "flushed 0 (take_block b s)"
  have b: "b < 2048" using first_free_Some(3) [OF Some] nblocks_le [OF ok] by auto
  have ok1: "fs_ok ?s1" by (rule fs_ok_alloc [OF ok Some])
  have n1: "nblocks ?s1 = nblocks s" by (simp add: nblocks_take b)
  have f1: "free ?s1 c \<longleftrightarrow> free s c \<and> c \<noteq> b" for c by (rule free_alloc [OF ok Some])
  have m1: "mapped ?s1 b = mapped s b" by (simp add: mapped_def flushed_def take_block_def)
  consider "mapped s b" | "\<not> mapped s b" "grant s (allocs s)" | "\<not> mapped s b" "\<not> grant s (allocs s)" by blast
  then show ?thesis
  proof cases
    case 1
    then show ?thesis using Some ok1 f1 n1 m1 by (simp add: alloc_block_eq [OF ok])
  next
    case 2
    moreover have "mapped (paged 0x43B b ?s1) b" by (simp add: paged_def mapped_def)
    ultimately show ?thesis
      using Some fs_ok_paged [OF ok1 b, of "0x43B"] f1 n1 m1 by (simp add: alloc_block_eq [OF ok])
  next
    case 3
    let ?s2 = "?s1\<lparr>allocs := Suc (allocs s)\<rparr>"
    have ok2: "fs_ok ?s2" using ok1 by (simp only: fs_ok_allocs)
    have "free (take_block b ?s2) c \<longleftrightarrow> free s c \<and> c \<noteq> b" for c
      using free_take [OF b, of ?s2] ok2 f1 by (auto simp: fs_ok_def)
    then show ?thesis
      using 3 Some fs_ok_take [OF ok2 b] n1 by (simp add: alloc_block_eq [OF ok] nblocks_take [OF b])
  qed
qed

text \<open>The bitmap change of an allocation does not reach the bitmap's block on the disk.\<close>

lemma alloc_not_on_disk:
  assumes "fs_ok s" "alloc_block_num s = Some (Inr b, s')" "\<not> in_region 0 4096 x"
  shows "disk s' x = disk s x"
proof -
  have "disk s' = copy_in (disk s) 0 (umem (take_block b s)) (cell 0 0) 4096"
    using assms(2) by (auto simp: alloc_block_num_ok [OF assms(1)] flushed_def take_block_def split: option.splits)
  then show ?thesis using assms(3) by (simp add: copy_in_closed)
qed

end
