(* ===== verification/Fs_Start.thy ===== *)
theory Fs_Start
  imports Fs_Cache
begin

section \<open>Starting the file server: proofs\<close>

text \<open>
  \<open>fs_init\<close> on a well-formed disk: the superblock is read and checked, \<open>check_write_block\<close>
  overwrites block 1 on the disk and restores it, and the bitmap is read. The result satisfies
  the invariant, its free set is the disk's, and the disk is as it was.
\<close>

lemma block_disjoint: "b < 2048 \<Longrightarrow> c < 2048 \<Longrightarrow> b \<noteq> c \<Longrightarrow> in_region (cell b 0) 4096 x \<Longrightarrow> \<not> in_region (cell c 0) 4096 x"
proof -
  assume b: "b < 2048" "c < 2048" "b \<noteq> c"
  have u: "unat (cell b 0) = 0x10000000 + unat b * 4096" "unat (cell c 0) = 0x10000000 + unat c * 4096"
    using unat_cell [OF b(1), of 0] unat_cell [OF b(2), of 0] by simp_all
  have "unat b < 2048" "unat c < 2048" "unat b \<noteq> unat c"
    using b by (simp_all add: word_less_nat_alt word_unat_eq_iff)
  then show "in_region (cell b 0) 4096 x \<Longrightarrow> \<not> in_region (cell c 0) 4096 x"
    by (simp add: in_region_unat u)
qed

lemma region_shift: "in_region p n (p + (x - q)) \<longleftrightarrow> in_region q n x"
  by (simp add: in_region_def)

lemma load_copied_cell:
  assumes "b < 2048" "i < 1024"
  shows "load32 (copy_in m (cell b 0) d q 4096) (cell b i) = load32 d (q + 4 * i)"
proof -
  have "copy_in m (cell b 0) d q 4096 (cell b i + of_nat k) = d (q + 4 * i + of_nat k)" if "k < 4" for k
    using cell_byte_in_block [OF assms(1,1,2) that] cell_shift [of b 0 i]
    by (simp add: copy_in_closed) (metis (no_types, lifting) add.assoc add_diff_cancel_left')
  from this [of 0] this [of 1] this [of 2] this [of 3] show ?thesis by (simp add: load32_def)
qed

lemma bcopy_cell:
  assumes "b < 2048" "c < 2048" "b \<noteq> c"
  shows "bcopy m (cell b 0) (cell c 0) 4096 =
    (\<lambda>x. if in_region (cell c 0) 4096 x then m (cell b 0 + (x - cell c 0)) else m x)"
  unfolding bcopy_def by (rule memcpy_closed) (use block_disjoint [OF assms] in auto)

lemma put_bytes_other: "length cs < 2 ^ 32 \<Longrightarrow> \<not> in_region a (length cs) x \<Longrightarrow> put_bytes m a cs x = m x"
  by (induction cs arbitrary: m a) (simp_all add: in_region_Suc)

lemma put_OOPS_other:
  assumes "\<not> in_region a 7 x"
  shows "put_bytes m a OOPS x = m x"
proof -
  have l: "length OOPS = 7" by simp
  show ?thesis by (rule put_bytes_other) (simp, unfold l, rule assms)
qed

subsection \<open>Before the superblock is known\<close>

lemma start_addr: "super s = 0 \<Longrightarrow> diskaddr b s = Some (cell b 0)"
  by (simp add: diskaddr_def cell_def)

lemma start_mapped:
  "super s = 0 \<Longrightarrow> b < 2048 \<Longrightarrow> block_is_mapped b s = Some (if mapped s b then cell b 0 else 0)"
  by (simp add: block_is_mapped_def start_addr va_is_mapped_def syscall_va_perm_def PPN_cell mapped_def
      word_neq_0_conv [symmetric])

lemma low_block:
  assumes "b < 3" "12288 \<le> disk_size s"
  shows "b < 2048" "\<not> disk_size s \<le> 4096 * b" "\<not> disk_size s < 4096 * b + 4096"
proof -
  have b: "unat b < 3" using assms(1) by (simp add: word_less_nat_alt)
  then show "b < 2048" by (simp add: word_less_nat_alt)
  have d: "12288 \<le> unat (disk_size s)" using assms(2) by (simp add: word_le_nat_alt)
  have "unat (4096 * b) = 4096 * unat b" "unat (4096 * b + 4096) = 4096 * unat b + 4096"
    using b by (simp_all add: unat_word_ariths)
  then show "\<not> disk_size s \<le> 4096 * b" "\<not> disk_size s < 4096 * b + 4096"
    using b d by (simp_all add: word_less_nat_alt word_le_nat_alt)
qed

lemma start_ide_read:
  assumes "b < 3" "12288 \<le> disk_size s"
  shows "ide_read (b * SECT2BLK) (cell b 0) SECT2BLK (paged 0x43A b s) = Some (loaded b s)"
  using low_block [OF assms]
  by (auto simp: ide_read_def Let_def is_mapped_cell mapped_def paged_def loaded_def copy_over_bzero)

lemma start_read:
  assumes "bitmap s = 0" "\<not> mapped s b" "grant s (allocs s)" "b < 3" "12288 \<le> disk_size s"
    and "super s = 0 \<or> super s = cell 1 0 \<and> mapped s 1 \<and> b < load32 (umem s) (cell 1 1)"
  shows "read_block b s = Some ((cell b 0, True), loaded b s)"
proof -
  have b: "b < 2048" by (rule low_block(1) [OF assms(4,5)])
  have "diskaddr b s = Some (cell b 0)"
    using assms(6) cell_shift [of 1 0 1]
    by (auto simp: diskaddr_def rd_def is_mapped_cell cell_neq_0) (simp_all add: cell_def)
  then show ?thesis
    using assms b start_ide_read [OF assms(4,5)]
    by (simp add: read_block_def block_is_mapped_def va_is_mapped_def syscall_va_perm_def PPN_cell
        syscall_mem_alloc_cell mapped_def word_neq_0_conv [symmetric])
qed

lemma start_write:
  assumes "super s = 0" "mapped s b" "b < 3" "12288 \<le> disk_size s"
  shows "write_block b s = Some (flushed b s)"
proof -
  note b = low_block [OF assms(3,4)]
  have "ide_write (b * SECT2BLK) (cell b 0) SECT2BLK s
      = Some (s\<lparr>disk := copy_in (disk s) (BY2BLK * b) (umem s) (cell b 0) 4096\<rparr>)"
    using b assms(2) by (auto simp: ide_write_def Let_def is_mapped_cell)
  then show ?thesis
    using assms b by (simp add: write_block_def start_mapped start_addr cell_neq_0 flushed_def PPN_cell)
qed

subsection \<open>The write check\<close>

text \<open>Block \<open>b\<close>'s page holds what the disk holds.\<close>

definition clean :: "u32 \<Rightarrow> fs \<Rightarrow> bool" where
  "clean b s \<longleftrightarrow> (\<forall>x. in_region (cell b 0) 4096 x \<longrightarrow> umem s x = disk s (4096 * b + (x - cell b 0)))"

lemma flushed_disk:
  "disk (flushed b s) = (\<lambda>x. if in_region (4096 * b) 4096 x then umem s (cell b 0 + (x - 4096 * b)) else disk s x)"
  by (simp add: flushed_def copy_in_closed)

lemma loaded_umem:
  "umem (loaded b s) = (\<lambda>x. if in_region (cell b 0) 4096 x then disk s (4096 * b + (x - cell b 0)) else umem s x)"
  by (simp add: loaded_def copy_in_closed)

lemma get_put_OOPS: "get_bytes (put_bytes m a OOPS) a 7 = OOPS"
  by (simp add: get_bytes_def upt_rec)

lemma check_write_block_ok:
  assumes s: "bitmap s = 0" "\<not> mapped s 0" "mapped s 1" "clean 1 s" "12288 \<le> disk_size s"
    and mem: "grant s (allocs s)" "grant s (allocs s + 1)"
  shows "\<exists>s'. check_write_block s = Some s' \<and> super s' = cell 1 0 \<and> bitmap s' = 0 \<and> disk s' = disk s
    \<and> disk_size s' = disk_size s \<and> (\<forall>x. \<not> in_region (cell 0 0) 4096 x \<longrightarrow> umem s' x = umem s x)
    \<and> uperm s' = (uperm s)(0x10000 := 0x43A, 0x10001 := 0x43A) \<and> grant s' = grant s \<and> allocs s' = allocs s + 2"
proof -
  let ?a0 = "cell 0 0" and ?a1 = "cell 1 0"
  define c0 where "c0 = s\<lparr>super := 0\<rparr>"
  define c1 where "c1 = loaded 0 c0"
  define c2 where "c2 = c1\<lparr>umem := bcopy (umem c1) ?a1 ?a0 4096\<rparr>"
  define c3 where "c3 = c2\<lparr>umem := put_bytes (umem c2) ?a1 OOPS\<rparr>"
  define c4 where "c4 = flushed 1 c3"
  define c5 where "c5 = dropped 1 c4"
  define c6 where "c6 = loaded 1 c5"
  define c7 where "c7 = c6\<lparr>umem := bcopy (umem c6) ?a0 ?a1 4096\<rparr>"
  define c8 where "c8 = flushed 1 c7"
  note defs = c8_def c7_def c6_def c5_def c4_def c3_def c2_def c1_def c0_def
  have fields: "super c0 = 0" "super c1 = 0" "super c3 = 0" "super c4 = 0" "super c5 = 0" "super c6 = 0"
      "super c7 = 0" "bitmap c0 = 0" "bitmap c5 = 0"
    and dsz: "disk_size c0 = disk_size s" "disk_size c3 = disk_size s" "disk_size c5 = disk_size s"
      "disk_size c7 = disk_size s"
    and mp: "\<not> mapped c0 0" "mapped c1 0" "mapped c1 1" "mapped c3 1" "mapped c4 1" "\<not> mapped c5 1" "mapped c7 1"
    and gr: "grant c0 (allocs c0)" "grant c5 (allocs c5)"
    using s mem by (simp_all add: defs loaded_def flushed_def dropped_def mapped_def)
  have 1: "read_block 0 c0 = Some ((?a0, True), c1)"
    using start_read [of c0 0] fields mp gr s(5) dsz by (simp add: c1_def)
  have 4: "write_block 1 c3 = Some c4"
    using start_write [of c3 1] fields mp s(5) dsz by (simp add: c4_def)
  have 6: "read_block 1 c5 = Some ((?a1, True), c6)"
    using start_read [of c5 1] fields mp gr s(5) dsz by (simp add: c6_def word_less_nat_alt)
  have 8: "write_block 1 c7 = Some c8"
    using start_write [of c7 1] fields mp s(5) dsz by (simp add: c8_def word_less_nat_alt)
  have um: "syscall_mem_unmap ?a1 c4 = (Inr 0, c5)"
    using below_UTOP [of 1] by (simp add: syscall_mem_unmap_def PPN_cell c5_def dropped_def)
  have dis: "in_region ?a1 4096 x \<Longrightarrow> \<not> in_region ?a0 4096 x" for x by (rule block_disjoint) simp_all
  have c6m: "umem c6 x = umem c3 x" for x
    by (simp add: c6_def loaded_umem c5_def c4_def dropped_def flushed_disk)
      (simp add: flushed_def region_shift)
  have str: "get_bytes (umem c6) ?a1 7 = OOPS"
  proof -
    from c6m have "umem c6 = umem c3" by (rule ext)
    also have "\<dots> = put_bytes (umem c2) ?a1 OOPS" by (simp add: c3_def)
    finally show ?thesis by (simp only: get_put_OOPS)
  qed
  have small: "in_region ?a1 7 x \<Longrightarrow> in_region ?a1 4096 x" for x by (simp add: in_region_def)
  have c3m: "umem c3 x = (if in_region ?a0 4096 x then umem s (?a1 + (x - ?a0)) else umem s x)"
    if "\<not> in_region ?a1 7 x" for x
  proof -
    have "umem c3 x = umem c2 x"
      using that by (simp add: c3_def put_OOPS_other del: put_bytes.simps)
    then show ?thesis
      using dis [of "?a1 + (x - ?a0)"] by (simp add: c2_def bcopy_cell c1_def loaded_umem c0_def region_shift)
  qed
  have c7m: "umem c7 x = umem s x" if "\<not> in_region ?a0 4096 x" for x
  proof (cases "in_region ?a1 4096 x")
    case True
    have y: "in_region ?a0 4096 (?a0 + (x - ?a1))" using True by (simp add: region_shift)
    then have "\<not> in_region ?a1 7 (?a0 + (x - ?a1))" using dis small by blast
    then show ?thesis using True y by (simp add: c7_def bcopy_cell c6m c3m)
  next
    case False
    then have "\<not> in_region ?a1 7 x" using small by blast
    then show ?thesis using that False by (simp add: c7_def bcopy_cell c6m c3m)
  qed
  have "disk c8 x = disk s x" for x
  proof (cases "in_region 4096 4096 x")
    case True
    then have r: "in_region ?a1 4096 (?a1 + (x - 4096))" by (simp add: region_shift)
    then have "disk c8 x = umem s (?a1 + (x - 4096))" using True c7m dis by (simp add: c8_def flushed_disk)
    also have "\<dots> = disk s x" using s(4) r by (simp add: clean_def)
    finally show ?thesis .
  next
    case False
    have "disk c7 = disk c4" by (simp add: c7_def c6_def c5_def loaded_def dropped_def)
    moreover have "disk c3 = disk s" by (simp add: c3_def c2_def c1_def c0_def loaded_def)
    ultimately show ?thesis using False by (simp add: c8_def flushed_disk c4_def)
  qed
  then have "disk c8 = disk s" by (rule ext)
  moreover have "umem c8 = umem c7" by (simp add: c8_def flushed_def)
  moreover have "uperm c8 = (uperm s)(0x10000 := 0x43A, 0x10001 := 0x43A)" "grant c8 = grant s"
    "allocs c8 = allocs s + 2" "bitmap c8 = 0" "disk_size c8 = disk_size s"
    using s(1) by (simp_all add: defs loaded_def flushed_def dropped_def)
  moreover have "check_write_block s = Some (c8\<lparr>super := ?a1\<rparr>)"
    using mp fields
    by (simp add: check_write_block_def c0_def [symmetric] 1 start_addr is_mapped_cell
        c2_def [symmetric] Let_def c3_def [symmetric] 4 start_mapped cell_neq_0 um 6 str c7_def [symmetric] 8
        del: put_bytes.simps)
  ultimately show ?thesis using c7m by (intro exI [of _ "c8\<lparr>super := ?a1\<rparr>"]) simp
qed

subsection \<open>The whole start-up\<close>

text \<open>A server that has read nothing yet, and a disk that the format tool can have written.\<close>

definition fresh :: "fs \<Rightarrow> bool" where
  "fresh s \<longleftrightarrow> super s = 0 \<and> bitmap s = 0 \<and> \<not> mapped s 0 \<and> \<not> mapped s 1 \<and> \<not> mapped s 2
     \<and> 12288 \<le> disk_size s \<and> (\<forall>k<4. grant s (allocs s + k))"

definition disk_blocks :: "fs \<Rightarrow> u32" where
  "disk_blocks s = load32 (disk s) (4096 + 4)"

definition disk_free :: "fs \<Rightarrow> u32 \<Rightarrow> bool" where
  "disk_free s b \<longleftrightarrow> b < disk_blocks s \<and> bit (load32 (disk s) (8192 + 4 * (b div 32))) (unat (b mod 32))"

definition good_disk :: "fs \<Rightarrow> bool" where
  "good_disk s \<longleftrightarrow> load32 (disk s) 4096 = FS_MAGIC \<and> 2 < disk_blocks s \<and> disk_blocks s \<le> 2048
     \<and> disk_blocks s * BY2BLK \<le> disk_size s \<and> \<not> disk_free s 0 \<and> \<not> disk_free s 1 \<and> \<not> disk_free s 2"

lemma loaded_super:
  "load32 (umem (loaded 1 s)) (cell 1 0) = load32 (disk s) 4096"
  "load32 (umem (loaded 1 s)) (cell 1 1) = disk_blocks s"
  using load_copied_cell [of 1 0 "umem s" "disk s" 4096] load_copied_cell [of 1 1 "umem s" "disk s" 4096]
  by (simp_all add: loaded_def disk_blocks_def)

lemma read_super_ok:
  assumes "fresh s"
  shows "read_super s = (if load32 (disk s) 4096 = FS_MAGIC \<and> disk_blocks s \<le> 2048
    then Some ((loaded 1 s)\<lparr>super := cell 1 0\<rparr>) else None)"
proof -
  have g: "grant s (allocs s)" using assms unfolding fresh_def by (metis add_0_right zero_less_numeral)
  have "read_block 1 s = Some ((cell 1 0, True), loaded 1 s)"
    by (rule start_read) (use assms g in \<open>simp_all add: fresh_def word_less_nat_alt\<close>)
  moreover have "rd (cell 1 0) ((loaded 1 s)\<lparr>super := cell 1 0\<rparr>) = Some (load32 (disk s) 4096)"
    "rd (cell 1 0 + 4) ((loaded 1 s)\<lparr>super := cell 1 0\<rparr>) = Some (disk_blocks s)"
    using loaded_super [of s] cell_shift [of 1 0 1]
    by (simp_all add: rd_def is_mapped_cell mapped_def) (simp_all add: loaded_def)
  ultimately show ?thesis by (auto simp: read_super_def Let_def)
qed

lemma read_bitmap_ok:
  assumes s: "super s = cell 1 0" "bitmap s = 0" "mapped s 0" "mapped s 1" "\<not> mapped s 2" "grant s (allocs s)"
    and d: "load32 (umem s) (cell 1 1) = disk_blocks s" "good_disk s"
  shows "\<exists>s'. read_bitmap s = Some s' \<and> fs_ok s' \<and> nblocks s' = disk_blocks s \<and> free s' = disk_free s \<and> disk s' = disk s"
proof -
  let ?N = "disk_blocks s"
  have N: "2 < ?N" "?N \<le> 2048" "?N * BY2BLK \<le> disk_size s" using d(2) by (auto simp: good_disk_def)
  have un: "2 < unat ?N" "unat ?N \<le> 2048" using N by (simp_all add: word_less_nat_alt word_le_nat_alt)
  have size: "12288 \<le> disk_size s"
  proof -
    have "unat (?N * BY2BLK) = unat ?N * 4096" using un by (simp add: unat_word_ariths)
    then show ?thesis using N(3) un by (simp add: word_le_nat_alt)
  qed
  have "?N div BIT2BLK = 0" using un by (simp add: word_unat_eq_iff unat_div)
  then have nb: "?N div BIT2BLK + 1 = 1" by simp
  let ?s0 = "s\<lparr>nbitmap := 1\<rparr>"
  define s1 where "s1 = (loaded 2 ?s0)\<lparr>bitmap := cell 2 0\<rparr>"
  have rs: "rd (super s + 4) s = Some ?N"
    using s d(1) cell_shift [of 1 0 1] by (simp add: rd_def is_mapped_cell)
  have rb: "read_block 2 ?s0 = Some ((cell 2 0, True), loaded 2 ?s0)"
    by (rule start_read) (use s d size un in \<open>auto simp: mapped_def word_less_nat_alt\<close>)
  have w1: "load32 (umem s1) (cell 1 1) = ?N"
    using d(1) by (simp add: s1_def loaded_def block_region_other)
  have m1: "mapped s1 0" "mapped s1 1" "mapped s1 2" using s by (simp_all add: s1_def loaded_def mapped_def)
  have free: "free s1 b = disk_free s b" for b
  proof (cases "b < ?N")
    case True
    then have "b < 2048" using N(2) by (rule order.strict_trans2)
    then have "load32 (umem s1) (cell 2 (b div 32)) = load32 (disk s) (8192 + 4 * (b div 32))"
      by (simp add: s1_def loaded_def load_copied_cell bitmap_index)
    then show ?thesis by (simp add: free_def disk_free_def nblocks_def w1)
  qed (simp add: free_def disk_free_def nblocks_def w1)
  have ok: "fs_ok s1"
    using s N m1 d(2) by (simp add: fs_ok_def nblocks_def w1 free good_disk_def) (simp add: s1_def loaded_def)
  have "diskaddr 2 (loaded 2 ?s0) = diskaddr 2 s1"
    by (simp add: diskaddr_def s1_def rd_def is_mapped_def)
  then have da: "diskaddr 2 (loaded 2 ?s0) = Some (cell 2 0)"
    using N(1) by (simp add: diskaddr_ok [OF ok] nblocks_def w1)
  have as: "assert_not_free b s1 = Some s1" if "b = 0 \<or> b = 1 \<or> b = 2" for b
    using that d(2) by (auto simp: assert_not_free_def block_is_free_ok [OF ok] free good_disk_def)
  have "nbitmap s1 = 1" by (simp add: s1_def loaded_def)
  then have "read_bitmap s = Some s1"
    using as by (simp add: read_bitmap_def rs Let_def nb rb da s1_def [symmetric])
  moreover from free have "free s1 = disk_free s" by (rule ext)
  moreover have "nblocks s1 = ?N" by (simp only: nblocks_def w1)
  moreover have "disk s1 = disk s" by (simp add: s1_def loaded_def)
  ultimately show ?thesis using ok by blast
qed

lemma dirty_flags_upd [simp]:
  "fs_ok (s\<lparr>dirty_flags := d\<rparr>) = fs_ok s" "nblocks (s\<lparr>dirty_flags := d\<rparr>) = nblocks s"
  "free (s\<lparr>dirty_flags := d\<rparr>) = free s" "mapped (s\<lparr>dirty_flags := d\<rparr>) = mapped s"
  by (simp_all add: fs_ok_def nblocks_def free_def mapped_def fun_eq_iff)

lemma fs_init_ok:
  assumes "fresh s" "good_disk s"
  shows "\<exists>s'. fs_init s = Some s' \<and> fs_ok s' \<and> disk s' = disk s \<and> nblocks s' = disk_blocks s \<and>
    (\<forall>b. free s' b \<longleftrightarrow> disk_free s b) \<and> (\<forall>p. dirty_flags s' p = 0)"
proof -
  let ?s1 = "(loaded 1 s)\<lparr>super := cell 1 0\<rparr>"
  have 1: "read_super s = Some ?s1" using assms read_super_ok by (simp add: good_disk_def)
  have g: "grant s (allocs s + k)" if "k < 4" for k using that assms(1) by (simp add: fresh_def)
  have um: "umem ?s1 = umem (loaded 1 s)" by simp
  have "clean 1 ?s1" by (simp add: clean_def um loaded_umem del: fs.simps) (simp add: loaded_def)
  moreover have "bitmap ?s1 = 0" "\<not> mapped ?s1 0" "mapped ?s1 1" "12288 \<le> disk_size ?s1"
    "grant ?s1 (allocs ?s1)" "grant ?s1 (allocs ?s1 + 1)"
    using assms(1) g [of 1] g [of 2] by (simp_all add: fresh_def loaded_def mapped_def)
  ultimately obtain s2 where 2: "check_write_block ?s1 = Some s2" "super s2 = cell 1 0" "bitmap s2 = 0"
    "disk s2 = disk ?s1" "disk_size s2 = disk_size ?s1"
    "\<And>x. \<not> in_region (cell 0 0) 4096 x \<Longrightarrow> umem s2 x = umem ?s1 x"
    "uperm s2 = (uperm ?s1)(0x10000 := 0x43A, 0x10001 := 0x43A)" "grant s2 = grant ?s1" "allocs s2 = allocs ?s1 + 2"
    using check_write_block_ok [of ?s1] by blast
  have d2: "disk s2 = disk s" "disk_size s2 = disk_size s" using 2(4,5) by (simp_all add: loaded_def)
  then have gd: "disk_blocks s2 = disk_blocks s" "disk_free s2 = disk_free s"
    by (simp_all only: disk_blocks_def disk_free_def [abs_def])
  then have gs: "good_disk s2" using assms(2) d2 by (simp add: good_disk_def)
  have "load32 (umem s2) (cell 1 1) = load32 (umem ?s1) (cell 1 1)"
    by (rule load_cell_other [of 0]) (simp_all add: 2(6))
  then have w: "load32 (umem s2) (cell 1 1) = disk_blocks s2"
    using loaded_super [of s] by (simp add: gd(1))
  have "mapped s2 0" "mapped s2 1" "\<not> mapped s2 2" "grant s2 (allocs s2)"
    using assms(1) g [of "Suc (Suc (Suc 0))"] by (simp_all add: mapped_def 2(7,8,9) loaded_def fresh_def)
  from read_bitmap_ok [OF 2(2,3) this w gs] obtain s3 where 3: "read_bitmap s2 = Some s3" "fs_ok s3"
    "nblocks s3 = disk_blocks s2" "free s3 = disk_free s2" "disk s3 = disk s2" by blast
  have "fs_init s = Some (s3\<lparr>dirty_flags := \<lambda>_. 0\<rparr>)" by (simp add: fs_init_def 1 2(1) 3(1))
  then show ?thesis using 3 gd d2 by simp
qed

text \<open>A disk of 8 blocks as the format tool leaves it, and a server that starts on it.\<close>

definition example_boot :: fs where
  "example_boot = \<lparr>umem = \<lambda>_. 0, uperm = \<lambda>_. 0, uref = \<lambda>_. 0, grant = \<lambda>_. True, allocs = 0,
     disk = store32 (store32 (store32 (\<lambda>_. 0) 4096 FS_MAGIC) 4100 8) 8192 0xF8, disk_size = 0x8000,
     super = 0, nbitmap = 0, bitmap = 0, dirty_flags = \<lambda>_. 0\<rparr>"

lemma example_disk:
  "load32 (disk example_boot) 4096 = FS_MAGIC" "load32 (disk example_boot) 4100 = 8"
  "load32 (disk example_boot) 8192 = 0xF8"
  by (simp_all add: example_boot_def load32_store32_same load32_store32_other aligned_def)

lemma example_boot_ok: "fresh example_boot \<and> good_disk example_boot" "disk_blocks example_boot = 8"
  "disk_free example_boot 3"
proof -
  have b: "disk_blocks example_boot = 8" by (simp add: disk_blocks_def example_disk)
  have "disk_free example_boot 3" "\<not> disk_free example_boot 0" "\<not> disk_free example_boot 1" "\<not> disk_free example_boot 2"
    by (simp_all add: disk_free_def b example_disk)
  moreover have "fresh example_boot" by (simp add: fresh_def example_boot_def mapped_def)
  moreover from calculation have "good_disk example_boot"
    by (simp add: good_disk_def b example_disk) (simp add: example_boot_def)
  ultimately show "fresh example_boot \<and> good_disk example_boot" "disk_blocks example_boot = 8"
    "disk_free example_boot 3" using b by simp_all
qed

text \<open>Property C34. \<open>fs_init\<close> comes back on a well-formed disk: the write check passes and leaves
  the disk as it was, the invariant holds, no block is dirty, and the free blocks are those of
  the disk's bitmap. It does not come back on a disk without the magic number or with too many
  blocks.\<close>

theorem fs_init_correct:
  assumes "fresh s"
  shows "(good_disk s \<longrightarrow> (\<exists>s'. fs_init s = Some s' \<and> fs_ok s' \<and> disk s' = disk s \<and>
      nblocks s' = disk_blocks s \<and> (\<forall>b. free s' b \<longleftrightarrow> disk_free s b) \<and> (\<forall>p. dirty_flags s' p = 0))) \<and>
    (load32 (disk s) 4096 \<noteq> FS_MAGIC \<or> 2048 < disk_blocks s \<longrightarrow> fs_init s = None)"
  using fs_init_ok [OF assms] read_super_ok [OF assms] by (auto simp: fs_init_def)

theorem fs_init_correct_witness:
  "(\<exists>s'. fs_init example_boot = Some s' \<and> fs_ok s' \<and> nblocks s' = 8 \<and> free s' 3) \<and>
    fs_init (example_boot\<lparr>disk := \<lambda>_. 0\<rparr>) = None"
proof
  show "\<exists>s'. fs_init example_boot = Some s' \<and> fs_ok s' \<and> nblocks s' = 8 \<and> free s' 3"
    using fs_init_correct [of example_boot] example_boot_ok by auto
  have "fresh (example_boot\<lparr>disk := \<lambda>_. 0\<rparr>)" by (simp add: fresh_def example_boot_def mapped_def)
  then show "fs_init (example_boot\<lparr>disk := \<lambda>_. 0\<rparr>) = None"
    using fs_init_correct [of "example_boot\<lparr>disk := \<lambda>_. 0\<rparr>"] by (simp add: load32_def)
qed

end
