(* ===== verification/Fs_Paths.thy ===== *)
theory Fs_Paths
  imports Fs_Files Fs_Start
begin

section \<open>Paths, file blocks and synchronisation: proofs\<close>

subsection \<open>A path is the list of its names\<close>

text \<open>Cut at every slash; the names are the pieces that are not empty.\<close>

fun cut :: "u8 list \<Rightarrow> u8 list list" where
  "cut [] = [[]]"
| "cut (c # cs) = (if c = 47 then [] # cut cs else (c # hd (cut cs)) # tl (cut cs))"

definition names :: "u8 list \<Rightarrow> u8 list list" where
  "names path = filter (\<lambda>w. w \<noteq> []) (cut path)"

lemma cut_neq_Nil: "cut p \<noteq> []"
  by (cases p) auto

lemma cut_append: "47 \<notin> set w \<Longrightarrow> cut (w @ p) = (w @ hd (cut p)) # tl (cut p)"
  by (induction w) (auto simp: cut_neq_Nil)

lemma names_skip: "names (skip_slash p) = names p"
  by (induction p) (auto simp: skip_slash_def names_def)

lemma skip_slash_Nil: "names p = [] \<longleftrightarrow> skip_slash p = []"
proof (induction p)
  case (Cons c cs)
  then show ?case by (auto simp: names_def skip_slash_def)
qed (simp add: names_def skip_slash_def)

lemma dropWhile_slash: "dropWhile (\<lambda>c. c \<noteq> 47) p = [] \<or> (\<exists>q. dropWhile (\<lambda>c. c \<noteq> 47) p = 47 # q)" for p :: "u8 list"
  by (induction p) auto

lemma names_step:
  assumes "skip_slash p = p" "p \<noteq> []"
  shows "names p = takeWhile (\<lambda>c. c \<noteq> 47) p # names (dropWhile (\<lambda>c. c \<noteq> 47) p)"
proof -
  let ?w = "takeWhile (\<lambda>c. c \<noteq> 47) p" and ?r = "dropWhile (\<lambda>c. c \<noteq> 47) p"
  have "47 \<notin> set ?w" by (metis (mono_tags, lifting) set_takeWhileD)
  then have "cut p = (?w @ hd (cut ?r)) # tl (cut ?r)" using cut_append [of ?w ?r] by simp
  moreover have "hd (cut ?r) = []"
    using dropWhile_slash [of p] by (elim disjE exE) (simp_all only: cut.simps if_True list.sel simp_thms)
  moreover from this have "names ?r = filter (\<lambda>w. w \<noteq> []) (tl (cut ?r))"
    using cut_neq_Nil [of ?r] by (cases "cut ?r") (auto simp: names_def)
  moreover have "?w \<noteq> []"
  proof
    assume "?w = []"
    then have "hd p = 47" using assms(2) by (cases p) (auto split: if_splits)
    then have "skip_slash p \<noteq> p"
      using assms(2) skip_slash_length [of "tl p"] by (cases p) (auto simp: skip_slash_def dest: arg_cong [of _ _ length])
    then show False using assms(1) by simp
  qed
  ultimately show ?thesis by (simp add: names_def)
qed

text \<open>The walk as a search down a list of names.\<close>

fun walk_names :: "u8 list list \<Rightarrow> u32 \<Rightarrow> u32 \<Rightarrow> u8 list \<Rightarrow> fs \<Rightarrow> ((errcode + unit) \<times> walk \<times> fs) option" where
  "walk_names [] dir file elem s = Some (Inr (), \<lparr>pdir = dir, pfile = file, lastelem = elem\<rparr>, s)"
| "walk_names (name # ns) dir file elem s =
     (if MAXNAMELEN \<le> length name
      then Some (Inl E_BAD_PATH, \<lparr>pdir = 0, pfile = 0, lastelem = elem\<rparr>, s)
      else do {
        ty \<leftarrow> rd (f_type file) s;
        if ty \<noteq> FTYPE_DIR
        then Some (Inl E_NOT_FOUND, \<lparr>pdir = 0, pfile = 0, lastelem = elem\<rparr>, s)
        else do {
          (r, s) \<leftarrow> dir_lookup file name s;
          (case r of
             Inl e \<Rightarrow>
               Some (Inl e,
                 (if e = E_NOT_FOUND \<and> ns = [] then \<lparr>pdir = file, pfile = 0, lastelem = name\<rparr>
                  else \<lparr>pdir = 0, pfile = 0, lastelem = elem\<rparr>), s)
           | Inr f \<Rightarrow> walk_names ns file f elem s)
        }
      })"

lemma skip_slash_idem: "skip_slash (skip_slash p) = skip_slash p"
  unfolding skip_slash_def by (metis dropWhile_idem)

lemma walk_loop_names:
  "skip_slash path = path \<Longrightarrow> walk_loop path d f e s = walk_names (names path) d f e s"
proof (induction path arbitrary: d f e s rule: length_induct)
  case (1 path)
  let ?name = "takeWhile (\<lambda>c. c \<noteq> 47) path" and ?rest = "skip_slash (dropWhile (\<lambda>c. c \<noteq> 47) path)"
  show ?case
  proof (cases "path = []")
    case True
    then show ?thesis by (subst walk_loop.simps) (simp add: names_def)
  next
    case False
    have n: "names path = ?name # names ?rest"
      using names_step [OF "1.prems" False] by (simp add: names_skip)
    have IH: "walk_loop ?rest d f e s' = walk_names (names ?rest) d f e s'" for d f e s'
      by (rule "1.IH" [rule_format, OF rest_shorter [OF False] skip_slash_idem])
    have e: "names ?rest = [] \<longleftrightarrow> ?rest = []" by (simp only: skip_slash_Nil skip_slash_idem)
    show ?thesis
      by (subst walk_loop.simps) (simp add: False n IH e Let_def cong: sum.case_cong if_cong)
  qed
qed

text \<open>Property. Walking a path is searching down the list of its names, however many slashes
  separate, precede or follow them.\<close>

theorem walk_path_names:
  "walk_path path s = walk_names (names path) 0 (super s + 8) [] s"
  by (simp add: walk_path_def walk_loop_names skip_slash_idem names_skip)

lemma names_example: "names [47, 97, 47, 47, 98, 99, 47] = [[97], [98, 99]]"
  by (simp add: names_def)

subsection \<open>Synchronisation\<close>

abbreviation (input) page_of :: "fs \<Rightarrow> u32 \<Rightarrow> u8 list" where
  "page_of s b \<equiv> get_bytes (umem s) (cell b 0) 4096"

abbreviation (input) block_of :: "fs \<Rightarrow> u32 \<Rightarrow> u8 list" where
  "block_of s b \<equiv> get_bytes (disk s) (4096 * b) 4096"

definition dirty :: "fs \<Rightarrow> u32 \<Rightarrow> bool" where
  "dirty s b \<longleftrightarrow> mapped s b \<and> dirty_flags s (0x10000 + b) \<noteq> 0"

lemma disk_region:
  assumes "b < 2048" "c < 2048" "k < 4096"
  shows "in_region (4096 * b) 4096 (4096 * c + of_nat k :: u32) \<longleftrightarrow> b = c"
proof -
  have b: "unat b < 2048" "unat c < 2048" using assms by (simp_all add: word_less_nat_alt)
  have u: "unat (4096 * b) = 4096 * unat b" "unat (4096 * c + of_nat k) = 4096 * unat c + k"
    using b assms(3) by (simp_all add: unat_word_ariths unat_of_nat_u32)
  have "in_region (4096 * b) 4096 (4096 * c + of_nat k :: u32) \<longleftrightarrow>
      4096 * unat b \<le> 4096 * unat c + k \<and> 4096 * unat c + k < 4096 * unat b + 4096"
    by (subst in_region_unat) (use b in \<open>simp_all add: u\<close>)
  also have "\<dots> \<longleftrightarrow> unat b = unat c"
    using assms(3) by (cases "unat b" "unat c" rule: linorder_cases) linarith+
  finally show ?thesis by (simp add: word_unat_eq_iff)
qed

lemma block_of_flushed:
  assumes "b < 2048" "c < 2048"
  shows "block_of (flushed b s) c = (if b = c then page_of s b else block_of s c)"
  unfolding get_bytes_def flushed_disk
  by (cases "b = c") (simp_all add: disk_region [OF assms] disk_region [OF assms(2,2)])

lemma dirty_flushed: "b < 2048 \<Longrightarrow> c < 2048 \<Longrightarrow> dirty (flushed b s) c \<longleftrightarrow> dirty s c \<and> c \<noteq> b"
  by (auto simp: dirty_def) (simp_all add: flushed_def split: if_splits)

lemma sync_step:
  assumes "fs_ok s" "b < nblocks s"
  shows "do { d \<leftarrow> block_is_dirty b s; if d then write_block b s else Some s } =
    Some (if dirty s b then flushed b s else s)"
  using assms by (simp add: block_is_dirty_ok write_block_ok dirty_def)

lemma umem_flushed [simp]: "umem (flushed b s) = umem s"
  by (simp add: flushed_def)

lemma sync_loop:
  assumes ok: "fs_ok s"
  shows "k \<le> unat (nblocks s) \<Longrightarrow>
    \<exists>s'. foldM (\<lambda>i s. do { d \<leftarrow> block_is_dirty (of_nat i) s; if d then write_block (of_nat i) s else Some s }) [0..<k] s = Some s'
      \<and> umem s' = umem s \<and> fs_ok s' \<and> mapped s' = mapped s
      \<and> (\<forall>b<2048. dirty s' b \<longleftrightarrow> dirty s b \<and> k \<le> unat b)
      \<and> (\<forall>b<2048. block_of s' b = (if dirty s b \<and> unat b < k then page_of s b else block_of s b))"
proof (induction k)
  case 0
  then show ?case using ok by simp
next
  case (Suc k)
  then obtain s1 where s1: "foldM (\<lambda>i s. do { d \<leftarrow> block_is_dirty (of_nat i) s; if d then write_block (of_nat i) s else Some s }) [0..<k] s = Some s1"
    "umem s1 = umem s" "fs_ok s1" "mapped s1 = mapped s"
    "\<And>b. b < 2048 \<Longrightarrow> dirty s1 b \<longleftrightarrow> dirty s b \<and> k \<le> unat b"
    "\<And>b. b < 2048 \<Longrightarrow> block_of s1 b = (if dirty s b \<and> unat b < k then page_of s b else block_of s b)"
    by auto
  define b where "b = (of_nat k :: u32)"
  have u: "unat b = k" using Suc.prems unat_u32 [of "nblocks s"] by (simp add: b_def unat_of_nat_u32)
  have n: "nblocks s1 = nblocks s" using s1(2) by (simp add: nblocks_def)
  have bn: "b < nblocks s1" using Suc.prems u n by (simp add: word_less_nat_alt)
  have b: "b < 2048" by (rule nblocks_le [OF s1(3) bn])
  let ?s2 = "if dirty s1 b then flushed b s1 else s1"
  have "foldM (\<lambda>i s. do { d \<leftarrow> block_is_dirty (of_nat i) s; if d then write_block (of_nat i) s else Some s }) [0..<Suc k] s = Some ?s2"
    using sync_step [OF s1(3) bn] by (simp only: upt_Suc le0 if_True foldM_snoc s1(1) Option.bind.simps b_def)
  moreover have "umem ?s2 = umem s" "fs_ok ?s2" "mapped ?s2 = mapped s" using s1 by simp_all
  moreover have "dirty ?s2 c \<longleftrightarrow> dirty s c \<and> Suc k \<le> unat c" if "c < 2048" for c
  proof (cases "b = c")
    case True
    then have "unat c = k" using u by simp
    then show ?thesis using s1(5) [OF b] dirty_flushed [OF b b, of s1] by (simp add: True [symmetric])
  next
    case False
    then have "Suc k \<le> unat c \<longleftrightarrow> k \<le> unat c" using u by (auto simp: Suc_le_eq le_less word_unat_eq_iff)
    then show ?thesis using s1(5) [OF that] dirty_flushed [OF b that, of s1] False by simp
  qed
  moreover have "block_of ?s2 c = (if dirty s c \<and> unat c < Suc k then page_of s c else block_of s c)" if "c < 2048" for c
  proof (cases "b = c")
    case True
    show ?thesis
      using s1(5) [OF b] s1(6) [OF b] block_of_flushed [OF b b, of s1] u
      unfolding True [symmetric] s1(2) by simp
  next
    case False
    then have "unat c < Suc k \<longleftrightarrow> unat c < k" using u by (auto simp: less_Suc_eq word_unat_eq_iff)
    then show ?thesis using s1(6) [OF that] block_of_flushed [OF b that, of s1] False by simp
  qed
  ultimately show ?case by blast
qed

lemma fs_sync_total: "fs_ok s \<Longrightarrow> \<exists>s'. fs_sync s = Some s'"
  using sync_loop [of s, OF _ order.refl] by (auto simp: fs_sync_def super_nblocks)

text \<open>Property C37. After \<open>fs_sync\<close> no block is dirty, every block that was dirty is on the disk as
  it is in memory, and the other blocks of the disk and the memory are as before.\<close>

theorem fs_sync_correct:
  assumes "fs_ok s"
  shows "\<exists>s'. fs_sync s = Some s' \<and> fs_ok s' \<and> umem s' = umem s \<and> (\<forall>b<nblocks s. \<not> dirty s' b) \<and>
    (\<forall>b<nblocks s. get_bytes (disk s') (4096 * b) 4096 =
      (if dirty s b then get_bytes (umem s) (cell b 0) 4096 else get_bytes (disk s) (4096 * b) 4096))"
proof -
  obtain s' where s': "fs_sync s = Some s'" "umem s' = umem s" "fs_ok s'"
    "\<And>b. b < 2048 \<Longrightarrow> dirty s' b \<longleftrightarrow> dirty s b \<and> unat (nblocks s) \<le> unat b"
    "\<And>b. b < 2048 \<Longrightarrow> block_of s' b = (if dirty s b \<and> unat b < unat (nblocks s) then page_of s b else block_of s b)"
    using sync_loop [OF assms order.refl] by (auto simp: fs_sync_def super_nblocks [OF assms])
  have "\<not> dirty s' b" "block_of s' b = (if dirty s b then page_of s b else block_of s b)" if "b < nblocks s" for b
    using s'(4,5) [OF nblocks_le [OF assms that]] that by (simp_all add: word_less_nat_alt)
  then show ?thesis using s'(1,2,3) by blast
qed

theorem fs_sync_correct_witness:
  "\<exists>s'. fs_sync (example_fs\<lparr>dirty_flags := \<lambda>_. 1\<rparr>) = Some s' \<and> \<not> dirty s' 2 \<and>
    get_bytes (disk s') 8192 4096 = get_bytes (umem example_fs) (cell 2 0) 4096"
proof -
  let ?s = "example_fs\<lparr>dirty_flags := \<lambda>_. 1\<rparr>"
  have "fs_ok ?s" using example_ok by simp
  moreover have "2 < nblocks ?s" by (simp add: nblocks_def example_cells)
  moreover have "dirty ?s 2" by (simp add: dirty_def) (simp add: mapped_def example_fs_def)
  ultimately show ?thesis using fs_sync_correct [of ?s] by fastforce
qed

end
