(* ===== verification/Fd.thy ===== *)
theory Fd
  imports Client
begin

section \<open>File descriptors and devices (\<open>user/fd.c\<close>, \<open>file.c\<close>, \<open>console.c\<close>, \<open>pipe.c\<close>)\<close>

text \<open>
  A descriptor is a page at \<open>FDTABLE + i * BY2PG\<close>, its data begin at \<open>FILEBASE + i * PDMAP\<close>;
  a \<open>struct Fd *\<close> is the address of its page. Function pointers of \<open>struct Dev\<close> are a case
  distinction on the device. The bodies of \<open>piperead\<close>, \<open>pipewrite\<close> and \<open>_pipeisclosed\<close> are
  empty in the sources, so reading a pipe and asking whether it is closed have no value
  (\<open>None\<close>). Debug output of \<open>printf\<close> is left out except where it is the purpose of a call.
\<close>

subsection \<open>The table of descriptors\<close>

abbreviation (input) MAXFD :: nat where "MAXFD \<equiv> 32"
abbreviation (input) FILEBASE :: u32 where "FILEBASE \<equiv> 0x60000000"
abbreviation (input) FDTABLE :: u32 where "FDTABLE \<equiv> FILEBASE - PDMAP"
abbreviation (input) MAXFILESIZE :: u32 where "MAXFILESIZE \<equiv> NINDIRECT * BY2BLK"
abbreviation (input) O_WRONLY :: u32 where "O_WRONLY \<equiv> 1"
abbreviation (input) O_RDWR :: u32 where "O_RDWR \<equiv> 2"
abbreviation (input) O_ACCMODE :: u32 where "O_ACCMODE \<equiv> 3"

definition INDEX2FD :: "u32 \<Rightarrow> u32" where
  "INDEX2FD i = FDTABLE + i * BY2PG"

definition INDEX2DATA :: "u32 \<Rightarrow> u32" where
  "INDEX2DATA i = FILEBASE + i * PDMAP"

text \<open>The fields of \<open>struct Fd\<close> and \<open>struct Filefd\<close>.\<close>

abbreviation (input) fd_dev_id :: "u32 \<Rightarrow> u32" where "fd_dev_id fd \<equiv> fd"
abbreviation (input) fd_offset :: "u32 \<Rightarrow> u32" where "fd_offset fd \<equiv> fd + 4"
abbreviation (input) fd_omode :: "u32 \<Rightarrow> u32" where "fd_omode fd \<equiv> fd + 8"
abbreviation (input) f_fileid :: "u32 \<Rightarrow> u32" where "f_fileid fd \<equiv> fd + 12"
abbreviation (input) f_file :: "u32 \<Rightarrow> u32" where "f_file fd \<equiv> fd + 16"

datatype dev = devfile | devcons | devpipe

fun dev_id :: "dev \<Rightarrow> u32" where
  "dev_id devfile = 102"
| "dev_id devcons = 99"
| "dev_id devpipe = 112"

definition dev_lookup :: "u32 \<Rightarrow> errcode + dev" where
  "dev_lookup i = (case find (\<lambda>d. dev_id d = i) [devfile, devcons, devpipe] of
     Some d \<Rightarrow> Inr d | None \<Rightarrow> Inl E_INVAL)"

definition fd_alloc :: "proc \<Rightarrow> errcode + u32" where
  "fd_alloc s = (case find (\<lambda>i. user_va_perm (INDEX2FD (of_nat i)) s = 0) [0..<MAXFD - 1] of
     Some i \<Rightarrow> Inr (INDEX2FD (of_nat i)) | None \<Rightarrow> Inl E_MAX_OPEN)"

definition fd_close :: "u32 \<Rightarrow> proc \<Rightarrow> proc" where
  "fd_close fd s = snd (user_mem_unmap fd s)"

text \<open>The comparison with \<open>MAXFD\<close> is one of signed integers.\<close>

definition fd_lookup :: "u32 \<Rightarrow> proc \<Rightarrow> errcode + u32" where
  "fd_lookup fdnum s =
     (if int MAXFD \<le> sint fdnum then Inl E_INVAL
      else if user_va_perm (INDEX2FD fdnum) s AND PTE_V \<noteq> 0 then Inr (INDEX2FD fdnum)
      else Inl E_INVAL)"

definition fd2num :: "u32 \<Rightarrow> u32" where
  "fd2num fd = (fd - FDTABLE) div BY2PG"

definition fd2data :: "u32 \<Rightarrow> u32" where
  "fd2data fd = INDEX2DATA (fd2num fd)"

definition num2fd :: "u32 \<Rightarrow> u32" where
  "num2fd fd = fd * BY2PG + FDTABLE"

text \<open>Go on with a value, or return the error.\<close>

definition or_return :: "errcode + 'a \<Rightarrow> proc \<Rightarrow> ('a \<Rightarrow> u32 call) \<Rightarrow> u32 call" where
  "or_return r s k = (case r of Inl e \<Rightarrow> Some (err e, s) | Inr x \<Rightarrow> k x)"

text \<open>\<open>for (i = a; i < n; i += BY2PG)\<close> with unsigned \<open>i\<close>, left at the first negative result.\<close>

partial_function (option) page_loop :: "(u32 \<Rightarrow> proc \<Rightarrow> u32 call) \<Rightarrow> u32 \<Rightarrow> u32 \<Rightarrow> proc \<Rightarrow> u32 call" where
  "page_loop f i n s =
     (if i < n
      then do { (r, s) \<leftarrow> f i s; if neg r then Some (r, s) else page_loop f (i + BY2PG) n s }
      else Some (0, s))"

subsection \<open>The file device (\<open>file.c\<close>)\<close>

definition ftruncate :: "u32 \<Rightarrow> u32 \<Rightarrow> proc \<Rightarrow> u32 call" where
  "ftruncate fdnum sz s =
     (if MAXFILESIZE < sz then Some (err E_NO_DISK, s)
      else or_return (fd_lookup fdnum s) s (\<lambda>fd. do {
        id \<leftarrow> ld32 (fd_dev_id fd) s;
        if id \<noteq> dev_id devfile then Some (err E_INVAL, s)
        else do {
          fileid \<leftarrow> ld32 (f_fileid fd) s;
          oldsize \<leftarrow> ld32 (f_size (f_file fd)) s;
          s \<leftarrow> st32 (f_size (f_file fd)) sz s;
          (r, s) \<leftarrow> fsipc_set_size fileid sz s;
          if neg r then Some (r, s)
          else do {
            let va = fd2data fd;
            (r, s) \<leftarrow> page_loop (\<lambda>i. fsipc_map fileid i (va + i)) (ROUND oldsize BY2PG) (ROUND sz BY2PG) s;
            if neg r then do { (_, s) \<leftarrow> fsipc_set_size fileid oldsize s; Some (r, s) }
            else do {
              (r, s) \<leftarrow> page_loop (\<lambda>i s. Some (user_mem_unmap (va + i) s)) (ROUND sz BY2PG) (ROUND oldsize BY2PG) s;
              if neg r then None else Some (0, s)
            }
          }
        }
      }))"

definition file_close :: "u32 \<Rightarrow> proc \<Rightarrow> u32 call" where
  "file_close fd s = do {
     fileid \<leftarrow> ld32 (f_fileid fd) s;
     sz \<leftarrow> ld32 (f_size (f_file fd)) s;
     let va = fd2data fd;
     (_, s) \<leftarrow> page_loop (\<lambda>i s. do { (_, s) \<leftarrow> fsipc_dirty fileid i s; Some (0, s) }) 0 sz s;
     (r, s) \<leftarrow> fsipc_close fileid s;
     if neg r then Some (r, s)
     else page_loop (\<lambda>i s. Some (user_mem_unmap (va + i) s)) 0 sz s
   }"

definition file_read :: "u32 \<Rightarrow> u32 \<Rightarrow> u32 \<Rightarrow> u32 \<Rightarrow> proc \<Rightarrow> u32 call" where
  "file_read fd buf n offset s = do {
     sz \<leftarrow> ld32 (f_size (f_file fd)) s;
     if sz < offset then Some (0, s)
     else do {
       let n = (if sz < offset + n then sz - offset else n);
       s \<leftarrow> copy_user (fd2data fd + offset) buf (unat n) s;
       Some (n, s)
     }
   }"

definition read_map :: "u32 \<Rightarrow> u32 \<Rightarrow> proc \<Rightarrow> (errcode + u32) option" where
  "read_map fdnum offset s = (case fd_lookup fdnum s of
     Inl e \<Rightarrow> Some (Inl e)
   | Inr fd \<Rightarrow> do {
       id \<leftarrow> ld32 (fd_dev_id fd) s;
       Some (if id \<noteq> dev_id devfile then Inl E_INVAL
             else if MAXFILESIZE \<le> offset then Inl E_NO_DISK
             else if sint (user_va_perm (fd2data fd + offset) s) \<le> 0 then Inl E_NO_DISK
             else Inr (fd2data fd + offset))
     })"

definition file_write :: "u32 \<Rightarrow> u32 \<Rightarrow> u32 \<Rightarrow> u32 \<Rightarrow> proc \<Rightarrow> u32 call" where
  "file_write fd buf n offset s =
     (let tot = offset + n in
      if MAXFILESIZE < tot then Some (err E_NO_DISK, s)
      else do {
        sz \<leftarrow> ld32 (f_size (f_file fd)) s;
        (r, s) \<leftarrow> (if sz < tot then ftruncate (fd2num fd) tot s else Some (0, s));
        if neg r then Some (r, s)
        else do { s \<leftarrow> copy_user buf (fd2data fd + offset) (unat n) s; Some (n, s) }
      })"

text \<open>\<open>strcpy\<close> from the page of the descriptor: the bytes up to the NUL.\<close>

partial_function (option) read_str :: "u32 \<Rightarrow> proc \<Rightarrow> u8 list option" where
  "read_str a s = do { c \<leftarrow> ld8 a s; if c = 0 then Some [] else do { cs \<leftarrow> read_str (a + 1) s; Some (c # cs) } }"

abbreviation (input) st_size :: "u32 \<Rightarrow> u32" where "st_size st \<equiv> st + 128"
abbreviation (input) st_isdir :: "u32 \<Rightarrow> u32" where "st_isdir st \<equiv> st + 132"
abbreviation (input) st_dev :: "u32 \<Rightarrow> u32" where "st_dev st \<equiv> st + 136"

definition file_stat :: "u32 \<Rightarrow> u32 \<Rightarrow> proc \<Rightarrow> u32 call" where
  "file_stat fd st s = do {
     name \<leftarrow> read_str (f_file fd) s;
     s \<leftarrow> strcpy_user st name s;
     sz \<leftarrow> ld32 (f_size (f_file fd)) s;
     s \<leftarrow> st32 (st_size st) sz s;
     ty \<leftarrow> ld32 (f_type (f_file fd)) s;
     s \<leftarrow> st32 (st_isdir st) (if ty = FTYPE_DIR then 1 else 0) s;
     Some (0, s)
   }"

definition open_path :: "u8 list \<Rightarrow> u32 \<Rightarrow> proc \<Rightarrow> u32 call" where
  "open_path path mode s = or_return (fd_alloc s) s (\<lambda>fd. do {
     (r, s) \<leftarrow> fsipc_open path mode fd s;
     if neg r then Some (r, fd_close fd s)
     else do {
       let va = fd2data fd;
       sz \<leftarrow> ld32 (f_size (f_file fd)) s;
       fileid \<leftarrow> ld32 (f_fileid fd) s;
       (r, s) \<leftarrow> page_loop (\<lambda>i. fsipc_map fileid i (va + i)) 0 sz s;
       if neg r then Some (r, s) else Some (fd2num fd, s)
     }
   })"

definition remove_path :: "u8 list \<Rightarrow> proc \<Rightarrow> u32 call" where
  "remove_path path s = fsipc_remove path s"

definition sync_files :: "proc \<Rightarrow> u32 call" where
  "sync_files s = fsipc_sync s"

subsection \<open>The console device (\<open>console.c\<close>)\<close>

text \<open>What \<open>printf\<close> sends; what the formatter's local array held before does not matter.\<close>

definition say :: "u8 list \<Rightarrow> va list \<Rightarrow> proc \<Rightarrow> proc option" where
  "say fmt ap s = do { out \<leftarrow> printf (replicate LP_MAX_BUF 0) fmt ap (cout s); Some (s\<lparr>cout := out\<rparr>) }"

definition cons_read :: "u32 \<Rightarrow> u32 \<Rightarrow> proc \<Rightarrow> u32 call" where
  "cons_read vbuf n s =
     (if n = 0 then Some (0, s)
      else (case dropWhile (\<lambda>c. c = 0) (cin s) of
          [] \<Rightarrow> None
        | c # cs \<Rightarrow> do {
            s \<leftarrow> (if c \<noteq> 13 then say [37, 99] [Num (ucast c)] (s\<lparr>cin := cs\<rparr>) else say [10] [] (s\<lparr>cin := cs\<rparr>));
            if c = 4 then Some (0, s)
            else do { s \<leftarrow> st8 vbuf c s; Some (1, s) }
          }))"

partial_function (option) cons_loop :: "u32 \<Rightarrow> u32 \<Rightarrow> u32 \<Rightarrow> proc \<Rightarrow> u32 call" where
  "cons_loop vbuf n tot s =
     (if tot < n
      then do {
        let m = (if 127 < n - tot then 127 else n - tot);
        chunk \<leftarrow> get_user (vbuf + tot) (unat m) s;
        s \<leftarrow> say [37, 115] [Str (takeWhile (\<lambda>c. c \<noteq> 0) chunk)] s;
        cons_loop vbuf n (tot + m) s
      }
      else Some (tot, s))"

definition cons_write :: "u32 \<Rightarrow> u32 \<Rightarrow> proc \<Rightarrow> u32 call" where
  "cons_write vbuf n s = cons_loop vbuf n 0 s"

definition cons_stat :: "u32 \<Rightarrow> proc \<Rightarrow> u32 call" where
  "cons_stat st s = do { s \<leftarrow> strcpy_user st [60, 99, 111, 110, 115, 62] s; Some (0, s) }"

definition opencons :: "proc \<Rightarrow> u32 call" where
  "opencons s = or_return (fd_alloc s) s (\<lambda>fd.
     (case user_mem_alloc fd (PTE_V OR PTE_R OR PTE_LIBRARY) s of
        (r, s) \<Rightarrow>
          if neg r then Some (r, s)
          else do {
            s \<leftarrow> st32 (fd_dev_id fd) (dev_id devcons) s;
            s \<leftarrow> st32 (fd_omode fd) O_RDWR s;
            Some (fd2num fd, s)
          }))"

definition iscons :: "u32 \<Rightarrow> proc \<Rightarrow> u32 call" where
  "iscons fdnum s = or_return (fd_lookup fdnum s) s (\<lambda>fd. do {
     id \<leftarrow> ld32 (fd_dev_id fd) s;
     Some (if id = dev_id devcons then 1 else 0, s)
   })"

subsection \<open>The pipe device (\<open>pipe.c\<close>)\<close>

text \<open>The labels of \<open>pipe\<close>: what is given back before the error is returned.\<close>

definition undo :: "u32 list \<Rightarrow> u32 \<Rightarrow> proc \<Rightarrow> u32 call" where
  "undo vas r s = Some (r, fold (\<lambda>va s. snd (user_mem_unmap va s)) vas s)"

definition pipe :: "u32 \<Rightarrow> proc \<Rightarrow> u32 call" where
  "pipe pfd s = or_return (fd_alloc s) s (\<lambda>fd0.
     (case user_mem_alloc fd0 (PTE_V OR PTE_R OR PTE_LIBRARY) s of (r, s) \<Rightarrow>
      if neg r then undo [] r s
      else (case fd_alloc s of
          Inl e \<Rightarrow> undo [fd0] (err e) s
        | Inr fd1 \<Rightarrow>
        (case user_mem_alloc fd1 (PTE_V OR PTE_R OR PTE_LIBRARY) s of (r, s) \<Rightarrow>
         if neg r then undo [fd0] r s
         else let va = fd2data fd0 in
        (case user_mem_alloc va (PTE_V OR PTE_R OR PTE_LIBRARY) s of (r, s) \<Rightarrow>
         if neg r then undo [fd1, fd0] r s
         else
        (case user_mem_map va (fd2data fd1) (PTE_V OR PTE_R OR PTE_LIBRARY) s of (r, s) \<Rightarrow>
         if neg r then undo [va, fd1, fd0] r s
         else do {
           s \<leftarrow> st32 (fd_dev_id fd0) (dev_id devpipe) s;
           s \<leftarrow> st32 (fd_omode fd0) 0 s;
           s \<leftarrow> st32 (fd_dev_id fd1) (dev_id devpipe) s;
           s \<leftarrow> st32 (fd_omode fd1) O_WRONLY s;
           s \<leftarrow> st32 pfd (fd2num fd0) s;
           s \<leftarrow> st32 (pfd + 4) (fd2num fd1) s;
           Some (0, s)
         }))))))"

definition pipestat :: "u32 \<Rightarrow> u32 \<Rightarrow> proc \<Rightarrow> u32 call" where
  "pipestat fd st s = do {
     let p = fd2data fd;
     s \<leftarrow> strcpy_user st [60, 112, 105, 112, 101, 62] s;
     rpos \<leftarrow> ld32 p s;
     wpos \<leftarrow> ld32 (p + 4) s;
     s \<leftarrow> st32 (st_size st) (wpos - rpos) s;
     s \<leftarrow> st32 (st_isdir st) 0 s;
     s \<leftarrow> st32 (st_dev st) (dev_addr s (dev_id devpipe)) s;
     Some (0, s)
   }"

definition pipeclose :: "u32 \<Rightarrow> proc \<Rightarrow> u32 call" where
  "pipeclose fd s = Some (0, snd (user_mem_unmap (fd2data fd) s))"

subsection \<open>Operations on descriptors (\<open>fd.c\<close>)\<close>

fun dev_read :: "dev \<Rightarrow> u32 \<Rightarrow> u32 \<Rightarrow> u32 \<Rightarrow> u32 \<Rightarrow> proc \<Rightarrow> u32 call" where
  "dev_read devfile fd buf n offset s = file_read fd buf n offset s"
| "dev_read devcons fd buf n offset s = cons_read buf n s"
| "dev_read devpipe fd buf n offset s = None"

fun dev_write :: "dev \<Rightarrow> u32 \<Rightarrow> u32 \<Rightarrow> u32 \<Rightarrow> u32 \<Rightarrow> proc \<Rightarrow> u32 call" where
  "dev_write devfile fd buf n offset s = file_write fd buf n offset s"
| "dev_write devcons fd buf n offset s = cons_write buf n s"
| "dev_write devpipe fd buf n offset s = Some (n, s)"

fun dev_close :: "dev \<Rightarrow> u32 \<Rightarrow> proc \<Rightarrow> u32 call" where
  "dev_close devfile fd s = file_close fd s"
| "dev_close devcons fd s = Some (0, s)"
| "dev_close devpipe fd s = pipeclose fd s"

fun dev_stat :: "dev \<Rightarrow> u32 \<Rightarrow> u32 \<Rightarrow> proc \<Rightarrow> u32 call" where
  "dev_stat devfile fd st s = file_stat fd st s"
| "dev_stat devcons fd st s = cons_stat st s"
| "dev_stat devpipe fd st s = pipestat fd st s"

text \<open>The first lines of most functions: the descriptor and its device.\<close>

definition with_dev :: "u32 \<Rightarrow> proc \<Rightarrow> (u32 \<Rightarrow> dev \<Rightarrow> u32 call) \<Rightarrow> u32 call" where
  "with_dev fdnum s k = or_return (fd_lookup fdnum s) s (\<lambda>fd. do {
     id \<leftarrow> ld32 (fd_dev_id fd) s;
     or_return (dev_lookup id) s (k fd)
   })"

definition close :: "u32 \<Rightarrow> proc \<Rightarrow> u32 call" where
  "close fdnum s = with_dev fdnum s (\<lambda>fd dev. do {
     (r, s) \<leftarrow> dev_close dev fd s;
     Some (r, fd_close fd s)
   })"

definition close_all :: "proc \<Rightarrow> proc option" where
  "close_all s = foldM (\<lambda>i s. map_option snd (close (of_nat i) s)) [0..<MAXFD] s"

definition dup_page :: "u32 \<Rightarrow> u32 \<Rightarrow> u32 \<Rightarrow> proc \<Rightarrow> u32 call" where
  "dup_page ova nva i s =
     (let perm = user_va_perm (ova + i) s in
      if neg perm then Some (perm, s)
      else if perm \<noteq> 0 \<and> perm AND PTE_V = PTE_V then Some (user_mem_map (ova + i) (nva + i) perm s)
      else Some (0, s))"

definition dup :: "u32 \<Rightarrow> u32 \<Rightarrow> proc \<Rightarrow> u32 call" where
  "dup oldfdnum newfdnum s = or_return (fd_lookup oldfdnum s) s (\<lambda>oldfd. do {
     (_, s) \<leftarrow> close newfdnum s;
     let newfd = INDEX2FD newfdnum;
     let ova = fd2data oldfd;
     let nva = fd2data newfd;
     (r, s) \<leftarrow> page_loop (dup_page ova nva) 0 PDMAP s;
     let (r, s) = (if neg r then (r, s) else user_mem_map oldfd newfd (user_va_perm oldfd s) s);
     if neg r
     then page_loop (\<lambda>i s. Some (0, snd (user_mem_unmap (nva + i) s))) 0 PDMAP (snd (user_mem_unmap newfd s))
       \<bind> (\<lambda>(_, s). Some (r, s))
     else Some (newfdnum, s)
   })"

definition read :: "u32 \<Rightarrow> u32 \<Rightarrow> u32 \<Rightarrow> proc \<Rightarrow> u32 call" where
  "read fdnum buf n s = with_dev fdnum s (\<lambda>fd dev. do {
     mode \<leftarrow> ld32 (fd_omode fd) s;
     if mode AND O_ACCMODE = O_WRONLY then Some (err E_INVAL, s)
     else do {
       off \<leftarrow> ld32 (fd_offset fd) s;
       (r, s) \<leftarrow> dev_read dev fd buf n off s;
       if neg r then Some (r, s)
       else do {
         off \<leftarrow> ld32 (fd_offset fd) s;
         s \<leftarrow> st32 (fd_offset fd) (off + r) s;
         s \<leftarrow> st8 (buf + r) 0 s;
         Some (r, s)
       }
     }
   })"

partial_function (option) readn_loop :: "u32 \<Rightarrow> u32 \<Rightarrow> u32 \<Rightarrow> u32 \<Rightarrow> proc \<Rightarrow> u32 call" where
  "readn_loop fdnum buf n tot s =
     (if tot < n
      then do {
        (m, s) \<leftarrow> read fdnum (buf + tot) (n - tot) s;
        if neg m then Some (m, s)
        else if m = 0 then Some (tot, s)
        else readn_loop fdnum buf n (tot + m) s
      }
      else Some (tot, s))"

definition readn :: "u32 \<Rightarrow> u32 \<Rightarrow> u32 \<Rightarrow> proc \<Rightarrow> u32 call" where
  "readn fdnum buf n s = readn_loop fdnum buf n 0 s"

definition write_fd :: "u32 \<Rightarrow> u32 \<Rightarrow> u32 \<Rightarrow> proc \<Rightarrow> u32 call" where
  "write_fd fdnum buf n s = with_dev fdnum s (\<lambda>fd dev. do {
     mode \<leftarrow> ld32 (fd_omode fd) s;
     if mode AND O_ACCMODE = 0 then Some (err E_INVAL, s)
     else do {
       off \<leftarrow> ld32 (fd_offset fd) s;
       (r, s) \<leftarrow> dev_write dev fd buf n off s;
       if 0 < sint r
       then do { off \<leftarrow> ld32 (fd_offset fd) s; s \<leftarrow> st32 (fd_offset fd) (off + r) s; Some (r, s) }
       else Some (r, s)
     }
   })"

definition seek :: "u32 \<Rightarrow> u32 \<Rightarrow> proc \<Rightarrow> u32 call" where
  "seek fdnum offset s = or_return (fd_lookup fdnum s) s (\<lambda>fd. do {
     s \<leftarrow> st32 (fd_offset fd) offset s;
     Some (0, s)
   })"

definition fstat :: "u32 \<Rightarrow> u32 \<Rightarrow> proc \<Rightarrow> u32 call" where
  "fstat fdnum st s = with_dev fdnum s (\<lambda>fd dev. do {
     s \<leftarrow> st8 st 0 s;
     s \<leftarrow> st32 (st_size st) 0 s;
     s \<leftarrow> st32 (st_isdir st) 0 s;
     s \<leftarrow> st32 (st_dev st) (dev_addr s (dev_id dev)) s;
     dev_stat dev fd st s
   })"

definition stat :: "u8 list \<Rightarrow> u32 \<Rightarrow> proc \<Rightarrow> u32 call" where
  "stat path st s = do {
     (fd, s) \<leftarrow> open_path path 0 s;
     if neg fd then Some (fd, s)
     else do {
       (r, s) \<leftarrow> fstat fd st s;
       (_, s) \<leftarrow> close fd s;
       Some (r, s)
     }
   }"

end
