(* ===== verification/User_Mem.thy ===== *)
theory User_Mem
  imports Client
begin

section \<open>The memory of a process: proofs\<close>

text \<open>
  A byte of a process lives at a location: an offset in a frame of its own, or an address of the
  file server. The laws of loads and stores are those of any store whose addresses are mapped to
  locations (\<open>byte_store\<close>), and copying (\<open>byte_copy\<close>) is proved over these laws only.
\<close>

subsection \<open>Stores with aliases\<close>

locale byte_store =
  fixes ld :: "u32 \<Rightarrow> 's \<Rightarrow> u8 option" and st :: "u32 \<Rightarrow> u8 \<Rightarrow> 's \<Rightarrow> 's option"
    and loc :: "u32 \<Rightarrow> 's \<Rightarrow> 'l option" and wr :: "u32 \<Rightarrow> 's \<Rightarrow> bool"
  assumes ld_loc: "ld a s = None \<longleftrightarrow> loc a s = None"
    and ld_alias: "loc a s = loc b s \<Longrightarrow> ld a s = ld b s"
    and wr_loc: "wr a s \<Longrightarrow> loc a s \<noteq> None"
    and st_wr: "st a v s = None \<longleftrightarrow> \<not> wr a s"
    and st_ld: "st a v s = Some s' \<Longrightarrow> ld b s' = (if loc b s = loc a s then Some v else ld b s)"
    and st_loc: "st a v s = Some s' \<Longrightarrow> loc b s' = loc b s"
    and st_st: "st a v s = Some s' \<Longrightarrow> wr b s' = wr b s"
begin

text \<open>\<open>t\<close> has the mappings of \<open>s\<close> and differs from it at the locations of \<open>A\<close> only.\<close>

definition same_but :: "u32 set \<Rightarrow> 's \<Rightarrow> 's \<Rightarrow> bool" where
  "same_but A s t \<longleftrightarrow> (\<forall>b. loc b t = loc b s) \<and> (\<forall>b. wr b t = wr b s) \<and>
     (\<forall>b. (\<forall>a\<in>A. loc b s \<noteq> loc a s) \<longrightarrow> ld b t = ld b s)"

lemma same_but_refl: "same_but A s s"
  by (simp add: same_but_def)

lemma same_but_trans: "same_but A s t \<Longrightarrow> same_but B t u \<Longrightarrow> same_but (A \<union> B) s u"
  by (simp add: same_but_def)

lemma same_but_mono: "same_but A s t \<Longrightarrow> A \<subseteq> B \<Longrightarrow> same_but B s t"
  unfolding same_but_def by blast

lemma same_but_loc: "same_but A s t \<Longrightarrow> loc b t = loc b s"
  by (simp add: same_but_def)

lemma same_but_wr: "same_but A s t \<Longrightarrow> wr b t = wr b s"
  by (simp add: same_but_def)

lemma same_but_ld: "same_but A s t \<Longrightarrow> (\<And>a. a \<in> A \<Longrightarrow> loc b s \<noteq> loc a s) \<Longrightarrow> ld b t = ld b s"
  by (simp add: same_but_def)

lemma st_ok:
  assumes "wr a s"
  obtains t where "st a v s = Some t" "ld a t = Some v" "same_but {a} s t"
proof -
  obtain t where t: "st a v s = Some t" using assms st_wr [of a v s] by auto
  have "same_but {a} s t" unfolding same_but_def using st_loc [OF t] st_st [OF t] st_ld [OF t] by simp
  moreover have "ld a t = Some v" using st_ld [OF t] by simp
  ultimately show ?thesis using t that by blast
qed

end

locale byte_copy = byte_store ld st loc wr
  for ld :: "u32 \<Rightarrow> 's \<Rightarrow> u8 option" and st :: "u32 \<Rightarrow> u8 \<Rightarrow> 's \<Rightarrow> 's option"
    and loc :: "u32 \<Rightarrow> 's \<Rightarrow> 'l option" and wr :: "u32 \<Rightarrow> 's \<Rightarrow> bool" +
  fixes copy :: "u32 \<Rightarrow> u32 \<Rightarrow> nat \<Rightarrow> 's \<Rightarrow> 's option"
  assumes copy_0: "copy src dst 0 s = Some s"
    and copy_Suc: "copy src dst (Suc n) s = do { c \<leftarrow> ld src s; s \<leftarrow> st dst c s; copy (src + 1) (dst + 1) n s }"
begin

lemma copy_ok:
  assumes "\<And>k. k < n \<Longrightarrow> loc (src + of_nat k) s \<noteq> None" "\<And>k. k < n \<Longrightarrow> wr (dst + of_nat k) s"
    and "\<And>k l. k < n \<Longrightarrow> l < n \<Longrightarrow> loc (src + of_nat k) s \<noteq> loc (dst + of_nat l) s"
    and "\<And>k l. k < l \<Longrightarrow> l < n \<Longrightarrow> loc (dst + of_nat k) s \<noteq> loc (dst + of_nat l) s"
  shows "\<exists>t. copy src dst n s = Some t \<and> (\<forall>k<n. ld (dst + of_nat k) t = ld (src + of_nat k) s) \<and>
    same_but ((\<lambda>k. dst + of_nat k) ` {..<n}) s t"
  using assms
proof (induction n arbitrary: src dst s)
  case 0
  then show ?case by (simp add: copy_0 same_but_refl)
next
  case (Suc n)
  have sh: "x + of_nat (Suc k) = x + 1 + of_nat k" for x :: u32 and k by (simp add: ac_simps)
  obtain c where c: "ld src s = Some c" using Suc.prems(1) [of 0] ld_loc [of src s] by auto
  have w: "wr dst s" using Suc.prems(2) [of 0] by simp
  obtain s1 where s1: "st dst c s = Some s1" "ld dst s1 = Some c" "same_but {dst} s s1" by (rule st_ok [OF w])
  note same = same_but_loc [OF s1(3)] same_but_wr [OF s1(3)]
  have "\<exists>t. copy (src + 1) (dst + 1) n s1 = Some t \<and> (\<forall>k<n. ld (dst + 1 + of_nat k) t = ld (src + 1 + of_nat k) s1) \<and>
      same_but ((\<lambda>k. dst + 1 + of_nat k) ` {..<n}) s1 t"
  proof (rule Suc.IH)
    fix k assume k: "k < n"
    show "loc (src + 1 + of_nat k) s1 \<noteq> None" "wr (dst + 1 + of_nat k) s1"
      using Suc.prems(1,2) [of "Suc k"] k by (simp_all add: same sh del: of_nat_Suc)
    fix l assume l: "l < n"
    show "loc (src + 1 + of_nat k) s1 \<noteq> loc (dst + 1 + of_nat l) s1"
      using Suc.prems(3) [of "Suc k" "Suc l"] k l by (simp add: same sh del: of_nat_Suc)
  next
    fix k l assume "k < l" "l < n"
    then show "loc (dst + 1 + of_nat k) s1 \<noteq> loc (dst + 1 + of_nat l) s1"
      using Suc.prems(4) [of "Suc k" "Suc l"] by (simp add: same sh del: of_nat_Suc)
  qed
  then obtain t where t: "copy (src + 1) (dst + 1) n s1 = Some t"
    "\<And>k. k < n \<Longrightarrow> ld (dst + 1 + of_nat k) t = ld (src + 1 + of_nat k) s1"
    "same_but ((\<lambda>k. dst + 1 + of_nat k) ` {..<n}) s1 t" by blast
  have eq: "{dst} \<union> (\<lambda>k. dst + 1 + of_nat k) ` {..<n} = (\<lambda>k. dst + of_nat k) ` {..<Suc n}"
    unfolding lessThan_Suc_eq_insert_0 image_insert image_image by (simp add: ac_simps)
  have all: "same_but ((\<lambda>k. dst + of_nat k) ` {..<Suc n}) s t"
    using same_but_trans [OF s1(3) t(3)] unfolding eq .
  have "ld (dst + of_nat k) t = ld (src + of_nat k) s" if k: "k < Suc n" for k
  proof (cases k)
    case 0
    have "ld dst t = ld dst s1"
    proof (rule same_but_ld [OF t(3)])
      fix a assume "a \<in> (\<lambda>k. dst + 1 + of_nat k) ` {..<n}"
      then obtain l where l: "l < n" "a = dst + 1 + of_nat l" by auto
      then show "loc dst s1 \<noteq> loc a s1" using Suc.prems(4) [of 0 "Suc l"] by (simp add: same sh del: of_nat_Suc)
    qed
    then show ?thesis using 0 s1(2) c by simp
  next
    case (Suc j)
    have "ld (src + 1 + of_nat j) s1 = ld (src + 1 + of_nat j) s"
      using Suc.prems(3) [of "Suc j" 0] k Suc by (intro same_but_ld [OF s1(3)]) (simp add: sh ac_simps)
    then show ?thesis using t(2) [of j] k Suc by (simp add: sh del: of_nat_Suc)
  qed
  then show ?case using c s1(1) t(1) all by (simp add: copy_Suc)
qed

end

subsection \<open>The process is such a store\<close>

definition loc :: "u32 \<Rightarrow> proc \<Rightarrow> (nat \<times> u32 + u32) option" where
  "loc va s = map_option (\<lambda>(fr, _). case fr of
     Own k \<Rightarrow> Inl (k, PG_ADDR_OFFSET va) | Served p \<Rightarrow> Inr (push_bit 12 p + PG_ADDR_OFFSET va)) (pages s (PPN va))"

definition writable :: "u32 \<Rightarrow> proc \<Rightarrow> bool" where
  "writable va s \<longleftrightarrow> (\<exists>fr perm. pages s (PPN va) = Some (fr, perm) \<and> perm AND PTE_R = PTE_R)"

lemma ld8_loc: "ld8 va s = map_option (\<lambda>l. case l of Inl (k, off) \<Rightarrow> frames s k off | Inr a \<Rightarrow> umem (fsys (fileserv s)) a) (loc va s)"
  by (cases "pages s (PPN va)") (auto simp: ld8_def loc_def frame_byte_def split: frame.split)

lemma st8_frame: "st8 a v s = Some t \<Longrightarrow> pages t = pages s \<and> next_frame t = next_frame s \<and> calls t = calls s \<and>
    enough t = enough s \<and> me t = me s \<and> ipcbuf t = ipcbuf s \<and> cout t = cout s \<and> cin t = cin s"
  by (auto simp: st8_def set_frame_byte_def set_fsys_def split: option.splits frame.splits if_splits)

interpretation um: byte_copy ld8 st8 loc writable copy_user
proof unfold_locales
  fix a b v s s'
  show "ld8 a s = None \<longleftrightarrow> loc a s = None" by (simp add: ld8_loc)
  show "loc a s = loc b s \<Longrightarrow> ld8 a s = ld8 b s" by (simp add: ld8_loc)
  show "writable a s \<Longrightarrow> loc a s \<noteq> None" by (auto simp: writable_def loc_def)
  show "st8 a v s = None \<longleftrightarrow> \<not> writable a s" by (auto simp: st8_def writable_def split: option.splits)
  assume st: "st8 a v s = Some s'"
  note p = st8_frame [OF st]
  show "loc b s' = loc b s" "writable b s' = writable b s" by (simp_all add: loc_def writable_def p)
  obtain fr perm where fr: "pages s (PPN a) = Some (fr, perm)" "s' = set_frame_byte fr (PG_ADDR_OFFSET a) v s"
    using st by (auto simp: st8_def split: option.splits if_splits)
  show "ld8 b s' = (if loc b s = loc a s then Some v else ld8 b s)"
  proof (cases "pages s (PPN b)")
    case None
    then have "loc b s = None" "loc a s \<noteq> None" using fr(1) by (simp_all add: loc_def)
    then show ?thesis using None by (auto simp: ld8_def p)
  next
    case (Some x)
    then show ?thesis
      using fr by (cases x; cases fr; cases "fst x")
        (auto simp: ld8_def p loc_def frame_byte_def set_frame_byte_def set_fsys_def)
  qed
qed (simp_all)

subsection \<open>Words\<close>

lemma ld32_cong:
  assumes "\<And>k. k < 4 \<Longrightarrow> ld8 (a + of_nat k) t = ld8 (a + of_nat k) s"
  shows "ld32 a t = ld32 a s"
  using assms [of 0] assms [of 1] assms [of 2] assms [of 3] by (simp add: ld32_def)

lemma ld32_loc:
  assumes "ld32 a s = Some v"
  shows "k < 4 \<Longrightarrow> loc (a + of_nat k) s \<noteq> None"
proof -
  assume "k < 4"
  then consider "k = 0" | "k = 1" | "k = 2" | "k = 3" by linarith
  then show ?thesis
    using assms um.ld_loc [of a s] um.ld_loc [of "a + 1" s] um.ld_loc [of "a + 2" s] um.ld_loc [of "a + 3" s]
    by cases (auto simp: ld32_def split: Option.bind_splits)
qed

lemma bytes_word: "ucast (ucast v :: u8) OR push_bit 8 (ucast (ucast (drop_bit 8 v) :: u8))
     OR push_bit 16 (ucast (ucast (drop_bit 16 v) :: u8)) OR push_bit 24 (ucast (ucast (drop_bit 24 v) :: u8)) = (v :: u32)"
  using load32_store32_same [of "\<lambda>_. 0" 0 v] by (simp add: load32_def store32_def)

text \<open>The four bytes of a word at distinct, writable locations.\<close>

definition word_at :: "u32 \<Rightarrow> proc \<Rightarrow> bool" where
  "word_at a s \<longleftrightarrow> (\<forall>k<4. writable (a + of_nat k) s) \<and>
     (\<forall>k l. k < l \<longrightarrow> l < 4 \<longrightarrow> loc (a + of_nat k) s \<noteq> loc (a + of_nat l) s)"

lemma st32_ok:
  assumes "word_at a s"
  shows "\<exists>t. st32 a v s = Some t \<and> ld32 a t = Some v \<and> um.same_but ((\<lambda>k. a + of_nat k) ` {..<4}) s t"
proof -
  have w: "writable a s" "writable (a + 1) s" "writable (a + 2) s" "writable (a + 3) s"
    using assms by (auto simp: word_at_def dest: spec [of _ 0] spec [of _ 1] spec [of _ 2] spec [of _ 3])
  have d: "k < l \<Longrightarrow> l < 4 \<Longrightarrow> loc (a + of_nat k) s \<noteq> loc (a + of_nat l) s" for k l
    using assms by (simp add: word_at_def)
  note ne = d [of 0 1] d [of 0 2] d [of 0 3] d [of 1 2] d [of 1 3] d [of 2 3]
  obtain s1 where s1: "st8 a (ucast v) s = Some s1" "ld8 a s1 = Some (ucast v)" "um.same_but {a} s s1"
    by (rule um.st_ok [OF w(1)])
  note q1 = um.same_but_loc [OF s1(3)] um.same_but_wr [OF s1(3)]
  obtain s2 where s2: "st8 (a + 1) (ucast (drop_bit 8 v)) s1 = Some s2" "ld8 (a + 1) s2 = Some (ucast (drop_bit 8 v))"
    "um.same_but {a + 1} s1 s2" by (rule um.st_ok [of "a + 1" s1]) (simp add: q1 w)
  note q2 = um.same_but_loc [OF s2(3)] um.same_but_wr [OF s2(3)]
  obtain s3 where s3: "st8 (a + 2) (ucast (drop_bit 16 v)) s2 = Some s3" "ld8 (a + 2) s3 = Some (ucast (drop_bit 16 v))"
    "um.same_but {a + 2} s2 s3" by (rule um.st_ok [of "a + 2" s2]) (simp add: q1 q2 w)
  note q3 = um.same_but_loc [OF s3(3)] um.same_but_wr [OF s3(3)]
  obtain t where t: "st8 (a + 3) (ucast (drop_bit 24 v)) s3 = Some t" "ld8 (a + 3) t = Some (ucast (drop_bit 24 v))"
    "um.same_but {a + 3} s3 t" by (rule um.st_ok [of "a + 3" s3]) (simp add: q1 q2 q3 w)
  have b0: "ld8 a t = Some (ucast v)"
    using s1(2) um.same_but_ld [OF s2(3), of a] um.same_but_ld [OF s3(3), of a] um.same_but_ld [OF t(3), of a] ne
    by (simp add: q1 q2 q3)
  have b1: "ld8 (a + 1) t = Some (ucast (drop_bit 8 v))"
    using s2(2) um.same_but_ld [OF s3(3), of "a + 1"] um.same_but_ld [OF t(3), of "a + 1"] ne by (simp add: q1 q2 q3)
  have b2: "ld8 (a + 2) t = Some (ucast (drop_bit 16 v))"
    using s3(2) um.same_but_ld [OF t(3), of "a + 2"] ne by (simp add: q1 q2 q3)
  have "ld32 a t = Some v" using b0 b1 b2 t(2) bytes_word [of v] by (simp add: ld32_def)
  moreover have "um.same_but ((\<lambda>k. a + of_nat k) ` {..<4}) s t"
    using um.same_but_trans [OF um.same_but_trans [OF um.same_but_trans [OF s1(3) s2(3)] s3(3)] t(3)]
    by (rule um.same_but_mono) (auto simp: image_iff Bex_def intro: exI [of _ "0 :: nat"] exI [of _ "1 :: nat"] exI [of _ "2 :: nat"] exI [of _ "3 :: nat"])
  ultimately show ?thesis using s1(1) s2(1) s3(1) t(1) by (simp add: st32_def)
qed

text \<open>Loads and stores leave everything but bytes alone.\<close>

definition bytes_only :: "proc \<Rightarrow> proc \<Rightarrow> bool" where
  "bytes_only s t \<longleftrightarrow> pages t = pages s \<and> next_frame t = next_frame s \<and> calls t = calls s \<and>
    enough t = enough s \<and> me t = me s \<and> ipcbuf t = ipcbuf s \<and> cout t = cout s \<and> cin t = cin s"

lemma bytes_only_trans: "bytes_only s t \<Longrightarrow> bytes_only t u \<Longrightarrow> bytes_only s u"
  by (simp add: bytes_only_def)

lemma bytes_only_perm: "bytes_only s t \<Longrightarrow> user_va_perm a t = user_va_perm a s"
  by (simp add: bytes_only_def user_va_perm_def)

lemma st8_bytes: "st8 a v s = Some t \<Longrightarrow> bytes_only s t"
  using st8_frame by (simp add: bytes_only_def)

lemma st32_bytes: "st32 a v s = Some t \<Longrightarrow> bytes_only s t"
  by (auto simp: st32_def split: Option.bind_splits dest!: st8_bytes intro: bytes_only_trans)

lemma copy_user_bytes: "copy_user src dst n s = Some t \<Longrightarrow> bytes_only s t"
proof (induction n arbitrary: src dst s)
  case 0
  then show ?case by (simp add: bytes_only_def)
next
  case (Suc n)
  then obtain c s1 where "st8 dst c s = Some s1" "copy_user (src + 1) (dst + 1) n s1 = Some t"
    by (auto split: Option.bind_splits)
  then show ?case using Suc.IH st8_bytes bytes_only_trans by blast
qed

lemma sint_unat:
  assumes "unat (w :: u32) < 0x80000000"
  shows "sint w = int (unat w)"
proof -
  have "nat (uint w) < nat 2147483648" using assms by (simp only: unat_eq_nat_uint)
  then have u: "0 \<le> uint w" "uint w < 2147483648" by (simp_all only: nat_less_eq_zless uint_ge_0)
  moreover from u have "- 2147483648 \<le> uint w" by linarith
  ultimately have "signed_take_bit 31 (uint w) = uint w" using signed_take_bit_int_eq_self [of 31 "uint w"] by simp
  then show ?thesis by (simp add: sint_uint)
qed

lemma not_neg: "unat r < 0x80000000 \<Longrightarrow> \<not> neg r"
  by (simp only: neg_def sint_unat)

subsection \<open>Pages without aliases\<close>

lemma PPN_unat: "unat (PPN a) = unat a div 4096"
  by (simp add: PPN_def unat_drop_div)

lemma PG_ADDR_OFFSET_unat: "unat (PG_ADDR_OFFSET a) = unat a mod 4096"
proof -
  have m: "NOT 0xFFFFF000 = (mask 12 :: u32)" by (simp add: mask_eq_exp_minus_1)
  have "PG_ADDR_OFFSET a = take_bit 12 a" unfolding PG_ADDR_OFFSET_def m by (simp only: take_bit_eq_mask)
  then have "unat (PG_ADDR_OFFSET a) = take_bit 12 (unat a)" by (simp only: unsigned_take_bit_eq)
  then show ?thesis by (simp only: take_bit_eq_mod) simp
qed

lemma same_page_eq:
  assumes "PPN a = PPN b" "PG_ADDR_OFFSET a = PG_ADDR_OFFSET b"
  shows "a = b"
proof -
  have "unat a div 4096 = unat b div 4096" "unat a mod 4096 = unat b mod 4096"
    using assms PPN_unat [of a] PPN_unat [of b] PG_ADDR_OFFSET_unat [of a] PG_ADDR_OFFSET_unat [of b] by simp_all
  then have "unat a = unat b" by (metis div_mult_mod_eq)
  then show ?thesis by (rule unsigned_word_eqI)
qed

text \<open>The pages of \<open>P\<close> are mapped writable, each to a frame of its own.\<close>

definition unshared :: "proc \<Rightarrow> u32 set \<Rightarrow> bool" where
  "unshared s P \<longleftrightarrow> inj_on (\<lambda>n. map_option fst (pages s n)) P \<and>
     (\<forall>n\<in>P. \<exists>fr perm. pages s n = Some (fr, perm) \<and> perm AND PTE_R = PTE_R \<and> (\<forall>p. fr = Served p \<longrightarrow> p < 0x100000))"

lemma unshared_writable: "unshared s P \<Longrightarrow> PPN a \<in> P \<Longrightarrow> writable a s"
  unfolding unshared_def writable_def by blast

lemma unshared_pages: "pages t = pages s \<Longrightarrow> unshared t P = unshared s P"
  by (simp add: unshared_def)

lemma offset_small: "unat (PG_ADDR_OFFSET a) < 4096"
  by (simp add: PG_ADDR_OFFSET_unat)

lemma server_byte_inj:
  assumes "p < 0x100000" "q < 0x100000" "push_bit 12 p + PG_ADDR_OFFSET a = push_bit 12 q + PG_ADDR_OFFSET b"
  shows "p = q \<and> PG_ADDR_OFFSET a = PG_ADDR_OFFSET b"
proof -
  have u: "unat (push_bit 12 r + PG_ADDR_OFFSET c) = unat r * 4096 + unat (PG_ADDR_OFFSET c)" if "r < 0x100000" for r c
    using offset_small [of c] unat_push12 [OF that] unat_lessI [OF that] by (simp add: unat_word_ariths)
  have "unat p * 4096 + unat (PG_ADDR_OFFSET a) = unat q * 4096 + unat (PG_ADDR_OFFSET b)"
    using u [OF assms(1), of a] u [OF assms(2), of b] assms(3) by simp
  moreover from this have "unat p = unat q" using offset_small [of a] offset_small [of b] by linarith
  ultimately show ?thesis by (simp add: word_unat_eq_iff)
qed

lemma unshared_loc:
  assumes u: "unshared s P" "PPN a \<in> P" "PPN b \<in> P"
  shows "loc a s = loc b s \<longleftrightarrow> a = b"
proof
  assume eq: "loc a s = loc b s"
  have p: "\<exists>fr perm. pages s n = Some (fr, perm) \<and> perm AND PTE_R = PTE_R \<and> (\<forall>p. fr = Served p \<longrightarrow> p < 0x100000)"
    if "n \<in> P" for n using u(1) that unfolding unshared_def by (rule conjunct2 [THEN bspec])
  obtain fr x where f1: "pages s (PPN a) = Some (fr, x)" "\<forall>p. fr = Served p \<longrightarrow> p < 0x100000" using p [OF u(2)] by (elim exE conjE)
  obtain gr y where f2: "pages s (PPN b) = Some (gr, y)" "\<forall>p. gr = Served p \<longrightarrow> p < 0x100000" using p [OF u(3)] by (elim exE conjE)
  note f = f1 f2
  have "fr = gr \<and> PG_ADDR_OFFSET a = PG_ADDR_OFFSET b"
  proof (cases fr; cases gr)
    fix p q assume "fr = Served p" "gr = Served q"
    then show ?thesis using eq f server_byte_inj [of p q a b] by (simp add: loc_def)
  qed (use eq f in \<open>simp_all add: loc_def\<close>)
  then have "map_option fst (pages s (PPN a)) = map_option fst (pages s (PPN b))" "PG_ADDR_OFFSET a = PG_ADDR_OFFSET b"
    using f by simp_all
  then have "PPN a = PPN b" "PG_ADDR_OFFSET a = PG_ADDR_OFFSET b"
    using u inj_onD [of "\<lambda>n. map_option fst (pages s n)" P "PPN a" "PPN b"] unfolding unshared_def by simp_all
  then show "a = b" by (rule same_page_eq)
qed simp

lemma unshared_word:
  assumes "unshared s P" "aligned 4 a" "PPN a \<in> P"
  shows "word_at a s" "k < 4 \<Longrightarrow> PPN (a + of_nat k) \<in> P"
proof -
  have p: "PPN (a + of_nat k) = PPN a" if "k < 4" for k
  proof -
    have "unat (a + of_nat k) = unat a + k" by (rule aligned_byte [OF assms(2) that])
    moreover have "4 dvd unat a" using assms(2) by (simp add: aligned_def)
    ultimately have "unat (a + of_nat k) div 4096 = unat a div 4096"
      using that by (elim dvdE) simp
    then show ?thesis by (simp add: word_unat_eq_iff PPN_unat)
  qed
  then show "k < 4 \<Longrightarrow> PPN (a + of_nat k) \<in> P" using assms(3) by simp
  have "a + of_nat k \<noteq> a + of_nat l" if "k < l" "l < 4" for k l
    using aligned_byte [OF assms(2), of k] aligned_byte [OF assms(2), of l] that by auto
  moreover have q: "PPN (a + of_nat k) \<in> P" if "k < 4" for k using p [OF that] assms(3) by simp
  ultimately show "word_at a s"
    by (simp add: word_at_def unshared_loc [OF assms(1) q q] unshared_writable [OF assms(1) q])
qed

end
