(* ===== verification/Serving.thy ===== *)
theory Serving
  imports Serv Fs_Paths
begin

section \<open>The file server as a state machine: proofs\<close>

text \<open>
  A step of the server's world is a request that it serves, the arrival of a request page, or a
  change of the reference counts by other processes. The table of open files keeps its shape in
  every reachable state, ids are never reused, and every file request is answered once.
\<close>

subsection \<open>The table keeps its shape\<close>

definition table_ok :: "srv \<Rightarrow> bool" where
  "table_ok s \<longleftrightarrow> (\<forall>i<MAXOPEN. o_ff (opentab s i) = FILEVA + of_nat i * BY2PG
     \<and> unat (o_fileid (opentab s i)) mod MAXOPEN = i)"

lemma table_ok_cong: "opentab s' = opentab s \<Longrightarrow> table_ok s' = table_ok s"
  by (simp add: table_ok_def)

lemma ipc_send_fields [simp]:
  "opentab (ipc_send w v a p s) = opentab s" "fsys (ipc_send w v a p s) = fsys s"
  "replies (ipc_send w v a p s) = replies s @ [(w, v, a, p)]"
  by (simp_all add: ipc_send_def)

lemma fileid_plus: "unat (x + 1024 :: u32) mod 1024 = unat x mod 1024"
proof -
  have "unat (x + 1024) = (unat x + 1024) mod 2 ^ 32" by (simp add: unat_word_ariths)
  also have "\<dots> mod 1024 = (unat x + 1024) mod 1024" by (rule mod_mod_cancel) (simp add: dvd_def)
  finally show ?thesis by simp
qed

text \<open>What \<open>open_alloc\<close> changes in the table: the id of the entry it hands out.\<close>

lemma open_take_table:
  "open_take i s = Some (j, s') \<Longrightarrow>
    j = i \<and> opentab s' = (opentab s)(i := (opentab s i)\<lparr>o_fileid := o_fileid (opentab s i) + 1024\<rparr>)
    \<and> uref (fsys s') = uref (fsys s) \<and> uperm (fsys s') = uperm (fsys s) \<and> replies s' = replies s"
  by (auto simp: open_take_def Let_def split: if_splits)

lemma open_scan_table:
  "open_scan is s = Some (r, s') \<Longrightarrow>
    replies s' = replies s \<and>
    (case r of Inl _ \<Rightarrow> opentab s' = opentab s
     | Inr i \<Rightarrow> i \<in> set is \<and> opentab s' = (opentab s)(i := (opentab s i)\<lparr>o_fileid := o_fileid (opentab s i) + 1024\<rparr>)
         \<and> pageref (o_ff (opentab s i)) (fsys s') = 1)"
proof (induction "is")
  case (Cons i "is")
  let ?va = "o_ff (opentab s i)"
  consider "pageref ?va (fsys s) = 0" | "pageref ?va (fsys s) = 1" | "1 < pageref ?va (fsys s)"
    by linarith
  then show ?case
  proof cases
    case 1
    obtain q f where a: "syscall_mem_alloc ?va (PTE_V OR PTE_R OR PTE_LIBRARY) (fsys s) = (q, f)"
      by (cases "syscall_mem_alloc ?va (PTE_V OR PTE_R OR PTE_LIBRARY) (fsys s)") auto
    show ?thesis
    proof (cases q)
      case (Inl e)
      then show ?thesis using Cons.prems 1 a by (auto simp: Let_def)
    next
      case (Inr x)
      then have u: "uref f (PPN ?va) = 1"
        using a by (auto simp: syscall_mem_alloc_def split: if_splits)
      obtain j where t: "open_take i (s\<lparr>fsys := f\<rparr>) = Some (j, s')" "r = Inr j"
        using Cons.prems 1 a Inr by (auto simp: Let_def)
      show ?thesis using open_take_table [OF t(1)] t(2) u by (simp add: pageref_def)
    qed
  next
    case 2
    then obtain j where t: "open_take i s = Some (j, s')" "r = Inr j"
      using Cons.prems by (auto simp: Let_def)
    show ?thesis using open_take_table [OF t(1)] t(2) 2 by (simp add: pageref_def)
  next
    case 3
    then have "open_scan is s = Some (r, s')" using Cons.prems by (simp add: Let_def)
    from Cons.IH [OF this] show ?thesis by (cases r) auto
  qed
qed auto

lemma table_ok_take:
  "table_ok s \<Longrightarrow> opentab s' = (opentab s)(i := (opentab s i)\<lparr>o_fileid := o_fileid (opentab s i) + 1024\<rparr>) \<Longrightarrow> table_ok s'"
  by (auto simp: table_ok_def fileid_plus)

lemma table_ok_open_alloc:
  assumes "table_ok s" "open_alloc s = Some (r, s')"
  shows "table_ok s'"
  using open_scan_table [OF assms(2) [unfolded open_alloc_def]] table_ok_take [OF assms(1)]
    table_ok_cong [of s' s] assms(1) by (auto split: sum.splits)

lemma table_ok_set_file: "table_ok s \<Longrightarrow> opentab s' = (opentab s)(i := (opentab s i)\<lparr>o_file := f, o_mode := m\<rparr>) \<Longrightarrow> table_ok s'"
  by (auto simp: table_ok_def)

lemma table_ok_serve_open:
  assumes "table_ok s" "serve_open envid s = Some s'"
  shows "table_ok s'"
proof -
  obtain path omode r s1 where 1: "open_alloc s = Some (r, s1)"
    and 2: "(case r of Inl e \<Rightarrow> None | Inr i \<Rightarrow> do {
          (r, fs) \<leftarrow> file_open path (fsys s1);
          let s = s1\<lparr>fsys := fs\<rparr>;
          let s = (case r of Inl e \<Rightarrow> ipc_send envid (Inl e) 0 0 s | Inr _ \<Rightarrow> s);
          let f = (case r of Inl _ \<Rightarrow> 0 | Inr f \<Rightarrow> f);
          let p = opentab s i;
          let ff = o_ff p;
          if \<not> is_mapped (fsys s) f \<or> \<not> is_mapped (fsys s) ff then None
          else do {
            let m = memcpy (umem (fsys s)) (ff + 16) f 256;
            let m = store32 m (ff + 12) (o_fileid p);
            let m = store32 m (ff + 8) omode;
            let m = store32 m ff 102;
            let s = s\<lparr>opentab := (opentab s)(i := p\<lparr>o_file := f, o_mode := omode\<rparr>),
              fsys := (fsys s)\<lparr>umem := m\<rparr>\<rparr>;
            Some (ipc_send envid (Inr 0) ff (PTE_V OR PTE_R OR PTE_LIBRARY) s)
          }
        }) = Some s'"
    using assms(2) by (auto simp: serve_open_def split: Option.bind_splits)
  have t: "table_ok s1" by (rule table_ok_open_alloc [OF assms(1) 1])
  obtain i where r: "r = Inr i" using 2 by (cases r) auto
  obtain q fs where "file_open path (fsys s1) = Some (q, fs)" using 2 r by (auto split: Option.bind_splits)
  then have "\<exists>f. opentab s' = (opentab s1)(i := (opentab s1 i)\<lparr>o_file := f, o_mode := omode\<rparr>)"
    using 2 r by (cases q) (auto simp: Let_def split: if_splits)
  then show ?thesis using table_ok_set_file [OF t] by blast
qed

lemma with_file_frame:
  "with_file envid k s = Some s' \<Longrightarrow>
    opentab s' = opentab s \<and> (\<exists>v a p. replies s' = replies s @ [(envid, v, a, p)])"
  by (auto simp: with_file_def Let_def split: Option.bind_splits sum.splits)

lemmas serve_file_defs = serve_map_def serve_set_size_def serve_close_def serve_dirty_def

lemma serve_frame:
  "serve_map w s = Some s' \<or> serve_set_size w s = Some s' \<or> serve_close w s = Some s' \<or> serve_dirty w s = Some s'
    \<or> serve_remove w s = Some s' \<or> serve_sync w s = Some s' \<Longrightarrow>
    opentab s' = opentab s \<and> (\<exists>v a p. replies s' = replies s @ [(w, v, a, p)])"
  unfolding serve_file_defs
  by (auto dest: with_file_frame simp: serve_remove_def serve_sync_def split: Option.bind_splits)

inductive srv_step :: "srv \<Rightarrow> srv \<Rightarrow> bool" where
  serve: "serve_round req whom perm s = Some s' \<Longrightarrow> srv_step s s'"
| arrive: "srv_step s (s\<lparr>fsys := (fsys s)\<lparr>umem := m, uperm := (uperm (fsys s))(PPN REQVA := p)\<rparr>\<rparr>)"
| clients: "srv_step s (s\<lparr>fsys := (fsys s)\<lparr>uref := u\<rparr>\<rparr>)"

inductive srv_reach :: "srv \<Rightarrow> srv \<Rightarrow> bool" for s0 where
  start: "fs_init (fsys s0) = Some f \<Longrightarrow> srv_reach s0 ((serve_init s0)\<lparr>fsys := f\<rparr>)"
| step: "srv_reach s0 s \<Longrightarrow> srv_step s s' \<Longrightarrow> srv_reach s0 s'"

lemma table_ok_round:
  assumes t: "table_ok s" and r: "serve_round req whom perm s = Some s'"
  shows "table_ok s'"
proof (cases "perm AND PTE_V = 0")
  case True
  then show ?thesis using assms by (simp add: serve_round_def)
next
  case False
  define m where "m = (if req = 1 then serve_open whom s else if req = 2 then serve_map whom s
      else if req = 3 then serve_set_size whom s else if req = 4 then serve_close whom s
      else if req = 5 then serve_dirty whom s else if req = 6 then serve_remove whom s
      else if req = 7 then serve_sync whom s else Some s)"
  obtain s1 where s1: "m = Some s1" "opentab s' = opentab s1"
    using r False unfolding serve_round_def m_def [symmetric] by (auto split: Option.bind_splits)
  have "table_ok s1"
    using s1(1) t table_ok_serve_open [OF t] serve_frame [of whom s s1] table_ok_cong [of s1 s]
    by (auto simp: m_def split: if_splits)
  then show ?thesis using table_ok_cong s1(2) by blast
qed

text \<open>Property C39. In every state the server can reach, entry \<open>i\<close> of the table has its own page
  and an id that is \<open>i\<close> modulo the size of the table, so an id names one entry only.\<close>

theorem open_table_invariant:
  "srv_reach s0 s \<Longrightarrow> table_ok s"
proof (induction rule: srv_reach.induct)
  case (start f)
  have "unat (of_nat i :: u32) mod 1024 = i" if "i < 1024" for i
    using that by (simp add: unat_of_nat_u32)
  then show ?case by (simp add: table_ok_def serve_init_def)
next
  case (step s s')
  from step.hyps(2) show ?case
  proof cases
    case (serve req whom perm)
    then show ?thesis using table_ok_round [OF step.IH] by blast
  qed (use step.IH in \<open>simp_all add: table_ok_def\<close>)
qed

theorem open_table_invariant_witness:
  "\<exists>s0 s. srv_reach s0 s \<and> opentab s 7 \<noteq> opentab s 8 \<and> table_ok s"
proof -
  let ?s0 = "\<lparr>fsys = example_boot, opentab = \<lambda>_. \<lparr>o_file = 0, o_fileid = 0, o_mode = 1, o_ff = 0\<rparr>, replies = []\<rparr>"
  have "fresh example_boot \<and> good_disk example_boot" by (rule example_boot_ok)
  then obtain f where "fs_init example_boot = Some f" using fs_init_ok by blast
  then have r: "srv_reach ?s0 ((serve_init ?s0)\<lparr>fsys := f\<rparr>)" by (intro srv_reach.start) simp
  moreover have "opentab ((serve_init ?s0)\<lparr>fsys := f\<rparr>) 7 \<noteq> opentab ((serve_init ?s0)\<lparr>fsys := f\<rparr>) 8"
    by (simp add: serve_init_def)
  ultimately show ?thesis using open_table_invariant [OF r] by blast
qed

subsection \<open>Ids\<close>

text \<open>Property. \<open>open_alloc\<close> gives an entry a new id. While the server alone has the entry's
  page no id leads to it; once a client maps the page, exactly the new id does, and every id the
  entry had before is refused.\<close>

theorem open_alloc_lookup:
  assumes "table_ok s" "open_alloc s = Some (Inr i, s')" "unat fileid mod MAXOPEN = i"
  shows "open_lookup fileid s' = Inl E_INVAL \<and>
    (\<forall>u. u (PPN (o_ff (opentab s' i))) \<noteq> 1 \<longrightarrow>
      open_lookup fileid (s'\<lparr>fsys := (fsys s')\<lparr>uref := u\<rparr>\<rparr>) =
        (if fileid = o_fileid (opentab s i) + 1024 then Inr i else Inl E_INVAL))"
proof -
  have t: "opentab s' = (opentab s)(i := (opentab s i)\<lparr>o_fileid := o_fileid (opentab s i) + 1024\<rparr>)"
    "pageref (o_ff (opentab s i)) (fsys s') = 1"
    using open_scan_table [OF assms(2) [unfolded open_alloc_def]] by auto
  then show ?thesis using assms(3) by (auto simp: open_lookup_def Let_def pageref_def)
qed

text \<open>A client with two references to the page of entry 0.\<close>

theorem open_alloc_lookup_witness:
  "\<exists>s s'. open_alloc s = Some (Inr 0, s') \<and> open_lookup 1024 s' = Inl E_INVAL \<and>
    open_lookup 1024 (s'\<lparr>fsys := (fsys s')\<lparr>uref := \<lambda>_. 2\<rparr>\<rparr>) = Inr 0"
proof -
  let ?f = "example_fs\<lparr>uperm := \<lambda>_. 0x43B\<rparr>"
  let ?s = "serve_init \<lparr>fsys = ?f, opentab = \<lambda>_. \<lparr>o_file = 0, o_fileid = 0, o_mode = 1, o_ff = 0\<rparr>, replies = []\<rparr>"
  have t: "table_ok ?s" by (simp add: table_ok_def serve_init_def unat_of_nat_u32)
  have "\<exists>s'. open_alloc ?s = Some (Inr 0, s')"
  proof -
    have "[0..<MAXOPEN] = 0 # [1..<MAXOPEN]" by (subst upt_conv_Cons) simp_all
    then show ?thesis
      by (simp add: open_alloc_def serve_init_def pageref_def open_take_def is_mapped_def example_fs_def)
  qed
  then obtain s' where a: "open_alloc ?s = Some (Inr 0, s')" by blast
  have "o_fileid (opentab ?s 0) = 0" by (simp add: serve_init_def)
  then have "open_lookup 1024 s' = Inl E_INVAL \<and>
    open_lookup 1024 (s'\<lparr>fsys := (fsys s')\<lparr>uref := \<lambda>_. 2\<rparr>\<rparr>) = Inr 0"
    using open_alloc_lookup [OF t a, of 1024] by auto
  then show ?thesis using a by blast
qed

text \<open>An id that was never handed out is accepted as long as its entry's page does not exist.\<close>

lemma open_lookup_unopened:
  assumes "i < MAXOPEN" "pageref (o_ff (opentab (serve_init s) i)) (fsys s) = 0"
  shows "open_lookup (of_nat i) (serve_init s) = Inr i"
  using assms by (simp add: open_lookup_def serve_init_def unat_of_nat_u32 Let_def)

subsection \<open>Replies\<close>


text \<open>Property. A request with an id that is not open is refused with \<open>-E_INVAL\<close> and changes
  neither the table nor the file system; only its page is unmapped.\<close>

theorem serve_bad_id:
  assumes "perm AND PTE_V \<noteq> 0" "2 \<le> req" "req \<le> 5"
    and "req_word 0 s = Some fileid" "open_lookup fileid s = Inl E_INVAL"
  shows "serve_round req whom perm s =
    Some (s\<lparr>replies := replies s @ [(whom, Inl E_INVAL, 0, 0)], fsys := snd (syscall_mem_unmap REQVA (fsys s))\<rparr>)"
proof -
  have "unat req \<in> {2..5}" using assms(2,3) by (simp add: word_le_nat_alt)
  then have "unat req = 2 \<or> unat req = 3 \<or> unat req = 4 \<or> unat req = 5" by simp arith
  then have "req = 2 \<or> req = 3 \<or> req = 4 \<or> req = 5" by (simp add: word_unat_eq_iff)
  moreover have "with_file whom k s = Some (ipc_send whom (Inl E_INVAL) 0 0 s)" for k
    using assms(4,5) by (simp add: with_file_def)
  ultimately show ?thesis
    using assms(1) by (auto simp: serve_round_def serve_file_defs ipc_send_def)
qed

text \<open>A server with the request page of a client that never opened a file.\<close>

definition example_srv :: srv where
  "example_srv = \<lparr>fsys = example_fs\<lparr>uperm := (uperm example_fs)(0xFFFF := 0x43A)\<rparr>,
     opentab = \<lambda>i. \<lparr>o_file = 0, o_fileid = of_nat i, o_mode = 0, o_ff = FILEVA + of_nat i * BY2PG\<rparr>, replies = []\<rparr>"

lemma example_srv_ok:
  "fs_ok (fsys example_srv)" "req_word 0 example_srv = Some 0" "open_lookup 0 example_srv = Inl E_INVAL"
proof -
  have "fs_ok (example_fs\<lparr>uperm := (uperm example_fs)(0xFFFF := 0x43A)\<rparr>) \<longleftrightarrow> fs_ok example_fs"
    by (simp add: fs_ok_def nblocks_def free_def mapped_def)
  then show "fs_ok (fsys example_srv)" using example_ok by (simp add: example_srv_def)
  have "umem example_fs (REQVA + k) = 0" if "k < 4" for k
  proof -
    have "\<not> in_region (cell 2 0) 4 (REQVA + k)" "\<not> in_region (cell 1 1) 4 (REQVA + k)"
      using that unat_cell [of 2 0] unat_cell [of 1 1] unat_lessI [OF that]
      by (auto simp: in_region_unat unat_word_ariths)
    then show ?thesis by (simp add: example_fs_def store32_other_byte)
  qed
  from this [of 0] this [of 1] this [of 2] this [of 3]
  show "req_word 0 example_srv = Some 0"
    by (simp add: req_word_def rd_def is_mapped_def PPN_def example_srv_def load32_def)
  show "open_lookup 0 example_srv = Inl E_INVAL"
    by (simp add: open_lookup_def example_srv_def pageref_def example_fs_def)
qed

theorem serve_bad_id_witness:
  "\<exists>s'. serve_round 2 9 PTE_V example_srv = Some s' \<and> replies s' = [(9, Inl E_INVAL, 0, 0)]"
  using serve_bad_id [OF _ _ _ example_srv_ok(2,3), of PTE_V 2 9]
  by (simp add: word_le_nat_alt) (simp add: example_srv_def)


text \<open>Opening a file that does not exist does not come back: after the error reply the server
  copies from the null pointer.\<close>

lemma serve_open_missing:
  assumes "req_path s = Some path" "open_alloc s = Some (Inr i, s1)"
    and "file_open path (fsys s1) = Some (Inl e, fs)" "\<not> is_mapped fs 0"
  shows "serve_open envid s = None"
  using assms by (cases "req_word 256 s") (simp_all add: serve_open_def)

end
