(* ===== verification/Descriptors.thy ===== *)
theory Descriptors
  imports Fd User_Mem Serving
begin

section \<open>File descriptors: proofs\<close>

text \<open>
  Where descriptors and their data live, which descriptor \<open>fd_alloc\<close> picks, and what \<open>read\<close>,
  \<open>write\<close> and \<open>seek\<close> do on an open file, whose pages the file server shares with the process.
\<close>

subsection \<open>Addresses\<close>

lemma unat_INDEX2FD: "unat i < 32 \<Longrightarrow> unat (INDEX2FD i) = 0x5FF00000 + unat i * 4096"
  by (simp add: INDEX2FD_def unat_word_ariths)

lemma unat_INDEX2DATA: "unat i < 32 \<Longrightarrow> unat (INDEX2DATA i) = 0x60000000 + unat i * 0x100000"
  by (simp add: INDEX2DATA_def unat_word_ariths)

lemma fd2num_INDEX2FD: "unat i < 32 \<Longrightarrow> fd2num (INDEX2FD i) = i"
proof -
  assume i: "unat i < 32"
  have "unat (fd2num (INDEX2FD i)) = unat i * 4096 div 4096"
    using i by (simp add: fd2num_def INDEX2FD_def unat_div unat_word_ariths)
  then show ?thesis by (simp add: word_unat_eq_iff)
qed

lemma unat_fd2data: "unat i < 32 \<Longrightarrow> unat (fd2data (INDEX2FD i)) = 0x60000000 + unat i * 0x100000"
  by (simp add: fd2data_def fd2num_INDEX2FD unat_INDEX2DATA)

lemma fd_windows_disjoint:
  assumes "unat i < 32" "unat j < 32" "i \<noteq> j" "x < PDMAP" "y < PDMAP"
  shows "fd2data (INDEX2FD i) + x \<noteq> fd2data (INDEX2FD j) + y"
proof
  assume "fd2data (INDEX2FD i) + x = fd2data (INDEX2FD j) + y"
  then have "unat (fd2data (INDEX2FD i) + x) = unat (fd2data (INDEX2FD j) + y)" by simp
  moreover have b: "unat x < 0x100000" "unat y < 0x100000" using assms(4,5) by (simp_all add: word_less_nat_alt)
  ultimately have "unat i * 0x100000 + unat x = unat j * 0x100000 + unat y"
    using assms(1,2) by (simp add: unat_word_ariths unat_fd2data)
  then have "unat i = unat j" using b by linarith
  then show False using assms(3) by (simp add: word_unat_eq_iff)
qed

lemma fd_window_overlaps:
  assumes "unat i < 31"
  shows "fd2data (INDEX2FD i) + x = fd2data (INDEX2FD (i + 1)) + (x - PDMAP)"
proof -
  have "unat (i + 1) = unat i + 1" using assms by (simp add: unat_word_ariths)
  then have "fd2num (INDEX2FD (i + 1)) = i + 1" using assms by (intro fd2num_INDEX2FD) simp
  then show ?thesis using assms by (simp add: fd2data_def fd2num_INDEX2FD INDEX2DATA_def algebra_simps)
qed

lemma num2fd_INDEX2FD: "num2fd i = INDEX2FD i"
  by (simp add: num2fd_def INDEX2FD_def)

text \<open>Property C27. Number and address of a descriptor are inverse to each other; the pages of the
  table lie below the data, the data of all descriptors below \<open>UTOP\<close>; the data of different
  descriptors are disjoint as long as files have at most \<open>PDMAP\<close> bytes, and beyond that, which
  \<open>MAXFILESIZE\<close> allows, the data of one file are where those of the next descriptor begin.\<close>

theorem fd_regions:
  assumes "unat i < 32"
  shows "fd2num (num2fd i) = i \<and> num2fd (fd2num (INDEX2FD i)) = INDEX2FD i \<and>
    unat (INDEX2FD i) + 4096 \<le> unat FILEBASE \<and> unat (fd2data (INDEX2FD i)) + unat MAXFILESIZE \<le> unat UTOP \<and>
    (\<forall>j x y. unat j < 32 \<and> i \<noteq> j \<and> x < PDMAP \<and> y < PDMAP \<longrightarrow> fd2data (INDEX2FD i) + x \<noteq> fd2data (INDEX2FD j) + y) \<and>
    (unat i < 31 \<longrightarrow> PDMAP < MAXFILESIZE \<and>
      (\<forall>x. fd2data (INDEX2FD i) + x = fd2data (INDEX2FD (i + 1)) + (x - PDMAP)))"
  using assms fd_windows_disjoint [OF assms] fd_window_overlaps
  by (simp add: num2fd_INDEX2FD fd2num_INDEX2FD unat_INDEX2FD unat_fd2data)

theorem fd_regions_witness:
  "fd2data (INDEX2FD 3) + 0x180000 = fd2data (INDEX2FD 4) + 0x80000 \<and>
    fd2data (INDEX2FD 3) + 0xFFFFF \<noteq> fd2data (INDEX2FD 4) + 0x80000"
  using fd_regions [of 3] by simp

subsection \<open>Finding a free descriptor\<close>

lemma find_upt: "find P [0..<n] = Some i \<longleftrightarrow> i < n \<and> P i \<and> (\<forall>j<i. \<not> P j)"
proof
  assume "find P [0..<n] = Some i"
  then show "i < n \<and> P i \<and> (\<forall>j<i. \<not> P j)" unfolding find_Some_iff by auto
next
  assume "i < n \<and> P i \<and> (\<forall>j<i. \<not> P j)"
  then show "find P [0..<n] = Some i" unfolding find_Some_iff by (intro exI [of _ i]) auto
qed

text \<open>Property. \<open>fd_alloc\<close> returns the lowest descriptor whose page is not mapped, among the first
  31 of the 32, and \<open>-E_MAX_OPEN\<close> exactly when those are in use.\<close>

theorem fd_alloc_correct:
  "(\<forall>fd. fd_alloc s = Inr fd \<longleftrightarrow> (\<exists>i<31. fd = INDEX2FD (of_nat i) \<and> user_va_perm fd s = 0 \<and>
      (\<forall>j<i. user_va_perm (INDEX2FD (of_nat j)) s \<noteq> 0))) \<and>
    (\<forall>e. fd_alloc s = Inl e \<longleftrightarrow> e = E_MAX_OPEN \<and> (\<forall>i<31. user_va_perm (INDEX2FD (of_nat i)) s \<noteq> 0))"
proof (intro conjI allI)
  fix fd e
  let ?P = "\<lambda>i. user_va_perm (INDEX2FD (of_nat i)) s = 0"
  have "fd_alloc s = Inr fd \<longleftrightarrow> (\<exists>i. find ?P [0..<31] = Some i \<and> fd = INDEX2FD (of_nat i))"
    by (auto simp: fd_alloc_def split: option.split)
  also have "\<dots> \<longleftrightarrow> (\<exists>i<31. fd = INDEX2FD (of_nat i) \<and> ?P i \<and> (\<forall>j<i. \<not> ?P j))"
    by (auto simp: find_upt)
  finally show "fd_alloc s = Inr fd \<longleftrightarrow> (\<exists>i<31. fd = INDEX2FD (of_nat i) \<and> user_va_perm fd s = 0 \<and>
      (\<forall>j<i. user_va_perm (INDEX2FD (of_nat j)) s \<noteq> 0))" by auto
  have "fd_alloc s = Inl e \<longleftrightarrow> e = E_MAX_OPEN \<and> find ?P [0..<31] = None"
    by (auto simp: fd_alloc_def split: option.split)
  then show "fd_alloc s = Inl e \<longleftrightarrow> e = E_MAX_OPEN \<and> (\<forall>i<31. user_va_perm (INDEX2FD (of_nat i)) s \<noteq> 0)"
    unfolding find_None_iff by auto
qed

subsection \<open>Open files\<close>

text \<open>Descriptor \<open>n\<close> is a file of \<open>sz\<close> bytes, open for reading and writing, at offset \<open>off\<close>; its
  page and its data are on pages of \<open>P\<close>.\<close>

definition file_fd :: "u32 \<Rightarrow> u32 \<Rightarrow> u32 \<Rightarrow> u32 set \<Rightarrow> proc \<Rightarrow> bool" where
  "file_fd n off sz P s \<longleftrightarrow> unat n < 32 \<and> user_va_perm (INDEX2FD n) s AND PTE_V \<noteq> 0 \<and>
     ld32 (INDEX2FD n) s = Some (dev_id devfile) \<and> ld32 (INDEX2FD n + 4) s = Some off \<and>
     ld32 (INDEX2FD n + 8) s = Some O_RDWR \<and> ld32 (INDEX2FD n + 144) s = Some sz \<and> sz \<le> MAXFILESIZE \<and>
     unshared s P \<and> PPN (INDEX2FD n) \<in> P \<and> (\<forall>k<unat sz. PPN (fd2data (INDEX2FD n) + of_nat k) \<in> P)"

text \<open>A buffer of \<open>k\<close> bytes on pages of \<open>P\<close>, below the descriptors.\<close>

definition buffer :: "u32 set \<Rightarrow> u32 \<Rightarrow> nat \<Rightarrow> bool" where
  "buffer P buf k \<longleftrightarrow> unat buf + k \<le> unat FDTABLE \<and> (\<forall>i<k. PPN (buf + of_nat i) \<in> P)"

text \<open>The addresses on \<open>P\<close> outside the table of descriptors, and these with the offset of
  descriptor \<open>n\<close>.\<close>

definition plain :: "u32 set \<Rightarrow> u32 set" where
  "plain P = {a. PPN a \<in> P \<and> (unat a < unat FDTABLE \<or> unat FILEBASE \<le> unat a)}"

definition harmless :: "u32 \<Rightarrow> u32 set \<Rightarrow> u32 set" where
  "harmless n P = plain P \<union> {a. PPN a \<in> P \<and> a \<in> (\<lambda>k. INDEX2FD n + 4 + of_nat k) ` {..<4}}"

lemma fd_field:
  assumes "unat n < 32" "unat c < 4096"
  shows "unat (INDEX2FD n + c) = unat (INDEX2FD n) + unat c" "PPN (INDEX2FD n + c) = PPN (INDEX2FD n)"
proof -
  show u: "unat (INDEX2FD n + c) = unat (INDEX2FD n) + unat c"
    using assms unat_INDEX2FD [OF assms(1)] by (simp add: unat_word_ariths)
  have "(0x5FF00000 + unat n * 4096 + unat c) div 4096 = 0x5FF00 + unat n" using assms(2) by simp
  then show "PPN (INDEX2FD n + c) = PPN (INDEX2FD n)"
    using unat_INDEX2FD [OF assms(1)] by (simp add: word_unat_eq_iff PPN_unat u)
qed

lemma fd_byte:
  assumes "unat n < 32" "c < 4000" "k < 4"
  shows "unat (INDEX2FD n + of_nat c + of_nat k) = 0x5FF00000 + unat n * 4096 + c + k"
    "PPN (INDEX2FD n + of_nat c + of_nat k) = PPN (INDEX2FD n)"
proof -
  have c: "unat (of_nat (c + k) :: u32) = c + k" using assms by (intro unat_of_nat_u32) simp
  have "INDEX2FD n + of_nat c + of_nat k = INDEX2FD n + of_nat (c + k)" by simp
  then show "unat (INDEX2FD n + of_nat c + of_nat k) = 0x5FF00000 + unat n * 4096 + c + k"
    "PPN (INDEX2FD n + of_nat c + of_nat k) = PPN (INDEX2FD n)"
    using fd_field [OF assms(1), of "of_nat (c + k)"] c assms by (simp_all add: unat_INDEX2FD add.assoc)
qed

lemma data_byte:
  assumes "unat n < 32" "unat off + k \<le> 0x400000"
  shows "unat (fd2data (INDEX2FD n) + off + of_nat k) = 0x60000000 + unat n * 0x100000 + unat off + k"
proof -
  have "unat (of_nat k :: u32) = k" using assms by (intro unat_of_nat_u32) simp
  then show ?thesis using assms by (simp add: unat_word_ariths unat_fd2data)
qed

lemma fd_word_keep:
  assumes f: "file_fd n off sz P s" and d: "um.same_but A s t" "A \<subseteq> harmless n P"
    and c: "c = 0 \<or> c = 8 \<or> c = 144 \<or> c = 4 \<and> A \<subseteq> plain P"
  shows "ld32 (INDEX2FD n + of_nat c) t = ld32 (INDEX2FD n + of_nat c) s"
proof (rule ld32_cong, rule um.same_but_ld [OF d(1)])
  fix k a assume k: "k < (4 :: nat)" and a: "a \<in> A"
  have n: "unat n < 32" "unshared s P" "PPN (INDEX2FD n) \<in> P" using f by (simp_all add: file_fd_def)
  let ?b = "INDEX2FD n + of_nat c + of_nat k"
  have ub: "unat ?b = 0x5FF00000 + unat n * 4096 + c + k" "PPN ?b = PPN (INDEX2FD n)"
    using fd_byte [OF n(1), of c k] c k by auto
  have h: "PPN a \<in> P" using d(2) a by (auto simp: harmless_def plain_def)
  have "a \<noteq> ?b"
  proof
    assume eq: "a = ?b"
    have "unat ?b \<ge> unat FDTABLE \<and> unat ?b < unat FILEBASE" using ub(1) n(1) c k by auto
    then have np: "a \<notin> plain P" using eq by (simp only: plain_def) simp
    then have "a \<in> (\<lambda>k. INDEX2FD n + 4 + of_nat k) ` {..<4}" using d(2) a by (auto simp: harmless_def)
    then obtain j where j: "j < 4" "?b = INDEX2FD n + of_nat 4 + of_nat j" using eq by auto
    then have "unat ?b = 0x5FF00000 + unat n * 4096 + 4 + j" using fd_byte(1) [OF n(1), of 4 j] by (simp only:)
    moreover have "c \<noteq> 4" using np c a by auto
    ultimately show False using c k \<open>j < 4\<close> unfolding ub(1) by auto
  qed
  then show "loc ?b s \<noteq> loc a s" using unshared_loc [OF n(2), of ?b a] h ub(2) n(3) by auto
qed

lemma file_fd_keep:
  assumes f: "file_fd n off sz P s" and b: "bytes_only s t" and d: "um.same_but A s t" "A \<subseteq> harmless n P"
    and off: "ld32 (INDEX2FD n + 4) t = Some off'"
  shows "file_fd n off' sz P t"
  using f off fd_word_keep [OF f d, of 0] fd_word_keep [OF f d, of 8] fd_word_keep [OF f d, of 144]
    bytes_only_perm [OF b] unshared_pages [of t s P] b
  by (simp add: file_fd_def bytes_only_def)

lemma plain_harmless: "A \<subseteq> plain P \<Longrightarrow> A \<subseteq> harmless n P"
  by (auto simp: harmless_def)

lemma off_word_harmless: "file_fd n off sz P s \<Longrightarrow> (\<lambda>k. INDEX2FD n + 4 + of_nat k) ` {..<4} \<subseteq> harmless n P"
  using fd_byte(2) [of n 4] by (auto simp: harmless_def file_fd_def)

lemma data_plain:
  assumes "file_fd n off sz P s" "unat x + k \<le> unat sz"
  shows "(\<lambda>i. fd2data (INDEX2FD n) + x + of_nat i) ` {..<k} \<subseteq> plain P"
proof
  fix a assume "a \<in> (\<lambda>i. fd2data (INDEX2FD n) + x + of_nat i) ` {..<k}"
  then obtain i where i: "i < k" "a = fd2data (INDEX2FD n) + x + of_nat i" by auto
  have n: "unat n < 32" "unat sz \<le> 0x400000" using assms(1) by (simp_all add: file_fd_def word_le_nat_alt)
  then have ua: "unat a = 0x60000000 + unat n * 0x100000 + unat x + i"
    using data_byte [of n x i] assms(2) i by simp
  have "a = fd2data (INDEX2FD n) + of_nat (unat x + i)" using i(2) by (simp add: add.assoc)
  moreover have "\<forall>k<unat sz. PPN (fd2data (INDEX2FD n) + of_nat k) \<in> P" using assms(1) by (simp add: file_fd_def)
  moreover have "unat x + i < unat sz" using assms(2) i(1) by simp
  ultimately have "PPN a \<in> P" by (simp only:)
  with ua show "a \<in> plain P" by (simp add: plain_def)
qed

lemma buffer_plain:
  assumes "buffer P buf k"
  shows "(\<lambda>i. buf + of_nat i) ` {..<k} \<subseteq> plain P"
proof
  fix a assume "a \<in> (\<lambda>i. buf + of_nat i) ` {..<k}"
  then obtain i where i: "i < k" "a = buf + of_nat i" by auto
  have "k \<le> 0x5FF00000" "unat buf + k \<le> 0x5FF00000" using assms by (simp_all add: buffer_def)
  then have "unat a < 0x5FF00000" using i by (simp add: unat_word_ariths unat_of_nat_u32)
  then show "a \<in> plain P" using assms i by (simp add: plain_def buffer_def)
qed

lemma word_harmless_loc:
  assumes "file_fd n off sz P s" "a \<in> harmless n P" "b \<in> harmless n P"
  shows "loc a s = loc b s \<longleftrightarrow> a = b" "writable a s"
  using assms unshared_loc [of s P a b] unshared_writable [of s P a] by (auto simp: harmless_def plain_def file_fd_def)

lemma file_fd_lookup: "file_fd n off sz P s \<Longrightarrow> fd_lookup n s = Inr (INDEX2FD n)"
proof -
  assume f: "file_fd n off sz P s"
  then have "sint n = int (unat n)" "unat n < 32" by (simp_all add: sint_unat file_fd_def del: of_nat_unat)
  then have "\<not> 32 \<le> sint n" by linarith
  then show ?thesis using f by (simp add: fd_lookup_def file_fd_def)
qed

text \<open>Setting the offset.\<close>

lemma set_offset:
  assumes f: "file_fd n off sz P s"
  obtains t where "st32 (INDEX2FD n + 4) off' s = Some t" "file_fd n off' sz P t" "bytes_only s t"
    "um.same_but ((\<lambda>k. INDEX2FD n + 4 + of_nat k) ` {..<4}) s t"
proof -
  have n: "unat n < 32" "unshared s P" "PPN (INDEX2FD n) \<in> P" using f by (simp_all add: file_fd_def)
  have "unat (INDEX2FD n + 4) = 4 * (0x17FC0001 + unat n * 1024)"
    using fd_field(1) [OF n(1), of 4] by (simp add: unat_INDEX2FD [OF n(1)])
  then have "aligned 4 (INDEX2FD n + 4)" unfolding aligned_def by (simp only: dvd_triv_left)
  then have "word_at (INDEX2FD n + 4) s" using fd_field(2) [OF n(1), of 4] n by (intro unshared_word(1) [OF n(2)]) simp_all
  from st32_ok [OF this, of off'] obtain t where t: "st32 (INDEX2FD n + 4) off' s = Some t"
    "ld32 (INDEX2FD n + 4) t = Some off'" "um.same_but ((\<lambda>k. INDEX2FD n + 4 + of_nat k) ` {..<4}) s t" by blast
  have "file_fd n off' sz P t"
    by (rule file_fd_keep [OF f st32_bytes [OF t(1)] t(3) off_word_harmless [OF f] t(2)])
  then show ?thesis using that t st32_bytes by blast
qed

lemma seek_ok:
  assumes f: "file_fd n off sz P s"
  obtains t where "seek n off' s = Some (0, t)" "file_fd n off' sz P t" "bytes_only s t"
    "um.same_but ((\<lambda>k. INDEX2FD n + 4 + of_nat k) ` {..<4}) s t"
proof -
  obtain t where t: "st32 (INDEX2FD n + 4) off' s = Some t" "file_fd n off' sz P t" "bytes_only s t"
    "um.same_but ((\<lambda>k. INDEX2FD n + 4 + of_nat k) ` {..<4}) s t" by (rule set_offset [OF f])
  have "fd_lookup n s = Inr (INDEX2FD n)" by (rule file_fd_lookup [OF f])
  then have "seek n off' s = Some (0, t)" using t(1) by (simp add: seek_def or_return_def)
  then show ?thesis using that t by blast
qed

text \<open>Copying between a buffer and the data of the file.\<close>

lemma copy_file:
  assumes f: "file_fd n off sz P s"
    and src: "(\<lambda>i. src + of_nat i) ` {..<k} \<subseteq> plain P" and dst: "(\<lambda>i. dst + of_nat i) ` {..<k} \<subseteq> plain P"
    and k: "k < 0x80000000" and apart: "\<And>i j. i < k \<Longrightarrow> j < k \<Longrightarrow> src + of_nat i \<noteq> dst + of_nat j"
  obtains t where "copy_user src dst k s = Some t" "\<forall>i<k. ld8 (dst + of_nat i) t = ld8 (src + of_nat i) s"
    "um.same_but ((\<lambda>i. dst + of_nat i) ` {..<k}) s t" "bytes_only s t" "file_fd n off sz P t"
proof -
  have h: "src + of_nat i \<in> harmless n P" "dst + of_nat i \<in> harmless n P" if "i < k" for i
    using src dst that by (auto simp: harmless_def)
  have ne: "dst + of_nat i \<noteq> dst + of_nat j" if "i < j" "j < k" for i j
  proof
    assume "dst + of_nat i = dst + of_nat j"
    then have "unat (of_nat i :: u32) = unat (of_nat j :: u32)" by simp
    then show False using that k by (simp add: unat_of_nat_u32)
  qed
  have "\<exists>t. copy_user src dst k s = Some t \<and> (\<forall>i<k. ld8 (dst + of_nat i) t = ld8 (src + of_nat i) s) \<and>
      um.same_but ((\<lambda>i. dst + of_nat i) ` {..<k}) s t"
  proof (rule um.copy_ok)
    fix i assume i: "i < k"
    show "loc (src + of_nat i) s \<noteq> None" by (rule um.wr_loc [OF word_harmless_loc(2) [OF f h(1) [OF i] h(1) [OF i]]])
    show "writable (dst + of_nat i) s" by (rule word_harmless_loc(2) [OF f h(2) [OF i] h(2) [OF i]])
    fix j assume j: "j < k"
    show "loc (src + of_nat i) s \<noteq> loc (dst + of_nat j) s"
      using word_harmless_loc(1) [OF f h(1) [OF i] h(2) [OF j]] apart [OF i j] by simp
  next
    fix i j assume ij: "i < j" "j < k"
    then have i: "i < k" by simp
    show "loc (dst + of_nat i) s \<noteq> loc (dst + of_nat j) s"
      using word_harmless_loc(1) [OF f h(2) [OF i] h(2) [OF ij(2)]] ne [OF ij] by simp
  qed
  then obtain t where t: "copy_user src dst k s = Some t" "\<forall>i<k. ld8 (dst + of_nat i) t = ld8 (src + of_nat i) s"
    "um.same_but ((\<lambda>i. dst + of_nat i) ` {..<k}) s t" by blast
  have b: "bytes_only s t" by (rule copy_user_bytes [OF t(1)])
  have n: "unat n < 32" "unshared s P" "PPN (INDEX2FD n) \<in> P" using f by (simp_all add: file_fd_def)
  have "ld32 (INDEX2FD n + 4) t = Some off"
    using fd_word_keep [OF f t(3) plain_harmless [OF dst], of 4] dst f by (simp add: file_fd_def)
  then have "file_fd n off sz P t" by (rule file_fd_keep [OF f b t(3) plain_harmless [OF dst]])
  then show ?thesis using that t b by blast
qed

subsection \<open>Writing and reading\<close>

lemma with_dev_file: "file_fd n off sz P s \<Longrightarrow> with_dev n s k = k (INDEX2FD n) devfile"
  by (frule file_fd_lookup) (simp add: with_dev_def or_return_def file_fd_def dev_lookup_def)

lemma data_base:
  assumes "file_fd n off sz P s"
  shows "fd2data (INDEX2FD n) + x + of_nat i = fd2data (INDEX2FD n) + (x + of_nat i)"
  by (simp add: add.assoc)

lemma buffer_data_apart:
  assumes f: "file_fd n off sz P s" and b: "buffer P buf k" and x: "unat x + l \<le> unat sz" and i: "i < k" and j: "j < l"
  shows "buf + of_nat i \<noteq> fd2data (INDEX2FD n) + x + of_nat j"
proof
  assume eq: "buf + of_nat i = fd2data (INDEX2FD n) + x + of_nat j"
  have n: "unat n < 32" "unat sz \<le> 0x400000" using f by (simp_all add: file_fd_def word_le_nat_alt)
  have "unat buf + k \<le> 0x5FF00000" using b by (simp add: buffer_def)
  then have "unat (buf + of_nat i) < 0x5FF00000" using i by (simp add: unat_word_ariths unat_of_nat_u32)
  moreover have "unat (fd2data (INDEX2FD n) + x + of_nat j) = 0x60000000 + unat n * 0x100000 + unat x + j"
    using n x j by (intro data_byte) simp_all
  ultimately show False unfolding eq by simp
qed

lemma write_ok:
  assumes f: "file_fd n off sz P s" and b: "buffer P buf (unat k)" and fits: "unat off + unat k \<le> unat sz"
  obtains t where "write_fd n buf k s = Some (k, t)" "file_fd n (off + k) sz P t" "bytes_only s t"
    "\<forall>i<unat k. ld8 (fd2data (INDEX2FD n) + off + of_nat i) t = ld8 (buf + of_nat i) s"
    "um.same_but ((\<lambda>i. fd2data (INDEX2FD n) + off + of_nat i) ` {..<unat k} \<union>
      (\<lambda>i. INDEX2FD n + 4 + of_nat i) ` {..<4}) s t"
proof -
  let ?D = "(\<lambda>i. fd2data (INDEX2FD n) + off + of_nat i) ` {..<unat k}"
  let ?W = "(\<lambda>i. INDEX2FD n + 4 + of_nat i) ` {..<4}"
  have n: "unat n < 32" "unat sz \<le> 0x400000" using f by (simp_all add: file_fd_def word_le_nat_alt)
  have tot: "unat (off + k) = unat off + unat k" using fits n(2) by (simp add: unat_word_ariths)
  then have le: "\<not> MAXFILESIZE < off + k" "\<not> sz < off + k"
    using fits n(2) by (simp_all add: word_less_nat_alt)
  have flds: "ld32 (INDEX2FD n + 8) s = Some 2" "ld32 (INDEX2FD n + 4) s = Some off" "ld32 (INDEX2FD n + 144) s = Some sz"
    using f by (simp_all add: file_fd_def)
  obtain s1 where s1: "copy_user buf (fd2data (INDEX2FD n) + off) (unat k) s = Some s1"
    "\<forall>i<unat k. ld8 (fd2data (INDEX2FD n) + off + of_nat i) s1 = ld8 (buf + of_nat i) s"
    "um.same_but ?D s s1" "bytes_only s s1" "file_fd n off sz P s1"
  proof (rule copy_file [OF f buffer_plain [OF b] data_plain [OF f fits]])
    show "unat k < 0x80000000" using fits n(2) by simp
    show "buf + of_nat i \<noteq> fd2data (INDEX2FD n) + off + of_nat j" if "i < unat k" "j < unat k" for i j
      by (rule buffer_data_apart [OF f b fits that])
  qed
  have w: "file_write (INDEX2FD n) buf k off s = Some (k, s1)"
    using le flds(3) s1(1) by (simp add: file_write_def Let_def neg_def add.commute [of 144])
  have k: "unat k < 0x80000000" using fits n(2) by simp
  show ?thesis
  proof (cases "k = 0")
    case True
    have "write_fd n buf k s = Some (k, s1)"
      using w flds True by (simp add: write_fd_def with_dev_file [OF f])
    then show ?thesis using that s1 True um.same_but_mono [OF s1(3)] by auto
  next
    case False
    then have "unat k \<noteq> 0" by (simp add: unat_eq_zero)
    then have "0 < int (unat k)" by linarith
    then have pos: "0 < sint k" by (simp only: sint_unat [OF k])
    obtain t where t: "st32 (INDEX2FD n + 4) (off + k) s1 = Some t" "file_fd n (off + k) sz P t" "bytes_only s1 t"
      "um.same_but ?W s1 t" by (rule set_offset [OF s1(5)])
    have "ld32 (INDEX2FD n + 4) s1 = Some off" using s1(5) by (simp add: file_fd_def)
    then have r: "write_fd n buf k s = Some (k, t)"
      using w flds pos t(1) by (simp add: write_fd_def with_dev_file [OF f])
    have "ld8 (fd2data (INDEX2FD n) + off + of_nat i) t = ld8 (buf + of_nat i) s" if i: "i < unat k" for i
    proof -
      let ?a = "fd2data (INDEX2FD n) + off + of_nat i"
      have a: "?a \<in> plain P" using data_plain [OF f fits] i by blast
      have "ld8 ?a t = ld8 ?a s1"
      proof (rule um.same_but_ld [OF t(4)])
        fix c assume c: "c \<in> ?W"
        then have "c \<in> harmless n P" using off_word_harmless [OF s1(5)] by blast
        moreover have "?a \<noteq> c"
          using c fd_byte(1) [OF n(1), of 4] data_byte [OF n(1), of off i] fits n i by auto
        ultimately show "loc ?a s1 \<noteq> loc c s1"
          using word_harmless_loc(1) [OF s1(5), of ?a c] a by (simp add: harmless_def)
      qed
      then show ?thesis using s1(2) i by simp
    qed
    then show ?thesis using that r t(2) bytes_only_trans [OF s1(4) t(3)] um.same_but_trans [OF s1(3) t(4)] by blast
  qed
qed

lemma read_ok:
  assumes f: "file_fd n off sz P s" and b: "buffer P buf (unat k + 1)" and nowrap: "unat off + unat k < 2 ^ 32"
    and m: "m = (if sz < off then 0 else min k (sz - off))"
  obtains t where "read n buf k s = Some (m, t)" "file_fd n (off + m) sz P t"
    "\<forall>i<unat m. ld8 (buf + of_nat i) t = ld8 (fd2data (INDEX2FD n) + off + of_nat i) s"
    "ld8 (buf + m) t = Some 0"
    "\<forall>a\<in>plain P. (\<forall>i\<le>unat m. a \<noteq> buf + of_nat i) \<longrightarrow> ld8 a t = ld8 a s"
proof -
  let ?B = "(\<lambda>i. buf + of_nat i) ` {..<unat m}"
  let ?W = "(\<lambda>i. INDEX2FD n + 4 + of_nat i) ` {..<4}"
  have n: "unat n < 32" "unat sz \<le> 0x400000" using f by (simp_all add: file_fd_def word_le_nat_alt)
  have mk: "unat m \<le> unat k" "unat m \<le> unat sz"
    using m by (auto simp: min_def word_le_nat_alt word_less_nat_alt unat_sub)
  have fits: "m \<noteq> 0 \<Longrightarrow> unat off + unat m \<le> unat sz"
    using m by (auto simp: min_def word_le_nat_alt word_less_nat_alt unat_sub split: if_splits)
  have flds: "ld32 (INDEX2FD n + 8) s = Some 2" "ld32 (INDEX2FD n + 4) s = Some off" "ld32 (144 + INDEX2FD n) s = Some sz"
    using f by (simp_all add: file_fd_def add.commute)
  have bm: "buffer P buf (unat m + 1)" using b mk(1) by (auto simp: buffer_def)
  have tot: "unat (off + k) = unat off + unat k" using nowrap by (simp add: unat_word_ariths)
  have "\<exists>s1. file_read (INDEX2FD n) buf k off s = Some (m, s1) \<and> file_fd n off sz P s1 \<and>
      um.same_but ?B s s1 \<and> (\<forall>i<unat m. ld8 (buf + of_nat i) s1 = ld8 (fd2data (INDEX2FD n) + off + of_nat i) s)"
  proof (cases "sz < off")
    case True
    then show ?thesis using m flds(3) f by (simp add: file_read_def um.same_but_refl)
  next
    case False
    then have m': "(if sz < off + k then sz - off else k) = m"
      using m tot by (auto simp: min_def word_le_nat_alt word_less_nat_alt unat_sub)
    have r: "file_read (INDEX2FD n) buf k off s = do {
        s \<leftarrow> copy_user (fd2data (INDEX2FD n) + off) buf (unat m) s; Some (m, s) }"
      using False flds(3) by (simp add: file_read_def Let_def m')
    show ?thesis
    proof (cases "m = 0")
      case True
      then show ?thesis using r f by (simp add: um.same_but_refl)
    next
      case nz: False
      have bm0: "buffer P buf (unat m)" using bm by (simp add: buffer_def)
      obtain s1 where s1: "copy_user (fd2data (INDEX2FD n) + off) buf (unat m) s = Some s1"
        "\<forall>i<unat m. ld8 (buf + of_nat i) s1 = ld8 (fd2data (INDEX2FD n) + off + of_nat i) s"
        "um.same_but ?B s s1" "bytes_only s s1" "file_fd n off sz P s1"
      proof (rule copy_file [OF f data_plain [OF f fits [OF nz]] buffer_plain [OF bm0]])
        show "unat m < 0x80000000" using mk(2) n(2) by simp
        show "fd2data (INDEX2FD n) + off + of_nat i \<noteq> buf + of_nat j" if "i < unat m" "j < unat m" for i j
          using buffer_data_apart [OF f bm0 fits [OF nz] that(2,1)] by simp
      qed
      then show ?thesis using r by auto
    qed
  qed
  then obtain s1 where s1: "file_read (INDEX2FD n) buf k off s = Some (m, s1)" "file_fd n off sz P s1"
    "\<forall>i<unat m. ld8 (buf + of_nat i) s1 = ld8 (fd2data (INDEX2FD n) + off + of_nat i) s" "um.same_but ?B s s1" by blast
  obtain s2 where s2: "st32 (INDEX2FD n + 4) (off + m) s1 = Some s2" "file_fd n (off + m) sz P s2" "bytes_only s1 s2"
    "um.same_but ?W s1 s2" by (rule set_offset [OF s1(2)])
  have bp: "buf + of_nat i \<in> plain P" if "i < unat m + 1" for i using buffer_plain [OF bm] that by blast
  have bm1: "buf + m \<in> plain P" using bp [of "unat m"] by simp
  have bw: "writable (buf + m) s2" using word_harmless_loc(2) [OF s2(2), of "buf + m" "buf + m"] bm1 by (simp add: harmless_def)
  obtain t where t: "st8 (buf + m) 0 s2 = Some t" "ld8 (buf + m) t = Some 0" "um.same_but {buf + m} s2 t"
    by (rule um.st_ok [OF bw])
  have "unat m < 0x80000000" using mk(2) n(2) by simp
  then have nn: "\<not> neg m" by (rule not_neg)
  have "ld32 (INDEX2FD n + 4) s1 = Some off" using s1(2) by (simp add: file_fd_def)
  then have r: "read n buf k s = Some (m, t)"
    using s1(1) flds nn s2(1) t(1) by (simp add: read_def with_dev_file [OF f])
  have ft: "file_fd n (off + m) sz P t"
  proof -
    have A: "{buf + m} \<subseteq> plain P" using bm1 by simp
    have "ld32 (INDEX2FD n + 4) t = Some (off + m)"
      using fd_word_keep [OF s2(2) t(3) plain_harmless [OF A], of 4] A s2(2) by (simp add: file_fd_def)
    then show ?thesis by (rule file_fd_keep [OF s2(2) st8_bytes [OF t(1)] t(3) plain_harmless [OF A]])
  qed
  have "ld8 (buf + of_nat i) t = ld8 (fd2data (INDEX2FD n) + off + of_nat i) s" if i: "i < unat m" for i
  proof -
    let ?a = "buf + of_nat i"
    have a: "?a \<in> harmless n P" using bp [of i] i by (simp add: harmless_def)
    have ub: "unat buf + unat m < 0x5FF00000" using bm by (simp add: buffer_def)
    then have ua: "unat ?a = unat buf + i" "unat (buf + m) = unat buf + unat m"
      using i by (simp_all add: unat_word_ariths unat_of_nat_u32)
    have "ld8 ?a t = ld8 ?a s2"
    proof (rule um.same_but_ld [OF t(3)])
      fix c assume "c \<in> {buf + m}"
      moreover have "?a \<noteq> buf + m" using ua i by auto
      ultimately show "loc ?a s2 \<noteq> loc c s2"
        using word_harmless_loc(1) [OF s2(2) a, of "buf + m"] bm1 by (simp add: harmless_def)
    qed
    also have "\<dots> = ld8 ?a s1"
    proof (rule um.same_but_ld [OF s2(4)])
      fix c assume c: "c \<in> ?W"
      then have "c \<in> harmless n P" using off_word_harmless [OF s1(2)] by blast
      moreover have "?a \<noteq> c" using c fd_byte(1) [OF n(1), of 4] ua ub i by auto
      ultimately show "loc ?a s1 \<noteq> loc c s1" using word_harmless_loc(1) [OF s1(2) a, of c] by simp
    qed
    finally show ?thesis using s1(3) i by simp
  qed
  moreover have "ld8 a t = ld8 a s" if a: "a \<in> plain P" and out: "\<forall>i\<le>unat m. a \<noteq> buf + of_nat i" for a
  proof -
    have ah: "a \<in> harmless n P" using a by (simp add: harmless_def)
    have "ld8 a t = ld8 a s2"
    proof (rule um.same_but_ld [OF t(3)])
      fix c assume "c \<in> {buf + m}"
      then show "loc a s2 \<noteq> loc c s2"
        using word_harmless_loc(1) [OF s2(2) ah, of "buf + m"] bm1 spec [OF out, of "unat m"] by (simp add: harmless_def)
    qed
    also have "\<dots> = ld8 a s1"
    proof (rule um.same_but_ld [OF s2(4)])
      fix c assume c: "c \<in> ?W"
      then have "c \<in> harmless n P" using off_word_harmless [OF s1(2)] by blast
      moreover have "a \<noteq> c" using c fd_byte(1) [OF n(1), of 4] a n(1) by (auto simp: plain_def)
      ultimately show "loc a s1 \<noteq> loc c s1" using word_harmless_loc(1) [OF s1(2) ah, of c] by simp
    qed
    also have "\<dots> = ld8 a s"
    proof (rule um.same_but_ld [OF s1(4)])
      fix c assume "c \<in> ?B"
      then obtain i where i: "i < unat m" "c = buf + of_nat i" by auto
      then have "a \<noteq> c" "c \<in> harmless n P" using out bp [of i] by (auto simp: harmless_def)
      then show "loc a s \<noteq> loc c s" using word_harmless_loc(1) [OF f ah, of c] by simp
    qed
    finally show ?thesis .
  qed
  ultimately show ?thesis using that r ft t(2) by blast
qed

text \<open>Property C24. On a file of \<open>sz\<close> bytes at offset \<open>off\<close>, \<open>read\<close> copies the bytes that were asked
  for, or those up to the end of the file when there are fewer, or none beyond the end; it returns
  how many, puts a NUL behind them, and moves the offset by as many.\<close>

theorem read_correct:
  assumes "file_fd n off sz P s" "buffer P buf (unat k + 1)" "unat off + unat k < 2 ^ 32"
  shows "\<exists>m t. read n buf k s = Some (m, t) \<and> m = (if sz < off then 0 else min k (sz - off)) \<and>
    file_fd n (off + m) sz P t \<and> ld8 (buf + m) t = Some 0 \<and>
    (\<forall>i<unat m. ld8 (buf + of_nat i) t = ld8 (fd2data (INDEX2FD n) + off + of_nat i) s)"
  by (rule read_ok [OF assms refl]) blast

text \<open>Property C21. What is written at an offset inside a file is what a seek back and a read return.\<close>

theorem write_seek_read:
  assumes f: "file_fd n off sz P s" and b: "buffer P src (unat k)" "buffer P dst (unat k + 1)"
    and fits: "unat off + unat k \<le> unat sz"
  shows "\<exists>s1 s2 s3. write_fd n src k s = Some (k, s1) \<and> seek n off s1 = Some (0, s2) \<and>
    read n dst k s2 = Some (k, s3) \<and> (\<forall>i<unat k. ld8 (dst + of_nat i) s3 = ld8 (src + of_nat i) s)"
proof -
  let ?d = "fd2data (INDEX2FD n) + off"
  have n: "unat n < 32" "unat sz \<le> 0x400000" using f by (simp_all add: file_fd_def word_le_nat_alt)
  obtain s1 where s1: "write_fd n src k s = Some (k, s1)" "file_fd n (off + k) sz P s1"
    "\<forall>i<unat k. ld8 (?d + of_nat i) s1 = ld8 (src + of_nat i) s" by (rule write_ok [OF f b(1) fits]) blast
  obtain s2 where s2: "seek n off s1 = Some (0, s2)" "file_fd n off sz P s2"
    "um.same_but ((\<lambda>i. INDEX2FD n + 4 + of_nat i) ` {..<4}) s1 s2" by (rule seek_ok [OF s1(2)]) blast
  have "off \<le> sz" "k \<le> sz - off" using fits by (simp_all add: word_le_nat_alt unat_sub)
  then have m: "k = (if sz < off then 0 else min k (sz - off))" by (auto simp: min_def)
  have "unat off + unat k < 2 ^ 32" using fits n(2) by simp
  then obtain s3 where s3: "read n dst k s2 = Some (k, s3)"
    "\<forall>i<unat k. ld8 (dst + of_nat i) s3 = ld8 (?d + of_nat i) s2" by (rule read_ok [OF s2(2) b(2) _ m]) blast
  have "ld8 (?d + of_nat i) s2 = ld8 (?d + of_nat i) s1" if i: "i < unat k" for i
  proof (rule um.same_but_ld [OF s2(3)])
    have a: "?d + of_nat i \<in> plain P" using data_plain [OF f fits] i by blast
    fix c assume c: "c \<in> (\<lambda>i. INDEX2FD n + 4 + of_nat i) ` {..<4}"
    then have "c \<in> harmless n P" using off_word_harmless [OF f] by blast
    moreover have "?d + of_nat i \<noteq> c"
      using c fd_byte(1) [OF n(1), of 4] data_byte [OF n(1), of off i] fits n i by auto
    ultimately show "loc (?d + of_nat i) s1 \<noteq> loc c s1"
      using word_harmless_loc(1) [OF s1(2), of "?d + of_nat i" c] a by (simp add: harmless_def)
  qed
  then have "\<forall>i<unat k. ld8 (dst + of_nat i) s3 = ld8 (src + of_nat i) s" using s1(3) s3(2) by simp
  then show ?thesis using s1(1) s2(1) s3(1) by blast
qed

text \<open>Property C25. \<open>readn\<close> comes back: after at most two calls of \<open>read\<close> it has the bytes that were
  asked for, or those that the file had left.\<close>

theorem readn_terminates:
  assumes f: "file_fd n off sz P s" and b: "buffer P buf (unat k + 1)" and nowrap: "unat off + unat k < 2 ^ 32"
  shows "\<exists>m t. readn n buf k s = Some (m, t) \<and> m = (if sz < off then 0 else min k (sz - off)) \<and>
    file_fd n (off + m) sz P t \<and>
    (\<forall>i<unat m. ld8 (buf + of_nat i) t = ld8 (fd2data (INDEX2FD n) + off + of_nat i) s)"
proof -
  define m where "m = (if sz < off then 0 else min k (sz - off))"
  have n: "unat sz \<le> 0x400000" using f by (simp add: file_fd_def word_le_nat_alt)
  have mk: "unat m \<le> unat k" "unat m \<le> unat sz"
    using m_def by (auto simp: min_def word_le_nat_alt word_less_nat_alt unat_sub)
  obtain s1 where s1: "read n buf k s = Some (m, s1)" "file_fd n (off + m) sz P s1"
    "\<forall>i<unat m. ld8 (buf + of_nat i) s1 = ld8 (fd2data (INDEX2FD n) + off + of_nat i) s"
    by (rule read_ok [OF f b nowrap m_def]) blast
  have nn: "\<not> neg m" using mk(2) n by (intro not_neg) simp
  note loop = readn_def readn_loop.simps [of n buf k 0 s]
  consider "k = 0" | "0 < k" "m = 0" | "0 < m" "m = k" | "0 < m" "m < k"
    using mk(1) by (simp add: word_less_nat_alt word_unat_eq_iff) linarith
  then show ?thesis
  proof cases
    case 1
    have "m = 0" using 1 mk(1) by (simp add: unat_eq_zero)
    then show ?thesis using 1 loop f by (auto simp: m_def [symmetric])
  next
    case 2
    then show ?thesis using s1 loop by (auto simp: m_def [symmetric] neg_def)
  next
    case 3
    then have "readn n buf k s = Some (m, s1)"
      using s1(1) loop nn readn_loop.simps [of n buf k k s1] by simp
    then show ?thesis using s1 by (auto simp: m_def [symmetric])
  next
    case 4
    have le: "\<not> sz < off" "m = sz - off" using 4 m_def by (auto simp: min_def split: if_splits)
    then have off: "off + m = sz" by simp
    have km: "unat (k - m) = unat k - unat m" using mk(1) by (simp add: unat_sub word_le_nat_alt)
    have b1: "buffer P (buf + m) (unat (k - m) + 1)"
    proof -
      have "PPN (buf + m + of_nat i) \<in> P" if "i < unat (k - m) + 1" for i
      proof -
        have "buf + m + of_nat i = buf + of_nat (unat m + i)" by (simp add: add.assoc)
        moreover have "unat m + i < unat k + 1" using that km mk(1) by simp
        ultimately show ?thesis using b by (simp only: buffer_def)
      qed
      moreover have "unat (buf + m) = unat buf + unat m"
        using b mk(1) by (simp add: buffer_def unat_word_ariths)
      ultimately show ?thesis using b km mk(1) by (simp add: buffer_def)
    qed
    have z: "0 = (if sz < sz then 0 else min (k - m) (sz - sz))" by (simp add: min_def)
    have nw: "unat sz + unat (k - m) < 2 ^ 32"
    proof -
      have "unat off \<le> unat sz" "unat m = unat sz - unat off"
        using le by (simp_all add: not_less word_le_nat_alt unat_sub)
      then show ?thesis using nowrap km mk(1) by linarith
    qed
    obtain t where t: "read n (buf + m) (k - m) s1 = Some (0, t)" "file_fd n sz sz P t"
      "\<forall>a\<in>plain P. (\<forall>i\<le>unat (0 :: u32). a \<noteq> buf + m + of_nat i) \<longrightarrow> ld8 a t = ld8 a s1"
      using s1(2) unfolding off
      by (elim read_ok [OF _ b1 nw z, where thesis = thesis]) auto
    have "readn n buf k s = Some (m, t)"
      using s1(1) t(1) loop nn 4 order.strict_trans [OF 4] readn_loop.simps [of n buf k m s1] by (simp add: neg_def)
    moreover have "ld8 (buf + of_nat i) t = ld8 (buf + of_nat i) s1" if i: "i < unat m" for i
    proof -
      have "buf + of_nat i \<in> plain P" using buffer_plain [OF b] i mk(1) by auto
      moreover have "buf + of_nat i \<noteq> buf + m"
        using unat_of_nat_u32 [of i] i unat_u32 [of m] by (metis add_left_cancel less_irrefl order.strict_trans)
      ultimately show ?thesis using t(3) by auto
    qed
    ultimately show ?thesis using s1(3) t(2) off by (auto simp: m_def [symmetric])
  qed
qed

text \<open>A process with one open file of ten bytes.\<close>

definition example_proc :: proc where
  "example_proc = \<lparr>pages = (\<lambda>_. None)(0x5FF00 := Some (Own 0, 0x43B), 0x60000 := Some (Own 1, 0x43B), 0x400 := Some (Own 2, 0x43A)),
     frames = (\<lambda>k off. if k = 0 \<and> off = 0 then 102 else if k = 0 \<and> off = 8 then 2 else if k = 0 \<and> off = 144 then 10
       else if k = 2 then ucast off else 0),
     next_frame = 4, calls = 0, enough = (\<lambda>_. True), fileserv = example_srv, me = 9, ipcbuf = 0x401000,
     dev_addr = id, cout = [], cin = []\<rparr>"

lemma example_file: "file_fd 0 0 10 {0x5FF00, 0x60000, 0x400} example_proc"
proof -
  have "PPN (fd2data (INDEX2FD 0) + of_nat k) = 0x60000" if "k < 10" for k
  proof -
    have "unat (fd2data (INDEX2FD 0) + of_nat k) = 0x60000000 + k" using data_byte [of 0 0 k] that by simp
    moreover have "(0x60000000 + k) div 4096 = 0x60000" using that by simp
    ultimately show ?thesis by (simp add: word_unat_eq_iff PPN_unat)
  qed
  moreover have "unshared example_proc {0x5FF00, 0x60000, 0x400}"
    by (auto simp: unshared_def example_proc_def inj_on_def)
  moreover have "ld32 (INDEX2FD 0) example_proc = Some 102" "ld32 (INDEX2FD 0 + 4) example_proc = Some 0"
    "ld32 (INDEX2FD 0 + 8) example_proc = Some 2" "ld32 (INDEX2FD 0 + 144) example_proc = Some 10"
    by (simp_all add: ld32_def ld8_def INDEX2FD_def example_proc_def PPN_def PG_ADDR_OFFSET_def frame_byte_def)
  moreover have "user_va_perm (INDEX2FD 0) example_proc = 0x43B"
    by (simp add: user_va_perm_def INDEX2FD_def example_proc_def PPN_def)
  ultimately show ?thesis by (simp add: file_fd_def INDEX2FD_def PPN_def)
qed

lemma example_buffer: "k \<le> 12 \<Longrightarrow> x \<le> 100 \<Longrightarrow> buffer {0x5FF00, 0x60000, 0x400} (0x400000 + of_nat x) k"
proof -
  assume k: "k \<le> 12" "x \<le> 100"
  have u: "unat (0x400000 + of_nat x + of_nat i :: u32) = 0x400000 + x + i" if "i < k" for i
    using k that by (simp add: unat_word_ariths unat_of_nat_u32)
  have "PPN (0x400000 + of_nat x + of_nat i) = 0x400" if "i < k" for i
  proof -
    have "(0x400000 + x + i) div 4096 = 0x400" using k that by simp
    then show ?thesis by (simp add: word_unat_eq_iff PPN_unat u [OF that])
  qed
  moreover have "unat (0x400000 + of_nat x :: u32) + k \<le> unat FDTABLE"
    using k by (simp add: unat_word_ariths unat_of_nat_u32)
  ultimately show ?thesis by (simp add: buffer_def)
qed

theorem read_correct_witness:
  "\<exists>t. read 0 0x400000 11 example_proc = Some (10, t) \<and> ld8 0x40000A t = Some 0"
  using read_correct [OF example_file, of "0x400000" 11] example_buffer [of 12 0] by (auto simp: min_def)

theorem write_seek_read_witness:
  "\<exists>s1 s2 s3. write_fd 0 0x400000 5 example_proc = Some (5, s1) \<and> seek 0 0 s1 = Some (0, s2) \<and>
    read 0 0x400064 5 s2 = Some (5, s3) \<and> ld8 0x400067 s3 = Some 3"
proof -
  have "ld8 0x400003 example_proc = Some 3"
    by (simp add: ld8_def example_proc_def PPN_def PG_ADDR_OFFSET_def frame_byte_def)
  moreover obtain s1 s2 s3 where "write_fd 0 0x400000 5 example_proc = Some (5, s1)" "seek 0 0 s1 = Some (0, s2)"
    "read 0 0x400064 5 s2 = Some (5, s3)"
    "\<forall>i<unat (5 :: u32). ld8 (0x400064 + of_nat i) s3 = ld8 (0x400000 + of_nat i) example_proc"
    using write_seek_read [OF example_file, of "0x400000" 5 "0x400064"] example_buffer [of 5 0] example_buffer [of 6 100] by auto
  ultimately show ?thesis by (auto dest: spec [of _ 3])
qed

theorem readn_terminates_witness:
  "\<exists>t. readn 0 0x400000 11 example_proc = Some (10, t) \<and> file_fd 0 10 10 {0x5FF00, 0x60000, 0x400} t"
  using readn_terminates [OF example_file, of "0x400000" 11] example_buffer [of 12 0] by (auto simp: min_def)

theorem fd_alloc_correct_witness:
  "fd_alloc example_proc = Inr (INDEX2FD 1)"
proof -
  have "user_va_perm (INDEX2FD 0) example_proc \<noteq> 0" "user_va_perm (INDEX2FD 1) example_proc = 0"
    by (simp_all add: user_va_perm_def INDEX2FD_def example_proc_def PPN_def)
  then show ?thesis
    using fd_alloc_correct [of example_proc] by (auto intro!: exI [of _ "1 :: nat"])
qed

end
