(* ===== verification/Fs_Inode.thy ===== *)
theory Fs_Inode
  imports Fs_Files Fs_Start
begin

section \<open>The blocks of a file: proofs\<close>

text \<open>
  \<open>file_at s b i\<close> says that a \<open>struct File\<close> can stand at word \<open>i\<close> of the page of block \<open>b\<close>:
  the page is mapped, is not the bitmap's, and the file does not overlap the superblock's two
  words. Its fields are then cells, which an allocation leaves alone.
\<close>

definition file_at :: "fs \<Rightarrow> u32 \<Rightarrow> u32 \<Rightarrow> bool" where
  "file_at s b i \<longleftrightarrow> b < 2048 \<and> i \<le> 960 \<and> mapped s b \<and> b \<noteq> 2 \<and> (b = 1 \<longrightarrow> 2 \<le> i)"

lemma field_cell:
  "f_size (cell b i) = cell b (i + 32)" "f_type (cell b i) = cell b (i + 33)"
  "f_direct (cell b i) k = cell b (i + 34 + k)" "f_indirect (cell b i) = cell b (i + 44)"
  "f_dir (cell b i) = cell b (i + 45)"
  by (simp_all add: cell_def algebra_simps)

lemma field_index:
  fixes i j :: u32
  assumes "i \<le> 960" "j < 64"
  shows "i + j < 1024" "unat (i + j) = unat i + unat j"
proof -
  have ij: "unat i \<le> 960" "unat j < 64" using assms by (simp_all add: word_less_nat_alt word_le_nat_alt)
  then show "unat (i + j) = unat i + unat j" by (simp add: unat_word_ariths)
  then show "i + j < 1024" using ij by (simp add: word_less_nat_alt)
qed

lemma file_not_super: "file_at s 1 i \<Longrightarrow> j < 64 \<Longrightarrow> i + j \<noteq> 1"
proof
  assume f: "file_at s 1 i" and j: "j < 64" and eq: "i + j = 1"
  then have "unat i + unat j = 1" using field_index(2) [of i j] by (simp add: file_at_def)
  moreover have "2 \<le> unat i" using f by (simp add: file_at_def word_le_nat_alt)
  ultimately show False by simp
qed

lemma rd_field: "file_at s b i \<Longrightarrow> j < 64 \<Longrightarrow> rd (cell b (i + j)) s = Some (load32 (umem s) (cell b (i + j)))"
  using field_index(1) [of i j] by (simp add: rd_def is_mapped_cell file_at_def)

definition set_cell :: "u32 \<Rightarrow> u32 \<Rightarrow> u32 \<Rightarrow> fs \<Rightarrow> fs" where
  "set_cell b i v s = s\<lparr>umem := store32 (umem s) (cell b i) v\<rparr>"

lemma wrt_field: "file_at s b i \<Longrightarrow> j < 64 \<Longrightarrow> wrt (cell b (i + j)) v s = Some (set_cell b (i + j) v s)"
  using field_index(1) [of i j] by (simp add: wrt_def set_cell_def is_mapped_cell file_at_def)

lemma set_cell_fields:
  assumes "fs_ok s" "file_at s b i" "j < 64"
  shows "fs_ok (set_cell b (i + j) v s)" "nblocks (set_cell b (i + j) v s) = nblocks s"
    "free (set_cell b (i + j) v s) = free s" "mapped (set_cell b (i + j) v s) = mapped s"
    "\<And>c k. c < 2048 \<Longrightarrow> k < 1024 \<Longrightarrow> load32 (umem (set_cell b (i + j) v s)) (cell c k) =
      (if c = b \<and> k = i + j then v else load32 (umem s) (cell c k))"
proof -
  have ij: "i + j < 1024" "b < 2048" "b \<noteq> 2" using assms(2) field_index(1) [OF _ assms(3)] by (auto simp: file_at_def)
  show *: "\<And>c k. c < 2048 \<Longrightarrow> k < 1024 \<Longrightarrow> load32 (umem (set_cell b (i + j) v s)) (cell c k) =
      (if c = b \<and> k = i + j then v else load32 (umem s) (cell c k))"
    using ij by (auto simp: set_cell_def load_store_cell)
  show m: "mapped (set_cell b (i + j) v s) = mapped s" by (simp add: set_cell_def mapped_def fun_eq_iff)
  have ms: "mapped s 0" "mapped s 1" "mapped s 2" using assms(1) by (auto simp: fs_ok_def)
  have "b = 1 \<Longrightarrow> i + j \<noteq> 1" using file_not_super assms(2,3) by blast
  then have "fs_ok (set_cell b (i + j) v s) \<and> nblocks (set_cell b (i + j) v s) = nblocks s
      \<and> free (set_cell b (i + j) v s) = free s"
    using ij ms by (intro fs_ok_other [OF assms(1)]) (auto simp: * m low_word_64, simp_all add: set_cell_def)
  then show "fs_ok (set_cell b (i + j) v s)" "nblocks (set_cell b (i + j) v s) = nblocks s"
    "free (set_cell b (i + j) v s) = free s" by blast+
qed

lemma file_at_set [simp]: "file_at (set_cell c k v s) b i = file_at s b i"
  by (simp add: file_at_def set_cell_def mapped_def)

subsection \<open>What an allocation leaves alone\<close>

lemma take_other_cell:
  "b < 2048 \<Longrightarrow> c < 2048 \<Longrightarrow> j < 1024 \<Longrightarrow> c \<noteq> 2 \<Longrightarrow>
    load32 (umem (take_block b s)) (cell c j) = load32 (umem s) (cell c j)"
  by (simp add: take_block_def load_store_cell bitmap_index)

lemma alloc_block_frame:
  assumes "fs_ok s" "alloc_block s = Some (r, s')" "c < 2048" "mapped s c" "c \<noteq> 2" "j < 1024"
  shows "load32 (umem s') (cell c j) = load32 (umem s) (cell c j)" "mapped s' c"
proof -
  have "load32 (umem s') (cell c j) = load32 (umem s) (cell c j) \<and> mapped s' c"
  proof (cases "first_free s")
    case None
    then show ?thesis using assms by (simp add: alloc_block_eq)
  next
    case (Some b)
    have b: "b < 2048" using first_free_Some(3) [OF Some] nblocks_le [OF assms(1)] by auto
    have m: "mapped (take_block b s') c = mapped s' c" for s' by (simp add: take_block_def mapped_def)
    have "c \<noteq> b" if "\<not> mapped s b" using that assms(4) by blast
    then show ?thesis
      using assms b Some m [of s]
      by (cases "mapped s b"; cases "grant s (allocs s)")
        (auto simp: alloc_block_eq take_other_cell paged_def block_region_other mapped_def take_block_def [of b "_ \<lparr>allocs := _\<rparr>"],
         auto simp: take_other_cell load_store_cell bitmap_index mapped_def take_block_def flushed_def)
  qed
  then show "load32 (umem s') (cell c j) = load32 (umem s) (cell c j)" "mapped s' c" by simp_all
qed

text \<open>Property C35. \<open>alloc_block\<close> on every branch. Success: the lowest free block, now in use and
  mapped. Out of blocks: nothing changes. Out of memory: an error, and the block, although not
  handed out, is no longer free. No page in memory changes but the bitmap's.\<close>

theorem alloc_block_correct:
  assumes "fs_ok s"
  shows "\<exists>r s'. alloc_block s = Some (r, s') \<and> fs_ok s' \<and> nblocks s' = nblocks s \<and>
    (\<forall>c j. c < 2048 \<and> mapped s c \<and> c \<noteq> 2 \<and> j < 1024 \<longrightarrow> load32 (umem s') (cell c j) = load32 (umem s) (cell c j)) \<and>
    (case first_free s of
       None \<Rightarrow> r = Inl E_NO_DISK \<and> s' = s
     | Some b \<Rightarrow> (\<forall>c. free s' c \<longleftrightarrow> free s c \<and> c \<noteq> b) \<and>
         (if mapped s b \<or> grant s (allocs s) then r = Inr b \<and> mapped s' b else r = Inl E_NO_MEM))"
  using alloc_block_ok [OF assms] alloc_block_frame [OF assms] by meson

theorem alloc_block_correct_witness:
  "\<exists>r s'. alloc_block example_fs = Some (r, s') \<and> r = Inr 3 \<and> mapped s' 3 \<and> \<not> free s' 3"
proof -
  have "grant example_fs (allocs example_fs)" by (simp add: example_fs_def)
  then show ?thesis using alloc_block_correct [OF example_ok] by (auto simp: example_first)
qed

subsection \<open>Block pointers\<close>

lemma direct_index: "k < 10 \<Longrightarrow> 34 + k < 64" for k :: u32
  by (simp add: word_less_nat_alt unat_word_ariths)

text \<open>Reading or filling a word that holds a block number, as \<open>file_map_block\<close> does.\<close>

definition fill :: "u32 \<Rightarrow> bool \<Rightarrow> fs \<Rightarrow> u32 res" where
  "fill ptr alloc s = do {
     b \<leftarrow> rd ptr s;
     if b \<noteq> 0 then Some (Inr b, s)
     else if \<not> alloc then Some (Inl E_NOT_FOUND, s)
     else on_ok (alloc_block s) (\<lambda>b s. do { s \<leftarrow> wrt ptr b s; Some (Inr b, s) })
   }"

lemma file_map_block_fill:
  "file_map_block f n alloc s = on_ok (file_block_walk f n alloc s) (\<lambda>ptr. fill ptr alloc)"
  by (simp add: file_map_block_def fill_def [abs_def])

text \<open>What filling the word at \<open>cell b i\<close> gives.\<close>

definition filled :: "u32 \<Rightarrow> u32 \<Rightarrow> bool \<Rightarrow> fs \<Rightarrow> (errcode + u32) \<Rightarrow> fs \<Rightarrow> bool" where
  "filled b i alloc s r s' \<longleftrightarrow>
     (let old = load32 (umem s) (cell b i) in
      if old \<noteq> 0 then r = Inr old \<and> s' = s
      else if \<not> alloc then r = Inl E_NOT_FOUND \<and> s' = s
      else case r of
        Inl e \<Rightarrow> (e = E_NO_DISK \<or> e = E_NO_MEM) \<and> load32 (umem s') (cell b i) = 0
      | Inr n \<Rightarrow> first_free s = Some n \<and> mapped s' n \<and> load32 (umem s') (cell b i) = n
          \<and> (\<forall>c. free s' c \<longleftrightarrow> free s c \<and> c \<noteq> n))"

lemma filled_again: "filled b i alloc s (Inr n) s' \<Longrightarrow> load32 (umem s') (cell b i) = n \<and> n \<noteq> 0"
proof -
  assume "filled b i alloc s (Inr n) s'"
  then consider "load32 (umem s) (cell b i) \<noteq> 0" "n = load32 (umem s) (cell b i)" "s' = s"
    | "first_free s = Some n" "load32 (umem s') (cell b i) = n"
    by (simp add: filled_def Let_def split: if_split_asm)
  then show ?thesis
  proof cases
    case 2
    have "3 \<le> n" by (rule first_free_Some(2) [OF 2(1)])
    then have "n \<noteq> 0" by (auto simp: word_le_nat_alt)
    then show ?thesis using 2(2) by simp
  qed simp
qed

lemma fill_ok:
  assumes ok: "fs_ok s" and f: "file_at s b i" and j: "j < 64"
  shows "\<exists>r s'. fill (cell b (i + j)) alloc s = Some (r, s') \<and> fs_ok s' \<and> file_at s' b i \<and>
    filled b (i + j) alloc s r s' \<and>
    (\<forall>c k. c < 2048 \<and> mapped s c \<and> c \<noteq> 2 \<and> k < 1024 \<and> (c, k) \<noteq> (b, i + j) \<longrightarrow>
       load32 (umem s') (cell c k) = load32 (umem s) (cell c k))"
proof -
  let ?old = "load32 (umem s) (cell b (i + j))"
  have fb: "b < 2048" "mapped s b" "b \<noteq> 2" "i \<le> 960" using f by (auto simp: file_at_def)
  note ij = field_index(1) [OF fb(4) j]
  consider "?old \<noteq> 0" | "?old = 0" "\<not> alloc" | "?old = 0" "alloc" by blast
  then show ?thesis
  proof cases
    case 3
    obtain r s1 where a: "alloc_block s = Some (r, s1)" "fs_ok s1"
      "case first_free s of None \<Rightarrow> r = Inl E_NO_DISK \<and> s1 = s
       | Some n \<Rightarrow> (\<forall>c. free s1 c \<longleftrightarrow> free s c \<and> c \<noteq> n) \<and>
           (if mapped s n \<or> grant s (allocs s) then r = Inr n \<and> mapped s1 n else r = Inl E_NO_MEM)"
      using alloc_block_ok [OF ok] by blast
    note frame = alloc_block_frame [OF ok a(1)]
    have f1: "file_at s1 b i" using f frame(2) [OF fb(1,2,3) ij] by (simp add: file_at_def)
    have z: "load32 (umem s1) (cell b (i + j)) = 0" using frame(1) [OF fb(1,2,3) ij] 3 by simp
    show ?thesis
    proof (cases r)
      case (Inl e)
      then have "e = E_NO_DISK \<or> e = E_NO_MEM" using a(3) by (auto split: option.splits if_splits)
      moreover have "fill (cell b (i + j)) alloc s = Some (Inl e, s1)"
        using 3 a(1) Inl by (simp add: fill_def rd_field [OF f j] on_ok_def)
      ultimately show ?thesis using 3 a(2) f1 z frame(1) by (auto simp: filled_def)
    next
      case (Inr n)
      then have n: "first_free s = Some n" "mapped s1 n" "\<And>c. free s1 c \<longleftrightarrow> free s c \<and> c \<noteq> n"
        using a(3) by (auto split: option.splits if_splits)
      let ?s' = "set_cell b (i + j) n s1"
      note set = set_cell_fields [OF a(2) f1 j, where v = n]
      have "fill (cell b (i + j)) alloc s = Some (Inr n, ?s')"
        using 3 a(1) Inr by (simp add: fill_def rd_field [OF f j] on_ok_def wrt_field [OF f1 j])
      moreover have "filled b (i + j) alloc s (Inr n) ?s'"
        using 3 n set fb(1) ij by (simp add: filled_def)
      moreover have "load32 (umem ?s') (cell c k) = load32 (umem s) (cell c k)"
        if "c < 2048" "mapped s c" "c \<noteq> 2" "k < 1024" "(c, k) \<noteq> (b, i + j)" for c k
        using that set(5) [of c k] frame(1) [of c k] by auto
      ultimately show ?thesis using set(1) f1 by auto
    qed
  qed (use ok f in \<open>auto simp: fill_def filled_def rd_field [OF f j]\<close>)
qed

text \<open>Property. \<open>file_map_block\<close> on the direct block pointers of a file: an existing block is
  returned unchanged, a hole is \<open>-E_NOT_FOUND\<close> or is filled with the lowest free block, which
  the next call finds; no other word of any file in memory changes.\<close>

theorem file_map_block_direct:
  assumes "fs_ok s" "file_at s b i" "k < NDIRECT"
  shows "\<exists>r s'. file_map_block (cell b i) k alloc s = Some (r, s') \<and> fs_ok s' \<and>
    filled b (i + 34 + k) alloc s r s' \<and>
    (\<forall>n. r = Inr n \<longrightarrow> file_map_block (cell b i) k False s' = Some (Inr n, s')) \<and>
    (\<forall>c j. c < 2048 \<and> mapped s c \<and> c \<noteq> 2 \<and> j < 1024 \<and> (c, j) \<noteq> (b, i + 34 + k) \<longrightarrow>
       load32 (umem s') (cell c j) = load32 (umem s) (cell c j))"
proof -
  have j: "34 + k < 64" using assms(3) by (rule direct_index)
  have walk: "file_map_block (cell b i) k a t = fill (cell b (i + (34 + k))) a t" for a t
  proof -
    have "f_direct (cell b i) k = cell b (i + (34 + k))" by (simp add: cell_def algebra_simps)
    then show ?thesis using assms(3) by (simp add: file_map_block_fill file_block_walk_def on_ok_def)
  qed
  obtain r s' where s': "fill (cell b (i + (34 + k))) alloc s = Some (r, s')" "fs_ok s'" "file_at s' b i"
    "filled b (i + (34 + k)) alloc s r s'"
    "\<forall>c j. c < 2048 \<and> mapped s c \<and> c \<noteq> 2 \<and> j < 1024 \<and> (c, j) \<noteq> (b, i + (34 + k)) \<longrightarrow>
       load32 (umem s') (cell c j) = load32 (umem s) (cell c j)"
    using fill_ok [OF assms(1,2) j] by blast
  have again: "fill (cell b (i + (34 + k))) False s' = Some (Inr n, s')" if "r = Inr n" for n
  proof -
    have "load32 (umem s') (cell b (i + (34 + k))) = n \<and> n \<noteq> 0"
      using s'(4) unfolding that by (rule filled_again)
    then show ?thesis by (simp add: fill_def rd_field [OF s'(3) j])
  qed
  show ?thesis
    unfolding walk add.assoc [of i 34 k]
    by (intro exI [of _ r] exI [of _ s'] conjI s' allI impI again)
qed

theorem file_map_block_direct_witness:
  "\<exists>n s'. file_map_block (cell 1 2) 0 True example_fs = Some (Inr n, s') \<and> n = 3 \<and>
    file_map_block (cell 1 2) 0 False s' = Some (Inr n, s')"
proof -
  have f: "file_at example_fs 1 2" by (simp add: file_at_def mapped_def example_fs_def word_le_nat_alt)
  have z: "load32 (umem example_fs) (cell 1 36) = 0"
    by (simp add: example_fs_def load_store_cell) (simp add: load32_def)
  obtain r s' where s': "file_map_block (cell 1 2) 0 True example_fs = Some (r, s')"
    "filled 1 36 True example_fs r s'"
    "\<forall>n. r = Inr n \<longrightarrow> file_map_block (cell 1 2) 0 False s' = Some (Inr n, s')"
    using file_map_block_direct [OF example_ok f, of 0 True] by auto
  show ?thesis
  proof (cases r)
    case (Inr n)
    then have "n = 3" using s'(2) z by (simp add: filled_def example_first)
    then show ?thesis using s' Inr by auto
  next
    case (Inl e)
    obtain s1 where "alloc_block example_fs = Some (Inr 3, s1)" using example_alloc by blast
    moreover have "file_map_block (cell 1 2) 0 True example_fs = fill (cell 1 36) True example_fs"
      by (simp add: file_map_block_fill file_block_walk_def on_ok_def cell_def)
    ultimately show ?thesis
      using s'(1) Inl z f by (auto simp: fill_def rd_def is_mapped_cell file_at_def on_ok_def split: Option.bind_splits)
  qed
qed

subsection \<open>Directories\<close>

text \<open>Block number \<open>k\<close> of the file at word \<open>i\<close> of block \<open>d\<close>; a directory whose first \<open>n\<close>
  blocks are all in use and in memory; its entries, in order.\<close>

definition block_no :: "fs \<Rightarrow> u32 \<Rightarrow> u32 \<Rightarrow> nat \<Rightarrow> u32" where
  "block_no s d i k = load32 (umem s) (cell d (i + 34 + of_nat k))"

definition in_use :: "fs \<Rightarrow> u32 \<Rightarrow> bool" where
  "in_use s e \<longleftrightarrow> e \<noteq> 0 \<and> e < nblocks s \<and> \<not> free s e \<and> mapped s e"

definition dir_at :: "fs \<Rightarrow> u32 \<Rightarrow> u32 \<Rightarrow> nat \<Rightarrow> bool" where
  "dir_at s d i n \<longleftrightarrow> file_at s d i \<and> n \<le> 10 \<and> load32 (umem s) (cell d (i + 32)) div BY2BLK = of_nat n
     \<and> (\<forall>k<n. in_use s (block_no s d i k))"

definition dir_entries :: "fs \<Rightarrow> u32 \<Rightarrow> u32 \<Rightarrow> nat list \<Rightarrow> u32 list" where
  "dir_entries s d i ks = concat (map (\<lambda>k. map (slot (cell (block_no s d i k) 0)) [0..<FILE2BLK]) ks)"

lemma get_block_present:
  assumes ok: "fs_ok s" and f: "file_at s d i" and k: "k < 10" and e: "in_use s (block_no s d i k)"
  shows "file_get_block (cell d i) (of_nat k) s = Some (Inr (cell (block_no s d i k) 0), s)"
proof -
  have k32: "(of_nat k :: u32) < 10" using k by (simp add: word_less_nat_alt unat_of_nat_u32)
  have "f_direct (cell d i) (of_nat k) = cell d (i + (34 + of_nat k))" by (simp add: cell_def algebra_simps)
  then have "file_map_block (cell d i) (of_nat k) True s = fill (cell d (i + (34 + of_nat k))) True s"
    using k32 by (simp add: file_map_block_fill file_block_walk_def on_ok_def)
  also have "\<dots> = Some (Inr (block_no s d i k), s)"
    using e by (simp add: fill_def rd_field [OF f direct_index [OF k32]] in_use_def block_no_def add.assoc)
  finally show ?thesis
    using e by (simp add: file_get_block_def on_ok_def read_block_ok [OF ok] in_use_def)
qed

lemma slot_mapped:
  assumes "in_use s e" "fs_ok s" "j < FILE2BLK"
  shows "is_mapped s (f_dir (slot (cell e 0) j))"
proof -
  have "f_dir (slot (cell e 0) j) = cell e (of_nat j * 64 + 45)" by (simp add: slot_def cell_def algebra_simps)
  moreover have "of_nat j * 64 + 45 < (1024 :: u32)"
    using assms(3) by (simp add: word_less_nat_alt unat_word_ariths unat_of_nat_u32)
  ultimately show ?thesis
    using assms(1) nblocks_le [OF assms(2)] by (simp add: is_mapped_cell in_use_def)
qed

lemma find_append_case: "find P (xs @ ys) = (case find P xs of None \<Rightarrow> find P ys | Some x \<Rightarrow> Some x)"
  by (induction xs) auto

lemma find_map: "find P (map f xs) = map_option f (find (\<lambda>x. P (f x)) xs)"
  by (induction xs) auto

lemma lookup_blocks_entries:
  assumes ok: "fs_ok s" and dir: "dir_at s d i n"
  shows "set ks \<subseteq> {..<n} \<Longrightarrow>
    lookup_blocks (cell d i) name ks s = Some (case find (\<lambda>f. str_eq (umem s) f name) (dir_entries s d i ks) of
        None \<Rightarrow> (Inl E_NOT_FOUND, s)
      | Some f \<Rightarrow> (Inr f, s\<lparr>umem := store32 (umem s) (f_dir f) (cell d i)\<rparr>))"
proof (induction ks)
  case Nil
  then show ?case by (simp add: dir_entries_def)
next
  case (Cons k ks)
  let ?e = "block_no s d i k" and ?P = "\<lambda>f. str_eq (umem s) f name"
  have f: "file_at s d i" and k: "k < 10" and e: "in_use s ?e"
    using dir Cons.prems by (auto simp: dir_at_def)
  note get = get_block_present [OF ok f k e]
  have entries: "dir_entries s d i (k # ks) = map (slot (cell ?e 0)) [0..<FILE2BLK] @ dir_entries s d i ks"
    by (simp only: dir_entries_def list.map concat.simps)
  show ?case
  proof (cases "find (\<lambda>j. ?P (slot (cell ?e 0) j)) [0..<FILE2BLK]")
    case None
    then have "find_slot (umem s) (cell ?e 0) ?P = None" by (simp only: find_slot_def option.map)
    moreover have "find ?P (dir_entries s d i (k # ks)) = find ?P (dir_entries s d i ks)"
      by (simp only: entries find_append_case find_map None option.map option.case)
    ultimately show ?thesis using Cons by (simp add: get on_ok_def)
  next
    case (Some j)
    then have "j < FILE2BLK" by (auto simp: find_Some_iff)
    then have m: "is_mapped s (f_dir (slot (cell ?e 0) j))" by (rule slot_mapped [OF e ok])
    have "find_slot (umem s) (cell ?e 0) ?P = Some (slot (cell ?e 0) j)" by (simp only: find_slot_def Some option.map)
    moreover have "find ?P (dir_entries s d i (k # ks)) = Some (slot (cell ?e 0) j)"
      by (simp only: entries find_append_case find_map Some option.map option.case)
    ultimately show ?thesis using m by (simp add: get on_ok_def wrt_def)
  qed
qed

text \<open>Property C38. In a directory of up to ten blocks that are in memory, \<open>dir_lookup\<close> gives the
  first entry, over all blocks in order, whose name is the one asked for, and records the
  directory in it; without such an entry it answers \<open>-E_NOT_FOUND\<close> and changes nothing.\<close>

theorem dir_lookup_correct:
  assumes "fs_ok s" "dir_at s d i n"
  shows "dir_lookup (cell d i) name s =
    Some (case find (\<lambda>f. str_eq (umem s) f name) (dir_entries s d i [0..<n]) of
        None \<Rightarrow> (Inl E_NOT_FOUND, s)
      | Some f \<Rightarrow> (Inr f, s\<lparr>umem := store32 (umem s) (f_dir f) (cell d i)\<rparr>))"
proof -
  let ?sz = "load32 (umem s) (cell d (i + 32))"
  have "rd (f_size (cell d i)) s = Some ?sz"
    using assms(2) by (simp add: field_cell rd_field dir_at_def)
  moreover have "unat (?sz div BY2BLK) = n" using assms(2) by (simp add: dir_at_def unat_of_nat_u32)
  ultimately show ?thesis
    using lookup_blocks_entries [OF assms, of "[0..<n]"] by (simp add: dir_lookup_def lessThan_atLeast0)
qed

text \<open>The example server whose root directory has one block, 3, with the file \<open>a\<close> as its
  second entry.\<close>

definition example_dir :: fs where
  "example_dir = set_cell 3 (64 + 0) 97 (set_cell 1 (2 + 34) 3 (set_cell 1 (2 + 32) 4096
     (paged 0x43B 3 (flushed 0 (take_block 3 example_fs)))))"

lemma load_bzero_cell: "b < 2048 \<Longrightarrow> i < 1024 \<Longrightarrow> load32 (bzero m (cell b 0) 4096) (cell b i) = 0"
  using cell_byte_in_block [of b b i 0] cell_byte_in_block [of b b i 1]
    cell_byte_in_block [of b b i 2] cell_byte_in_block [of b b i 3]
  by (simp add: load32_def bzero_closed)

lemma example_dir_facts:
  "fs_ok example_dir" "nblocks example_dir = 8" "\<not> free example_dir 3" "mapped example_dir 3"
  "file_at example_dir 1 2" "load32 (umem example_dir) (cell 1 34) = 4096"
  "load32 (umem example_dir) (cell 1 36) = 3" "load32 (umem example_dir) (cell 3 64) = 97"
    "load32 (umem example_dir) (cell 3 0) = 0"
proof -
  let ?s = "paged 0x43B 3 (flushed 0 (take_block 3 example_fs))"
  have m: "mapped ?s 1" using example_alloc(1) by (simp add: fs_ok_def)
  have f: "file_at ?s 1 2" "file_at ?s 3 64"
    using m example_alloc(3) by (simp_all add: file_at_def word_le_nat_alt)
  note 1 = set_cell_fields [OF example_alloc(1) f(1), of 32, where v = 4096]
  note 2 = set_cell_fields [OF 1(1), of 1 2 34, where v = 3]
  note 3 = set_cell_fields [OF 2(1), of 3 64 0, where v = 97]
  show "fs_ok example_dir" "nblocks example_dir = 8" "\<not> free example_dir 3" "mapped example_dir 3"
    "file_at example_dir 1 2" "load32 (umem example_dir) (cell 1 34) = 4096"
    "load32 (umem example_dir) (cell 1 36) = 3" "load32 (umem example_dir) (cell 3 64) = 97"
    using 1 2 3 f example_alloc by (simp_all add: example_dir_def)
  have "load32 (umem ?s) (cell 3 0) = 0" by (simp add: paged_def load_bzero_cell)
  then show "load32 (umem example_dir) (cell 3 0) = 0" using 1 2 3 f by (simp add: example_dir_def)
qed

lemma byte_of_word: "m a = ucast (load32 m a)" "m (a + 1) = ucast (drop_bit 8 (load32 m a))"
  by (rule bit_word_eqI, auto simp: load32_def bit_simps dest: bit_imp_le_length)+

theorem dir_lookup_correct_witness:
  "\<exists>s'. dir_lookup (cell 1 2) [97] example_dir = Some (Inr (cell 3 64), s')"
proof -
  let ?d = example_dir
  have b: "block_no ?d 1 2 0 = 3" by (simp add: block_no_def example_dir_facts)
  have "dir_at ?d 1 2 1"
    using example_dir_facts b by (simp add: dir_at_def in_use_def)
  note look = dir_lookup_correct [OF example_dir_facts(1) this, of "[97]"]
  have first: "umem ?d (cell 3 0) \<noteq> 97"
    using byte_of_word(1) [of "umem ?d" "cell 3 0"] by (simp add: example_dir_facts)
  have "str_eq (umem ?d) (cell 3 64) [97]"
    using byte_of_word [of "umem ?d" "cell 3 64"] by (simp add: example_dir_facts)
  moreover have "slot (cell 3 0) 0 = cell 3 0" "slot (cell 3 0) 1 = cell 3 64" by (simp_all add: slot_def cell_def)
  ultimately have "find (\<lambda>f. str_eq (umem ?d) f [97]) (dir_entries ?d 1 2 [0..<1]) = Some (cell 3 64)"
    using first by (simp add: dir_entries_def b upt_conv_Cons)
  then show ?thesis using look by simp
qed

end
