(* ===== verification/Requests.thy ===== *)
theory Requests
  imports Descriptors Fs_Inode
begin

section \<open>A client's requests to the file server: proofs\<close>

text \<open>
  The whole way of a request: the client fills its request page, the page arrives in the server,
  the server works on it, and the page of the reply is mapped in the client. What the client sees
  at the address it asked for are the bytes of the file's block in the server's cache.
\<close>

subsection \<open>The request page\<close>

lemma st8_own:
  assumes "st8 a v s = Some t" "pages s (PPN a) = Some (Own k, perm)"
  shows "fileserv t = fileserv s"
  using assms by (auto simp: st8_def set_frame_byte_def split: if_splits)

lemma aligned_page:
  assumes "aligned 4096 a" "unat c < 4096"
  shows "PPN (a + c) = PPN a" "PG_ADDR_OFFSET (a + c) = c" "unat (a + c) = unat a + unat c"
proof -
  obtain q where q: "unat a = 4096 * q" using assms(1) by (auto simp: aligned_def)
  have "4096 * q < 4294967296" using unat_u32 [of a] q by simp
  then have "q \<le> 1048575" by simp
  then have "4096 * q + unat c < 4294967296" using assms(2) by linarith
  then show u: "unat (a + c) = unat a + unat c" by (simp add: unat_word_ariths q)
  have "unat (PPN (a + c)) = unat (PPN a)" using assms(2) by (simp add: PPN_unat u q)
  then show "PPN (a + c) = PPN a" by (simp add: word_unat_eq_iff)
  have "unat (PG_ADDR_OFFSET (a + c)) = unat c" using assms(2) by (simp add: PG_ADDR_OFFSET_unat u q)
  then show "PG_ADDR_OFFSET (a + c) = c" by (simp add: word_unat_eq_iff)
qed

lemma word_offset: "unat c \<le> 4092 \<Longrightarrow> k < 4 \<Longrightarrow> unat (c + of_nat k) = unat c + k" for c :: u32
  by (simp add: unat_word_ariths unat_of_nat_u32)

lemma st32_own:
  assumes st: "st32 (a + c) v s = Some t" and a: "aligned 4096 a" "unat c \<le> 4092"
    and p: "pages s (PPN a) = Some (Own k, perm)"
  shows "fileserv t = fileserv s"
proof -
  have ppn: "PPN (a + c + of_nat i) = PPN a" if "i < 4" for i
    using aligned_page(1) [OF a(1), of "c + of_nat i"] word_offset [OF a(2) that] a(2) that by (simp add: add.assoc)
  obtain s1 s2 s3 where s: "st8 (a + c) (ucast v) s = Some s1" "st8 (a + c + 1) (ucast (drop_bit 8 v)) s1 = Some s2"
    "st8 (a + c + 2) (ucast (drop_bit 16 v)) s2 = Some s3" "st8 (a + c + 3) (ucast (drop_bit 24 v)) s3 = Some t"
    using st by (auto simp: st32_def split: Option.bind_splits)
  have q: "pages s1 = pages s" "pages s2 = pages s" "pages s3 = pages s"
    using s [THEN st8_bytes] by (simp_all add: bytes_only_def)
  show ?thesis
    using st8_own [OF s(1)] st8_own [OF s(2)] st8_own [OF s(3)] st8_own [OF s(4)] p
      ppn [of 0] ppn [of 1] ppn [of 2] ppn [of 3] by (simp add: q)
qed

text \<open>The page of the process that is sent, and a word of it as the server finds it.\<close>

definition request_page :: "nat \<Rightarrow> proc \<Rightarrow> bool" where
  "request_page k s \<longleftrightarrow> aligned 4096 (ipcbuf s) \<and>
     (\<exists>perm. pages s (PPN (ipcbuf s)) = Some (Own k, perm) \<and> perm AND PTE_R = PTE_R)"

lemma request_word_at:
  assumes "request_page k s" "unat c \<le> 4092"
  shows "word_at (ipcbuf s + c) s"
proof -
  have a: "aligned 4096 (ipcbuf s)" using assms(1) by (simp add: request_page_def)
  obtain perm where p: "pages s (PPN (ipcbuf s)) = Some (Own k, perm)" "perm AND PTE_R = PTE_R"
    using assms(1) by (auto simp: request_page_def)
  have b: "PPN (ipcbuf s + c + of_nat i) = PPN (ipcbuf s)" "PG_ADDR_OFFSET (ipcbuf s + c + of_nat i) = c + of_nat i"
    if "i < 4" for i
    using aligned_page [OF a, of "c + of_nat i"] word_offset [OF assms(2) that] assms(2) that by (simp_all add: add.assoc)
  have "loc (ipcbuf s + c + of_nat i) s \<noteq> loc (ipcbuf s + c + of_nat j) s" if "i < j" "j < 4" for i j
  proof -
    have "i < 4" using that by simp
    then have "unat (c + of_nat i) \<noteq> unat (c + of_nat j)" using word_offset [OF assms(2)] that by simp
    then have "c + of_nat i \<noteq> c + of_nat j" by metis
    then show ?thesis using b \<open>i < 4\<close> that(2) p by (simp add: loc_def)
  qed
  then show ?thesis using b p by (simp add: word_at_def writable_def)
qed

lemma request_sent:
  assumes "request_page k s" "unat c \<le> 4092" "ld32 (ipcbuf s + c) s = Some v"
  shows "load32 (umem (fsys (send_request (Own k) s))) (REQVA + c) = v"
proof -
  have a: "aligned 4096 (ipcbuf s)" using assms(1) by (simp add: request_page_def)
  have byte: "ld8 (ipcbuf s + c + of_nat i) s = Some (umem (fsys (send_request (Own k) s)) (REQVA + c + of_nat i))"
    if i: "i < 4" for i
  proof -
    have u: "unat (c + of_nat i) = unat c + i" by (rule word_offset [OF assms(2) i])
    have "in_region REQVA 4096 (REQVA + c + of_nat i)"
      using u assms(2) i by (simp add: in_region_def add.assoc)
    moreover have "PPN (ipcbuf s + c + of_nat i) = PPN (ipcbuf s)" "PG_ADDR_OFFSET (ipcbuf s + c + of_nat i) = c + of_nat i"
      using aligned_page [OF a, of "c + of_nat i"] u assms(2) i by (simp_all add: add.assoc)
    ultimately show ?thesis
      using assms(1) by (auto simp: ld8_def send_request_def frame_byte_def request_page_def add.assoc)
  qed
  show ?thesis
    using assms(3) byte [of 0] byte [of 1] byte [of 2] byte [of 3] by (simp add: ld32_def load32_def)
qed

text \<open>A request of two words.\<close>

lemma two_words:
  assumes r: "request_page k s"
  obtains s1 s2 where "st32 (ipcbuf s) v s = Some s1" "st32 (ipcbuf s + 4) w s1 = Some s2"
    "bytes_only s s2" "fileserv s2 = fileserv s" "request_page k s2"
    "ld32 (ipcbuf s) s2 = Some v" "ld32 (ipcbuf s + 4) s2 = Some w"
proof -
  have a: "aligned 4096 (ipcbuf s)" using r by (simp add: request_page_def)
  obtain perm where p: "pages s (PPN (ipcbuf s)) = Some (Own k, perm)" using r by (auto simp: request_page_def)
  obtain s1 where s1: "st32 (ipcbuf s) v s = Some s1" "ld32 (ipcbuf s) s1 = Some v"
    using st32_ok [OF request_word_at [OF r, of 0], of v] by auto
  have b1: "bytes_only s s1" by (rule st32_bytes [OF s1(1)])
  then have e: "ipcbuf s1 = ipcbuf s" "pages s1 = pages s" by (simp_all add: bytes_only_def)
  have r1: "request_page k s1" using r by (simp add: request_page_def e)
  obtain s2 where s2: "st32 (ipcbuf s + 4) w s1 = Some s2" "ld32 (ipcbuf s + 4) s2 = Some w"
    "um.same_but ((\<lambda>k. ipcbuf s + 4 + of_nat k) ` {..<4}) s1 s2"
    using st32_ok [OF request_word_at [OF r1, of 4], of w] by (auto simp: e)
  have b2: "bytes_only s1 s2" by (rule st32_bytes [OF s2(1)])
  have "ld32 (ipcbuf s) s2 = ld32 (ipcbuf s) s1"
  proof (rule ld32_cong, rule um.same_but_ld [OF s2(3)])
    fix i c assume i: "i < (4 :: nat)" and "c \<in> (\<lambda>k. ipcbuf s + 4 + of_nat k) ` {..<4}"
    then obtain j where j: "j < 4" "c = ipcbuf s + (4 + of_nat j)" by (auto simp: add.assoc)
    have u: "unat (4 + of_nat j :: u32) = 4 + j" using j(1) by (simp add: unat_word_ariths unat_of_nat_u32)
    have ui: "unat (of_nat i :: u32) = i" using i by (simp add: unat_of_nat_u32)
    have l: "loc (ipcbuf s + x) s1 = Some (Inl (k, x))" if "unat x < 4096" for x
      using aligned_page [OF a that] p by (simp add: loc_def e)
    have "(of_nat i :: u32) \<noteq> 4 + of_nat j" using u ui i by (metis add_lessD1 less_irrefl)
    then show "loc (ipcbuf s + of_nat i) s1 \<noteq> loc c s1"
      using l [of "of_nat i"] l [of "4 + of_nat j"] u ui i j by simp
  qed
  moreover have "fileserv s2 = fileserv s"
    using st32_own [of "ipcbuf s" 0, OF _ a, of v s s1 k perm] st32_own [OF s2(1) a, of k perm] s1(1) p by (simp add: e)
  moreover have "request_page k s2" using r1 b2 by (simp add: request_page_def bytes_only_def)
  ultimately show ?thesis using that [OF s1(1) s2(1) bytes_only_trans [OF b1 b2]] s1(2) s2(2) by simp
qed

subsection \<open>The server's side\<close>

text \<open>The arrival of the page changes nothing of the file system.\<close>

lemma arrived:
  fixes s :: proc and fr :: frame
  assumes "fs_ok (fsys (fileserv s))"
  defines "T \<equiv> send_request fr s"
  shows "fs_ok (fsys T)" "nblocks (fsys T) = nblocks (fsys (fileserv s))" "free (fsys T) = free (fsys (fileserv s))"
    and "\<And>b. b < 2048 \<Longrightarrow> mapped (fsys T) b = mapped (fsys (fileserv s)) b"
    and "\<And>x. \<not> in_region REQVA 4096 x \<Longrightarrow> umem (fsys T) x = umem (fsys (fileserv s)) x"
    and "\<And>b j. b < 2048 \<Longrightarrow> j < 1024 \<Longrightarrow> load32 (umem (fsys T)) (cell b j) = load32 (umem (fsys (fileserv s))) (cell b j)"
proof -
  let ?f = "fsys (fileserv s)"
  show m: "mapped (fsys T) b = mapped ?f b" if "b < 2048" for b
  proof -
    have "unat (0x10000 + b) = 0x10000 + unat b" using that by (simp add: unat_word_ariths word_less_nat_alt)
    then have "unat (0x10000 + b) \<noteq> unat (0xFFFF :: u32)" by simp
    then have "0x10000 + b \<noteq> 0xFFFF" by metis
    then show ?thesis by (simp add: mapped_def T_def send_request_def PPN_def)
  qed
  show u: "\<not> in_region REQVA 4096 x \<Longrightarrow> umem (fsys T) x = umem ?f x" for x
    by (simp add: T_def send_request_def)
  show l: "load32 (umem (fsys T)) (cell b j) = load32 (umem ?f) (cell b j)" if "b < 2048" "j < 1024" for b j
  proof (rule load32_cong)
    fix x assume "in_region (cell b j) 4 x"
    then obtain i where i: "i < 4" "x = cell b j + of_nat i"
      by (intro that [of "unat (x - cell b j)"]) (simp_all add: in_region_def)
    have "unat x \<ge> 0x10000000"
      using aligned_byte [OF aligned_cell [OF \<open>b < 2048\<close> \<open>j < 1024\<close>] i(1)] unat_cell [OF \<open>b < 2048\<close> \<open>j < 1024\<close>] i(2) by simp
    then have "\<not> in_region REQVA 4096 x" by (simp add: in_region_unat)
    then show "umem (fsys T) x = umem ?f x" by (rule u)
  qed
  have "fs_ok (fsys T) \<and> nblocks (fsys T) = nblocks ?f \<and> free (fsys T) = free ?f"
  proof (rule fs_ok_other [OF assms(1)])
    show "super (fsys T) = super ?f" "bitmap (fsys T) = bitmap ?f" "disk_size (fsys T) = disk_size ?f"
      by (simp_all add: T_def send_request_def)
    show "load32 (umem (fsys T)) (cell 1 1) = load32 (umem ?f) (cell 1 1)" by (rule l) simp_all
    show "load32 (umem (fsys T)) (cell 2 i) = load32 (umem ?f) (cell 2 i)" if "i < 64" for i
      using low_word_64 [OF that] by (intro l) simp_all
    show "mapped (fsys T) 0" "mapped (fsys T) 1" "mapped (fsys T) 2" using m assms(1) by (simp_all add: fs_ok_def)
  qed
  then show "fs_ok (fsys T)" "nblocks (fsys T) = nblocks ?f" "free (fsys T) = free ?f" by simp_all
qed

lemma open_lookup_arrived:
  assumes "table_ok (fileserv s)"
  shows "open_lookup fid (send_request fr s) = open_lookup fid (fileserv s)"
proof -
  let ?i = "unat fid mod 1024"
  have "?i < 1024" by simp
  then have "o_ff (opentab (fileserv s) ?i) = FILEVA + of_nat ?i * BY2PG"
    using assms unfolding table_ok_def by blast
  then have "unat (o_ff (opentab (fileserv s) ?i)) = 0x60000000 + ?i * 4096"
    by (simp add: unat_word_ariths unat_of_nat_u32 del: of_nat_mod)
  then have "unat (PPN (o_ff (opentab (fileserv s) ?i))) = 0x60000 + ?i" by (simp add: PPN_unat)
  then have "PPN (o_ff (opentab (fileserv s) ?i)) \<noteq> 0xFFFF" by auto
  then have "pageref (o_ff (opentab (fileserv s) ?i)) (fsys (send_request fr s))
      = pageref (o_ff (opentab (fileserv s) ?i)) (fsys (fileserv s))"
    by (simp add: pageref_def send_request_def PPN_def)
  then show ?thesis by (simp add: open_lookup_def send_request_def Let_def del: of_nat_mod)
qed

text \<open>Block \<open>n\<close> of the open file \<open>fid\<close> is block \<open>b\<close> of the disk, and in memory.\<close>

definition file_block :: "u32 \<Rightarrow> nat \<Rightarrow> u32 \<Rightarrow> srv \<Rightarrow> bool" where
  "file_block fid n b F \<longleftrightarrow> fs_ok (fsys F) \<and> table_ok F \<and> n < 10 \<and>
     (\<exists>i d j. open_lookup fid F = Inr i \<and> o_file (opentab F i) = cell d j \<and> file_at (fsys F) d j \<and>
        block_no (fsys F) d j n = b \<and> in_use (fsys F) b)"

lemma file_block_arrived:
  assumes "file_block fid n b (fileserv s)"
  shows "file_block fid n b (send_request fr s)"
proof -
  let ?f = "fsys (fileserv s)" and ?T = "send_request fr s"
  obtain i d j where f: "fs_ok ?f" "table_ok (fileserv s)" "n < 10" "open_lookup fid (fileserv s) = Inr i"
    "o_file (opentab (fileserv s) i) = cell d j" "file_at ?f d j" "block_no ?f d j n = b" "in_use ?f b"
    using assms by (auto simp: file_block_def)
  note arr = arrived [OF f(1), where fr = fr]
  have d: "d < 2048" "j \<le> 960" using f(6) by (simp_all add: file_at_def)
  have b: "b < 2048" using f(8) nblocks_le [OF f(1)] by (simp add: in_use_def)
  have "j + (34 + of_nat n) < 1024"
    using field_index(1) [OF d(2), of "34 + of_nat n"] direct_index [of "of_nat n"] f(3)
    by (simp add: word_less_nat_alt unat_of_nat_u32)
  then have "block_no (fsys ?T) d j n = b" using f(7) arr(6) [OF d(1)] by (simp add: block_no_def add.assoc)
  moreover have "file_at (fsys ?T) d j" "in_use (fsys ?T) b"
    using f(6,8) arr(4) [OF d(1)] arr(4) [OF b] arr(2,3) by (simp_all add: file_at_def in_use_def)
  moreover have "open_lookup fid ?T = Inr i" using f(4) open_lookup_arrived [OF f(2)] by simp
  moreover have "o_file (opentab ?T i) = cell d j" "table_ok ?T"
    using f(2,5) by (simp_all add: send_request_def table_ok_def)
  ultimately show ?thesis using arr(1) f(3) by (auto simp: file_block_def)
qed

lemma serve_map_block:
  assumes b: "file_block fid n b T" and w: "req_word 0 T = Some fid" "req_word 1 T = Some (of_nat n * BY2BLK)"
  shows "serve_round 2 whom (PTE_V OR PTE_R) T =
    Some ((ipc_send whom (Inr 0) (cell b 0) 0x43B T)\<lparr>fsys := snd (syscall_mem_unmap REQVA (fsys T))\<rparr>)"
proof -
  obtain i d j where f: "fs_ok (fsys T)" "n < 10" "open_lookup fid T = Inr i"
    "o_file (opentab T i) = cell d j" "file_at (fsys T) d j" "block_no (fsys T) d j n = b" "in_use (fsys T) b"
    using b by (auto simp: file_block_def)
  have "unat (of_nat n * BY2BLK div BY2BLK :: u32) = n"
    using f(2) by (simp add: unat_div unat_word_ariths unat_of_nat_u32)
  then have n: "of_nat n * BY2BLK div BY2BLK = (of_nat n :: u32)"
    using f(2) by (simp add: word_unat_eq_iff unat_of_nat_u32)
  have "file_get_block (cell d j) (of_nat n) (fsys T) = Some (Inr (cell b 0), fsys T)"
    using get_block_present [OF f(1,5,2)] f(6,7) by simp
  then have "serve_map whom T = Some (ipc_send whom (Inr 0) (cell b 0) 0x43B T)"
    using w f(3,4) n by (simp add: serve_map_def with_file_def on_ok_def)
  then show ?thesis by (simp add: serve_round_def)
qed

subsection \<open>Mapping a block of a file\<close>

lemma insert_page_fields:
  "pages (insert_page va fr perm s) = (pages s)(PPN va := Some (fr, perm OR PTE_V))"
  "umem (fsys (fileserv (insert_page va fr perm s))) = umem (fsys (fileserv s))"
  "frames (insert_page va fr perm s) = frames s"
proof -
  have r: "pages (release g t) = pages t" "umem (fsys (fileserv (release g t))) = umem (fsys (fileserv t))"
    "frames (release g t) = frames t" for g t by (cases g; simp add: release_def set_fsys_def)+
  have d: "(pages (drop_page va s))(PPN va := x) = (pages s)(PPN va := x)"
    "umem (fsys (fileserv (drop_page va s))) = umem (fsys (fileserv s))" "frames (drop_page va s) = frames s" for x
    by (auto simp: drop_page_def r split: option.split)
  have h: "pages (share g t) = pages t" "umem (fsys (fileserv (share g t))) = umem (fsys (fileserv t))"
    "frames (share g t) = frames t" for g t by (cases g; simp add: share_def set_fsys_def)+
  show "pages (insert_page va fr perm s) = (pages s)(PPN va := Some (fr, perm OR PTE_V))"
    "umem (fsys (fileserv (insert_page va fr perm s))) = umem (fsys (fileserv s))"
    "frames (insert_page va fr perm s) = frames s"
    by (simp_all add: insert_page_def Let_def d h)
qed

lemma served_block_byte:
  assumes "b < 2048" "aligned 4096 dst" "pages t (PPN dst) = Some (Served (0x10000 + b), perm)" "x < 4096"
  shows "ld8 (dst + of_nat x) t = Some (umem (fsys (fileserv t)) (cell b 0 + of_nat x))"
proof -
  have x: "unat (of_nat x :: u32) = x" using assms(4) by (simp add: unat_of_nat_u32)
  have "cell b 0 = push_bit 12 (0x10000 + b)" by (simp add: cell_def push12 algebra_simps)
  then show ?thesis
    using aligned_page(1,2) [OF assms(2), of "of_nat x"] x assms(3,4) by (simp add: ld8_def frame_byte_def)
qed

text \<open>Property C20. For an open file whose block \<open>n\<close> is block \<open>b\<close> of the disk, \<open>fsipc_map\<close> maps the
  server's page of that block at the address asked for, and nothing else changes in the address
  space: the client reads there the bytes that the server has cached for the block.\<close>

theorem fsipc_map_correct:
  assumes "request_page k s" "file_block fid n b (fileserv s)" "enough s (calls s)"
    and "aligned 4096 dst" "dst < UTOP"
  shows "\<exists>t. fsipc_map fid (of_nat n * BY2BLK) dst s = Some (0, t) \<and>
    pages t = (pages s)(PPN dst := Some (Served (0x10000 + b), PTE_V OR PTE_R OR PTE_LIBRARY)) \<and>
    (\<forall>x<4096. ld8 (dst + of_nat x) t = Some (umem (fsys (fileserv s)) (cell b 0 + of_nat x)))"
proof -
  obtain s1 s2 where st: "st32 (ipcbuf s) fid s = Some s1" "st32 (ipcbuf s + 4) (of_nat n * BY2BLK) s1 = Some s2"
    and s2: "bytes_only s s2" "fileserv s2 = fileserv s" "request_page k s2"
    "ld32 (ipcbuf s) s2 = Some fid" "ld32 (ipcbuf s + 4) s2 = Some (of_nat n * BY2BLK)"
    by (rule two_words [OF assms(1)])
  have eq: "ipcbuf s1 = ipcbuf s" "ipcbuf s2 = ipcbuf s" "pages s2 = pages s" "enough s2 = enough s" "calls s2 = calls s"
    using s2(1) st32_bytes [OF st(1)] by (simp_all add: bytes_only_def)
  define T where "T = send_request (Own k) s2"
  have fb: "file_block fid n b (fileserv s2)" using assms(2) by (simp add: s2(2))
  have ok: "fs_ok (fsys (fileserv s2))" using fb by (simp add: file_block_def)
  have b: "in_use (fsys (fileserv s2)) b" using fb by (auto simp: file_block_def)
  have b2048: "b < 2048" using b nblocks_le [OF ok] by (simp add: in_use_def)
  have up: "is_mapped (fsys T) REQVA" by (simp add: T_def send_request_def is_mapped_def)
  have w: "req_word 0 T = Some fid" "req_word 1 T = Some (of_nat n * BY2BLK)"
    using request_sent [OF s2(3), of 0 fid] request_sent [OF s2(3), of 4 "of_nat n * BY2BLK"] s2(4,5) up
    by (simp_all add: req_word_def rd_def eq T_def is_mapped_def PPN_def)
  define t where "t = (ipc_send (me s2) (Inr 0) (cell b 0) 0x43B T)\<lparr>fsys := snd (syscall_mem_unmap REQVA (fsys T))\<rparr>"
  have round: "serve_round 2 (me s2) (PTE_V OR PTE_R) T = Some t"
    unfolding t_def T_def by (rule serve_map_block [OF file_block_arrived [OF fb] w [unfolded T_def]])
  have reply: "drop (length (replies (fileserv s2))) (replies t) = [(me s2, Inr 0, cell b 0, 0x43B)]"
    by (simp add: t_def T_def send_request_def ipc_send_def)
  have t_mem: "umem (fsys t) = umem (fsys T)" by (simp add: t_def syscall_mem_unmap_def)
  have "mapped (fsys t) b = mapped (fsys T) b"
  proof -
    have "unat (0x10000 + b) = 0x10000 + unat b" using b2048 by (simp add: unat_word_ariths word_less_nat_alt)
    then have "unat (0x10000 + b) \<noteq> unat (0xFFFF :: u32)" by simp
    then have "0x10000 + b \<noteq> 0xFFFF" by metis
    then show ?thesis by (simp add: t_def syscall_mem_unmap_def mapped_def PPN_def)
  qed
  then have im: "is_mapped (fsys t) (cell b 0)"
    using b arrived(4) [OF ok b2048, where fr = "Own k"] b2048 by (simp add: is_mapped_cell in_use_def T_def)
  obtain perm where pg: "pages s (PPN (ipcbuf s)) = Some (Own k, perm)" using assms(1) by (auto simp: request_page_def)
  define u where "u = insert_page dst (Served (0x10000 + b)) 0x43B (s2\<lparr>fileserv := t, calls := calls s2 + 1\<rparr>)"
  have f: "fsipc 2 (ipcbuf s2) dst s2 = Some (0, u)"
    using round [unfolded T_def] reply pg im assms(3,5) b2048 cell_neq_0 [of b 0]
    by (simp add: fsipc_def eq Let_def PPN_cell u_def)
  have "fsipc_map fid (of_nat n * BY2BLK) dst s = Some (0, u)"
    using st f by (simp add: fsipc_map_def eq neg_def)
  moreover have pu: "pages u = (pages s)(PPN dst := Some (Served (0x10000 + b), 0x43B))"
    by (simp add: u_def insert_page_fields eq)
  moreover have "ld8 (dst + of_nat x) u = Some (umem (fsys (fileserv s)) (cell b 0 + of_nat x))" if x: "x < 4096" for x
  proof -
    have "unat (cell b 0 + of_nat x) = unat (cell b 0) + x"
      using unat_cell [OF b2048, of 0] b2048 x by (simp add: unat_word_ariths unat_of_nat_u32 word_less_nat_alt)
    then have "\<not> in_region REQVA 4096 (cell b 0 + of_nat x)"
      using unat_cell [OF b2048, of 0] by (simp add: in_region_unat)
    then have "umem (fsys T) (cell b 0 + of_nat x) = umem (fsys (fileserv s)) (cell b 0 + of_nat x)"
      using arrived(5) [OF ok, where fr = "Own k"] by (simp add: T_def s2(2))
    moreover have "umem (fsys (fileserv u)) = umem (fsys T)" by (simp add: u_def insert_page_fields t_mem)
    ultimately show ?thesis using served_block_byte [OF b2048 assms(4) _ x, of u "0x43B"] pu by simp
  qed
  ultimately show ?thesis by auto
qed

text \<open>A client of a server with one open file, the root directory, of one block.\<close>

definition example_client :: proc where
  "example_client = example_proc\<lparr>pages := (pages example_proc)(0x401 := Some (Own 3, 0x43A)),
     fileserv := \<lparr>fsys = example_dir\<lparr>uref := \<lambda>_. 2\<rparr>,
       opentab = \<lambda>i. \<lparr>o_file = cell 1 2, o_fileid = of_nat i, o_mode = 0, o_ff = FILEVA + of_nat i * BY2PG\<rparr>, replies = []\<rparr>\<rparr>"

lemma example_client_block: "request_page 3 example_client" "file_block 5 0 3 (fileserv example_client)"
proof -
  show "request_page 3 example_client"
    by (simp add: request_page_def example_client_def example_proc_def aligned_def PPN_def)
  let ?f = "example_dir\<lparr>uref := \<lambda>_. 2\<rparr>"
  have "fs_ok ?f" "nblocks ?f = 8" "\<not> free ?f 3" "mapped ?f 3" "file_at ?f 1 2" "block_no ?f 1 2 0 = 3"
    using example_dir_facts by (simp_all add: fs_ok_def nblocks_def free_def mapped_def file_at_def block_no_def)
  moreover have "table_ok (fileserv example_client)"
    by (simp add: table_ok_def example_client_def unat_of_nat_u32)
  moreover have "open_lookup 5 (fileserv example_client) = Inr 5"
    by (simp add: open_lookup_def example_client_def pageref_def)
  ultimately show "file_block 5 0 3 (fileserv example_client)"
    by (auto simp: file_block_def in_use_def example_client_def)
qed

theorem fsipc_map_correct_witness:
  "\<exists>t. fsipc_map 5 0 0x60005000 example_client = Some (0, t) \<and> ld8 0x60005100 t = Some 97"
proof -
  have "enough example_client (calls example_client)" by (simp add: example_client_def example_proc_def)
  then obtain t where t: "fsipc_map 5 0 0x60005000 example_client = Some (0, t)"
    "\<forall>x<4096. ld8 (0x60005000 + of_nat x) t = Some (umem (fsys (fileserv example_client)) (cell 3 0 + of_nat x))"
    using fsipc_map_correct [OF example_client_block, of "0x60005000"] by (auto simp: aligned_def)
  have "umem (fsys (fileserv example_client)) (cell 3 0 + 256) = 97"
    using byte_of_word(1) [of "umem example_dir" "cell 3 64"] example_dir_facts(8)
    by (simp add: example_client_def cell_def)
  then show ?thesis using t(1) spec [OF t(2), of 256] by simp
qed

end
