(* ===== verification/Pipes.thy ===== *)
theory Pipes
  imports Requests
begin

section \<open>Making a pipe: proofs\<close>

text \<open>
  \<open>pipe\<close> takes four pages in turn and has a label for each way it can fail. Whatever fails, the
  address space is as before; when nothing does, the two descriptors share one page of data.
\<close>

lemma neg_err: "neg (err e)"
  by (cases e) (simp_all add: neg_def err_def)

abbreviation (input) SHARED :: u32 where "SHARED \<equiv> PTE_V OR PTE_R OR PTE_LIBRARY"

lemma drop_page_pages: "pages (drop_page va s) = (pages s)(PPN va := None)"
proof -
  have "pages (release g t) = pages t" for g t by (cases g) (simp_all add: release_def set_fsys_def)
  then show ?thesis by (auto simp: drop_page_def fun_eq_iff split: option.split)
qed

lemma undo_pages:
  assumes "\<And>va. va \<in> set vas \<Longrightarrow> va < UTOP"
  shows "\<exists>t. undo vas r s = Some (r, t) \<and> pages t = (\<lambda>n. if n \<in> PPN ` set vas then None else pages s n)"
proof -
  have "pages (fold (\<lambda>va s. snd (user_mem_unmap va s)) vas s) = (\<lambda>n. if n \<in> PPN ` set vas then None else pages s n)"
    using assms
  proof (induction vas arbitrary: s)
    case (Cons va vas)
    have "va < UTOP" by (rule Cons.prems) simp
    then have "\<not> UTOP \<le> va" by (simp only: not_le)
    then have "snd (user_mem_unmap va s) = drop_page va s" by (simp add: user_mem_unmap_def)
    then show ?case using Cons by (auto simp: drop_page_pages)
  qed simp
  then show ?thesis by (simp add: undo_def)
qed

lemma alloc_pages:
  assumes "va < UTOP" "user_mem_alloc va SHARED s = (r, t)"
  shows "neg r \<and> pages t = pages s \<or> r = 0 \<and> pages t = (pages s)(PPN va \<mapsto> (Own (next_frame s), SHARED))"
  using assms neg_err by (auto simp: user_mem_alloc_def not_le [symmetric] insert_page_fields split: if_splits)

lemma map_pages:
  assumes "va < UTOP" "dst < UTOP" "pages s (PPN va) = Some (fr, p)" "user_mem_map va dst SHARED s = (r, t)"
  shows "neg r \<and> pages t = pages s \<or> r = 0 \<and> pages t = (pages s)(PPN dst \<mapsto> (fr, SHARED))"
  using assms neg_err by (auto simp: user_mem_map_def not_le [symmetric] insert_page_fields split: if_splits)

lemma aligned_INDEX2FD: "unat i < 32 \<Longrightarrow> aligned 4096 (INDEX2FD i)"
proof -
  assume "unat i < 32"
  then have "unat (INDEX2FD i) = 4096 * (0x5FF00 + unat i)" by (simp add: unat_INDEX2FD)
  then show ?thesis unfolding aligned_def by (simp only: dvd_triv_left)
qed

lemma page_field:
  assumes a: "aligned 4096 a" "unat c \<le> 4092" "4 dvd unat c"
    and p: "pages s (PPN a) = Some (Own k, perm)" "perm AND PTE_R = PTE_R"
  obtains t where "st32 (a + c) v s = Some t" "ld32 (a + c) t = Some v" "pages t = pages s"
    "um.same_but ((\<lambda>i. a + c + of_nat i) ` {..<4}) s t"
proof -
  have u: "unshared s {PPN a}" using p by (simp add: unshared_def)
  have "aligned 4 (a + c)" using aligned_page(3) [OF a(1), of c] a by (auto simp: aligned_def)
  moreover have "PPN (a + c) = PPN a" using aligned_page(1) [OF a(1), of c] a(2) by simp
  ultimately have "word_at (a + c) s" using unshared_word(1) [OF u] by simp
  from st32_ok [OF this, of v] obtain t where t: "st32 (a + c) v s = Some t" "ld32 (a + c) t = Some v"
    "um.same_but ((\<lambda>i. a + c + of_nat i) ` {..<4}) s t" by blast
  then show ?thesis using that st32_bytes [OF t(1)] by (simp add: bytes_only_def)
qed

text \<open>Pages are mapped with permissions, and a free descriptor has no data.\<close>

definition fds_ok :: "proc \<Rightarrow> bool" where
  "fds_ok s \<longleftrightarrow> (\<forall>n fr. pages s n \<noteq> Some (fr, 0)) \<and>
     (\<forall>i. unat i < 32 \<longrightarrow> pages s (PPN (INDEX2FD i)) = None \<longrightarrow> pages s (PPN (INDEX2DATA i)) = None)"

lemma PPN_fd: "unat i < 32 \<Longrightarrow> unat (PPN (INDEX2FD i)) = 0x5FF00 + unat i"
  by (simp add: PPN_unat unat_INDEX2FD)

lemma PPN_data: "unat i < 32 \<Longrightarrow> unat (PPN (INDEX2DATA i)) = 0x60000 + unat i * 256"
  by (simp add: PPN_unat unat_INDEX2DATA)

lemma fd_below: "unat i < 32 \<Longrightarrow> INDEX2FD i < UTOP \<and> INDEX2FD i < ULIM" "unat i < 32 \<Longrightarrow> INDEX2DATA i < UTOP"
  by (simp_all add: word_less_nat_alt unat_INDEX2FD unat_INDEX2DATA)

lemma pages_apart:
  assumes "unat i < 32" "unat j < 32" "i \<noteq> j"
  shows "PPN (INDEX2FD i) \<noteq> PPN (INDEX2FD j)" "PPN (INDEX2DATA i) \<noteq> PPN (INDEX2DATA j)"
    "PPN (INDEX2FD i) \<noteq> PPN (INDEX2DATA j)" "PPN (INDEX2FD i) \<noteq> PPN (INDEX2DATA i)"
proof -
  have "unat i \<noteq> unat j" using assms(3) by (simp add: word_unat_eq_iff)
  then show "PPN (INDEX2FD i) \<noteq> PPN (INDEX2FD j)" "PPN (INDEX2DATA i) \<noteq> PPN (INDEX2DATA j)"
    "PPN (INDEX2FD i) \<noteq> PPN (INDEX2DATA j)" "PPN (INDEX2FD i) \<noteq> PPN (INDEX2DATA i)"
    using PPN_fd [OF assms(1)] PPN_fd [OF assms(2)] PPN_data [OF assms(1)] PPN_data [OF assms(2)] assms(1,2)
    by (auto simp: word_unat_eq_iff)
qed

lemma alloc_free:
  assumes "fd_alloc s = Inr fd" "\<forall>n fr. pages s n \<noteq> Some (fr, 0)"
  obtains i where "unat i < 32" "fd = INDEX2FD i" "pages s (PPN fd) = None"
proof -
  obtain k where k: "k < 31" "fd = INDEX2FD (of_nat k)" "user_va_perm fd s = 0"
    using assms(1) by (auto simp: fd_alloc_def find_upt split: option.splits)
  have u: "unat (of_nat k :: u32) < 32" using k(1) by (simp add: unat_of_nat_u32)
  moreover have "pages s (PPN fd) = None"
    using k(3) fd_below(1) [OF u] assms(2) k(2) by (auto simp: user_va_perm_def not_le [symmetric] split: option.splits)
  ultimately show ?thesis using that k(2) by blast
qed

lemma restored: "pages t = (pages s)(a := x, b := y) \<Longrightarrow> pages s a = None \<Longrightarrow> pages s b = None \<Longrightarrow>
    (\<lambda>n. if n = a \<or> n = b then None else pages t n) = pages s"
  by (auto simp: fun_eq_iff)

text \<open>What \<open>pipe\<close> leaves behind: descriptors \<open>i\<close> and \<open>j\<close>, which were free, on one page of data.\<close>

definition piped :: "proc \<Rightarrow> u32 \<Rightarrow> u32 \<Rightarrow> proc \<Rightarrow> bool" where
  "piped s i j t \<longleftrightarrow> unat i < 32 \<and> unat j < 32 \<and> i \<noteq> j \<and> pages s (PPN (INDEX2FD i)) = None \<and> pages s (PPN (INDEX2FD j)) = None \<and>
     (\<exists>a b c. distinct [a, b, c] \<and> pages t = (pages s)(PPN (INDEX2FD i) \<mapsto> (Own a, SHARED), PPN (INDEX2FD j) \<mapsto> (Own b, SHARED),
        PPN (INDEX2DATA i) \<mapsto> (Own c, SHARED), PPN (INDEX2DATA j) \<mapsto> (Own c, SHARED)))"

lemma alloc_next: "user_mem_alloc va p s = (0, t) \<Longrightarrow> next_frame t = next_frame s + 1"
proof -
  have r: "next_frame (share g u) = next_frame u" "next_frame (release g u) = next_frame u" for g u
    by (cases g; simp add: share_def release_def set_fsys_def)+
  have d: "next_frame (drop_page va u) = next_frame u" for u by (auto simp: drop_page_def r split: option.split)
  have e: "err x \<noteq> 0" for x by (cases x) (simp_all add: err_def)
  show "user_mem_alloc va p s = (0, t) \<Longrightarrow> next_frame t = next_frame s + 1"
    using e by (auto simp: user_mem_alloc_def insert_page_def Let_def r d split: if_splits)
qed

lemma store_pair:
  assumes u: "unshared s {PPN p}" and a: "aligned 4 p" "aligned 4 (p + 4)" "PPN (p + 4) = PPN p"
  obtains s1 t where "st32 p v s = Some s1" "st32 (p + 4) w s1 = Some t" "pages t = pages s"
    "ld32 p t = Some v" "ld32 (p + 4) t = Some w"
proof -
  obtain s1 where s1: "st32 p v s = Some s1" "ld32 p s1 = Some v"
    using st32_ok [OF unshared_word(1) [OF u a(1)], of v] by auto
  have q: "pages s1 = pages s" using st32_bytes [OF s1(1)] by (simp add: bytes_only_def)
  then have u1: "unshared s1 {PPN p}" using u unshared_pages [OF q] by simp
  note w1 = unshared_word [OF u1 a(1)] and w2 = unshared_word [OF u1 a(2)]
  obtain t where t: "st32 (p + 4) w s1 = Some t" "ld32 (p + 4) t = Some w"
    "um.same_but ((\<lambda>k. p + 4 + of_nat k) ` {..<4}) s1 t"
    using st32_ok [OF w2(1), of w] a(3) by auto
  have "ld32 p t = ld32 p s1"
  proof (rule ld32_cong, rule um.same_but_ld [OF t(3)])
    fix i c assume i: "i < (4 :: nat)" and "c \<in> (\<lambda>k. p + 4 + of_nat k) ` {..<4}"
    then obtain j where j: "j < 4" "c = p + 4 + of_nat j" by auto
    have "p \<noteq> p + 4" by simp
    then have "p + of_nat i \<noteq> c" using aligned_bytes_differ [OF a(1,2) _ i j(1)] j(2) by simp
    then show "loc (p + of_nat i) s1 \<noteq> loc c s1"
      using unshared_loc [OF u1 w1(2) [OF _ i] w2(2) [OF _ j(1)]] a(3) j(2) by simp
  qed
  then show ?thesis using that s1 t st32_bytes [OF t(1)] q by (simp add: bytes_only_def)
qed

lemma pipe_finish:
  assumes i: "unat i < 32" "unat j < 32"
    and p: "pages s (PPN (INDEX2FD i)) = Some (Own a, SHARED)" "pages s (PPN (INDEX2FD j)) = Some (Own b, SHARED)"
    and q: "unshared s {PPN pfd}" "aligned 4 pfd" "aligned 4 (pfd + 4)" "PPN (pfd + 4) = PPN pfd"
  obtains s1 s2 s3 s4 s5 t where "st32 (INDEX2FD i) (dev_id devpipe) s = Some s1" "st32 (INDEX2FD i + 8) 0 s1 = Some s2"
    "st32 (INDEX2FD j) (dev_id devpipe) s2 = Some s3" "st32 (INDEX2FD j + 8) O_WRONLY s3 = Some s4"
    "st32 pfd i s4 = Some s5" "st32 (pfd + 4) j s5 = Some t" "pages t = pages s"
    "ld32 pfd t = Some i" "ld32 (pfd + 4) t = Some j"
proof -
  note ai = aligned_INDEX2FD [OF i(1)] and aj = aligned_INDEX2FD [OF i(2)]
  obtain s1 where s1: "st32 (INDEX2FD i) (dev_id devpipe) s = Some s1" "pages s1 = pages s"
    using page_field [OF ai, of 0 s a SHARED "dev_id devpipe"] p(1) by auto
  obtain s2 where s2: "st32 (INDEX2FD i + 8) 0 s1 = Some s2" "pages s2 = pages s"
    using page_field [OF ai, of 8 s1 a SHARED 0] p(1) s1(2) by auto
  obtain s3 where s3: "st32 (INDEX2FD j) (dev_id devpipe) s2 = Some s3" "pages s3 = pages s"
    using page_field [OF aj, of 0 s2 b SHARED "dev_id devpipe"] p(2) s2(2) by auto
  obtain s4 where s4: "st32 (INDEX2FD j + 8) O_WRONLY s3 = Some s4" "pages s4 = pages s"
    using page_field [OF aj, of 8 s3 b SHARED 1] p(2) s3(2) by auto
  have "unshared s4 {PPN pfd}" using q(1) unshared_pages [OF s4(2)] by simp
  then obtain s5 t where "st32 pfd i s4 = Some s5" "st32 (pfd + 4) j s5 = Some t" "pages t = pages s4"
    "ld32 pfd t = Some i" "ld32 (pfd + 4) t = Some j" by (rule store_pair [OF _ q(2,3,4)])
  then show ?thesis using that s1(1) s2(1) s3(1) s4 by simp
qed

text \<open>The part of \<open>pipe\<close> after both descriptors are chosen and the first has its page.\<close>

definition pipe_rest :: "u32 \<Rightarrow> u32 \<Rightarrow> u32 \<Rightarrow> proc \<Rightarrow> u32 call" where
  "pipe_rest pfd fd0 fd1 s =
     (case user_mem_alloc fd1 SHARED s of (r, s) \<Rightarrow>
      if neg r then undo [fd0] r s
      else let va = fd2data fd0 in
     (case user_mem_alloc va SHARED s of (r, s) \<Rightarrow>
      if neg r then undo [fd1, fd0] r s
      else
     (case user_mem_map va (fd2data fd1) SHARED s of (r, s) \<Rightarrow>
      if neg r then undo [va, fd1, fd0] r s
      else do {
        s \<leftarrow> st32 (fd_dev_id fd0) (dev_id devpipe) s;
        s \<leftarrow> st32 (fd_omode fd0) 0 s;
        s \<leftarrow> st32 (fd_dev_id fd1) (dev_id devpipe) s;
        s \<leftarrow> st32 (fd_omode fd1) O_WRONLY s;
        s \<leftarrow> st32 pfd (fd2num fd0) s;
        s \<leftarrow> st32 (pfd + 4) (fd2num fd1) s;
        Some (0, s)
      })))"

lemma undo_restores:
  assumes "\<And>va. va \<in> set vas \<Longrightarrow> va < UTOP \<and> pages s0 (PPN va) = None"
    and "\<And>n. n \<notin> PPN ` set vas \<Longrightarrow> pages s n = pages s0 n"
  obtains t where "undo vas r s = Some (r, t)" "pages t = pages s0"
proof -
  obtain t where t: "undo vas r s = Some (r, t)" "pages t = (\<lambda>n. if n \<in> PPN ` set vas then None else pages s n)"
    using undo_pages [of vas r s] assms(1) by blast
  have "pages t = pages s0" using t(2) assms by (auto simp: fun_eq_iff)
  then show ?thesis using that t(1) by blast
qed

lemma pipe_rest_ok:
  assumes i: "unat i < 32" "unat j < 32" "i \<noteq> j"
    and free: "pages s0 (PPN (INDEX2FD i)) = None" "pages s0 (PPN (INDEX2FD j)) = None"
      "pages s0 (PPN (INDEX2DATA i)) = None" "pages s0 (PPN (INDEX2DATA j)) = None"
    and s: "pages s = (pages s0)(PPN (INDEX2FD i) \<mapsto> (Own a, SHARED))" "a < next_frame s"
    and pfd: "unshared s0 {PPN pfd}" "aligned 4 pfd" "aligned 4 (pfd + 4)" "PPN (pfd + 4) = PPN pfd"
  shows "\<exists>r t. pipe_rest pfd (INDEX2FD i) (INDEX2FD j) s = Some (r, t) \<and> (neg r \<and> pages t = pages s0 \<or>
    r = 0 \<and> piped s0 i j t \<and> ld32 pfd t = Some i \<and> ld32 (pfd + 4) t = Some j)"
proof -
  let ?I = "INDEX2FD i" and ?J = "INDEX2FD j" and ?D = "INDEX2DATA i" and ?E = "INDEX2DATA j"
  have n0: "\<not> neg 0" by (simp add: neg_def)
  note lt = fd_below(1) [OF i(1), THEN conjunct1] fd_below(1) [OF i(2), THEN conjunct1] fd_below(2) [OF i(1)] fd_below(2) [OF i(2)]
  note ap = pages_apart [OF i] pages_apart [OF i(2,1) not_sym [OF i(3)]]
  have data: "fd2data ?I = ?D" "fd2data ?J = ?E" by (simp_all add: fd2data_def fd2num_INDEX2FD i)
  obtain r1 s1 where a1: "user_mem_alloc ?J SHARED s = (r1, s1)" by (cases "user_mem_alloc ?J SHARED s") auto
  note p1 = alloc_pages [OF lt(2) a1]
  show ?thesis
  proof (cases "neg r1")
    case True
    then have "pages s1 = pages s" using p1 n0 by auto
    then obtain t where "undo [?I] r1 s1 = Some (r1, t)" "pages t = pages s0"
      using undo_restores [of "[?I]" s0 s1 r1] free lt s(1) by auto
    then show ?thesis using True a1 by (simp add: pipe_rest_def)
  next
    case g1: False
    then have r1: "r1 = 0" and q1: "pages s1 = (pages s)(PPN ?J \<mapsto> (Own (next_frame s), SHARED))" using p1 by auto
    have f1: "next_frame s1 = next_frame s + 1" using alloc_next a1 r1 by blast
    obtain r2 s2 where a2: "user_mem_alloc ?D SHARED s1 = (r2, s2)" by (cases "user_mem_alloc ?D SHARED s1") auto
    note p2 = alloc_pages [OF lt(3) a2]
    show ?thesis
    proof (cases "neg r2")
      case True
      then have "pages s2 = pages s1" using p2 n0 by auto
      then obtain t where "undo [?J, ?I] r2 s2 = Some (r2, t)" "pages t = pages s0"
        using undo_restores [of "[?J, ?I]" s0 s2 r2] free lt s(1) q1 by auto
      then show ?thesis using True a1 g1 a2 by (simp add: pipe_rest_def data)
    next
      case g2: False
      then have q2: "pages s2 = (pages s1)(PPN ?D \<mapsto> (Own (next_frame s1), SHARED))" using p2 by auto
      obtain r3 s3 where a3: "user_mem_map ?D ?E SHARED s2 = (r3, s3)" by (cases "user_mem_map ?D ?E SHARED s2") auto
      have "pages s2 (PPN ?D) = Some (Own (next_frame s1), SHARED)" using q2 by simp
      note p3 = map_pages [OF lt(3,4) this a3]
      show ?thesis
      proof (cases "neg r3")
        case True
        then have "pages s3 = pages s2" using p3 n0 by auto
        then obtain t where "undo [?D, ?J, ?I] r3 s3 = Some (r3, t)" "pages t = pages s0"
          using undo_restores [of "[?D, ?J, ?I]" s0 s3 r3] free lt s(1) q1 q2 by auto
        then show ?thesis using True a1 g1 a2 g2 a3 by (simp add: pipe_rest_def data)
      next
        case g3: False
        then have q3: "pages s3 = (pages s0)(PPN ?I \<mapsto> (Own a, SHARED), PPN ?J \<mapsto> (Own (next_frame s), SHARED),
            PPN ?D \<mapsto> (Own (next_frame s1), SHARED), PPN ?E \<mapsto> (Own (next_frame s1), SHARED))"
          using p3 q1 q2 s(1) by auto
        have pp: "pages s0 (PPN pfd) \<noteq> None" using pfd(1) by (auto simp: unshared_def)
        have "pages s3 (PPN pfd) = pages s0 (PPN pfd)" unfolding q3 using pp free by auto
        then have u3: "unshared s3 {PPN pfd}" using pfd(1) by (simp add: unshared_def)
        have pi: "pages s3 (PPN ?I) = Some (Own a, SHARED)" "pages s3 (PPN ?J) = Some (Own (next_frame s), SHARED)"
          unfolding q3 using ap by auto
        obtain u1 u2 u3 u4 u5 t where t: "st32 ?I (dev_id devpipe) s3 = Some u1" "st32 (?I + 8) 0 u1 = Some u2"
          "st32 ?J (dev_id devpipe) u2 = Some u3" "st32 (?J + 8) O_WRONLY u3 = Some u4"
          "st32 pfd i u4 = Some u5" "st32 (pfd + 4) j u5 = Some t" "pages t = pages s3"
          "ld32 pfd t = Some i" "ld32 (pfd + 4) t = Some j"
          by (rule pipe_finish [OF i(1,2) pi u3 pfd(2,3,4)])
        have "pipe_rest pfd ?I ?J s = Some (0, t)"
          using a1 g1 a2 g2 a3 g3 t by (simp add: pipe_rest_def data fd2num_INDEX2FD i)
        moreover have "piped s0 i j t"
          unfolding piped_def t(7) using i free q3 s(2) f1
          by (intro conjI exI [of _ a] exI [of _ "next_frame s"] exI [of _ "next_frame s1"]) auto
        ultimately show ?thesis using t(8,9) by blast
      qed
    qed
  qed
qed

text \<open>Property C26. \<open>pipe\<close> is all or nothing: when it reports an error, every page it took is given back
  and the address space is as before; when it returns 0, two free descriptors share one new page of
  data, and their numbers are in the array of the caller.\<close>

theorem pipe_correct:
  assumes ok: "fds_ok s" and pfd: "unshared s {PPN pfd}" "aligned 4 pfd" "aligned 4 (pfd + 4)" "PPN (pfd + 4) = PPN pfd"
  shows "\<exists>r t. pipe pfd s = Some (r, t) \<and> (neg r \<and> pages t = pages s \<or>
    r = 0 \<and> (\<exists>i j. piped s i j t \<and> ld32 pfd t = Some i \<and> ld32 (pfd + 4) t = Some j))"
proof -
  have nz: "\<forall>n fr. pages s n \<noteq> Some (fr, 0)" using ok by (simp add: fds_ok_def)
  have pp: "pages s (PPN pfd) \<noteq> None" using pfd(1) by (auto simp: unshared_def)
  have n0: "\<not> neg 0" by (simp add: neg_def)
  show ?thesis
  proof (cases "fd_alloc s")
    case (Inl e)
    then show ?thesis using neg_err by (simp add: pipe_def or_return_def)
  next
    case (Inr fd0)
    obtain i where i: "unat i < 32" "fd0 = INDEX2FD i" "pages s (PPN fd0) = None" by (rule alloc_free [OF Inr nz])
    obtain r1 s1 where a1: "user_mem_alloc fd0 SHARED s = (r1, s1)" by (cases "user_mem_alloc fd0 SHARED s") auto
    note p1 = alloc_pages [OF conjunct1 [OF fd_below(1) [OF i(1)]], folded i(2), OF a1]
    show ?thesis
    proof (cases "neg r1")
      case True
      then show ?thesis using Inr a1 p1 n0 by (simp add: pipe_def or_return_def undo_def) (metis)
    next
      case g1: False
      then have q1: "r1 = 0" "pages s1 = (pages s)(PPN fd0 \<mapsto> (Own (next_frame s), SHARED))" using p1 by auto
      have nz1: "\<forall>n fr. pages s1 n \<noteq> Some (fr, 0)" using nz q1(2) by simp
      show ?thesis
      proof (cases "fd_alloc s1")
        case (Inl e)
        obtain t where "undo [fd0] (err e) s1 = Some (err e, t)" "pages t = (\<lambda>n. if n = PPN fd0 then None else pages s1 n)"
          using undo_pages [of "[fd0]" "err e" s1] fd_below(1) [OF i(1)] i(2) by auto
        moreover from this have "pages t = pages s" using q1(2) i(3) by (auto simp: fun_eq_iff)
        ultimately show ?thesis using Inr a1 g1 Inl neg_err by (simp add: pipe_def or_return_def)
      next
        case inr1: (Inr fd1)
        obtain j where j: "unat j < 32" "fd1 = INDEX2FD j" "pages s1 (PPN fd1) = None" by (rule alloc_free [OF inr1 nz1])
        have ij: "i \<noteq> j" using j(2,3) i(2) q1(2) by auto
        then have sj: "pages s (PPN fd1) = None" using j(3) q1(2) by (auto split: if_splits)
        have a: "next_frame s < next_frame s1" using alloc_next a1 q1(1) by fastforce
        have data: "pages s (PPN (INDEX2DATA i)) = None" "pages s (PPN (INDEX2DATA j)) = None"
          using ok i j(1,2) sj by (auto simp: fds_ok_def)
        obtain r t where "pipe_rest pfd fd0 fd1 s1 = Some (r, t)" "neg r \<and> pages t = pages s \<or>
            r = 0 \<and> piped s i j t \<and> ld32 pfd t = Some i \<and> ld32 (pfd + 4) t = Some j"
          using pipe_rest_ok [OF i(1) j(1) ij _ _ data _ a pfd] i(2,3) j(2) sj q1(2) by auto
        moreover have "pipe pfd s = pipe_rest pfd fd0 fd1 s1"
          using Inr a1 g1 inr1 by (simp add: pipe_def or_return_def pipe_rest_def)
        ultimately show ?thesis by auto
      qed
    qed
  qed
qed

theorem pipe_correct_witness:
  "\<exists>r t. pipe 0x400000 example_proc = Some (r, t) \<and> (neg r \<and> pages t = pages example_proc \<or>
    r = 0 \<and> (\<exists>i j. piped example_proc i j t \<and> ld32 0x400000 t = Some i \<and> ld32 0x400004 t = Some j))"
proof -
  have "fds_ok example_proc"
  proof -
    have "pages example_proc (PPN (INDEX2DATA i)) = None" if "unat i < 32" "pages example_proc (PPN (INDEX2FD i)) = None" for i
    proof -
      have "i \<noteq> 0" using that(2) by (auto simp: example_proc_def INDEX2FD_def PPN_def)
      then have "unat i \<noteq> 0" by (simp add: unat_eq_zero)
      then have "unat (PPN (INDEX2DATA i)) \<notin> {0x5FF00, 0x60000, 0x400}" using PPN_data [OF that(1)] by auto
      then show ?thesis by (auto simp: example_proc_def)
    qed
    then show ?thesis by (simp add: fds_ok_def) (simp add: example_proc_def)
  qed
  moreover have "unshared example_proc {PPN 0x400000}" by (simp add: unshared_def example_proc_def PPN_def)
  ultimately show ?thesis using pipe_correct [of example_proc "0x400000"] by (simp add: aligned_def PPN_def)
qed

end
