(* ===== verification/Strings.thy ===== *)
theory Strings
  imports Prelude
begin

section \<open>String routines (\<open>user/string.c\<close>)\<close>

text \<open>
  The routines on NUL-terminated strings, as the byte loops of the code over a byte memory
  (a \<open>char\<close> is unsigned on this target), and what they compute on a string: \<open>cstr m a xs\<close>
  says that the bytes \<open>xs\<close>, none of them 0, and then a 0 are at \<open>a\<close>. A loop over a memory
  without a 0 does not come back.
\<close>

subsection \<open>The loops\<close>

partial_function (option) strlen_loop :: "mem \<Rightarrow> u32 \<Rightarrow> u32 \<Rightarrow> u32 option" where
  "strlen_loop m s n = (if m s \<noteq> 0 then strlen_loop m (s + 1) (n + 1) else Some n)"

definition strlen :: "mem \<Rightarrow> u32 \<Rightarrow> u32 option" where
  "strlen m s = strlen_loop m s 0"

partial_function (option) strcpy_loop :: "u32 \<Rightarrow> u32 \<Rightarrow> mem \<Rightarrow> mem option" where
  "strcpy_loop dst src m =
     (let m' = m(dst := m src) in if m src \<noteq> 0 then strcpy_loop (dst + 1) (src + 1) m' else Some m')"

partial_function (option) strchr :: "mem \<Rightarrow> u32 \<Rightarrow> u8 \<Rightarrow> u32 option" where
  "strchr m s c = (if m s = 0 then Some 0 else if m s = c then Some s else strchr m (s + 1) c)"

partial_function (option) strcmp :: "mem \<Rightarrow> u32 \<Rightarrow> u32 \<Rightarrow> int option" where
  "strcmp m p q =
     (if m p \<noteq> 0 \<and> m p = m q then strcmp m (p + 1) (q + 1)
      else Some (if m p < m q then -1 else if m q < m p then 1 else 0))"

subsection \<open>Strings in memory\<close>

fun cstr :: "mem \<Rightarrow> u32 \<Rightarrow> u8 list \<Rightarrow> bool" where
  "cstr m a [] \<longleftrightarrow> m a = 0"
| "cstr m a (c # cs) \<longleftrightarrow> m a = c \<and> c \<noteq> 0 \<and> cstr m (a + 1) cs"

lemma cstr_unique: "cstr m a xs \<Longrightarrow> cstr m a ys \<Longrightarrow> xs = ys"
proof (induction xs arbitrary: a ys)
  case Nil
  then show ?case by (cases ys) auto
next
  case (Cons x xs)
  then show ?case by (cases ys) auto
qed

lemma cstr_cong: "(\<And>k. k \<le> length xs \<Longrightarrow> m' (a + of_nat k) = m (a + of_nat k)) \<Longrightarrow> cstr m' a xs = cstr m a xs"
proof (induction xs arbitrary: a)
  case Nil
  then show ?case using Nil.prems [of 0] by simp
next
  case (Cons x xs)
  have "m' (a + 1 + of_nat k) = m (a + 1 + of_nat k)" if "k \<le> length xs" for k
    using Cons.prems [of "Suc k"] that by (simp add: ac_simps)
  then have "cstr m' (a + 1) xs = cstr m (a + 1) xs" by (rule Cons.IH)
  then show ?case using Cons.prems [of 0] by simp
qed

lemma strlen_loop_cstr: "cstr m a xs \<Longrightarrow> strlen_loop m a n = Some (n + of_nat (length xs))"
proof (induction xs arbitrary: a n)
  case Nil
  then show ?case by (subst strlen_loop.simps) simp
next
  case (Cons x xs)
  then show ?case by (subst strlen_loop.simps) (simp add: ac_simps)
qed

lemma strcmp_cstr:
  assumes "cstr m p xs" "cstr m q ys"
  shows "strcmp m p q = Some (if xs = ys then 0 else if ord_class.lexordp xs ys then -1 else 1)"
  using assms
proof (induction xs arbitrary: p q ys)
  case Nil
  then show ?case by (cases ys; subst strcmp.simps) (auto simp: word_gt_0)
next
  case (Cons x xs)
  show ?case
  proof (cases ys)
    case Nil
    then show ?thesis using Cons.prems by (subst strcmp.simps) (auto simp: word_gt_0)
  next
    case (Cons y ys')
    then show ?thesis
      using Cons.prems Cons.IH [of "p + 1" "q + 1" ys'] by (subst strcmp.simps) auto
  qed
qed

lemma strchr_cstr:
  assumes "cstr m a xs" "c \<noteq> 0"
  shows "strchr m a c = Some (if c \<in> set xs then a + of_nat (length (takeWhile (\<lambda>x. x \<noteq> c) xs)) else 0)"
  using assms(1)
proof (induction xs arbitrary: a)
  case Nil
  then show ?case by (subst strchr.simps) simp
next
  case (Cons x xs)
  then show ?case by (subst strchr.simps) (auto simp: ac_simps)
qed

lemma strcpy_loop_cstr:
  assumes "cstr m src xs" "length xs < 2 ^ 32"
    and "\<And>k l. k \<le> length xs \<Longrightarrow> l \<le> length xs \<Longrightarrow> src + of_nat k \<noteq> dst + of_nat l"
  shows "\<exists>m'. strcpy_loop dst src m = Some m' \<and> cstr m' dst xs \<and>
    (\<forall>a. \<not> in_region dst (length xs + 1) a \<longrightarrow> m' a = m a)"
  using assms
proof (induction xs arbitrary: dst src m)
  case Nil
  have "strcpy_loop dst src m = Some (m(dst := 0))" using Nil.prems(1) by (subst strcpy_loop.simps) simp
  moreover have "in_region dst 1 dst" by (simp add: in_region_def)
  ultimately show ?case by (auto simp: in_region_def)
next
  case (Cons x xs)
  let ?m = "m(dst := x)"
  have far: "src + 1 + of_nat k \<noteq> dst + 1 + of_nat l" if "k \<le> length xs" "l \<le> length xs" for k l
    using Cons.prems(3) [of "Suc k" "Suc l"] that by (simp add: ac_simps)
  have "cstr ?m (src + 1) xs = cstr m (src + 1) xs"
  proof (rule cstr_cong)
    fix k assume "k \<le> length xs"
    then show "?m (src + 1 + of_nat k) = m (src + 1 + of_nat k)"
      using Cons.prems(3) [of "Suc k" 0] by (simp add: ac_simps)
  qed
  then have "cstr ?m (src + 1) xs" using Cons.prems(1) by simp
  from Cons.IH [OF this _ far] Cons.prems(2) obtain m' where
    m': "strcpy_loop (dst + 1) (src + 1) ?m = Some m'" "cstr m' (dst + 1) xs"
    "\<forall>a. \<not> in_region (dst + 1) (length xs + 1) a \<longrightarrow> m' a = ?m a"
    unfolding length_Cons by (meson Suc_lessD)
  have step: "strcpy_loop dst src m = Some m'"
    using Cons.prems(1) m'(1) by (subst strcpy_loop.simps) simp
  have n: "length xs + 2 \<le> 2 ^ 32" using Cons.prems(2) by simp
  have "unat (dst - (dst + 1)) = 2 ^ 32 - 1" by (simp add: unsigned_minus_1_eq_mask mask_eq_exp_minus_1)
  then have "\<not> in_region (dst + 1) (length xs + 1) dst" using n by (simp add: in_region_def)
  then have "m' dst = x" using m'(3) by simp
  moreover have "m' a = m a" if "\<not> in_region dst (length (x # xs) + 1) a" for a
  proof -
    have d: "\<not> unat (a - dst) < length xs + 2" using that by (simp add: in_region_def)
    then have "a \<noteq> dst" by auto
    moreover have "unat (a - (dst + 1)) = unat (a - dst) - 1" by (rule unat_diff_Suc [OF \<open>a \<noteq> dst\<close>])
    ultimately show ?thesis using d spec [OF m'(3), of a] by (simp add: in_region_def)
  qed
  ultimately show ?case using step m'(2) Cons.prems(1) by auto
qed

subsection \<open>What they compute\<close>

text \<open>Property. \<open>strcmp\<close> compares two strings as lists of unsigned bytes: the result is 0 exactly
  when they are equal, -1 when the first comes first in the lexicographic order and 1 when the
  second does; comparing the other way round negates it.\<close>

theorem strcmp_correct:
  assumes "cstr m p xs" "cstr m q ys"
  shows "strcmp m p q = Some (if xs = ys then 0 else if ord_class.lexordp xs ys then -1 else 1) \<and>
    strcmp m q p = map_option uminus (strcmp m p q)"
  using strcmp_cstr [OF assms] strcmp_cstr [OF assms(2,1)] lexordp_antisym [of xs ys] lexordp_linear [of xs ys]
  by auto

theorem strcmp_correct_witness:
  "strcmp ((\<lambda>_. 0)(1 := 97, 2 := 98, 5 := 97, 6 := 200)) 1 5 = Some (-1)"
  using strcmp_correct [of "(\<lambda>_. 0)(1 := 97, 2 := 98, 5 := 97, 6 := 200)" 1 "[97, 98]" 5 "[97, 200]"] by simp

text \<open>Property C28. \<open>strcpy\<close> to a place that does not overlap the string comes back with a copy: \<open>strcmp\<close>
  finds no difference, \<open>strlen\<close> is that of the original, and no other byte has changed.\<close>

theorem strcpy_copies:
  assumes "cstr m src xs" "length xs < 2 ^ 32"
    and "\<And>k l. k \<le> length xs \<Longrightarrow> l \<le> length xs \<Longrightarrow> src + of_nat k \<noteq> dst + of_nat l"
  shows "\<exists>m'. strcpy_loop dst src m = Some m' \<and> strcmp m' dst src = Some 0 \<and> strlen m' dst = strlen m src \<and>
    (\<forall>a. \<not> in_region dst (length xs + 1) a \<longrightarrow> m' a = m a)"
proof -
  obtain m' where m': "strcpy_loop dst src m = Some m'" "cstr m' dst xs"
    "\<forall>a. \<not> in_region dst (length xs + 1) a \<longrightarrow> m' a = m a" using strcpy_loop_cstr [OF assms] by blast
  have "\<not> in_region dst (length xs + 1) (src + of_nat k)" if k: "k \<le> length xs" for k
  proof
    assume "in_region dst (length xs + 1) (src + of_nat k)"
    then have "unat (src + of_nat k - dst) \<le> length xs" by (simp add: in_region_def)
    then have "src + of_nat k \<noteq> dst + of_nat (unat (src + of_nat k - dst))" by (rule assms(3) [OF k])
    then show False by simp
  qed
  then have "cstr m' src xs" using cstr_cong [of xs m' src m] m'(3) assms(1) by simp
  then have "strcmp m' dst src = Some 0" using strcmp_cstr [OF m'(2)] by simp
  moreover have "strlen m' dst = strlen m src"
    using strlen_loop_cstr [OF m'(2)] strlen_loop_cstr [OF assms(1)] by (simp add: strlen_def)
  ultimately show ?thesis using m'(1,3) by blast
qed

theorem strcpy_copies_witness:
  "\<exists>m'. strcpy_loop 8 1 ((\<lambda>_. 0)(1 := 97, 2 := 98)) = Some m' \<and> strcmp m' 8 1 = Some 0"
proof -
  have "\<exists>m'. strcpy_loop 8 1 ((\<lambda>_. 0)(1 := 97, 2 := 98)) = Some m' \<and> strcmp m' 8 1 = Some 0 \<and>
      strlen m' 8 = strlen ((\<lambda>_. 0)(1 := 97, 2 := 98)) 1 \<and>
      (\<forall>a. \<not> in_region 8 (length [97 :: u8, 98] + 1) a \<longrightarrow> m' a = ((\<lambda>_. 0)(1 := 97, 2 := 98)) a)"
  proof (rule strcpy_copies)
    fix k l assume "k \<le> length [97 :: u8, 98]" "l \<le> length [97 :: u8, 98]"
    then have "k \<in> {0, 1, 2}" "l \<in> {0, 1, 2}" by auto
    then show "(1 :: u32) + of_nat k \<noteq> 8 + of_nat l" by auto
  qed simp_all
  then show ?thesis by blast
qed

end
