(* ===== verification/Format.thy ===== *)
theory Format
  imports Fs_Files
begin

section \<open>The disk image tool (\<open>tools/fsformat.c\<close>)\<close>

text \<open>
  The tool runs on the host. The data of its array \<open>disk\<close> and the static \<open>super\<close> are one byte
  memory: block \<open>b\<close> is at \<open>b * BY2BLK\<close>, the superblock at \<open>SUPER\<close>; a \<open>struct File *\<close> is an
  address. On a host with pointers of 8 bytes (\<open>lp64\<close>) \<open>struct File\<close> has 264 bytes instead of
  256, so a block is taken to hold one file less; its fields are where they are otherwise.

  The host's files are arguments: a regular file is its path and its contents, a directory its
  entries in the order in which \<open>readdir\<close> returns them. An index outside \<open>disk\<close> or \<open>f_direct\<close>
  is the value \<open>None\<close>, like a failed assertion. The messages are left out.
\<close>

record img =
  im :: mem
  btype :: "u32 \<Rightarrow> nat"
  nbitblock :: u32
  nextbno :: u32

abbreviation (input) NBLOCK :: u32 where "NBLOCK \<equiv> 1024"
abbreviation (input) SUPER :: u32 where "SUPER \<equiv> 0x800000"
abbreviation (input) s_root :: u32 where "s_root \<equiv> SUPER + 8"

abbreviation (input) FTYPE_REG :: u32 where "FTYPE_REG \<equiv> 0"

abbreviation (input) BLOCK_BOOT :: nat where "BLOCK_BOOT \<equiv> 1"
abbreviation (input) BLOCK_BMAP :: nat where "BLOCK_BMAP \<equiv> 2"
abbreviation (input) BLOCK_SUPER :: nat where "BLOCK_SUPER \<equiv> 3"
abbreviation (input) BLOCK_DATA :: nat where "BLOCK_DATA \<equiv> 4"
abbreviation (input) BLOCK_FILE :: nat where "BLOCK_FILE \<equiv> 5"
abbreviation (input) BLOCK_INDEX :: nat where "BLOCK_INDEX \<equiv> 6"

definition sizeof_File :: "bool \<Rightarrow> nat" where
  "sizeof_File lp64 = (if lp64 then 264 else 256)"

definition block :: "u32 \<Rightarrow> u32" where
  "block b = b * BY2BLK"

definition set_type :: "u32 \<Rightarrow> nat \<Rightarrow> img \<Rightarrow> img" where
  "set_type b t s = s\<lparr>btype := (btype s)(b := t)\<rparr>"

definition put32 :: "u32 \<Rightarrow> u32 \<Rightarrow> img \<Rightarrow> img" where
  "put32 a v s = s\<lparr>im := store32 (im s) a v\<rparr>"

definition init_disk :: "img \<Rightarrow> img" where
  "init_disk s =
     (let s = set_type 0 BLOCK_BOOT s;
          s = s\<lparr>nbitblock := (NBLOCK + BIT2BLK - 1) div BIT2BLK\<rparr>;
          s = s\<lparr>nextbno := 2 + nbitblock s\<rparr>;
          s = fold (\<lambda>i. set_type (2 + of_nat i) BLOCK_BMAP) [0..<unat (nbitblock s)] s;
          s = fold (\<lambda>i s. s\<lparr>im := memset (im s) (block (2 + of_nat i)) 0xFF (unat (NBLOCK div 8))\<rparr>)
            [0..<unat (nbitblock s)] s;
          s = (if NBLOCK \<noteq> nbitblock s * BY2BLK
               then let diff = NBLOCK mod BY2BLK div 8
                 in s\<lparr>im := memset (im s) (block (2 + (nbitblock s - 1)) + diff) 0 (unat (BY2BLK - diff))\<rparr>
               else s);
          s = set_type 1 BLOCK_SUPER s;
          s = put32 SUPER FS_MAGIC s;
          s = put32 (SUPER + 4) NBLOCK s;
          s = put32 (f_type s_root) FTYPE_DIR s
      in s\<lparr>im := put_bytes (im s) s_root [47, 0]\<rparr>)"

definition next_block :: "nat \<Rightarrow> img \<Rightarrow> (u32 \<times> img) option" where
  "next_block t s = (if NBLOCK \<le> nextbno s then None
     else Some (nextbno s, (set_type (nextbno s) t s)\<lparr>nextbno := nextbno s + 1\<rparr>))"

definition flush_bit :: "nat \<Rightarrow> img \<Rightarrow> img" where
  "flush_bit k s =
     (let i = of_nat k; a = block (2 + i div BIT2BLK) + 4 * (i mod BIT2BLK div 32)
      in put32 a (load32 (im s) a AND NOT (push_bit (unat (i mod 32)) 1)) s)"

definition flush_bitmap :: "img \<Rightarrow> img" where
  "flush_bitmap s = fold flush_bit [0..<unat (nextbno s)] s"

text \<open>What \<open>finish_fs\<close> writes to the image: the first \<open>NBLOCK\<close> blocks of the result.\<close>

definition finish_fs :: "bool \<Rightarrow> img \<Rightarrow> img" where
  "finish_fs lp64 s = s\<lparr>im := memcpy (im s) (block 1) SUPER (8 + sizeof_File lp64)\<rparr>"

definition save_block_link :: "u32 \<Rightarrow> u32 \<Rightarrow> u32 \<Rightarrow> img \<Rightarrow> img option" where
  "save_block_link f nblk bno s =
     (if NINDIRECT \<le> nblk then None
      else if nblk < NDIRECT then Some (put32 (f_direct f nblk) bno s)
      else do {
        s \<leftarrow> (if load32 (im s) (f_indirect f) = 0
              then do { (b, s) \<leftarrow> next_block BLOCK_INDEX s; Some (put32 (f_indirect f) b s) }
              else Some s);
        let b = load32 (im s) (f_indirect f);
        if NBLOCK \<le> b then None else Some (put32 (block b + 4 * nblk) bno s)
      })"

definition make_link_block :: "u32 \<Rightarrow> u32 \<Rightarrow> img \<Rightarrow> (u32 \<times> img) option" where
  "make_link_block dirf nblk s = do {
     s \<leftarrow> save_block_link dirf nblk (nextbno s) s;
     next_block BLOCK_FILE (put32 (f_size dirf) (load32 (im s) (f_size dirf) + BY2BLK) s)
   }"

definition create_file :: "bool \<Rightarrow> u32 \<Rightarrow> img \<Rightarrow> (u32 \<times> img) option" where
  "create_file lp64 dirf s =
     (let nblk = load32 (im s) (f_size dirf) div BY2BLK;
          new = (do { (bno, s) \<leftarrow> make_link_block dirf nblk s; Some (block bno, s) }) in
      if nblk = 0 then new
      else if NDIRECT < nblk then None
      else let b = load32 (im s) (f_direct dirf (nblk - 1)) in
        if NBLOCK \<le> b then None
        else (case find (\<lambda>f. im s f = 0) (map (\<lambda>i. block b + of_nat i * 256) [0..<4096 div sizeof_File lp64]) of
            Some f \<Rightarrow> Some (f, s)
          | None \<Rightarrow> new))"

text \<open>The loop of \<open>write_file\<close>: one \<open>read\<close> of a whole block, or of what is left.\<close>

function write_blocks :: "u32 \<Rightarrow> u32 \<Rightarrow> u8 list \<Rightarrow> img \<Rightarrow> img option" where
  "write_blocks target iblk cs s =
     (if cs = [] then Some s
      else if NBLOCK \<le> nextbno s then None
      else do {
        let s = s\<lparr>im := put_bytes (im s) (block (nextbno s)) (take 4096 cs)\<rparr>;
        (b, s) \<leftarrow> next_block BLOCK_DATA s;
        s \<leftarrow> save_block_link target iblk b s;
        write_blocks target (iblk + 1) (drop 4096 cs) s
      })"
  by pat_completeness auto
termination
  by (relation "measure (\<lambda>(_, _, cs, _). length cs)") auto

definition base_name :: "u8 list \<Rightarrow> u8 list" where
  "base_name path = rev (takeWhile (\<lambda>c. c \<noteq> 47) (rev path))"

definition write_file :: "bool \<Rightarrow> u32 \<Rightarrow> u8 list \<Rightarrow> u8 list \<Rightarrow> img \<Rightarrow> img option" where
  "write_file lp64 dirf path cs s = do {
     (target, s) \<leftarrow> create_file lp64 dirf s;
     let s = s\<lparr>im := put_bytes (im s) target (base_name path @ [0])\<rparr>;
     let s = put32 (f_size target) (of_nat (length cs)) s;
     let s = put32 (f_type target) FTYPE_REG s;
     write_blocks target 0 cs s
   }"

datatype host = Regular "u8 list" "u8 list" | Directory "u8 list" "host list"

fun d_name :: "host \<Rightarrow> u8 list" where
  "d_name (Regular n _) = n"
| "d_name (Directory n _) = n"

fun write_directory :: "bool \<Rightarrow> u32 \<Rightarrow> u8 list \<Rightarrow> host list \<Rightarrow> img \<Rightarrow> img option" where
  "write_directory lp64 dirf name [] s = Some s"
| "write_directory lp64 dirf name (e # es) s = do {
     s \<leftarrow> (if d_name e = [46] \<or> d_name e = [46, 46] then Some s
           else let path = name @ 47 # d_name e in
             (case e of
                Directory n sub \<Rightarrow> do {
                  (dfile, s) \<leftarrow> create_file lp64 dirf s;
                  let s = put32 (f_type dfile) FTYPE_DIR s;
                  let s = s\<lparr>im := put_bytes (im s) dfile (n @ [0])\<rparr>;
                  write_directory lp64 dfile path sub s
                }
              | Regular n cs \<Rightarrow> write_file lp64 dirf path cs s));
     write_directory lp64 dirf name es s
   }"

text \<open>\<open>fsformat image files ...\<close> and \<open>fsformat image -r dir\<close>, from the static data of the program.\<close>

definition blank :: img where
  "blank = \<lparr>im = \<lambda>_. 0, btype = \<lambda>_. 0, nbitblock = 0, nextbno = 0\<rparr>"

definition format_files :: "bool \<Rightarrow> (u8 list \<times> u8 list) list \<Rightarrow> img option" where
  "format_files lp64 files = do {
     s \<leftarrow> foldM (\<lambda>(path, cs). write_file lp64 s_root path cs) files (init_disk blank);
     Some (finish_fs lp64 (flush_bitmap s))
   }"

definition format_dir :: "bool \<Rightarrow> u8 list \<Rightarrow> host list \<Rightarrow> img option" where
  "format_dir lp64 name es = do {
     s \<leftarrow> write_directory lp64 s_root name es (init_disk blank);
     Some (finish_fs lp64 (flush_bitmap s))
   }"

end
