(* ===== verification/Formatting.thy ===== *)
theory Formatting
  imports Format Fs_Start
begin

section \<open>The disk image tool: proofs\<close>

text \<open>
  While the image is built, the superblock's fields and the bitmap keep the values that
  \<open>init_disk\<close> gives them, the blocks that are not yet taken are zero, and the block numbers in the
  files' fields lead to blocks that are taken (\<open>fmt\<close>). When the image is finished, the file
  server starts on it and finds exactly the blocks in use that the tool has taken.
\<close>

subsection \<open>Addresses\<close>

lemma unat_block: "b < 1024 \<Longrightarrow> unat (block b) = 4096 * unat b"
  by (simp add: block_def unat_word_ariths word_less_nat_alt)

definition place :: "u32 \<Rightarrow> bool" where
  "place p \<longleftrightarrow> p = s_root \<or> (\<exists>b i. 3 \<le> unat b \<and> unat b < 1024 \<and> i < 16 \<and> p = block b + of_nat i * 256)"

lemma unat_slot: "unat b < 1024 \<Longrightarrow> i < 16 \<Longrightarrow> unat (block b + of_nat i * 256) = 4096 * unat b + 256 * i"
  using unat_block [of b] by (simp add: unat_word_ariths unat_of_nat_u32 word_less_nat_alt)

lemma place_bounds:
  "place p \<Longrightarrow> unat p = 0x800008 \<or> 12288 \<le> unat p \<and> unat p + 256 \<le> 0x400000 \<and> 256 dvd unat p"
  unfolding place_def
proof (elim disjE exE conjE)
  fix b i assume b: "3 \<le> unat b" "unat b < 1024" "i < 16" "p = block b + of_nat i * 256"
  have "unat p = 256 * (16 * unat b + i)" using unat_slot [OF b(2,3)] b(4) by simp
  then show ?thesis using b by auto
qed simp

lemma place_aligned: "place p \<Longrightarrow> aligned 4 p"
proof -
  assume "place p"
  then have "unat p = 0x800008 \<or> 256 dvd unat p" using place_bounds by blast
  moreover have "(4 :: nat) dvd 0x800008" "(4 :: nat) dvd 256" by simp_all
  ultimately have "4 dvd unat p" using dvd_trans by metis
  then show ?thesis by (simp add: aligned_def)
qed

lemma place_apart: "place p \<Longrightarrow> place q \<Longrightarrow> p \<noteq> q \<Longrightarrow> unat p + 256 \<le> unat q \<or> unat q + 256 \<le> unat p"
proof -
  assume p: "place p" "place q" "p \<noteq> q"
  then have ne: "unat p \<noteq> unat q" by (simp add: word_unat_eq_iff)
  have "256 dvd unat p \<and> 256 dvd unat q \<or> ?thesis"
    using place_bounds [OF p(1)] place_bounds [OF p(2)] ne by auto
  then show ?thesis
  proof
    assume "256 dvd unat p \<and> 256 dvd unat q"
    then obtain x y where "unat p = 256 * x" "unat q = 256 * y" by (auto elim!: dvdE)
    then show ?thesis using ne by auto
  qed
qed

text \<open>A word of a file, or of the superblock, or of a block.\<close>

lemma place_word:
  assumes "place p" "unat c + 4 \<le> 256" "4 dvd unat c"
  shows "unat (p + c) = unat p + unat c" "aligned 4 (p + c)"
proof -
  have "unat p + 256 \<le> 0x800108" using place_bounds [OF assms(1)] by auto
  then show u: "unat (p + c) = unat p + unat c" using assms(2) by (simp add: unat_word_ariths)
  show "aligned 4 (p + c)" using place_aligned [OF assms(1)] assms(3) by (simp add: aligned_def u)
qed

text \<open>Only the \<open>n\<close> bytes from \<open>lo\<close> on differ.\<close>

definition only :: "nat \<Rightarrow> nat \<Rightarrow> mem \<Rightarrow> mem \<Rightarrow> bool" where
  "only lo n m m' \<longleftrightarrow> (\<forall>x. unat x < lo \<or> lo + n \<le> unat x \<longrightarrow> m' x = m x)"

lemma only_load32:
  assumes "only lo n m m'" "aligned 4 a" "unat a + 4 \<le> lo \<or> lo + n \<le> unat a"
  shows "load32 m' a = load32 m a"
proof (rule load32_cong)
  fix x assume "in_region a 4 x"
  then obtain k where k: "k < 4" "x = a + of_nat k"
    by (intro that [of "unat (x - a)"]) (simp_all add: in_region_def)
  have "unat x = unat a + k" using aligned_byte [OF assms(2) k(1)] k(2) by simp
  then show "m' x = m x" using assms(1,3) k(1) unfolding only_def by auto
qed

lemma only_store32: "aligned 4 a \<Longrightarrow> only (unat a) 4 m (store32 m a v)"
  unfolding only_def
proof (intro allI impI)
  fix x :: u32 assume a: "aligned 4 a" and x: "unat x < unat a \<or> unat a + 4 \<le> unat x"
  have "\<not> in_region a 4 x"
  proof
    assume "in_region a 4 x"
    then obtain k where k: "k < 4" "x = a + of_nat k"
      by (intro that [of "unat (x - a)"]) (simp_all add: in_region_def)
    then show False using aligned_byte [OF a k(1)] x by simp
  qed
  then show "store32 m a v x = m x" by (rule store32_other_byte)
qed

lemma only_put_bytes: "unat a + length cs \<le> 2 ^ 32 \<Longrightarrow> only (unat a) (length cs) m (put_bytes m a cs)"
  unfolding only_def
proof (intro allI impI)
  fix x :: u32 assume l: "unat a + length cs \<le> 2 ^ 32" and x: "unat x < unat a \<or> unat a + length cs \<le> unat x"
  show "put_bytes m a cs x = m x"
  proof (cases "cs = []")
    case False
    have lt: "length cs < 2 ^ 32 \<or> unat a = 0" using l by auto
    have "\<not> in_region a (length cs) x" using x l by (auto simp: in_region_unat)
    then show ?thesis
      by (cases "length cs < 2 ^ 32") (auto intro: put_bytes_other, use l x unat_u32 [of x] in auto)
  qed simp
qed

subsection \<open>The invariant\<close>

definition files :: "img \<Rightarrow> u32 set" where
  "files s = {s_root} \<union> {block b + of_nat i * 256 | b i. btype s b = BLOCK_FILE \<and> i < (16 :: nat)}"

text \<open>The block numbers of a file that the tool follows: the index block, and the direct blocks of
  a directory; a slot without a name is empty.\<close>

definition file_ok :: "img \<Rightarrow> u32 \<Rightarrow> bool" where
  "file_ok s p \<longleftrightarrow>
     (let x = load32 (im s) (f_indirect p) in x = 0 \<or> 3 \<le> unat x \<and> unat x < unat (nextbno s) \<and> btype s x \<noteq> BLOCK_FILE) \<and>
     (load32 (im s) (f_type p) = FTYPE_DIR \<longrightarrow> load32 (im s) (f_size p) mod BY2BLK = 0 \<and>
        (\<forall>k<10. k < unat (load32 (im s) (f_size p) div BY2BLK) \<longrightarrow> btype s (load32 (im s) (f_direct p (of_nat k))) = BLOCK_FILE)) \<and>
     (im s p = 0 \<longrightarrow> load32 (im s) (f_size p) = 0 \<and> load32 (im s) (f_type p) = 0 \<and> load32 (im s) (f_indirect p) = 0)"

definition fmt :: "img \<Rightarrow> bool" where
  "fmt s \<longleftrightarrow> 3 \<le> unat (nextbno s) \<and> unat (nextbno s) \<le> 1024 \<and>
     load32 (im s) SUPER = FS_MAGIC \<and> load32 (im s) (SUPER + 4) = NBLOCK \<and>
     (\<forall>x. 8192 \<le> unat x \<and> unat x < 12288 \<longrightarrow> im s x = (if unat x < 8320 then 0xFF else 0)) \<and>
     (\<forall>x. 4096 * unat (nextbno s) \<le> unat x \<and> unat x < 0x400000 \<longrightarrow> im s x = 0) \<and>
     (\<forall>b. btype s b = BLOCK_FILE \<longrightarrow> 3 \<le> unat b \<and> unat b < unat (nextbno s)) \<and>
     (\<forall>p\<in>files s. file_ok s p)"

lemma files_place: "fmt s \<Longrightarrow> p \<in> files s \<Longrightarrow> place p"
  unfolding fmt_def files_def place_def by (auto, metis (no_types) order.strict_trans2)

lemma files_below: "fmt s \<Longrightarrow> p \<in> files s \<Longrightarrow> p = s_root \<or> unat p + 256 \<le> 4096 * unat (nextbno s)"
proof -
  assume f: "fmt s" and p: "p \<in> files s"
  then consider "p = s_root" | b i where "btype s b = 5" "i < 16" "p = block b + of_nat i * 256"
    by (auto simp: files_def)
  then show ?thesis
  proof cases
    case 2
    then have b: "unat b < unat (nextbno s)" "unat (nextbno s) \<le> 1024" using f by (auto simp: fmt_def)
    then have "unat p = 4096 * unat b + 256 * i" using unat_slot [of b i] 2 by simp
    then show ?thesis using b(1) 2(2) by simp
  qed simp
qed

text \<open>A change of some bytes that are not the bitmap's, the superblock's first words, or free.\<close>

definition writable_at :: "img \<Rightarrow> nat \<Rightarrow> nat \<Rightarrow> bool" where
  "writable_at s lo n \<longleftrightarrow> 12288 \<le> lo \<and> lo + n \<le> 4096 * unat (nextbno s) \<or> 0x800008 \<le> lo \<and> lo + n \<le> 0x800108"

lemma file_ok_cong:
  assumes "place p" "only lo n (im s) (im s')" "unat p + 256 \<le> lo \<or> lo + n \<le> unat p"
    and "btype s' = btype s" "nextbno s' = nextbno s"
  shows "file_ok s' p = file_ok s p"
proof -
  have w: "load32 (im s') (p + c) = load32 (im s) (p + c)" if "unat c + 4 \<le> 256" "4 dvd unat c" for c
    using only_load32 [OF assms(2) place_word(2) [OF assms(1) that]] place_word(1) [OF assms(1) that] assms(3) that(1)
    by auto
  have d: "load32 (im s') (f_direct p (of_nat k)) = load32 (im s) (f_direct p (of_nat k))" if k: "k < 10" for k
  proof -
    have "unat (136 + 4 * of_nat k :: u32) = 4 * (34 + k)" using k by (simp add: unat_word_ariths unat_of_nat_u32)
    then show ?thesis using w [of "136 + 4 * of_nat k"] k by (simp add: add.assoc)
  qed
  have "im s' p = im s p" using assms(2,3) unfolding only_def by auto
  then show ?thesis using w [of 128] w [of 132] w [of 176] d assms(4,5) by (simp add: file_ok_def)
qed

lemma fmt_change:
  assumes f: "fmt s" and o: "only lo n (im s) (im s')" and eq: "btype s' = btype s" "nextbno s' = nextbno s"
    and w: "writable_at s lo n"
    and q: "\<And>q. q \<in> files s \<Longrightarrow> q \<noteq> p \<Longrightarrow> unat q + 256 \<le> lo \<or> lo + n \<le> unat q"
    and p: "p \<in> files s \<Longrightarrow> file_ok s' p"
  shows "fmt s'"
proof -
  have "unat (nextbno s) \<le> 1024" "3 \<le> unat (nextbno s)" using f by (simp_all add: fmt_def)
  then have b: "lo + n \<le> 4096 * unat (nextbno s) \<and> lo + n \<le> 0x400000 \<and> 12288 \<le> lo \<or> 0x800008 \<le> lo"
    using w by (auto simp: writable_at_def)
  have sup: "load32 (im s') SUPER = load32 (im s) SUPER" "load32 (im s') (SUPER + 4) = load32 (im s) (SUPER + 4)"
    using only_load32 [OF o, of SUPER] only_load32 [OF o, of "SUPER + 4"] b by (auto simp: aligned_def)
  have fs: "files s' = files s" by (simp add: files_def eq)
  have "file_ok s' r" if r: "r \<in> files s" for r
  proof (cases "r = p")
    case False
    have "file_ok s r" using f r by (simp add: fmt_def)
    then show ?thesis using file_ok_cong [OF files_place [OF f r] o q [OF r False] eq] by simp
  qed (use p r in simp)
  moreover have "im s' x = im s x" if "unat x < 12288 \<or> 4096 * unat (nextbno s) \<le> unat x \<and> unat x < 0x400000" for x
    using o b that \<open>unat (nextbno s) \<le> 1024\<close> \<open>3 \<le> unat (nextbno s)\<close> unfolding only_def by auto
  ultimately show ?thesis using f sup by (simp add: fmt_def eq fs)
qed

text \<open>Taking the next block for data or an index.\<close>

lemma fmt_next:
  assumes f: "fmt s" and n: "next_block t s = Some (b, s')" and t: "t \<noteq> BLOCK_FILE"
  shows "b = nextbno s \<and> unat b < 1024 \<and> fmt s' \<and> im s' = im s \<and> unat (nextbno s') = unat b + 1 \<and> files s' = files s \<and>
    btype s' = (btype s)(b := t)"
proof -
  have b: "b = nextbno s" "\<not> NBLOCK \<le> nextbno s" "s' = (set_type b t s)\<lparr>nextbno := b + 1\<rparr>"
    using n by (auto simp: next_block_def split: if_splits)
  have u: "unat b < 1024" using b(1,2) by (simp add: word_le_nat_alt)
  then have u1: "unat (b + 1) = unat b + 1" by (simp add: unat_word_ariths)
  have nb: "btype s b \<noteq> 5" using f b(1) by (auto simp: fmt_def)
  have eq: "im s' = im s" "btype s' = (btype s)(b := t)" "nextbno s' = b + 1" by (simp_all add: b(3) set_type_def)
  have ft: "btype s' c = 5 \<longleftrightarrow> btype s c = 5" for c using nb t by (simp add: eq)
  have fs: "files s' = files s" by (simp only: files_def ft)
  have "file_ok s' r" if r: "r \<in> files s" for r
  proof -
    have "file_ok s r" using f r by (simp add: fmt_def)
    then show ?thesis unfolding file_ok_def Let_def ft eq(1) using u1 b(1) eq(3) by auto
  qed
  then have "fmt s'" using f u u1 b(1) unfolding fmt_def ft fs eq(1) eq(3) by auto
  then show ?thesis using b(1) u u1 eq fs by simp
qed

subsection \<open>Writing a field of a file\<close>

lemma put_field:
  assumes "place p" "unat c + 4 \<le> 256" "4 dvd unat c" "unat d + 4 \<le> 256" "4 dvd unat d"
  shows "load32 (im (put32 (p + c) v s)) (p + d) = (if d = c then v else load32 (im s) (p + d))"
  using place_word(2) [OF assms(1-3)] place_word(2) [OF assms(1,4,5)]
  by (simp add: put32_def load32_store32_same load32_store32_other)

lemma only_put_field:
  assumes "place p" "unat c + 4 \<le> 256" "4 dvd unat c"
  shows "only (unat p + unat c) 4 (im s) (im (put32 (p + c) v s))"
  using only_store32 [OF place_word(2) [OF assms]] place_word(1) [OF assms] by (simp add: put32_def)

lemma put_field_name:
  assumes "place p" "unat c + 4 \<le> 256" "4 dvd unat c" "4 \<le> unat c"
  shows "im (put32 (p + c) v s) p = im s p"
  using only_put_field [OF assms(1-3)] assms(4) unfolding only_def by auto

lemma put32_same [simp]: "btype (put32 a v s) = btype s" "nextbno (put32 a v s) = nextbno s" "files (put32 a v s) = files s"
  by (simp_all add: put32_def files_def)

lemma fmt_put_field:
  assumes f: "fmt s" and p: "p \<in> files s" and c: "unat c + 4 \<le> 256" "4 dvd unat c"
    and ok: "file_ok (put32 (p + c) v s) p"
  shows "fmt (put32 (p + c) v s)"
proof (rule fmt_change [OF f, of "unat p + unat c" 4 _ p])
  note pl = files_place [OF f p]
  show "only (unat p + unat c) 4 (im s) (im (put32 (p + c) v s))" by (rule only_put_field [OF pl c])
  show "writable_at s (unat p + unat c) 4"
    using place_bounds [OF pl] files_below [OF f p] c(1) by (auto simp: writable_at_def)
  show "unat q + 256 \<le> unat p + unat c \<or> unat p + unat c + 4 \<le> unat q" if "q \<in> files s" "q \<noteq> p" for q
    using place_apart [OF files_place [OF f that(1)] pl that(2)] c(1) by auto
qed (use ok in simp_all)

lemma field_consts: "unat (136 + 4 * of_nat k :: u32) = 136 + 4 * k" if "k < 10"
  using that by (simp add: unat_word_ariths unat_of_nat_u32)

lemma direct_field: "k < 10 \<Longrightarrow> unat (136 + 4 * of_nat k :: u32) + 4 \<le> 256 \<and> 4 dvd unat (136 + 4 * of_nat k :: u32)"
proof -
  assume k: "k < 10"
  have "(4 :: nat) dvd 4 * (34 + k)" by simp
  then show ?thesis using k by (simp only: field_consts) simp
qed

text \<open>The name and the type of a file stay.\<close>

definition heads :: "img \<Rightarrow> img \<Rightarrow> bool" where
  "heads s s' \<longleftrightarrow> (\<forall>q\<in>files s. q \<in> files s' \<and> im s' q = im s q \<and> load32 (im s') (f_type q) = load32 (im s) (f_type q))"

lemma heads_trans: "heads s t \<Longrightarrow> heads t u \<Longrightarrow> heads s u"
  by (simp add: heads_def)

lemma heads_only:
  assumes f: "fmt s" and o: "only lo n (im s) (im s')" and fs: "files s \<subseteq> files s'"
    and q: "\<And>q. q \<in> files s \<Longrightarrow> unat q + 136 \<le> lo \<or> lo + n \<le> unat q \<or> unat q + 4 \<le> lo \<and> lo + n \<le> unat q + 132"
  shows "heads s s'"
  unfolding heads_def
proof (intro ballI conjI)
  fix q assume r: "q \<in> files s"
  note pl = files_place [OF f r]
  show "q \<in> files s'" using fs r by blast
  show "im s' q = im s q" using o q [OF r] unfolding only_def by auto
  show "load32 (im s') (f_type q) = load32 (im s) (f_type q)"
    using only_load32 [OF o place_word(2) [OF pl, of 132]] place_word(1) [OF pl, of 132] q [OF r] by auto
qed

lemma heads_put:
  assumes f: "fmt s" and p: "p \<in> files s" and c: "unat c + 4 \<le> 256" "4 dvd unat c" "136 \<le> unat c \<or> unat c = 128"
  shows "heads s (put32 (p + c) v s)"
proof (rule heads_only [OF f only_put_field [OF files_place [OF f p] c(1,2)]])
  fix q assume r: "q \<in> files s"
  show "unat q + 136 \<le> unat p + unat c \<or> unat p + unat c + 4 \<le> unat q \<or>
      unat q + 4 \<le> unat p + unat c \<and> unat p + unat c + 4 \<le> unat q + 132"
    using place_apart [OF files_place [OF f r] files_place [OF f p]] c by (cases "q = p") auto
qed simp

text \<open>The index block of a file and its entries.\<close>

lemma index_entry:
  assumes f: "fmt s" and b: "3 \<le> unat b" "unat b < unat (nextbno s)" "btype s b \<noteq> BLOCK_FILE" and k: "unat k < 1024"
  shows "fmt (put32 (block b + 4 * k) v s)" "only (4096 * unat b + 4 * unat k) 4 (im s) (im (put32 (block b + 4 * k) v s))"
    "\<And>q. q \<in> files s \<Longrightarrow> unat q + 256 \<le> 4096 * unat b + 4 * unat k \<or> 4096 * unat b + 4 * unat k + 4 \<le> unat q"
proof -
  let ?lo = "4096 * unat b + 4 * unat k"
  have n: "unat (nextbno s) \<le> 1024" using f by (simp add: fmt_def)
  have ub: "unat (block b + 4 * k) = ?lo" using unat_block [of b] b n k by (simp add: unat_word_ariths word_less_nat_alt)
  have "aligned 4 (block b + 4 * k)" unfolding aligned_def ub by simp
  then show o: "only ?lo 4 (im s) (im (put32 (block b + 4 * k) v s))" using only_store32 [of "block b + 4 * k"] ub by (simp add: put32_def)
  show q: "unat q + 256 \<le> ?lo \<or> ?lo + 4 \<le> unat q" if "q \<in> files s" for q
  proof -
    consider "q = s_root" | c i where "btype s c = 5" "i < 16" "q = block c + of_nat i * 256"
      using \<open>q \<in> files s\<close> by (auto simp: files_def)
    then show ?thesis
    proof cases
      case 1
      then show ?thesis using b n k by simp
    next
      case 2
      then have c: "unat c < 1024" using f n by (auto simp: fmt_def)
      have "c \<noteq> b" using 2 b(3) by auto
      then have "unat c \<noteq> unat b" by (simp add: word_unat_eq_iff)
      then show ?thesis using unat_slot [OF c 2(2)] 2(2,3) k by (cases "unat c" "unat b" rule: linorder_cases) auto
    qed
  qed
  have "0 \<notin> files s" using files_place [OF f, of 0] place_bounds [of 0] by auto
  then show "fmt (put32 (block b + 4 * k) v s)"
    using b k q by (intro fmt_change [OF f o, where p = 0]) (auto simp: writable_at_def)
qed

lemma save_index_ok:
  assumes f: "fmt s" and p: "p \<in> files s" "im s p \<noteq> 0" and k: "10 \<le> unat k"
    and r: "save_block_link p k bno s = Some s'"
  shows "fmt s'" "files s' = files s" "im s' p = im s p" "nextbno s \<le> nextbno s'"
    "\<And>c. unat c + 4 \<le> 176 \<Longrightarrow> 4 dvd unat c \<Longrightarrow> load32 (im s') (p + c) = load32 (im s) (p + c)"
    "\<And>b. btype s' b = BLOCK_FILE \<longleftrightarrow> btype s b = BLOCK_FILE" "heads s s'"
proof -
  note pl = files_place [OF f p(1)]
  have k1: "\<not> NINDIRECT \<le> k" "\<not> k < NDIRECT" using r k by (auto simp: save_block_link_def word_less_nat_alt split: if_splits)
  then have k2: "unat k < 1024" by (simp add: word_le_nat_alt)
  have "\<exists>s1. (if load32 (im s) (f_indirect p) = 0
              then do { (b, s) \<leftarrow> next_block BLOCK_INDEX s; Some (put32 (f_indirect p) b s) }
              else Some s) = Some s1 \<and>
      (let b = load32 (im s1) (f_indirect p) in if NBLOCK \<le> b then None else Some (put32 (block b + 4 * k) bno s1)) = Some s'"
    using r k1 by (auto simp: save_block_link_def Let_def split: Option.bind_splits if_splits)
  then obtain s1 where s1: "(if load32 (im s) (f_indirect p) = 0
              then do { (b, s) \<leftarrow> next_block BLOCK_INDEX s; Some (put32 (f_indirect p) b s) } else Some s) = Some s1"
    and s': "s' = put32 (block (load32 (im s1) (f_indirect p)) + 4 * k) bno s1" by (auto simp: Let_def split: if_splits)
  have 1: "fmt s1 \<and> files s1 = files s \<and> im s1 p = im s p \<and> nextbno s \<le> nextbno s1 \<and> load32 (im s1) (f_indirect p) \<noteq> 0 \<and>
      (\<forall>c. unat c + 4 \<le> 176 \<and> 4 dvd unat c \<longrightarrow> load32 (im s1) (p + c) = load32 (im s) (p + c)) \<and>
      (\<forall>b. btype s1 b = BLOCK_FILE \<longleftrightarrow> btype s b = BLOCK_FILE) \<and> heads s s1"
  proof (cases "load32 (im s) (f_indirect p) = 0")
    case False
    then show ?thesis using s1 f by (simp add: heads_def)
  next
    case True
    then obtain b s0 where s0: "next_block BLOCK_INDEX s = Some (b, s0)" "s1 = put32 (f_indirect p) b s0"
      using s1 by (auto split: Option.bind_splits)
    note n = fmt_next [OF f s0(1)]
    have f0: "fmt s0" "files s0 = files s" "im s0 = im s" and b: "b = nextbno s" "unat (nextbno s0) = unat b + 1" "btype s0 = (btype s)(b := 6)"
      using n by auto
    have b3: "3 \<le> unat b" using f b(1) by (simp add: fmt_def)
    have nb: "btype s b \<noteq> 5" using f b(1) by (auto simp: fmt_def)
    have c: "load32 (im s1) (p + c) = (if c = 176 then b else load32 (im s) (p + c))" if "unat c + 4 \<le> 256" "4 dvd unat c" for c
      using put_field [OF pl _ _ that, of 176 b s0] s0(2) f0(3) by simp
    have nm: "im s1 p = im s p" using put_field_name [OF pl, of 176 b s0] s0(2) f0(3) by simp
    have cs: "load32 (im s1) (p + 128) = load32 (im s) (p + 128)" "load32 (im s1) (p + 132) = load32 (im s) (p + 132)"
      "load32 (im s1) (p + 176) = b" using c [of 128] c [of 132] c [of 176] by simp_all
    have cd: "load32 (im s1) (f_direct p (of_nat k)) = load32 (im s) (f_direct p (of_nat k))" if k: "k < 10" for k
    proof -
      have "unat (136 + 4 * of_nat k :: u32) \<noteq> unat (176 :: u32)" using field_consts [OF k] k by simp
      then have "136 + 4 * of_nat k \<noteq> (176 :: u32)" by metis
      then show ?thesis using c [of "136 + 4 * of_nat k"] direct_field [OF k] by (simp add: add.assoc)
    qed
    have "file_ok s p" using f p(1) by (simp add: fmt_def)
    then have "file_ok s1 p"
      unfolding file_ok_def Let_def nm cs using cd b b3 nb p(2) s0(2) by auto
    then have "fmt s1" using fmt_put_field [OF f0(1), of p 176 b] p(1) f0(2) s0(2) by simp
    moreover have "load32 (im s1) (f_indirect p) \<noteq> 0" using c [of 176] b3 by auto
    moreover have "load32 (im s1) (p + c) = load32 (im s) (p + c)" if "unat c + 4 \<le> 176" "4 dvd unat c" for c
      using c [of c] that by auto
    moreover have "nextbno s \<le> nextbno s1" using b s0(2) by (simp add: word_le_nat_alt)
    moreover have "heads s s1"
    proof (rule heads_trans)
      show "heads s s0" using f0 by (simp add: heads_def)
      show "heads s0 s1" using heads_put [OF f0(1), of p 176 b] p(1) f0(2) s0(2) by simp
    qed
    ultimately show ?thesis using f0(2) nm b(3) nb s0(2) by auto
  qed
  let ?b = "load32 (im s1) (f_indirect p)"
  have "file_ok s1 p" using 1 p(1) by (simp add: fmt_def)
  then have b: "3 \<le> unat ?b" "unat ?b < unat (nextbno s1)" "btype s1 ?b \<noteq> 5" using 1 by (auto simp: file_ok_def Let_def)
  have f1: "fmt s1" using 1 by simp
  note e = index_entry [OF f1 b k2]
  have pq: "unat p + 256 \<le> 4096 * unat ?b + 4 * unat k \<or> 4096 * unat ?b + 4 * unat k + 4 \<le> unat p"
    using e(3) [of p] 1 p(1) by simp
  show "fmt s'" using e(1) s' by simp
  have "heads s1 s'"
    using e(2,3) by (intro heads_only [OF f1, of "4096 * unat ?b + 4 * unat k" 4]) (auto simp: s' dest: e(3))
  then show "heads s s'" using 1 heads_trans by blast
  show "files s' = files s" "nextbno s \<le> nextbno s'" "\<And>b. btype s' b = BLOCK_FILE \<longleftrightarrow> btype s b = BLOCK_FILE"
    using 1 s' by simp_all
  have "im s' p = im s1 p" using e(2) pq unfolding s' only_def by auto
  then show "im s' p = im s p" using 1 by simp
  show "load32 (im s') (p + c) = load32 (im s) (p + c)" if "unat c + 4 \<le> 176" "4 dvd unat c" for c
  proof -
    have "load32 (im s') (p + c) = load32 (im s1) (p + c)"
      using only_load32 [OF e(2) place_word(2) [OF pl, of c]] place_word(1) [OF pl, of c] pq that unfolding s' by auto
    then show ?thesis using 1 that by simp
  qed
qed

text \<open>Taking a block for files: its sixteen places are empty files.\<close>

lemma fmt_next_file:
  assumes f: "fmt s" and n: "next_block BLOCK_FILE s = Some (b, s')"
  shows "b = nextbno s" "3 \<le> unat b" "unat b < 1024" "fmt s'" "im s' = im s" "unat (nextbno s') = unat b + 1" "heads s s'"
    "btype s' = (btype s)(b := BLOCK_FILE)" "\<And>i. i < 16 \<Longrightarrow> im s (block b + of_nat i * 256) = 0"
proof -
  have b: "b = nextbno s" "\<not> NBLOCK \<le> nextbno s" "s' = (set_type b 5 s)\<lparr>nextbno := b + 1\<rparr>"
    using n by (auto simp: next_block_def split: if_splits)
  show u: "unat b < 1024" using b(1,2) by (simp add: word_le_nat_alt)
  then show u1: "unat (nextbno s') = unat b + 1" using b(3) by (simp add: unat_word_ariths)
  have eq: "im s' = im s" "btype s' = (btype s)(b := 5)" by (simp_all add: b(3) set_type_def)
  show "b = nextbno s" "im s' = im s" "btype s' = (btype s)(b := BLOCK_FILE)" using b(1) eq by simp_all
  show b3: "3 \<le> unat b" using f b(1) by (simp add: fmt_def)
  have zero: "im s x = 0" if "4096 * unat b \<le> unat x" "unat x < 4096 * unat b + 4096" for x
    using f that u b(1) unfolding fmt_def by auto
  show z0: "im s (block b + of_nat i * 256) = 0" if "i < 16" for i
    using unat_slot [OF u that] that by (intro zero) simp_all
  have sub: "files s \<subseteq> files s'" by (auto simp: files_def eq)
  then show "heads s s'" by (auto simp: heads_def eq)
  have "file_ok s' r" if "r \<in> files s'" for r
  proof (cases "r \<in> files s")
    case True
    then have "file_ok s r" using f by (simp add: fmt_def)
    then show ?thesis using b(1) u1 unfolding file_ok_def Let_def eq by auto
  next
    case False
    then obtain i where i: "i < 16" "r = block b + of_nat i * 256"
      using \<open>r \<in> files s'\<close> by (auto simp: files_def eq split: if_splits)
    have pl: "place r" using i b3 u unfolding place_def by blast
    have "load32 (im s) (r + c) = 0" if c: "unat c + 4 \<le> 256" "4 dvd unat c" for c
    proof -
      have "im s (r + c + of_nat k) = 0" if k: "k < 4" for k
        using aligned_byte [OF place_word(2) [OF pl c] k] place_word(1) [OF pl c] unat_slot [OF u i(1)] i c(1) k
        by (intro zero) simp_all
      from this [of 0] this [of 1] this [of 2] this [of 3] show ?thesis by (simp add: load32_def)
    qed
    from this [of 128] this [of 132] this [of 176] show ?thesis by (simp add: file_ok_def eq)
  qed
  moreover have "3 \<le> unat c \<and> unat c < unat (nextbno s')" if "btype s' c = 5" for c
    using f that b(1) b3 u1 by (auto simp: fmt_def eq split: if_splits)
  ultimately show "fmt s'" using f u u1 b(1) unfolding fmt_def eq(1) by auto
qed

lemma next_block_put: "next_block t (put32 a v s) = map_option (\<lambda>(b, s). (b, put32 a v s)) (next_block t s)"
  by (simp add: next_block_def put32_def set_type_def)

text \<open>A directory that may get another file.\<close>

definition live_dir :: "img \<Rightarrow> u32 \<Rightarrow> bool" where
  "live_dir s p \<longleftrightarrow> p \<in> files s \<and> im s p \<noteq> 0 \<and> load32 (im s) (f_type p) = FTYPE_DIR"

lemma live_heads: "live_dir s p \<Longrightarrow> heads s s' \<Longrightarrow> live_dir s' p"
  by (simp add: live_dir_def heads_def)

lemma grow_dir:
  assumes f: "fmt s" and p: "live_dir s p" and n: "next_block BLOCK_FILE s = Some (b, t)"
    and sz: "load32 (im s) (f_size p) mod BY2BLK = 0" "unat (load32 (im s) (f_size p) div BY2BLK) = m" "m \<le> 10"
    and d: "\<And>k. k < m \<Longrightarrow> btype s (load32 (im s) (f_direct p (of_nat k))) = BLOCK_FILE"
    and last: "m < 10 \<Longrightarrow> load32 (im s) (f_direct p (of_nat m)) = b"
  defines "s' \<equiv> put32 (f_size p) (load32 (im s) (f_size p) + BY2BLK) t"
  shows "fmt s'" "heads s s'"
proof -
  note nf = fmt_next_file [OF f n]
  have pf: "p \<in> files s" "im s p \<noteq> 0" using p by (simp_all add: live_dir_def)
  note pl = files_place [OF f pf(1)]
  have pt: "p \<in> files t" using nf(7) pf(1) by (simp add: heads_def)
  let ?z = "load32 (im s) (f_size p)"
  have c: "load32 (im s') (p + c) = (if c = 128 then ?z + BY2BLK else load32 (im s) (p + c))"
    if "unat c + 4 \<le> 256" "4 dvd unat c" for c
    using put_field [OF pl _ _ that, of 128 "?z + BY2BLK" t] nf(5) by (simp add: s'_def)
  have cs: "load32 (im s') (p + 128) = ?z + BY2BLK" "load32 (im s') (p + 132) = load32 (im s) (p + 132)"
    "load32 (im s') (p + 176) = load32 (im s) (p + 176)" using c [of 128] c [of 132] c [of 176] by simp_all
  have cd: "load32 (im s') (f_direct p (of_nat k)) = load32 (im s) (f_direct p (of_nat k))" if k: "k < 10" for k
  proof -
    have "unat (136 + 4 * of_nat k :: u32) \<noteq> unat (128 :: u32)" using field_consts [OF k] k by simp
    then have "136 + 4 * of_nat k \<noteq> (128 :: u32)" by metis
    then show ?thesis using c [of "136 + 4 * of_nat k"] direct_field [OF k] by (simp add: add.assoc)
  qed
  have nm: "im s' p = im s p" using put_field_name [OF pl, of 128 "?z + BY2BLK" t] nf(5) by (simp add: s'_def)
  have uz: "unat ?z = 4096 * m"
  proof -
    have "unat ?z mod 4096 = 0" using arg_cong [OF sz(1), of unat] by (simp add: unat_mod)
    moreover have "unat ?z div 4096 = m" using sz(2) by (simp add: unat_div)
    ultimately show ?thesis using div_mult_mod_eq [of "unat ?z" 4096] by simp
  qed
  have uz1: "unat (?z + BY2BLK) = 4096 * (m + 1)" using uz sz(3) by (simp add: unat_word_ariths)
  then have "unat ((?z + BY2BLK) mod BY2BLK) = 0" by (simp add: unat_mod)
  then have z1: "(?z + BY2BLK) mod BY2BLK = 0" by (simp only: unat_eq_zero)
  have z2: "unat ((?z + BY2BLK) div BY2BLK) = m + 1" using uz1 by (simp add: unat_div)
  have dir: "btype s' (load32 (im s') (f_direct p (of_nat k))) = 5" if k: "k < 10" "k < m + 1" for k
    unfolding cd [OF k(1)] using d [of k] last k nf(8) by (cases "k = m") (auto simp: s'_def)
  have ok: "file_ok t p" using nf(4) pt by (simp add: fmt_def)
  have "file_ok s' p"
    unfolding file_ok_def Let_def cs nm
  proof (intro conjI impI allI)
    show "load32 (im s) (p + 176) = 0 \<or> 3 \<le> unat (load32 (im s) (p + 176)) \<and>
        unat (load32 (im s) (p + 176)) < unat (nextbno s') \<and> btype s' (load32 (im s) (p + 176)) \<noteq> 5"
      using ok nf(5) by (simp add: file_ok_def Let_def s'_def)
    show "(?z + BY2BLK) mod BY2BLK = 0" by (rule z1)
    show "btype s' (load32 (im s') (f_direct p (of_nat k))) = 5" if "k < 10" "k < unat ((?z + BY2BLK) div BY2BLK)" for k
      using dir that z2 by simp
  qed (use pf(2) in simp_all)
  then show "fmt s'" using fmt_put_field [OF nf(4) pt, of 128] by (simp add: s'_def)
  show "heads s s'"
    using heads_trans [OF nf(7) heads_put [OF nf(4) pt, of 128]] by (simp add: s'_def)
qed

lemma dir_size:
  assumes f: "fmt s" and p: "live_dir s p"
  shows "load32 (im s) (f_size p) mod BY2BLK = 0"
    "\<And>k. k < 10 \<Longrightarrow> k < unat (load32 (im s) (f_size p) div BY2BLK) \<Longrightarrow> btype s (load32 (im s) (f_direct p (of_nat k))) = BLOCK_FILE"
proof -
  have "file_ok s p" "load32 (im s) (f_type p) = 1" using f p by (simp_all add: fmt_def live_dir_def)
  then show "load32 (im s) (f_size p) mod BY2BLK = 0"
    "\<And>k. k < 10 \<Longrightarrow> k < unat (load32 (im s) (f_size p) div BY2BLK) \<Longrightarrow> btype s (load32 (im s) (f_direct p (of_nat k))) = BLOCK_FILE"
    unfolding file_ok_def by simp_all
qed

lemma make_link_ok:
  assumes f: "fmt s" and p: "live_dir s p"
    and m: "unat (load32 (im s) (f_size p) div BY2BLK) \<le> 10"
    and r: "make_link_block p (load32 (im s) (f_size p) div BY2BLK) s = Some (b, s')"
  shows "fmt s' \<and> heads s s' \<and> 3 \<le> unat b \<and> unat b < 1024 \<and> btype s' b = BLOCK_FILE \<and> im s' (block b) = 0"
proof -
  let ?k = "load32 (im s) (f_size p) div BY2BLK"
  have pf: "p \<in> files s" "im s p \<noteq> 0" using p by (simp_all add: live_dir_def)
  note pl = files_place [OF f pf(1)]
  have "\<exists>s1 t. save_block_link p ?k (nextbno s) s = Some s1 \<and> next_block BLOCK_FILE s1 = Some (b, t) \<and>
      s' = put32 (f_size p) (load32 (im s1) (f_size p) + BY2BLK) t"
    using r by (auto simp: make_link_block_def next_block_put split: Option.bind_splits)
  then obtain s1 t where s1: "save_block_link p ?k (nextbno s) s = Some s1" "next_block BLOCK_FILE s1 = Some (b, t)"
    and s': "s' = put32 (f_size p) (load32 (im s1) (f_size p) + BY2BLK) t" by blast
  have "fmt s1 \<and> heads s s1 \<and> load32 (im s1) (f_size p) = load32 (im s) (f_size p) \<and>
      (\<forall>k<unat ?k. k < 10 \<longrightarrow> btype s1 (load32 (im s1) (f_direct p (of_nat k))) = BLOCK_FILE) \<and>
      (unat ?k < 10 \<longrightarrow> load32 (im s1) (f_direct p (of_nat (unat ?k))) = nextbno s1)"
  proof (cases "?k < 10")
    case True
    then have k10: "unat ?k < 10" by (simp add: word_less_nat_alt)
    define c :: u32 where "c = 136 + 4 * of_nat (unat ?k)"
    have cf: "unat c = 136 + 4 * unat ?k" "unat c + 4 \<le> 256" "4 dvd unat c"
      using field_consts [OF k10] direct_field [OF k10] by (simp_all only: c_def)
    have s1': "s1 = put32 (p + c) (nextbno s) s"
      using s1(1) True by (simp add: save_block_link_def c_def add.assoc split: if_splits)
    have ld: "load32 (im s1) (p + d) = (if d = c then nextbno s else load32 (im s) (p + d))"
      if "unat d + 4 \<le> 256" "4 dvd unat d" for d
      using put_field [OF pl cf(2,3) that] by (simp add: s1')
    have ne: "(128 :: u32) \<noteq> c" "(132 :: u32) \<noteq> c" "(176 :: u32) \<noteq> c"
      using cf(1) k10 by auto
    have lds: "load32 (im s1) (p + 128) = load32 (im s) (p + 128)" "load32 (im s1) (p + 132) = load32 (im s) (p + 132)"
      "load32 (im s1) (p + 176) = load32 (im s) (p + 176)" using ld [of 128] ld [of 132] ld [of 176] ne by simp_all
    have dd: "load32 (im s1) (f_direct p (of_nat k)) = (if k = unat ?k then nextbno s else load32 (im s) (f_direct p (of_nat k)))"
      if k: "k < 10" for k
    proof -
      have "136 + 4 * of_nat k = c \<longleftrightarrow> unat (136 + 4 * of_nat k :: u32) = unat c" by (rule word_unat_eq_iff)
      also have "\<dots> \<longleftrightarrow> k = unat ?k" unfolding field_consts [OF k] cf(1) by simp
      finally show ?thesis using ld [of "136 + 4 * of_nat k"] direct_field [OF k] by (simp add: add.assoc)
    qed
    have nm: "im s1 p = im s p" using put_field_name [OF pl cf(2,3)] cf(1) by (simp add: s1')
    have "file_ok s p" using f pf(1) by (simp add: fmt_def)
    then have "file_ok s1 p" unfolding file_ok_def Let_def lds nm using dd pf(2) by (auto simp: s1')
    then have "fmt s1" using fmt_put_field [OF f pf(1) cf(2,3)] by (simp add: s1')
    moreover have "heads s s1" using heads_put [OF f pf(1) cf(2,3)] cf(1) by (simp add: s1')
    moreover have "btype s1 (load32 (im s1) (f_direct p (of_nat k))) = 5" if "k < unat ?k" "k < 10" for k
      using dir_size(2) [OF f p that(2,1)] dd [OF that(2)] that(1) by (simp add: s1')
    ultimately show ?thesis using lds(1) dd [OF k10] by (simp add: s1')
  next
    case False
    then have k10: "10 \<le> unat ?k" by (simp add: word_less_nat_alt)
    note si = save_index_ok [OF f pf k10 s1(1)]
    have "load32 (im s1) (f_direct p (of_nat k)) = load32 (im s) (f_direct p (of_nat k))" if "k < 10" for k
      using si(5) [of "136 + 4 * of_nat k"] direct_field [OF that] field_consts [OF that] that by (simp add: add.assoc)
    then show ?thesis using si(1,6,7) si(5) [of 128] dir_size(2) [OF f p] k10 by simp
  qed
  then have 1: "fmt s1" "heads s s1" "load32 (im s1) (f_size p) = load32 (im s) (f_size p)"
      "\<And>k. k < unat ?k \<Longrightarrow> k < 10 \<Longrightarrow> btype s1 (load32 (im s1) (f_direct p (of_nat k))) = BLOCK_FILE"
      "unat ?k < 10 \<Longrightarrow> load32 (im s1) (f_direct p (of_nat (unat ?k))) = nextbno s1" by auto
  note nf = fmt_next_file [OF 1(1) s1(2)]
  have g: "fmt s'" "heads s1 s'"
    using grow_dir [OF 1(1) live_heads [OF p 1(2)] s1(2), of "unat ?k"] dir_size(1) [OF f p] 1(3-5) m nf(1)
    by (simp_all add: s')
  have "unat (block b) = 4096 * unat b" by (rule unat_block) (use nf(3) in \<open>simp add: word_less_nat_alt\<close>)
  moreover have "unat p + 256 \<le> 4096 * unat b \<or> p = s_root"
    using files_below [OF 1(1), of p] 1(2) pf(1) nf(1) by (auto simp: heads_def)
  moreover have "only (unat p + 128) 4 (im t) (im s')"
    using only_put_field [OF pl, of 128] by (simp add: s')
  ultimately have "im s' (block b) = im t (block b)" using nf(3) unfolding only_def by auto
  then have "im s' (block b) = 0" using nf(5) nf(9) [of 0] by simp
  then show ?thesis using g heads_trans [OF 1(2) g(2)] nf(2,3,8) by (simp add: s')
qed

lemma create_file_ok:
  assumes f: "fmt s" and p: "live_dir s p" and r: "create_file lp64 p s = Some (q, s')"
  shows "fmt s' \<and> heads s s' \<and> q \<in> files s' \<and> im s' q = 0"
proof -
  let ?k = "load32 (im s) (f_size p) div BY2BLK"
  let ?new = "do { (bno, s) \<leftarrow> make_link_block p ?k s; Some (block bno, s) }"
  have new: "fmt s' \<and> heads s s' \<and> q \<in> files s' \<and> im s' q = 0" if "?new = Some (q, s')" "unat ?k \<le> 10"
  proof -
    obtain b where b: "make_link_block p ?k s = Some (b, s')" "q = block b"
      using \<open>?new = Some (q, s')\<close> by (auto split: Option.bind_splits)
    have "\<exists>i<16 :: nat. block b = block b + of_nat i * 256" by (rule exI [of _ 0]) simp
    then have "btype s' b = 5 \<Longrightarrow> q \<in> files s'" unfolding files_def b(2) by blast
    then show ?thesis using make_link_ok [OF f p that(2) b(1)] b(2) by simp
  qed
  let ?b = "load32 (im s) (f_direct p (?k - 1))"
  let ?slots = "map (\<lambda>i. block ?b + of_nat i * 256) [0..<4096 div sizeof_File lp64]"
  consider "?k = 0" "?new = Some (q, s')"
    | "?k \<noteq> 0" "\<not> NDIRECT < ?k" "find (\<lambda>f. im s f = 0) ?slots = Some q" "s' = s"
    | "?k \<noteq> 0" "\<not> NDIRECT < ?k" "?new = Some (q, s')"
    using r unfolding create_file_def Let_def by (auto split: if_splits option.splits)
  then show ?thesis
  proof cases
    case 1
    then show ?thesis using new by simp
  next
    case 2
    have u: "unat (?k - 1) = unat ?k - 1" "unat ?k \<noteq> 0" "unat ?k \<le> 10"
      using 2(1,2) by (simp_all add: unat_minus_one unat_eq_zero word_less_nat_alt)
    have "of_nat (unat ?k - 1) = ?k - 1" unfolding u(1) [symmetric] by simp
    then have "btype s ?b = 5" using dir_size(2) [OF f p, of "unat ?k - 1"] u(2,3) by simp
    moreover obtain i where "i < 4096 div sizeof_File lp64" "q = block ?b + of_nat i * 256" "im s q = 0"
      using 2(3) by (auto simp: find_Some_iff)
    moreover from this have "i < 16" by (auto simp: sizeof_File_def split: if_splits)
    ultimately show ?thesis using f 2(4) unfolding files_def heads_def by blast
  next
    case 3
    then show ?thesis using new by (simp add: word_less_nat_alt)
  qed
qed

subsection \<open>Files and directories\<close>

definition keeps :: "img \<Rightarrow> img \<Rightarrow> bool" where
  "keeps s s' \<longleftrightarrow> (\<forall>q\<in>files s. im s q \<noteq> 0 \<longrightarrow> q \<in> files s' \<and> im s' q = im s q \<and>
     load32 (im s') (f_type q) = load32 (im s) (f_type q))"

lemma keeps_trans: "keeps s t \<Longrightarrow> keeps t u \<Longrightarrow> keeps s u"
  by (auto simp: keeps_def)

lemma heads_keeps: "heads s t \<Longrightarrow> keeps s t"
  by (simp add: keeps_def heads_def)

lemma live_keeps: "live_dir s p \<Longrightarrow> keeps s t \<Longrightarrow> live_dir t p"
  by (simp add: live_dir_def keeps_def)

lemma data_block:
  assumes f: "fmt s" and o: "only (4096 * unat (nextbno s)) 4096 (im s) m"
    and n: "next_block BLOCK_DATA (s\<lparr>im := m\<rparr>) = Some (b, t)"
  shows "fmt t \<and> heads s t"
proof -
  obtain u where u: "next_block BLOCK_DATA s = Some (b, u)" "t = u\<lparr>im := m\<rparr>"
    using n by (auto simp: next_block_def set_type_def split: if_splits)
  note nx = fmt_next [OF f u(1)]
  have b: "b = nextbno s" "unat b < 1024" "3 \<le> unat b" using nx f by (auto simp: fmt_def)
  have "files t = files u" by (simp add: files_def u(2))
  then have t: "im t = m" "btype t = btype u" "nextbno t = nextbno u" "files t = files s" using u(2) nx by simp_all
  have o': "only (4096 * unat b) 4096 (im u) (im t)" using o nx b(1) t(1) by simp
  have q: "unat q + 256 \<le> 4096 * unat b \<or> 4096 * unat b + 4096 \<le> unat q" if "q \<in> files s" for q
    using files_below [OF f that] b by auto
  have "0 \<notin> files u" using files_place [of u 0] nx place_bounds [of 0] by auto
  then have "fmt t" using nx q b by (intro fmt_change [OF _ o' t(2,3), where p = 0]) (auto simp: writable_at_def)
  moreover have "heads u t"
  proof (rule heads_only [OF _ o'])
    fix r assume "r \<in> files u"
    then have "r \<in> files s" using nx by simp
    from q [OF this] show "unat r + 136 \<le> 4096 * unat b \<or> 4096 * unat b + 4096 \<le> unat r \<or>
        unat r + 4 \<le> 4096 * unat b \<and> 4096 * unat b + 4096 \<le> unat r + 132" by auto
  qed (use nx t(4) in simp_all)
  moreover have "heads s u" using nx by (simp add: heads_def)
  ultimately show ?thesis using heads_trans by blast
qed

lemma write_blocks_ok:
  "write_blocks p k cs s = Some s' \<Longrightarrow> fmt s \<Longrightarrow> p \<in> files s \<Longrightarrow> im s p \<noteq> 0 \<Longrightarrow> load32 (im s) (f_type p) = 0 \<Longrightarrow>
    fmt s' \<and> heads s s'"
proof (induction p k cs s arbitrary: s' rule: write_blocks.induct)
  case (1 p k cs s)
  note f = \<open>fmt s\<close> and wb = \<open>write_blocks p k cs s = Some s'\<close>
  show ?case
  proof (cases "cs = []")
    case True
    then show ?thesis using wb f by (subst (asm) write_blocks.simps) (simp add: heads_def)
  next
    case False
    let ?s1 = "s\<lparr>im := put_bytes (im s) (block (nextbno s)) (take 4096 cs)\<rparr>"
    have lt: "\<not> NBLOCK \<le> nextbno s" using wb False by (subst (asm) write_blocks.simps) (auto split: if_splits)
    obtain b t u where b: "next_block BLOCK_DATA ?s1 = Some (b, t)" "save_block_link p k b t = Some u"
      "write_blocks p (k + 1) (drop 4096 cs) u = Some s'"
      using wb False lt by (subst (asm) write_blocks.simps) (auto split: Option.bind_splits)
    have un: "unat (block (nextbno s)) = 4096 * unat (nextbno s)" "unat (nextbno s) < 1024"
      using unat_block [of "nextbno s"] lt by (simp_all add: word_le_nat_alt word_less_nat_alt)
    have "only (unat (block (nextbno s))) (length (take 4096 cs)) (im s) (im ?s1)"
      using un only_put_bytes [of "block (nextbno s)" "take 4096 cs" "im s"] by simp
    then have o: "only (4096 * unat (nextbno s)) 4096 (im s) (im ?s1)" using un(1) by (auto simp: only_def)
    then have ft: "fmt t" "heads s t" using data_block [OF f] b(1) by simp_all
    have pt: "p \<in> files t" "im t p \<noteq> 0" "load32 (im t) (f_type p) = 0"
      using ft(2) 1(4-6) by (simp_all add: heads_def)
    note pl = files_place [OF ft(1) pt(1)]
    have u: "fmt u \<and> heads t u"
    proof (cases "k < 10")
      case True
      then have k10: "unat k < 10" by (simp add: word_less_nat_alt)
      define c :: u32 where "c = 136 + 4 * of_nat (unat k)"
      have cf: "unat c = 136 + 4 * unat k" "unat c + 4 \<le> 256" "4 dvd unat c"
        using field_consts [OF k10] direct_field [OF k10] by (simp_all only: c_def)
      have u': "u = put32 (p + c) b t"
        using b(2) True by (simp add: save_block_link_def c_def add.assoc split: if_splits)
      have ne: "(128 :: u32) \<noteq> c" "(132 :: u32) \<noteq> c" "(176 :: u32) \<noteq> c" using cf(1) k10 by auto
      have lds: "load32 (im u) (p + 128) = load32 (im t) (p + 128)" "load32 (im u) (p + 132) = 0"
        "load32 (im u) (p + 176) = load32 (im t) (p + 176)"
        using put_field [OF pl cf(2,3), of 128 b t] put_field [OF pl cf(2,3), of 132 b t]
          put_field [OF pl cf(2,3), of 176 b t] ne pt(3) by (simp_all add: u')
      have nm: "im u p = im t p" using put_field_name [OF pl cf(2,3)] cf(1) by (simp add: u')
      have "file_ok t p" using ft(1) pt(1) by (simp add: fmt_def)
      then have "file_ok u p" unfolding file_ok_def Let_def lds nm using pt(2) by (auto simp: u')
      then show ?thesis
        using fmt_put_field [OF ft(1) pt(1) cf(2,3)] heads_put [OF ft(1) pt(1) cf(2,3)] cf(1) by (simp add: u')
    next
      case False
      then show ?thesis using save_index_ok(1,7) [OF ft(1) pt(1,2) _ b(2)] by (simp add: word_less_nat_alt)
    qed
    then have pu: "p \<in> files u" "im u p \<noteq> 0" "load32 (im u) (f_type p) = 0" using pt by (auto simp: heads_def)
    have "fmt s' \<and> heads u s'"
      using 1(1) [OF False lt refl b(1) refl b(2) b(3)] u pu by simp
    then show ?thesis using u ft(2) heads_trans by blast
  qed
qed

text \<open>A name that fits \<open>f_name\<close>, and a host's tree of such names.\<close>

definition name_ok :: "u8 list \<Rightarrow> bool" where
  "name_ok n \<longleftrightarrow> n \<noteq> [] \<and> length n < 128 \<and> 0 \<notin> set n \<and> 47 \<notin> set n"

fun host_ok :: "host \<Rightarrow> bool" where
  "host_ok (Regular n cs) \<longleftrightarrow> name_ok n"
| "host_ok (Directory n es) \<longleftrightarrow> name_ok n \<and> (\<forall>e\<in>set es. host_ok e)"

lemma base_name_path: "47 \<notin> set n \<Longrightarrow> base_name (p @ 47 # n) = n"
  by (simp add: base_name_def takeWhile_append2) (subst takeWhile_append2, auto)

lemma only_trans: "only lo n m1 m2 \<Longrightarrow> only lo' n' m2 m3 \<Longrightarrow> lo \<le> lo' \<Longrightarrow> lo' + n' \<le> lo + n \<Longrightarrow> only lo n m1 m3"
  unfolding only_def by auto

lemma only_mono: "only lo n m1 m2 \<Longrightarrow> n \<le> k \<Longrightarrow> only lo k m1 m2"
  unfolding only_def by auto

lemma put_bytes_first: "length cs < 2 ^ 32 \<Longrightarrow> put_bytes m a (c # cs) a = c"
proof -
  assume l: "length cs < 2 ^ 32"
  have "unat (a - (a + 1)) = 2 ^ 32 - 1" by (simp add: unsigned_minus_1_eq_mask mask_eq_exp_minus_1)
  then have "\<not> in_region (a + 1) (length cs) a" using l by (simp add: in_region_def)
  then show ?thesis using put_bytes_other [OF l] by simp
qed

lemma named_file:
  assumes f: "fmt s" and q: "q \<in> files s" "im s q = 0" and o: "only (unat q) 136 (im s) m"
    and new: "m q \<noteq> 0" "load32 m (f_type q) = FTYPE_DIR \<longrightarrow> load32 m (f_size q) = 0"
  shows "fmt (s\<lparr>im := m\<rparr>)" "keeps s (s\<lparr>im := m\<rparr>)"
proof -
  let ?t = "s\<lparr>im := m\<rparr>"
  note pl = files_place [OF f q(1)]
  have fs: "files ?t = files s" by (simp add: files_def)
  have "file_ok s q" using f q(1) by (simp add: fmt_def)
  then have "load32 (im s) (f_indirect q) = 0" using q(2) by (simp add: file_ok_def)
  then have "load32 m (f_indirect q) = 0"
    using only_load32 [OF o place_word(2) [OF pl, of 176]] place_word(1) [OF pl, of 176] by simp
  then have "file_ok ?t q" using new by (auto simp: file_ok_def)
  moreover have sep: "unat r + 256 \<le> unat q \<or> unat q + 256 \<le> unat r" if "r \<in> files s" "r \<noteq> q" for r
    using place_apart [OF files_place [OF f that(1)] pl that(2)] .
  moreover have "writable_at s (unat q) 136"
    using place_bounds [OF pl] files_below [OF f q(1)] by (auto simp: writable_at_def)
  ultimately show "fmt ?t"
  proof (intro fmt_change [OF f, of "unat q" 136 ?t q])
    fix r assume r: "r \<in> files s" "r \<noteq> q"
    from sep [OF r] show "unat r + 256 \<le> unat q \<or> unat q + 136 \<le> unat r" by auto
  qed (use o in simp_all)
  show "keeps s ?t"
    unfolding keeps_def fs
  proof (intro ballI impI conjI)
    fix r assume r: "r \<in> files s" "im s r \<noteq> 0"
    then have ne: "r \<noteq> q" using q(2) by auto
    note plr = files_place [OF f r(1)]
    show "im ?t r = im s r" using o sep [OF r(1) ne] by (auto simp: only_def)
    show "load32 (im ?t) (f_type r) = load32 (im s) (f_type r)"
      using only_load32 [OF o place_word(2) [OF plr, of 132]] place_word(1) [OF plr, of 132] sep [OF r(1) ne] by auto
  qed auto
qed

lemma write_file_ok:
  assumes f: "fmt s" and p: "live_dir s p" and n: "name_ok (base_name path)" and r: "write_file lp64 p path cs s = Some s'"
  shows "fmt s' \<and> keeps s s'"
proof -
  let ?n = "base_name path"
  obtain q s1 where q: "create_file lp64 p s = Some (q, s1)"
    and w: "write_blocks q 0 cs (put32 (f_type q) 0 (put32 (f_size q) (of_nat (length cs))
        (s1\<lparr>im := put_bytes (im s1) q (?n @ [0])\<rparr>))) = Some s'"
    using r by (auto simp: write_file_def Let_def split: Option.bind_splits)
  have 1: "fmt s1" "heads s s1" "q \<in> files s1" "im s1 q = 0" using create_file_ok [OF f p q] by simp_all
  note pl = files_place [OF 1(1,3)]
  obtain c n' where nm: "?n = c # n'" "c \<noteq> 0" "length n' < 127" using n by (cases ?n) (auto simp: name_ok_def)
  define m where "m = put_bytes (im s1) q (?n @ [0])"
  have len: "unat q + length (?n @ [0]) \<le> 2 ^ 32" "length (?n @ [0]) \<le> 136" using place_bounds [OF pl] nm by auto
  have om: "only (unat q) 136 (im s1) m" using only_mono [OF only_put_bytes [OF len(1)] len(2)] by (simp add: m_def)
  define t where "t = put32 (f_type q) 0 (put32 (f_size q) (of_nat (length cs)) (s1\<lparr>im := m\<rparr>))"
  have c128: "unat (128 :: u32) + 4 \<le> 256" "4 dvd unat (128 :: u32)" "unat (132 :: u32) + 4 \<le> 256" "4 dvd unat (132 :: u32)"
    by simp_all
  have ot: "only (unat q) 136 (im s1) (im t)"
    using only_trans [OF only_trans [OF om only_put_field [OF pl c128(1,2), of "s1\<lparr>im := m\<rparr>" "of_nat (length cs)", simplified]]
        only_put_field [OF pl c128(3,4)]] by (simp add: t_def)
  have mq: "m q = c" using put_bytes_first [of "n' @ [0]"] nm by (simp add: m_def)
  have tq: "im t q = c"
    using put_field_name [OF pl c128(3,4)] put_field_name [OF pl c128(1,2)] mq by (simp add: t_def)
  have ty: "load32 (im t) (f_type q) = 0" using put_field [OF pl c128(3,4,3,4)] by (simp add: t_def)
  have t: "s1\<lparr>im := im t\<rparr> = t" by (simp add: t_def put32_def)
  have ft: "fmt t" "keeps s1 t" using named_file [OF 1(1,3,4) ot] tq nm(2) ty t by simp_all
  have "q \<in> files t" using 1(3) by (simp add: t_def files_def)
  then have "fmt s' \<and> heads t s'" using write_blocks_ok [OF w [folded m_def, folded t_def] ft(1)] tq nm(2) ty by simp
  then show ?thesis using keeps_trans [OF heads_keeps [OF 1(2)] keeps_trans [OF ft(2)]] heads_keeps by blast
qed

lemma new_directory_ok:
  assumes f: "fmt s" and p: "live_dir s p" and n: "name_ok n" and q: "create_file lp64 p s = Some (q, s1)"
  defines "t \<equiv> (put32 (f_type q) FTYPE_DIR s1)\<lparr>im := put_bytes (im (put32 (f_type q) FTYPE_DIR s1)) q (n @ [0])\<rparr>"
  shows "fmt t \<and> keeps s t \<and> live_dir t q"
proof -
  have 1: "fmt s1" "heads s s1" "q \<in> files s1" "im s1 q = 0" using create_file_ok [OF f p q] by simp_all
  note pl = files_place [OF 1(1,3)]
  obtain c n' where nm: "n = c # n'" "c \<noteq> 0" "length n' < 127" using n by (cases n) (auto simp: name_ok_def)
  let ?d = "put32 (f_type q) FTYPE_DIR s1"
  have c132: "unat (132 :: u32) + 4 \<le> 256" "4 dvd unat (132 :: u32)" by simp_all
  have od: "only (unat q) 136 (im s1) (im ?d)" using only_put_field [OF pl c132] unfolding only_def by auto
  have len: "unat q + length (n @ [0]) \<le> 2 ^ 32" "length (n @ [0]) \<le> 128" using place_bounds [OF pl] nm by auto
  have on: "only (unat q) 128 (im ?d) (im t)" using only_mono [OF only_put_bytes [OF len(1)] len(2)] by (simp add: t_def)
  have ot: "only (unat q) 136 (im s1) (im t)" using only_trans [OF od on] by simp
  have tq: "im t q = c" using put_bytes_first [of "n' @ [0]"] nm by (simp add: t_def)
  have ty: "load32 (im t) (f_type q) = 1"
    using only_load32 [OF on place_word(2) [OF pl c132]] place_word(1) [OF pl c132] put_field [OF pl c132 c132, of 1 s1] by simp
  have "file_ok s1 q" using 1 by (simp add: fmt_def)
  then have z: "load32 (im s1) (f_size q) = 0" using 1(4) by (simp add: file_ok_def)
  have c128: "unat (128 :: u32) + 4 \<le> 256" "4 dvd unat (128 :: u32)" by simp_all
  have sz: "load32 (im t) (f_size q) = 0"
    using only_load32 [OF on place_word(2) [OF pl c128]] place_word(1) [OF pl c128] put_field [OF pl c132 c128, of 1 s1] z by simp
  have t: "s1\<lparr>im := im t\<rparr> = t" by (simp add: t_def put32_def)
  have ft: "fmt t" "keeps s1 t" using named_file [OF 1(1,3,4) ot] tq nm(2) sz t by simp_all
  have "q \<in> files t" using 1(3) by (simp add: t_def files_def put32_def)
  then have "live_dir t q" using tq nm(2) ty by (simp add: live_dir_def)
  then show ?thesis using ft keeps_trans [OF heads_keeps [OF 1(2)]] by blast
qed

lemma write_directory_ok:
  "write_directory lp64 p name es s = Some s' \<Longrightarrow> fmt s \<Longrightarrow> live_dir s p \<Longrightarrow> \<forall>e\<in>set es. host_ok e \<Longrightarrow> fmt s' \<and> keeps s s'"
proof (induction lp64 p name es s arbitrary: s' rule: write_directory.induct)
  case (1 lp64 dirf name s)
  then show ?case by (simp add: keeps_def)
next
  case (2 lp64 dirf name e es s)
  let ?path = "name @ 47 # d_name e"
  obtain s1 where s1: "(if d_name e = [46] \<or> d_name e = [46, 46] then Some s
           else let path = ?path in
             (case e of
                Directory n sub \<Rightarrow> do {
                  (dfile, s) \<leftarrow> create_file lp64 dirf s;
                  let s = put32 (f_type dfile) FTYPE_DIR s;
                  let s = s\<lparr>im := put_bytes (im s) dfile (n @ [0])\<rparr>;
                  write_directory lp64 dfile path sub s
                }
              | Regular n cs \<Rightarrow> write_file lp64 dirf path cs s)) = Some s1"
    and rest: "write_directory lp64 dirf name es s1 = Some s'"
    using "2.prems"(1) by (auto split: Option.bind_splits)
  have e: "host_ok e" using "2.prems"(4) by simp
  have "fmt s1 \<and> keeps s s1"
  proof (cases "d_name e = [46] \<or> d_name e = [46, 46]")
    case True
    then show ?thesis using s1 "2.prems"(2) by (auto simp: keeps_def)
  next
    case skip: False
    show ?thesis
    proof (cases e)
      case (Regular n cs)
      then have "base_name ?path = n" "name_ok n" using e by (simp_all add: base_name_path name_ok_def)
      then show ?thesis using write_file_ok [OF "2.prems"(2,3), of ?path lp64 cs s1] s1 skip Regular by (simp add: Let_def)
    next
      case (Directory n sub)
      then have n: "name_ok n" "\<forall>e\<in>set sub. host_ok e" using e by simp_all
      obtain q s0 where q: "create_file lp64 dirf s = Some (q, s0)"
        and w: "write_directory lp64 q ?path sub ((put32 (f_type q) FTYPE_DIR s0)
          \<lparr>im := put_bytes (im (put32 (f_type q) FTYPE_DIR s0)) q (n @ [0])\<rparr>) = Some s1"
        using s1 skip Directory by (auto simp: Let_def split: Option.bind_splits)
      note nd = new_directory_ok [OF "2.prems"(2,3) n(1) q]
      have "fmt s1 \<and> keeps ((put32 (f_type q) FTYPE_DIR s0)
          \<lparr>im := put_bytes (im (put32 (f_type q) FTYPE_DIR s0)) q (n @ [0])\<rparr>) s1"
        using nd "2.IH"(1) [OF skip refl Directory q refl refl refl w] n(2) by blast
      then show ?thesis using nd keeps_trans by blast
    qed
  qed
  then show ?case
    using "2.IH"(2) [OF s1 rest] live_keeps [OF "2.prems"(3)] "2.prems"(4) keeps_trans by (auto simp del: Let_def)
qed

subsection \<open>The beginning and the end\<close>

lemma load32_bytes:
  assumes "aligned 4 a" "\<And>x. unat a \<le> unat x \<Longrightarrow> unat x < unat a + 4 \<Longrightarrow> m x = m' x"
  shows "load32 m a = load32 m' a"
proof (rule load32_cong)
  fix x assume "in_region a 4 x"
  then obtain k where k: "k < 4" "x = a + of_nat k"
    by (intro that [of "unat (x - a)"]) (simp_all add: in_region_def)
  show "m x = m' x" using aligned_byte [OF assms(1) k(1)] k by (intro assms(2)) simp_all
qed

lemma init_ok: "fmt (init_disk blank)" "live_dir (init_disk blank) s_root" "nextbno (init_disk blank) = 3"
  "load32 (im (init_disk blank)) (f_size s_root) = 0"
proof -
  define m2 where "m2 = memset (memset (\<lambda>_. 0) 8192 0xFF 128) 8320 0 3968"
  define m5 where "m5 = store32 (store32 (store32 m2 SUPER FS_MAGIC) (SUPER + 4) NBLOCK) (SUPER + 140) 1"
  define m where "m = put_bytes m5 s_root [47, 0]"
  have i: "init_disk blank = \<lparr>im = m, btype = (\<lambda>_. 0)(0 := 1, 2 := 2, 1 := 3), nbitblock = 1, nextbno = 3\<rparr>"
    by (simp add: init_disk_def blank_def set_type_def put32_def block_def Let_def m_def m5_def m2_def del: put_bytes.simps memset.simps)
  have m2: "m2 x = (if 8192 \<le> unat x \<and> unat x < 8320 then 0xFF else 0)" for x
    by (auto simp: m2_def memset_closed in_region_unat)
  define m3 where "m3 = store32 m2 SUPER FS_MAGIC"
  define m4 where "m4 = store32 m3 (SUPER + 4) NBLOCK"
  have m5: "m5 = store32 m4 (SUPER + 140) 1" by (simp add: m5_def m4_def m3_def)
  have "only 0x800000 256 m2 m3" "only 0x800004 4 m3 m4" "only 0x80008C 4 m4 m5"
    using only_mono [OF only_store32 [of SUPER m2 FS_MAGIC], of 256] only_store32 [of "SUPER + 4" m3 NBLOCK]
      only_store32 [of "SUPER + 140" m4 1] by (simp_all add: aligned_def m3_def m4_def m5)
  then have om5: "only 0x800000 256 m2 m5"
    using only_trans [OF only_trans, of "0x800000" 256 m2 m3 "0x800004" 4 m4 "0x80008C" 4 m5] by simp
  have om: "only 0x800008 2 m5 m" using only_put_bytes [of s_root "[47, 0]" m5] by (simp add: m_def) (simp only: numeral_2_eq_2)
  have low: "m x = m2 x" if "unat x < 0x800000" for x using om5 om that by (auto simp: only_def)
  have fields: "load32 m a = load32 m5 a" if "aligned 4 a" "unat a + 4 \<le> 0x800008 \<or> 0x80000A \<le> unat a" for a
    using only_load32 [OF om that(1)] that(2) by simp
  have sup: "load32 m SUPER = FS_MAGIC" "load32 m (SUPER + 4) = NBLOCK" "load32 m (SUPER + 140) = 1"
    by (simp_all add: fields aligned_def m5_def load32_store32_same load32_store32_other)
  have zero: "load32 m a = 0" if "aligned 4 a" "0x80000C \<le> unat a" "unat a + 4 \<le> 0x800100" "a \<noteq> SUPER + 140" for a
  proof -
    have "a \<noteq> SUPER" "a \<noteq> SUPER + 4" using that(2) by auto
    then have "load32 m a = load32 m2 a"
      using that by (simp add: fields m5_def load32_store32_other aligned_def)
    also have "\<dots> = load32 (\<lambda>_. 0) a" using that by (intro load32_bytes) (auto simp: m2)
    finally show ?thesis by (simp add: load32_def)
  qed
  have z: "load32 m (s_root + 128) = 0" "load32 m (s_root + 176) = 0" by (rule zero; simp add: aligned_def)+
  have name: "m s_root = 47" using put_bytes_first [of "[0]" m5 s_root 47] by (simp add: m_def)
  have t: "load32 m (s_root + 132) = 1" using sup(3) by simp
  have fl: "files (init_disk blank) = {s_root}" by (auto simp: files_def i)
  have "file_ok (init_disk blank) s_root" using z name by (simp add: file_ok_def i)
  then show "fmt (init_disk blank)" using sup(1,2) low m2 unfolding fmt_def fl by (simp add: i)
  show "live_dir (init_disk blank) s_root" using name t by (simp add: live_dir_def fl) (simp add: i)
  show "nextbno (init_disk blank) = 3" by (simp add: i)
  show "load32 (im (init_disk blank)) (f_size s_root) = 0" using z(1) by (simp add: i)
qed

text \<open>Word \<open>j\<close> of the bitmap.\<close>

definition bitmap_word :: "mem \<Rightarrow> nat \<Rightarrow> u32" where
  "bitmap_word m j = load32 m (8192 + 4 * of_nat j)"

lemma unat_bitmap_word: "j < 1024 \<Longrightarrow> unat (8192 + 4 * of_nat j :: u32) = 8192 + 4 * j"
  by (simp add: unat_word_ariths unat_of_nat_u32)

lemma aligned_bitmap_word: "j < 1024 \<Longrightarrow> aligned 4 (8192 + 4 * of_nat j)"
  unfolding aligned_def by (simp only: unat_bitmap_word) presburger

lemma flush_bit_ok:
  assumes "k < 1024"
  shows "only 8192 4096 (im s) (im (flush_bit k s))" "nextbno (flush_bit k s) = nextbno s"
    "j < 32 \<Longrightarrow> r < 32 \<Longrightarrow> bit (bitmap_word (im (flush_bit k s)) j) r \<longleftrightarrow> bit (bitmap_word (im s) j) r \<and> k \<noteq> 32 * j + r"
proof -
  have u: "unat (of_nat k :: u32) = k" using assms by (simp add: unat_of_nat_u32)
  have "of_nat k div BIT2BLK = (0 :: u32)" "of_nat k mod BIT2BLK = (of_nat k :: u32)"
    using assms by (simp_all add: word_unat_eq_iff unat_div unat_mod unat_of_nat_u32)
  moreover have "of_nat k div 32 = (of_nat (k div 32) :: u32)" "unat (of_nat k mod 32 :: u32) = k mod 32"
    using assms by (simp_all add: word_unat_eq_iff unat_div unat_mod unat_of_nat_u32)
  ultimately have fb: "flush_bit k s = put32 (8192 + 4 * of_nat (k div 32))
      (bitmap_word (im s) (k div 32) AND NOT (push_bit (k mod 32) 1)) s"
    by (simp only: flush_bit_def Let_def bitmap_word_def) (simp add: block_def)
  have kd: "k div 32 < 1024" "k div 32 < 32" using assms by simp_all
  note al = aligned_bitmap_word [OF kd(1)] and un = unat_bitmap_word [OF kd(1)]
  show "only 8192 4096 (im s) (im (flush_bit k s))"
    using only_store32 [OF al] kd(2) by (auto simp: fb put32_def un only_def)
  show "nextbno (flush_bit k s) = nextbno s" by (simp add: fb)
  show "bit (bitmap_word (im (flush_bit k s)) j) r \<longleftrightarrow> bit (bitmap_word (im s) j) r \<and> k \<noteq> 32 * j + r" if j: "j < 32" "r < 32"
  proof (cases "j = k div 32")
    case True
    have "32 * j + k mod 32 = k" using True div_mult_mod_eq [of k 32] by simp
    then have "k \<noteq> 32 * j + r \<longleftrightarrow> r \<noteq> k mod 32" by (metis add_left_cancel)
    then show ?thesis
      using True j(2) bit_clear [of r "bitmap_word (im s) j" "k mod 32"]
      by (simp add: fb put32_def bitmap_word_def load32_store32_same push_bit_eq_mult)
  next
    case False
    have "unat (8192 + 4 * of_nat j :: u32) \<noteq> unat (8192 + 4 * of_nat (k div 32) :: u32)"
      using unat_bitmap_word [of j] un j(1) False by simp
    then have "(8192 + 4 * of_nat j :: u32) \<noteq> 8192 + 4 * of_nat (k div 32)" by metis
    then have "bitmap_word (im (flush_bit k s)) j = bitmap_word (im s) j"
      using al aligned_bitmap_word [of j] j(1) by (simp add: fb put32_def bitmap_word_def load32_store32_other)
    moreover have "k \<noteq> 32 * j + r" using False j(2) by auto
    ultimately show ?thesis by simp
  qed
qed

lemma flush_bits_ok:
  assumes "n \<le> 1024"
  shows "only 8192 4096 (im s) (im (fold flush_bit [0..<n] s)) \<and> nextbno (fold flush_bit [0..<n] s) = nextbno s \<and>
    (\<forall>j<32. \<forall>r<32. bit (bitmap_word (im (fold flush_bit [0..<n] s)) j) r \<longleftrightarrow> bit (bitmap_word (im s) j) r \<and> n \<le> 32 * j + r)"
  using assms
proof (induction n)
  case 0
  then show ?case by (simp add: only_def)
next
  case (Suc n)
  let ?t = "fold flush_bit [0..<n] s"
  have n: "n < 1024" using Suc.prems by simp
  note fb = flush_bit_ok [OF n, where s = ?t]
  have "only 8192 4096 (im s) (im (flush_bit n ?t))" using only_trans [OF _ fb(1)] Suc by simp
  moreover have "bit (bitmap_word (im (flush_bit n ?t)) j) r \<longleftrightarrow> bit (bitmap_word (im s) j) r \<and> Suc n \<le> 32 * j + r"
    if "j < 32" "r < 32" for j r
    using fb(3) [OF that] Suc that by auto
  ultimately show ?case using fb(2) Suc by simp
qed

lemma finish_ok:
  fixes s :: img and wide :: bool
  assumes f: "fmt s"
  defines "d \<equiv> finish_fs wide (flush_bitmap s)"
  shows "load32 (im d) 4096 = FS_MAGIC" "load32 (im d) 4100 = NBLOCK" "nextbno d = nextbno s"
    "\<And>j r. j < 32 \<Longrightarrow> r < 32 \<Longrightarrow> bit (bitmap_word (im d) j) r \<longleftrightarrow> unat (nextbno s) \<le> 32 * j + r"
proof -
  let ?t = "flush_bitmap s" and ?n = "8 + sizeof_File wide"
  have n: "unat (nextbno s) \<le> 1024" using f by (simp add: fmt_def)
  note fl = flush_bits_ok [OF n, of s, folded flush_bitmap_def]
  have nn: "?n \<le> 272" "8 \<le> ?n" by (simp_all add: sizeof_File_def)
  have o: "only 4096 272 (im ?t) (im d)" and c: "\<And>x. 4096 \<le> unat x \<Longrightarrow> unat x < 4104 \<Longrightarrow> im d x = im ?t (SUPER + (x - 4096))"
  proof -
    have ir: "in_region 4096 ?n x \<longleftrightarrow> 4096 \<le> unat x \<and> unat x < 4096 + ?n" for x
      by (subst in_region_unat) (use nn in simp_all)
    have m: "im d = (\<lambda>x. if in_region 4096 ?n x then im ?t (SUPER + (x - 4096)) else im ?t x)"
      unfolding d_def finish_fs_def by (simp add: block_def) (rule memcpy_closed, use nn in \<open>auto simp: in_region_unat\<close>)
    then show "only 4096 272 (im ?t) (im d)" using nn by (auto simp: only_def ir)
    show "im d x = im ?t (SUPER + (x - 4096))" if "4096 \<le> unat x" "unat x < 4104" for x
      using m that nn by (simp add: ir)
  qed
  have sup: "load32 (im ?t) SUPER = FS_MAGIC" "load32 (im ?t) (SUPER + 4) = NBLOCK"
    using only_load32 [of 8192 4096 "im s" "im ?t"] fl f by (simp_all add: aligned_def fmt_def)
  show "load32 (im d) 4096 = FS_MAGIC" "load32 (im d) 4100 = NBLOCK"
    using sup by (simp_all add: load32_def c)
  show "nextbno d = nextbno s" using fl by (simp add: d_def finish_fs_def)
  show "bit (bitmap_word (im d) j) r \<longleftrightarrow> unat (nextbno s) \<le> 32 * j + r" if j: "j < 32" "r < 32" for j r
  proof -
    have j1: "j < 1024" using j(1) by simp
    have "bitmap_word (im d) j = bitmap_word (im ?t) j"
      unfolding bitmap_word_def using only_load32 [OF o aligned_bitmap_word [OF j1]] unat_bitmap_word [OF j1] by simp
    moreover have "bitmap_word (im s) j = - 1"
    proof -
      have "bitmap_word (im s) j = load32 (\<lambda>_. 0xFF) (8192 + 4 * of_nat j)"
        unfolding bitmap_word_def
        using f unat_bitmap_word [OF j1] j(1) by (intro load32_bytes [OF aligned_bitmap_word [OF j1]]) (auto simp: fmt_def)
      then show ?thesis by (simp add: load32_def)
    qed
    ultimately show ?thesis using fl j by simp
  qed
qed

subsection \<open>The image and the file server\<close>

lemma write_files_ok:
  "foldM (\<lambda>(path, cs). write_file lp64 p path cs) fl s = Some s' \<Longrightarrow> fmt s \<Longrightarrow> live_dir s p \<Longrightarrow>
    \<forall>(path, cs)\<in>set fl. name_ok (base_name path) \<Longrightarrow> fmt s'"
proof (induction fl arbitrary: s)
  case (Cons x fl)
  obtain path cs where x: "x = (path, cs)" by (cases x)
  obtain s1 where s1: "write_file lp64 p path cs s = Some s1"
    "foldM (\<lambda>(path, cs). write_file lp64 p path cs) fl s1 = Some s'"
    using Cons.prems(1) x by (auto split: Option.bind_splits)
  have "fmt s1 \<and> keeps s s1" using write_file_ok [OF Cons.prems(2,3) _ s1(1)] Cons.prems(4) x by simp
  then show ?case using Cons.IH [OF s1(2)] live_keeps [OF Cons.prems(3)] Cons.prems(4) by simp
qed simp

lemma finished_disk:
  assumes f: "fmt t" and d: "d = finish_fs lp64 (flush_bitmap t)" and s: "disk s = im d" "disk_size s = 0x400000"
  shows "good_disk s" "disk_blocks s = 1024" "disk_free s b \<longleftrightarrow> nextbno d \<le> b \<and> b < 1024"
proof -
  note fin = finish_ok [OF f, where wide = lp64, folded d]
  show b: "disk_blocks s = 1024" using fin(2) s(1) by (simp add: disk_blocks_def)
  show fr: "disk_free s b \<longleftrightarrow> nextbno d \<le> b \<and> b < 1024" for b
  proof (cases "b < 1024")
    case True
    then have ub: "unat b < 1024" by (simp add: word_less_nat_alt)
    have "unat (of_nat (unat b div 32) :: u32) = unat b div 32" using ub by (intro unat_of_nat_u32) simp
    then have "of_nat (unat b div 32) = b div 32" by (simp add: word_unat_eq_iff unat_div)
    then have w: "load32 (disk s) (8192 + 4 * (b div 32)) = bitmap_word (im d) (unat b div 32)"
      using s(1) by (simp only: bitmap_word_def)
    have "unat (b mod 32) = unat b mod 32" by (simp add: unat_mod)
    moreover have "32 * (unat b div 32) + unat b mod 32 = unat b" by simp
    ultimately show ?thesis
      using True ub b fin(3) fin(4) [of "unat b div 32" "unat b mod 32"] by (simp add: disk_free_def w word_le_nat_alt)
  qed (simp add: disk_free_def b)
  have "3 \<le> unat (nextbno d)" using f fin(3) by (simp add: fmt_def)
  then have "\<not> nextbno d \<le> 0" "\<not> nextbno d \<le> 1" "\<not> nextbno d \<le> 2" by (simp_all add: word_le_nat_alt)
  then show "good_disk s" using b fr fin(1) s by (simp add: good_disk_def)
qed

text \<open>Property C22. The file server starts on every image that the tool finishes, from files on the
  command line or from a directory tree whose names fit \<open>f_name\<close>: \<open>fs_init\<close> comes back with its
  invariant, finds 1024 blocks, and takes for free exactly the blocks that the tool has not used.\<close>

theorem image_boots:
  assumes "format_files lp64 fl = Some d \<and> (\<forall>(path, cs)\<in>set fl. name_ok (base_name path)) \<or>
      format_dir lp64 name es = Some d \<and> (\<forall>e\<in>set es. host_ok e)"
    and "fresh s" "disk s = im d" "disk_size s = 0x400000"
  shows "\<exists>s'. fs_init s = Some s' \<and> fs_ok s' \<and> nblocks s' = 1024 \<and> (\<forall>b. free s' b \<longleftrightarrow> nextbno d \<le> b \<and> b < 1024)"
proof -
  have "\<exists>t. d = finish_fs lp64 (flush_bitmap t) \<and> fmt t"
    using assms(1)
  proof (elim disjE conjE)
    assume "format_files lp64 fl = Some d" and n: "\<forall>(path, cs)\<in>set fl. name_ok (base_name path)"
    then obtain t where "foldM (\<lambda>(path, cs). write_file lp64 s_root path cs) fl (init_disk blank) = Some t"
      "d = finish_fs lp64 (flush_bitmap t)" by (auto simp: format_files_def split: Option.bind_splits)
    then show ?thesis using write_files_ok [OF _ init_ok(1,2) n] by blast
  next
    assume "format_dir lp64 name es = Some d" and n: "\<forall>e\<in>set es. host_ok e"
    then obtain t where "write_directory lp64 s_root name es (init_disk blank) = Some t"
      "d = finish_fs lp64 (flush_bitmap t)" by (auto simp: format_dir_def split: Option.bind_splits)
    then show ?thesis using write_directory_ok [OF _ init_ok(1,2) n] by blast
  qed
  then obtain t where t: "d = finish_fs lp64 (flush_bitmap t)" "fmt t" by blast
  note fd = finished_disk [OF t(2,1) assms(3,4)]
  show ?thesis using fs_init_ok [OF assms(2) fd(1)] fd(2,3) by auto
qed

text \<open>An image with one file, \<open>a/b\<close>, of three bytes: the tool takes one block for the root
  directory and one for the contents.\<close>

theorem image_boots_witness:
  "\<exists>d s'. format_files True [([97, 47, 98], [1, 2, 3])] = Some d \<and>
    fs_init (example_boot\<lparr>disk := im d, disk_size := 0x400000\<rparr>) = Some s' \<and> \<not> free s' 4 \<and> free s' 5"
proof -
  let ?s = "init_disk blank"
  have p: "place s_root" by (simp add: place_def)
  define s1 where "s1 = put32 (s_root + 128) 4096 (set_type 3 5 (put32 (s_root + 136) 3 ?s))\<lparr>nextbno := 4\<rparr>"
  have c: "create_file True s_root ?s = Some (block 3, s1)"
    using put_field [OF p, of 136 128 3 ?s] init_ok(3,4)
    by (simp add: create_file_def make_link_block_def save_block_link_def next_block_def s1_def set_type_def put32_def)
  define s2 where "s2 = put32 (block 3 + 132) 0 (put32 (block 3 + 128) 3 (s1\<lparr>im := put_bytes (im s1) (block 3) [98, 0]\<rparr>))"
  define s3 where "s3 = s2\<lparr>im := put_bytes (im s2) (block 4) [1, 2, 3]\<rparr>"
  define s4 where "s4 = put32 (block 3 + 136) 4 ((set_type 4 4 s3)\<lparr>nextbno := 5\<rparr>)"
  have n: "nextbno s2 = 4" "nextbno s3 = 4" by (simp_all add: s3_def s2_def s1_def)
  have e: "write_blocks t k [] s = Some s" for t k s by (subst write_blocks.simps) simp
  have b: "base_name [97, 47, 98] = [98 :: u8]" by (simp add: base_name_def)
  have "write_blocks (block 3) 0 [1, 2, 3] s2 = Some s4"
    using n e by (subst write_blocks.simps) (simp add: next_block_def save_block_link_def s4_def s3_def [symmetric] del: write_blocks.simps put_bytes.simps)
  then have "write_file True s_root [97, 47, 98] [1, 2, 3] ?s = Some s4"
    using c by (simp add: write_file_def b Let_def s2_def [symmetric] del: put_bytes.simps write_blocks.simps)
  then have d: "format_files True [([97, 47, 98], [1, 2, 3])] = Some (finish_fs True (flush_bitmap s4))"
    by (simp add: format_files_def)
  let ?d = "finish_fs True (flush_bitmap s4)" and ?b = "example_boot\<lparr>disk := im (finish_fs True (flush_bitmap s4)), disk_size := 0x400000\<rparr>"
  have "fresh ?b" by (simp add: fresh_def example_boot_def mapped_def)
  moreover have "nextbno ?d = 5"
    using flush_bits_ok [of "unat (nextbno s4)" s4] by (simp add: finish_fs_def flush_bitmap_def s4_def)
  ultimately show ?thesis
    using image_boots [of True "[([97, 47, 98], [1, 2, 3])]" ?d "[]" "[]" ?b] d b by (auto simp: name_ok_def word_le_nat_alt)
qed

end
