(* ===== verification/Bintoc.thy ===== *)
theory Bintoc
  imports Prelude
begin

section \<open>From a binary file to a C array (\<open>tools/bintoc.c\<close>)\<close>

text \<open>
  The programs that the kernel starts are linked into it as C arrays, which this tool prints. The
  model is the text it writes, as a list of characters, given the name and the bytes of the
  file. The conversions \<open>%X\<close> and \<open>%u\<close> of \<open>fprintf\<close> are written out. What the file means as a C
  array is stated by a reader of such texts, and the theorem is that it reads the bytes back.
\<close>

subsection \<open>The text\<close>

definition hex_digit :: "nat \<Rightarrow> char" where
  "hex_digit n = ''0123456789ABCDEF'' ! n"

text \<open>\<open>%X\<close> of an unsigned char, which has no leading zero, and \<open>%u\<close>.\<close>

definition print_hex :: "u8 \<Rightarrow> string" where
  "print_hex b = (if b < 16 then [hex_digit (unat b)] else [hex_digit (unat b div 16), hex_digit (unat b mod 16)])"

fun print_dec :: "nat \<Rightarrow> string" where
  "print_dec n = (if n < 10 then [hex_digit n] else print_dec (n div 10) @ [hex_digit (n mod 10)])"

declare print_dec.simps [simp del]

text \<open>The name has no room for more than 1023 characters (\<open>strcpy\<close> into an array of 1024).\<close>

definition file_symbol :: "string \<Rightarrow> string" where
  "file_symbol name = map (\<lambda>c. if c = CHR ''/'' then CHR ''_'' else c) name"

definition one_byte :: "u8 \<Rightarrow> string" where
  "one_byte b = (if b < 16 then ''0x0'' @ print_hex b else ''0x'' @ print_hex b)"

text \<open>The loop over the bytes, with \<open>lineLength\<close>.\<close>

fun byte_loop :: "nat \<Rightarrow> u8 list \<Rightarrow> string" where
  "byte_loop lineLength [] = []"
| "byte_loop lineLength (b # bs) =
     one_byte b @ '', '' @
     (if lineLength + 1 = 10 then CHR 0x0A # byte_loop 0 bs else byte_loop (lineLength + 1) bs)"

text \<open>The size is the 32-bit \<open>fileSize\<close>, so of a file of 4 GB or more only the bytes below the
  size modulo $2^{32}$ are printed.\<close>

definition bintoc :: "string \<Rightarrow> u8 list \<Rightarrow> string option" where
  "bintoc name bytes =
     (let fileSize = (of_nat (length bytes) :: u32) in
      if 1024 \<le> length name then None
      else Some (''unsigned char binary_'' @ file_symbol name @ ''_start[] = {'' @ [CHR 0x0A] @
        byte_loop 0 (take (unat fileSize) bytes) @ ''};'' @ [CHR 0x0A] @
        ''unsigned binary_'' @ file_symbol name @ ''_size = '' @ print_dec (unat fileSize) @ '';'' @ [CHR 0x0A]))"

subsection \<open>What a C compiler reads\<close>

text \<open>The value of a hexadecimal digit, and the values between the braces: numbers with a prefix
  \<open>0x\<close>, separated by commas, with white space between the tokens.\<close>

definition hex_value :: "char \<Rightarrow> nat option" where
  "hex_value c = (let n = (of_char c :: nat) in
     if 48 \<le> n \<and> n \<le> 57 then Some (n - 48)
     else if 65 \<le> n \<and> n \<le> 70 then Some (n - 55)
     else if 97 \<le> n \<and> n \<le> 102 then Some (n - 87) else None)"

fun read_hex :: "nat \<Rightarrow> string \<Rightarrow> nat \<times> string" where
  "read_hex v [] = (v, [])"
| "read_hex v (c # cs) = (case hex_value c of Some d \<Rightarrow> read_hex (16 * v + d) cs | None \<Rightarrow> (v, c # cs))"

fun skip_space :: "string \<Rightarrow> string" where
  "skip_space [] = []"
| "skip_space (c # cs) = (if c = CHR '' '' \<or> c = CHR 0x0A then skip_space cs else c # cs)"

lemma read_hex_shorter: "length (snd (read_hex v cs)) \<le> length cs"
  by (induction v cs rule: read_hex.induct) (auto split: option.splits)

lemma skip_space_shorter: "length (skip_space cs) \<le> length cs"
  by (induction cs) auto

lemma values_shorter:
  assumes "skip_space cs = c # cs1" "cs1 \<noteq> []" "skip_space (snd (read_hex 0 (tl cs1))) = d # cs2"
  shows "length cs2 < length cs"
proof -
  have "length cs2 < length (tl cs1)" "length cs1 < length cs"
    using assms skip_space_shorter [of cs] skip_space_shorter [of "snd (read_hex 0 (tl cs1))"] read_hex_shorter [of 0 "tl cs1"]
    by auto
  then show ?thesis by simp
qed

function read_values :: "string \<Rightarrow> (nat list \<times> string) option" where
  "read_values cs = (case skip_space cs of
     c # cs1 \<Rightarrow>
       if c = CHR ''}'' then Some ([], cs1)
       else if c = CHR ''0'' \<and> cs1 \<noteq> [] \<and> hd cs1 = CHR ''x'' then
         (case skip_space (snd (read_hex 0 (tl cs1))) of
            d # cs2 \<Rightarrow> if d = CHR '','' then
                map_option (\<lambda>(vs, r). (fst (read_hex 0 (tl cs1)) # vs, r)) (read_values cs2)
              else if d = CHR ''}'' then Some ([fst (read_hex 0 (tl cs1))], cs2) else None
          | [] \<Rightarrow> None)
       else None
   | [] \<Rightarrow> None)"
  by auto
termination by (relation "measure length") (auto intro: values_shorter)

declare read_values.simps [simp del]

text \<open>The number after the last blank, without the semicolon.\<close>

definition read_dec :: "string \<Rightarrow> nat" where
  "read_dec ds = foldl (\<lambda>v c. 10 * v + the (hex_value c)) 0 ds"

subsection \<open>Reading back\<close>

lemma hex_digits: "n < 16 \<Longrightarrow> hex_value (hex_digit n) = Some n"
proof -
  have "list_all (\<lambda>n. hex_value (hex_digit n) = Some n) [0..<16]" by code_simp
  then show "n < 16 \<Longrightarrow> ?thesis" by (simp add: list_all_iff)
qed

lemma read_hex_one_byte:
  "read_hex 0 (tl (tl (one_byte b)) @ CHR '','' # cs) = (unat b, CHR '','' # cs)" "take 2 (one_byte b) = ''0x''"
proof -
  have b: "unat b < 256" using unsigned_less [of b] by simp
  have "hex_value CHR '','' = None" "hex_value CHR ''0'' = Some 0" by code_simp+
  then show "read_hex 0 (tl (tl (one_byte b)) @ CHR '','' # cs) = (unat b, CHR '','' # cs)"
    using b by (auto simp: one_byte_def print_hex_def hex_digits word_less_nat_alt)
  show "take 2 (one_byte b) = ''0x''" by (simp add: one_byte_def)
qed

lemma one_byte_split: "one_byte b = CHR ''0'' # CHR ''x'' # tl (tl (one_byte b))"
  by (simp add: one_byte_def)

lemma skip_space_other: "c \<noteq> CHR '' '' \<Longrightarrow> c \<noteq> CHR 0x0A \<Longrightarrow> skip_space (c # cs) = c # cs"
  by simp

lemma read_values_skip: "c = CHR '' '' \<or> c = CHR 0x0A \<Longrightarrow> read_values (c # cs) = read_values cs"
  by (subst (1 2) read_values.simps) (simp only: skip_space.simps if_True)

lemma read_values_byte:
  "read_values (one_byte b @ CHR '','' # cs) = map_option (\<lambda>(vs, r). (unat b # vs, r)) (read_values cs)"
  by (subst one_byte_split, subst read_values.simps) (simp add: read_hex_one_byte)

lemma read_values_loop:
  "read_values (byte_loop l bs @ CHR ''}'' # cs) = Some (map unat bs, cs)"
proof (induction l bs rule: byte_loop.induct)
  case (1 l)
  show ?case by (simp add: read_values.simps)
next
  case (2 l b bs)
  then show ?case by (simp add: read_values_byte read_values_skip)
qed

lemma print_dec_digits: "read_dec (print_dec n) = n"
proof (induction n rule: print_dec.induct)
  case (1 n)
  then show ?case
    by (cases "n < 10"; subst print_dec.simps) (simp_all add: read_dec_def hex_digits)
qed

text \<open>Property C23. A C compiler that reads the text of the tool gets back the bytes of the file: the values
  between the braces are the bytes in order, and the number that follows is their count. This
  holds for every file below 4 GB, whatever name it is given.\<close>

theorem bintoc_roundtrip:
  assumes run: "bintoc name bytes = Some code" and size: "length bytes < 2 ^ 32" and name: "CHR ''{'' \<notin> set name"
  shows "read_values (tl (dropWhile (\<lambda>c. c \<noteq> CHR ''{'') code)) = Some (map unat bytes,
      '';'' @ [CHR 0x0A] @ ''unsigned binary_'' @ file_symbol name @ ''_size = '' @ print_dec (length bytes) @ '';'' @ [CHR 0x0A]) \<and>
    read_dec (print_dec (length bytes)) = length bytes"
proof
  have n: "unat (of_nat (length bytes) :: u32) = length bytes" using size by (simp add: unat_of_nat)
  let ?pre = "''unsigned char binary_'' @ file_symbol name @ ''_start[] = ''"
  have "CHR ''{'' \<notin> set ?pre" using name by (auto simp: file_symbol_def)
  then have pre: "dropWhile (\<lambda>c. c \<noteq> CHR ''{'') (?pre @ CHR ''{'' # cs) = CHR ''{'' # cs" for cs
    by (subst dropWhile_append2) auto
  have code: "code = ?pre @ CHR ''{'' # CHR 0x0A # byte_loop 0 bytes @ CHR ''}'' # CHR '';'' # CHR 0x0A #
      ''unsigned binary_'' @ file_symbol name @ ''_size = '' @ print_dec (length bytes) @ '';'' @ [CHR 0x0A]"
    using run by (simp add: bintoc_def Let_def n split: if_splits)
  show "read_values (tl (dropWhile (\<lambda>c. c \<noteq> CHR ''{'') code)) = Some (map unat bytes,
      '';'' @ [CHR 0x0A] @ ''unsigned binary_'' @ file_symbol name @ ''_size = '' @ print_dec (length bytes) @ '';'' @ [CHR 0x0A])"
    unfolding code pre by (simp add: read_values_skip read_values_loop)
  show "read_dec (print_dec (length bytes)) = length bytes" by (rule print_dec_digits)
qed

theorem bintoc_roundtrip_witness:
  "\<exists>code. bintoc ''fs/serv.b'' [0x7F, 0x45, 0x4C, 0x46, 0, 1, 2, 3, 4, 5, 0xFF] = Some code \<and>
    fst (the (read_values (tl (dropWhile (\<lambda>c. c \<noteq> CHR ''{'') code)))) = [127, 69, 76, 70, 0, 1, 2, 3, 4, 5, 255]"
proof -
  let ?bs = "[0x7F, 0x45, 0x4C, 0x46, 0, 1, 2, 3, 4, 5, 0xFF] :: u8 list"
  obtain code where code: "bintoc ''fs/serv.b'' ?bs = Some code" by (simp add: bintoc_def Let_def)
  from bintoc_roundtrip [OF this] code show ?thesis by simp
qed

end
